(* ===== verification/Spec_Prelude.thy ===== *)
theory Spec_Prelude
  imports Main "HOL-Library.Monad_Syntax" "HOL-Library.Multiset" "HOL-Library.Word"
begin

text \<open>
  Shared vocabulary of the development: the C base types of SPASS's \<open>misc.h\<close>, the
  theorem collections the component theories fill, and generic facts on lists, options and
  multisets that more than one component uses.

  \<open>POINTER\<close> (\<open>void*\<close>) is a natural number, the address it holds or the integer cast into
  it, with \<open>0\<close> for \<open>NULL\<close>. \<open>NAT\<close> (\<open>unsigned int\<close>) is a 32-bit word, so arithmetic on it
  wraps as in C. A value of type \<open>option\<close> is \<open>None\<close> where the C code faults (a null or
  dangling pointer is followed) or does not return.
\<close>

type_synonym ptr = nat
type_synonym NAT = "32 word"

abbreviation (input) NULL :: ptr where "NULL \<equiv> 0"

named_theorems heap_simps \<open>equations that execute heap primitives on known cells\<close>
named_theorems seg_intros \<open>facts that re-establish list segments after an update\<close>

subsection \<open>Options\<close>

lemma bind_eq_Some_iff: "Option.bind m f = Some y \<longleftrightarrow> (\<exists>x. m = Some x \<and> f x = Some y)"
  by (cases m) auto

subsection \<open>Loops over a list whose body may fail\<close>

text \<open>Loops that stop at the first element for which the test fails, or at the first for which it
  holds, and the loop that replaces every element. Recursive functions of the code go through them:
  the congruence rules are for \<^theory_text>\<open>fun\<close>, the monotonicity rules for \<^theory_text>\<open>partial_function\<close>.\<close>

fun all_loop :: "('a \<Rightarrow> bool option) \<Rightarrow> 'a list \<Rightarrow> bool option" where
  "all_loop f [] = Some True"
| "all_loop f (x # xs) =
     (case f x of None \<Rightarrow> None | Some b \<Rightarrow> if b then all_loop f xs else Some False)"

fun any_loop :: "('a \<Rightarrow> bool option) \<Rightarrow> 'a list \<Rightarrow> bool option" where
  "any_loop f [] = Some False"
| "any_loop f (x # xs) =
     (case f x of None \<Rightarrow> None | Some b \<Rightarrow> if b then Some True else any_loop f xs)"

fun map_loop :: "('a \<Rightarrow> 'b option) \<Rightarrow> 'a list \<Rightarrow> 'b list option" where
  "map_loop f [] = Some []"
| "map_loop f (x # xs) = Option.bind (f x) (\<lambda>y. Option.bind (map_loop f xs) (\<lambda>ys. Some (y # ys)))"

lemma all_loop_cong [fundef_cong]: "xs = ys \<Longrightarrow> (\<And>x. x \<in> set ys \<Longrightarrow> f x = g x) \<Longrightarrow> all_loop f xs = all_loop g ys"
  by (induction xs arbitrary: ys) (auto split: option.splits)

lemma any_loop_cong [fundef_cong]: "xs = ys \<Longrightarrow> (\<And>x. x \<in> set ys \<Longrightarrow> f x = g x) \<Longrightarrow> any_loop f xs = any_loop g ys"
  by (induction xs arbitrary: ys) (auto split: option.splits)

lemma map_loop_cong [fundef_cong]: "xs = ys \<Longrightarrow> (\<And>x. x \<in> set ys \<Longrightarrow> f x = g x) \<Longrightarrow> map_loop f xs = map_loop g ys"
  by (induction xs arbitrary: ys) auto

lemma all_loop_bind: "all_loop f (x # xs) = Option.bind (f x) (\<lambda>b. if b then all_loop f xs else Some False)"
  by (simp split: option.split)

lemma any_loop_bind: "any_loop f (x # xs) = Option.bind (f x) (\<lambda>b. if b then Some True else any_loop f xs)"
  by (simp split: option.split)

lemma all_loop_mono [partial_function_mono]:
  assumes "\<And>y. mono_option (\<lambda>f. C y f)"
  shows "mono_option (\<lambda>f. all_loop (\<lambda>y. C y f) xs)"
proof (induction xs)
  case (Cons x xs)
  show ?case unfolding all_loop_bind using assms Cons by (intro bind_mono if_mono option.const_mono)
qed (simp add: option.const_mono)

lemma any_loop_mono [partial_function_mono]:
  assumes "\<And>y. mono_option (\<lambda>f. C y f)"
  shows "mono_option (\<lambda>f. any_loop (\<lambda>y. C y f) xs)"
proof (induction xs)
  case (Cons x xs)
  show ?case unfolding any_loop_bind using assms Cons by (intro bind_mono if_mono option.const_mono)
qed (simp add: option.const_mono)

lemma map_loop_mono [partial_function_mono]:
  assumes "\<And>y. mono_option (\<lambda>f. C y f)"
  shows "mono_option (\<lambda>f. map_loop (\<lambda>y. C y f) xs)"
proof (induction xs)
  case (Cons x xs)
  show ?case unfolding map_loop.simps using assms Cons by (intro bind_mono option.const_mono)
qed (simp add: option.const_mono)

lemma all_loop_Some: "(\<And>x. x \<in> set xs \<Longrightarrow> f x = Some (P x)) \<Longrightarrow> all_loop f xs = Some (\<forall>x \<in> set xs. P x)"
  by (induction xs) auto

lemma any_loop_Some: "(\<And>x. x \<in> set xs \<Longrightarrow> f x = Some (P x)) \<Longrightarrow> any_loop f xs = Some (\<exists>x \<in> set xs. P x)"
  by (induction xs) auto

lemma map_loop_Some: "(\<And>x. x \<in> set xs \<Longrightarrow> f x = Some (g x)) \<Longrightarrow> map_loop f xs = Some (map g xs)"
  by (induction xs) auto

text \<open>A loop over a list that threads a state.\<close>

fun fold_loop :: "('s \<Rightarrow> 'a \<Rightarrow> 's option) \<Rightarrow> 's \<Rightarrow> 'a list \<Rightarrow> 's option" where
  "fold_loop f s [] = Some s"
| "fold_loop f s (x # xs) = Option.bind (f s x) (\<lambda>s. fold_loop f s xs)"

lemma fold_loop_cong [fundef_cong]:
  "xs = ys \<Longrightarrow> s = s' \<Longrightarrow> (\<And>s x. x \<in> set ys \<Longrightarrow> f s x = g s x) \<Longrightarrow> fold_loop f s xs = fold_loop g s' ys"
  by (induction xs arbitrary: ys s s') (auto intro!: Option.bind_cong)

lemma fold_loop_mono [partial_function_mono]:
  assumes "\<And>s y. mono_option (\<lambda>f. C s y f)"
  shows "mono_option (\<lambda>f. fold_loop (\<lambda>s y. C s y f) s xs)"
proof (induction xs arbitrary: s)
  case (Cons x xs)
  show ?case unfolding fold_loop.simps using assms Cons by (intro bind_mono)
qed (simp add: option.const_mono)

lemma map_option_as_bind: "map_option g x = Option.bind x (\<lambda>y. Some (g y))"
  by (cases x) simp_all

lemma map_option_mono [partial_function_mono]:
  assumes "mono_option B"
  shows "mono_option (\<lambda>f. map_option g (B f))"
  unfolding map_option_as_bind using assms by (intro bind_mono option.const_mono)

text \<open>The loops on two lists whose elements correspond.\<close>

lemma all_loop_rel: "list_all2 (\<lambda>x y. f x = g y) xs ys \<Longrightarrow> all_loop f xs = all_loop g ys"
  by (induction rule: list_all2_induct) (auto split: option.splits)

lemma any_loop_rel: "list_all2 (\<lambda>x y. f x = g y) xs ys \<Longrightarrow> any_loop f xs = any_loop g ys"
  by (induction rule: list_all2_induct) (auto split: option.splits)

lemma map_loop_rel: "list_all2 (\<lambda>x y. f x = Some (g y)) xs ys \<Longrightarrow> map_loop f xs = Some (map g ys)"
  by (induction rule: list_all2_induct) auto

text \<open>The loop over two argument lists that threads a state and stops at the first failure;
  \<open>None\<close> when the second list is the shorter.\<close>

fun args_loop :: "('s \<Rightarrow> 'a \<Rightarrow> 'b \<Rightarrow> (bool \<times> 's) option) \<Rightarrow> 's \<Rightarrow> 'a list \<Rightarrow> 'b list \<Rightarrow> (bool \<times> 's) option" where
  "args_loop f s [] rs = Some (True, s)"
| "args_loop f s (l # ls) [] = None"
| "args_loop f s (l # ls) (r # rs) = Option.bind (f s l r) (\<lambda>p. if fst p then args_loop f (snd p) ls rs else Some (False, snd p))"

lemma args_loop_cong [fundef_cong]:
  "ls = ls' \<Longrightarrow> rs = rs' \<Longrightarrow> s = s' \<Longrightarrow> (\<And>l r s. l \<in> set ls' \<Longrightarrow> r \<in> set rs' \<Longrightarrow> f s l r = g s l r)
     \<Longrightarrow> args_loop f s ls rs = args_loop g s' ls' rs'"
proof (induction ls rs arbitrary: ls' rs' s s' rule: list_induct2')
  case (4 l ls r rs)
  have "args_loop f s'' ls rs = args_loop g s'' ls rs" for s''
    by (rule "4.IH") (use "4.prems" in auto)
  then show ?case using 4 by (auto intro!: Option.bind_cong)
qed auto

lemma args_loop_mono [partial_function_mono]:
  assumes "\<And>s l r. mono_option (\<lambda>f. C s l r f)"
  shows "mono_option (\<lambda>f. args_loop (\<lambda>s l r. C s l r f) s ls rs)"
proof (induction ls rs arbitrary: s rule: list_induct2')
  case (4 l ls r rs)
  show ?case unfolding args_loop.simps using assms 4 by (intro bind_mono if_mono option.const_mono)
qed (simp_all add: option.const_mono)

subsection \<open>32-bit naturals\<close>

lemma nat32_eq_0_iff: "m < 2 ^ 32 \<Longrightarrow> (of_nat m :: NAT) = 0 \<longleftrightarrow> m = 0"
  by (simp add: word_of_nat_eq_0_iff) (auto dest: nat_dvd_not_less)

subsection \<open>Lists and multisets\<close>

lemma map_snd_filter:
  "map snd (filter (\<lambda>(a, v). P v) ps) = filter P (map snd ps)"
  by (induction ps) auto

lemma fst_filter_subset: "fst ` set (filter P ps) \<subseteq> fst ` set ps"
  by auto

lemma distinct_map_fst_filter:
  "distinct (map fst ps) \<Longrightarrow> distinct (map fst (filter P ps))"
  by (simp add: distinct_map_filter)

lemma sorted_wrt_append_iff:
  "sorted_wrt R (xs @ ys) \<longleftrightarrow>
     sorted_wrt R xs \<and> sorted_wrt R ys \<and> (\<forall>x \<in> set xs. \<forall>y \<in> set ys. R x y)"
  by (simp add: sorted_wrt_append)

end
