(* ===== verification/Spass_Memory.thy ===== *)
theory Spass_Memory
  imports Spec_Prelude
begin

text \<open>
  The store of list nodes (\<open>lib/SPASS-3.7/SPASS/list.h\<close>) and the allocator that serves it
  (\<open>memory.c\<close>). A list node is the record of its two fields; the heap maps the address of
  every allocated node to it. \<open>memory.c\<close> keeps for every block size a stack of freed blocks
  and a pointer to the next fresh block; the heap holds these two for the size of a list node,
  with addresses counted in blocks. Pages, the memory limit and big blocks are not modelled:
  an allocation always succeeds here, where the code may also print an error and exit.
\<close>

subsection \<open>Nodes and heaps\<close>

record LIST_NODE =
  cdr :: ptr
  car :: ptr

record heap =
  store :: "ptr \<rightharpoonup> LIST_NODE"
  free_blocks :: "ptr list"
  next_block :: ptr

definition empty_heap :: heap where
  "empty_heap = \<lparr>store = Map.empty, free_blocks = [], next_block = 1\<rparr>"

text \<open>What the allocator relies on: freed blocks and nodes in use are disjoint, non-null and
  below the next fresh block, and no block is on the free list twice.\<close>

definition wf_heap :: "heap \<Rightarrow> bool" where
  "wf_heap h \<longleftrightarrow> 0 < next_block h
     \<and> (\<forall>a. a \<in> dom (store h) \<or> a \<in> set (free_blocks h) \<longrightarrow> 0 < a \<and> a < next_block h)
     \<and> distinct (free_blocks h) \<and> dom (store h) \<inter> set (free_blocks h) = {}"

subsection \<open>Allocation\<close>

definition node_Malloc :: "heap \<Rightarrow> ptr \<times> heap" where
  "node_Malloc h =
     (case free_blocks h of
        a # as \<Rightarrow> (a, h\<lparr>free_blocks := as, store := (store h)(a \<mapsto> \<lparr>cdr = 0, car = 0\<rparr>)\<rparr>)
      | [] \<Rightarrow> (next_block h,
           h\<lparr>next_block := next_block h + 1,
             store := (store h)(next_block h \<mapsto> \<lparr>cdr = 0, car = 0\<rparr>)\<rparr>))"

definition node_Free :: "ptr \<Rightarrow> heap \<Rightarrow> heap option" where
  "node_Free a h =
     (case store h a of
        None \<Rightarrow> None
      | Some _ \<Rightarrow> Some (h\<lparr>store := (store h)(a := None), free_blocks := a # free_blocks h\<rparr>))"

subsection \<open>The allocator's contract\<close>

text \<open>The interface every list operation relies on: a fresh block is non-null and was not in
  use, and freeing gives up exactly the freed block.\<close>

locale block_allocator =
  fixes malloc :: "'s \<Rightarrow> ptr \<times> 's"
    and free :: "ptr \<Rightarrow> 's \<Rightarrow> 's option"
    and live :: "'s \<Rightarrow> ptr set"
    and inv :: "'s \<Rightarrow> bool"
  assumes malloc_fresh: "inv s \<Longrightarrow> malloc s = (a, t) \<Longrightarrow> a \<noteq> NULL \<and> a \<notin> live s"
    and malloc_live: "inv s \<Longrightarrow> malloc s = (a, t) \<Longrightarrow> live t = insert a (live s) \<and> inv t"
    and free_live: "inv s \<Longrightarrow> a \<in> live s \<Longrightarrow> \<exists>t. free a s = Some t \<and> live t = live s - {a} \<and> inv t"
    and free_dead: "a \<notin> live s \<Longrightarrow> free a s = None"
begin

lemma malloc_then_free:
  assumes "inv s" and "malloc s = (a, t)"
  shows "\<exists>u. free a t = Some u \<and> live u = live s \<and> inv u"
proof -
  have "a \<in> live t" and "inv t" and l: "live t = insert a (live s)"
    using malloc_live [OF assms] by auto
  then obtain u where "free a t = Some u" "live u = live t - {a}" "inv u"
    using free_live by blast
  with l malloc_fresh [OF assms] show ?thesis by auto
qed

lemma two_mallocs_distinct:
  assumes "inv s" and "malloc s = (a, t)" and "malloc t = (b, u)"
  shows "a \<noteq> b"
  using malloc_live [OF assms(1,2)] malloc_fresh [of t b u] assms(3) by auto

lemma no_double_free:
  assumes "inv s" and "a \<in> live s" and "free a s = Some t"
  shows "free a t = None"
  using free_live [OF assms(1,2)] assms(3) free_dead by fastforce

end

lemma wf_heapD:
  assumes "wf_heap h"
  shows "0 < next_block h" "\<And>a c. store h a = Some c \<Longrightarrow> 0 < a \<and> a < next_block h"
    "\<And>a. a \<in> set (free_blocks h) \<Longrightarrow> 0 < a \<and> a < next_block h \<and> store h a = None"
    "distinct (free_blocks h)"
  using assms by (auto simp: wf_heap_def dom_def)

lemma wf_heapI:
  assumes "0 < next_block h" "\<And>a c. store h a = Some c \<Longrightarrow> 0 < a \<and> a < next_block h"
    "\<And>a. a \<in> set (free_blocks h) \<Longrightarrow> 0 < a \<and> a < next_block h \<and> store h a = None"
    "distinct (free_blocks h)"
  shows "wf_heap h"
  using assms by (force simp: wf_heap_def dom_def)

lemma wf_heap_malloc:
  assumes "wf_heap h" and "node_Malloc h = (a, h')"
  shows "a \<noteq> 0" "store h a = None" "wf_heap h'"
    "store h' = (store h)(a \<mapsto> \<lparr>cdr = 0, car = 0\<rparr>)"
proof -
  note wf = wf_heapD [OF assms(1)]
  have "store h (next_block h) = None"
    using wf(2) [of "next_block h"] by (cases "store h (next_block h)") auto
  then show "a \<noteq> 0" and "store h a = None" and "store h' = (store h)(a \<mapsto> \<lparr>cdr = 0, car = 0\<rparr>)"
    using assms(2) wf(1,3)
    by (auto simp: node_Malloc_def split: list.splits)
  show "wf_heap h'"
    using assms(2) wf
    by (intro wf_heapI) (force simp: node_Malloc_def less_Suc_eq split: list.splits if_splits)+
qed

lemma wf_heap_free:
  assumes "wf_heap h" and "store h a = Some c"
  shows "\<exists>h'. node_Free a h = Some h' \<and> wf_heap h' \<and> store h' = (store h)(a := None)"
proof -
  note wf = wf_heapD [OF assms(1)]
  have "wf_heap (h\<lparr>store := (store h)(a := None), free_blocks := a # free_blocks h\<rparr>)"
    using wf assms(2) by (intro wf_heapI) (auto split: if_splits)
  then show ?thesis using assms(2) by (simp add: node_Free_def)
qed

interpretation mem: block_allocator node_Malloc node_Free "\<lambda>h. dom (store h)" wf_heap
proof unfold_locales
  fix s t :: heap and a assume "wf_heap s" "node_Malloc s = (a, t)"
  note m = wf_heap_malloc [OF this]
  show "a \<noteq> NULL \<and> a \<notin> dom (store s)" using m(1,2) by auto
  show "dom (store t) = insert a (dom (store s)) \<and> wf_heap t" using m(3,4) by simp
next
  fix s :: heap and a assume "wf_heap s" "a \<in> dom (store s)"
  then obtain c where "wf_heap s" and "store s a = Some c" by auto
  from wf_heap_free [OF this] obtain t
    where "node_Free a s = Some t" "wf_heap t" "store t = (store s)(a := None)" by blast
  then show "\<exists>t. node_Free a s = Some t \<and> dom (store t) = dom (store s) - {a} \<and> wf_heap t"
    by simp
next
  fix s :: heap and a assume "a \<notin> dom (store s)"
  then show "node_Free a s = None" by (auto simp: node_Free_def split: option.splits)
qed

lemma wf_empty_heap: "wf_heap empty_heap"
  by (simp add: wf_heap_def empty_heap_def)

end
