(* ===== verification/Spass_Seg.thy ===== *)
theory Spass_Seg
  imports Spass_Memory
begin

text \<open>
  List segments: the abstraction from the heap to lists that every theorem on the list module
  uses. A segment is described by the nodes it passes, each with its address and its content,
  so that a theorem can say both what the resulting list holds and which nodes it reuses.
\<close>

type_synonym nodes = "(ptr \<times> ptr) list"

fun seg :: "(ptr \<rightharpoonup> LIST_NODE) \<Rightarrow> ptr \<Rightarrow> nodes \<Rightarrow> ptr \<Rightarrow> bool" where
  "seg s p [] q \<longleftrightarrow> p = q"
| "seg s p ((a, v) # ps) q \<longleftrightarrow>
     p = a \<and> a \<noteq> NULL \<and> (\<exists>r. s a = Some \<lparr>cdr = r, car = v\<rparr> \<and> seg s r ps q)"

abbreviation addrs :: "nodes \<Rightarrow> ptr set" where "addrs ps \<equiv> fst ` set ps"
abbreviation elems :: "nodes \<Rightarrow> ptr list" where "elems ps \<equiv> map snd ps"

text \<open>\<open>agree A s t\<close>: the stores differ at most on the addresses \<open>A\<close>.\<close>

definition agree :: "ptr set \<Rightarrow> heap \<Rightarrow> heap \<Rightarrow> bool" where
  "agree A h h' \<longleftrightarrow> (\<forall>a. a \<notin> A \<longrightarrow> store h' a = store h a)"

text \<open>\<open>frame A h h'\<close>: every node in use that is not in \<open>A\<close> is unchanged (fresh nodes may have
  been added).\<close>

definition frame :: "ptr set \<Rightarrow> heap \<Rightarrow> heap \<Rightarrow> bool" where
  "frame A h h' \<longleftrightarrow> (\<forall>a. a \<in> dom (store h) \<and> a \<notin> A \<longrightarrow> store h' a = store h a)"

lemma agree_refl [simp]: "agree A h h" by (simp add: agree_def)
lemma frame_refl [simp]: "frame A h h" by (simp add: frame_def)

lemma agree_trans: "agree A h1 h2 \<Longrightarrow> agree A h2 h3 \<Longrightarrow> agree A h1 h3"
  by (simp add: agree_def)

lemma agree_mono: "agree A h h' \<Longrightarrow> A \<subseteq> B \<Longrightarrow> agree B h h'"
  by (auto simp: agree_def)

lemma agree_frame: "agree A h h' \<Longrightarrow> frame A h h'"
  by (simp add: agree_def frame_def)

lemma frame_mono: "frame A h h' \<Longrightarrow> A \<subseteq> B \<Longrightarrow> frame B h h'"
  by (auto simp: frame_def)

lemma seg_append: "seg s p (ps @ qs) q \<longleftrightarrow> (\<exists>r. seg s p ps r \<and> seg s r qs q)"
  by (induction ps arbitrary: p) (simp, clarsimp, blast)

lemma seg_NULL: "seg s NULL ps q \<longleftrightarrow> ps = [] \<and> q = NULL"
  by (cases ps) auto

lemma seg_cong:
  "(\<And>a. a \<in> addrs ps \<Longrightarrow> t a = s a) \<Longrightarrow> seg t p ps q \<longleftrightarrow> seg s p ps q"
  by (induction ps arbitrary: p) auto

lemma seg_upd [simp]: "a \<notin> addrs ps \<Longrightarrow> seg (s(a := c)) p ps q \<longleftrightarrow> seg s p ps q"
  by (rule seg_cong) auto

lemma seg_agree: "agree A h h' \<Longrightarrow> addrs ps \<inter> A = {} \<Longrightarrow> seg (store h) p ps q \<Longrightarrow> seg (store h') p ps q"
  by (subst seg_cong [of ps "store h'" "store h"]) (auto simp: agree_def)

lemma seg_in_store:
  "seg s p ps q \<Longrightarrow> (a, v) \<in> set ps \<Longrightarrow> a \<noteq> NULL \<and> (\<exists>r. s a = Some \<lparr>cdr = r, car = v\<rparr>)"
proof (induction ps arbitrary: p)
  case (Cons x ps)
  then show ?case by (cases x) (clarsimp, blast)
qed simp

lemma seg_dom: "seg s p ps q \<Longrightarrow> addrs ps \<subseteq> dom s"
  by (force dest: seg_in_store)

lemma seg_nonnull: "seg s p ps q \<Longrightarrow> NULL \<notin> addrs ps"
  by (force dest: seg_in_store)

lemma seg_frame:
  assumes "frame A h h'" "addrs ps \<inter> A = {}" "seg (store h) p ps q"
  shows "seg (store h') p ps q"
proof -
  have "addrs ps \<subseteq> dom (store h)" using assms(3) by (rule seg_dom)
  then have "store h' a = store h a" if "a \<in> addrs ps" for a
    using assms(1,2) that by (force simp: frame_def)
  then show ?thesis using assms(3) seg_cong [of ps "store h'" "store h"] by blast
qed

lemma seg_unique: "seg s p ps NULL \<Longrightarrow> seg s p qs NULL \<Longrightarrow> ps = qs"
proof (induction ps arbitrary: p qs)
  case Nil
  then show ?case by (auto simp: seg_NULL)
next
  case (Cons x ps)
  then show ?case by (cases x; cases qs) auto
qed

lemma seg_distinct: "seg s p ps NULL \<Longrightarrow> distinct (map fst ps)"
proof (induction ps arbitrary: p)
  case (Cons x ps)
  obtain a v where x: "x = (a, v)" by (cases x)
  with Cons.prems obtain r where r: "s a = Some \<lparr>cdr = r, car = v\<rparr>" "seg s r ps NULL" by auto
  have "a \<notin> addrs ps"
  proof
    assume "a \<in> addrs ps"
    then obtain w us vs where ps: "ps = us @ (a, w) # vs" by (auto dest: split_list)
    with r have "seg s a ((a, w) # vs) NULL" by (auto simp: seg_append)
    moreover have "seg s a ((a, v) # ps) NULL" using Cons.prems x by auto
    ultimately show False using ps by (auto dest: seg_unique)
  qed
  with Cons.IH [OF r(2)] x show ?case by simp
qed simp

lemma seg_Cons_iff:
  "seg s p (x # ps) q \<longleftrightarrow>
     p = fst x \<and> p \<noteq> NULL \<and> (\<exists>r. s p = Some \<lparr>cdr = r, car = snd x\<rparr> \<and> seg s r ps q)"
  by (cases x) auto

lemma seg_neq_NULL:
  assumes "seg s p ps NULL" "p \<noteq> NULL"
  obtains v r qs where "ps = (p, v) # qs" "s p = Some \<lparr>cdr = r, car = v\<rparr>" "seg s r qs NULL"
    "p \<notin> addrs qs"
proof (cases ps)
  case Nil
  with assms show ?thesis by simp
next
  case (Cons x qs)
  with assms(1) seg_distinct [OF assms(1)] show ?thesis
    using that by (cases x) auto
qed

lemma seg_snoc_last:
  "seg s p ps a \<Longrightarrow> a \<noteq> NULL \<Longrightarrow> s a = Some \<lparr>cdr = r, car = v\<rparr> \<Longrightarrow> seg s p (ps @ [(a, v)]) r"
  by (auto simp: seg_append)

lemma addrs_filter: "addrs (filter P ps) \<subseteq> addrs ps"
  by auto

lemma LIST_NODE_eta: "\<lparr>cdr = cdr n, car = car n\<rparr> = n"
  by (cases n) simp

text \<open>Allocation keeps every segment.\<close>

lemma wf_heap_dom_upd:
  assumes "wf_heap h" "a \<in> dom (store h)"
  shows "wf_heap (h\<lparr>store := (store h)(a \<mapsto> n)\<rparr>)"
  using wf_heapD [OF assms(1)] assms(2) by (intro wf_heapI) (auto split: if_splits)

end
