(* ===== verification/Spass_List.thy ===== *)
theory Spass_List
  imports Spass_Seg
begin

text \<open>
  The list module of SPASS (\<open>list.h\<close>, \<open>list.c\<close>) on the heap of \<open>Spass_Memory\<close>: the field
  accessors, construction, copying, reversal, concatenation and the scans that only read.
  Every operation takes the heap last and returns it when it writes. Loops are
  \<^theory_text>\<open>partial_function (option)\<close>, so \<open>None\<close> covers both a fault and a loop that does not end; the
  theorems show that on a null-terminated list every operation returns.

  \<open>seg s p ps q\<close> says that following \<open>cdr\<close> from \<open>p\<close> one passes the nodes \<open>ps\<close> (address and
  content) and arrives at \<open>q\<close>; a C list is a segment that ends in \<open>NULL\<close>. Element functions
  and tests passed in as function pointers are parameters that may read (or change) the heap.
\<close>

section \<open>Field access\<close>

definition list_Nil :: ptr where "list_Nil = NULL"
definition list_Empty :: "ptr \<Rightarrow> bool" where "list_Empty L = (L = NULL)"
definition list_Exist :: "ptr \<Rightarrow> bool" where "list_Exist L = (L \<noteq> NULL)"

definition list_Car :: "ptr \<Rightarrow> heap \<Rightarrow> ptr option" where
  "list_Car L h = map_option car (store h L)"

definition list_Cdr :: "ptr \<Rightarrow> heap \<Rightarrow> ptr option" where
  "list_Cdr L h = map_option cdr (store h L)"

definition list_Free :: "ptr \<Rightarrow> heap \<Rightarrow> heap option" where
  "list_Free L h = node_Free L h"

definition list_NCar :: "ptr \<Rightarrow> heap \<Rightarrow> (ptr \<times> ptr \<times> heap) option" where
  \<comment> \<open>the result, the new value of \<open>*L\<close> and the heap\<close>
  "list_NCar L h = do {
     Result \<leftarrow> list_Car L h;
     Help \<leftarrow> list_Cdr L h;
     h \<leftarrow> list_Free L h;
     Some (Result, Help, h) }"

definition list_First :: "ptr \<Rightarrow> heap \<Rightarrow> ptr option" where
  "list_First L h = list_Car L h"

definition list_Second :: "ptr \<Rightarrow> heap \<Rightarrow> ptr option" where
  "list_Second L h = do { a \<leftarrow> list_Cdr L h; list_Car a h }"

definition list_Third :: "ptr \<Rightarrow> heap \<Rightarrow> ptr option" where
  "list_Third L h = do { a \<leftarrow> list_Cdr L h; b \<leftarrow> list_Cdr a h; list_Car b h }"

definition list_Fourth :: "ptr \<Rightarrow> heap \<Rightarrow> ptr option" where
  "list_Fourth L h = do { a \<leftarrow> list_Cdr L h; list_Third a h }"

definition list_Fifth :: "ptr \<Rightarrow> heap \<Rightarrow> ptr option" where
  "list_Fifth L h = do { a \<leftarrow> list_Cdr L h; list_Fourth a h }"

definition list_Rplacd :: "ptr \<Rightarrow> ptr \<Rightarrow> heap \<Rightarrow> heap option" where
  "list_Rplacd L1 L2 h =
     map_option (\<lambda>n. h\<lparr>store := (store h)(L1 \<mapsto> n\<lparr>cdr := L2\<rparr>)\<rparr>) (store h L1)"

definition list_Rplaca :: "ptr \<Rightarrow> ptr \<Rightarrow> heap \<Rightarrow> heap option" where
  "list_Rplaca L P h =
     map_option (\<lambda>n. h\<lparr>store := (store h)(L \<mapsto> n\<lparr>car := P\<rparr>)\<rparr>) (store h L)"

definition list_RplacSecond :: "ptr \<Rightarrow> ptr \<Rightarrow> heap \<Rightarrow> heap option" where
  "list_RplacSecond L P h = do { a \<leftarrow> list_Cdr L h; list_Rplaca a P h }"

definition list_Cons :: "ptr \<Rightarrow> ptr \<Rightarrow> heap \<Rightarrow> ptr \<times> heap" where
  "list_Cons Ptr List h =
     (case node_Malloc h of
        (Cell, h) \<Rightarrow> (Cell, h\<lparr>store := (store h)(Cell \<mapsto> \<lparr>cdr = List, car = Ptr\<rparr>)\<rparr>))"

definition list_List :: "ptr \<Rightarrow> heap \<Rightarrow> ptr \<times> heap" where
  "list_List P h = list_Cons P list_Nil h"

section \<open>Copying and element-wise functions\<close>

partial_function (option) list_Copy_loop :: "ptr \<Rightarrow> ptr \<Rightarrow> heap \<Rightarrow> heap option" where
  "list_Copy_loop Scan1 Scan2 h =
     (if list_Empty Scan2 then Some h
      else do {
        x \<leftarrow> list_Car Scan2 h;
        (c, h) \<leftarrow> Some (list_List x h);
        h \<leftarrow> list_Rplacd Scan1 c h;
        Scan1 \<leftarrow> list_Cdr Scan1 h;
        Scan2 \<leftarrow> list_Cdr Scan2 h;
        list_Copy_loop Scan1 Scan2 h })"

definition list_Copy :: "ptr \<Rightarrow> heap \<Rightarrow> (ptr \<times> heap) option" where
  "list_Copy List h =
     (if list_Empty List then Some (list_Nil, h)
      else do {
        x \<leftarrow> list_Car List h;
        (Copy, h) \<leftarrow> Some (list_List x h);
        Scan2 \<leftarrow> list_Cdr List h;
        h \<leftarrow> list_Copy_loop Copy Scan2 h;
        Some (Copy, h) })"

type_synonym element_fun = "ptr \<Rightarrow> heap \<Rightarrow> (ptr \<times> heap) option"

partial_function (option) list_CopyWithElement_loop ::
  "element_fun \<Rightarrow> ptr \<Rightarrow> ptr \<Rightarrow> heap \<Rightarrow> heap option" where
  "list_CopyWithElement_loop CopyElement Scan1 Scan2 h =
     (if list_Empty Scan2 then Some h
      else do {
        x \<leftarrow> list_Car Scan2 h;
        (y, h) \<leftarrow> CopyElement x h;
        (c, h) \<leftarrow> Some (list_List y h);
        h \<leftarrow> list_Rplacd Scan1 c h;
        Scan1 \<leftarrow> list_Cdr Scan1 h;
        Scan2 \<leftarrow> list_Cdr Scan2 h;
        list_CopyWithElement_loop CopyElement Scan1 Scan2 h })"

definition list_CopyWithElement :: "ptr \<Rightarrow> element_fun \<Rightarrow> heap \<Rightarrow> (ptr \<times> heap) option" where
  "list_CopyWithElement List CopyElement h =
     (if list_Empty List then Some (list_Nil, h)
      else do {
        x \<leftarrow> list_Car List h;
        (y, h) \<leftarrow> CopyElement x h;
        (Copy, h) \<leftarrow> Some (list_List y h);
        Scan2 \<leftarrow> list_Cdr List h;
        h \<leftarrow> list_CopyWithElement_loop CopyElement Copy Scan2 h;
        Some (Copy, h) })"

definition list_InsertNext :: "ptr \<Rightarrow> ptr \<Rightarrow> heap \<Rightarrow> heap option" where
  "list_InsertNext List Pointer h = do {
     q \<leftarrow> list_Cdr List h;
     (c, h) \<leftarrow> Some (list_Cons Pointer q h);
     list_Rplacd List c h }"

partial_function (option) list_NMapCar :: "ptr \<Rightarrow> element_fun \<Rightarrow> heap \<Rightarrow> heap option" where
  "list_NMapCar Scan ElementFunc h =
     (if list_Empty Scan then Some h
      else do {
        x \<leftarrow> list_Car Scan h;
        (y, h) \<leftarrow> ElementFunc x h;
        h \<leftarrow> list_Rplaca Scan y h;
        Scan \<leftarrow> list_Cdr Scan h;
        list_NMapCar Scan ElementFunc h })"

partial_function (option) list_Apply :: "(ptr \<Rightarrow> heap \<Rightarrow> heap option) \<Rightarrow> ptr \<Rightarrow> heap \<Rightarrow> heap option" where
  "list_Apply Function List h =
     (if list_Empty List then Some h
      else do {
        x \<leftarrow> list_Car List h;
        h \<leftarrow> Function x h;
        List \<leftarrow> list_Cdr List h;
        list_Apply Function List h })"

section \<open>Reversal and concatenation\<close>

partial_function (option) list_Reverse_loop :: "ptr \<Rightarrow> ptr \<Rightarrow> heap \<Rightarrow> (ptr \<times> heap) option" where
  "list_Reverse_loop Scan ReverseList h =
     (if list_Empty Scan then Some (ReverseList, h)
      else do {
        x \<leftarrow> list_Car Scan h;
        (ReverseList, h) \<leftarrow> Some (list_Cons x ReverseList h);
        Scan \<leftarrow> list_Cdr Scan h;
        list_Reverse_loop Scan ReverseList h })"

definition list_Reverse :: "ptr \<Rightarrow> heap \<Rightarrow> (ptr \<times> heap) option" where
  "list_Reverse List h = list_Reverse_loop List list_Nil h"

partial_function (option) list_NReverse_loop :: "ptr \<Rightarrow> ptr \<Rightarrow> heap \<Rightarrow> (ptr \<times> heap) option" where
  "list_NReverse_loop List ReverseList h =
     (if list_Empty List then Some (ReverseList, h)
      else do {
        Scan \<leftarrow> list_Cdr List h;
        h \<leftarrow> list_Rplacd List ReverseList h;
        list_NReverse_loop Scan List h })"

definition list_NReverse :: "ptr \<Rightarrow> heap \<Rightarrow> (ptr \<times> heap) option" where
  "list_NReverse List h =
     (if list_Empty List then Some (List, h)
      else do {
        q \<leftarrow> list_Cdr List h;
        if list_Empty q then Some (List, h)
        else do {
          Result \<leftarrow> Some List;
          x \<leftarrow> list_Car List h;
          (List, h) \<leftarrow> Some (list_List x h);
          q \<leftarrow> list_Cdr Result h;
          h \<leftarrow> list_Rplacd List q h;
          (ReverseList, h) \<leftarrow> list_NReverse_loop List list_Nil h;
          x \<leftarrow> list_Car ReverseList h;
          h \<leftarrow> list_Rplaca Result x h;
          q \<leftarrow> list_Cdr ReverseList h;
          h \<leftarrow> list_Rplacd Result q h;
          h \<leftarrow> list_Free ReverseList h;
          Some (Result, h) } })"

text \<open>The scan to the last node that \<open>list_Append\<close>, \<open>list_Nconc\<close> and \<open>list_NInsert\<close> share.\<close>

partial_function (option) list_last_node :: "ptr \<Rightarrow> heap \<Rightarrow> ptr option" where
  "list_last_node List1 h = do {
     q \<leftarrow> list_Cdr List1 h;
     if list_Empty q then Some List1 else list_last_node q h }"

definition list_Nconc :: "ptr \<Rightarrow> ptr \<Rightarrow> heap \<Rightarrow> (ptr \<times> heap) option" where
  "list_Nconc List1 List2 h =
     (if list_Empty List1 then Some (List2, h)
      else if list_Empty List2 then Some (List1, h)
      else do {
        l \<leftarrow> list_last_node List1 h;
        h \<leftarrow> list_Rplacd l List2 h;
        Some (List1, h) })"

definition list_Append :: "ptr \<Rightarrow> ptr \<Rightarrow> heap \<Rightarrow> (ptr \<times> heap) option" where
  "list_Append List1 List2 h =
     (if list_Empty List1 then Some (List2, h)
      else if list_Empty List2 then list_Copy List1 h
      else do {
        (Result, h) \<leftarrow> list_Copy List1 h;
        l \<leftarrow> list_last_node Result h;
        h \<leftarrow> list_Rplacd l List2 h;
        Some (Result, h) })"

definition list_NInsert :: "ptr \<Rightarrow> ptr \<Rightarrow> heap \<Rightarrow> heap option" where
  "list_NInsert List1 List2 h = do {
     Help \<leftarrow> list_Cdr List1 h;
     h \<leftarrow> list_Rplacd List1 List2 h;
     l \<leftarrow> list_last_node List1 h;
     list_Rplacd l Help h }"

section \<open>Scans and dequeueing\<close>

type_synonym elem_test = "ptr \<Rightarrow> ptr \<Rightarrow> heap \<Rightarrow> bool option"

partial_function (option) list_Member :: "ptr \<Rightarrow> ptr \<Rightarrow> elem_test \<Rightarrow> heap \<Rightarrow> bool option" where
  "list_Member List Element Test h =
     (if list_Empty List then Some False
      else do {
        x \<leftarrow> list_Car List h;
        b \<leftarrow> Test Element x h;
        if b then Some True
        else do { List \<leftarrow> list_Cdr List h; list_Member List Element Test h } })"

partial_function (option) list_PointerMember :: "ptr \<Rightarrow> ptr \<Rightarrow> heap \<Rightarrow> bool option" where
  "list_PointerMember List Element h =
     (if list_Empty List then Some False
      else do {
        x \<leftarrow> list_Car List h;
        if Element = x then Some True
        else do { List \<leftarrow> list_Cdr List h; list_PointerMember List Element h } })"

partial_function (option) list_Length_loop :: "ptr \<Rightarrow> NAT \<Rightarrow> heap \<Rightarrow> NAT option" where
  "list_Length_loop List Result h =
     (if list_Empty List then Some Result
      else do { List \<leftarrow> list_Cdr List h; list_Length_loop List (Result + 1) h })"

definition list_Length :: "ptr \<Rightarrow> heap \<Rightarrow> NAT option" where
  "list_Length List h = list_Length_loop List 0 h"

definition sizeof_LIST_NODE :: NAT where "sizeof_LIST_NODE = 16"

definition list_Bytes :: "ptr \<Rightarrow> heap \<Rightarrow> NAT option" where
  "list_Bytes List h = map_option (\<lambda>n. n * sizeof_LIST_NODE) (list_Length List h)"

text \<open>\<open>NULL\<close> both for an index past the end and for a \<open>NULL\<close> element, as in C. The index is
  decremented before it is compared, so index 0 wraps to \<open>NAT_MAX\<close> first.\<close>

partial_function (option) list_NthElement :: "ptr \<Rightarrow> NAT \<Rightarrow> heap \<Rightarrow> ptr option" where
  "list_NthElement List Number h =
     (if list_Empty List then Some NULL
      else if Number - 1 > 0
        then do { List \<leftarrow> list_Cdr List h; list_NthElement List (Number - 1) h }
        else list_Car List h)"

definition list_DequeueNext :: "ptr \<Rightarrow> heap \<Rightarrow> (ptr \<times> heap) option" where
  "list_DequeueNext List h =
     (if list_Empty List then Some (NULL, h)
      else do {
        Memo \<leftarrow> list_Cdr List h;
        if list_Empty Memo then Some (NULL, h)
        else do {
          Pointer \<leftarrow> list_Car Memo h;
          q \<leftarrow> list_Cdr Memo h;
          h \<leftarrow> list_Rplacd List q h;
          h \<leftarrow> list_Free Memo h;
          Some (Pointer, h) } })"

partial_function (option) list_PointerReplaceMember ::
  "ptr \<Rightarrow> ptr \<Rightarrow> ptr \<Rightarrow> heap \<Rightarrow> (bool \<times> heap) option" where
  "list_PointerReplaceMember List Old New h =
     (if list_Empty List then Some (False, h)
      else do {
        x \<leftarrow> list_Car List h;
        if Old = x then do { h \<leftarrow> list_Rplaca List New h; Some (True, h) }
        else do { List \<leftarrow> list_Cdr List h; list_PointerReplaceMember List Old New h } })"

section \<open>Stacks\<close>

definition list_StackBottom :: ptr where "list_StackBottom = list_Nil"
definition list_StackEmpty :: "ptr \<Rightarrow> bool" where "list_StackEmpty S = list_Empty S"
definition list_Push :: "ptr \<Rightarrow> ptr \<Rightarrow> heap \<Rightarrow> ptr \<times> heap" where "list_Push I L h = list_Cons I L h"
definition list_Top :: "ptr \<Rightarrow> heap \<Rightarrow> ptr option" where "list_Top L h = list_Car L h"

definition list_Pop :: "ptr \<Rightarrow> heap \<Rightarrow> (ptr \<times> heap) option" where
  "list_Pop L h = do {
     Aux \<leftarrow> Some L;
     L \<leftarrow> list_Cdr L h;
     h \<leftarrow> list_Free Aux h;
     Some (L, h) }"

definition list_RplacTop :: "ptr \<Rightarrow> ptr \<Rightarrow> heap \<Rightarrow> heap option" where
  "list_RplacTop L P h = list_Rplaca L P h"

partial_function (option) list_StackFree :: "ptr \<Rightarrow> heap \<Rightarrow> (ptr \<times> heap) option" where
  "list_StackFree L h =
     (if list_StackEmpty L then Some (list_Nil, h)
      else do { (L, h) \<leftarrow> list_Pop L h; list_StackFree L h })"

partial_function (option) list_Delete :: "ptr \<Rightarrow> heap \<Rightarrow> heap option" where
  "list_Delete Current h =
     (if list_Empty Current then Some h
      else do {
        L \<leftarrow> list_Cdr Current h;
        h \<leftarrow> list_Free Current h;
        list_Delete L h })"

section \<open>Executing the primitives\<close>

lemma list_Empty_simps [simp]:
  "list_Empty L \<longleftrightarrow> L = NULL" "list_Exist L \<longleftrightarrow> L \<noteq> NULL" "list_Nil = NULL"
  "list_StackEmpty L \<longleftrightarrow> L = NULL" "list_StackBottom = NULL"
  by (simp_all add: list_Empty_def list_Exist_def list_Nil_def list_StackEmpty_def
      list_StackBottom_def)

lemma field_simps_heap [heap_simps]:
  assumes "store h L = Some n"
  shows "list_Car L h = Some (car n)" "list_Cdr L h = Some (cdr n)"
    "list_Rplacd L q h = Some (h\<lparr>store := (store h)(L \<mapsto> n\<lparr>cdr := q\<rparr>)\<rparr>)"
    "list_Rplaca L v h = Some (h\<lparr>store := (store h)(L \<mapsto> n\<lparr>car := v\<rparr>)\<rparr>)"
  using assms by (simp_all add: list_Car_def list_Cdr_def list_Rplacd_def list_Rplaca_def)

lemma list_Free_spec:
  assumes "wf_heap h" "store h a = Some c"
  obtains h' where "list_Free a h = Some h'" "wf_heap h'" "store h' = (store h)(a := None)"
  using wf_heap_free [OF assms] by (auto simp: list_Free_def)

lemma list_Cons_spec:
  assumes "wf_heap h"
  obtains c h' where "list_Cons x q h = (c, h')" "c \<noteq> NULL" "store h c = None" "wf_heap h'"
    "store h' = (store h)(c \<mapsto> \<lparr>cdr = q, car = x\<rparr>)"
proof -
  obtain c h1 where m: "node_Malloc h = (c, h1)" by (cases "node_Malloc h")
  note w = wf_heap_malloc [OF assms m]
  have "wf_heap (h1\<lparr>store := (store h1)(c \<mapsto> \<lparr>cdr = q, car = x\<rparr>)\<rparr>)"
    using w(3,4) by (intro wf_heap_dom_upd) simp_all
  moreover have "list_Cons x q h = (c, h1\<lparr>store := (store h1)(c \<mapsto> \<lparr>cdr = q, car = x\<rparr>)\<rparr>)"
    by (simp add: list_Cons_def m)
  ultimately show ?thesis using that w by simp
qed

text \<open>Writing one field of a node in use.\<close>

lemma wf_heap_field:
  "wf_heap h \<Longrightarrow> store h a = Some n \<Longrightarrow> wf_heap (h\<lparr>store := (store h)(a \<mapsto> m)\<rparr>)"
  by (rule wf_heap_dom_upd) auto

lemma store_neq: "store h a = None \<Longrightarrow> seg (store h) p ps q \<Longrightarrow> a \<notin> addrs ps"
  using seg_dom by fastforce

section \<open>Copying\<close>

text \<open>\<open>elem_fun_ok F R X\<close>: on the elements \<open>X\<close> the element function returns, leaves every node in
  use as it is, and relates argument and result by \<open>R\<close>.\<close>

definition elem_fun_ok :: "element_fun \<Rightarrow> (ptr \<Rightarrow> ptr \<Rightarrow> bool) \<Rightarrow> ptr set \<Rightarrow> bool" where
  "elem_fun_ok F R X \<longleftrightarrow>
     (\<forall>x \<in> X. \<forall>h. wf_heap h \<longrightarrow>
        (\<exists>y h'. F x h = Some (y, h') \<and> wf_heap h' \<and> frame {} h h' \<and> R x y))"

lemma elem_fun_okE:
  assumes "elem_fun_ok F R X" "x \<in> X" "wf_heap h"
  obtains y h' where "F x h = Some (y, h')" "wf_heap h'" "frame {} h h'" "R x y"
  using assms unfolding elem_fun_ok_def by blast

lemma frame_dom: "frame {} h h' \<Longrightarrow> store h a = Some n \<Longrightarrow> store h' a = Some n"
  unfolding frame_def by (metis domI empty_iff)

lemma frame_dom_subset: "frame A h h' \<Longrightarrow> dom (store h) - A \<subseteq> dom (store h')"
  unfolding frame_def by auto

lemma frame_trans: "frame A h1 h2 \<Longrightarrow> frame B h2 h3 \<Longrightarrow> frame (A \<union> B) h1 h3"
  unfolding frame_def by (auto simp: dom_def)

lemma frame_trans_fresh:
  assumes "frame A h1 h2" "frame B h2 h3" "B \<inter> dom (store h1) \<subseteq> A"
  shows "frame A h1 h3"
  using assms unfolding frame_def by (smt (verit) domI domD IntI subsetD)

lemma list_CopyWithElement_loop_ok:
  assumes "elem_fun_ok F R (snd ` set ps)" "wf_heap h"
    "seg (store h) Scan2 ps NULL" "store h Scan1 = Some \<lparr>cdr = NULL, car = v\<rparr>"
    "Scan1 \<noteq> NULL" "Scan1 \<notin> addrs ps"
  shows "\<exists>h' qs. list_CopyWithElement_loop F Scan1 Scan2 h = Some h' \<and> wf_heap h'
     \<and> seg (store h') Scan1 ((Scan1, v) # qs) NULL \<and> list_all2 R (elems ps) (elems qs)
     \<and> frame {Scan1} h h' \<and> addrs qs \<inter> dom (store h) = {}"
  using assms
proof (induction ps arbitrary: Scan1 Scan2 h v)
  case Nil
  then show ?case by (subst list_CopyWithElement_loop.simps) (auto intro!: exI [of _ "[]"])
next
  case (Cons p ps)
  obtain a x where p: "p = (a, x)" by (cases p)
  with Cons.prems obtain r where a: "Scan2 = a" "a \<noteq> NULL" "store h a = Some \<lparr>cdr = r, car = x\<rparr>"
    "seg (store h) r ps NULL" by auto
  from elem_fun_okE [OF Cons.prems(1) _ Cons.prems(2), of x] p
  obtain y h1 where F: "F x h = Some (y, h1)" "wf_heap h1" "frame {} h h1" "R x y" by auto
  obtain c h2 where C: "list_Cons y NULL h1 = (c, h2)" "c \<noteq> NULL" "store h1 c = None" "wf_heap h2"
    "store h2 = (store h1)(c \<mapsto> \<lparr>cdr = NULL, car = y\<rparr>)"
    by (rule list_Cons_spec [OF F(2)])
  have c_fresh: "store h c = None" using frame_dom [OF F(3)] C(3) by (cases "store h c") auto
  have h1: "store h1 Scan1 = Some \<lparr>cdr = NULL, car = v\<rparr>" "store h1 a = Some \<lparr>cdr = r, car = x\<rparr>"
    using frame_dom [OF F(3)] a(3) Cons.prems(4) by auto
  have ne: "c \<noteq> Scan1" "Scan1 \<noteq> c" "c \<noteq> a" "a \<noteq> c" "a \<noteq> Scan1" "Scan1 \<noteq> a" using C(3) h1 Cons.prems(6) p by auto
  define h3 where "h3 = h2\<lparr>store := (store h2)(Scan1 \<mapsto> \<lparr>cdr = c, car = v\<rparr>)\<rparr>"
  have w3: "wf_heap h3" unfolding h3_def
    by (rule wf_heap_field [OF C(4), of _ "\<lparr>cdr = NULL, car = v\<rparr>"]) (simp add: C(5) h1 ne)
  have s3: "store h3 = (store h1)(c \<mapsto> \<lparr>cdr = NULL, car = y\<rparr>, Scan1 \<mapsto> \<lparr>cdr = c, car = v\<rparr>)"
    by (simp add: h3_def C(5))
  have seg3: "seg (store h3) r ps NULL"
    using seg_frame [OF F(3) _ a(4)] Cons.prems(6) p store_neq [OF c_fresh a(4)]
    by (simp add: s3)
  have "elem_fun_ok F R (snd ` set ps)"
    using Cons.prems(1) by (simp add: elem_fun_ok_def)
  moreover have "store h3 c = Some \<lparr>cdr = NULL, car = y\<rparr>" by (simp add: s3 ne)
  moreover note C(2) store_neq [OF c_fresh a(4)]
  ultimately obtain h' qs where IH: "list_CopyWithElement_loop F c r h3 = Some h'" "wf_heap h'"
    "seg (store h') c ((c, y) # qs) NULL" "list_all2 R (elems ps) (elems qs)"
    "frame {c} h3 h'" "addrs qs \<inter> dom (store h3) = {}"
    using Cons.IH [OF _ w3 seg3] by blast
  have run: "list_CopyWithElement_loop F Scan1 Scan2 h = Some h'"
    by (subst list_CopyWithElement_loop.simps)
      (use a F(1) C(1) IH(1) ne in
        \<open>simp add: heap_simps list_List_def C(5) h1 ne flip: h3_def,
         simp add: h3_def heap_simps C(5) h1 ne\<close>)
  have "frame {Scan1} h h3" using F(3) c_fresh by (auto simp: frame_def s3)
  then have fr: "frame {Scan1} h h'"
    by (rule frame_trans_fresh [OF _ IH(5)]) (use c_fresh in auto)
  have "store h' Scan1 = Some \<lparr>cdr = c, car = v\<rparr>"
    using IH(5) ne by (simp add: frame_def s3)
  then have "seg (store h') Scan1 ((Scan1, v) # (c, y) # qs) NULL"
    using IH(3) Cons.prems(5) by auto
  moreover have "addrs qs \<inter> dom (store h) = {}"
    using IH(6) frame_dom [OF F(3)] by (fastforce simp: s3)
  ultimately show ?case using run IH(2,4) F(4) fr c_fresh p
    by (intro exI [of _ h'] exI [of _ "(c, y) # qs"]) auto
qed

text \<open>\<open>list_Copy\<close> is the instance that copies every element as it is.\<close>

lemma list_Copy_loop_instance:
  assumes "list_CopyWithElement_loop F Scan1 Scan2 h = Some h'" "F = (\<lambda>x h. Some (x, h))"
  shows "list_Copy_loop Scan1 Scan2 h = Some h'"
proof -
  have "F = (\<lambda>x h. Some (x, h)) \<longrightarrow> list_Copy_loop Scan1 Scan2 h = Some h'"
  proof (rule list_CopyWithElement_loop.raw_induct
      [where P = "\<lambda>F s1 s2 h h'. F = (\<lambda>x h. Some (x, h)) \<longrightarrow> list_Copy_loop s1 s2 h = Some h'",
        OF _ assms(1)])
    fix rec F s1 s2 h h'
    assume IH: "\<And>F s1 s2 h h'. rec F s1 s2 h = Some h' \<Longrightarrow>
        F = (\<lambda>x h. Some (x, h)) \<longrightarrow> list_Copy_loop s1 s2 h = Some h'"
      and eq: "(if list_Empty s2 then Some h
        else do {
          x \<leftarrow> list_Car s2 h;
          (y, h) \<leftarrow> F x h;
          (c, h) \<leftarrow> Some (list_List y h);
          h \<leftarrow> list_Rplacd s1 c h;
          Scan1 \<leftarrow> list_Cdr s1 h;
          Scan2 \<leftarrow> list_Cdr s2 h;
          rec F Scan1 Scan2 h }) = Some h'"
    show "F = (\<lambda>x h. Some (x, h)) \<longrightarrow> list_Copy_loop s1 s2 h = Some h'"
      using eq IH
      by (subst list_Copy_loop.simps) (auto simp: bind_eq_Some_iff case_prod_beta split: if_splits)
  qed
  then show ?thesis using assms(2) by blast
qed

lemma elem_fun_ok_id: "elem_fun_ok (\<lambda>x h. Some (x, h)) (=) X"
  by (simp add: elem_fun_ok_def)

lemma list_CopyWithElement_ok:
  assumes "wf_heap h" "seg (store h) p ps NULL" "elem_fun_ok F R (snd ` set ps)"
  shows "\<exists>p' h' qs. list_CopyWithElement p F h = Some (p', h') \<and> wf_heap h'
     \<and> seg (store h') p' qs NULL \<and> list_all2 R (elems ps) (elems qs)
     \<and> frame {} h h' \<and> addrs qs \<inter> dom (store h) = {}"
proof (cases "p = NULL")
  case True
  with assms show ?thesis
    by (auto simp: list_CopyWithElement_def seg_NULL intro!: exI [of _ "[]"])
next
  case False
  with assms(2) obtain x r rs where ps: "ps = (p, x) # rs"
    and p: "store h p = Some \<lparr>cdr = r, car = x\<rparr>" "seg (store h) r rs NULL" "p \<notin> addrs rs"
    by (rule seg_neq_NULL)
  from elem_fun_okE [OF assms(3) _ assms(1), of x] ps
  obtain y h1 where F: "F x h = Some (y, h1)" "wf_heap h1" "frame {} h h1" "R x y" by auto
  obtain c h2 where C: "list_Cons y NULL h1 = (c, h2)" "c \<noteq> NULL" "store h1 c = None" "wf_heap h2"
    "store h2 = (store h1)(c \<mapsto> \<lparr>cdr = NULL, car = y\<rparr>)"
    by (rule list_Cons_spec [OF F(2)])
  have c_fresh: "store h c = None" using frame_dom [OF F(3)] C(3) by (cases "store h c") auto
  have ne: "p \<noteq> c" using c_fresh p(1) by auto
  have seg2: "seg (store h2) r rs NULL"
    using seg_frame [OF F(3) _ p(2)] store_neq [OF c_fresh p(2)] by (simp add: C(5))
  have F': "elem_fun_ok F R (snd ` set rs)" using assms(3) ps by (simp add: elem_fun_ok_def)
  have "store h2 c = Some \<lparr>cdr = NULL, car = y\<rparr>" by (simp add: C(5))
  from list_CopyWithElement_loop_ok [OF F' C(4) seg2 this C(2) store_neq [OF c_fresh p(2)]]
  obtain h' qs where L: "list_CopyWithElement_loop F c r h2 = Some h'" "wf_heap h'"
    "seg (store h') c ((c, y) # qs) NULL" "list_all2 R (elems rs) (elems qs)"
    "frame {c} h2 h'" "addrs qs \<inter> dom (store h2) = {}" by blast
  have "store h2 p = Some \<lparr>cdr = r, car = x\<rparr>"
    using frame_dom [OF F(3) p(1)] ne by (simp add: C(5))
  then have "list_CopyWithElement p F h = Some (c, h')"
    using False p(1) F(1) C(1) L(1)
    by (simp add: list_CopyWithElement_def heap_simps list_List_def)
  moreover have "frame {} h h'"
  proof (rule frame_trans_fresh [OF _ L(5)])
    show "frame {} h h2" using F(3) c_fresh by (auto simp: frame_def C(5))
  qed (use c_fresh in auto)
  moreover have "addrs qs \<inter> dom (store h) = {}"
    using L(6) frame_dom [OF F(3)] by (fastforce simp: C(5))
  ultimately show ?thesis using L(2,3,4) F(4) c_fresh ps
    by (intro exI [of _ c] exI [of _ h'] exI [of _ "(c, y) # qs"]) auto
qed

lemma list_Copy_ok:
  assumes "wf_heap h" "seg (store h) p ps NULL"
  shows "\<exists>p' h' qs. list_Copy p h = Some (p', h') \<and> wf_heap h' \<and> seg (store h') p' qs NULL
     \<and> elems qs = elems ps \<and> frame {} h h' \<and> addrs qs \<inter> dom (store h) = {}"
proof -
  from list_CopyWithElement_ok [OF assms elem_fun_ok_id]
  obtain p' h' qs where W: "list_CopyWithElement p (\<lambda>x h. Some (x, h)) h = Some (p', h')"
    "wf_heap h'" "seg (store h') p' qs NULL" "list_all2 (=) (elems ps) (elems qs)"
    "frame {} h h'" "addrs qs \<inter> dom (store h) = {}" by blast
  have "list_Copy p h = Some (p', h')"
    using W(1) list_Copy_loop_instance
    by (auto simp: list_CopyWithElement_def list_Copy_def bind_eq_Some_iff case_prod_beta
        split: if_splits)
  then show ?thesis using W by (auto simp: list.rel_eq)
qed

section \<open>Functions applied in place\<close>

lemma list_NMapCar_ok:
  assumes "elem_fun_ok F R (snd ` set ps)" "wf_heap h" "seg (store h) p ps NULL"
  shows "\<exists>h' qs. list_NMapCar p F h = Some h' \<and> wf_heap h' \<and> seg (store h') p qs NULL
     \<and> map fst qs = map fst ps \<and> list_all2 R (elems ps) (elems qs) \<and> frame (addrs ps) h h'"
  using assms
proof (induction ps arbitrary: p h)
  case Nil
  then show ?case by (subst list_NMapCar.simps) simp
next
  case (Cons c ps)
  obtain a x where c: "c = (a, x)" by (cases c)
  with Cons.prems obtain r where a: "p = a" "a \<noteq> NULL" "store h a = Some \<lparr>cdr = r, car = x\<rparr>"
    "seg (store h) r ps NULL" by auto
  have nin: "a \<notin> addrs ps" using seg_distinct [OF Cons.prems(3)] c by auto
  from elem_fun_okE [OF Cons.prems(1) _ Cons.prems(2), of x] c
  obtain y h1 where F: "F x h = Some (y, h1)" "wf_heap h1" "frame {} h h1" "R x y" by auto
  have a1: "store h1 a = Some \<lparr>cdr = r, car = x\<rparr>" by (rule frame_dom [OF F(3) a(3)])
  define h2 where "h2 = h1\<lparr>store := (store h1)(a \<mapsto> \<lparr>cdr = r, car = y\<rparr>)\<rparr>"
  have w2: "wf_heap h2" unfolding h2_def by (rule wf_heap_field [OF F(2) a1])
  have seg2: "seg (store h2) r ps NULL" using seg_frame [OF F(3) _ a(4)] nin by (simp add: h2_def)
  have F': "elem_fun_ok F R (snd ` set ps)" using Cons.prems(1) by (simp add: elem_fun_ok_def)
  from Cons.IH [OF F' w2 seg2] obtain h' qs where IH: "list_NMapCar r F h2 = Some h'" "wf_heap h'"
    "seg (store h') r qs NULL" "map fst qs = map fst ps" "list_all2 R (elems ps) (elems qs)"
    "frame (addrs ps) h2 h'" by blast
  have "list_NMapCar p F h = Some h'"
    by (subst list_NMapCar.simps) (use a F(1) a1 IH(1) in \<open>simp add: heap_simps h2_def\<close>)
  moreover have "store h' a = Some \<lparr>cdr = r, car = y\<rparr>"
    using IH(6) nin by (simp add: frame_def h2_def)
  moreover have "frame (addrs (c # ps)) h h'"
    using F(3) IH(6) c unfolding frame_def h2_def by (auto simp: dom_def)
  ultimately show ?case using IH F(4) a c
    by (intro exI [of _ h'] exI [of _ "(a, y) # qs"]) auto
qed

text \<open>\<open>list_Apply\<close> runs the function on the elements from left to right.\<close>

fun run_elems :: "(ptr \<Rightarrow> heap \<Rightarrow> heap option) \<Rightarrow> ptr list \<Rightarrow> heap \<Rightarrow> heap option" where
  "run_elems F [] h = Some h"
| "run_elems F (x # xs) h = do { h \<leftarrow> F x h; run_elems F xs h }"

lemma list_Apply_ok:
  assumes "seg (store h) p ps NULL"
    and "\<And>x h h'. x \<in> snd ` set ps \<Longrightarrow> F x h = Some h' \<Longrightarrow> agree (- addrs ps) h h'"
  shows "list_Apply F p h = run_elems F (elems ps) h"
proof -
  have gen: "list_Apply F p h = run_elems F (elems qs) h"
    if "seg (store h) p qs NULL" "addrs qs \<subseteq> addrs ps" "snd ` set qs \<subseteq> snd ` set ps" for qs p h
    using that
  proof (induction qs arbitrary: p h)
    case Nil
    then show ?case by (subst list_Apply.simps) simp
  next
    case (Cons c qs)
    obtain a x where c: "c = (a, x)" by (cases c)
    with Cons.prems obtain r where a: "p = a" "a \<noteq> NULL" "store h a = Some \<lparr>cdr = r, car = x\<rparr>"
      "seg (store h) r qs NULL" by auto
    show ?case
    proof (cases "F x h")
      case None
      then show ?thesis by (subst list_Apply.simps) (use a c in \<open>simp add: heap_simps\<close>)
    next
      case (Some h1)
      have ag: "agree (- addrs ps) h h1" using assms(2) [OF _ Some] Cons.prems(3) c by auto
      then have a1: "store h1 a = Some \<lparr>cdr = r, car = x\<rparr>"
        using a(3) Cons.prems(2) c by (auto simp: agree_def)
      have "seg (store h1) r qs NULL"
        using seg_agree [OF ag _ a(4)] Cons.prems(2) by auto
      from Cons.IH [OF this] Cons.prems(2,3)
      have "list_Apply F r h1 = run_elems F (elems qs) h1" by auto
      then show ?thesis
        by (subst list_Apply.simps) (use a c a1 Some in \<open>simp add: heap_simps\<close>)
    qed
  qed
  show ?thesis by (rule gen [OF assms(1)]) auto
qed

section \<open>Reversal\<close>

lemma list_Reverse_loop_ok:
  assumes "wf_heap h" "seg (store h) p ps NULL" "seg (store h) q qs NULL"
  shows "\<exists>p' h' ns. list_Reverse_loop p q h = Some (p', h') \<and> wf_heap h'
     \<and> seg (store h') p' (ns @ qs) NULL \<and> elems ns = rev (elems ps) \<and> frame {} h h'
     \<and> addrs ns \<inter> dom (store h) = {}"
  using assms
proof (induction ps arbitrary: p q qs h)
  case Nil
  then show ?case by (subst list_Reverse_loop.simps) (auto intro!: exI [of _ "[]"])
next
  case (Cons c ps)
  obtain a x where c: "c = (a, x)" by (cases c)
  with Cons.prems obtain r where a: "p = a" "a \<noteq> NULL" "store h a = Some \<lparr>cdr = r, car = x\<rparr>"
    "seg (store h) r ps NULL" by auto
  obtain b h1 where C: "list_Cons x q h = (b, h1)" "b \<noteq> NULL" "store h b = None" "wf_heap h1"
    "store h1 = (store h)(b \<mapsto> \<lparr>cdr = q, car = x\<rparr>)"
    by (rule list_Cons_spec [OF Cons.prems(1)])
  have fr: "frame {} h h1" using C(3) by (auto simp: frame_def C(5))
  have ne: "a \<noteq> b" using a(3) C(3) by auto
  have s1: "seg (store h1) r ps NULL" using store_neq [OF C(3) a(4)] a(4) by (simp add: C(5))
  have s2: "seg (store h1) b ((b, x) # qs) NULL"
    using store_neq [OF C(3) Cons.prems(3)] Cons.prems(3) C(2) by (simp add: C(5))
  from Cons.IH [OF C(4) s1 s2] obtain p' h' ns where IH:
    "list_Reverse_loop r b h1 = Some (p', h')" "wf_heap h'"
    "seg (store h') p' (ns @ (b, x) # qs) NULL" "elems ns = rev (elems ps)" "frame {} h1 h'"
    "addrs ns \<inter> dom (store h1) = {}" by blast
  have "list_Reverse_loop p q h = Some (p', h')"
    by (subst list_Reverse_loop.simps) (use a C(1) IH(1) ne in \<open>simp add: heap_simps C(5)\<close>)
  moreover have "frame {} h h'" by (rule frame_trans_fresh [OF fr IH(5)]) simp
  moreover have "addrs (ns @ [(b, x)]) \<inter> dom (store h) = {}" using IH(6) C(3) by (auto simp: C(5))
  ultimately show ?case using IH(2,3,4) c
    by (intro exI [of _ p'] exI [of _ h'] exI [of _ "ns @ [(b, x)]"]) simp
qed

lemma list_NReverse_loop_ok:
  assumes "wf_heap h" "seg (store h) p ps NULL" "seg (store h) q qs NULL"
    "addrs ps \<inter> addrs qs = {}"
  shows "\<exists>p' h'. list_NReverse_loop p q h = Some (p', h') \<and> wf_heap h'
     \<and> seg (store h') p' (rev ps @ qs) NULL \<and> agree (addrs ps) h h'"
  using assms
proof (induction ps arbitrary: p q qs h)
  case Nil
  then show ?case by (subst list_NReverse_loop.simps) auto
next
  case (Cons c ps)
  obtain a x where c: "c = (a, x)" by (cases c)
  with Cons.prems obtain r where a: "p = a" "a \<noteq> NULL" "store h a = Some \<lparr>cdr = r, car = x\<rparr>"
    "seg (store h) r ps NULL" by auto
  have nin: "a \<notin> addrs ps" "a \<notin> addrs qs"
    using seg_distinct [OF Cons.prems(2)] Cons.prems(4) c by auto
  define h1 where "h1 = h\<lparr>store := (store h)(a \<mapsto> \<lparr>cdr = q, car = x\<rparr>)\<rparr>"
  have w1: "wf_heap h1" unfolding h1_def by (rule wf_heap_field [OF Cons.prems(1) a(3)])
  have s1: "seg (store h1) r ps NULL" using a(4) nin by (simp add: h1_def)
  have s2: "seg (store h1) a ((a, x) # qs) NULL" using Cons.prems(3) nin a(2) by (simp add: h1_def)
  have dj: "addrs ps \<inter> addrs ((a, x) # qs) = {}" using Cons.prems(4) nin c by auto
  from Cons.IH [OF w1 s1 s2 dj] obtain p' h' where IH: "list_NReverse_loop r a h1 = Some (p', h')"
    "wf_heap h'" "seg (store h') p' (rev ps @ (a, x) # qs) NULL" "agree (addrs ps) h1 h'" by blast
  have "list_NReverse_loop p q h = Some (p', h')"
    by (subst list_NReverse_loop.simps) (use a IH(1) in \<open>simp add: heap_simps h1_def\<close>)
  moreover have "agree (addrs (c # ps)) h h'" using IH(4) c by (auto simp: agree_def h1_def)
  ultimately show ?case using IH(2,3) c by simp
qed

lemma list_NReverse_ok:
  assumes "wf_heap h" "seg (store h) p ps NULL"
  shows "\<exists>h' qs. list_NReverse p h = Some (p, h') \<and> wf_heap h' \<and> seg (store h') p qs NULL
     \<and> elems qs = rev (elems ps) \<and> frame (addrs ps) h h'"
proof (cases "p = NULL")
  case True
  with assms show ?thesis by (auto simp: list_NReverse_def seg_NULL intro!: exI [of _ "[]"])
next
  case False
  with assms(2) obtain x r rs where ps: "ps = (p, x) # rs"
    and p: "store h p = Some \<lparr>cdr = r, car = x\<rparr>" "seg (store h) r rs NULL" "p \<notin> addrs rs"
    by (rule seg_neq_NULL)
  show ?thesis
  proof (cases "r = NULL")
    case True
    with p(2) have "rs = []" by (simp add: seg_NULL)
    with False p(1) assms ps True show ?thesis
      by (intro exI [of _ h] exI [of _ ps]) (simp add: list_NReverse_def heap_simps)
  next
    case r: False
    obtain c h1 where C: "list_Cons x NULL h = (c, h1)" "c \<noteq> NULL" "store h c = None" "wf_heap h1"
      "store h1 = (store h)(c \<mapsto> \<lparr>cdr = NULL, car = x\<rparr>)"
      by (rule list_Cons_spec [OF assms(1)])
    have ne: "c \<noteq> p" "p \<noteq> c" and c_rs: "c \<notin> addrs rs"
      using p(1) C(3) store_neq [OF C(3) p(2)] by auto
    define h2 where "h2 = h1\<lparr>store := (store h1)(c \<mapsto> \<lparr>cdr = r, car = x\<rparr>)\<rparr>"
    have w2: "wf_heap h2" unfolding h2_def
      by (rule wf_heap_field [OF C(4), of _ "\<lparr>cdr = NULL, car = x\<rparr>"]) (simp add: C(5))
    have s2: "seg (store h2) c ((c, x) # rs) NULL"
      using p(2) c_rs C(2) by (simp add: h2_def C(5))
    have "seg (store h2) NULL [] NULL" by simp
    from list_NReverse_loop_ok [OF w2 s2 this] obtain q h3 where L:
      "list_NReverse_loop c NULL h2 = Some (q, h3)" "wf_heap h3"
      "seg (store h3) q (rev rs @ [(c, x)]) NULL" "agree (addrs ((c, x) # rs)) h2 h3" by auto
    have p3: "store h3 p = Some \<lparr>cdr = r, car = x\<rparr>"
      using L(4) ne p(1,3) by (simp add: agree_def h2_def C(5))
    have "rs \<noteq> []" using p(2) r by auto
    then obtain us b y where rs: "rs = us @ [(b, y)]" by (metis rev_exhaust surj_pair)
    with L(3) obtain t where q: "q = b" "b \<noteq> NULL" "store h3 b = Some \<lparr>cdr = t, car = y\<rparr>"
      "seg (store h3) t (rev us @ [(c, x)]) NULL" by auto
    have dist: "distinct (map fst rs)" by (rule seg_distinct [OF p(2)])
    have b: "b \<noteq> p" "p \<noteq> b" "b \<noteq> c" "b \<notin> addrs us" "p \<notin> addrs us"
      using p(3) c_rs rs dist by auto
    define h4 where "h4 = h3\<lparr>store := (store h3)(p \<mapsto> \<lparr>cdr = r, car = y\<rparr>)\<rparr>"
    define h5 where "h5 = h4\<lparr>store := (store h4)(p \<mapsto> \<lparr>cdr = t, car = y\<rparr>)\<rparr>"
    have w5: "wf_heap h5" unfolding h5_def
      by (rule wf_heap_field [of _ _ "\<lparr>cdr = r, car = y\<rparr>"])
        (simp_all add: h4_def wf_heap_field [OF L(2) p3])
    have s5: "store h5 = (store h3)(p \<mapsto> \<lparr>cdr = t, car = y\<rparr>)" by (simp add: h5_def h4_def)
    have "store h5 b = Some \<lparr>cdr = t, car = y\<rparr>" using q(3) b by (simp add: s5)
    then obtain h6 where F: "list_Free b h5 = Some h6" "wf_heap h6" "store h6 = (store h5)(b := None)"
      by (rule list_Free_spec [OF w5])
    have run: "list_NReverse p h = Some (p, h6)"
      using False r p(1) C(1) ne
      by (simp add: list_NReverse_def heap_simps list_List_def C(5))
        (use L(1) F(1) q(1,3) p3 b in
          \<open>simp add: h2_def C(5) heap_simps flip: h4_def,
           simp add: h4_def heap_simps h5_def\<close>)
    have "seg (store h6) p ((p, y) # rev us @ [(c, x)]) NULL"
      using q(4) b ne False by (simp add: F(3) s5)
    moreover have "frame (addrs ps) h h6"
    proof -
      have "store h6 a = store h a" if "a \<notin> addrs ps" "a \<noteq> c" for a
        using L(4) that ps rs by (auto simp: agree_def F(3) s5 h2_def C(5))
      then show ?thesis using C(3) unfolding frame_def by (metis domIff)
    qed
    ultimately show ?thesis using run F(2) ps rs
      by (intro exI [of _ h6] exI [of _ "(p, y) # rev us @ [(c, x)]"])
        (simp add: rev_map)
  qed
qed

section \<open>Concatenation\<close>

lemma list_last_node_ok:
  assumes "seg (store h) p ps NULL" "ps \<noteq> []"
  shows "list_last_node p h = Some (fst (last ps))"
  using assms
proof (induction ps arbitrary: p)
  case (Cons c ps)
  obtain a x where c: "c = (a, x)" by (cases c)
  with Cons.prems obtain r where a: "p = a" "a \<noteq> NULL" "store h a = Some \<lparr>cdr = r, car = x\<rparr>"
    "seg (store h) r ps NULL" by auto
  show ?case
  proof (cases "ps = []")
    case True
    then show ?thesis by (subst list_last_node.simps) (use a c in \<open>simp add: heap_simps\<close>)
  next
    case False
    then have "r \<noteq> NULL" using a(4) by (cases "r = NULL") (auto simp: seg_NULL)
    with False show ?thesis
      by (subst list_last_node.simps) (use a c Cons.IH [OF a(4)] in \<open>simp add: heap_simps\<close>)
  qed
qed simp

lemma relink_last:
  assumes "wf_heap h" "seg (store h) p ps NULL" "ps \<noteq> []" "seg (store h) q qs t"
    "addrs ps \<inter> addrs qs = {}"
  shows "\<exists>h'. list_Rplacd (fst (last ps)) q h = Some h' \<and> wf_heap h'
     \<and> seg (store h') p (ps @ qs) t \<and> agree {fst (last ps)} h h'"
proof -
  obtain us b y where ps: "ps = us @ [(b, y)]" using assms(3) by (metis rev_exhaust surj_pair)
  have dist: "distinct (map fst ps)" by (rule seg_distinct [OF assms(2)])
  have b: "b \<noteq> NULL" "store h b = Some \<lparr>cdr = NULL, car = y\<rparr>" "seg (store h) p us b"
    using assms(2) by (auto simp: ps seg_append)
  have nin: "b \<notin> addrs us" "b \<notin> addrs qs" using dist assms(5) ps by auto
  define h' where "h' = h\<lparr>store := (store h)(b \<mapsto> \<lparr>cdr = q, car = y\<rparr>)\<rparr>"
  have "wf_heap h'" unfolding h'_def by (rule wf_heap_field [OF assms(1) b(2)])
  moreover have "list_Rplacd b q h = Some h'" using b(2) by (simp add: heap_simps h'_def)
  moreover have "seg (store h') p (ps @ qs) t"
    using b nin assms(4) by (auto simp: ps seg_append h'_def)
  ultimately show ?thesis using ps by (auto simp: agree_def h'_def)
qed

lemma list_Nconc_ok:
  assumes "wf_heap h" "seg (store h) p ps NULL" "seg (store h) q qs NULL"
    "addrs ps \<inter> addrs qs = {}"
  shows "\<exists>p' h'. list_Nconc p q h = Some (p', h') \<and> wf_heap h'
     \<and> seg (store h') p' (ps @ qs) NULL \<and> agree (addrs ps) h h'"
proof (cases "p = NULL \<or> q = NULL")
  case True
  then show ?thesis using assms by (auto simp: list_Nconc_def seg_NULL)
next
  case False
  then have ps: "ps \<noteq> []" using assms(2) by auto
  from relink_last [OF assms(1,2) ps assms(3,4)] obtain h' where
    "list_Rplacd (fst (last ps)) q h = Some h'" "wf_heap h'" "seg (store h') p (ps @ qs) NULL"
    "agree {fst (last ps)} h h'" by blast
  moreover have "agree (addrs ps) h h'"
    by (rule agree_mono [OF calculation(4)]) (use ps in auto)
  ultimately show ?thesis using False list_last_node_ok [OF assms(2) ps]
    by (simp add: list_Nconc_def)
qed

lemma list_Append_ok:
  assumes "wf_heap h" "seg (store h) p ps NULL" "seg (store h) q qs NULL"
  shows "\<exists>p' h' ns. list_Append p q h = Some (p', h') \<and> wf_heap h'
     \<and> seg (store h') p' (ns @ qs) NULL \<and> elems ns = elems ps \<and> frame {} h h'"
proof (cases "p = NULL")
  case True
  then show ?thesis using assms by (auto simp: list_Append_def seg_NULL intro!: exI [of _ "[]"])
next
  case p: False
  from list_Copy_ok [OF assms(1,2)] obtain p' h1 ns where C: "list_Copy p h = Some (p', h1)"
    "wf_heap h1" "seg (store h1) p' ns NULL" "elems ns = elems ps" "frame {} h h1"
    "addrs ns \<inter> dom (store h) = {}" by blast
  show ?thesis
  proof (cases "q = NULL")
    case True
    then show ?thesis using p C assms(3) by (auto simp: list_Append_def seg_NULL)
  next
    case False
    have ns: "ns \<noteq> []" using C(4) assms(2) p by auto
    have sq: "seg (store h1) q qs NULL" by (rule seg_frame [OF C(5) _ assms(3)]) simp
    have dj: "addrs ns \<inter> addrs qs = {}" using C(6) seg_dom [OF assms(3)] by blast
    from relink_last [OF C(2,3) ns sq dj] obtain h' where R:
      "list_Rplacd (fst (last ns)) q h1 = Some h'" "wf_heap h'" "seg (store h') p' (ns @ qs) NULL"
      "agree {fst (last ns)} h1 h'" by blast
    have "frame {} h h'"
    proof (rule frame_trans_fresh [OF C(5) agree_frame [OF R(4)]])
      have "fst (last ns) \<in> addrs ns" using ns by simp
      then show "{fst (last ns)} \<inter> dom (store h) \<subseteq> {}" using C(6) by blast
    qed
    then show ?thesis using p False C R list_last_node_ok [OF C(3) ns]
      by (intro exI [of _ p'] exI [of _ h'] exI [of _ ns]) (simp add: list_Append_def)
  qed
qed

lemma list_NInsert_ok:
  assumes "wf_heap h" "seg (store h) p ((p, x) # ps) NULL" "seg (store h) q qs NULL"
    "addrs qs \<inter> addrs ((p, x) # ps) = {}"
  shows "\<exists>h'. list_NInsert p q h = Some h' \<and> wf_heap h'
     \<and> seg (store h') p ((p, x) # qs @ ps) NULL \<and> agree (insert p (addrs qs)) h h'"
proof -
  from assms(2) obtain r where p: "p \<noteq> NULL" "store h p = Some \<lparr>cdr = r, car = x\<rparr>"
    "seg (store h) r ps NULL" by auto
  have nin: "p \<notin> addrs ps" "p \<notin> addrs qs" using seg_distinct [OF assms(2)] assms(4) by auto
  define h1 where "h1 = h\<lparr>store := (store h)(p \<mapsto> \<lparr>cdr = q, car = x\<rparr>)\<rparr>"
  have w1: "wf_heap h1" unfolding h1_def by (rule wf_heap_field [OF assms(1) p(2)])
  have s1: "seg (store h1) p ((p, x) # qs) NULL" using assms(3) nin p(1) by (simp add: h1_def)
  have s2: "seg (store h1) r ps NULL" using p(3) nin by (simp add: h1_def)
  have dj: "addrs ((p, x) # qs) \<inter> addrs ps = {}" using assms(4) nin by auto
  from relink_last [OF w1 s1 _ s2 dj] obtain h' where R:
    "list_Rplacd (fst (last ((p, x) # qs))) r h1 = Some h'" "wf_heap h'"
    "seg (store h') p (((p, x) # qs) @ ps) NULL" "agree {fst (last ((p, x) # qs))} h1 h'" by blast
  have "agree (insert p (addrs qs)) h1 h'" by (rule agree_mono [OF R(4)]) auto
  then have "agree (insert p (addrs qs)) h h'" by (auto simp: agree_def h1_def)
  then show ?thesis using R p list_last_node_ok [OF s1]
    by (intro exI [of _ h']) (simp add: list_NInsert_def heap_simps flip: h1_def)
qed

section \<open>Scans\<close>

text \<open>A test decides a predicate on the elements \<open>X\<close> in every heap of a class \<open>H\<close>.\<close>

definition decides :: "(ptr \<Rightarrow> heap \<Rightarrow> bool option) \<Rightarrow> (ptr \<Rightarrow> bool) \<Rightarrow> ptr set \<Rightarrow> heap set \<Rightarrow> bool" where
  "decides T P X H \<longleftrightarrow> (\<forall>x \<in> X. \<forall>h \<in> H. T x h = Some (P x))"

lemma decides_pure [simp]: "decides (\<lambda>x h. Some (P x)) P X H"
  by (simp add: decides_def)

lemma list_Member_ok:
  assumes "seg (store h) p ps NULL" "decides (Test e) P (snd ` set ps) {h}"
  shows "list_Member p e Test h = Some (\<exists>x \<in> set (elems ps). P x)"
  using assms
proof (induction ps arbitrary: p)
  case Nil
  then show ?case by (subst list_Member.simps) simp
next
  case (Cons c ps)
  obtain a x where c: "c = (a, x)" by (cases c)
  with Cons.prems obtain r where a: "p = a" "a \<noteq> NULL" "store h a = Some \<lparr>cdr = r, car = x\<rparr>"
    "seg (store h) r ps NULL" by auto
  have "Test e x h = Some (P x)" "decides (Test e) P (snd ` set ps) {h}"
    using Cons.prems(2) c by (auto simp: decides_def)
  then show ?case
    by (subst list_Member.simps) (use a c Cons.IH in \<open>simp add: heap_simps\<close>)
qed

lemma list_PointerMember_ok:
  assumes "seg (store h) p ps NULL"
  shows "list_PointerMember p e h = Some (e \<in> set (elems ps))"
  using assms
proof (induction ps arbitrary: p)
  case Nil
  then show ?case by (subst list_PointerMember.simps) simp
next
  case (Cons c ps)
  obtain a x where c: "c = (a, x)" by (cases c)
  with Cons.prems obtain r where a: "p = a" "a \<noteq> NULL" "store h a = Some \<lparr>cdr = r, car = x\<rparr>"
    "seg (store h) r ps NULL" by auto
  then show ?case
    by (subst list_PointerMember.simps) (use a c Cons.IH in \<open>simp add: heap_simps\<close>)
qed

lemma list_Length_loop_ok:
  "seg (store h) p ps NULL \<Longrightarrow> list_Length_loop p n h = Some (n + of_nat (length ps))"
proof (induction ps arbitrary: p n)
  case Nil
  then show ?case by (subst list_Length_loop.simps) simp
next
  case (Cons c ps)
  obtain a x where c: "c = (a, x)" by (cases c)
  with Cons.prems obtain r where a: "p = a" "a \<noteq> NULL" "store h a = Some \<lparr>cdr = r, car = x\<rparr>"
    "seg (store h) r ps NULL" by auto
  then show ?case
    by (subst list_Length_loop.simps) (use a c Cons.IH in \<open>simp add: heap_simps add.assoc\<close>)
qed

lemma list_Length_ok: "seg (store h) p ps NULL \<Longrightarrow> list_Length p h = Some (of_nat (length ps))"
  by (simp add: list_Length_def list_Length_loop_ok)

lemma list_Bytes_ok:
  "seg (store h) p ps NULL \<Longrightarrow> list_Bytes p h = Some (16 * of_nat (length ps))"
  by (simp add: list_Bytes_def list_Length_ok sizeof_LIST_NODE_def)

lemma list_NthElement_ok:
  assumes "seg (store h) p ps NULL" "0 < n" "n < 2 ^ 32"
  shows "list_NthElement p (of_nat n) h = Some (if n \<le> length ps then elems ps ! (n - 1) else NULL)"
  using assms
proof (induction ps arbitrary: p n)
  case Nil
  then show ?case by (subst list_NthElement.simps) simp
next
  case (Cons c ps)
  obtain a x where c: "c = (a, x)" by (cases c)
  with Cons.prems obtain r where a: "p = a" "a \<noteq> NULL" "store h a = Some \<lparr>cdr = r, car = x\<rparr>"
    "seg (store h) r ps NULL" by auto
  have dec: "of_nat n - 1 = (of_nat (n - 1) :: NAT)" using Cons.prems(2) by (simp add: of_nat_diff)
  have pos: "0 < (of_nat (n - 1) :: NAT) \<longleftrightarrow> n \<noteq> 1"
  proof -
    have "n - 1 < 2 ^ 32" using Cons.prems(3) by linarith
    from nat32_eq_0_iff [OF this] have "0 < (of_nat (n - 1) :: NAT) \<longleftrightarrow> n - 1 \<noteq> 0"
      by (metis word_gt_0)
    then show ?thesis using Cons.prems(2) by linarith
  qed
  note step = list_NthElement.simps [of p "of_nat n" h, unfolded dec]
  show ?case
  proof (cases "n = 1")
    case True
    with pos have "\<not> 0 < (of_nat (n - 1) :: NAT)" by blast
    then show ?thesis unfolding step using True a c by (simp add: heap_simps del: of_nat_diff)
  next
    case False
    with Cons.prems have n: "0 < n - 1" "n - 1 < 2 ^ 32" by auto
    have "0 < (of_nat (n - 1) :: NAT)" using pos False by blast
    then have "list_NthElement p (of_nat n) h = list_NthElement r (of_nat (n - 1)) h"
      unfolding step using a c by (simp add: heap_simps del: of_nat_diff)
    also have "\<dots> = Some (if n - 1 \<le> length ps then elems ps ! (n - 1 - 1) else NULL)"
      by (rule Cons.IH [OF a(4) n])
    finally show ?thesis using n by (auto simp: nth_Cons')
  qed
qed

lemma list_PointerReplaceMember_ok:
  assumes "wf_heap h" "seg (store h) p ps NULL"
  shows "\<exists>h' qs. list_PointerReplaceMember p old new h = Some (old \<in> set (elems ps), h')
     \<and> wf_heap h' \<and> seg (store h') p qs NULL \<and> map fst qs = map fst ps \<and> agree (addrs ps) h h'
     \<and> elems qs = (if old \<in> set (elems ps)
          then takeWhile (\<lambda>x. x \<noteq> old) (elems ps) @ new # tl (dropWhile (\<lambda>x. x \<noteq> old) (elems ps))
          else elems ps)"
  using assms
proof (induction ps arbitrary: p)
  case Nil
  then show ?case by (subst list_PointerReplaceMember.simps) simp
next
  case (Cons c ps)
  obtain a x where c: "c = (a, x)" by (cases c)
  with Cons.prems obtain r where a: "p = a" "a \<noteq> NULL" "store h a = Some \<lparr>cdr = r, car = x\<rparr>"
    "seg (store h) r ps NULL" by auto
  have nin: "a \<notin> addrs ps" using seg_distinct [OF Cons.prems(2)] c by auto
  show ?case
  proof (cases "old = x")
    case True
    define h1 where "h1 = h\<lparr>store := (store h)(a \<mapsto> \<lparr>cdr = r, car = new\<rparr>)\<rparr>"
    have "list_PointerReplaceMember p old new h = Some (True, h1)"
      by (subst list_PointerReplaceMember.simps) (use True a in \<open>simp add: heap_simps h1_def\<close>)
    moreover have "seg (store h1) p ((a, new) # ps) NULL" using a nin by (simp add: h1_def)
    moreover have "agree (addrs (c # ps)) h h1" using c by (auto simp: agree_def h1_def)
    moreover have "wf_heap h1" unfolding h1_def by (rule wf_heap_field [OF Cons.prems(1) a(3)])
    ultimately show ?thesis using True c
      by (intro exI [of _ h1] exI [of _ "(a, new) # ps"]) simp
  next
    case False
    from Cons.IH [OF Cons.prems(1) a(4)] obtain h' qs where IH:
      "list_PointerReplaceMember r old new h = Some (old \<in> set (elems ps), h')" "wf_heap h'"
      "seg (store h') r qs NULL" "map fst qs = map fst ps" "agree (addrs ps) h h'"
      "elems qs = (if old \<in> set (elems ps)
          then takeWhile (\<lambda>x. x \<noteq> old) (elems ps) @ new # tl (dropWhile (\<lambda>x. x \<noteq> old) (elems ps))
          else elems ps)" by blast
    have "list_PointerReplaceMember p old new h = Some (old \<in> set (elems ps), h')"
      by (subst list_PointerReplaceMember.simps) (use False a IH(1) in \<open>simp add: heap_simps\<close>)
    moreover have "store h' a = Some \<lparr>cdr = r, car = x\<rparr>"
      using IH(5) nin a(3) by (simp add: agree_def)
    ultimately show ?thesis using IH False a c
      by (intro exI [of _ h'] exI [of _ "(a, x) # qs"]) (auto simp: agree_def)
  qed
qed

section \<open>Dequeueing and deleting\<close>

lemma unlink_next:
  assumes "wf_heap h" "store h p = Some \<lparr>cdr = a, car = v\<rparr>" "p \<noteq> NULL"
    "seg (store h) a ((a, x) # ps) NULL" "p \<notin> addrs ((a, x) # ps)"
  shows "\<exists>h1 h2 r. list_Cdr a h = Some r \<and> list_Rplacd p r h = Some h1 \<and> list_Free a h1 = Some h2
     \<and> wf_heap h2 \<and> store h1 a = store h a \<and> store h2 p = Some \<lparr>cdr = r, car = v\<rparr>
     \<and> seg (store h2) r ps NULL
     \<and> store h2 a = None \<and> agree {p, a} h h2 \<and> agree {p} h h1 \<and> wf_heap h1"
proof -
  from assms(4) obtain r where a: "a \<noteq> NULL" "store h a = Some \<lparr>cdr = r, car = x\<rparr>"
    "seg (store h) r ps NULL" by auto
  have nin: "a \<notin> addrs ps" "p \<noteq> a" "p \<notin> addrs ps"
    using seg_distinct [OF assms(4)] assms(5) by auto
  define h1 where "h1 = h\<lparr>store := (store h)(p \<mapsto> \<lparr>cdr = r, car = v\<rparr>)\<rparr>"
  have w1: "wf_heap h1" unfolding h1_def by (rule wf_heap_field [OF assms(1,2)])
  have "store h1 a = Some \<lparr>cdr = r, car = x\<rparr>" using a nin by (simp add: h1_def)
  then obtain h2 where F: "list_Free a h1 = Some h2" "wf_heap h2" "store h2 = (store h1)(a := None)"
    by (rule list_Free_spec [OF w1])
  moreover have "list_Cdr a h = Some r" "list_Rplacd p r h = Some h1"
    using a assms(2) by (simp_all add: heap_simps h1_def)
  ultimately show ?thesis using a nin w1
    by (intro exI [of _ h1] exI [of _ h2] exI [of _ r]) (auto simp: h1_def agree_def)
qed

lemma list_DequeueNext_ok:
  assumes "wf_heap h" "seg (store h) p ps NULL"
  shows "list_DequeueNext p h = Some (NULL, h) \<and> length ps \<le> 1 \<or>
    (\<exists>a v b x rs h'. ps = (a, v) # (b, x) # rs \<and> list_DequeueNext p h = Some (x, h') \<and> wf_heap h'
       \<and> seg (store h') p ((a, v) # rs) NULL \<and> store h' b = None \<and> agree {a, b} h h')"
proof (cases ps)
  case Nil
  then show ?thesis using assms by (auto simp: list_DequeueNext_def)
next
  case (Cons c qs)
  obtain a v where c: "c = (a, v)" by (cases c)
  with assms Cons obtain r where a: "p = a" "a \<noteq> NULL" "store h a = Some \<lparr>cdr = r, car = v\<rparr>"
    "seg (store h) r qs NULL" by auto
  show ?thesis
  proof (cases qs)
    case Nil
    then show ?thesis using a Cons by (simp add: list_DequeueNext_def heap_simps)
  next
    case (Cons d rs)
    obtain b x where d: "d = (b, x)" by (cases d)
    have r: "r = b" "b \<noteq> NULL" "list_Car b h = Some x"
      using a(4) Cons d by (auto simp: heap_simps)
    have nin: "a \<notin> addrs qs" using seg_distinct [OF assms(2)] \<open>ps = c # qs\<close> c by auto
    from unlink_next [OF assms(1) a(3)[unfolded r(1)] a(2) a(4)[unfolded r(1) Cons d]]
    obtain h1 h2 s where U: "list_Cdr b h = Some s" "list_Rplacd a s h = Some h1"
      "list_Free b h1 = Some h2" "wf_heap h2" "store h2 a = Some \<lparr>cdr = s, car = v\<rparr>"
      "seg (store h2) s rs NULL" "store h2 b = None" "agree {a, b} h h2"
      using nin Cons d by auto
    have "list_DequeueNext p h = Some (x, h2)"
      using a r U(1-3) by (simp add: list_DequeueNext_def heap_simps)
    then show ?thesis using U a \<open>ps = c # qs\<close> Cons c d by auto
  qed
qed

lemma list_Pop_ok:
  assumes "wf_heap h" "seg (store h) p ((p, x) # ps) NULL"
  shows "\<exists>q h'. list_Pop p h = Some (q, h') \<and> wf_heap h' \<and> seg (store h') q ps NULL
     \<and> store h' = (store h)(p := None)"
proof -
  from assms(2) obtain r where p: "store h p = Some \<lparr>cdr = r, car = x\<rparr>" "seg (store h) r ps NULL"
    by auto
  obtain h' where F: "list_Free p h = Some h'" "wf_heap h'" "store h' = (store h)(p := None)"
    by (rule list_Free_spec [OF assms(1) p(1)])
  have "p \<notin> addrs ps" using seg_distinct [OF assms(2)] by simp
  then show ?thesis using p F by (simp add: list_Pop_def heap_simps)
qed

lemma list_Delete_ok:
  assumes "wf_heap h" "seg (store h) p ps NULL"
  shows "\<exists>h'. list_Delete p h = Some h' \<and> wf_heap h' \<and> store h' = (store h) |` (- addrs ps)"
  using assms
proof (induction ps arbitrary: p h)
  case Nil
  then show ?case by (subst list_Delete.simps) (simp add: restrict_map_def)
next
  case (Cons c ps)
  obtain a x where c: "c = (a, x)" by (cases c)
  with Cons.prems obtain r where a: "p = a" "a \<noteq> NULL" "store h a = Some \<lparr>cdr = r, car = x\<rparr>"
    "seg (store h) r ps NULL" by auto
  obtain h1 where F: "list_Free a h = Some h1" "wf_heap h1" "store h1 = (store h)(a := None)"
    by (rule list_Free_spec [OF Cons.prems(1) a(3)])
  have "a \<notin> addrs ps" using seg_distinct [OF Cons.prems(2)] c by simp
  then have "seg (store h1) r ps NULL" using a(4) by (simp add: F(3))
  from Cons.IH [OF F(2) this] obtain h' where "list_Delete r h1 = Some h'" "wf_heap h'"
    "store h' = (store h1) |` (- addrs ps)" by blast
  moreover have "list_Delete p h = list_Delete r h1"
    by (subst list_Delete.simps) (use a F(1) in \<open>simp add: heap_simps\<close>)
  moreover have "(store h1) |` (- addrs ps) = (store h) |` (- addrs (c # ps))"
    using c by (auto simp: F(3) restrict_map_def)
  ultimately show ?case by simp
qed

lemma list_StackFree_ok:
  assumes "wf_heap h" "seg (store h) p ps NULL"
  shows "\<exists>h'. list_StackFree p h = Some (NULL, h') \<and> wf_heap h'
     \<and> store h' = (store h) |` (- addrs ps)"
  using assms
proof (induction ps arbitrary: p h)
  case Nil
  then show ?case by (subst list_StackFree.simps) (simp add: restrict_map_def)
next
  case (Cons c ps)
  obtain a x where c: "c = (a, x)" by (cases c)
  with Cons.prems have a: "p = a" "a \<noteq> NULL" "seg (store h) a ((a, x) # ps) NULL" by auto
  from list_Pop_ok [OF Cons.prems(1) a(3)] obtain q h1 where P: "list_Pop a h = Some (q, h1)"
    "wf_heap h1" "seg (store h1) q ps NULL" "store h1 = (store h)(a := None)" by blast
  from Cons.IH [OF P(2,3)] obtain h' where "list_StackFree q h1 = Some (NULL, h')" "wf_heap h'"
    "store h' = (store h1) |` (- addrs ps)" by blast
  moreover have "list_StackFree p h = list_StackFree q h1"
    by (subst list_StackFree.simps) (use a P(1) in simp)
  moreover have "(store h1) |` (- addrs ps) = (store h) |` (- addrs (c # ps))"
    using c by (auto simp: P(4) restrict_map_def)
  ultimately show ?case by simp
qed

end
