(* ===== verification/Spass_List_Delete.thy ===== *)
theory Spass_List_Delete
  imports Spass_List
begin

text \<open>
  Deletion from lists (\<open>list.c\<close>). Eleven
  functions of \<open>list.c\<close> repeat one pattern: a loop that frees matching nodes at the head, and a
  loop with a trailing pointer that unlinks and frees matching nodes in the rest. The two loops
  are modelled once, with the test as a parameter and with the element callbacks that the
  \<open>...Free\<close> variants run before (\<open>pre\<close>) or after (\<open>post\<close>) the node is unlinked.
\<close>

section \<open>The deletion loops\<close>

type_synonym heap_test = "ptr \<Rightarrow> heap \<Rightarrow> bool option"
type_synonym heap_proc = "ptr \<Rightarrow> heap \<Rightarrow> heap option"

definition skip_elem :: heap_proc where "skip_elem x h = Some h"

partial_function (option) delete_head_loop ::
  "heap_test \<Rightarrow> heap_proc \<Rightarrow> ptr \<Rightarrow> heap \<Rightarrow> (ptr \<times> heap) option" where
  "delete_head_loop T D List h =
     (if list_Empty List then Some (List, h)
      else do {
        x \<leftarrow> list_Car List h;
        b \<leftarrow> T x h;
        if b then do {
          Scan1 \<leftarrow> list_Cdr List h;
          h \<leftarrow> D x h;
          h \<leftarrow> list_Free List h;
          delete_head_loop T D Scan1 h }
        else Some (List, h) })"

partial_function (option) delete_scan_loop ::
  "heap_test \<Rightarrow> heap_proc \<Rightarrow> heap_proc \<Rightarrow> ptr \<Rightarrow> ptr \<Rightarrow> heap \<Rightarrow> heap option" where
  "delete_scan_loop T pre post Scan2 Scan1 h =
     (if list_Empty Scan1 then Some h
      else do {
        x \<leftarrow> list_Car Scan1 h;
        b \<leftarrow> T x h;
        if b then do {
          h \<leftarrow> pre x h;
          q \<leftarrow> list_Cdr Scan1 h;
          h \<leftarrow> list_Rplacd Scan2 q h;
          h \<leftarrow> post x h;
          h \<leftarrow> list_Free Scan1 h;
          Scan1 \<leftarrow> list_Cdr Scan2 h;
          delete_scan_loop T pre post Scan2 Scan1 h }
        else do {
          q \<leftarrow> list_Cdr Scan1 h;
          delete_scan_loop T pre post Scan1 q h } })"

definition delete_loops ::
  "heap_test \<Rightarrow> heap_proc \<Rightarrow> heap_proc \<Rightarrow> heap_proc \<Rightarrow> ptr \<Rightarrow> heap \<Rightarrow> (ptr \<times> heap) option" where
  "delete_loops T D pre post List h = do {
     (List, h) \<leftarrow> delete_head_loop T D List h;
     if list_Empty List then Some (list_Nil, h)
     else do {
       Scan1 \<leftarrow> list_Cdr List h;
       h \<leftarrow> delete_scan_loop T pre post List Scan1 h;
       Some (List, h) } }"

section \<open>The deletion functions\<close>

definition list_DeleteElement :: "ptr \<Rightarrow> ptr \<Rightarrow> elem_test \<Rightarrow> heap \<Rightarrow> (ptr \<times> heap) option" where
  "list_DeleteElement List Element Test h =
     delete_loops (Test Element) skip_elem skip_elem skip_elem List h"

definition list_DeleteElementIf :: "ptr \<Rightarrow> heap_test \<Rightarrow> heap \<Rightarrow> (ptr \<times> heap) option" where
  "list_DeleteElementIf List Test h = delete_loops Test skip_elem skip_elem skip_elem List h"

definition list_DeleteElementIfFree ::
  "ptr \<Rightarrow> heap_test \<Rightarrow> heap_proc \<Rightarrow> heap \<Rightarrow> (ptr \<times> heap) option" where
  "list_DeleteElementIfFree List Test Del h = delete_loops Test Del Del skip_elem List h"

definition list_DeleteElementFree ::
  "ptr \<Rightarrow> ptr \<Rightarrow> elem_test \<Rightarrow> heap_proc \<Rightarrow> heap \<Rightarrow> (ptr \<times> heap) option" where
  "list_DeleteElementFree List Element Test Fr h =
     delete_loops (Test Element) Fr skip_elem Fr List h"

definition pointer_eq :: elem_test where "pointer_eq x y h = Some (x = y)"

definition list_PointerDeleteElement :: "ptr \<Rightarrow> ptr \<Rightarrow> heap \<Rightarrow> (ptr \<times> heap) option" where
  "list_PointerDeleteElement List Element h =
     delete_loops (pointer_eq Element) skip_elem skip_elem skip_elem List h"

definition list_PointerDeleteElementFree ::
  "ptr \<Rightarrow> ptr \<Rightarrow> heap_proc \<Rightarrow> heap \<Rightarrow> (ptr \<times> heap) option" where
  "list_PointerDeleteElementFree List Element Fr h =
     delete_loops (pointer_eq Element) Fr skip_elem Fr List h"

text \<open>The loop of the functions that delete at most one element: the result tells whether a
  node was unlinked.\<close>

partial_function (option) delete_one_loop ::
  "heap_test \<Rightarrow> ptr \<Rightarrow> ptr \<Rightarrow> heap \<Rightarrow> (bool \<times> heap) option" where
  "delete_one_loop T Scan2 Scan1 h =
     (if list_Empty Scan1 then Some (False, h)
      else do {
        x \<leftarrow> list_Car Scan1 h;
        b \<leftarrow> T x h;
        if b then do {
          q \<leftarrow> list_Cdr Scan1 h;
          h \<leftarrow> list_Rplacd Scan2 q h;
          h \<leftarrow> list_Free Scan1 h;
          Some (True, h) }
        else do {
          q \<leftarrow> list_Cdr Scan1 h;
          delete_one_loop T Scan1 q h } })"

definition list_DeleteOneElement :: "ptr \<Rightarrow> ptr \<Rightarrow> elem_test \<Rightarrow> heap \<Rightarrow> (ptr \<times> heap) option" where
  "list_DeleteOneElement List Element Test h =
     (if list_Empty List then Some (List, h)
      else do {
        x \<leftarrow> list_Car List h;
        b \<leftarrow> Test Element x h;
        if b then list_Pop List h
        else do {
          scan1 \<leftarrow> list_Cdr List h;
          (_, h) \<leftarrow> delete_one_loop (Test Element) List scan1 h;
          Some (List, h) } })"

definition list_PointerDeleteOneElement :: "ptr \<Rightarrow> ptr \<Rightarrow> heap \<Rightarrow> (ptr \<times> heap) option" where
  "list_PointerDeleteOneElement List Element h =
     (if list_Empty List then Some (List, h)
      else do {
        x \<leftarrow> list_Car List h;
        if Element = x then list_Pop List h
        else do {
          Scan1 \<leftarrow> list_Cdr List h;
          (_, h) \<leftarrow> delete_one_loop (pointer_eq Element) List Scan1 h;
          Some (List, h) } })"

text \<open>\<open>list_DeleteFromList\<close> and \<open>list_DeleteOneFromList\<close> take the list by reference: the result
  is the flag, the new list and the heap.\<close>

partial_function (option) delete_from_head_loop ::
  "ptr \<Rightarrow> bool \<Rightarrow> ptr \<Rightarrow> heap \<Rightarrow> (bool \<times> ptr \<times> heap) option" where
  "delete_from_head_loop Element Found List h =
     (if \<not> list_Exist List then Some (Found, List, h)
      else do {
        x \<leftarrow> list_Car List h;
        if Element = x then do {
          Scan1 \<leftarrow> list_Cdr List h;
          h \<leftarrow> list_Free List h;
          delete_from_head_loop Element True Scan1 h }
        else Some (Found, List, h) })"

partial_function (option) delete_from_scan_loop ::
  "ptr \<Rightarrow> bool \<Rightarrow> ptr \<Rightarrow> ptr \<Rightarrow> heap \<Rightarrow> (bool \<times> heap) option" where
  "delete_from_scan_loop Element Found Scan2 Scan1 h =
     (if \<not> list_Exist Scan1 then Some (Found, h)
      else do {
        x \<leftarrow> list_Car Scan1 h;
        if Element = x then do {
          q \<leftarrow> list_Cdr Scan1 h;
          h \<leftarrow> list_Rplacd Scan2 q h;
          h \<leftarrow> list_Free Scan1 h;
          Scan1 \<leftarrow> list_Cdr Scan2 h;
          delete_from_scan_loop Element True Scan2 Scan1 h }
        else do {
          q \<leftarrow> list_Cdr Scan1 h;
          delete_from_scan_loop Element Found Scan1 q h } })"

definition list_DeleteFromList :: "ptr \<Rightarrow> ptr \<Rightarrow> heap \<Rightarrow> (bool \<times> ptr \<times> heap) option" where
  "list_DeleteFromList List Element h = do {
     (Found, List, h) \<leftarrow> delete_from_head_loop Element False List h;
     if list_Exist List then do {
       Scan1 \<leftarrow> list_Cdr List h;
       (Found, h) \<leftarrow> delete_from_scan_loop Element Found List Scan1 h;
       Some (Found, List, h) }
     else Some (Found, List, h) }"

definition list_DeleteOneFromList :: "ptr \<Rightarrow> ptr \<Rightarrow> heap \<Rightarrow> (bool \<times> ptr \<times> heap) option" where
  "list_DeleteOneFromList List Element h =
     (if list_Exist List then do {
        x \<leftarrow> list_Car List h;
        if Element = x then do {
          Scan1 \<leftarrow> list_Cdr List h;
          h \<leftarrow> list_Free List h;
          Some (True, Scan1, h) }
        else do {
          Scan1 \<leftarrow> list_Cdr List h;
          (b, h) \<leftarrow> delete_one_loop (pointer_eq Element) List Scan1 h;
          Some (b, List, h) } }
      else Some (False, List, h))"

partial_function (option) list_DeleteWithElement :: "ptr \<Rightarrow> heap_proc \<Rightarrow> heap \<Rightarrow> heap option" where
  "list_DeleteWithElement List ElementDelete h =
     (if list_Empty List then Some h
      else do {
        Scan \<leftarrow> list_Cdr List h;
        x \<leftarrow> list_Car List h;
        h \<leftarrow> ElementDelete x h;
        h \<leftarrow> list_Free List h;
        list_DeleteWithElement Scan ElementDelete h })"

partial_function (option) list_DeleteWithElementCount_loop ::
  "ptr \<Rightarrow> heap_proc \<Rightarrow> NAT \<Rightarrow> heap \<Rightarrow> (NAT \<times> heap) option" where
  "list_DeleteWithElementCount_loop List ElementDelete Result h =
     (if list_Empty List then Some (Result, h)
      else do {
        Scan \<leftarrow> list_Cdr List h;
        x \<leftarrow> list_Car List h;
        h \<leftarrow> ElementDelete x h;
        h \<leftarrow> list_Free List h;
        list_DeleteWithElementCount_loop Scan ElementDelete (Result + 1) h })"

definition list_DeleteWithElementCount :: "ptr \<Rightarrow> heap_proc \<Rightarrow> heap \<Rightarrow> (NAT \<times> heap) option" where
  "list_DeleteWithElementCount List ElementDelete h =
     list_DeleteWithElementCount_loop List ElementDelete 0 h"

section \<open>What the callbacks may do\<close>

text \<open>\<open>test_ok T Q B h X\<close>: on the elements \<open>X\<close> the test answers \<open>Q\<close>, and keeps doing so while at
  most the addresses \<open>B\<close> change. \<open>proc_ok D R h xs\<close>: run on the elements \<open>xs\<close> in this order, the
  callback returns and touches, for an element \<open>x\<close>, only the region \<open>R x\<close>; the regions of
  different positions of the list are disjoint (freeing the same memory twice is excluded).\<close>

definition test_ok :: "heap_test \<Rightarrow> (ptr \<Rightarrow> bool) \<Rightarrow> ptr set \<Rightarrow> heap \<Rightarrow> ptr set \<Rightarrow> bool" where
  "test_ok T Q B h X \<longleftrightarrow> decides T Q X {h'. agree B h h'}"

definition regs :: "(ptr \<Rightarrow> ptr set) \<Rightarrow> ptr list \<Rightarrow> ptr set" where
  "regs R xs = (\<Union>x \<in> set xs. R x)"

definition proc_ok :: "heap_proc \<Rightarrow> (ptr \<Rightarrow> ptr set) \<Rightarrow> heap \<Rightarrow> ptr list \<Rightarrow> bool" where
  "proc_ok D R h xs \<longleftrightarrow> sorted_wrt (\<lambda>x y. R x \<inter> R y = {}) xs
     \<and> (\<forall>x \<in> set xs. \<forall>h1. wf_heap h1 \<and> (\<forall>a \<in> R x. store h1 a = store h a) \<longrightarrow>
          (\<exists>h2. D x h1 = Some h2 \<and> wf_heap h2 \<and> agree (R x) h1 h2))"

lemma regs_simps [simp]: "regs R [] = {}" "regs R (x # xs) = R x \<union> regs R xs"
  by (simp_all add: regs_def)

lemma regs_empty [simp]: "regs (\<lambda>x. {}) xs = {}" by (simp add: regs_def)

lemma test_ok_pure [simp]: "test_ok (\<lambda>x h. Some (Q x)) Q B h X" by (simp add: test_ok_def)

lemma test_ok_pointer_eq [simp]: "test_ok (pointer_eq e) ((=) e) B h X"
  by (simp add: test_ok_def decides_def pointer_eq_def)

lemma test_ok_agree: "test_ok T Q B h X \<Longrightarrow> agree B h h1 \<Longrightarrow> test_ok T Q B h1 X"
  by (auto simp: test_ok_def decides_def intro: agree_trans)

lemma test_ok_subset: "test_ok T Q B h X \<Longrightarrow> Y \<subseteq> X \<Longrightarrow> C \<subseteq> B \<Longrightarrow> test_ok T Q C h Y"
  by (auto simp: test_ok_def decides_def intro: agree_mono)

lemma test_okD: "test_ok T Q B h X \<Longrightarrow> x \<in> X \<Longrightarrow> T x h = Some (Q x)"
  by (simp add: test_ok_def decides_def)

lemma proc_ok_skip [simp]: "proc_ok skip_elem (\<lambda>x. {}) h xs"
  by (simp add: proc_ok_def skip_elem_def sorted_wrt_iff_nth_less)

lemma proc_ok_agree:
  assumes "proc_ok D R h (x # xs)" "agree C h h1" "C \<inter> regs R xs = {}"
  shows "proc_ok D R h1 xs"
proof -
  have "store h1 a = store h a" if "y \<in> set xs" "a \<in> R y" for a y
    using assms(2,3) that by (auto simp: agree_def regs_def)
  then show ?thesis using assms(1) by (simp add: proc_ok_def)
qed

lemma proc_ok_same:
  assumes "proc_ok D R h xs" "agree C h h1" "C \<inter> regs R xs = {}"
  shows "proc_ok D R h1 xs"
proof -
  have "store h1 a = store h a" if "y \<in> set xs" "a \<in> R y" for a y
    using assms(2,3) that by (auto simp: agree_def regs_def)
  then show ?thesis using assms(1) by (simp add: proc_ok_def)
qed

lemma proc_ok_run:
  assumes "proc_ok D R h (x # xs)" "wf_heap h1" "agree C h h1" "C \<inter> R x = {}"
  obtains h2 where "D x h1 = Some h2" "wf_heap h2" "agree (R x) h1 h2"
proof -
  have "\<forall>a \<in> R x. store h1 a = store h a" using assms(3,4) by (auto simp: agree_def)
  then show ?thesis using assms(1,2) that by (auto simp: proc_ok_def)
qed

lemma proc_ok_disjoint: "proc_ok D R h (x # xs) \<Longrightarrow> R x \<inter> regs R xs = {}"
  by (auto simp: proc_ok_def regs_def)

section \<open>The loops delete exactly the matching nodes\<close>

lemma delete_head_loop_ok:
  assumes "wf_heap h" "seg (store h) p ps NULL" "test_ok T Q B h (snd ` set ps)"
    "proc_ok D R h (takeWhile Q (elems ps))" "addrs ps \<inter> regs R (takeWhile Q (elems ps)) = {}"
    "addrs ps \<union> regs R (takeWhile Q (elems ps)) \<subseteq> B"
  shows "\<exists>p' h'. delete_head_loop T D p h = Some (p', h') \<and> wf_heap h'
     \<and> seg (store h') p' (dropWhile (\<lambda>c. Q (snd c)) ps) NULL
     \<and> agree (addrs (takeWhile (\<lambda>c. Q (snd c)) ps) \<union> regs R (takeWhile Q (elems ps))) h h'
     \<and> (\<forall>a \<in> addrs (takeWhile (\<lambda>c. Q (snd c)) ps). store h' a = None)"
  using assms
proof (induction ps arbitrary: p h)
  case Nil
  then show ?case by (subst delete_head_loop.simps) auto
next
  case (Cons c ps)
  obtain a x where c: "c = (a, x)" by (cases c)
  with Cons.prems obtain r where a: "p = a" "a \<noteq> NULL" "store h a = Some \<lparr>cdr = r, car = x\<rparr>"
    "seg (store h) r ps NULL" by auto
  have nin: "a \<notin> addrs ps" using seg_distinct [OF Cons.prems(2)] c by auto
  have T: "T x h = Some (Q x)" using test_okD [OF Cons.prems(3)] c by simp
  show ?case
  proof (cases "Q x")
    case False
    have "delete_head_loop T D p h = Some (p, h)"
      by (subst delete_head_loop.simps) (use a T False in \<open>simp add: heap_simps\<close>)
    then show ?thesis using Cons.prems(1,2) False c by simp
  next
    case True
    let ?xs = "takeWhile Q (elems ps)"
    have tw: "takeWhile Q (elems (c # ps)) = x # ?xs" using True c by simp
    note pr = Cons.prems(4)[unfolded tw] and dj = Cons.prems(5)[unfolded tw] and sub = Cons.prems(6)[unfolded tw]
    obtain h1 where D: "D x h = Some h1" "wf_heap h1" "agree (R x) h h1"
      using proc_ok_run [OF pr Cons.prems(1) agree_refl [of "{}"]] by auto
    have a1: "store h1 a = Some \<lparr>cdr = r, car = x\<rparr>"
      using D(3) dj c a(3) by (auto simp: agree_def)
    obtain h2 where F: "list_Free a h1 = Some h2" "wf_heap h2" "store h2 = (store h1)(a := None)"
      by (rule list_Free_spec [OF D(2) a1])
    have ag: "agree (insert a (R x)) h h2" using D(3) by (auto simp: agree_def F(3))
    have s2: "seg (store h2) r ps NULL"
      by (rule seg_agree [OF ag _ a(4)]) (use nin dj in auto)
    have "insert a (R x) \<inter> regs R ?xs = {}" using dj proc_ok_disjoint [OF pr] c by auto
    then have pr2: "proc_ok D R h2 ?xs" by (rule proc_ok_agree [OF pr ag])
    have "agree B h h2" by (rule agree_mono [OF ag]) (use sub c in auto)
    then have t2: "test_ok T Q B h2 (snd ` set ps)"
      by (rule test_ok_subset [OF test_ok_agree [OF Cons.prems(3)]]) auto
    have "addrs ps \<inter> regs R ?xs = {}" "addrs ps \<union> regs R ?xs \<subseteq> B" using dj sub by auto
    from Cons.IH [OF F(2) s2 t2 pr2 this] obtain p' h' where IH:
      "delete_head_loop T D r h2 = Some (p', h')" "wf_heap h'"
      "seg (store h') p' (dropWhile (\<lambda>c. Q (snd c)) ps) NULL"
      "agree (addrs (takeWhile (\<lambda>c. Q (snd c)) ps) \<union> regs R ?xs) h2 h'"
      "\<forall>a \<in> addrs (takeWhile (\<lambda>c. Q (snd c)) ps). store h' a = None" by blast
    have "delete_head_loop T D p h = Some (p', h')"
      by (subst delete_head_loop.simps) (use a T True D(1) F(1) IH(1) in \<open>simp add: heap_simps\<close>)
    moreover have "store h' a = None"
    proof -
      have "a \<notin> addrs (takeWhile (\<lambda>c. Q (snd c)) ps)" using nin by (auto dest: set_takeWhileD)
      moreover have "a \<notin> regs R ?xs" using dj c by auto
      ultimately show ?thesis using IH(4) by (simp add: agree_def F(3))
    qed
    moreover have "agree (addrs (takeWhile (\<lambda>c. Q (snd c)) (c # ps)) \<union> regs R (x # ?xs)) h h'"
      using ag IH(4) c True by (auto simp: agree_def)
    ultimately show ?thesis using IH True c tw by auto
  qed
qed

lemma delete_scan_loop_ok:
  assumes "wf_heap h" "seg (store h) q ps NULL" "test_ok T Q B h (snd ` set ps)"
    "store h p = Some \<lparr>cdr = q, car = v\<rparr>" "p \<noteq> NULL" "p \<notin> addrs ps"
    "proc_ok pre R1 h (filter Q (elems ps))" "proc_ok post R2 h (filter Q (elems ps))"
    "regs R1 (filter Q (elems ps)) \<inter> regs R2 (filter Q (elems ps)) = {}"
    "insert p (addrs ps) \<inter> (regs R1 (filter Q (elems ps)) \<union> regs R2 (filter Q (elems ps))) = {}"
    "insert p (addrs ps) \<union> regs R1 (filter Q (elems ps)) \<union> regs R2 (filter Q (elems ps)) \<subseteq> B"
  shows "\<exists>h'. delete_scan_loop T pre post p q h = Some h' \<and> wf_heap h'
     \<and> seg (store h') p ((p, v) # filter (\<lambda>c. \<not> Q (snd c)) ps) NULL
     \<and> agree (insert p (addrs ps) \<union> regs R1 (filter Q (elems ps)) \<union> regs R2 (filter Q (elems ps))) h h'
     \<and> (\<forall>a \<in> addrs (filter (\<lambda>c. Q (snd c)) ps). store h' a = None)"
  using assms
proof (induction ps arbitrary: p v q h)
  case Nil
  then show ?case by (subst delete_scan_loop.simps) auto
next
  case (Cons c ps)
  obtain a x where c: "c = (a, x)" by (cases c)
  with Cons.prems obtain r where a: "q = a" "a \<noteq> NULL" "store h a = Some \<lparr>cdr = r, car = x\<rparr>"
    "seg (store h) r ps NULL" by auto
  have nin: "a \<notin> addrs ps" "p \<notin> addrs ps" "p \<noteq> a"
    using seg_distinct [OF Cons.prems(2)] Cons.prems(6) c by auto
  have T: "T x h = Some (Q x)" using test_okD [OF Cons.prems(3)] c by simp
  let ?xs = "filter Q (elems ps)"
  show ?case
  proof (cases "Q x")
    case False
    have fl: "filter Q (elems (c # ps)) = ?xs" using False c by simp
    have t: "test_ok T Q B h (snd ` set ps)" by (rule test_ok_subset [OF Cons.prems(3)]) auto
    have dj: "insert a (addrs ps) \<inter> (regs R1 ?xs \<union> regs R2 ?xs) = {}"
      "insert a (addrs ps) \<union> regs R1 ?xs \<union> regs R2 ?xs \<subseteq> B"
      using Cons.prems(10,11) c False by auto
    from Cons.IH [OF Cons.prems(1) a(4) t a(3,2) nin(1) Cons.prems(7-9)[unfolded fl] dj]
    obtain h' where IH: "delete_scan_loop T pre post a r h = Some h'" "wf_heap h'"
      "seg (store h') a ((a, x) # filter (\<lambda>c. \<not> Q (snd c)) ps) NULL"
      "agree (insert a (addrs ps) \<union> regs R1 ?xs \<union> regs R2 ?xs) h h'"
      "\<forall>a \<in> addrs (filter (\<lambda>c. Q (snd c)) ps). store h' a = None" by blast
    have "delete_scan_loop T pre post p q h = Some h'"
      by (subst delete_scan_loop.simps) (use a T False IH(1) in \<open>simp add: heap_simps\<close>)
    moreover have "store h' p = Some \<lparr>cdr = a, car = v\<rparr>"
      using IH(4) nin Cons.prems(4,10) fl a(1) by (auto simp: agree_def)
    moreover have "agree (insert p (addrs (c # ps)) \<union> regs R1 ?xs \<union> regs R2 ?xs) h h'"
      by (rule agree_mono [OF IH(4)]) (use c in auto)
    ultimately show ?thesis using IH Cons.prems(5) False c fl by auto
  next
    case True
    have fl: "filter Q (elems (c # ps)) = x # ?xs" using True c by simp
    note pr1 = Cons.prems(7)[unfolded fl] and pr2 = Cons.prems(8)[unfolded fl]
      and rr = Cons.prems(9)[unfolded fl] and dj = Cons.prems(10)[unfolded fl]
      and sub = Cons.prems(11)[unfolded fl]
    obtain h1 where D: "pre x h = Some h1" "wf_heap h1" "agree (R1 x) h h1"
      using proc_ok_run [OF pr1 Cons.prems(1) agree_refl [of "{}"]] by auto
    have h1: "store h1 a = Some \<lparr>cdr = r, car = x\<rparr>" "store h1 p = Some \<lparr>cdr = a, car = v\<rparr>"
      using D(3) dj c a(1,3) Cons.prems(4) by (auto simp: agree_def)
    define h2 where "h2 = h1\<lparr>store := (store h1)(p \<mapsto> \<lparr>cdr = r, car = v\<rparr>)\<rparr>"
    have w2: "wf_heap h2" unfolding h2_def by (rule wf_heap_field [OF D(2) h1(2)])
    have ag2: "agree (insert p (R1 x)) h h2" using D(3) by (auto simp: agree_def h2_def)
    have "insert p (R1 x) \<inter> R2 x = {}" using rr dj by auto
    from proc_ok_run [OF pr2 w2 ag2 this]
    obtain h3 where P: "post x h2 = Some h3" "wf_heap h3" "agree (R2 x) h2 h3" by auto
    have h3: "store h3 a = Some \<lparr>cdr = r, car = x\<rparr>" "store h3 p = Some \<lparr>cdr = r, car = v\<rparr>"
      using P(3) dj c h1 nin by (auto simp: agree_def h2_def)
    obtain h4 where F: "list_Free a h3 = Some h4" "wf_heap h4" "store h4 = (store h3)(a := None)"
      by (rule list_Free_spec [OF P(2) h3(1)])
    have h4: "store h4 p = Some \<lparr>cdr = r, car = v\<rparr>" using h3 nin by (simp add: F(3))
    let ?C = "insert p (insert a (R1 x \<union> R2 x))"
    have ag: "agree ?C h h4" using ag2 P(3) by (auto simp: agree_def F(3))
    have s4: "seg (store h4) r ps NULL" by (rule seg_agree [OF ag _ a(4)]) (use nin dj in auto)
    have dj1: "?C \<inter> regs R1 ?xs = {}" "?C \<inter> regs R2 ?xs = {}"
      using dj rr c proc_ok_disjoint [OF pr1] proc_ok_disjoint [OF pr2] by auto
    have pr: "proc_ok pre R1 h4 ?xs" "proc_ok post R2 h4 ?xs"
      using proc_ok_agree [OF pr1 ag dj1(1)] proc_ok_agree [OF pr2 ag dj1(2)] by auto
    have "agree B h h4" by (rule agree_mono [OF ag]) (use sub c in auto)
    then have t4: "test_ok T Q B h4 (snd ` set ps)"
      by (rule test_ok_subset [OF test_ok_agree [OF Cons.prems(3)]]) auto
    have dj2: "regs R1 ?xs \<inter> regs R2 ?xs = {}" "insert p (addrs ps) \<inter> (regs R1 ?xs \<union> regs R2 ?xs) = {}"
      "insert p (addrs ps) \<union> regs R1 ?xs \<union> regs R2 ?xs \<subseteq> B" using rr dj sub by auto
    from Cons.IH [OF F(2) s4 t4 h4 Cons.prems(5) nin(2) pr dj2]
    obtain h' where IH: "delete_scan_loop T pre post p r h4 = Some h'" "wf_heap h'"
      "seg (store h') p ((p, v) # filter (\<lambda>c. \<not> Q (snd c)) ps) NULL"
      "agree (insert p (addrs ps) \<union> regs R1 ?xs \<union> regs R2 ?xs) h4 h'"
      "\<forall>a \<in> addrs (filter (\<lambda>c. Q (snd c)) ps). store h' a = None" by blast
    have cdr1: "list_Cdr a h1 = Some r" "list_Rplacd p r h1 = Some h2" "list_Cdr p h4 = Some r"
      using h1 h4 by (simp_all add: heap_simps h2_def)
    have "delete_scan_loop T pre post p q h = Some h'"
      by (subst delete_scan_loop.simps)
        (use a T True D(1) P(1) F(1) IH(1) cdr1 in \<open>simp add: heap_simps\<close>)
    moreover have "store h' a = None"
    proof -
      have "a \<notin> insert p (addrs ps) \<union> regs R1 ?xs \<union> regs R2 ?xs" using nin dj c by auto
      then show ?thesis using IH(4) by (simp add: agree_def F(3))
    qed
    moreover have "agree (insert p (addrs (c # ps)) \<union> regs R1 (x # ?xs) \<union> regs R2 (x # ?xs)) h h'"
      using ag IH(4) c unfolding agree_def by auto
    ultimately show ?thesis using IH True c fl by auto
  qed
qed

lemma filter_takeWhile_dropWhile:
  "filter Q xs = takeWhile Q xs @ filter Q (dropWhile Q xs)"
  by (induction xs) auto

lemma filter_Not_dropWhile: "filter (\<lambda>c. \<not> Q c) (dropWhile Q xs) = filter (\<lambda>c. \<not> Q c) xs"
  by (induction xs) auto

lemma map_takeWhile_snd: "takeWhile Q (map snd ps) = map snd (takeWhile (\<lambda>c. Q (snd c)) ps)"
  by (induction ps) auto

lemma map_dropWhile_snd: "dropWhile Q (map snd ps) = map snd (dropWhile (\<lambda>c. Q (snd c)) ps)"
  by (induction ps) auto

lemma disjoint_mono3: "A \<subseteq> B \<Longrightarrow> B \<inter> (C \<union> D \<union> E) = {} \<Longrightarrow> A \<inter> (D \<union> E) = {}"
  by auto

lemma union_sub4: "A \<subseteq> P \<Longrightarrow> P \<union> X \<union> C \<union> D \<subseteq> B \<Longrightarrow> A \<union> C \<union> D \<subseteq> B"
  by auto

lemma agree_step: "agree A h h1 \<Longrightarrow> agree B h1 h2 \<Longrightarrow> A \<subseteq> C \<Longrightarrow> B \<subseteq> C \<Longrightarrow> agree C h h2"
  by (blast intro: agree_trans agree_mono)

lemma delete_loops_ok:
  fixes Q :: "ptr \<Rightarrow> bool" and ps :: nodes
  defines "xs \<equiv> takeWhile Q (elems ps)" and "ys \<equiv> filter Q (dropWhile Q (elems ps))"
  assumes "wf_heap h" "seg (store h) p ps NULL" "test_ok T Q B h (snd ` set ps)"
    "proc_ok D R h xs" "proc_ok pre R1 h ys" "proc_ok post R2 h ys"
    "regs R1 ys \<inter> regs R2 ys = {}" "regs R xs \<inter> (regs R1 ys \<union> regs R2 ys) = {}"
    "addrs ps \<inter> (regs R xs \<union> regs R1 ys \<union> regs R2 ys) = {}"
    "addrs ps \<union> regs R xs \<union> regs R1 ys \<union> regs R2 ys \<subseteq> B"
  shows "\<exists>p' h'. delete_loops T D pre post p h = Some (p', h') \<and> wf_heap h'
     \<and> seg (store h') p' (filter (\<lambda>c. \<not> Q (snd c)) ps) NULL
     \<and> agree (addrs ps \<union> regs R xs \<union> regs R1 ys \<union> regs R2 ys) h h'
     \<and> (\<forall>a \<in> addrs (filter (\<lambda>c. Q (snd c)) ps). store h' a = None)"
proof -
  let ?tw = "takeWhile (\<lambda>c. Q (snd c)) ps" and ?dw = "dropWhile (\<lambda>c. Q (snd c)) ps"
  have split: "ps = ?tw @ ?dw" by simp
  have sub: "addrs ?tw \<subseteq> addrs ps" "addrs ?dw \<subseteq> addrs ps"
    by (auto dest: set_takeWhileD set_dropWhileD)
  have dist: "addrs ?tw \<inter> addrs ?dw = {}"
    using seg_distinct [OF assms(4)] by (subst (asm) split) (simp only: map_append distinct_append, auto)
  have yse: "ys = filter Q (elems ?dw)" unfolding ys_def by (simp add: map_dropWhile_snd)
  have dj: "addrs ps \<inter> regs R xs = {}" "addrs ps \<union> regs R xs \<subseteq> B" using assms(11,12) by auto
  from delete_head_loop_ok [OF assms(3,4,5) assms(6)[unfolded xs_def] dj[unfolded xs_def], folded xs_def]
  obtain p1 h1 where H: "delete_head_loop T D p h = Some (p1, h1)" "wf_heap h1"
    "seg (store h1) p1 ?dw NULL" "agree (addrs ?tw \<union> regs R xs) h h1"
    "\<forall>a \<in> addrs ?tw. store h1 a = None" by blast
  have fNot: "filter (\<lambda>c. \<not> Q (snd c)) ?dw = filter (\<lambda>c. \<not> Q (snd c)) ps"
    by (rule filter_Not_dropWhile)
  have fQ: "filter (\<lambda>c. Q (snd c)) ps = ?tw @ filter (\<lambda>c. Q (snd c)) ?dw"
    by (rule filter_takeWhile_dropWhile)
  show ?thesis
  proof (cases "p1 = NULL")
    case True
    then have dw: "?dw = []" using H(3) by (simp add: seg_NULL)
    have "delete_loops T D pre post p h = Some (NULL, h1)" using H(1) True
      by (simp add: delete_loops_def)
    moreover have "agree (addrs ps \<union> regs R xs \<union> regs R1 ys \<union> regs R2 ys) h h1"
      by (rule agree_mono [OF H(4)]) (use sub in auto)
    moreover have "seg (store h1) NULL (filter (\<lambda>c. \<not> Q (snd c)) ps) NULL"
      using fNot dw by simp
    moreover have "filter (\<lambda>c. Q (snd c)) ps = ?tw" using fQ dw by simp
    ultimately show ?thesis using H(2,5) by metis
  next
    case False
    with H(3) obtain v q ds where d: "?dw = (p1, v) # ds"
      and p1: "store h1 p1 = Some \<lparr>cdr = q, car = v\<rparr>" "seg (store h1) q ds NULL" "p1 \<notin> addrs ds"
      by (rule seg_neq_NULL)
    have nQ: "\<not> Q v" using d by (metis (mono_tags, lifting) dropWhile_eq_Cons_conv snd_conv)
    have ys: "ys = filter Q (elems ds)" using nQ by (simp add: yse d)
    have dsub: "insert p1 (addrs ds) \<subseteq> addrs ps" using sub d by auto
    have tsub: "snd ` set ds \<subseteq> snd ` set ps"
      using set_dropWhileD [of _ "\<lambda>c. Q (snd c)" ps] d by fastforce
    have c1: "(addrs ?tw \<union> regs R xs) \<inter> regs R1 ys = {}" "(addrs ?tw \<union> regs R xs) \<inter> regs R2 ys = {}"
    proof -
      have "addrs ?tw \<inter> (regs R1 ys \<union> regs R2 ys) = {}"
        using assms(11) by (rule disjoint_mono3 [OF sub(1)])
      then show "(addrs ?tw \<union> regs R xs) \<inter> regs R1 ys = {}"
        "(addrs ?tw \<union> regs R xs) \<inter> regs R2 ys = {}"
        using assms(10) by (simp_all add: Int_Un_distrib Int_Un_distrib2)
    qed
    have pr: "proc_ok pre R1 h1 ys" "proc_ok post R2 h1 ys"
      using proc_ok_same [OF assms(7) H(4) c1(1)] proc_ok_same [OF assms(8) H(4) c1(2)] by auto
    have "agree B h h1" by (rule agree_mono [OF H(4) order_trans [OF Un_mono [OF sub(1) order_refl] dj(2)]])
    then have t: "test_ok T Q B h1 (snd ` set ds)"
      by (rule test_ok_subset [OF test_ok_agree [OF assms(5)]]) (use tsub in auto)
    have dj2: "insert p1 (addrs ds) \<inter> (regs R1 ys \<union> regs R2 ys) = {}"
      "insert p1 (addrs ds) \<union> regs R1 ys \<union> regs R2 ys \<subseteq> B"
      by (rule disjoint_mono3 [OF dsub assms(11)], rule union_sub4 [OF dsub assms(12)])
    from delete_scan_loop_ok [OF H(2) p1(2) t p1(1) False p1(3) pr[unfolded ys]
        assms(9)[unfolded ys] dj2[unfolded ys], folded ys]
    obtain h' where S: "delete_scan_loop T pre post p1 q h1 = Some h'" "wf_heap h'"
      "seg (store h') p1 ((p1, v) # filter (\<lambda>c. \<not> Q (snd c)) ds) NULL"
      "agree (insert p1 (addrs ds) \<union> regs R1 ys \<union> regs R2 ys) h1 h'"
      "\<forall>a \<in> addrs (filter (\<lambda>c. Q (snd c)) ds). store h' a = None" by blast
    have r: "delete_loops T D pre post p h = Some (p1, h')"
      using H(1) False p1(1) S(1) by (simp add: delete_loops_def heap_simps)
    have ag: "agree (addrs ps \<union> regs R xs \<union> regs R1 ys \<union> regs R2 ys) h h'"
      by (rule agree_step [OF H(4) S(4)]) (use sub dsub in auto)
    have fr: "store h' a = None" if "a \<in> addrs (filter (\<lambda>c. Q (snd c)) ps)" for a
    proof (cases "a \<in> addrs ?tw")
      case True
      have "addrs ?dw = insert p1 (addrs ds)" by (simp add: d)
      then have "a \<notin> insert p1 (addrs ds)" using dist True by blast
      moreover have "a \<notin> regs R1 ys \<union> regs R2 ys"
        using disjoint_mono3 [OF sub(1) assms(11)] True by blast
      ultimately have "a \<notin> insert p1 (addrs ds) \<union> regs R1 ys \<union> regs R2 ys" by simp
      moreover have "store h1 a = None" by (rule bspec [OF H(5) True])
      ultimately show ?thesis using S(4) by (simp add: agree_def)
    next
      case False
      then have "a \<in> addrs (filter (\<lambda>c. Q (snd c)) ds)"
        using that fQ d nQ by auto
      then show ?thesis by (rule bspec [OF S(5)])
    qed
    have sg: "seg (store h') p1 (filter (\<lambda>c. \<not> Q (snd c)) ps) NULL"
    proof -
      have "filter (\<lambda>c. \<not> Q (snd c)) ?dw = (p1, v) # filter (\<lambda>c. \<not> Q (snd c)) ds"
        using nQ by (simp add: d)
      then show ?thesis using S(3) unfolding fNot by (simp only:)
    qed
    show ?thesis by (rule exI [of _ p1], rule exI [of _ h'], intro conjI ballI) (fact r, fact S(2), fact sg, fact ag, fact fr)
  qed
qed

text \<open>Without callbacks; the test need only be stable under changes to the list itself.\<close>

lemma delete_plain_ok:
  assumes "wf_heap h" "seg (store h) p ps NULL" "test_ok T Q (addrs ps) h (snd ` set ps)"
  shows "\<exists>p' h'. delete_loops T skip_elem skip_elem skip_elem p h = Some (p', h') \<and> wf_heap h'
     \<and> seg (store h') p' (filter (\<lambda>c. \<not> Q (snd c)) ps) NULL \<and> agree (addrs ps) h h'
     \<and> (\<forall>a \<in> addrs (filter (\<lambda>c. Q (snd c)) ps). store h' a = None)"
  using delete_loops_ok [OF assms proc_ok_skip proc_ok_skip proc_ok_skip] by simp

text \<open>With a callback that frees the deleted elements.\<close>

lemma proc_ok_append:
  assumes "proc_ok D R h (xs @ ys)"
  shows "proc_ok D R h xs" "proc_ok D R h ys" "regs R xs \<inter> regs R ys = {}"
  using assms by (auto simp: proc_ok_def sorted_wrt_append regs_def)

lemma regs_append: "regs R (xs @ ys) = regs R xs \<union> regs R ys"
  by (auto simp: regs_def)

lemma delete_free_ok:
  fixes Q :: "ptr \<Rightarrow> bool" and ps :: nodes
  defines "zs \<equiv> filter Q (elems ps)"
  assumes "wf_heap h" "seg (store h) p ps NULL" "test_ok T Q (addrs ps \<union> regs R zs) h (snd ` set ps)"
    "proc_ok D R h zs" "addrs ps \<inter> regs R zs = {}"
    "pre = D \<and> post = skip_elem \<or> pre = skip_elem \<and> post = D"
  shows "\<exists>p' h'. delete_loops T D pre post p h = Some (p', h') \<and> wf_heap h'
     \<and> seg (store h') p' (filter (\<lambda>c. \<not> Q (snd c)) ps) NULL \<and> agree (addrs ps \<union> regs R zs) h h'
     \<and> (\<forall>a \<in> addrs (filter (\<lambda>c. Q (snd c)) ps). store h' a = None)"
proof -
  let ?xs = "takeWhile Q (elems ps)" and ?ys = "filter Q (dropWhile Q (elems ps))"
  have zs: "zs = ?xs @ ?ys" unfolding zs_def by (rule filter_takeWhile_dropWhile)
  note pr = proc_ok_append [OF assms(5)[unfolded zs]]
  have rz: "regs R zs = regs R ?xs \<union> regs R ?ys" by (simp add: zs regs_append)
  have dj: "addrs ps \<inter> (regs R ?xs \<union> regs R ?ys) = {}" using assms(6) rz by simp
  from assms(7) show ?thesis
  proof
    assume P: "pre = D \<and> post = skip_elem"
    show ?thesis
      using delete_loops_ok [OF assms(2-4) pr(1) pr(2) proc_ok_skip] P dj pr(3) rz
      by (simp add: Un_assoc)
  next
    assume P: "pre = skip_elem \<and> post = D"
    show ?thesis
      using delete_loops_ok [OF assms(2-4) pr(1) proc_ok_skip pr(2)] P dj pr(3) rz
      by (simp add: Un_assoc)
  qed
qed

section \<open>The deletion functions keep exactly the other elements\<close>

text \<open>\<open>left_with ps qs A h r\<close>: the call ended with result \<open>r\<close>, a list holding the nodes \<open>qs\<close>
  (a part of \<open>ps\<close>); the other nodes of \<open>ps\<close> are freed and nothing outside \<open>A\<close> changed.\<close>

definition left_with :: "nodes \<Rightarrow> nodes \<Rightarrow> ptr set \<Rightarrow> heap \<Rightarrow> (ptr \<times> heap) option \<Rightarrow> bool" where
  "left_with ps qs A h r \<longleftrightarrow> (\<exists>p' h'. r = Some (p', h') \<and> wf_heap h'
     \<and> seg (store h') p' qs NULL \<and> agree A h h' \<and> (\<forall>a \<in> addrs ps - addrs qs. store h' a = None))"

lemma left_withE:
  assumes "left_with ps qs A h r"
  obtains p' h' where "r = Some (p', h')" "wf_heap h'" "seg (store h') p' qs NULL" "agree A h h'"
    "\<And>a. a \<in> addrs ps \<Longrightarrow> a \<notin> addrs qs \<Longrightarrow> store h' a = None"
  using assms by (auto simp: left_with_def)

lemma left_withI:
  assumes "r = Some (p', h')" "wf_heap h'" "seg (store h') p' qs NULL" "agree A h h'"
    "\<And>a. a \<in> addrs ps \<Longrightarrow> a \<notin> addrs qs \<Longrightarrow> store h' a = None"
  shows "left_with ps qs A h r"
  using assms by (simp add: left_with_def)

lemma left_withI_ball:
  assumes "r = Some (p', h')" "wf_heap h'" "seg (store h') p' qs NULL" "agree A h h'"
    "\<forall>a \<in> addrs ps - addrs qs. store h' a = None"
  shows "left_with ps qs A h r"
  using assms by (simp add: left_with_def)

lemma left_with_filterI:
  assumes "\<exists>p' h'. r = Some (p', h') \<and> wf_heap h'
     \<and> seg (store h') p' (filter (\<lambda>c. \<not> Q (snd c)) ps) NULL \<and> agree A h h'
     \<and> (\<forall>a \<in> addrs (filter (\<lambda>c. Q (snd c)) ps). store h' a = None)"
  shows "left_with ps (filter (\<lambda>c. \<not> Q (snd c)) ps) A h r"
proof -
  have "addrs ps - addrs (filter (\<lambda>c. \<not> Q (snd c)) ps) \<subseteq> addrs (filter (\<lambda>c. Q (snd c)) ps)"
    by force
  note sub = subsetD [OF this]
  from assms obtain p' h' where r: "r = Some (p', h')" "wf_heap h'"
    "seg (store h') p' (filter (\<lambda>c. \<not> Q (snd c)) ps) NULL" "agree A h h'"
    and fr: "\<forall>a \<in> addrs (filter (\<lambda>c. Q (snd c)) ps). store h' a = None"
    by (elim exE conjE)
  show ?thesis
    by (rule left_withI [OF r], rule bspec [OF fr], rule sub) (rule DiffI)
qed

lemma list_DeleteElement_ok:
  assumes "wf_heap h" "seg (store h) p ps NULL" "test_ok (Test e) Q (addrs ps) h (snd ` set ps)"
  shows "left_with ps (filter (\<lambda>c. \<not> Q (snd c)) ps) (addrs ps) h (list_DeleteElement p e Test h)"
  unfolding list_DeleteElement_def by (rule left_with_filterI, rule delete_plain_ok [OF assms])

lemma list_DeleteElementIf_ok:
  assumes "wf_heap h" "seg (store h) p ps NULL" "test_ok Test Q (addrs ps) h (snd ` set ps)"
  shows "left_with ps (filter (\<lambda>c. \<not> Q (snd c)) ps) (addrs ps) h (list_DeleteElementIf p Test h)"
  unfolding list_DeleteElementIf_def by (rule left_with_filterI, rule delete_plain_ok [OF assms])

lemma list_PointerDeleteElement_ok:
  assumes "wf_heap h" "seg (store h) p ps NULL"
  shows "left_with ps (filter (\<lambda>c. e \<noteq> snd c) ps) (addrs ps) h (list_PointerDeleteElement p e h)"
  unfolding list_PointerDeleteElement_def
  by (rule left_with_filterI [of _ "(=) e"], rule delete_plain_ok [OF assms]) simp

text \<open>With a callback that frees the deleted elements: their regions must be disjoint from each
  other and from the nodes of the list.\<close>

lemma list_DeleteElementIfFree_ok:
  assumes "wf_heap h" "seg (store h) p ps NULL"
    "test_ok Test Q (addrs ps \<union> regs R (filter Q (elems ps))) h (snd ` set ps)"
    "proc_ok Del R h (filter Q (elems ps))" "addrs ps \<inter> regs R (filter Q (elems ps)) = {}"
  shows "left_with ps (filter (\<lambda>c. \<not> Q (snd c)) ps) (addrs ps \<union> regs R (filter Q (elems ps))) h
    (list_DeleteElementIfFree p Test Del h)"
  unfolding list_DeleteElementIfFree_def
  by (rule left_with_filterI, rule delete_free_ok [OF assms]) simp

lemma list_DeleteElementFree_ok:
  assumes "wf_heap h" "seg (store h) p ps NULL"
    "test_ok (Test e) Q (addrs ps \<union> regs R (filter Q (elems ps))) h (snd ` set ps)"
    "proc_ok Fr R h (filter Q (elems ps))" "addrs ps \<inter> regs R (filter Q (elems ps)) = {}"
  shows "left_with ps (filter (\<lambda>c. \<not> Q (snd c)) ps) (addrs ps \<union> regs R (filter Q (elems ps))) h
    (list_DeleteElementFree p e Test Fr h)"
  unfolding list_DeleteElementFree_def
  by (rule left_with_filterI, rule delete_free_ok [OF assms]) simp

lemma list_PointerDeleteElementFree_ok:
  assumes "wf_heap h" "seg (store h) p ps NULL"
    "proc_ok Fr R h (filter ((=) e) (elems ps))" "addrs ps \<inter> regs R (filter ((=) e) (elems ps)) = {}"
  shows "left_with ps (filter (\<lambda>c. e \<noteq> snd c) ps) (addrs ps \<union> regs R (filter ((=) e) (elems ps))) h
    (list_PointerDeleteElementFree p e Fr h)"
  unfolding list_PointerDeleteElementFree_def
  by (rule left_with_filterI [of _ "(=) e"],
      rule delete_free_ok [OF assms(1,2) test_ok_pointer_eq assms(3,4)]) simp

section \<open>Deleting at most one element\<close>

fun delete_first :: "('a \<Rightarrow> bool) \<Rightarrow> 'a list \<Rightarrow> 'a list" where
  "delete_first P [] = []"
| "delete_first P (x # xs) = (if P x then xs else x # delete_first P xs)"

lemma set_delete_first: "set (delete_first P xs) \<subseteq> set xs"
  by (induction xs) auto

lemma map_delete_first: "map f (delete_first (\<lambda>x. P (f x)) xs) = delete_first P (map f xs)"
  by (induction xs) auto

lemma delete_first_eq_remove1: "delete_first ((=) x) xs = remove1 x xs"
  by (induction xs) auto

lemma delete_first_id: "\<forall>x \<in> set xs. \<not> P x \<Longrightarrow> delete_first P xs = xs"
  by (induction xs) auto

lemma delete_one_loop_ok:
  assumes "wf_heap h" "seg (store h) q ps NULL" "test_ok T Q {} h (snd ` set ps)"
    "store h p = Some \<lparr>cdr = q, car = v\<rparr>" "p \<noteq> NULL" "p \<notin> addrs ps"
  shows "\<exists>h'. delete_one_loop T p q h = Some (\<exists>x \<in> set (elems ps). Q x, h') \<and> wf_heap h'
     \<and> seg (store h') p ((p, v) # delete_first (\<lambda>c. Q (snd c)) ps) NULL
     \<and> agree (insert p (addrs ps)) h h'
     \<and> (\<forall>a \<in> addrs ps - addrs (delete_first (\<lambda>c. Q (snd c)) ps). store h' a = None)"
  using assms
proof (induction ps arbitrary: p v q)
  case Nil
  then show ?case by (subst delete_one_loop.simps) auto
next
  case (Cons c ps)
  obtain a x where c: "c = (a, x)" by (cases c)
  with Cons.prems obtain r where a: "q = a" "a \<noteq> NULL" "store h a = Some \<lparr>cdr = r, car = x\<rparr>"
    "seg (store h) r ps NULL" by auto
  have nin: "a \<notin> addrs ps" "p \<notin> addrs ps" "p \<noteq> a"
    using seg_distinct [OF Cons.prems(2)] Cons.prems(6) c by auto
  have T: "T x h = Some (Q x)" using test_okD [OF Cons.prems(3)] c by simp
  show ?case
  proof (cases "Q x")
    case True
    have "seg (store h) a ((a, x) # ps) NULL" "p \<notin> addrs ((a, x) # ps)" "store h p = Some \<lparr>cdr = a, car = v\<rparr>"
      using a nin Cons.prems(4) by auto
    from unlink_next [OF Cons.prems(1) this(3) Cons.prems(5) this(1,2)]
    obtain h1 h2 r' where U: "list_Cdr a h = Some r'" "list_Rplacd p r' h = Some h1"
      "list_Free a h1 = Some h2" "wf_heap h2" "store h2 p = Some \<lparr>cdr = r', car = v\<rparr>"
      "seg (store h2) r' ps NULL" "store h2 a = None" "agree {p, a} h h2" by auto
    have "delete_one_loop T p q h = Some (True, h2)"
      by (subst delete_one_loop.simps) (use a T True U(1-3) in \<open>simp add: heap_simps\<close>)
    moreover have "agree (insert p (addrs (c # ps))) h h2"
      by (rule agree_mono [OF U(8)]) (use c in auto)
    ultimately show ?thesis using U Cons.prems(5) True c by auto
  next
    case False
    have t: "test_ok T Q {} h (snd ` set ps)" by (rule test_ok_subset [OF Cons.prems(3)]) auto
    from Cons.IH [OF Cons.prems(1) a(4) t a(3,2) nin(1)] obtain h' where IH:
      "delete_one_loop T a r h = Some (\<exists>x \<in> set (elems ps). Q x, h')" "wf_heap h'"
      "seg (store h') a ((a, x) # delete_first (\<lambda>c. Q (snd c)) ps) NULL"
      "agree (insert a (addrs ps)) h h'"
      "\<forall>a \<in> addrs ps - addrs (delete_first (\<lambda>c. Q (snd c)) ps). store h' a = None" by (elim exE conjE)
    have "delete_one_loop T p q h = Some (\<exists>x \<in> set (elems ps). Q x, h')"
      by (subst delete_one_loop.simps) (use a T False IH(1) in \<open>simp add: heap_simps\<close>)
    moreover have "store h' p = Some \<lparr>cdr = a, car = v\<rparr>"
      using IH(4) nin Cons.prems(4) a(1) by (auto simp: agree_def)
    moreover have "agree (insert p (addrs (c # ps))) h h'"
      by (rule agree_mono [OF IH(4)]) (use c in auto)
    ultimately show ?thesis using IH Cons.prems(5) False c by auto
  qed
qed

lemma delete_one_head:
  assumes "wf_heap h" "seg (store h) p ((p, x) # ps) NULL" "\<not> Q x"
    "test_ok T Q {} h (snd ` set ((p, x) # ps))"
  shows "\<exists>h' q. list_Cdr p h = Some q
     \<and> delete_one_loop T p q h = Some (\<exists>x \<in> set (elems ps). Q x, h') \<and> wf_heap h'
     \<and> seg (store h') p (delete_first (\<lambda>c. Q (snd c)) ((p, x) # ps)) NULL
     \<and> agree (addrs ((p, x) # ps)) h h'
     \<and> (\<forall>a \<in> addrs ((p, x) # ps) - addrs (delete_first (\<lambda>c. Q (snd c)) ((p, x) # ps)). store h' a = None)"
proof -
  from assms(2) obtain r where r: "p \<noteq> NULL" "store h p = Some \<lparr>cdr = r, car = x\<rparr>"
    "seg (store h) r ps NULL" by auto
  have nin: "p \<notin> addrs ps" using seg_distinct [OF assms(2)] by simp
  have t: "test_ok T Q {} h (snd ` set ps)" by (rule test_ok_subset [OF assms(4)]) auto
  from delete_one_loop_ok [OF assms(1) r(3) t r(2,1) nin] obtain h' where
    "delete_one_loop T p r h = Some (\<exists>x \<in> set (elems ps). Q x, h')" "wf_heap h'"
    "seg (store h') p ((p, x) # delete_first (\<lambda>c. Q (snd c)) ps) NULL"
    "agree (insert p (addrs ps)) h h'"
    "\<forall>a \<in> addrs ps - addrs (delete_first (\<lambda>c. Q (snd c)) ps). store h' a = None"
    by (elim exE conjE)
  then show ?thesis using r(1,2) assms(3) by (intro exI [of _ h'] exI [of _ r]) (simp add: heap_simps)
qed

lemma pop_head:
  assumes "wf_heap h" "seg (store h) p ((p, x) # ps) NULL"
  shows "left_with ((p, x) # ps) ps (addrs ((p, x) # ps)) h (list_Pop p h)"
proof -
  from list_Pop_ok [OF assms] obtain q h' where "list_Pop p h = Some (q, h')" "wf_heap h'"
    "seg (store h') q ps NULL" "store h' = (store h)(p := None)" by auto
  then show ?thesis by (intro left_withI) (auto simp: agree_def)
qed

lemma list_DeleteOneElement_ok:
  assumes "wf_heap h" "seg (store h) p ps NULL" "test_ok (Test e) Q {} h (snd ` set ps)"
  shows "left_with ps (delete_first (\<lambda>c. Q (snd c)) ps) (addrs ps) h (list_DeleteOneElement p e Test h)"
proof (cases ps)
  case Nil
  then show ?thesis using assms by (simp add: list_DeleteOneElement_def left_with_def)
next
  case (Cons c qs)
  with assms(2) obtain x where c: "c = (p, x)" by (cases c) auto
  note asm = assms [unfolded Cons c]
  from asm(2) obtain r where r: "p \<noteq> NULL" "store h p = Some \<lparr>cdr = r, car = x\<rparr>" by auto
  have T: "Test e x h = Some (Q x)" using test_okD [OF asm(3)] by simp
  show ?thesis
  proof (cases "Q x")
    case True
    have "list_DeleteOneElement p e Test h = list_Pop p h"
      using r T True by (simp add: list_DeleteOneElement_def heap_simps)
    then show ?thesis using pop_head [OF asm(1,2)] True by (simp add: Cons c)
  next
    case False
    from delete_one_head [OF asm(1,2) False asm(3)] obtain h' q where D: "list_Cdr p h = Some q"
      "delete_one_loop (Test e) p q h = Some (\<exists>x \<in> set (elems qs). Q x, h')" "wf_heap h'"
      "seg (store h') p (delete_first (\<lambda>c. Q (snd c)) ((p, x) # qs)) NULL"
      "agree (addrs ((p, x) # qs)) h h'"
      "\<forall>a \<in> addrs ((p, x) # qs) - addrs (delete_first (\<lambda>c. Q (snd c)) ((p, x) # qs)). store h' a = None"
      by (elim exE conjE)
    have "list_DeleteOneElement p e Test h = Some (p, h')"
      using r T False D(1,2) by (simp add: list_DeleteOneElement_def heap_simps)
    then show ?thesis unfolding Cons c by (rule left_withI_ball) (fact D)+
  qed
qed

lemma list_PointerDeleteOneElement_eq:
  "list_PointerDeleteOneElement p e = list_DeleteOneElement p e pointer_eq"
  by (simp add: list_PointerDeleteOneElement_def list_DeleteOneElement_def pointer_eq_def fun_eq_iff)

lemma list_PointerDeleteOneElement_ok:
  assumes "wf_heap h" "seg (store h) p ps NULL"
  shows "left_with ps (delete_first (\<lambda>c. e = snd c) ps) (addrs ps) h (list_PointerDeleteOneElement p e h)"
  unfolding list_PointerDeleteOneElement_eq
  by (rule list_DeleteOneElement_ok [OF assms test_ok_pointer_eq])

text \<open>\<open>list_DeleteOneFromList\<close> does the same and also reports whether the element was there.\<close>

lemma list_DeleteOneFromList_ok:
  assumes "wf_heap h" "seg (store h) p ps NULL"
  shows "\<exists>r. list_DeleteOneFromList p e h = Some (e \<in> set (elems ps), r)
     \<and> left_with ps (delete_first (\<lambda>c. e = snd c) ps) (addrs ps) h (Some r)"
proof (cases ps)
  case Nil
  then show ?thesis using assms by (simp add: list_DeleteOneFromList_def list_Exist_def list_Nil_def left_with_def)
next
  case (Cons c qs)
  with assms(2) obtain x where c: "c = (p, x)" by (cases c) auto
  note asm = assms [unfolded Cons c]
  from asm(2) obtain r where r: "p \<noteq> NULL" "store h p = Some \<lparr>cdr = r, car = x\<rparr>" by auto
  have E: "list_Exist p" using r by (simp add: list_Exist_def list_Nil_def)
  show ?thesis
  proof (cases "e = x")
    case True
    from pop_head [OF asm] obtain p' h' where P: "list_Pop p h = Some (p', h')"
      by (rule left_withE)
    then have "list_DeleteOneFromList p e h = Some (True, p', h')"
      using r True E by (auto simp: list_DeleteOneFromList_def list_Pop_def heap_simps
          bind_eq_Some_iff)
    then show ?thesis using pop_head [OF asm] P True by (simp add: Cons c)
  next
    case False
    from delete_one_head [OF asm False test_ok_pointer_eq] obtain h' q where D: "list_Cdr p h = Some q"
      "delete_one_loop (pointer_eq e) p q h = Some (\<exists>x \<in> set (elems qs). e = x, h')" "wf_heap h'"
      "seg (store h') p (delete_first (\<lambda>c. e = snd c) ((p, x) # qs)) NULL"
      "agree (addrs ((p, x) # qs)) h h'"
      "\<forall>a \<in> addrs ((p, x) # qs) - addrs (delete_first (\<lambda>c. e = snd c) ((p, x) # qs)). store h' a = None"
      by (elim exE conjE)
    have "list_DeleteOneFromList p e h = Some (e \<in> set (elems ((p, x) # qs)), p, h')"
      using r False D(1,2) E by (auto simp: list_DeleteOneFromList_def heap_simps)
    moreover have "left_with ((p, x) # qs) (delete_first (\<lambda>c. e = snd c) ((p, x) # qs))
        (addrs ((p, x) # qs)) h (Some (p, h'))"
      by (rule left_withI_ball [OF refl]) (fact D)+
    ultimately show ?thesis by (simp add: Cons c)
  qed
qed

text \<open>\<open>list_DeleteFromList\<close> deletes all occurrences, with the same report.\<close>

lemma delete_from_head_loop_eq:
  assumes "delete_head_loop (pointer_eq e) skip_elem p h = Some (p', h')"
    "wf_heap h" "seg (store h) p ps NULL"
  shows "delete_from_head_loop e f p h = Some (f \<or> (ps \<noteq> [] \<and> e = snd (hd ps)), p', h')"
  using assms
proof (induction ps arbitrary: p h f)
  case Nil
  then show ?case
    by (subst delete_from_head_loop.simps, subst (asm) delete_head_loop.simps)
      (simp add: list_Exist_def list_Nil_def list_Empty_def)
next
  case (Cons c ps)
  obtain a x where c: "c = (a, x)" by (cases c)
  with Cons.prems obtain r where a: "p = a" "a \<noteq> NULL" "store h a = Some \<lparr>cdr = r, car = x\<rparr>"
    "seg (store h) r ps NULL" by auto
  have nin: "a \<notin> addrs ps" using seg_distinct [OF Cons.prems(3)] c by auto
  have E: "list_Exist p" "\<not> list_Empty p" using a by (simp_all add: list_Exist_def list_Nil_def list_Empty_def)
  obtain h1 where F: "list_Free a h = Some h1" "wf_heap h1" "store h1 = (store h)(a := None)"
    by (rule list_Free_spec [OF Cons.prems(2) a(3)])
  show ?case
  proof (cases "e = x")
    case True
    have "delete_head_loop (pointer_eq e) skip_elem r h1 = Some (p', h')"
      using Cons.prems(1) a E True F(1)
      by (subst (asm) delete_head_loop.simps) (simp add: heap_simps pointer_eq_def skip_elem_def)
    moreover have "seg (store h1) r ps NULL" using a(4) nin by (simp add: F(3))
    ultimately have "delete_from_head_loop e True r h1 = Some (True, p', h')"
      using Cons.IH [of r h1 True] F(2) by simp
    then show ?thesis
      by (subst delete_from_head_loop.simps) (use a E True F(1) c in \<open>simp add: heap_simps\<close>)
  next
    case False
    have "p' = p \<and> h' = h"
      using Cons.prems(1) a E False
      by (subst (asm) delete_head_loop.simps) (simp add: heap_simps pointer_eq_def)
    then show ?thesis
      by (subst delete_from_head_loop.simps) (use a E False c in \<open>simp add: heap_simps\<close>)
  qed
qed

lemma delete_from_scan_loop_eq:
  assumes "delete_scan_loop (pointer_eq e) skip_elem skip_elem p q h = Some h'"
    "wf_heap h" "seg (store h) q ps NULL"
    "store h p = Some \<lparr>cdr = q, car = v\<rparr>" "p \<noteq> NULL" "p \<notin> addrs ps"
  shows "delete_from_scan_loop e f p q h = Some (f \<or> e \<in> set (elems ps), h')"
  using assms
proof (induction ps arbitrary: p v q h f)
  case Nil
  then show ?case
    by (subst delete_from_scan_loop.simps, subst (asm) delete_scan_loop.simps)
      (simp add: list_Exist_def list_Nil_def list_Empty_def)
next
  case (Cons c ps)
  obtain a x where c: "c = (a, x)" by (cases c)
  with Cons.prems obtain r where a: "q = a" "a \<noteq> NULL" "store h a = Some \<lparr>cdr = r, car = x\<rparr>"
    "seg (store h) r ps NULL" by auto
  have nin: "a \<notin> addrs ps" "p \<notin> addrs ps" "p \<noteq> a" "a \<noteq> p"
    using seg_distinct [OF Cons.prems(3)] Cons.prems(6) c by auto
  have E: "list_Exist q" "\<not> list_Empty q" using a by (simp_all add: list_Exist_def list_Nil_def list_Empty_def)
  show ?case
  proof (cases "e = x")
    case True
    have "seg (store h) a ((a, x) # ps) NULL" "p \<notin> addrs ((a, x) # ps)" "store h p = Some \<lparr>cdr = a, car = v\<rparr>"
      using a nin Cons.prems(4) by auto
    from unlink_next [OF Cons.prems(2) this(3) Cons.prems(5) this(1,2)]
    obtain h1 h2 r' where U: "list_Cdr a h = Some r'" "list_Rplacd p r' h = Some h1"
      "list_Free a h1 = Some h2" "wf_heap h2" "store h2 p = Some \<lparr>cdr = r', car = v\<rparr>"
      "seg (store h2) r' ps NULL" by auto
    have cdr: "list_Cdr p h2 = Some r'" using U(5) Cons.prems(5) by (simp add: heap_simps)
    have "delete_scan_loop (pointer_eq e) skip_elem skip_elem p r' h2 = Some h'"
      using Cons.prems(1) a E True U(1-3) cdr
      by (subst (asm) delete_scan_loop.simps) (simp add: heap_simps pointer_eq_def skip_elem_def)
    from Cons.IH [OF this U(4,6,5) Cons.prems(5) nin(2), of True] show ?thesis
      by (subst delete_from_scan_loop.simps)
        (use a E True U(1-3) cdr c in \<open>simp add: heap_simps\<close>)
  next
    case False
    have "delete_scan_loop (pointer_eq e) skip_elem skip_elem a r h = Some h'"
      using Cons.prems(1) a E False
      by (subst (asm) delete_scan_loop.simps) (simp add: heap_simps pointer_eq_def)
    from Cons.IH [OF this Cons.prems(2) a(4,3,2) nin(1), of f] show ?thesis
      by (subst delete_from_scan_loop.simps)
        (use a E False c in \<open>simp add: heap_simps\<close>)
  qed
qed

lemma hd_dropWhile_member:
  "(ps \<noteq> [] \<and> e = snd (hd ps)) \<or> e \<in> set (elems (tl (dropWhile (\<lambda>c. e = snd c) ps)))
    \<longleftrightarrow> e \<in> set (elems ps)"
  by (induction ps) auto

lemma list_DeleteFromList_ok:
  assumes "wf_heap h" "seg (store h) p ps NULL"
  shows "\<exists>r. list_DeleteFromList p e h = Some (e \<in> set (elems ps), r)
     \<and> left_with ps (filter (\<lambda>c. e \<noteq> snd c) ps) (addrs ps) h (Some r)"
proof -
  from list_PointerDeleteElement_ok [OF assms, of e] obtain p' h' where
    R: "list_PointerDeleteElement p e h = Some (p', h')" by (rule left_withE)
  let ?dw = "dropWhile (\<lambda>c. e = snd c) ps"
  have tw: "takeWhile ((=) e) (elems ps) = map snd (takeWhile (\<lambda>c. e = snd c) ps)"
    by (rule map_takeWhile_snd)
  from delete_head_loop_ok [OF assms test_ok_pointer_eq [where e = e and B = UNIV] proc_ok_skip]
  obtain p1 h1 where H: "delete_head_loop (pointer_eq e) skip_elem p h = Some (p1, h1)" "wf_heap h1"
    "seg (store h1) p1 ?dw NULL" by auto
  note HF = delete_from_head_loop_eq [OF H(1) assms, of False, simplified]
  have "list_DeleteFromList p e h = Some (e \<in> set (elems ps), p', h')"
  proof (cases "p1 = NULL")
    case True
    then have dw: "?dw = []" using H(3) by (simp only: seg_NULL)
    have f: "(ps \<noteq> [] \<and> e = snd (hd ps)) = (e \<in> set (elems ps))"
      using hd_dropWhile_member [of ps e] unfolding dw by simp
    have "p' = NULL \<and> h' = h1"
      using R H(1) True by (simp add: list_PointerDeleteElement_def delete_loops_def list_Empty_def list_Nil_def)
    then show ?thesis using HF f True
      by (simp add: list_DeleteFromList_def list_Exist_def list_Nil_def)
  next
    case False
    with H(3) obtain v q ds where d: "?dw = (p1, v) # ds"
      "store h1 p1 = Some \<lparr>cdr = q, car = v\<rparr>" "seg (store h1) q ds NULL" "p1 \<notin> addrs ds"
      by (rule seg_neq_NULL)
    have S: "delete_scan_loop (pointer_eq e) skip_elem skip_elem p1 q h1 = Some h'" "p' = p1"
      using R H(1) False d(2)
      by (auto simp: list_PointerDeleteElement_def delete_loops_def list_Empty_def heap_simps
          bind_eq_Some_iff)
    have f: "((ps \<noteq> [] \<and> e = snd (hd ps)) \<or> e \<in> set (elems ds)) = (e \<in> set (elems ps))"
      using hd_dropWhile_member [of ps e] unfolding d(1) by simp
    show ?thesis
      using HF False d(2) S(2) delete_from_scan_loop_eq [OF S(1) H(2) d(3,2) False d(4)] f
      by (simp add: list_DeleteFromList_def list_Exist_def list_Nil_def heap_simps)
  qed
  then show ?thesis using list_PointerDeleteElement_ok [OF assms, of e] R by simp
qed

section \<open>Deleting a list with its elements\<close>

lemma list_DeleteWithElement_ok:
  assumes "wf_heap h" "seg (store h) p ps NULL" "proc_ok D R h (elems ps)"
    "addrs ps \<inter> regs R (elems ps) = {}"
  shows "\<exists>h'. list_DeleteWithElement p D h = Some h'
     \<and> list_DeleteWithElementCount_loop p D n h = Some (n + of_nat (length ps), h')
     \<and> wf_heap h' \<and> agree (addrs ps \<union> regs R (elems ps)) h h'
     \<and> (\<forall>a \<in> addrs ps. store h' a = None)"
  using assms
proof (induction ps arbitrary: p h n)
  case Nil
  then show ?case
    by (subst list_DeleteWithElement.simps, subst list_DeleteWithElementCount_loop.simps) auto
next
  case (Cons c ps)
  obtain a x where c: "c = (a, x)" by (cases c)
  with Cons.prems obtain r where a: "p = a" "a \<noteq> NULL" "store h a = Some \<lparr>cdr = r, car = x\<rparr>"
    "seg (store h) r ps NULL" by auto
  have nin: "a \<notin> addrs ps" using seg_distinct [OF Cons.prems(2)] c by auto
  let ?xs = "elems ps"
  have pr: "proc_ok D R h (x # ?xs)" using Cons.prems(3) c by simp
  have dj: "insert a (addrs ps) \<inter> (R x \<union> regs R ?xs) = {}" using Cons.prems(4) c by simp
  obtain h1 where D: "D x h = Some h1" "wf_heap h1" "agree (R x) h h1"
    using proc_ok_run [OF pr Cons.prems(1) agree_refl [of "{}"]] by auto
  have a1: "store h1 a = Some \<lparr>cdr = r, car = x\<rparr>" using D(3) dj a(3) by (auto simp: agree_def)
  obtain h2 where F: "list_Free a h1 = Some h2" "wf_heap h2" "store h2 = (store h1)(a := None)"
    by (rule list_Free_spec [OF D(2) a1])
  have ag: "agree (insert a (R x)) h h2" using D(3) by (auto simp: agree_def F(3))
  have s2: "seg (store h2) r ps NULL" by (rule seg_agree [OF ag _ a(4)]) (use nin dj in auto)
  have "insert a (R x) \<inter> regs R ?xs = {}" using dj proc_ok_disjoint [OF pr] by auto
  then have pr2: "proc_ok D R h2 ?xs" by (rule proc_ok_agree [OF pr ag])
  have dj2: "addrs ps \<inter> regs R ?xs = {}" "a \<notin> regs R ?xs" using dj by auto
  from Cons.IH [OF F(2) s2 pr2 dj2(1), of "n + 1"] obtain h' where IH:
    "list_DeleteWithElement r D h2 = Some h'"
    "list_DeleteWithElementCount_loop r D (n + 1) h2 = Some (n + 1 + of_nat (length ps), h')"
    "wf_heap h'" "agree (addrs ps \<union> regs R ?xs) h2 h'" "\<forall>a \<in> addrs ps. store h' a = None"
    by (elim exE conjE)
  have e: "list_Cdr a h = Some r" "list_Car a h = Some x" "\<not> list_Empty p"
    using a by (simp_all add: heap_simps list_Empty_def list_Nil_def)
  have "list_DeleteWithElement p D h = Some h'"
    by (subst list_DeleteWithElement.simps) (use a(1) e D(1) F(1) IH(1) in simp)
  moreover have "list_DeleteWithElementCount_loop p D n h = Some (n + of_nat (length (c # ps)), h')"
    by (subst list_DeleteWithElementCount_loop.simps)
      (use a(1) e D(1) F(1) IH(2) in \<open>simp add: algebra_simps\<close>)
  moreover have "agree (addrs (c # ps) \<union> regs R (elems (c # ps))) h h'"
    by (rule agree_step [OF ag IH(4)]) (use c in auto)
  moreover have "store h' a = None" using IH(4) nin dj2(2) by (simp add: agree_def F(3))
  ultimately show ?case using IH(3,5) c by (intro exI [of _ h']) simp
qed

lemma list_DeleteWithElementCount_ok:
  assumes "wf_heap h" "seg (store h) p ps NULL" "proc_ok D R h (elems ps)"
    "addrs ps \<inter> regs R (elems ps) = {}"
  shows "\<exists>h'. list_DeleteWithElementCount p D h = Some (of_nat (length ps), h')
     \<and> wf_heap h' \<and> agree (addrs ps \<union> regs R (elems ps)) h h'
     \<and> (\<forall>a \<in> addrs ps. store h' a = None)"
  using list_DeleteWithElement_ok [OF assms, of 0]
  by (auto simp: list_DeleteWithElementCount_def)

end
