(* ===== verification/Spass_List_Sets.thy ===== *)
theory Spass_List_Sets
  imports Spass_List_Delete
begin

text \<open>
  Duplicate removal and the set and multiset operations on lists (\<open>list.c\<close>): unions,
  intersections, differences and products, all built from the deletion functions. The three
  loops that call one deletion per element are modelled once, with the deletion as a parameter.
\<close>

section \<open>Duplicates and set operations\<close>

partial_function (option) delete_duplicates_loop ::
  "(ptr \<Rightarrow> ptr \<Rightarrow> heap \<Rightarrow> (ptr \<times> heap) option) \<Rightarrow> ptr \<Rightarrow> heap \<Rightarrow> heap option" where
  "delete_duplicates_loop del Scan h =
     (if list_Empty Scan then Some h
      else do {
        q \<leftarrow> list_Cdr Scan h;
        x \<leftarrow> list_Car Scan h;
        (q, h) \<leftarrow> del q x h;
        h \<leftarrow> list_Rplacd Scan q h;
        Scan \<leftarrow> list_Cdr Scan h;
        delete_duplicates_loop del Scan h })"

definition list_DeleteDuplicates :: "ptr \<Rightarrow> elem_test \<Rightarrow> heap \<Rightarrow> (ptr \<times> heap) option" where
  "list_DeleteDuplicates List Test h = do {
     h \<leftarrow> delete_duplicates_loop (\<lambda>q x. list_DeleteElement q x Test) List h;
     Some (List, h) }"

definition list_DeleteDuplicatesFree ::
  "ptr \<Rightarrow> elem_test \<Rightarrow> heap_proc \<Rightarrow> heap \<Rightarrow> (ptr \<times> heap) option" where
  "list_DeleteDuplicatesFree List Test Fr h = do {
     h \<leftarrow> delete_duplicates_loop (\<lambda>q x. list_DeleteElementFree q x Test Fr) List h;
     Some (List, h) }"

definition list_PointerDeleteDuplicates :: "ptr \<Rightarrow> heap \<Rightarrow> (ptr \<times> heap) option" where
  "list_PointerDeleteDuplicates List h = do {
     h \<leftarrow> delete_duplicates_loop list_PointerDeleteElement List h;
     Some (List, h) }"

partial_function (option) list_IsSetOfPointers :: "ptr \<Rightarrow> heap \<Rightarrow> bool option" where
  "list_IsSetOfPointers L h =
     (if list_Empty L then Some True
      else do {
        q \<leftarrow> list_Cdr L h;
        x \<leftarrow> list_Car L h;
        b \<leftarrow> list_PointerMember q x h;
        if b then Some False else list_IsSetOfPointers q h })"

definition list_NPointerUnion :: "ptr \<Rightarrow> ptr \<Rightarrow> heap \<Rightarrow> (ptr \<times> heap) option" where
  "list_NPointerUnion List1 List2 h = do {
     (l, h) \<leftarrow> list_Nconc List1 List2 h;
     list_PointerDeleteDuplicates l h }"

definition list_NUnion :: "ptr \<Rightarrow> ptr \<Rightarrow> elem_test \<Rightarrow> heap \<Rightarrow> (ptr \<times> heap) option" where
  "list_NUnion List1 List2 Test h = do {
     (l, h) \<leftarrow> list_Nconc List1 List2 h;
     list_DeleteDuplicates l Test h }"

text \<open>The loops of the two intersections: a node is kept when its element is a member of the
  other list.\<close>

partial_function (option) intersect_scan_loop ::
  "heap_test \<Rightarrow> ptr \<Rightarrow> ptr \<Rightarrow> heap \<Rightarrow> heap option" where
  "intersect_scan_loop M Scan1 Scan2 h =
     (if list_Empty Scan2 then Some h
      else do {
        x \<leftarrow> list_Car Scan2 h;
        b \<leftarrow> M x h;
        if b then do {
          Scan2 \<leftarrow> list_Cdr Scan2 h;
          Scan1 \<leftarrow> list_Cdr Scan1 h;
          intersect_scan_loop M Scan1 Scan2 h }
        else do {
          q \<leftarrow> list_Cdr Scan2 h;
          h \<leftarrow> list_Rplacd Scan1 q h;
          h \<leftarrow> list_Free Scan2 h;
          Scan2 \<leftarrow> list_Cdr Scan1 h;
          intersect_scan_loop M Scan1 Scan2 h } })"

definition intersect_loops :: "heap_test \<Rightarrow> ptr \<Rightarrow> heap \<Rightarrow> (ptr \<times> heap) option" where
  "intersect_loops M List1 h = do {
     (List1, h) \<leftarrow> delete_head_loop (\<lambda>x h. map_option Not (M x h)) skip_elem List1 h;
     if list_Empty List1 then Some (List1, h)
     else do {
       Scan2 \<leftarrow> list_Cdr List1 h;
       h \<leftarrow> intersect_scan_loop M List1 Scan2 h;
       Some (List1, h) } }"

definition list_NIntersect :: "ptr \<Rightarrow> ptr \<Rightarrow> elem_test \<Rightarrow> heap \<Rightarrow> (ptr \<times> heap) option" where
  "list_NIntersect List1 List2 Test h = intersect_loops (\<lambda>x. list_Member List2 x Test) List1 h"

definition list_NPointerIntersect :: "ptr \<Rightarrow> ptr \<Rightarrow> heap \<Rightarrow> (ptr \<times> heap) option" where
  "list_NPointerIntersect List1 List2 h = intersect_loops (list_PointerMember List2) List1 h"

partial_function (option) has_intersection_loop :: "ptr \<Rightarrow> ptr \<Rightarrow> heap \<Rightarrow> bool option" where
  "has_intersection_loop Scan List2 h =
     (if list_Empty Scan then Some False
      else do {
        x \<leftarrow> list_Car Scan h;
        b \<leftarrow> list_PointerMember List2 x h;
        if b then Some True
        else do { Scan \<leftarrow> list_Cdr Scan h; has_intersection_loop Scan List2 h } })"

definition list_HasIntersection :: "ptr \<Rightarrow> ptr \<Rightarrow> heap \<Rightarrow> bool option" where
  "list_HasIntersection List1 List2 h =
     (if \<not> list_Empty List2 then has_intersection_loop List1 List2 h else Some False)"

text \<open>The three differences run one deletion per element of the second list.\<close>

partial_function (option) difference_loop ::
  "(ptr \<Rightarrow> ptr \<Rightarrow> heap \<Rightarrow> (ptr \<times> heap) option) \<Rightarrow> ptr \<Rightarrow> ptr \<Rightarrow> heap \<Rightarrow> (ptr \<times> heap) option" where
  "difference_loop del List1 Scan h =
     (if list_Empty Scan then Some (List1, h)
      else do {
        x \<leftarrow> list_Car Scan h;
        (List1, h) \<leftarrow> del List1 x h;
        Scan \<leftarrow> list_Cdr Scan h;
        difference_loop del List1 Scan h })"

definition list_NPointerDifference :: "ptr \<Rightarrow> ptr \<Rightarrow> heap \<Rightarrow> (ptr \<times> heap) option" where
  "list_NPointerDifference List1 List2 h =
     (if \<not> list_Empty List1 then difference_loop list_PointerDeleteElement List1 List2 h
      else Some (List1, h))"

definition list_NDifference :: "ptr \<Rightarrow> ptr \<Rightarrow> elem_test \<Rightarrow> heap \<Rightarrow> (ptr \<times> heap) option" where
  "list_NDifference List1 List2 Test h =
     (if \<not> list_Empty List1
      then difference_loop (\<lambda>l x. list_DeleteElement l x Test) List1 List2 h
      else Some (List1, h))"

definition list_NMultisetDifference :: "ptr \<Rightarrow> ptr \<Rightarrow> elem_test \<Rightarrow> heap \<Rightarrow> (ptr \<times> heap) option" where
  "list_NMultisetDifference List1 List2 Test h =
     (if \<not> list_Empty List1
      then difference_loop (\<lambda>l x. list_DeleteOneElement l x Test) List1 List2 h
      else Some (List1, h))"

partial_function (option) list_times_inner :: "ptr \<Rightarrow> ptr \<Rightarrow> ptr \<Rightarrow> heap \<Rightarrow> (ptr \<times> heap) option" where
  "list_times_inner Scan1 Scan2 Result h =
     (if list_Empty Scan2 then Some (Result, h)
      else do {
        l1 \<leftarrow> list_Car Scan1 h;
        l2 \<leftarrow> list_Car Scan2 h;
        (c, h) \<leftarrow> list_Copy l2 h;
        (a, h) \<leftarrow> list_Append l1 c h;
        (Result, h) \<leftarrow> Some (list_Cons a Result h);
        Scan2 \<leftarrow> list_Cdr Scan2 h;
        list_times_inner Scan1 Scan2 Result h })"

partial_function (option) list_times_outer :: "ptr \<Rightarrow> ptr \<Rightarrow> ptr \<Rightarrow> heap \<Rightarrow> (ptr \<times> heap) option" where
  "list_times_outer Scan1 List2 Result h =
     (if list_Empty Scan1 then Some (Result, h)
      else do {
        (Result, h) \<leftarrow> list_times_inner Scan1 List2 Result h;
        Scan1 \<leftarrow> list_Cdr Scan1 h;
        list_times_outer Scan1 List2 Result h })"

definition list_NListTimes :: "ptr \<Rightarrow> ptr \<Rightarrow> heap \<Rightarrow> (ptr \<times> heap) option" where
  "list_NListTimes List1 List2 h = do {
     (Result, h) \<leftarrow> (if \<not> list_Empty List2 then list_times_outer List1 List2 list_Nil h
                      else Some (list_Nil, h));
     h \<leftarrow> list_DeleteWithElement List1 list_Delete h;
     h \<leftarrow> list_DeleteWithElement List2 list_Delete h;
     Some (Result, h) }"

lemma disjoint_sub: "B \<subseteq> C \<Longrightarrow> D \<inter> C = {} \<Longrightarrow> D \<inter> B = {}"
  by auto

section \<open>The interface of a deletion\<close>

text \<open>What the loops need of the deletion they call: on a list whose nodes lie in \<open>A\<close> and whose
  elements lie in \<open>X\<close> it leaves \<open>F e ps\<close>, in every heap of a class \<open>S\<close> that is closed under
  changes of the addresses \<open>A\<close>.\<close>

locale deleter =
  fixes del :: "ptr \<Rightarrow> ptr \<Rightarrow> heap \<Rightarrow> (ptr \<times> heap) option"
    and F :: "ptr \<Rightarrow> nodes \<Rightarrow> nodes"
    and S :: "heap set" and A :: "ptr set" and X :: "ptr set"
  assumes del_ok: "\<lbrakk>h \<in> S; wf_heap h; seg (store h) p ps NULL; addrs ps \<subseteq> A; set (elems ps) \<subseteq> X; e \<in> X\<rbrakk>
      \<Longrightarrow> left_with ps (F e ps) (addrs ps) h (del p e h)"
    and stable: "\<lbrakk>h \<in> S; agree A h h'\<rbrakk> \<Longrightarrow> h' \<in> S"
    and F_sub: "set (F e ps) \<subseteq> set ps"
begin

lemma F_addrs: "addrs (F e ps) \<subseteq> addrs ps"
  using F_sub by (rule image_mono)

lemma F_elems: "set (elems (F e ps)) \<subseteq> set (elems ps)"
  using F_sub [of e ps] by auto

lemma del_step:
  assumes "h \<in> S" "wf_heap h" "seg (store h) p ps NULL" "addrs ps \<subseteq> A" "set (elems ps) \<subseteq> X" "e \<in> X"
  obtains p' h' where "del p e h = Some (p', h')" "h' \<in> S" "wf_heap h'"
    "seg (store h') p' (F e ps) NULL" "agree (addrs ps) h h'"
    "\<And>a. a \<in> addrs ps \<Longrightarrow> a \<notin> addrs (F e ps) \<Longrightarrow> store h' a = None"
proof -
  from del_ok [OF assms] obtain p' h' where D: "del p e h = Some (p', h')" "wf_heap h'"
    "seg (store h') p' (F e ps) NULL" "agree (addrs ps) h h'"
    and fr: "\<And>a. a \<in> addrs ps \<Longrightarrow> a \<notin> addrs (F e ps) \<Longrightarrow> store h' a = None"
    by (rule left_withE) (rule that)
  show ?thesis
    by (rule that [OF D(1) stable [OF assms(1) agree_mono [OF D(4) assms(4)]] D(2-4) fr])
qed

lemma difference_loop_ok:
  assumes "h \<in> S" "wf_heap h" "seg (store h) p ps NULL" "addrs ps \<subseteq> A" "set (elems ps) \<subseteq> X"
    "seg (store h) q qs NULL" "addrs qs \<inter> addrs ps = {}" "set (elems qs) \<subseteq> X"
  shows "left_with ps (fold F (elems qs) ps) (addrs ps) h (difference_loop del p q h)"
  using assms
proof (induction qs arbitrary: p q ps h)
  case Nil
  then show ?case by (subst difference_loop.simps) (auto simp: left_with_def seg_NULL)
next
  case (Cons c qs)
  obtain a x where c: "c = (a, x)" by (cases c)
  with Cons.prems(6) obtain r where a: "q = a" "a \<noteq> NULL" "store h a = Some \<lparr>cdr = r, car = x\<rparr>"
    "seg (store h) r qs NULL" by auto
  have x: "x \<in> X" "set (elems qs) \<subseteq> X" using Cons.prems(8) c by auto
  have dj: "a \<notin> addrs ps" "addrs qs \<inter> addrs ps = {}" using Cons.prems(7) c by auto
  obtain p1 h1 where D: "del p x h = Some (p1, h1)" "h1 \<in> S" "wf_heap h1"
    "seg (store h1) p1 (F x ps) NULL" "agree (addrs ps) h h1"
    and fr: "\<And>a. a \<in> addrs ps \<Longrightarrow> a \<notin> addrs (F x ps) \<Longrightarrow> store h1 a = None"
    by (rule del_step [OF Cons.prems(1-5) x(1)]) (rule that)
  have s1: "seg (store h1) r qs NULL" by (rule seg_agree [OF D(5) dj(2) a(4)])
  have a1: "store h1 a = Some \<lparr>cdr = r, car = x\<rparr>" using D(5) a(3) dj(1) by (simp add: agree_def)
  have sub: "addrs (F x ps) \<subseteq> A" "set (elems (F x ps)) \<subseteq> X" "addrs qs \<inter> addrs (F x ps) = {}"
    by (rule order_trans [OF F_addrs Cons.prems(4)], rule order_trans [OF F_elems Cons.prems(5)],
        rule disjoint_sub [OF F_addrs dj(2)])
  from Cons.IH [OF D(2,3,4) sub(1,2) s1 sub(3) x(2)]
  obtain p' h' where IH: "difference_loop del p1 r h1 = Some (p', h')" "wf_heap h'"
    "seg (store h') p' (fold F (elems qs) (F x ps)) NULL" "agree (addrs (F x ps)) h1 h'"
    and fr2: "\<And>a. a \<in> addrs (F x ps) \<Longrightarrow> a \<notin> addrs (fold F (elems qs) (F x ps)) \<Longrightarrow> store h' a = None"
    by (rule left_withE) (rule that)
  have "difference_loop del p q h = Some (p', h')"
    by (subst difference_loop.simps) (use a D(1) a1 IH(1) in \<open>simp add: heap_simps\<close>)
  moreover have "agree (addrs ps) h h'"
    by (rule agree_step [OF D(5) IH(4) order_refl F_addrs])
  moreover have "store h' b = None"
    if "b \<in> addrs ps" "b \<notin> addrs (fold F (elems qs) (F x ps))" for b
  proof (cases "b \<in> addrs (F x ps)")
    case True
    then show ?thesis by (rule fr2) (rule that(2))
  next
    case False
    then show ?thesis using fr [OF that(1)] IH(4) by (simp add: agree_def)
  qed
  ultimately show ?case using IH(2,3) c by (intro left_withI) simp_all
qed

end

text \<open>A deletion of all elements equivalent to the given one also drives the removal of
  duplicates.\<close>

function dedup :: "('b \<Rightarrow> 'b \<Rightarrow> bool) \<Rightarrow> ('a \<times> 'b) list \<Rightarrow> ('a \<times> 'b) list" where
  "dedup E [] = []"
| "dedup E (c # ps) = c # dedup E (filter (\<lambda>d. \<not> E (snd c) (snd d)) ps)"
  by pat_completeness auto
termination by (relation "measure (\<lambda>(E, ps). length ps)") (auto simp: less_Suc_eq_le)

lemma set_dedup: "set (dedup E ps) \<subseteq> set ps"
  by (induction E ps rule: dedup.induct) auto

lemma dedup_separated: "sorted_wrt (\<lambda>x y. \<not> E x y) (elems (dedup E ps))"
proof (induction E ps rule: dedup.induct)
  case (2 E c ps)
  have "\<forall>d \<in> set (dedup E (filter (\<lambda>d. \<not> E (snd c) (snd d)) ps)). \<not> E (snd c) (snd d)"
    by (rule ballI, drule subsetD [OF set_dedup], simp)
  then show ?case using 2 by (simp only: dedup.simps list.map sorted_wrt.simps list.set_map ball_simps)
qed simp

lemma dedup_covers:
  assumes "\<And>x. x \<in> set (elems ps) \<Longrightarrow> E x x" "y \<in> set (elems ps)"
  shows "\<exists>x \<in> set (elems (dedup E ps)). E x y"
  using assms
proof (induction E ps arbitrary: y rule: dedup.induct)
  case (2 E c ps)
  show ?case
  proof (cases "E (snd c) y")
    case False
    then have "y \<in> set (elems (filter (\<lambda>d. \<not> E (snd c) (snd d)) ps))" using 2(2,3) by auto
    moreover have "E x x" if "x \<in> set (elems (filter (\<lambda>d. \<not> E (snd c) (snd d)) ps))" for x
      using that by (intro 2(2)) auto
    ultimately have
      "\<exists>x \<in> set (elems (dedup E (filter (\<lambda>d. \<not> E (snd c) (snd d)) ps))). E x y"
      by (rule 2(1) [rotated])
    then show ?thesis by simp
  qed simp
qed simp

lemma dedup_eq:
  "distinct (elems (dedup (=) ps))" "set (elems (dedup (=) ps)) = set (elems ps)"
proof -
  show "distinct (elems (dedup (=) ps))"
    using dedup_separated [of "(=)" ps] by (simp add: distinct_conv_nth sorted_wrt_iff_nth_less)
      (metis linorder_neqE_nat)
  show "set (elems (dedup (=) ps)) = set (elems ps)"
  proof (rule equalityI)
    show "set (elems (dedup (=) ps)) \<subseteq> set (elems ps)"
      using image_mono [OF set_dedup] by simp
    show "set (elems ps) \<subseteq> set (elems (dedup (=) ps))"
      by (rule subsetI, drule dedup_covers [of ps "(=)", OF refl]) auto
  qed
qed

locale all_deleter = deleter del "\<lambda>e. filter (\<lambda>c. \<not> E e (snd c))" S A X
  for del :: "ptr \<Rightarrow> ptr \<Rightarrow> heap \<Rightarrow> (ptr \<times> heap) option" and E :: "ptr \<Rightarrow> ptr \<Rightarrow> bool"
    and S :: "heap set" and A :: "ptr set" and X :: "ptr set"
begin

lemma delete_duplicates_loop_ok:
  assumes "h \<in> S" "wf_heap h" "seg (store h) p ps NULL" "addrs ps \<subseteq> A" "set (elems ps) \<subseteq> X"
  shows "\<exists>h'. delete_duplicates_loop del p h = Some h'
     \<and> left_with ps (dedup E ps) (addrs ps) h (Some (p, h'))"
  using assms
proof (induction "length ps" arbitrary: ps p h rule: less_induct)
  case less
  show ?case
  proof (cases ps)
    case Nil
    then show ?thesis using less.prems
      by (subst delete_duplicates_loop.simps) (auto simp: left_with_def)
  next
    case (Cons c qs)
    obtain a x where c: "c = (a, x)" by (cases c)
    with less.prems(3) Cons obtain r where a: "p = a" "a \<noteq> NULL" "store h a = Some \<lparr>cdr = r, car = x\<rparr>"
      "seg (store h) r qs NULL" by auto
    let ?F = "filter (\<lambda>c. \<not> E x (snd c)) qs"
    have nin: "a \<notin> addrs qs" using seg_distinct [OF less.prems(3)] Cons c by simp
    have sub: "a \<in> A" "addrs qs \<subseteq> A" "set (elems qs) \<subseteq> X" "x \<in> X"
      using less.prems(4,5) Cons c by auto
    obtain q h1 where D: "del r x h = Some (q, h1)" "h1 \<in> S" "wf_heap h1"
      "seg (store h1) q ?F NULL" "agree (addrs qs) h h1"
      and fr: "\<And>a. a \<in> addrs qs \<Longrightarrow> a \<notin> addrs ?F \<Longrightarrow> store h1 a = None"
      by (rule del_step [OF less.prems(1,2) a(4) sub(2-4)]) (rule that)
    have a1: "store h1 a = Some \<lparr>cdr = r, car = x\<rparr>" using D(5) a(3) nin by (simp add: agree_def)
    define h2 where "h2 = h1\<lparr>store := (store h1)(a \<mapsto> \<lparr>cdr = q, car = x\<rparr>)\<rparr>"
    have F_sub: "addrs ?F \<subseteq> addrs qs" by (rule F_addrs)
    have h2: "list_Rplacd a q h1 = Some h2" "wf_heap h2" "list_Cdr a h2 = Some q" "agree {a} h1 h2"
      using a(2) a1 wf_heap_field [OF D(3) a1] by (simp_all add: heap_simps h2_def agree_def)
    have nF: "a \<notin> addrs ?F" using nin F_sub by (rule contra_subsetD [rotated])
    have "store h2 = (store h1)(a \<mapsto> \<lparr>cdr = q, car = x\<rparr>)" by (simp add: h2_def)
    then have s2: "seg (store h2) q ?F NULL" using D(4) nF by (simp only: seg_upd not_False_eq_True)
    have S2: "h2 \<in> S" by (rule stable [OF D(2) agree_mono [OF h2(4)]]) (use sub in simp)
    have "length ?F < length ps" using Cons by (simp add: less_Suc_eq_le)
    moreover have "addrs ?F \<subseteq> A" using F_sub sub(2) by (rule order_trans)
    moreover have "set (elems ?F) \<subseteq> X" using F_elems sub(3) by (rule order_trans)
    ultimately obtain h' where L: "delete_duplicates_loop del q h2 = Some h'"
      "left_with ?F (dedup E ?F) (addrs ?F) h2 (Some (q, h'))"
      using less.hyps [OF _ S2 h2(2) s2] by blast
    from L(2) have IH: "wf_heap h'" "seg (store h') q (dedup E ?F) NULL" "agree (addrs ?F) h2 h'"
      and fr2: "\<And>a. a \<in> addrs ?F \<Longrightarrow> a \<notin> addrs (dedup E ?F) \<Longrightarrow> store h' a = None"
      by (auto simp: left_with_def)
    have run: "delete_duplicates_loop del p h = Some h'"
      by (subst delete_duplicates_loop.simps) (use a D(1) h2 L(1) in \<open>simp add: heap_simps\<close>)
    have ah: "store h' a = Some \<lparr>cdr = q, car = x\<rparr>"
      using IH(3) nF by (simp add: agree_def h2_def)
    have ag: "agree (addrs ps) h h'"
    proof -
      have "agree (insert a (addrs qs)) h h2" by (rule agree_step [OF D(5) h2(4)]) auto
      then have "agree (insert a (addrs qs)) h h'" by (rule agree_step [OF _ IH(3)]) (use F_sub in auto)
      then show ?thesis by (simp add: Cons c)
    qed
    have freed: "store h' b = None" if "b \<in> addrs ps" "b \<notin> addrs (dedup E ps)" for b
    proof -
      have b: "b \<noteq> a" "b \<in> addrs qs" "b \<notin> addrs (dedup E ?F)" using that by (simp_all add: Cons c)
      show ?thesis
      proof (cases "b \<in> addrs ?F")
        case True
        then show ?thesis by (rule fr2) (rule b(3))
      next
        case False
        then show ?thesis using fr [OF b(2)] IH(3) b(1) by (simp add: agree_def h2_def)
      qed
    qed
    have sg: "seg (store h') p (dedup E ps) NULL" using a(1,2) ah IH(2) Cons c by simp
    show ?thesis
      by (rule exI [of _ h'], rule conjI [OF run], rule left_withI [OF refl IH(1) sg ag freed])
  qed
qed

end

section \<open>The deletions of the code meet the interface\<close>

text \<open>Deletion by pointer comparison, in every heap.\<close>

interpretation pd: all_deleter list_PointerDeleteElement "(=)" UNIV UNIV UNIV
proof
  show "left_with ps (filter (\<lambda>c. e \<noteq> snd c) ps) (addrs ps) h (list_PointerDeleteElement p e h)"
    if "wf_heap h" "seg (store h) p ps NULL" for h p ps e
    using that by (rule list_PointerDeleteElement_ok)
qed auto

text \<open>Deletion with a test that decides \<open>E\<close> on the elements, whatever the list nodes hold.\<close>

definition tests :: "elem_test \<Rightarrow> (ptr \<Rightarrow> ptr \<Rightarrow> bool) \<Rightarrow> ptr set \<Rightarrow> heap \<Rightarrow> ptr set \<Rightarrow> bool" where
  "tests Test E A h X \<longleftrightarrow> (\<forall>x \<in> X. test_ok (Test x) (E x) A h X)"

lemma tests_pure [simp]: "tests (\<lambda>x y h. Some (E x y)) E A h X"
  by (simp add: tests_def)

lemma tests_pointer_eq [simp]: "tests pointer_eq (=) A h X"
  by (simp add: tests_def)

lemma tests_run:
  assumes "tests Test E A h0 X" "agree A h0 h" "B \<subseteq> A" "Y \<subseteq> X" "e \<in> X"
  shows "test_ok (Test e) (E e) B h Y"
  by (rule test_ok_subset [OF test_ok_agree [OF _ assms(2)] assms(4,3)])
    (use assms(1,5) in \<open>simp add: tests_def\<close>)

lemma all_deleter_test:
  assumes "tests Test E A h0 X"
  shows "all_deleter (\<lambda>l x. list_DeleteElement l x Test) E {h. agree A h0 h} A X"
proof
  fix h p ps e
  assume "h \<in> {h. agree A h0 h}" "wf_heap h" "seg (store h) p ps NULL" "addrs ps \<subseteq> A"
    "set (elems ps) \<subseteq> X" "e \<in> X"
  then show "left_with ps (filter (\<lambda>c. \<not> E e (snd c)) ps) (addrs ps) h (list_DeleteElement p e Test h)"
    by (intro list_DeleteElement_ok tests_run [OF assms]) simp_all
next
  fix h h' :: heap
  assume "h \<in> {h. agree A h0 h}" "agree A h h'"
  then show "h' \<in> {h. agree A h0 h}" by (simp add: agree_trans [of A h0 h])
qed auto

lemma deleter_one_test:
  assumes "tests Test E A h0 X"
  shows "deleter (\<lambda>l x. list_DeleteOneElement l x Test) (\<lambda>e. delete_first (\<lambda>c. E e (snd c)))
    {h. agree A h0 h} A X"
proof
  fix h p ps e
  assume "h \<in> {h. agree A h0 h}" "wf_heap h" "seg (store h) p ps NULL" "addrs ps \<subseteq> A"
    "set (elems ps) \<subseteq> X" "e \<in> X"
  then show "left_with ps (delete_first (\<lambda>c. E e (snd c)) ps) (addrs ps) h
      (list_DeleteOneElement p e Test h)"
    by (intro list_DeleteOneElement_ok tests_run [OF assms]) simp_all
next
  fix h h' :: heap
  assume "h \<in> {h. agree A h0 h}" "agree A h h'"
  then show "h' \<in> {h. agree A h0 h}" by (simp add: agree_trans [of A h0 h])
qed (rule set_delete_first)

section \<open>Duplicates\<close>

lemma list_PointerDeleteDuplicates_ok:
  assumes "wf_heap h" "seg (store h) p ps NULL"
  shows "left_with ps (dedup (=) ps) (addrs ps) h (list_PointerDeleteDuplicates p h)"
  using pd.delete_duplicates_loop_ok [OF _ assms] by (auto simp: list_PointerDeleteDuplicates_def)

lemma list_DeleteDuplicates_ok:
  assumes "wf_heap h" "seg (store h) p ps NULL" "tests Test E (addrs ps) h (set (elems ps))"
  shows "left_with ps (dedup E ps) (addrs ps) h (list_DeleteDuplicates p Test h)"
  using all_deleter.delete_duplicates_loop_ok [OF all_deleter_test [OF assms(3)] _ assms(1,2)]
  by (auto simp: list_DeleteDuplicates_def)

lemma list_IsSetOfPointers_ok:
  assumes "seg (store h) p ps NULL"
  shows "list_IsSetOfPointers p h = Some (distinct (elems ps))"
  using assms
proof (induction ps arbitrary: p)
  case Nil
  then show ?case by (subst list_IsSetOfPointers.simps) simp
next
  case (Cons c ps)
  obtain a x where c: "c = (a, x)" by (cases c)
  with Cons.prems obtain r where a: "p = a" "a \<noteq> NULL" "store h a = Some \<lparr>cdr = r, car = x\<rparr>"
    "seg (store h) r ps NULL" by auto
  show ?case
    by (subst list_IsSetOfPointers.simps)
      (use a c Cons.IH [OF a(4)] list_PointerMember_ok [OF a(4)] in \<open>simp add: heap_simps\<close>)
qed

section \<open>Unions\<close>

lemma agree_seg_dom: "agree A h h' \<Longrightarrow> a \<notin> A \<Longrightarrow> store h' a = store h a"
  by (simp add: agree_def)

lemma list_NPointerUnion_ok:
  assumes "wf_heap h" "seg (store h) p ps NULL" "seg (store h) q qs NULL" "addrs ps \<inter> addrs qs = {}"
  shows "left_with (ps @ qs) (dedup (=) (ps @ qs)) (addrs ps \<union> addrs qs) h (list_NPointerUnion p q h)"
proof -
  from list_Nconc_ok [OF assms] obtain l h1 where N: "list_Nconc p q h = Some (l, h1)" "wf_heap h1"
    "seg (store h1) l (ps @ qs) NULL" "agree (addrs ps) h h1" by auto
  from list_PointerDeleteDuplicates_ok [OF N(2,3)] obtain l' h' where
    D: "list_PointerDeleteDuplicates l h1 = Some (l', h')" "wf_heap h'"
      "seg (store h') l' (dedup (=) (ps @ qs)) NULL" "agree (addrs (ps @ qs)) h1 h'"
    and fr: "\<And>a. a \<in> addrs (ps @ qs) \<Longrightarrow> a \<notin> addrs (dedup (=) (ps @ qs)) \<Longrightarrow> store h' a = None"
    by (rule left_withE) (rule that)
  have "agree (addrs ps \<union> addrs qs) h h'"
    by (rule agree_step [OF N(4) D(4)]) (simp_all add: image_Un)
  moreover have "list_NPointerUnion p q h = Some (l', h')"
    using N(1) D(1) by (simp add: list_NPointerUnion_def)
  ultimately show ?thesis using D(2,3) fr by (intro left_withI)
qed

lemma list_NUnion_ok:
  assumes "wf_heap h" "seg (store h) p ps NULL" "seg (store h) q qs NULL" "addrs ps \<inter> addrs qs = {}"
    "tests Test E (addrs ps \<union> addrs qs) h (set (elems ps) \<union> set (elems qs))"
  shows "left_with (ps @ qs) (dedup E (ps @ qs)) (addrs ps \<union> addrs qs) h (list_NUnion p q Test h)"
proof -
  from list_Nconc_ok [OF assms(1-4)] obtain l h1 where N: "list_Nconc p q h = Some (l, h1)" "wf_heap h1"
    "seg (store h1) l (ps @ qs) NULL" "agree (addrs ps) h h1" by auto
  have "agree (addrs ps \<union> addrs qs) h h1" by (rule agree_mono [OF N(4)]) simp
  then have "tests Test E (addrs (ps @ qs)) h1 (set (elems (ps @ qs)))"
    using assms(5) unfolding tests_def
    by (metis test_ok_agree image_Un list.set_map map_append set_append)
  from list_DeleteDuplicates_ok [OF N(2,3) this] obtain l' h' where
    D: "list_DeleteDuplicates l Test h1 = Some (l', h')" "wf_heap h'"
      "seg (store h') l' (dedup E (ps @ qs)) NULL" "agree (addrs (ps @ qs)) h1 h'"
    and fr: "\<And>a. a \<in> addrs (ps @ qs) \<Longrightarrow> a \<notin> addrs (dedup E (ps @ qs)) \<Longrightarrow> store h' a = None"
    by (rule left_withE) (rule that)
  have "agree (addrs ps \<union> addrs qs) h h'"
    by (rule agree_step [OF N(4) D(4)]) (simp_all add: image_Un)
  moreover have "list_NUnion p q Test h = Some (l', h')"
    using N(1) D(1) by (simp add: list_NUnion_def)
  ultimately show ?thesis using D(2,3) fr by (intro left_withI)
qed

section \<open>Intersections\<close>

lemma intersect_scan_loop_eq:
  assumes "delete_scan_loop (\<lambda>x h. map_option Not (M x h)) skip_elem skip_elem p q h = Some h'"
    "wf_heap h" "seg (store h) q ps NULL"
    "store h p = Some \<lparr>cdr = q, car = v\<rparr>" "p \<noteq> NULL" "p \<notin> addrs ps"
  shows "intersect_scan_loop M p q h = Some h'"
  using assms
proof (induction ps arbitrary: p v q h)
  case Nil
  then show ?case
    by (subst intersect_scan_loop.simps, subst (asm) delete_scan_loop.simps) simp
next
  case (Cons c ps)
  obtain a x where c: "c = (a, x)" by (cases c)
  with Cons.prems obtain r where a: "q = a" "a \<noteq> NULL" "store h a = Some \<lparr>cdr = r, car = x\<rparr>"
    "seg (store h) r ps NULL" by auto
  have nin: "a \<notin> addrs ps" "p \<notin> addrs ps" "p \<noteq> a" "a \<noteq> p"
    using seg_distinct [OF Cons.prems(3)] Cons.prems(6) c by auto
  have E: "\<not> list_Empty a" using a by (simp add: list_Nil_def list_Empty_def)
  obtain b where M: "M x h = Some b"
    using Cons.prems(1) a E
    by (subst (asm) delete_scan_loop.simps) (auto simp: heap_simps bind_eq_Some_iff)
  show ?case
  proof (cases b)
    case False
    have "seg (store h) a ((a, x) # ps) NULL" "p \<notin> addrs ((a, x) # ps)" "store h p = Some \<lparr>cdr = a, car = v\<rparr>"
      using a nin Cons.prems(4) by auto
    from unlink_next [OF Cons.prems(2) this(3) Cons.prems(5) this(1,2)]
    obtain h1 h2 r' where U: "list_Cdr a h = Some r'" "list_Rplacd p r' h = Some h1"
      "list_Free a h1 = Some h2" "wf_heap h2" "store h2 p = Some \<lparr>cdr = r', car = v\<rparr>"
      "seg (store h2) r' ps NULL" by auto
    have cdr: "list_Cdr p h2 = Some r'" using U(5) Cons.prems(5) by (simp add: heap_simps)
    have "delete_scan_loop (\<lambda>x h. map_option Not (M x h)) skip_elem skip_elem p r' h2 = Some h'"
      using Cons.prems(1) a E M False U(1-3) cdr
      by (subst (asm) delete_scan_loop.simps) (simp add: heap_simps skip_elem_def)
    from Cons.IH [OF this U(4,6,5) Cons.prems(5) nin(2)] show ?thesis
      by (subst intersect_scan_loop.simps)
        (use a E M False U(1-3) cdr in \<open>simp add: heap_simps\<close>)
  next
    case True
    have "delete_scan_loop (\<lambda>x h. map_option Not (M x h)) skip_elem skip_elem a r h = Some h'"
      using Cons.prems(1) a E M True
      by (subst (asm) delete_scan_loop.simps) (simp add: heap_simps)
    from Cons.IH [OF this Cons.prems(2) a(4,3,2) nin(1)] show ?thesis
      by (subst intersect_scan_loop.simps)
        (use a E M True Cons.prems(4,5) in \<open>simp add: heap_simps\<close>)
  qed
qed

lemma intersect_loops_ok:
  assumes "wf_heap h" "seg (store h) p ps NULL"
    "test_ok (\<lambda>x h. map_option Not (M x h)) (\<lambda>x. \<not> Q x) (addrs ps) h (snd ` set ps)"
  shows "left_with ps (filter (\<lambda>c. Q (snd c)) ps) (addrs ps) h (intersect_loops M p h)"
proof -
  let ?T = "\<lambda>x h. map_option Not (M x h)"
  have "left_with ps (filter (\<lambda>c. \<not> \<not> Q (snd c)) ps) (addrs ps) h
      (list_DeleteElementIf p ?T h)"
    by (rule list_DeleteElementIf_ok [OF assms])
  then obtain p' h' where D: "list_DeleteElementIf p ?T h = Some (p', h')"
    by (rule left_withE)
  from delete_head_loop_ok [OF assms proc_ok_skip]
  obtain p1 h1 where H: "delete_head_loop ?T skip_elem p h = Some (p1, h1)" "wf_heap h1"
    "seg (store h1) p1 (dropWhile (\<lambda>c. \<not> Q (snd c)) ps) NULL" by auto
  have "intersect_loops M p h = Some (p', h')"
  proof (cases "p1 = NULL")
    case True
    then show ?thesis using D H(1)
      by (simp add: intersect_loops_def list_DeleteElementIf_def delete_loops_def list_Empty_def list_Nil_def)
  next
    case False
    with H(3) obtain v q ds where d:
      "store h1 p1 = Some \<lparr>cdr = q, car = v\<rparr>" "seg (store h1) q ds NULL" "p1 \<notin> addrs ds"
      by (rule seg_neq_NULL)
    have S: "delete_scan_loop ?T skip_elem skip_elem p1 q h1 = Some h'" "p' = p1"
      using D H(1) False d(1)
      by (auto simp: list_DeleteElementIf_def delete_loops_def list_Empty_def heap_simps
          bind_eq_Some_iff)
    show ?thesis
      using H(1) False d(1) S(2) intersect_scan_loop_eq [OF S(1) H(2) d(2,1) False d(3)]
      by (simp add: intersect_loops_def list_Empty_def heap_simps)
  qed
  then show ?thesis using list_DeleteElementIf_ok [OF assms] D by simp
qed

lemma list_NPointerIntersect_ok:
  assumes "wf_heap h" "seg (store h) p ps NULL" "seg (store h) q qs NULL" "addrs qs \<inter> addrs ps = {}"
  shows "left_with ps (filter (\<lambda>c. snd c \<in> set (elems qs)) ps) (addrs ps) h (list_NPointerIntersect p q h)"
  unfolding list_NPointerIntersect_def
proof (rule intersect_loops_ok [OF assms(1,2)])
  show "test_ok (\<lambda>x h. map_option Not (list_PointerMember q x h)) (\<lambda>x. x \<notin> set (elems qs)) (addrs ps) h
      (snd ` set ps)"
    unfolding test_ok_def decides_def
    by (auto simp: list_PointerMember_ok [OF seg_agree [OF _ assms(4,3)]])
qed

lemma list_NIntersect_ok:
  assumes "wf_heap h" "seg (store h) p ps NULL" "seg (store h) q qs NULL" "addrs qs \<inter> addrs ps = {}"
    "\<forall>x \<in> set (elems ps). test_ok (Test x) (E x) (addrs ps) h (set (elems qs))"
  shows "left_with ps (filter (\<lambda>c. \<exists>y \<in> set (elems qs). E (snd c) y) ps) (addrs ps) h
    (list_NIntersect p q Test h)"
  unfolding list_NIntersect_def
proof (rule intersect_loops_ok [OF assms(1,2)])
  show "test_ok (\<lambda>x h. map_option Not (list_Member q x Test h))
      (\<lambda>x. \<not> (\<exists>y \<in> set (elems qs). E x y)) (addrs ps) h (snd ` set ps)"
    unfolding test_ok_def decides_def
  proof (intro ballI)
    fix x h'
    assume x: "x \<in> snd ` set ps" and "h' \<in> {h'. agree (addrs ps) h h'}"
    then have ag: "agree (addrs ps) h h'" by simp
    have "decides (Test x) (E x) (snd ` set qs) {h'}"
      using bspec [OF assms(5), of x] x ag by (simp add: test_ok_def decides_def)
    from list_Member_ok [where e = x and Test = Test and P = "E x", OF seg_agree [OF ag assms(4,3)] this]
    show "map_option Not (list_Member q x Test h') = Some (\<not> (\<exists>y \<in> set (elems qs). E x y))" by simp
  qed
qed

lemma has_intersection_loop_ok:
  assumes "seg (store h) p ps NULL" "seg (store h) q qs NULL"
  shows "has_intersection_loop p q h = Some (\<exists>x \<in> set (elems ps). x \<in> set (elems qs))"
  using assms(1)
proof (induction ps arbitrary: p)
  case Nil
  then show ?case by (subst has_intersection_loop.simps) simp
next
  case (Cons c ps)
  obtain a x where c: "c = (a, x)" by (cases c)
  with Cons.prems obtain r where a: "p = a" "a \<noteq> NULL" "store h a = Some \<lparr>cdr = r, car = x\<rparr>"
    "seg (store h) r ps NULL" by auto
  show ?case
    by (subst has_intersection_loop.simps)
      (use a c Cons.IH [OF a(4)] list_PointerMember_ok [OF assms(2)] in \<open>simp add: heap_simps\<close>)
qed

lemma list_HasIntersection_ok:
  assumes "seg (store h) p ps NULL" "seg (store h) q qs NULL"
  shows "list_HasIntersection p q h = Some (set (elems ps) \<inter> set (elems qs) \<noteq> {})"
proof (cases "q = NULL")
  case True
  then have "qs = []" using assms(2) by (simp add: seg_NULL)
  then show ?thesis using True by (simp add: list_HasIntersection_def list_Empty_def list_Nil_def)
next
  case False
  have "(\<exists>x \<in> set (elems ps). x \<in> set (elems qs)) = (set (elems ps) \<inter> set (elems qs) \<noteq> {})" by blast
  then show ?thesis using has_intersection_loop_ok [OF assms] False
    by (simp only: list_HasIntersection_def list_Empty_def list_Nil_def not_False_eq_True if_True simp_thms)
qed

section \<open>Differences\<close>

lemma fold_filter:
  "fold (\<lambda>e. filter (\<lambda>c. \<not> E e (snd c))) es ps = filter (\<lambda>c. \<forall>e \<in> set es. \<not> E e (snd c)) ps"
  by (induction es arbitrary: ps) (simp_all add: conj_commute)

lemma list_NPointerDifference_ok:
  assumes "wf_heap h" "seg (store h) p ps NULL" "seg (store h) q qs NULL" "addrs qs \<inter> addrs ps = {}"
  shows "left_with ps (filter (\<lambda>c. snd c \<notin> set (elems qs)) ps) (addrs ps) h (list_NPointerDifference p q h)"
proof (cases "p = NULL")
  case True
  then show ?thesis using assms
    by (auto simp: list_NPointerDifference_def list_Empty_def list_Nil_def seg_NULL left_with_def)
next
  case False
  have e: "filter (\<lambda>c. \<forall>e \<in> set (elems qs). e \<noteq> snd c) ps = filter (\<lambda>c. snd c \<notin> set (elems qs)) ps"
    by (rule filter_cong) (rule refl, metis)
  have d: "list_NPointerDifference p q h = difference_loop list_PointerDeleteElement p q h"
    using False by (simp add: list_NPointerDifference_def list_Empty_def list_Nil_def)
  show ?thesis
    using pd.difference_loop_ok [OF _ assms(1,2) _ _ assms(3,4)] unfolding fold_filter e d by simp
qed

lemma list_NDifference_ok:
  assumes "wf_heap h" "seg (store h) p ps NULL" "seg (store h) q qs NULL" "addrs qs \<inter> addrs ps = {}"
    "tests Test E (addrs ps) h (set (elems ps) \<union> set (elems qs))"
  shows "left_with ps (filter (\<lambda>c. \<forall>e \<in> set (elems qs). \<not> E e (snd c)) ps) (addrs ps) h
    (list_NDifference p q Test h)"
proof (cases "p = NULL")
  case True
  then show ?thesis using assms
    by (auto simp: list_NDifference_def list_Empty_def list_Nil_def seg_NULL left_with_def)
next
  case False
  have d: "list_NDifference p q Test h = difference_loop (\<lambda>l x. list_DeleteElement l x Test) p q h"
    using False by (simp add: list_NDifference_def list_Empty_def list_Nil_def)
  show ?thesis unfolding d fold_filter [symmetric]
    by (rule deleter.difference_loop_ok [OF all_deleter.axioms [OF all_deleter_test [OF assms(5)]]
          _ assms(1,2) _ _ assms(3,4)]) auto
qed

lemma list_NMultisetDifference_ok:
  assumes "wf_heap h" "seg (store h) p ps NULL" "seg (store h) q qs NULL" "addrs qs \<inter> addrs ps = {}"
    "tests Test E (addrs ps) h (set (elems ps) \<union> set (elems qs))"
  shows "left_with ps (fold (\<lambda>e. delete_first (\<lambda>c. E e (snd c))) (elems qs) ps) (addrs ps) h
    (list_NMultisetDifference p q Test h)"
proof (cases "p = NULL")
  case True
  moreover have "fold (\<lambda>e. delete_first (\<lambda>c. E e (snd c))) es [] = []" for es
    by (induction es) auto
  ultimately show ?thesis using assms
    by (auto simp: list_NMultisetDifference_def list_Empty_def list_Nil_def seg_NULL left_with_def)
next
  case False
  have d: "list_NMultisetDifference p q Test h
      = difference_loop (\<lambda>l x. list_DeleteOneElement l x Test) p q h"
    using False by (simp add: list_NMultisetDifference_def list_Empty_def list_Nil_def)
  show ?thesis unfolding d
    by (rule deleter.difference_loop_ok [OF deleter_one_test [OF assms(5)]
          _ assms(1,2) _ _ assms(3,4)]) auto
qed

lemma mset_elems_fold_delete_first:
  "mset (elems (fold (\<lambda>e. delete_first (\<lambda>c. e = snd c)) es ps)) = mset (elems ps) - mset es"
proof (induction es arbitrary: ps)
  case (Cons e es)
  have "elems (delete_first (\<lambda>c. e = snd c) ps) = remove1 e (elems ps)"
    by (simp add: map_delete_first [of snd "(=) e"] delete_first_eq_remove1)
  then have "mset (elems (delete_first (\<lambda>c. e = snd c) ps)) = mset (elems ps) - {#e#}"
    by (simp only: mset_remove1)
  then have "mset (elems (fold (\<lambda>e. delete_first (\<lambda>c. e = snd c)) (e # es) ps))
      = mset (elems ps) - {#e#} - mset es"
    by (simp only: fold_Cons o_apply Cons.IH)
  also have "\<dots> = mset (elems ps) - mset (e # es)" by (simp add: diff_diff_add)
  finally show ?case .
qed simp

end
