(* ===== verification/Spass_List_Sort.thy ===== *)
theory Spass_List_Sort
  imports Spass_List_Sets
begin

text \<open>
  Sorting of lists (\<open>list.c\<close>): the destructive merge sort behind \<open>list_Sort\<close>, the exchange sort
  \<open>list_InsertionSort\<close>, the sortedness test and the sorts by pointer value or by number. Only
  links (merge sort) or contents (exchange sort) of the given nodes change: no sort allocates
  or frees.

  The static variable \<open>NumberFunction\<close>, through which the numbered comparisons get their
  numbering, is an explicit argument of the comparisons and a result of the functions that set
  it. The consistency checks under \<open>#ifdef CHECK\<close> are not part of the model.
\<close>

section \<open>The operations\<close>

type_synonym number_fun = "ptr \<Rightarrow> heap \<Rightarrow> NAT option"

definition list_PointerLower :: elem_test where
  "list_PointerLower A B h = Some ((of_nat A :: NAT) < of_nat B)"

partial_function (option) list_SortedInOrder_loop :: "ptr \<Rightarrow> ptr \<Rightarrow> elem_test \<Rightarrow> heap \<Rightarrow> bool option" where
  "list_SortedInOrder_loop Scan1 Scan2 Test h = do {
     x \<leftarrow> list_Car Scan1 h;
     y \<leftarrow> list_Car Scan2 h;
     b \<leftarrow> Test x y h;
     c \<leftarrow> (if \<not> b then Test y x h else Some False);
     if c then Some False
     else do {
       Scan1 \<leftarrow> list_Cdr Scan1 h;
       Scan2 \<leftarrow> list_Cdr Scan1 h;
       if \<not> list_Empty Scan2 then list_SortedInOrder_loop Scan1 Scan2 Test h else Some True } }"

definition list_SortedInOrder :: "ptr \<Rightarrow> elem_test \<Rightarrow> heap \<Rightarrow> bool option" where
  "list_SortedInOrder L Test h =
     (if list_Empty L then Some True
      else do {
        Scan2 \<leftarrow> list_Cdr L h;
        if list_Empty Scan2 then Some True else list_SortedInOrder_loop L Scan2 Test h })"

partial_function (option) list_Merge_loop ::
  "ptr \<Rightarrow> ptr \<Rightarrow> ptr \<Rightarrow> elem_test \<Rightarrow> heap \<Rightarrow> heap option" where
  "list_Merge_loop Result Scan1 Scan2 Test h =
     (if \<not> list_Empty Scan1 \<and> \<not> list_Empty Scan2 then do {
        x \<leftarrow> list_Car Scan1 h;
        y \<leftarrow> list_Car Scan2 h;
        b \<leftarrow> Test x y h;
        if b then do {
          h \<leftarrow> list_Rplacd Result Scan1 h;
          Scan1 \<leftarrow> list_Cdr Scan1 h;
          Result \<leftarrow> list_Cdr Result h;
          list_Merge_loop Result Scan1 Scan2 Test h }
        else do {
          h \<leftarrow> list_Rplacd Result Scan2 h;
          Scan2 \<leftarrow> list_Cdr Scan2 h;
          Result \<leftarrow> list_Cdr Result h;
          list_Merge_loop Result Scan1 Scan2 Test h } }
      else if list_Empty Scan1 then list_Rplacd Result Scan2 h
      else list_Rplacd Result Scan1 h)"

definition list_Merge :: "ptr \<Rightarrow> ptr \<Rightarrow> elem_test \<Rightarrow> heap \<Rightarrow> (ptr \<times> heap) option" where
  "list_Merge List1 List2 Test h =
     (if list_Empty List1 then Some (List2, h)
      else if list_Empty List2 then Some (List1, h)
      else do {
        x \<leftarrow> list_Car List1 h;
        y \<leftarrow> list_Car List2 h;
        b \<leftarrow> Test x y h;
        if b then do {
          Scan1 \<leftarrow> list_Cdr List1 h;
          h \<leftarrow> list_Merge_loop List1 Scan1 List2 Test h;
          Some (List1, h) }
        else do {
          Scan2 \<leftarrow> list_Cdr List2 h;
          h \<leftarrow> list_Merge_loop List2 List1 Scan2 Test h;
          Some (List2, h) } })"

partial_function (option) list_Split_loop :: "ptr \<Rightarrow> ptr \<Rightarrow> ptr \<Rightarrow> heap \<Rightarrow> (ptr \<times> ptr) option" where
  "list_Split_loop Prev SingleStep DoubleStep h =
     (if list_Empty DoubleStep then Some (Prev, SingleStep)
      else do {
        d \<leftarrow> list_Cdr DoubleStep h;
        if list_Empty d then Some (Prev, SingleStep)
        else do {
          s \<leftarrow> list_Cdr SingleStep h;
          d \<leftarrow> list_Cdr d h;
          list_Split_loop SingleStep s d h } })"

text \<open>The two halves, returned through \<open>*Half1\<close> and \<open>*Half2\<close>, and the heap.\<close>

definition list_Split :: "ptr \<Rightarrow> heap \<Rightarrow> (ptr \<times> ptr \<times> heap) option" where
  "list_Split L h =
     (if list_Empty L then Some (list_Nil, L, h)
      else do {
        SingleStep \<leftarrow> list_Cdr L h;
        if list_Empty SingleStep then Some (list_Nil, L, h)
        else do {
          DoubleStep \<leftarrow> list_Cdr SingleStep h;
          (Prev, SingleStep) \<leftarrow> list_Split_loop L SingleStep DoubleStep h;
          h \<leftarrow> list_Rplacd Prev list_Nil h;
          Some (L, SingleStep, h) } })"

partial_function (option) list_MergeSort :: "ptr \<Rightarrow> elem_test \<Rightarrow> heap \<Rightarrow> (ptr \<times> heap) option" where
  "list_MergeSort L Test h =
     (if list_Empty L then Some (L, h)
      else do {
        q \<leftarrow> list_Cdr L h;
        if list_Empty q then Some (L, h)
        else do {
          (lowerhalf, greaterhalf, h) \<leftarrow> list_Split L h;
          (lowerhalf, h) \<leftarrow> list_MergeSort lowerhalf Test h;
          (greaterhalf, h) \<leftarrow> list_MergeSort greaterhalf Test h;
          list_Merge lowerhalf greaterhalf Test h } })"

partial_function (option) insertion_inner :: "ptr \<Rightarrow> ptr \<Rightarrow> elem_test \<Rightarrow> heap \<Rightarrow> heap option" where
  "insertion_inner Min1 Scan2 Test h =
     (if list_Empty Scan2 then Some h
      else do {
        x \<leftarrow> list_Car Scan2 h;
        m \<leftarrow> list_Car Min1 h;
        b \<leftarrow> Test x m h;
        h \<leftarrow> (if b then do {
                Exchange \<leftarrow> list_Car Min1 h;
                x \<leftarrow> list_Car Scan2 h;
                h \<leftarrow> list_Rplaca Min1 x h;
                list_Rplaca Scan2 Exchange h }
              else Some h);
        Scan2 \<leftarrow> list_Cdr Scan2 h;
        insertion_inner Min1 Scan2 Test h })"

partial_function (option) insertion_outer :: "ptr \<Rightarrow> elem_test \<Rightarrow> heap \<Rightarrow> heap option" where
  "insertion_outer Scan1 Test h =
     (if list_Empty Scan1 then Some h
      else do {
        Scan2 \<leftarrow> list_Cdr Scan1 h;
        h \<leftarrow> insertion_inner Scan1 Scan2 Test h;
        Scan1 \<leftarrow> list_Cdr Scan1 h;
        insertion_outer Scan1 Test h })"

definition list_InsertionSort :: "ptr \<Rightarrow> elem_test \<Rightarrow> heap \<Rightarrow> (ptr \<times> heap) option" where
  "list_InsertionSort List Test h = do {
     h \<leftarrow> insertion_outer List Test h;
     Some (List, h) }"

definition list_Sort :: "ptr \<Rightarrow> elem_test \<Rightarrow> heap \<Rightarrow> (ptr \<times> heap) option" where
  "list_Sort List Test h = list_MergeSort List Test h"

definition list_PointerSort :: "ptr \<Rightarrow> heap \<Rightarrow> (ptr \<times> heap) option" where
  "list_PointerSort List h = list_Sort List list_PointerLower h"

definition list_PointerNumberedLower :: "number_fun \<Rightarrow> elem_test" where
  "list_PointerNumberedLower NumberFunction A B h = do {
     a \<leftarrow> NumberFunction A h; b \<leftarrow> NumberFunction B h; Some (a < b) }"

definition list_PointerNumberedLowerOrEqual :: "number_fun \<Rightarrow> elem_test" where
  "list_PointerNumberedLowerOrEqual NumberFunction A B h = do {
     a \<leftarrow> NumberFunction A h; b \<leftarrow> NumberFunction B h; Some (a \<le> b) }"

definition list_PointerNumberedGreater :: "number_fun \<Rightarrow> elem_test" where
  "list_PointerNumberedGreater NumberFunction A B h = do {
     a \<leftarrow> NumberFunction A h; b \<leftarrow> NumberFunction B h; Some (a > b) }"

text \<open>Each returns the list, the value left in \<open>NumberFunction\<close> and the heap.\<close>

definition list_NumberSort :: "ptr \<Rightarrow> number_fun \<Rightarrow> heap \<Rightarrow> (ptr \<times> number_fun \<times> heap) option" where
  "list_NumberSort List Number h = do {
     let NumberFunction = Number;
     (l, h) \<leftarrow> list_Sort List (list_PointerNumberedLower NumberFunction) h;
     Some (l, NumberFunction, h) }"

definition list_GreaterNumberSort :: "ptr \<Rightarrow> number_fun \<Rightarrow> heap \<Rightarrow> (ptr \<times> number_fun \<times> heap) option" where
  "list_GreaterNumberSort List Number h = do {
     let NumberFunction = Number;
     (l, h) \<leftarrow> list_Sort List (list_PointerNumberedGreater NumberFunction) h;
     Some (l, NumberFunction, h) }"

definition list_NNumberMerge ::
  "ptr \<Rightarrow> ptr \<Rightarrow> number_fun \<Rightarrow> heap \<Rightarrow> (ptr \<times> number_fun \<times> heap) option" where
  "list_NNumberMerge List1 List2 Number h = do {
     let NumberFunction = Number;
     (l, h) \<leftarrow> list_Merge List1 List2 (list_PointerNumberedLowerOrEqual NumberFunction) h;
     Some (l, NumberFunction, h) }"

section \<open>The sorts on the nodes of a list\<close>

text \<open>\<open>T\<close> may be a strict or a reflexive ordering; \<open>leq T x y\<close> is the relation the result is
  sorted by, the one \<open>list_SortedInOrder\<close> tests: \<open>x\<close> is not strictly greater than \<open>y\<close>.\<close>

definition leq :: "(ptr \<Rightarrow> ptr \<Rightarrow> bool) \<Rightarrow> ptr \<Rightarrow> ptr \<Rightarrow> bool" where
  "leq T x y \<longleftrightarrow> T x y \<or> \<not> T y x"

definition leq_trans_on :: "(ptr \<Rightarrow> ptr \<Rightarrow> bool) \<Rightarrow> ptr set \<Rightarrow> bool" where
  "leq_trans_on T X \<longleftrightarrow> (\<forall>x \<in> X. \<forall>y \<in> X. \<forall>z \<in> X. leq T x y \<longrightarrow> leq T y z \<longrightarrow> leq T x z)"

fun nmerge :: "(ptr \<Rightarrow> ptr \<Rightarrow> bool) \<Rightarrow> nodes \<Rightarrow> nodes \<Rightarrow> nodes" where
  "nmerge T [] qs = qs"
| "nmerge T ps [] = ps"
| "nmerge T (p # ps) (q # qs) =
     (if T (snd p) (snd q) then p # nmerge T ps (q # qs) else q # nmerge T (p # ps) qs)"

function nsort :: "(ptr \<Rightarrow> ptr \<Rightarrow> bool) \<Rightarrow> nodes \<Rightarrow> nodes" where
  "nsort T ps = (if length ps \<le> 1 then ps
     else nmerge T (nsort T (take (length ps div 2) ps)) (nsort T (drop (length ps div 2) ps)))"
  by pat_completeness auto
termination by (relation "measure (\<lambda>(T, ps). length ps)") auto

declare nsort.simps [simp del]

lemma mset_nmerge [simp]: "mset (nmerge T ps qs) = mset ps + mset qs"
  by (induction T ps qs rule: nmerge.induct) auto

lemma set_nmerge [simp]: "set (nmerge T ps qs) = set ps \<union> set qs"
  by (metis mset_nmerge set_mset_mset set_mset_union)

lemma mset_nsort [simp]: "mset (nsort T ps) = mset ps"
proof (induction T ps rule: nsort.induct)
  case (1 T ps)
  then show ?case
    by (subst nsort.simps) (auto simp flip: mset_append)
qed

lemma set_nsort [simp]: "set (nsort T ps) = set ps"
  by (metis mset_nsort set_mset_mset)

lemma leq_total: "\<not> T x y \<Longrightarrow> leq T y x"
  by (simp add: leq_def)

lemma leq_trans_onD:
  "leq_trans_on T X \<Longrightarrow> leq T x y \<Longrightarrow> leq T y z \<Longrightarrow> x \<in> X \<Longrightarrow> y \<in> X \<Longrightarrow> z \<in> X \<Longrightarrow> leq T x z"
  unfolding leq_trans_on_def by blast

lemma leq_trans_on_mono: "leq_trans_on T X \<Longrightarrow> Y \<subseteq> X \<Longrightarrow> leq_trans_on T Y"
  unfolding leq_trans_on_def by blast

lemma sorted_nmerge:
  assumes "leq_trans_on T X" "set (elems ps) \<subseteq> X" "set (elems qs) \<subseteq> X"
    "sorted_wrt (leq T) (elems ps)" "sorted_wrt (leq T) (elems qs)"
  shows "sorted_wrt (leq T) (elems (nmerge T ps qs))"
  using assms
proof (induction T ps qs rule: nmerge.induct)
  case (3 T p ps q qs)
  show ?case
  proof (cases "T (snd p) (snd q)")
    case True
    then have "leq T (snd p) (snd q)" by (simp add: leq_def)
    moreover from this have "leq T (snd p) (snd c)" if "c \<in> set qs" for c
      by (rule leq_trans_onD [OF 3(3)]) (use 3(4,5,7) that in auto)
    ultimately show ?thesis using 3 True by auto
  next
    case False
    then have "leq T (snd q) (snd p)" by (rule leq_total)
    moreover from this have "leq T (snd q) (snd c)" if "c \<in> set ps" for c
      by (rule leq_trans_onD [OF 3(3)]) (use 3(4-6) that in auto)
    ultimately show ?thesis using 3 False by auto
  qed
qed auto

lemma sorted_nsort:
  assumes "leq_trans_on T X" "set (elems ps) \<subseteq> X"
  shows "sorted_wrt (leq T) (elems (nsort T ps))"
  using assms
proof (induction T ps rule: nsort.induct)
  case (1 T ps)
  show ?case
  proof (cases "length ps \<le> 1")
    case True
    then show ?thesis by (cases ps) (auto simp: nsort.simps)
  next
    case False
    let ?n = "length ps div 2"
    have sub: "set (elems (take ?n ps)) \<subseteq> X" "set (elems (drop ?n ps)) \<subseteq> X"
      using 1(4) set_take_subset [of ?n ps] set_drop_subset [of ?n ps] by auto
    have "sorted_wrt (leq T) (elems (nmerge T (nsort T (take ?n ps)) (nsort T (drop ?n ps))))"
      by (rule sorted_nmerge [OF 1(3)])
        (use sub 1(1) [OF False 1(3) sub(1)] 1(2) [OF False 1(3) sub(2)] in simp_all)
    then show ?thesis using False by (subst nsort.simps) simp
  qed
qed

section \<open>The code sorts the nodes\<close>

lemma tests_at: "tests Test E A h0 X \<Longrightarrow> agree A h0 h \<Longrightarrow> x \<in> X \<Longrightarrow> y \<in> X \<Longrightarrow> Test x y h = Some (E x y)"
  by (simp add: tests_def test_ok_def decides_def)

lemma tests_agree: "tests Test E A h0 X \<Longrightarrow> agree A h0 h \<Longrightarrow> tests Test E A h X"
  unfolding tests_def by (blast intro: test_ok_agree)

lemma tests_mono: "tests Test E A h X \<Longrightarrow> B \<subseteq> A \<Longrightarrow> Y \<subseteq> X \<Longrightarrow> tests Test E B h Y"
  unfolding tests_def by (blast intro: test_ok_subset)

text \<open>\<open>relinked A h h'\<close>: only links and contents of the nodes \<open>A\<close> changed; nothing was allocated
  or freed.\<close>

definition relinked :: "ptr set \<Rightarrow> heap \<Rightarrow> heap \<Rightarrow> bool" where
  "relinked A h h' \<longleftrightarrow> wf_heap h' \<and> agree A h h' \<and> dom (store h') = dom (store h)"

lemma relinked_refl: "wf_heap h \<Longrightarrow> relinked A h h"
  by (simp add: relinked_def)

lemma relinked_trans: "relinked A h h1 \<Longrightarrow> relinked B h1 h2 \<Longrightarrow> A \<subseteq> C \<Longrightarrow> B \<subseteq> C \<Longrightarrow> relinked C h h2"
  unfolding relinked_def by (blast intro: agree_step)

lemma relinked_upd:
  assumes "wf_heap h" "store h a = Some n" "a \<in> A"
  shows "relinked A h (h\<lparr>store := (store h)(a \<mapsto> m)\<rparr>)"
proof -
  have "a \<in> dom (store h)" using assms(2) by blast
  then show ?thesis using wf_heap_dom_upd [OF assms(1)] assms(2,3)
    by (simp add: relinked_def agree_def insert_absorb)
qed

lemma relinked_wf: "relinked A h h' \<Longrightarrow> wf_heap h'" and relinked_agree: "relinked A h h' \<Longrightarrow> agree A h h'"
  by (simp_all add: relinked_def)

lemma list_Merge_loop_ok:
  assumes "wf_heap h" "store h r = Some \<lparr>cdr = q0, car = v\<rparr>" "r \<noteq> NULL"
    "seg (store h) p ps NULL" "seg (store h) q qs NULL" "addrs ps \<inter> addrs qs = {}"
    "r \<notin> addrs ps" "r \<notin> addrs qs"
    "tests Test T (insert r (addrs ps \<union> addrs qs)) h (set (elems ps) \<union> set (elems qs))"
  shows "\<exists>h'. list_Merge_loop r p q Test h = Some h'
     \<and> seg (store h') r ((r, v) # nmerge T ps qs) NULL
     \<and> relinked (insert r (addrs ps \<union> addrs qs)) h h'"
  using assms
proof (induction T ps qs arbitrary: r q0 v p q h rule: nmerge.induct)
  case (1 T qs)
  define h1 where "h1 = h\<lparr>store := (store h)(r \<mapsto> \<lparr>cdr = q, car = v\<rparr>)\<rparr>"
  have "list_Merge_loop r p q Test h = Some h1"
    by (subst list_Merge_loop.simps) (use 1 in \<open>simp add: heap_simps h1_def list_Empty_def list_Nil_def\<close>)
  moreover have "relinked (insert r (addrs [] \<union> addrs qs)) h h1"
    unfolding h1_def by (rule relinked_upd [OF 1(1,2)]) simp
  moreover have "seg (store h1) r ((r, v) # nmerge T [] qs) NULL"
    using 1 by (simp add: h1_def)
  ultimately show ?case by blast
next
  case (2 T c ps)
  from 2(4) obtain a x where c: "c = (a, x)" "p = a" "a \<noteq> NULL" by (cases c) auto
  define h1 where "h1 = h\<lparr>store := (store h)(r \<mapsto> \<lparr>cdr = p, car = v\<rparr>)\<rparr>"
  have "list_Merge_loop r p q Test h = Some h1"
    by (subst list_Merge_loop.simps) (use 2 c in \<open>simp add: heap_simps h1_def list_Empty_def list_Nil_def\<close>)
  moreover have "relinked (insert r (addrs (c # ps) \<union> addrs [])) h h1"
    unfolding h1_def by (rule relinked_upd [OF 2(1,2)]) simp
  moreover have s1: "store h1 = (store h)(r \<mapsto> \<lparr>cdr = p, car = v\<rparr>)" by (simp add: h1_def)
  moreover have "seg (store h1) p (c # ps) NULL"
    using 2(4,7) by (simp only: s1 seg_upd not_False_eq_True)
  ultimately show ?case using 2(3) by (auto simp: h1_def)
next
  case (3 T c ps d qs)
  obtain a x b y where c: "c = (a, x)" "d = (b, y)" by (cases c, cases d)
  from 3(6) c obtain p' where P: "p = a" "a \<noteq> NULL" "store h a = Some \<lparr>cdr = p', car = x\<rparr>"
    "seg (store h) p' ps NULL" by auto
  from 3(7) c obtain q' where Q: "q = b" "b \<noteq> NULL" "store h b = Some \<lparr>cdr = q', car = y\<rparr>"
    "seg (store h) q' qs NULL" by auto
  have nin: "a \<notin> addrs ps" "b \<notin> addrs qs" using seg_distinct [OF 3(6)] seg_distinct [OF 3(7)] c by auto
  have dj: "r \<noteq> a" "r \<noteq> b" "a \<noteq> r" "b \<noteq> r" "r \<notin> addrs ps" "r \<notin> addrs qs" "a \<noteq> b" "a \<notin> addrs qs"
    "b \<notin> addrs ps" "addrs ps \<inter> addrs qs = {}"
    using 3(8-10) c by auto
  have T: "Test x y h = Some (T x y)" by (rule tests_at [OF 3(11)]) (use c in auto)
  let ?A = "insert r (addrs (c # ps) \<union> addrs (d # qs))"
  show ?case
  proof (cases "T x y")
    case True
    define h1 where "h1 = h\<lparr>store := (store h)(r \<mapsto> \<lparr>cdr = a, car = v\<rparr>)\<rparr>"
    have R: "relinked {r} h h1" unfolding h1_def by (rule relinked_upd [OF 3(3,4)]) simp
    have s1: "store h1 = (store h)(r \<mapsto> \<lparr>cdr = a, car = v\<rparr>)" by (simp add: h1_def)
    have a1: "store h1 a = Some \<lparr>cdr = p', car = x\<rparr>" using P dj by (simp add: s1)
    have seg1: "seg (store h1) p' ps NULL" using P(4) dj by (simp only: s1 seg_upd not_False_eq_True)
    have seg2: "seg (store h1) q (d # qs) NULL"
      using 3(7,10) by (simp only: s1 seg_upd not_False_eq_True)
    have t1: "tests Test T (insert a (addrs ps \<union> addrs (d # qs))) h1 (set (elems ps) \<union> set (elems (d # qs)))"
      by (rule tests_mono [OF tests_agree [OF 3(11) agree_mono [OF relinked_agree [OF R]]]])
        (use c in auto)
    have dj1: "addrs ps \<inter> addrs (d # qs) = {}" "a \<notin> addrs (d # qs)" using dj c by auto
    from 3(1) [OF _ relinked_wf [OF R] a1 P(2) seg1 seg2 dj1(1) nin(1) dj1(2) t1] True c
    obtain h' where IH: "list_Merge_loop a p' q Test h1 = Some h'"
      "seg (store h') a ((a, x) # nmerge T ps (d # qs)) NULL"
      "relinked (insert a (addrs ps \<union> addrs (d # qs))) h1 h'" by auto
    have "list_Merge_loop r p q Test h = Some h'"
      by (subst list_Merge_loop.simps)
        (use P Q T True IH(1) 3(4,5) dj a1 in \<open>simp add: heap_simps list_Empty_def list_Nil_def h1_def\<close>)
    moreover have "relinked ?A h h'"
      by (rule relinked_trans [OF R IH(3)]) (use c in auto)
    moreover have "store h' r = Some \<lparr>cdr = a, car = v\<rparr>"
      using relinked_agree [OF IH(3)] dj c by (simp add: agree_def s1)
    ultimately show ?thesis using IH(2) True c 3(5) by auto
  next
    case False
    define h1 where "h1 = h\<lparr>store := (store h)(r \<mapsto> \<lparr>cdr = b, car = v\<rparr>)\<rparr>"
    have R: "relinked {r} h h1" unfolding h1_def by (rule relinked_upd [OF 3(3,4)]) simp
    have s1: "store h1 = (store h)(r \<mapsto> \<lparr>cdr = b, car = v\<rparr>)" by (simp add: h1_def)
    have b1: "store h1 b = Some \<lparr>cdr = q', car = y\<rparr>" using Q dj by (simp add: s1)
    have seg1: "seg (store h1) q' qs NULL" using Q(4) dj by (simp only: s1 seg_upd not_False_eq_True)
    have seg2: "seg (store h1) p (c # ps) NULL"
      using 3(6,9) by (simp only: s1 seg_upd not_False_eq_True)
    have t1: "tests Test T (insert b (addrs (c # ps) \<union> addrs qs)) h1 (set (elems (c # ps)) \<union> set (elems qs))"
      by (rule tests_mono [OF tests_agree [OF 3(11) agree_mono [OF relinked_agree [OF R]]]])
        (use c in auto)
    have dj1: "addrs (c # ps) \<inter> addrs qs = {}" "b \<notin> addrs (c # ps)" using dj c by auto
    from 3(2) [OF _ relinked_wf [OF R] b1 Q(2) seg2 seg1 dj1 nin(2) t1] False c
    obtain h' where IH: "list_Merge_loop b p q' Test h1 = Some h'"
      "seg (store h') b ((b, y) # nmerge T (c # ps) qs) NULL"
      "relinked (insert b (addrs (c # ps) \<union> addrs qs)) h1 h'" by auto
    have "list_Merge_loop r p q Test h = Some h'"
      by (subst list_Merge_loop.simps)
        (use P Q T False IH(1) 3(4,5) dj b1 in \<open>simp add: heap_simps list_Empty_def list_Nil_def h1_def\<close>)
    moreover have "relinked ?A h h'"
      by (rule relinked_trans [OF R IH(3)]) (use c in auto)
    moreover have "store h' r = Some \<lparr>cdr = b, car = v\<rparr>"
      using relinked_agree [OF IH(3)] dj c by (simp add: agree_def s1)
    ultimately show ?thesis using IH(2) False c 3(5) by auto
  qed
qed

lemma list_Merge_ok:
  assumes "wf_heap h" "seg (store h) p ps NULL" "seg (store h) q qs NULL" "addrs ps \<inter> addrs qs = {}"
    "tests Test T (addrs ps \<union> addrs qs) h (set (elems ps) \<union> set (elems qs))"
  shows "\<exists>r h'. list_Merge p q Test h = Some (r, h') \<and> seg (store h') r (nmerge T ps qs) NULL
     \<and> relinked (addrs ps \<union> addrs qs) h h'"
proof -
  consider "ps = []" | "ps \<noteq> []" "qs = []" | c ps' d qs' where "ps = c # ps'" "qs = d # qs'"
    by (metis neq_Nil_conv)
  then show ?thesis
  proof cases
    case 1
    then show ?thesis using assms relinked_refl [OF assms(1)]
      by (auto simp: list_Merge_def list_Empty_def list_Nil_def)
  next
    case 2
    then obtain c ps' where ps: "ps = c # ps'" by (meson neq_Nil_conv)
    then have "p \<noteq> NULL" using assms(2) by (simp add: seg_Cons_iff)
    then show ?thesis using assms 2 ps relinked_refl [OF assms(1)]
      by (auto simp: list_Merge_def list_Empty_def list_Nil_def)
  next
    case 3
    obtain a x b y where c: "c = (a, x)" "d = (b, y)" by (cases c, cases d)
    note asm = assms [unfolded 3 c]
    from asm(2) obtain p' where P: "p = a" "a \<noteq> NULL" "store h a = Some \<lparr>cdr = p', car = x\<rparr>"
      "seg (store h) p' ps' NULL" by auto
    from asm(3) obtain q' where Q: "q = b" "b \<noteq> NULL" "store h b = Some \<lparr>cdr = q', car = y\<rparr>"
      "seg (store h) q' qs' NULL" by auto
    have nin: "a \<notin> addrs ps'" "b \<notin> addrs qs'" using seg_distinct [OF asm(2)] seg_distinct [OF asm(3)] by auto
    have T: "Test x y h = Some (T x y)" by (rule tests_at [OF asm(5)]) auto
    show ?thesis
    proof (cases "T x y")
      case True
      have dj: "addrs ps' \<inter> addrs ((b, y) # qs') = {}" "a \<notin> addrs ((b, y) # qs')" using asm(4) by auto
      have t: "tests Test T (insert a (addrs ps' \<union> addrs ((b, y) # qs'))) h
          (set (elems ps') \<union> set (elems ((b, y) # qs')))"
        by (rule tests_mono [OF asm(5)]) auto
      from list_Merge_loop_ok [OF asm(1) P(3,2,4) asm(3) dj(1) nin(1) dj(2) t]
      obtain h' where L: "list_Merge_loop a p' q Test h = Some h'"
        "seg (store h') a ((a, x) # nmerge T ps' ((b, y) # qs')) NULL"
        "relinked (insert a (addrs ps' \<union> addrs ((b, y) # qs'))) h h'" by (elim exE conjE)
      have "list_Merge p q Test h = Some (a, h')"
        using P Q T True L(1) by (simp add: list_Merge_def heap_simps)
      moreover have "insert a (addrs ps' \<union> addrs ((b, y) # qs')) = addrs ((a, x) # ps') \<union> addrs ((b, y) # qs')"
        by (simp add: insert_commute)
      ultimately show ?thesis using L(2,3) True unfolding 3 c by auto
    next
      case False
      have dj: "addrs ((a, x) # ps') \<inter> addrs qs' = {}" "b \<notin> addrs ((a, x) # ps')" using asm(4) by auto
      have t: "tests Test T (insert b (addrs ((a, x) # ps') \<union> addrs qs')) h
          (set (elems ((a, x) # ps')) \<union> set (elems qs'))"
        by (rule tests_mono [OF asm(5)]) auto
      from list_Merge_loop_ok [OF asm(1) Q(3,2) asm(2) Q(4) dj nin(2) t]
      obtain h' where L: "list_Merge_loop b p q' Test h = Some h'"
        "seg (store h') b ((b, y) # nmerge T ((a, x) # ps') qs') NULL"
        "relinked (insert b (addrs ((a, x) # ps') \<union> addrs qs')) h h'" by (elim exE conjE)
      have "list_Merge p q Test h = Some (b, h')"
        using P Q T False L(1) by (simp add: list_Merge_def heap_simps)
      moreover have "insert b (addrs ((a, x) # ps') \<union> addrs qs') = addrs ((a, x) # ps') \<union> addrs ((b, y) # qs')"
        by simp
      ultimately show ?thesis using L(2,3) False by (simp add: 3 c)
    qed
  qed
qed

text \<open>The slow pointer stops at the middle: it has advanced \<open>length us + 1\<close> nodes when the fast
  one has advanced twice as many.\<close>

lemma list_Split_loop_ok:
  assumes "seg s L (us @ [(prev, v)]) p" "seg s p ps NULL" "seg s d (drop (length us + 1) ps) NULL"
    "length us + 1 \<le> length ps" "s = store h"
  shows "\<exists>us' prev' v' p' ps'. list_Split_loop prev p d h = Some (prev', p')
     \<and> us @ [(prev, v)] @ ps = us' @ [(prev', v')] @ ps'
     \<and> seg s L (us' @ [(prev', v')]) p' \<and> seg s p' ps' NULL
     \<and> length us' + 1 = (length us + 1 + length ps) div 2"
  using assms
proof (induction "length ps - length us" arbitrary: us prev v p ps d rule: less_induct)
  case less
  define ds where "ds = drop (length us + 1) ps"
  have sd: "seg (store h) d ds NULL" using less.prems(3,5) by (simp only: ds_def)
  have lds: "length ps = length us + 1 + length ds" using less.prems(4) by (simp add: ds_def)
  show ?case
  proof (cases "length ds \<le> 1")
    case True
    have "list_Split_loop prev p d h = Some (prev, p)"
    proof (cases ds)
      case Nil
      then have "d = NULL" using less.prems(3) by (simp add: ds_def)
      then show ?thesis by (subst list_Split_loop.simps) (simp add: list_Empty_def list_Nil_def)
    next
      case (Cons c cs)
      then have "cs = []" using True by simp
      then have "d \<noteq> NULL" "store h d = Some \<lparr>cdr = NULL, car = snd c\<rparr>"
        using sd Cons by (auto simp: seg_Cons_iff)
      then show ?thesis
        by (subst list_Split_loop.simps) (simp add: heap_simps)
    qed
    moreover have "(length us + 1 + length ps) div 2 = length us + 1" using True lds by simp
    ultimately show ?thesis using less.prems
      by (intro exI [of _ us] exI [of _ prev] exI [of _ v] exI [of _ p] exI [of _ ps]) simp
  next
    case False
    then obtain c1 c2 cs where ds: "ds = c1 # c2 # cs"
      by (metis One_nat_def le_SucI length_Cons list.exhaust list.size(3) not_less_eq_eq zero_le)
    then obtain d1 d2 where D: "d \<noteq> NULL" "store h d = Some \<lparr>cdr = d1, car = snd c1\<rparr>" "d1 \<noteq> NULL"
      "store h d1 = Some \<lparr>cdr = d2, car = snd c2\<rparr>" "seg s d2 cs NULL"
      using sd less.prems(5) by (auto simp: seg_Cons_iff)
    from lds obtain c ps1 where ps: "ps = c # ps1" by (cases ps) auto
    then obtain p1 where P: "p = fst c" "p \<noteq> NULL" "store h p = Some \<lparr>cdr = p1, car = snd c\<rparr>"
      "seg s p1 ps1 NULL" using less.prems(2,5) by (auto simp: seg_Cons_iff)
    let ?us = "us @ [(prev, v)]"
    have dr: "drop (length ?us + 1) ps1 = cs"
    proof -
      have "drop (length ?us + 1) ps1 = drop 2 ds" by (simp add: ds_def ps numeral_2_eq_2)
      then show ?thesis by (simp add: ds)
    qed
    have s1: "seg s L (?us @ [(p, snd c)]) p1"
      using less.prems(1,5) P by (auto simp: seg_append seg_Cons_iff)
    have l1: "length ?us + 1 \<le> length ps1" using lds ps ds by simp
    have m: "length ps1 - length ?us < length ps - length us" using l1 ps by simp
    from less.hyps [OF m s1 P(4) D(5)[folded dr] l1 less.prems(5)]
    obtain us' prev' v' p' ps' where IH: "list_Split_loop p p1 d2 h = Some (prev', p')"
      "?us @ [(p, snd c)] @ ps1 = us' @ [(prev', v')] @ ps'"
      "seg s L (us' @ [(prev', v')]) p'" "seg s p' ps' NULL"
      "length us' + 1 = (length ?us + 1 + length ps1) div 2"
      by (elim exE conjE)
    have "list_Split_loop prev p d h = Some (prev', p')"
      by (subst list_Split_loop.simps) (use D P IH(1) in \<open>simp add: heap_simps\<close>)
    moreover have "us @ [(prev, v)] @ ps = us' @ [(prev', v')] @ ps'"
      using IH(2) P(1) ps by simp
    ultimately show ?thesis using IH(3-5) ps
      by (intro exI [of _ us'] exI [of _ prev'] exI [of _ v'] exI [of _ p'] exI [of _ ps']) simp
  qed
qed

lemma list_Split_ok:
  assumes "wf_heap h" "seg (store h) p ps NULL"
  shows "\<exists>a b h'. list_Split p h = Some (a, b, h')
     \<and> seg (store h') a (take (length ps div 2) ps) NULL
     \<and> seg (store h') b (drop (length ps div 2) ps) NULL \<and> relinked (addrs ps) h h'"
proof -
  consider "length ps \<le> 1" | c1 c2 cs where "ps = c1 # c2 # cs"
    by (metis One_nat_def le_SucI length_Cons list.exhaust list.size(3) not_less_eq_eq zero_le)
  then show ?thesis
  proof cases
    case 1
    have "list_Split p h = Some (NULL, p, h)"
    proof (cases ps)
      case Nil
      then show ?thesis using assms by (simp add: list_Split_def list_Empty_def list_Nil_def)
    next
      case (Cons c cs)
      then show ?thesis using assms 1
        by (auto simp: list_Split_def seg_Cons_iff heap_simps list_Nil_def)
    qed
    moreover have "length ps div 2 = 0" using 1 by simp
    ultimately show ?thesis using assms relinked_refl [OF assms(1)] by simp
  next
    case 2
    with assms(2) obtain q r where P: "p = fst c1" "p \<noteq> NULL" "store h p = Some \<lparr>cdr = q, car = snd c1\<rparr>"
      "q \<noteq> NULL" "store h q = Some \<lparr>cdr = r, car = snd c2\<rparr>" "seg (store h) r cs NULL"
      "seg (store h) q (c2 # cs) NULL"
      by (auto simp: seg_Cons_iff)
    have "seg (store h) p ([] @ [(p, snd c1)]) q" "seg (store h) r (drop (length [] + 1) (c2 # cs)) NULL"
      using P by (simp_all add: seg_Cons_iff)
    from list_Split_loop_ok [OF this(1) P(7) this(2) _ refl] obtain us prev v b ps' where S:
      "list_Split_loop p q r h = Some (prev, b)" "[(p, snd c1)] @ c2 # cs = us @ [(prev, v)] @ ps'"
      "seg (store h) p (us @ [(prev, v)]) b" "seg (store h) b ps' NULL"
      "length us + 1 = (1 + length (c2 # cs)) div 2" by auto
    have ps: "ps = us @ [(prev, v)] @ ps'" using S(2) 2 P(1) by simp
    have n: "length ps div 2 = length us + 1" using S(5) 2 by simp
    have prev: "prev \<noteq> NULL" "store h prev = Some \<lparr>cdr = b, car = v\<rparr>"
      using S(3) by (auto simp: seg_append)
    define h' where "h' = h\<lparr>store := (store h)(prev \<mapsto> \<lparr>cdr = NULL, car = v\<rparr>)\<rparr>"
    have s': "store h' = (store h)(prev \<mapsto> \<lparr>cdr = NULL, car = v\<rparr>)" by (simp add: h'_def)
    have nin: "prev \<notin> addrs us" "prev \<notin> addrs ps'" using seg_distinct [OF assms(2)] ps by auto
    have "list_Split p h = Some (p, b, h')"
      using P S(1) prev by (simp add: list_Split_def heap_simps h'_def list_Nil_def)
    moreover have "relinked (addrs ps) h h'"
      unfolding h'_def by (rule relinked_upd [OF assms(1) prev(2)]) (simp add: ps)
    moreover have "seg (store h') p (us @ [(prev, v)]) NULL"
    proof -
      have "seg (store h) p us prev" using S(3) by (auto simp: seg_append)
      then have "seg (store h') p us prev" using nin(1) by (simp only: s' seg_upd not_False_eq_True)
      then show ?thesis using prev(1) by (simp add: seg_append s')
    qed
    moreover have "seg (store h') b ps' NULL"
      using S(4) nin(2) by (simp only: s' seg_upd not_False_eq_True)
    moreover have "take (length ps div 2) ps = us @ [(prev, v)]" "drop (length ps div 2) ps = ps'"
      by (simp_all add: n) (simp_all add: ps)
    ultimately show ?thesis by simp
  qed
qed

lemma list_MergeSort_ok:
  assumes "wf_heap h" "seg (store h) p ps NULL" "tests Test T (addrs ps) h (set (elems ps))"
  shows "\<exists>r h'. list_MergeSort p Test h = Some (r, h') \<and> seg (store h') r (nsort T ps) NULL
     \<and> relinked (addrs ps) h h'"
  using assms
proof (induction "length ps" arbitrary: p ps h rule: less_induct)
  case less
  show ?case
  proof (cases "length ps \<le> 1")
    case True
    have "list_MergeSort p Test h = Some (p, h)"
    proof (cases ps)
      case Nil
      then show ?thesis using less.prems by (subst list_MergeSort.simps) simp
    next
      case (Cons c cs)
      then show ?thesis using less.prems True
        by (subst list_MergeSort.simps) (auto simp: seg_Cons_iff heap_simps)
    qed
    then show ?thesis using less.prems True relinked_refl [OF less.prems(1)] by (simp add: nsort.simps)
  next
    case False
    let ?n = "length ps div 2"
    let ?l = "take ?n ps" and ?r = "drop ?n ps"
    from False obtain c d cs where ps: "ps = c # d # cs"
      by (metis One_nat_def le_SucI length_Cons list.exhaust list.size(3) not_less_eq_eq zero_le)
    with less.prems(2) obtain q where P: "p \<noteq> NULL" "store h p = Some \<lparr>cdr = q, car = snd c\<rparr>" "q \<noteq> NULL"
      by (auto simp: seg_Cons_iff)
    from list_Split_ok [OF less.prems(1,2)] obtain a b h1 where S: "list_Split p h = Some (a, b, h1)"
      "seg (store h1) a ?l NULL" "seg (store h1) b ?r NULL" "relinked (addrs ps) h h1" by (elim exE conjE)
    have sub: "addrs ?l \<subseteq> addrs ps" "addrs ?r \<subseteq> addrs ps" "set (elems ?l) \<subseteq> set (elems ps)"
      "set (elems ?r) \<subseteq> set (elems ps)"
      by (auto dest: in_set_takeD in_set_dropD)
    have len: "length ?l < length ps" "length ?r < length ps" using False by simp_all
    have un: "addrs ?l \<union> addrs ?r = addrs ps"
      by (metis append_take_drop_id image_Un set_append)
    have dj: "addrs ?l \<inter> addrs ?r = {}"
      using seg_distinct [OF less.prems(2)]
      by (metis append_take_drop_id distinct_append list.set_map map_append)
    note t1 = tests_agree [OF less.prems(3) relinked_agree [OF S(4)]]
    from less.hyps [OF len(1) relinked_wf [OF S(4)] S(2) tests_mono [OF t1 sub(1,3)]]
    obtain la h2 where L: "list_MergeSort a Test h1 = Some (la, h2)" "seg (store h2) la (nsort T ?l) NULL"
      "relinked (addrs ?l) h1 h2" by (elim exE conjE)
    have R2: "relinked (addrs ps) h h2" by (rule relinked_trans [OF S(4) L(3) order_refl sub(1)])
    note t2 = tests_agree [OF less.prems(3) relinked_agree [OF R2]]
    have "seg (store h2) b ?r NULL"
      by (rule seg_agree [OF relinked_agree [OF L(3)] _ S(3)]) (use dj in blast)
    from less.hyps [OF len(2) relinked_wf [OF L(3)] this tests_mono [OF t2 sub(2,4)]]
    obtain lb h3 where G: "list_MergeSort b Test h2 = Some (lb, h3)" "seg (store h3) lb (nsort T ?r) NULL"
      "relinked (addrs ?r) h2 h3" by (elim exE conjE)
    have R3: "relinked (addrs ps) h h3" by (rule relinked_trans [OF R2 G(3) order_refl sub(2)])
    note t3 = tests_agree [OF less.prems(3) relinked_agree [OF R3]]
    have sl: "seg (store h3) la (nsort T ?l) NULL"
      by (rule seg_agree [OF relinked_agree [OF G(3)] _ L(2)]) (use dj in \<open>simp only: set_nsort\<close>)
    have "addrs (nsort T ?l) \<inter> addrs (nsort T ?r) = {}" using dj by (simp only: set_nsort)
    moreover have "tests Test T (addrs (nsort T ?l) \<union> addrs (nsort T ?r)) h3
        (set (elems (nsort T ?l)) \<union> set (elems (nsort T ?r)))"
      by (rule tests_mono [OF t3]) (use sub in \<open>simp_all only: set_nsort list.set_map Un_least\<close>)
    ultimately obtain r h' where M: "list_Merge la lb Test h3 = Some (r, h')"
      "seg (store h') r (nmerge T (nsort T ?l) (nsort T ?r)) NULL"
      "relinked (addrs (nsort T ?l) \<union> addrs (nsort T ?r)) h3 h'"
      using list_Merge_ok [OF relinked_wf [OF G(3)] sl G(2)] by blast
    have "relinked (addrs ps) h h'"
      by (rule relinked_trans [OF R3 M(3) order_refl]) (simp only: set_nsort un order_refl)
    moreover have "list_MergeSort p Test h = Some (r, h')"
      by (subst list_MergeSort.simps) (use P S(1) L(1) G(1) M(1) in \<open>simp add: heap_simps\<close>)
    moreover have "nsort T ps = nmerge T (nsort T ?l) (nsort T ?r)"
      using False by (subst nsort.simps) simp
    ultimately show ?thesis using M(2) by (simp only:) blast
  qed
qed

text \<open>\<open>list_SortedInOrder\<close> compares neighbours only; for a transitive ordering that is enough.\<close>

lemma list_SortedInOrder_loop_ok:
  assumes "seg (store h) p (c # d # cs) NULL" "store h p = Some \<lparr>cdr = q, car = snd c\<rparr>"
    "tests Test T {} h (set (elems (c # d # cs)))"
  shows "list_SortedInOrder_loop p q Test h
    = Some (successively (leq T) (elems (c # d # cs)))"
  using assms
proof (induction cs arbitrary: c d p q)
  case Nil
  then obtain r where P: "p = fst c" "p \<noteq> NULL" "q \<noteq> NULL" "q = fst d"
    "store h q = Some \<lparr>cdr = NULL, car = snd d\<rparr>" by (auto simp: seg_Cons_iff)
  have "Test (snd c) (snd d) h = Some (T (snd c) (snd d))" "Test (snd d) (snd c) h = Some (T (snd d) (snd c))"
    by (rule tests_at [OF Nil(3)], auto)+
  then show ?case
    by (subst list_SortedInOrder_loop.simps) (use P Nil(2) in \<open>auto simp: heap_simps leq_def\<close>)
next
  case (Cons e cs)
  then obtain r where P: "p = fst c" "p \<noteq> NULL" "q \<noteq> NULL" "q = fst d" "r \<noteq> NULL"
    "store h q = Some \<lparr>cdr = r, car = snd d\<rparr>" "seg (store h) q (d # e # cs) NULL"
    by (auto simp: seg_Cons_iff)
  have "Test (snd c) (snd d) h = Some (T (snd c) (snd d))" "Test (snd d) (snd c) h = Some (T (snd d) (snd c))"
    by (rule tests_at [OF Cons(4)], auto)+
  moreover have "list_SortedInOrder_loop q r Test h = Some (successively (leq T) (elems (d # e # cs)))"
    by (rule Cons.IH [OF P(7,6) tests_mono [OF Cons(4)]]) auto
  ultimately show ?case
    by (subst list_SortedInOrder_loop.simps) (use P Cons(3) in \<open>auto simp: heap_simps leq_def\<close>)
qed

lemma successively_sorted:
  assumes "leq_trans_on T (set xs)"
  shows "successively (leq T) xs \<longleftrightarrow> sorted_wrt (leq T) xs"
  using assms
proof (induction xs)
  case (Cons x xs)
  show ?case
  proof (cases xs)
    case (Cons y ys)
    have "leq T x z" if "leq T x y" "z \<in> set ys" "sorted_wrt (leq T) xs" for z
      by (rule leq_trans_onD [OF Cons.prems that(1)]) (use that \<open>xs = y # ys\<close> in auto)
    moreover have "leq_trans_on T (set xs)" by (rule leq_trans_on_mono [OF Cons.prems]) auto
    ultimately show ?thesis using Cons.IH \<open>xs = y # ys\<close> by auto
  qed simp
qed simp

lemma list_SortedInOrder_ok:
  assumes "seg (store h) p ps NULL" "tests Test T {} h (set (elems ps))" "leq_trans_on T (set (elems ps))"
  shows "list_SortedInOrder p Test h = Some (sorted_wrt (leq T) (elems ps))"
proof -
  consider "ps = []" | c where "ps = [c]" | c d cs where "ps = c # d # cs"
    by (metis list.exhaust)
  then have "list_SortedInOrder p Test h = Some (successively (leq T) (elems ps))"
  proof cases
    case 3
    with assms(1) obtain q where P: "p \<noteq> NULL" "store h p = Some \<lparr>cdr = q, car = snd c\<rparr>" "q \<noteq> NULL"
      by (auto simp: seg_Cons_iff)
    then show ?thesis using list_SortedInOrder_loop_ok [OF assms(1)[unfolded 3] P(2) assms(2)[unfolded 3]] 3
      by (simp add: list_SortedInOrder_def heap_simps)
  qed (use assms(1) in \<open>auto simp: list_SortedInOrder_def seg_Cons_iff heap_simps\<close>)
  then show ?thesis using successively_sorted [OF assms(3)] by simp
qed

section \<open>The exchange sort\<close>

fun xpass :: "(ptr \<Rightarrow> ptr \<Rightarrow> bool) \<Rightarrow> ptr \<Rightarrow> ptr list \<Rightarrow> ptr \<times> ptr list" where
  "xpass T m [] = (m, [])"
| "xpass T m (y # ys) =
     (if T y m then (fst (xpass T y ys), m # snd (xpass T y ys))
      else (fst (xpass T m ys), y # snd (xpass T m ys)))"

lemma length_xpass [simp]: "length (snd (xpass T m ys)) = length ys"
  by (induction T m ys rule: xpass.induct) auto

lemma mset_xpass: "add_mset (fst (xpass T m ys)) (mset (snd (xpass T m ys))) = add_mset m (mset ys)"
proof (induction T m ys rule: xpass.induct)
  case (2 T m y ys)
  show ?case
  proof (cases "T y m")
    case True
    then show ?thesis using 2(1) [OF True] True by (simp add: add_mset_commute [of _ m])
  next
    case False
    then show ?thesis using 2(3) [OF False] False by (simp add: add_mset_commute [of _ y])
  qed
qed simp

lemma set_xpass: "insert (fst (xpass T m ys)) (set (snd (xpass T m ys))) = insert m (set ys)"
  using arg_cong [OF mset_xpass [of T m ys], of set_mset] by simp

function xsort :: "(ptr \<Rightarrow> ptr \<Rightarrow> bool) \<Rightarrow> ptr list \<Rightarrow> ptr list" where
  "xsort T [] = []"
| "xsort T (x # xs) = fst (xpass T x xs) # xsort T (snd (xpass T x xs))"
  by pat_completeness auto
termination by (relation "measure (\<lambda>(T, xs). length xs)") auto

lemma mset_xsort [simp]: "mset (xsort T xs) = mset xs"
  by (induction T xs rule: xsort.induct) (simp_all add: mset_xpass)

lemma length_xsort [simp]: "length (xsort T xs) = length xs"
  by (metis mset_xsort size_mset)

lemma set_xsort: "set (xsort T xs) = set xs"
  by (metis mset_xsort set_mset_mset)

lemma xpass_least:
  assumes "leq_trans_on T X" "m \<in> X" "set ys \<subseteq> X"
  shows "leq T (fst (xpass T m ys)) m \<and> (\<forall>y \<in> set ys. leq T (fst (xpass T m ys)) y)"
  using assms(2,3)
proof (induction ys arbitrary: m)
  case Nil
  then show ?case by (simp add: leq_def)
next
  case (Cons y ys)
  let ?f = "\<lambda>m. fst (xpass T m ys)"
  have y: "y \<in> X" "set ys \<subseteq> X" using Cons.prems by auto
  have inX: "?f z \<in> X" if "z \<in> X" for z
  proof -
    have "?f z \<in> insert z (set ys)" using set_xpass [of T z ys] by blast
    then show ?thesis using that y(2) by auto
  qed
  show ?case
  proof (cases "T y m")
    case True
    note I = Cons.IH [OF y]
    have "leq T y m" using True by (simp add: leq_def)
    with I have "leq T (?f y) m"
      by (intro leq_trans_onD [OF assms(1), of "?f y" y m]) (use inX y(1) Cons.prems(1) in auto)
    then show ?thesis using I True by simp
  next
    case False
    note I = Cons.IH [OF Cons.prems(1) y(2)]
    have "leq T m y" using False by (rule leq_total)
    with I have "leq T (?f m) y"
      by (intro leq_trans_onD [OF assms(1), of "?f m" m y]) (use inX y(1) Cons.prems(1) in auto)
    then show ?thesis using I False by simp
  qed
qed

lemma sorted_xsort:
  assumes "leq_trans_on T X" "set xs \<subseteq> X"
  shows "sorted_wrt (leq T) (xsort T xs)"
  using assms
proof (induction T xs rule: xsort.induct)
  case (2 T x xs)
  have "set (snd (xpass T x xs)) \<subseteq> insert x (set xs)" using set_xpass [of T x xs] by blast
  moreover have "leq T (fst (xpass T x xs)) y" if "y \<in> set (snd (xpass T x xs))" for y
    using xpass_least [OF 2(2), of x xs] 2(3) that calculation by auto
  ultimately show ?case using 2 by (auto simp: set_xsort)
qed simp

lemma insertion_inner_ok:
  assumes "wf_heap h" "store h m = Some \<lparr>cdr = q0, car = v\<rparr>" "m \<noteq> NULL" "seg (store h) q ps NULL"
    "m \<notin> addrs ps" "tests Test T (insert m (addrs ps)) h (insert v (set (elems ps)))"
  shows "\<exists>h'. insertion_inner m q Test h = Some h'
     \<and> store h' m = Some \<lparr>cdr = q0, car = fst (xpass T v (elems ps))\<rparr>
     \<and> seg (store h') q (zip (map fst ps) (snd (xpass T v (elems ps)))) NULL
     \<and> relinked (insert m (addrs ps)) h h'"
  using assms
proof (induction ps arbitrary: v q h)
  case Nil
  then show ?case using relinked_refl [OF Nil(1)] by (subst insertion_inner.simps) auto
next
  case (Cons c ps)
  obtain a x where c: "c = (a, x)" by (cases c)
  with Cons.prems obtain r where a: "q = a" "a \<noteq> NULL" "store h a = Some \<lparr>cdr = r, car = x\<rparr>"
    "seg (store h) r ps NULL" by auto
  have nin: "a \<notin> addrs ps" "m \<notin> addrs ps" "m \<noteq> a" "a \<noteq> m"
    using seg_distinct [OF Cons.prems(4)] Cons.prems(5) c by auto
  have T: "Test x v h = Some (T x v)" by (rule tests_at [OF Cons.prems(6)]) (auto simp: c)
  show ?case
  proof (cases "T x v")
    case False
    have t: "tests Test T (insert m (addrs ps)) h (insert v (set (elems ps)))"
      by (rule tests_mono [OF Cons.prems(6)]) (auto simp: c)
    from Cons.IH [OF Cons.prems(1-3) a(4) nin(2) t]
    obtain h' where IH: "insertion_inner m r Test h = Some h'"
      "store h' m = Some \<lparr>cdr = q0, car = fst (xpass T v (elems ps))\<rparr>"
      "seg (store h') r (zip (map fst ps) (snd (xpass T v (elems ps)))) NULL"
      "relinked (insert m (addrs ps)) h h'" by (elim exE conjE)
    have "insertion_inner m q Test h = Some h'"
      by (subst insertion_inner.simps) (use a T False IH(1) Cons.prems(2,3) in \<open>simp add: heap_simps\<close>)
    moreover have "store h' a = Some \<lparr>cdr = r, car = x\<rparr>"
      using relinked_agree [OF IH(4)] a(3) nin by (simp add: agree_def)
    moreover have "relinked (insert m (addrs (c # ps))) h h'"
      by (rule relinked_trans [OF IH(4) relinked_refl [OF relinked_wf [OF IH(4)], of "{}"]]) auto
    ultimately show ?thesis using IH(2,3) a(1,2) False c by auto
  next
    case True
    define h1 where "h1 = h\<lparr>store := (store h)(m \<mapsto> \<lparr>cdr = q0, car = x\<rparr>)\<rparr>"
    have s1: "store h1 = (store h)(m \<mapsto> \<lparr>cdr = q0, car = x\<rparr>)" by (simp add: h1_def)
    have R1: "relinked {m} h h1" unfolding h1_def by (rule relinked_upd [OF Cons.prems(1,2)]) simp
    have a1: "store h1 a = Some \<lparr>cdr = r, car = x\<rparr>" using a(3) nin by (simp add: s1)
    define h2 where "h2 = h1\<lparr>store := (store h1)(a \<mapsto> \<lparr>cdr = r, car = v\<rparr>)\<rparr>"
    have s2: "store h2 = (store h)(m \<mapsto> \<lparr>cdr = q0, car = x\<rparr>, a \<mapsto> \<lparr>cdr = r, car = v\<rparr>)"
      by (simp add: h2_def s1)
    have "relinked {a} h1 h2" unfolding h2_def by (rule relinked_upd [OF relinked_wf [OF R1] a1]) simp
    then have R2: "relinked {m, a} h h2" by (rule relinked_trans [OF R1]) auto
    have m2: "store h2 m = Some \<lparr>cdr = q0, car = x\<rparr>" using nin by (simp add: s2)
    have "seg (store h2) r ps NULL" using a(4) nin by (simp only: s2 seg_upd not_False_eq_True)
    moreover have "tests Test T (insert m (addrs ps)) h2 (insert x (set (elems ps)))"
      by (rule tests_mono [OF tests_agree [OF Cons.prems(6) agree_mono [OF relinked_agree [OF R2]]]])
        (auto simp: c)
    ultimately obtain h' where IH: "insertion_inner m r Test h2 = Some h'"
      "store h' m = Some \<lparr>cdr = q0, car = fst (xpass T x (elems ps))\<rparr>"
      "seg (store h') r (zip (map fst ps) (snd (xpass T x (elems ps)))) NULL"
      "relinked (insert m (addrs ps)) h2 h'"
      using Cons.IH [OF relinked_wf [OF R2] m2 Cons.prems(3) _ nin(2)] by blast
    have e: "list_Rplaca m x h = Some h1" "list_Rplaca a v h1 = Some h2" "list_Cdr a h2 = Some r"
      using Cons.prems(2,3) a(2) a1 by (simp_all add: heap_simps h1_def h2_def)
    have "insertion_inner m q Test h = Some h'"
      by (subst insertion_inner.simps) (use a T True IH(1) Cons.prems(2,3) e in \<open>simp add: heap_simps\<close>)
    moreover have "store h' a = Some \<lparr>cdr = r, car = v\<rparr>"
      using relinked_agree [OF IH(4)] nin by (simp add: agree_def s2)
    moreover have "relinked (insert m (addrs (c # ps))) h h'"
      by (rule relinked_trans [OF R2 IH(4)]) (auto simp: c)
    ultimately show ?thesis using IH(2,3) a(1,2) True c by auto
  qed
qed

lemma insertion_outer_ok:
  assumes "wf_heap h" "seg (store h) p ps NULL" "tests Test T (addrs ps) h (set (elems ps))"
  shows "\<exists>h'. insertion_outer p Test h = Some h'
     \<and> seg (store h') p (zip (map fst ps) (xsort T (elems ps))) NULL \<and> relinked (addrs ps) h h'"
  using assms
proof (induction "length ps" arbitrary: p ps h rule: less_induct)
  case less
  show ?case
  proof (cases ps)
    case Nil
    then show ?thesis using less.prems relinked_refl [OF less.prems(1)]
      by (subst insertion_outer.simps) auto
  next
    case (Cons c qs)
    obtain a x where c: "c = (a, x)" by (cases c)
    with less.prems(2) Cons obtain r where a: "p = a" "a \<noteq> NULL" "store h a = Some \<lparr>cdr = r, car = x\<rparr>"
      "seg (store h) r qs NULL" by auto
    have nin: "a \<notin> addrs qs" using seg_distinct [OF less.prems(2)] Cons c by auto
    have t: "tests Test T (insert a (addrs qs)) h (insert x (set (elems qs)))"
      by (rule tests_mono [OF less.prems(3)]) (auto simp: Cons c)
    let ?ys = "snd (xpass T x (elems qs))" and ?m = "fst (xpass T x (elems qs))"
    let ?qs = "zip (map fst qs) ?ys"
    from insertion_inner_ok [OF less.prems(1) a(3,2,4) nin t] obtain h1 where
      I: "insertion_inner a r Test h = Some h1" "store h1 a = Some \<lparr>cdr = r, car = ?m\<rparr>"
        "seg (store h1) r ?qs NULL" "relinked (insert a (addrs qs)) h h1" by (elim exE conjE)
    have q: "map fst ?qs = map fst qs" "elems ?qs = ?ys" "length ?qs < length ps"
      by (simp_all add: Cons)
    have ad: "addrs ?qs = addrs qs" by (metis list.set_map q(1))
    have sub: "set ?ys \<subseteq> set (elems ps)" using set_xpass [of T x "elems qs"] Cons c by auto
    have ps: "insert a (addrs qs) = addrs ps" by (simp add: Cons c)
    have "tests Test T (addrs ?qs) h1 (set (elems ?qs))"
      unfolding ad q(2)
      by (rule tests_mono [OF tests_agree [OF less.prems(3) relinked_agree [OF I(4)[unfolded ps]]] _ sub])
        (use ps in auto)
    from less.hyps [OF q(3) relinked_wf [OF I(4)] I(3) this]
    obtain h' where O: "insertion_outer r Test h1 = Some h'"
      "seg (store h') r (zip (map fst qs) (xsort T ?ys)) NULL" "relinked (addrs qs) h1 h'"
      unfolding q(1,2) ad by (elim exE conjE)
    have "store h' a = Some \<lparr>cdr = r, car = ?m\<rparr>"
      using relinked_agree [OF O(3)] nin I(2) by (simp add: agree_def)
    moreover have "insertion_outer p Test h = Some h'"
      by (subst insertion_outer.simps) (use a I(1,2) O(1) in \<open>simp add: heap_simps\<close>)
    moreover have "relinked (addrs ps) h h'"
      by (rule relinked_trans [OF I(4) O(3)]) (use ps in auto)
    ultimately show ?thesis using O(2) a(1,2) by (simp add: Cons c)
  qed
qed

section \<open>Sorting by pointer value and by number\<close>

lemma list_PointerLower_leq: "leq (\<lambda>x y. (of_nat x :: NAT) < of_nat y) x y \<longleftrightarrow> (of_nat x :: NAT) \<le> of_nat y"
  by (auto simp: leq_def)

lemma leq_less: "leq (\<lambda>x y. (N x :: NAT) < N y) = (\<lambda>x y. N x \<le> N y)"
  by (auto simp: leq_def fun_eq_iff)

lemma leq_le: "leq (\<lambda>x y. (N x :: NAT) \<le> N y) = (\<lambda>x y. N x \<le> N y)"
  by (auto simp: leq_def fun_eq_iff)

lemma leq_greater: "leq (\<lambda>x y. (N x :: NAT) > N y) = (\<lambda>x y. N x \<ge> N y)"
  by (auto simp: leq_def fun_eq_iff)

lemma leq_trans_number:
  "leq_trans_on (\<lambda>x y. (N x :: NAT) < N y) X" "leq_trans_on (\<lambda>x y. (N x :: NAT) \<le> N y) X"
  "leq_trans_on (\<lambda>x y. (N x :: NAT) > N y) X"
  unfolding leq_trans_on_def leq_less leq_le leq_greater by auto

text \<open>\<open>numbers Num N A h X\<close>: the numbering gives \<open>N\<close> on the elements \<open>X\<close> while at most \<open>A\<close> changes.\<close>

definition numbers :: "number_fun \<Rightarrow> (ptr \<Rightarrow> NAT) \<Rightarrow> ptr set \<Rightarrow> heap \<Rightarrow> ptr set \<Rightarrow> bool" where
  "numbers Num N A h X \<longleftrightarrow> (\<forall>x \<in> X. \<forall>h'. agree A h h' \<longrightarrow> Num x h' = Some (N x))"

lemma numbers_pure [simp]: "numbers (\<lambda>x h. Some (N x)) N A h X"
  by (simp add: numbers_def)

lemma numbers_tests:
  assumes "numbers Num N A h X"
  shows "tests (list_PointerNumberedLower Num) (\<lambda>x y. N x < N y) A h X"
    "tests (list_PointerNumberedLowerOrEqual Num) (\<lambda>x y. N x \<le> N y) A h X"
    "tests (list_PointerNumberedGreater Num) (\<lambda>x y. N x > N y) A h X"
  using assms
  by (simp_all add: numbers_def tests_def test_ok_def decides_def list_PointerNumberedLower_def
      list_PointerNumberedLowerOrEqual_def list_PointerNumberedGreater_def)

lemma tests_PointerLower: "tests list_PointerLower (\<lambda>x y. (of_nat x :: NAT) < of_nat y) A h X"
  by (simp add: tests_def test_ok_def decides_def list_PointerLower_def)

end
