(* ===== verification/Spass_List_Properties.thy ===== *)
theory Spass_List_Properties
  imports Spass_List_Sort
begin

text \<open>
  The correctness properties of the list module and of its allocator, each with an application
  to a concrete heap. A list is the sequence of its nodes, pairs of an address and an element;
  \<open>seg s p ps NULL\<close> says that the pointer \<open>p\<close> denotes the list with the nodes \<open>ps\<close>.
\<close>

section \<open>A concrete heap\<close>

text \<open>Two lists: \<open>30, 10, 20\<close> at address 1 and \<open>10, 40\<close> at address 4; block 6 was freed before.\<close>

definition sample_heap :: heap where
  "sample_heap = \<lparr>store = [1 \<mapsto> \<lparr>cdr = 2, car = 30\<rparr>, 2 \<mapsto> \<lparr>cdr = 3, car = 10\<rparr>, 3 \<mapsto> \<lparr>cdr = 0, car = 20\<rparr>,
      4 \<mapsto> \<lparr>cdr = 5, car = 10\<rparr>, 5 \<mapsto> \<lparr>cdr = 0, car = 40\<rparr>], free_blocks = [6], next_block = 7\<rparr>"

abbreviation sample1 :: nodes where "sample1 \<equiv> [(1, 30), (2, 10), (3, 20)]"
abbreviation sample2 :: nodes where "sample2 \<equiv> [(4, 10), (5, 40)]"

lemma wf_sample: "wf_heap sample_heap"
  by (simp add: wf_heap_def sample_heap_def)

lemma seg_sample1: "seg (store sample_heap) 1 sample1 NULL"
  by (simp add: sample_heap_def)

lemma seg_sample2: "seg (store sample_heap) 4 sample2 NULL"
  by (simp add: sample_heap_def)

lemma leq_trans_nat: "leq_trans_on (<) X"
  by (auto simp: leq_trans_on_def leq_def)

section \<open>Sorting\<close>

text \<open>C34: \<open>list_Sort\<close> (merge sort) terminates on every list for every test that returns and does not change the list;
  the result consists of exactly the nodes of the argument: every element is kept with its node, nothing
  is allocated or freed, and no other node changes. If the relation "not strictly greater" of the test is
  transitive on the elements, the result is sorted by it.\<close>

theorem list_Sort_correct:
  assumes "wf_heap h" "seg (store h) p ps NULL" "tests Test T (addrs ps) h (set (elems ps))"
  shows "\<exists>r h' qs. list_Sort p Test h = Some (r, h') \<and> seg (store h') r qs NULL
     \<and> mset qs = mset ps \<and> relinked (addrs ps) h h'
     \<and> (leq_trans_on T (set (elems ps)) \<longrightarrow> sorted_wrt (leq T) (elems qs))"
proof -
  from list_MergeSort_ok [OF assms] obtain r h' where
    "list_MergeSort p Test h = Some (r, h')" "seg (store h') r (nsort T ps) NULL"
    "relinked (addrs ps) h h'" by (elim exE conjE)
  then show ?thesis using sorted_nsort [OF _ order_refl, of T ps] mset_nsort
    by (intro exI [of _ r] exI [of _ h'] exI [of _ "nsort T ps"]) (simp add: list_Sort_def)
qed

theorem list_Sort_correct_witness:
  "\<exists>r h' qs. list_Sort 1 (\<lambda>x y h. Some (x < y)) sample_heap = Some (r, h') \<and> seg (store h') r qs NULL
     \<and> sorted_wrt (leq (<)) (elems qs) \<and> mset qs = mset sample1
     \<and> relinked (addrs sample1) sample_heap h'"
  using list_Sort_correct [OF wf_sample seg_sample1 tests_pure] leq_trans_nat by blast

text \<open>\<open>list_NumberSort\<close> and \<open>list_GreaterNumberSort\<close> sort in ascending and descending order of
  the numbers that the numbering function gives to the elements, compared as unsigned machine
  integers, and leave that function in \<open>NumberFunction\<close>.\<close>

theorem list_NumberSort_correct:
  assumes "wf_heap h" "seg (store h) p ps NULL" "numbers Num N (addrs ps) h (set (elems ps))"
  shows "(\<exists>r h' qs. list_NumberSort p Num h = Some (r, Num, h') \<and> seg (store h') r qs NULL
       \<and> sorted_wrt (\<lambda>x y. N x \<le> N y) (elems qs) \<and> mset qs = mset ps \<and> relinked (addrs ps) h h')
    \<and> (\<exists>r h' qs. list_GreaterNumberSort p Num h = Some (r, Num, h') \<and> seg (store h') r qs NULL
       \<and> sorted_wrt (\<lambda>x y. N x \<ge> N y) (elems qs) \<and> mset qs = mset ps \<and> relinked (addrs ps) h h')"
proof (intro conjI)
  from list_MergeSort_ok [OF assms(1,2) numbers_tests(1) [OF assms(3)]] obtain r h' where
    "list_MergeSort p (list_PointerNumberedLower Num) h = Some (r, h')"
    "seg (store h') r (nsort (\<lambda>x y. N x < N y) ps) NULL" "relinked (addrs ps) h h'" by (elim exE conjE)
  then show "\<exists>r h' qs. list_NumberSort p Num h = Some (r, Num, h') \<and> seg (store h') r qs NULL
     \<and> sorted_wrt (\<lambda>x y. N x \<le> N y) (elems qs) \<and> mset qs = mset ps \<and> relinked (addrs ps) h h'"
    using sorted_nsort [OF leq_trans_number(1) order_refl, of N ps] mset_nsort
    by (intro exI [of _ r] exI [of _ h'] exI [of _ "nsort (\<lambda>x y. N x < N y) ps"])
      (simp add: list_NumberSort_def list_Sort_def leq_less)
next
  from list_MergeSort_ok [OF assms(1,2) numbers_tests(3) [OF assms(3)]] obtain r h' where
    "list_MergeSort p (list_PointerNumberedGreater Num) h = Some (r, h')"
    "seg (store h') r (nsort (\<lambda>x y. N x > N y) ps) NULL" "relinked (addrs ps) h h'" by (elim exE conjE)
  then show "\<exists>r h' qs. list_GreaterNumberSort p Num h = Some (r, Num, h') \<and> seg (store h') r qs NULL
     \<and> sorted_wrt (\<lambda>x y. N x \<ge> N y) (elems qs) \<and> mset qs = mset ps \<and> relinked (addrs ps) h h'"
    using sorted_nsort [OF leq_trans_number(3) order_refl, of N ps] mset_nsort
    by (intro exI [of _ r] exI [of _ h'] exI [of _ "nsort (\<lambda>x y. N x > N y) ps"])
      (simp add: list_GreaterNumberSort_def list_Sort_def leq_greater)
qed

theorem list_NumberSort_correct_witness:
  "\<exists>r h' qs. list_NumberSort 1 (\<lambda>x h. Some (of_nat x)) sample_heap = Some (r, (\<lambda>x h. Some (of_nat x)), h')
     \<and> seg (store h') r qs NULL \<and> sorted_wrt (\<lambda>x y. (of_nat x :: NAT) \<le> of_nat y) (elems qs)
     \<and> mset qs = mset sample1 \<and> relinked (addrs sample1) sample_heap h'"
  by (rule list_NumberSort_correct [THEN conjunct1, OF wf_sample seg_sample1 numbers_pure])

text \<open>\<open>list_PointerSort\<close> sorts by the low 32 bits of the pointers, which is what the cast to
  \<open>NAT\<close> in \<open>list_PointerLower\<close> keeps: pointers below \<open>2 ^ 32\<close> end up sorted, and two pointers that
  differ by a multiple of \<open>2 ^ 32\<close> are not ordered at all.\<close>

theorem list_PointerSort_correct:
  assumes "wf_heap h" "seg (store h) p ps NULL"
  shows "\<exists>r h' qs. list_PointerSort p h = Some (r, h') \<and> seg (store h') r qs NULL \<and> mset qs = mset ps
     \<and> sorted_wrt (\<lambda>x y. x mod 2 ^ 32 \<le> y mod 2 ^ 32) (elems qs) \<and> relinked (addrs ps) h h'"
proof -
  let ?T = "\<lambda>x y. (of_nat x :: NAT) < of_nat y"
  have le: "leq ?T = (\<lambda>x y. x mod 2 ^ 32 \<le> y mod 2 ^ 32)"
    by (simp add: leq_less word_le_nat_alt unat_of_nat fun_eq_iff)
  from list_MergeSort_ok [OF assms tests_PointerLower] obtain r h' where
    "list_MergeSort p list_PointerLower h = Some (r, h')" "seg (store h') r (nsort ?T ps) NULL"
    "relinked (addrs ps) h h'" by (elim exE conjE)
  then show ?thesis
    using sorted_nsort [OF leq_trans_number(1) order_refl, of of_nat ps, unfolded le] mset_nsort
    by (intro exI [of _ r] exI [of _ h'] exI [of _ "nsort ?T ps"])
      (simp only: list_PointerSort_def list_Sort_def simp_thms)
qed

theorem list_PointerSort_correct_witness:
  "\<exists>r h' qs. list_PointerSort 1 sample_heap = Some (r, h') \<and> seg (store h') r qs NULL
     \<and> mset qs = mset sample1
     \<and> sorted_wrt (\<lambda>x y. x mod 2 ^ 32 \<le> y mod 2 ^ 32) (elems qs)
     \<and> relinked (addrs sample1) sample_heap h'"
  by (rule list_PointerSort_correct [OF wf_sample seg_sample1])

text \<open>\<open>list_InsertionSort\<close> sorts in place: it returns the same pointer, the nodes keep their
  addresses and their order, only their contents are permuted.\<close>

theorem list_InsertionSort_correct:
  assumes "wf_heap h" "seg (store h) p ps NULL" "tests Test T (addrs ps) h (set (elems ps))"
    "leq_trans_on T (set (elems ps))"
  shows "\<exists>h' qs. list_InsertionSort p Test h = Some (p, h') \<and> seg (store h') p qs NULL
     \<and> map fst qs = map fst ps \<and> mset (elems qs) = mset (elems ps)
     \<and> sorted_wrt (leq T) (elems qs) \<and> relinked (addrs ps) h h'"
proof -
  from insertion_outer_ok [OF assms(1-3)] obtain h' where O: "insertion_outer p Test h = Some h'"
    "seg (store h') p (zip (map fst ps) (xsort T (elems ps))) NULL" "relinked (addrs ps) h h'"
    by (elim exE conjE)
  have "elems (zip (map fst ps) (xsort T (elems ps))) = xsort T (elems ps)"
    "map fst (zip (map fst ps) (xsort T (elems ps))) = map fst ps" by simp_all
  then show ?thesis using O sorted_xsort [OF assms(4) order_refl] mset_xsort
    by (intro exI [of _ h'] exI [of _ "zip (map fst ps) (xsort T (elems ps))"])
      (simp only: list_InsertionSort_def Option.bind.simps simp_thms)
qed

theorem list_InsertionSort_correct_witness:
  "\<exists>h' qs. list_InsertionSort 1 (\<lambda>x y h. Some (x < y)) sample_heap = Some (1, h') \<and> seg (store h') 1 qs NULL
     \<and> map fst qs = map fst sample1 \<and> mset (elems qs) = mset (elems sample1)
     \<and> sorted_wrt (leq (<)) (elems qs) \<and> relinked (addrs sample1) sample_heap h'"
  by (rule list_InsertionSort_correct [OF wf_sample seg_sample1 tests_pure leq_trans_nat])

text \<open>\<open>list_SortedInOrder\<close> compares neighbours only, yet decides sortedness of the whole list
  whenever "not strictly greater" is transitive on its elements.\<close>

theorem list_SortedInOrder_correct:
  assumes "seg (store h) p ps NULL" "tests Test T {} h (set (elems ps))" "leq_trans_on T (set (elems ps))"
  shows "list_SortedInOrder p Test h = Some (sorted_wrt (leq T) (elems ps))"
  by (rule list_SortedInOrder_ok [OF assms])

theorem list_SortedInOrder_correct_witness:
  "list_SortedInOrder 1 (\<lambda>x y h. Some (x < y)) sample_heap = Some (sorted_wrt (leq (<)) (elems sample1))"
  by (rule list_SortedInOrder_correct [OF seg_sample1 tests_pure leq_trans_nat])

section \<open>Copying and reversal\<close>

text \<open>\<open>list_Copy\<close> returns a list with the same elements in nodes that were not in use before,
  and changes no node that was.\<close>

theorem list_Copy_correct:
  assumes "wf_heap h" "seg (store h) p ps NULL"
  shows "\<exists>p' h' qs. list_Copy p h = Some (p', h') \<and> wf_heap h' \<and> seg (store h') p' qs NULL
     \<and> elems qs = elems ps \<and> addrs qs \<inter> dom (store h) = {} \<and> frame {} h h' \<and> seg (store h') p ps NULL"
proof -
  from list_Copy_ok [OF assms] obtain p' h' qs where C: "list_Copy p h = Some (p', h')" "wf_heap h'"
    "seg (store h') p' qs NULL" "elems qs = elems ps" "frame {} h h'" "addrs qs \<inter> dom (store h) = {}"
    by (elim exE conjE)
  moreover have "seg (store h') p ps NULL" by (rule seg_frame [OF C(5) _ assms(2)]) simp
  ultimately show ?thesis by (intro exI conjI)
qed

theorem list_Copy_correct_witness:
  "\<exists>p' h' qs. list_Copy 1 sample_heap = Some (p', h') \<and> wf_heap h' \<and> seg (store h') p' qs NULL
     \<and> elems qs = elems sample1 \<and> addrs qs \<inter> dom (store sample_heap) = {} \<and> frame {} sample_heap h'
     \<and> seg (store h') 1 sample1 NULL"
  by (rule list_Copy_correct [OF wf_sample seg_sample1])

text \<open>\<open>list_NReverse\<close> reverses the elements and keeps the pointer of the list, so that every
  alias of it now denotes the reversed list.\<close>

theorem list_NReverse_correct:
  assumes "wf_heap h" "seg (store h) p ps NULL"
  shows "\<exists>h' qs. list_NReverse p h = Some (p, h') \<and> wf_heap h' \<and> seg (store h') p qs NULL
     \<and> elems qs = rev (elems ps) \<and> frame (addrs ps) h h'"
  by (rule list_NReverse_ok [OF assms])

theorem list_NReverse_correct_witness:
  "\<exists>h' qs. list_NReverse 1 sample_heap = Some (1, h') \<and> wf_heap h' \<and> seg (store h') 1 qs NULL
     \<and> elems qs = rev (elems sample1) \<and> frame (addrs sample1) sample_heap h'"
  by (rule list_NReverse_correct [OF wf_sample seg_sample1])

section \<open>Deletion\<close>

text \<open>\<open>list_DeleteElement\<close> keeps exactly the nodes whose elements the test does not match, in
  order, frees all the others (no leak) and changes nothing outside the list.\<close>

theorem list_DeleteElement_correct:
  assumes "wf_heap h" "seg (store h) p ps NULL" "test_ok (Test e) Q (addrs ps) h (set (elems ps))"
  shows "\<exists>p' h'. list_DeleteElement p e Test h = Some (p', h') \<and> wf_heap h'
     \<and> seg (store h') p' (filter (\<lambda>c. \<not> Q (snd c)) ps) NULL \<and> agree (addrs ps) h h'
     \<and> (\<forall>a \<in> addrs ps - addrs (filter (\<lambda>c. \<not> Q (snd c)) ps). store h' a = None)"
  using list_DeleteElement_ok [OF assms(1,2)] assms(3) by (simp add: left_with_def)

theorem list_DeleteElement_correct_witness:
  "\<exists>p' h'. list_DeleteElement 1 10 pointer_eq sample_heap = Some (p', h') \<and> wf_heap h'
     \<and> seg (store h') p' [(1, 30), (3, 20)] NULL \<and> agree (addrs sample1) sample_heap h'
     \<and> (\<forall>a \<in> addrs sample1 - addrs [(1, 30), (3, 20)]. store h' a = None)"
  using list_DeleteElement_correct [where Test = pointer_eq and e = 10 and Q = "(=) 10",
    OF wf_sample seg_sample1 test_ok_pointer_eq] by simp

text \<open>\<open>list_DeleteFromList\<close> deletes every occurrence of a pointer and \<open>list_DeleteOneFromList\<close>
  the first one; both return whether the pointer occurred, and free exactly the deleted nodes.\<close>

theorem list_DeleteFromList_correct:
  assumes "wf_heap h" "seg (store h) p ps NULL"
  shows "(\<exists>r. list_DeleteFromList p e h = Some (e \<in> set (elems ps), r)
       \<and> left_with ps (filter (\<lambda>c. e \<noteq> snd c) ps) (addrs ps) h (Some r))
    \<and> (\<exists>r. list_DeleteOneFromList p e h = Some (e \<in> set (elems ps), r)
       \<and> left_with ps (delete_first (\<lambda>c. e = snd c) ps) (addrs ps) h (Some r))"
  using list_DeleteFromList_ok [OF assms] list_DeleteOneFromList_ok [OF assms] by (rule conjI)

theorem list_DeleteFromList_correct_witness:
  "\<exists>r. list_DeleteFromList 1 10 sample_heap = Some (True, r)
     \<and> left_with sample1 [(1, 30), (3, 20)] (addrs sample1) sample_heap (Some r)"
  using list_DeleteFromList_correct [OF wf_sample seg_sample1, of 10] by simp

text \<open>\<open>list_DeleteWithElement\<close> frees all nodes of the list and runs the callback once on each
  element, in order; \<open>list_DeleteWithElementCount\<close> does the same and returns the number of
  elements. The elements' memory must be disjoint from the nodes and from each other.\<close>

theorem list_DeleteWithElement_correct:
  assumes "wf_heap h" "seg (store h) p ps NULL" "proc_ok D R h (elems ps)"
    "addrs ps \<inter> regs R (elems ps) = {}"
  shows "\<exists>h'. list_DeleteWithElement p D h = Some h'
     \<and> list_DeleteWithElementCount p D h = Some (of_nat (length ps), h')
     \<and> wf_heap h' \<and> agree (addrs ps \<union> regs R (elems ps)) h h' \<and> (\<forall>a \<in> addrs ps. store h' a = None)"
  using list_DeleteWithElement_ok [OF assms, of 0] by (simp add: list_DeleteWithElementCount_def)

theorem list_DeleteWithElement_correct_witness:
  "\<exists>h'. list_DeleteWithElement 1 skip_elem sample_heap = Some h'
     \<and> list_DeleteWithElementCount 1 skip_elem sample_heap = Some (3, h')
     \<and> wf_heap h' \<and> agree (addrs sample1) sample_heap h' \<and> (\<forall>a \<in> addrs sample1. store h' a = None)"
  using list_DeleteWithElement_correct [OF wf_sample seg_sample1 proc_ok_skip] by simp

section \<open>Sets and multisets\<close>

text \<open>\<open>list_DeleteDuplicates\<close>, for a reflexive test, leaves pairwise inequivalent elements
  with a representative for every element of the list; the kept nodes stay in order.\<close>

theorem list_DeleteDuplicates_correct:
  assumes "wf_heap h" "seg (store h) p ps NULL" "tests Test E (addrs ps) h (set (elems ps))"
    "\<forall>x \<in> set (elems ps). E x x"
  shows "\<exists>qs. left_with ps qs (addrs ps) h (list_DeleteDuplicates p Test h) \<and> set qs \<subseteq> set ps
     \<and> sorted_wrt (\<lambda>x y. \<not> E x y) (elems qs) \<and> (\<forall>y \<in> set (elems ps). \<exists>x \<in> set (elems qs). E x y)"
proof (rule exI [of _ "dedup E ps"], intro conjI ballI)
  show "left_with ps (dedup E ps) (addrs ps) h (list_DeleteDuplicates p Test h)"
    by (rule list_DeleteDuplicates_ok [OF assms(1-3)])
  show "\<exists>x \<in> set (elems (dedup E ps)). E x y" if "y \<in> set (elems ps)" for y
    by (rule dedup_covers [OF bspec [OF assms(4)] that])
qed (rule set_dedup, rule dedup_separated)

theorem list_DeleteDuplicates_correct_witness:
  "\<exists>qs. left_with sample1 qs (addrs sample1) sample_heap
      (list_DeleteDuplicates 1 (\<lambda>x y h. Some (x div 20 = y div 20)) sample_heap)
     \<and> set qs \<subseteq> set sample1 \<and> sorted_wrt (\<lambda>x y. \<not> x div 20 = y div 20) (elems qs)
     \<and> (\<forall>y \<in> set (elems sample1). \<exists>x \<in> set (elems qs). x div 20 = y div 20)"
  by (rule list_DeleteDuplicates_correct [OF wf_sample seg_sample1 tests_pure]) simp

text \<open>\<open>list_NPointerUnion\<close> of two separate lists is a list without duplicates that holds the
  union of the elements; \<open>list_IsSetOfPointers\<close> accepts it.\<close>

theorem list_NPointerUnion_correct:
  assumes "wf_heap h" "seg (store h) p ps NULL" "seg (store h) q qs NULL" "addrs ps \<inter> addrs qs = {}"
  shows "\<exists>r h' rs. list_NPointerUnion p q h = Some (r, h') \<and> wf_heap h' \<and> seg (store h') r rs NULL
     \<and> distinct (elems rs) \<and> set (elems rs) = set (elems ps) \<union> set (elems qs)
     \<and> list_IsSetOfPointers r h' = Some True \<and> agree (addrs ps \<union> addrs qs) h h'"
proof -
  from list_NPointerUnion_ok [OF assms] obtain r h' where U: "list_NPointerUnion p q h = Some (r, h')"
    "wf_heap h'" "seg (store h') r (dedup (=) (ps @ qs)) NULL" "agree (addrs ps \<union> addrs qs) h h'"
    by (rule left_withE) (rule that)
  have "set (elems (dedup (=) (ps @ qs))) = set (elems ps) \<union> set (elems qs)"
    by (simp only: dedup_eq map_append set_append)
  with U list_IsSetOfPointers_ok [OF U(3)] dedup_eq(1) show ?thesis
    by (intro exI [of _ r] exI [of _ h'] exI [of _ "dedup (=) (ps @ qs)"]) (simp only: simp_thms)
qed

theorem list_NPointerUnion_correct_witness:
  "\<exists>r h' rs. list_NPointerUnion 1 4 sample_heap = Some (r, h') \<and> wf_heap h' \<and> seg (store h') r rs NULL
     \<and> distinct (elems rs) \<and> set (elems rs) = set (elems sample1) \<union> set (elems sample2)
     \<and> list_IsSetOfPointers r h' = Some True \<and> agree (addrs sample1 \<union> addrs sample2) sample_heap h'"
  by (rule list_NPointerUnion_correct [OF wf_sample seg_sample1 seg_sample2]) simp

text \<open>intersection and difference of lists: \<open>list_NPointerIntersect\<close> and
  \<open>list_NPointerDifference\<close> keep the nodes of the first list whose elements are, respectively are
  not, in the second, and \<open>list_HasIntersection\<close> tells whether the first of the two is non-empty.\<close>

theorem list_NPointerIntersect_correct:
  assumes "wf_heap h" "seg (store h) p ps NULL" "seg (store h) q qs NULL" "addrs qs \<inter> addrs ps = {}"
  shows "left_with ps (filter (\<lambda>c. snd c \<in> set (elems qs)) ps) (addrs ps) h (list_NPointerIntersect p q h)
    \<and> left_with ps (filter (\<lambda>c. snd c \<notin> set (elems qs)) ps) (addrs ps) h (list_NPointerDifference p q h)
    \<and> list_HasIntersection p q h = Some (set (elems ps) \<inter> set (elems qs) \<noteq> {})"
  by (intro conjI list_NPointerIntersect_ok list_NPointerDifference_ok list_HasIntersection_ok assms)

theorem list_NPointerIntersect_correct_witness:
  "left_with sample1 [(2, 10)] (addrs sample1) sample_heap (list_NPointerIntersect 1 4 sample_heap)"
  using list_NPointerIntersect_correct [OF wf_sample seg_sample1 seg_sample2] by simp

text \<open>\<open>list_NMultisetDifference\<close> with pointer comparison subtracts multisets: for every element
  of the second list it deletes one occurrence from the first, if there is one.\<close>

theorem list_NMultisetDifference_correct:
  assumes "wf_heap h" "seg (store h) p ps NULL" "seg (store h) q qs NULL" "addrs qs \<inter> addrs ps = {}"
  shows "\<exists>r h' rs. list_NMultisetDifference p q pointer_eq h = Some (r, h') \<and> wf_heap h'
     \<and> seg (store h') r rs NULL \<and> mset (elems rs) = mset (elems ps) - mset (elems qs)
     \<and> seg (store h') q qs NULL \<and> agree (addrs ps) h h'"
proof -
  let ?rs = "fold (\<lambda>e. delete_first (\<lambda>c. e = snd c)) (elems qs) ps"
  from list_NMultisetDifference_ok [OF assms tests_pointer_eq] obtain r h' where
    "list_NMultisetDifference p q pointer_eq h = Some (r, h')" "wf_heap h'"
    "seg (store h') r ?rs NULL" "agree (addrs ps) h h'"
    by (rule left_withE) (rule that)
  moreover from this(4) have "seg (store h') q qs NULL" by (rule seg_agree [OF _ assms(4,3)])
  ultimately show ?thesis using mset_elems_fold_delete_first [of "elems qs" ps]
    by (intro exI conjI)
qed

theorem list_NMultisetDifference_correct_witness:
  "\<exists>r h' rs. list_NMultisetDifference 1 4 pointer_eq sample_heap = Some (r, h') \<and> wf_heap h'
     \<and> seg (store h') r rs NULL \<and> mset (elems rs) = mset (elems sample1) - mset (elems sample2)
     \<and> seg (store h') 4 sample2 NULL \<and> agree (addrs sample1) sample_heap h'"
  by (rule list_NMultisetDifference_correct [OF wf_sample seg_sample1 seg_sample2]) simp

section \<open>Lengths\<close>

text \<open>\<open>list_Length\<close> and \<open>list_Bytes\<close> compute modulo \<open>2 ^ 32\<close>: they are exact for lists shorter
  than \<open>2 ^ 32\<close> and \<open>2 ^ 28\<close> nodes, and wrap around beyond.\<close>

theorem list_Length_correct:
  assumes "seg (store h) p ps NULL"
  shows "\<exists>n b. list_Length p h = Some n \<and> unat n = length ps mod 2 ^ 32
     \<and> list_Bytes p h = Some b \<and> unat b = 16 * length ps mod 2 ^ 32"
proof -
  have "list_Bytes p h = Some (of_nat (16 * length ps))"
    using list_Bytes_ok [OF assms] by simp
  then show ?thesis using list_Length_ok [OF assms]
    by (intro exI [of _ "of_nat (length ps)"] exI [of _ "of_nat (16 * length ps)"] conjI)
      (simp_all only: unat_of_nat len_num1 word_size len_bit0, simp_all)
qed

theorem list_Length_correct_witness:
  "\<exists>n b. list_Length 1 sample_heap = Some n \<and> unat n = 3 \<and> list_Bytes 1 sample_heap = Some b \<and> unat b = 48"
  using list_Length_correct [OF seg_sample1] by simp

end
