(* ===== verification/LS_Moves.thy ===== *)
theory LS_Moves
  imports Complex_Main Spec_Prelude
begin

text \<open>
  Moves of the local search (\<open>src/inferences/localsearch/NeighborhoodMove.cpp\<close>) and the parsing of
  the option that selects the search (\<open>Localsearch.cpp\<close>). A move is a tuple of domain elements.
  The comparison reads the value of both elements as the type of the first one; where the second
  has another type or is missing, the C++ code reads a wrong union member or out of bounds, and
  the model is \<open>None\<close>.
\<close>

section \<open>Comparison of moves\<close>

datatype DomainElement =
  DET_INT int
| DET_DOUBLE real
| DET_STRING string
| DET_COMPOUND nat

type_synonym ElementTuple = "DomainElement list"

fun elementsAgree :: "DomainElement \<Rightarrow> DomainElement \<Rightarrow> bool option" where
  "elementsAgree (DET_INT a) (DET_INT b) = Some (a = b)"
| "elementsAgree (DET_DOUBLE a) (DET_DOUBLE b) = Some (a = b)"
| "elementsAgree (DET_STRING a) (DET_STRING b) = Some (a = b)"
| "elementsAgree (DET_COMPOUND a) _ = Some True"
| "elementsAgree _ _ = None"

fun movesAreEqual :: "ElementTuple \<Rightarrow> ElementTuple \<Rightarrow> bool option" where
  "movesAreEqual [] ys = Some True"
| "movesAreEqual (x # xs) [] = (case x of DET_COMPOUND _ \<Rightarrow> movesAreEqual xs [] | _ \<Rightarrow> None)"
| "movesAreEqual (x # xs) (y # ys) =
     (case elementsAgree x y of
        None \<Rightarrow> None
      | Some False \<Rightarrow> Some False
      | Some True \<Rightarrow> movesAreEqual xs ys)"

text \<open>Tuples of the same query have the same column types; \<open>flat\<close> excludes compound elements.\<close>

fun same_type :: "DomainElement \<Rightarrow> DomainElement \<Rightarrow> bool" where
  "same_type (DET_INT _) (DET_INT _) = True"
| "same_type (DET_DOUBLE _) (DET_DOUBLE _) = True"
| "same_type (DET_STRING _) (DET_STRING _) = True"
| "same_type (DET_COMPOUND _) (DET_COMPOUND _) = True"
| "same_type _ _ = False"

fun flat :: "DomainElement \<Rightarrow> bool" where
  "flat (DET_COMPOUND _) = False"
| "flat _ = True"

fun_cases same_typeE: "same_type x y"

lemma elementsAgree_flat: "same_type x y \<Longrightarrow> flat x \<Longrightarrow> elementsAgree x y = Some (x = y)"
  by (auto elim!: same_typeE)

lemma movesAreEqual_total: "list_all2 same_type xs ys \<Longrightarrow> movesAreEqual xs ys \<noteq> None"
proof (induction rule: list_all2_induct)
  case (Cons x xs y ys)
  then show ?case by (cases x; cases y) (auto split: bool.splits)
qed simp

lemma movesAreEqual_iff:
  assumes "list_all2 same_type xs ys" "list_all flat xs"
  shows "movesAreEqual xs ys = Some (xs = ys)"
  using assms by (induction rule: list_all2_induct) (auto simp: elementsAgree_flat split: bool.splits)

section \<open>Splitting the option string\<close>

text \<open>\<open>std::getline\<close> with a delimiter: a line ends before the delimiter or at the end of the text;
  an empty rest gives no line.\<close>

fun getline :: "char \<Rightarrow> string \<Rightarrow> string \<times> string option" where
  "getline delim [] = ([], None)"
| "getline delim (c # cs) =
     (if c = delim then ([], Some cs) else (case getline delim cs of (l, r) \<Rightarrow> (c # l, r)))"

lemma getline_shorter: "getline delim cs = (l, Some r) \<Longrightarrow> length r < length cs"
  by (induction cs arbitrary: l) (auto split: if_splits prod.splits)

function split_string :: "string \<Rightarrow> char \<Rightarrow> string list" where
  "split_string s delim =
     (if s = [] then []
      else case getline delim s of
        (item, None) \<Rightarrow> [item]
      | (item, Some r) \<Rightarrow> item # split_string r delim)"
  by pat_completeness auto
termination by (relation "measure (\<lambda>(s, delim). length s)") (auto dest!: getline_shorter [OF sym])

declare split_string.simps [simp del]

lemma split_string_Nil [simp]: "split_string [] d = []"
  by (simp add: split_string.simps)

lemma getline_end: "d \<notin> set s \<Longrightarrow> getline d s = (s, None)"
  by (induction s) auto

lemma getline_delim: "d \<notin> set s \<Longrightarrow> getline d (s @ d # r) = (s, Some r)"
  by (induction s) auto

fun join :: "char \<Rightarrow> string list \<Rightarrow> string" where
  "join d [] = []"
| "join d [x] = x"
| "join d (x # y # xs) = x @ d # join d (y # xs)"

lemma join_nonempty: "last (x # xs) \<noteq> [] \<Longrightarrow> join d (x # xs) \<noteq> []"
  by (induction xs arbitrary: x) auto

lemma split_join:
  assumes "\<forall>x \<in> set xs. d \<notin> set x" "xs \<noteq> [] \<longrightarrow> last xs \<noteq> []"
  shows "split_string (join d xs) d = xs"
  using assms
proof (induction d xs rule: join.induct)
  case (2 d x)
  then show ?case by (simp add: split_string.simps [of x] getline_end)
next
  case (3 d x y xs)
  then have "split_string (join d (y # xs)) d = y # xs" by simp
  then show ?case using 3(2) by (subst split_string.simps) (simp add: getline_delim)
qed simp

lemma split_pieces: "x \<in> set (split_string s d) \<Longrightarrow> d \<notin> set x"
proof (induction s d rule: split_string.induct)
  case (1 s d)
  have l: "d \<notin> set (fst (getline d t))" for t by (induction t) (auto split: prod.splits)
  show ?case
  proof (cases "s = []")
    case False
    obtain item rest where g: "getline d s = (item, rest)" by (cases "getline d s")
    have "d \<notin> set item" using l [of s] g by simp
    then show ?thesis using 1(2) False g 1(1) [OF False g [symmetric]]
      by (cases rest) (auto simp: split_string.simps [of s])
  qed (use 1(2) in simp)
qed

datatype LocalSearchType = FIRSTIMPROVE | BESTIMPROVE | LNS | ILS | TABU

text \<open>The boolean tells whether the warning about an unsupported type is printed.\<close>

definition getLSTypeFromString :: "string \<Rightarrow> LocalSearchType \<times> bool" where
  "getLSTypeFromString s =
     (if s = ''firstimprove'' then (FIRSTIMPROVE, False)
      else if s = ''bestimprove'' then (BESTIMPROVE, False)
      else if s = ''tabu'' then (TABU, False)
      else if s = ''LNS'' then (LNS, False)
      else (FIRSTIMPROVE, True))"

text \<open>The printed names of the types (\<open>options.cpp\<close>).\<close>

fun str_LocalSearchType :: "LocalSearchType \<Rightarrow> string" where
  "str_LocalSearchType FIRSTIMPROVE = ''firstimprove''"
| "str_LocalSearchType BESTIMPROVE = ''bestimprove''"
| "str_LocalSearchType LNS = ''LNS''"
| "str_LocalSearchType ILS = ''ILS''"
| "str_LocalSearchType TABU = ''tabu''"

text \<open>The part of \<open>doLocalSearch\<close> that reads the option: the search to create and, for every part
  of the option, its type and the name of its move. \<open>None\<close>: an entry that is not there is read.\<close>

fun readLSOptions :: "string list \<Rightarrow> (LocalSearchType \<times> string) list option" where
  "readLSOptions [] = Some []"
| "readLSOptions (l # ls) =
     (case split_string l (CHR '','') of
        t # name # _ \<Rightarrow> map_option ((#) (fst (getLSTypeFromString t), name)) (readLSOptions ls)
      | _ \<Rightarrow> None)"

definition chooseSearch :: "string \<Rightarrow> (LocalSearchType \<times> (LocalSearchType \<times> string) list) option" where
  "chooseSearch lsstring =
     (let listls = split_string lsstring (CHR '';'') in
      case listls of
        [] \<Rightarrow> None
      | l0 # _ \<Rightarrow>
          (case split_string l0 (CHR '','') of
             [] \<Rightarrow> None
           | t0 # _ \<Rightarrow>
               let lstype = (if length listls > 1 then ILS else fst (getLSTypeFromString t0)) in
               map_option (Pair lstype) (readLSOptions listls)))"

definition option_string :: "(string \<times> string) list \<Rightarrow> string" where
  "option_string xs = join (CHR '';'') (map (\<lambda>(t, m). t @ CHR '','' # m) xs)"

lemma readLSOptions_parts:
  assumes "\<forall>(t, m) \<in> set xs. CHR '','' \<notin> set t \<and> CHR '','' \<notin> set m \<and> m \<noteq> []"
  shows "readLSOptions (map (\<lambda>(t, m). t @ CHR '','' # m) xs)
    = Some (map (\<lambda>(t, m). (fst (getLSTypeFromString t), m)) xs)"
  using assms
proof (induction xs)
  case (Cons x xs)
  obtain t m where x: "x = (t, m)" by (cases x)
  have "split_string (join (CHR '','') [t, m]) (CHR '','') = [t, m]"
    by (rule split_join) (use Cons.prems x in auto)
  then show ?case using Cons x by simp
qed simp

end
