(* ===== verification/LS_Search.thy ===== *)
theory LS_Search
  imports LS_Moves
begin

text \<open>
  The base class of the local searches and the two descent searches
  (\<open>src/inferences/localsearch/Localsearch.cpp\<close>, \<open>BestImprovementSearch.cpp\<close>,
  \<open>FirstImprovementSearch.cpp\<close>).

  The inferences the searches call are a record of functions: model expansion, evaluation of
  queries, decoding of a move, the transfer of the decision variables into the input structure.
  A missing query is \<open>None\<close>, as the code has \<open>NULL\<close> there. The clock is the list of its readings at
  the successive calls of \<open>timeout\<close>, up to the last one within the limit: an empty list stands for
  a clock that has passed the limit for good. Counters and sums of elapsed time (\<open>_timeinfor\<close>) and
  printing are left out. A result \<open>None\<close> means that the code reads \<open>models[0]\<close> of an empty vector or
  uses a null query. Structures are of an arbitrary type \<open>'sol\<close>; clones are the same value.
\<close>

section \<open>State and services\<close>

record 'sol services =
  doModelExpansion :: "'sol \<Rightarrow> 'sol list"   \<comment> \<open>models of the theory that extend a structure\<close>
  queryGetObj :: "'sol \<Rightarrow> int"
  queryValidMoves :: "('sol \<Rightarrow> ElementTuple list) option"
  theoGetValidMoves :: "('sol \<Rightarrow> ElementTuple list) option"
  queryDeltaObj :: "('sol \<Rightarrow> int) option"
  queryGetNextCost :: "('sol \<Rightarrow> int) option"
  decode :: "'sol \<Rightarrow> ElementTuple \<Rightarrow> 'sol"
  expandNext :: "'sol \<Rightarrow> 'sol list"         \<comment> \<open>models of \<open>_theoNext\<close>\<close>
  transfer :: "'sol \<Rightarrow> 'sol"                \<comment> \<open>\<open>_dec_next_vars\<close> copied into the input structure\<close>

record 'sol LocalSearch =
  strucInput :: 'sol
  initialSol :: "'sol option"
  bestSol :: "'sol option"
  iniObjVal :: int
  bestObjVal :: int
  timeStart :: int
  timeout_clock :: int
  iniSolIsGiven :: bool

definition newLocalSearch :: "'sol \<Rightarrow> 'sol option \<Rightarrow> int \<Rightarrow> int \<Rightarrow> 'sol LocalSearch" where
  "newLocalSearch str iniSol start limit =
     \<lparr>strucInput = str, initialSol = iniSol, bestSol = None, iniObjVal = 0, bestObjVal = 0,
      timeStart = start, timeout_clock = limit, iniSolIsGiven = (iniSol \<noteq> None)\<rparr>"

definition setInitialSolution :: "'sol \<Rightarrow> 'sol LocalSearch \<Rightarrow> 'sol LocalSearch" where
  "setInitialSolution iniSol ls = ls\<lparr>initialSol := Some iniSol, iniSolIsGiven := True\<rparr>"

fun timeout :: "'sol LocalSearch \<Rightarrow> int list \<Rightarrow> bool \<times> int list" where
  "timeout ls [] = (True, [])"
| "timeout ls (clock # cs) = (clock - timeStart ls > timeout_clock ls, cs)"

text \<open>\<open>v[0]\<close> of a vector.\<close>

definition front :: "'a list \<Rightarrow> 'a option" where
  "front xs = (case xs of [] \<Rightarrow> None | x # _ \<Rightarrow> Some x)"

definition getInitialSolution :: "'sol services \<Rightarrow> 'sol LocalSearch \<Rightarrow> 'sol LocalSearch option" where
  "getInitialSolution S ls = do {
     structurein \<leftarrow> (if iniSolIsGiven ls then initialSol ls else Some (strucInput ls));
     m \<leftarrow> front (doModelExpansion S structurein);
     Some (ls\<lparr>initialSol := Some m, iniObjVal := queryGetObj S m\<rparr>) }"

definition LocalSearch_doSearch :: "'sol services \<Rightarrow> 'sol LocalSearch \<Rightarrow> 'sol LocalSearch option" where
  "LocalSearch_doSearch S ls = do {
     ls \<leftarrow> getInitialSolution S ls;
     Some (ls\<lparr>bestObjVal := iniObjVal ls, bestSol := None\<rparr>) }"

text \<open>Without a component that defines moves the code prints an error and returns \<open>NULL\<close>, which its
  callers dereference.\<close>

definition getValidMoves :: "'sol services \<Rightarrow> 'sol \<Rightarrow> ElementTuple list option" where
  "getValidMoves S s =
     (case queryValidMoves S of
        Some q \<Rightarrow> Some (q s)
      | None \<Rightarrow>
          (case theoGetValidMoves S of
             Some t \<Rightarrow> Some (t s)
           | None \<Rightarrow> None))"

definition getDeltaObj :: "'sol services \<Rightarrow> 'sol \<Rightarrow> int option" where
  "getDeltaObj S solutionWithMove = map_option (\<lambda>q. q solutionWithMove) (queryDeltaObj S)"

definition getObjValue :: "'sol services \<Rightarrow> 'sol \<Rightarrow> int" where
  "getObjValue S s = queryGetObj S s"

definition getNeighborSolutionWithoutMX :: "'sol services \<Rightarrow> 'sol \<Rightarrow> 'sol option" where
  "getNeighborSolutionWithoutMX S solWithMoveExpanded =
     front (doModelExpansion S (transfer S solWithMoveExpanded))"

definition getNextSolution :: "'sol services \<Rightarrow> 'sol \<Rightarrow> 'sol option" where
  "getNextSolution S solutionWithMove = front (expandNext S solutionWithMove)"

definition getNeighborSolution :: "'sol services \<Rightarrow> 'sol \<Rightarrow> 'sol option" where
  "getNeighborSolution S solutionWithMove = do {
     m \<leftarrow> front (expandNext S solutionWithMove);
     getNeighborSolutionWithoutMX S m }"

definition bestOrInitial :: "'sol LocalSearch \<Rightarrow> 'sol LocalSearch" where
  "bestOrInitial ls = (if bestSol ls = None then ls\<lparr>bestSol := initialSol ls\<rparr> else ls)"

section \<open>Best improvement\<close>

text \<open>The scan of the moves: the best delta so far and the structure with that move.\<close>

fun best_scan ::
  "'sol services \<Rightarrow> 'sol \<Rightarrow> ElementTuple list \<Rightarrow> int \<Rightarrow> 'sol option \<Rightarrow> (int \<times> 'sol option) option" where
  "best_scan S currentSol [] bestimprove bestSolWithMove = Some (bestimprove, bestSolWithMove)"
| "best_scan S currentSol (move # moves) bestimprove bestSolWithMove = do {
     let solutionWithMove = decode S currentSol move;
     deltaObj \<leftarrow> getDeltaObj S solutionWithMove;
     if deltaObj < bestimprove
     then best_scan S currentSol moves deltaObj (Some solutionWithMove)
     else best_scan S currentSol moves bestimprove bestSolWithMove }"

lemma timeout_shorter: "timeout ls clock = (False, clock') \<Longrightarrow> length clock' < length clock"
  by (cases clock) auto

function best_loop ::
  "'sol services \<Rightarrow> 'sol LocalSearch \<Rightarrow> 'sol \<Rightarrow> int \<Rightarrow> int list \<Rightarrow> 'sol LocalSearch option" where
  "best_loop S ls currentSol currentobj clock =
     (case timeout ls clock of
        (True, _) \<Rightarrow> Some ls
      | (False, clock') \<Rightarrow> do {
          moves \<leftarrow> getValidMoves S currentSol;
          (bestimprove, bestSolWithMove) \<leftarrow> best_scan S currentSol moves 100000 None;
          if bestimprove < 0 then do {
            swm \<leftarrow> bestSolWithMove;
            newsol \<leftarrow> getNeighborSolution S swm;
            let obj = currentobj + bestimprove;
            let ls = (if obj < bestObjVal ls
                      then ls\<lparr>bestObjVal := obj, bestSol := Some newsol\<rparr> else ls);
            best_loop S ls newsol obj clock' }
          else Some ls })"
  by pat_completeness auto

termination
  by (relation "measure (\<lambda>(S, ls, s, c, clock). length clock)")
    (simp_all add: timeout_shorter [OF sym])

declare best_loop.simps [simp del]

definition BestImprovementSearch_doSearch ::
  "'sol services \<Rightarrow> 'sol LocalSearch \<Rightarrow> int list \<Rightarrow> 'sol LocalSearch option" where
  "BestImprovementSearch_doSearch S ls clock = do {
     ls \<leftarrow> LocalSearch_doSearch S ls;
     currentSol \<leftarrow> initialSol ls;
     ls \<leftarrow> best_loop S ls currentSol (iniObjVal ls) clock;
     let ls = bestOrInitial ls;
     b \<leftarrow> bestSol ls;
     Some (ls\<lparr>bestObjVal := queryGetObj S b\<rparr>) }"

section \<open>First improvement\<close>

text \<open>One pass over the moves. The result: whether a move improved, the state, the current solution
  and objective, and the remaining clock readings.\<close>

type_synonym 'sol pass = "bool \<times> 'sol LocalSearch \<times> 'sol \<times> int \<times> int list"

definition acceptFirst :: "'sol LocalSearch \<Rightarrow> 'sol \<Rightarrow> int \<Rightarrow> int list \<Rightarrow> 'sol pass" where
  "acceptFirst ls newsol newobj clock =
     (True,
      (if newobj < bestObjVal ls then ls\<lparr>bestObjVal := newobj, bestSol := Some newsol\<rparr> else ls),
      newsol, newobj, clock)"

fun first_scan ::
  "'sol services \<Rightarrow> ElementTuple list \<Rightarrow> 'sol LocalSearch \<Rightarrow> 'sol \<Rightarrow> int \<Rightarrow> int list \<Rightarrow> 'sol pass option" where
  "first_scan S [] ls currentSol currentobj clock = Some (False, ls, currentSol, currentobj, clock)"
| "first_scan S (move # moves) ls currentSol currentobj clock = do {
     let solutionWithMove = decode S currentSol move;
     accepted \<leftarrow>
       (if queryDeltaObj S \<noteq> None then do {
          deltaObj \<leftarrow> getDeltaObj S solutionWithMove;
          newsol \<leftarrow> getNeighborSolution S solutionWithMove;
          let newobj = getObjValue S newsol;
          Some (if deltaObj < 0 \<and> newobj < currentobj then Some (newsol, newobj) else None) }
        else do {
          nextsol \<leftarrow> getNextSolution S solutionWithMove;
          q \<leftarrow> queryGetNextCost S;
          let newobj = q nextsol;
          let deltaObj = newobj - currentobj;
          if deltaObj < 0 then do {
            newsol \<leftarrow> getNeighborSolutionWithoutMX S nextsol;
            Some (Some (newsol, newobj)) }
          else Some None });
     case accepted of
       Some (newsol, newobj) \<Rightarrow> Some (acceptFirst ls newsol newobj clock)
     | None \<Rightarrow>
         (case timeout ls clock of
            (True, clock') \<Rightarrow> Some (False, ls, currentSol, currentobj, clock')
          | (False, clock') \<Rightarrow> first_scan S moves ls currentSol currentobj clock') }"

lemma first_scan_clock:
  "first_scan S moves ls s c clock = Some (i, ls', s', c', clock') \<Longrightarrow> length clock' \<le> length clock"
proof (induction S moves ls s c clock rule: first_scan.induct)
  case (2 S move moves ls s c clock)
  show ?case
  proof (cases "timeout ls clock")
    case (Pair t cl)
    have "length cl \<le> length clock" using Pair by (cases clock) auto
    then show ?thesis using 2 Pair
      by (fastforce simp: Let_def bind_eq_Some_iff acceptFirst_def split: option.splits bool.splits
          if_splits prod.splits)
  qed
qed simp

function first_loop ::
  "'sol services \<Rightarrow> 'sol LocalSearch \<Rightarrow> 'sol \<Rightarrow> int \<Rightarrow> int list \<Rightarrow> 'sol LocalSearch option" where
  "first_loop S ls currentSol currentobj clock =
     (case timeout ls clock of
        (True, _) \<Rightarrow> Some ls
      | (False, clock') \<Rightarrow>
          (case getValidMoves S currentSol of
             None \<Rightarrow> None
           | Some moves \<Rightarrow>
               (case first_scan S moves ls currentSol currentobj clock' of
                  None \<Rightarrow> None
                | Some (improved, ls', newSol, newobj, clock'') \<Rightarrow>
                    if \<not> improved then Some ls' else first_loop S ls' newSol newobj clock'')))"
  by pat_completeness auto

termination
  by (relation "measure (\<lambda>(S, ls, s, c, clock). length clock)")
    (auto dest!: timeout_shorter [OF sym] first_scan_clock)

declare first_loop.simps [simp del]

definition FirstImprovementSearch_doSearch ::
  "'sol services \<Rightarrow> 'sol LocalSearch \<Rightarrow> int list \<Rightarrow> 'sol LocalSearch option" where
  "FirstImprovementSearch_doSearch S ls clock = do {
     ls \<leftarrow> LocalSearch_doSearch S ls;
     currentSol \<leftarrow> initialSol ls;
     ls \<leftarrow> first_loop S ls currentSol (iniObjVal ls) clock;
     Some (bestOrInitial ls) }"

section \<open>Neighbourhoods and local optima\<close>

text \<open>One move: a valid move of the current solution, decoded and expanded to a solution.\<close>

inductive move_step :: "'sol services \<Rightarrow> 'sol \<Rightarrow> 'sol \<Rightarrow> bool" for S where
  "getValidMoves S s = Some ms \<Longrightarrow> m \<in> set ms \<Longrightarrow> getNeighborSolution S (decode S s m) = Some s'
    \<Longrightarrow> move_step S s s'"

inductive_simps move_step_iff: "move_step S s s'"

definition local_optimum :: "'sol services \<Rightarrow> 'sol \<Rightarrow> bool" where
  "local_optimum S s \<longleftrightarrow> (\<forall>s'. move_step S s s' \<longrightarrow> queryGetObj S s \<le> queryGetObj S s')"

text \<open>What the searches rely on: on the solutions \<open>Sols\<close> the moves can be enumerated and executed,
  lead to solutions, and their announced objective is the real one; \<open>L\<close> is a lower bound.\<close>

definition announces :: "'sol services \<Rightarrow> 'sol \<Rightarrow> ElementTuple \<Rightarrow> 'sol \<Rightarrow> bool" where
  "announces S s m s' \<longleftrightarrow>
     (case queryDeltaObj S of
        Some q \<Rightarrow> queryGetObj S s' = queryGetObj S s + q (decode S s m)
      | None \<Rightarrow> \<exists>q n. queryGetNextCost S = Some q \<and> getNextSolution S (decode S s m) = Some n
                  \<and> q n = queryGetObj S s')"

definition search_space :: "'sol services \<Rightarrow> 'sol set \<Rightarrow> int \<Rightarrow> bool" where
  "search_space S Sols L \<longleftrightarrow>
     (\<forall>s \<in> Sols. L \<le> queryGetObj S s
        \<and> (\<exists>ms. getValidMoves S s = Some ms
             \<and> (\<forall>m \<in> set ms. \<exists>s' \<in> Sols. getNeighborSolution S (decode S s m) = Some s'
                  \<and> announces S s m s')))"

lemma search_spaceE:
  assumes "search_space S Sols L" "s \<in> Sols"
  obtains ms where "getValidMoves S s = Some ms" "L \<le> queryGetObj S s"
    "\<And>m. m \<in> set ms \<Longrightarrow> \<exists>s' \<in> Sols. getNeighborSolution S (decode S s m) = Some s' \<and> announces S s m s'"
  using assms unfolding search_space_def by blast

definition within_limit :: "'sol LocalSearch \<Rightarrow> int list \<Rightarrow> bool" where
  "within_limit ls clock \<longleftrightarrow> (\<forall>c \<in> set clock. \<not> c - timeStart ls > timeout_clock ls)"

text \<open>The part of the state that a search does not change.\<close>

definition same_frame :: "'sol LocalSearch \<Rightarrow> 'sol LocalSearch \<Rightarrow> bool" where
  "same_frame ls ls' \<longleftrightarrow> ls' = ls\<lparr>bestSol := bestSol ls', bestObjVal := bestObjVal ls'\<rparr>"

lemma same_frame_refl [simp]: "same_frame ls ls"
  by (simp add: same_frame_def)

lemma same_frame_upd [simp]: "same_frame ls (ls\<lparr>bestObjVal := x, bestSol := y\<rparr>)"
  by (simp add: same_frame_def)

lemma same_frame_trans: "same_frame a b \<Longrightarrow> same_frame b c \<Longrightarrow> same_frame a c"
  by (cases a; cases b; cases c) (simp add: same_frame_def)

lemma same_frame_fields: "same_frame ls ls' \<Longrightarrow> initialSol ls' = initialSol ls"
  "same_frame ls ls' \<Longrightarrow> iniObjVal ls' = iniObjVal ls" "same_frame ls ls' \<Longrightarrow> timeStart ls' = timeStart ls"
  "same_frame ls ls' \<Longrightarrow> timeout_clock ls' = timeout_clock ls"
  by (cases ls; cases ls'; simp add: same_frame_def)+

lemma within_limit_frame: "same_frame ls ls' \<Longrightarrow> within_limit ls' clock = within_limit ls clock"
  by (simp add: within_limit_def same_frame_fields)

text \<open>The outcome of a descent from \<open>cur\<close>: \<open>b\<close> is the best solution.\<close>

definition descended :: "'sol services \<Rightarrow> 'sol set \<Rightarrow> 'sol LocalSearch \<Rightarrow> 'sol \<Rightarrow> 'sol LocalSearch \<Rightarrow> 'sol \<Rightarrow> bool" where
  "descended S Sols ls cur ls' b \<longleftrightarrow> same_frame ls ls' \<and> b \<in> Sols \<and> (move_step S)\<^sup>*\<^sup>* cur b
     \<and> bestObjVal ls' = queryGetObj S b \<and> queryGetObj S b \<le> queryGetObj S cur
     \<and> (bestSol ls' = Some b \<or> bestSol ls' = bestSol ls \<and> b = cur)"

lemma descended_refl: "cur \<in> Sols \<Longrightarrow> bestObjVal ls = queryGetObj S cur \<Longrightarrow> descended S Sols ls cur ls cur"
  by (simp add: descended_def)

lemma descended_step:
  assumes "move_step S cur s" "queryGetObj S s < queryGetObj S cur"
    "descended S Sols (ls\<lparr>bestObjVal := queryGetObj S s, bestSol := Some s\<rparr>) s ls' b"
  shows "descended S Sols ls cur ls' b"
  using assms same_frame_trans [OF same_frame_upd [of ls "Some s" "queryGetObj S s"]]
  by (auto simp: descended_def intro: converse_rtranclp_into_rtranclp)

section \<open>Best improvement reaches a local optimum\<close>

lemma best_scan_ok:
  assumes "queryDeltaObj S = Some q"
  shows "\<exists>b sw. best_scan S s ms b0 sw0 = Some (b, sw) \<and> b \<le> b0 \<and> (\<forall>m \<in> set ms. b \<le> q (decode S s m))
     \<and> (b = b0 \<and> sw = sw0 \<or> (\<exists>m \<in> set ms. b = q (decode S s m) \<and> sw = Some (decode S s m)))"
proof (induction ms arbitrary: b0 sw0)
  case (Cons m ms)
  let ?d = "q (decode S s m)"
  show ?case
  proof (cases "?d < b0")
    case True
    with Cons [of ?d "Some (decode S s m)"] obtain b sw where
      "best_scan S s ms ?d (Some (decode S s m)) = Some (b, sw)" "b \<le> ?d"
      "\<forall>m \<in> set ms. b \<le> q (decode S s m)"
      "b = ?d \<and> sw = Some (decode S s m) \<or> (\<exists>m \<in> set ms. b = q (decode S s m) \<and> sw = Some (decode S s m))"
      by blast
    then show ?thesis using True assms by (auto simp: getDeltaObj_def Let_def)
  next
    case False
    with Cons [of b0 sw0] show ?thesis using assms by (auto simp: getDeltaObj_def Let_def)
  qed
qed simp

lemma best_loop_ok:
  assumes "search_space S Sols L" "queryDeltaObj S = Some q" "cur \<in> Sols" "obj = queryGetObj S cur"
    "bestObjVal ls = obj"
  shows "\<exists>ls' b. best_loop S ls cur obj clock = Some ls' \<and> descended S Sols ls cur ls' b
     \<and> (within_limit ls clock \<and> obj - L < int (length clock) \<longrightarrow> local_optimum S b)"
  using assms(3-5)
proof (induction "length clock" arbitrary: ls cur obj clock rule: less_induct)
  case less
  from search_spaceE [OF assms(1) less.prems(1)] obtain ms where ms: "getValidMoves S cur = Some ms"
    "L \<le> queryGetObj S cur"
    and exec: "\<And>m. m \<in> set ms \<Longrightarrow> \<exists>s' \<in> Sols. getNeighborSolution S (decode S cur m) = Some s' \<and> announces S cur m s'"
    by blast
  have delta: "queryGetObj S s' = obj + q (decode S cur m)"
    if "m \<in> set ms" "getNeighborSolution S (decode S cur m) = Some s'" for m s'
    using exec [OF that(1)] that(2) assms(2) less.prems(2) by (auto simp: announces_def)
  note base = descended_refl [of cur Sols ls S]
  show ?case
  proof (cases "timeout ls clock")
    case (Pair t clock')
    show ?thesis
    proof (cases t)
      case True
      then have "best_loop S ls cur obj clock = Some ls" using Pair by (subst best_loop.simps) simp
      moreover have "\<not> (within_limit ls clock \<and> obj - L < int (length clock))"
        using Pair True ms(2) less.prems(2) by (cases clock) (auto simp: within_limit_def)
      ultimately show ?thesis using base less.prems by blast
    next
      case False
      from best_scan_ok [OF assms(2), of cur ms 100000 None] obtain b sw where
        scan: "best_scan S cur ms 100000 None = Some (b, sw)" "\<forall>m \<in> set ms. b \<le> q (decode S cur m)"
        and cs: "b = 100000 \<and> sw = None \<or> (\<exists>m \<in> set ms. b = q (decode S cur m) \<and> sw = Some (decode S cur m))"
        by blast
      show ?thesis
      proof (cases "b < 0")
        case True
        with cs obtain m where m: "m \<in> set ms" "b = q (decode S cur m)" "sw = Some (decode S cur m)" by auto
        from exec [OF m(1)] obtain s where s: "s \<in> Sols" "getNeighborSolution S (decode S cur m) = Some s" by blast
        have obj': "queryGetObj S s = obj + b" using delta [OF m(1) s(2)] m(2) by simp
        have step: "move_step S cur s" using ms(1) m(1) s(2) by (rule move_step.intros)
        let ?ls = "ls\<lparr>bestObjVal := obj + b, bestSol := Some s\<rparr>"
        have len: "length clock' < length clock" using Pair False by (cases clock) auto
        have run: "best_loop S ls cur obj clock = best_loop S ?ls s (obj + b) clock'"
          using Pair False ms(1) scan(1) True m(3) s(2) less.prems(3)
          by (subst best_loop.simps) (simp add: Let_def)
        from less.hyps [OF len s(1), of "obj + b" ?ls] obj' obtain ls' b' where IH:
          "best_loop S ?ls s (obj + b) clock' = Some ls'" "descended S Sols ?ls s ls' b'"
          "within_limit ?ls clock' \<and> obj + b - L < int (length clock') \<Longrightarrow> local_optimum S b'" by auto
        have "descended S Sols ls cur ls' b'"
          by (rule descended_step [OF step]) (use IH(2) obj' True less.prems(2) in simp_all)
        moreover have "local_optimum S b'" if "within_limit ls clock" "obj - L < int (length clock)"
          using IH(3) that Pair False True by (cases clock) (auto simp: within_limit_def)
        ultimately show ?thesis using run IH(1) by auto
      next
        case nb: False
        then have "best_loop S ls cur obj clock = Some ls"
          using Pair False ms(1) scan(1) by (subst best_loop.simps) simp
        moreover have "local_optimum S cur"
        proof -
          have "obj \<le> queryGetObj S s'" if m: "m \<in> set ms" and n: "getNeighborSolution S (decode S cur m) = Some s'" for m s'
            using delta [OF m n] bspec [OF scan(2) m] nb by simp
          then show ?thesis using ms(1) less.prems(2) by (auto simp: local_optimum_def move_step_iff)
        qed
        ultimately show ?thesis using base less.prems by blast
      qed
    qed
  qed
qed

section \<open>First improvement reaches a local optimum\<close>

lemma first_scan_ok:
  assumes "cur \<in> Sols" "obj = queryGetObj S cur" "bestObjVal ls = obj"
    "\<And>m. m \<in> set ms \<Longrightarrow> \<exists>s' \<in> Sols. getNeighborSolution S (decode S cur m) = Some s' \<and> announces S cur m s'"
  shows "\<exists>i ls' s obj' clock'. first_scan S ms ls cur obj clock = Some (i, ls', s, obj', clock')
     \<and> (if i then \<exists>m \<in> set ms. getNeighborSolution S (decode S cur m) = Some s \<and> s \<in> Sols
              \<and> obj' = queryGetObj S s \<and> obj' < obj \<and> ls' = ls\<lparr>bestObjVal := obj', bestSol := Some s\<rparr>
              \<and> (\<exists>k \<le> length ms. clock' = drop k clock)
        else ls' = ls \<and> (within_limit ls clock \<and> length ms \<le> length clock \<longrightarrow>
              (\<forall>m \<in> set ms. \<forall>s'. getNeighborSolution S (decode S cur m) = Some s' \<longrightarrow> obj \<le> queryGetObj S s')))"
  using assms(4)
proof (induction ms arbitrary: clock)
  case (Cons m ms)
  from Cons.prems [of m] obtain s where s: "s \<in> Sols" "getNeighborSolution S (decode S cur m) = Some s"
    "announces S cur m s" by auto
  show ?case
  proof (cases "queryGetObj S s < obj")
    case True
    have "first_scan S (m # ms) ls cur obj clock
        = Some (True, ls\<lparr>bestObjVal := queryGetObj S s, bestSol := Some s\<rparr>, s, queryGetObj S s, clock)"
    proof (cases "queryDeltaObj S")
      case None
      with s(3) obtain q n where n: "queryGetNextCost S = Some q" "getNextSolution S (decode S cur m) = Some n"
        "q n = queryGetObj S s" by (auto simp: announces_def)
      moreover have "getNeighborSolutionWithoutMX S n = Some s"
        using s(2) n(2) by (simp add: getNeighborSolution_def getNextSolution_def)
      ultimately show ?thesis using None True assms(3) by (simp add: acceptFirst_def Let_def)
    next
      case (Some q)
      then show ?thesis using s True assms(2,3)
        by (simp add: acceptFirst_def Let_def announces_def getDeltaObj_def getObjValue_def)
    qed
    moreover have "\<exists>k \<le> length (m # ms). clock = drop k clock" by (rule exI [of _ 0]) simp
    ultimately show ?thesis using s(1,2) True by auto
  next
    case False
    obtain t cl where tm: "timeout ls clock = (t, cl)" by (cases "timeout ls clock")
    have run: "first_scan S (m # ms) ls cur obj clock
        = (if t then Some (False, ls, cur, obj, cl) else first_scan S ms ls cur obj cl)"
    proof (cases "queryDeltaObj S")
      case None
      with s(3) obtain q n where "queryGetNextCost S = Some q" "getNextSolution S (decode S cur m) = Some n"
        "q n = queryGetObj S s" by (auto simp: announces_def)
      then show ?thesis using None False tm by (simp add: Let_def split: bool.splits)
    next
      case (Some q)
      then show ?thesis using s False assms(2) tm
        by (simp add: Let_def announces_def getDeltaObj_def getObjValue_def split: bool.splits)
    qed
    show ?thesis
    proof (cases t)
      case True
      then have "\<not> (within_limit ls clock \<and> length (m # ms) \<le> length clock)"
        using tm by (cases clock) (auto simp: within_limit_def)
      then show ?thesis using run True
        by (intro exI [of _ False]) (auto simp del: first_scan.simps)
    next
      case nt: False
      then obtain c where c: "clock = c # cl" using tm by (cases clock) auto
      from Cons.IH [of cl] Cons.prems obtain i ls' s2 obj' clock' where IH:
        "first_scan S ms ls cur obj cl = Some (i, ls', s2, obj', clock')"
        "if i then \<exists>m \<in> set ms. getNeighborSolution S (decode S cur m) = Some s2 \<and> s2 \<in> Sols
              \<and> obj' = queryGetObj S s2 \<and> obj' < obj \<and> ls' = ls\<lparr>bestObjVal := obj', bestSol := Some s2\<rparr>
              \<and> (\<exists>k \<le> length ms. clock' = drop k cl)
         else ls' = ls \<and> (within_limit ls cl \<and> length ms \<le> length cl \<longrightarrow>
              (\<forall>m \<in> set ms. \<forall>s'. getNeighborSolution S (decode S cur m) = Some s' \<longrightarrow> obj \<le> queryGetObj S s'))"
        by (metis list.set_intros(2))
      show ?thesis
      proof (cases i)
        case True
        with IH(2) obtain k where "k \<le> length ms" "clock' = drop k cl" by auto
        then have "Suc k \<le> length (m # ms) \<and> clock' = drop (Suc k) clock" by (simp add: c)
        then show ?thesis using IH True run nt by (auto simp del: first_scan.simps)
      next
        case False
        have "first_scan S (m # ms) ls cur obj clock = Some (False, ls, s2, obj', clock')"
          using IH run nt False by (simp del: first_scan.simps)
        moreover have "within_limit ls clock \<and> length (m # ms) \<le> length clock \<longrightarrow>
            (\<forall>m \<in> set (m # ms). \<forall>s'. getNeighborSolution S (decode S cur m) = Some s' \<longrightarrow> obj \<le> queryGetObj S s')"
          using IH(2) False s(2) \<open>\<not> queryGetObj S s < obj\<close> by (auto simp: c within_limit_def)
        ultimately show ?thesis
          by (intro exI [of _ False] exI [of _ ls] exI [of _ s2] exI [of _ obj'] exI [of _ clock'])
            (simp only: if_False simp_thms)
      qed
    qed
  qed
qed (simp, rule exI [of _ False], simp)

definition moves_bounded :: "'sol services \<Rightarrow> 'sol set \<Rightarrow> nat \<Rightarrow> bool" where
  "moves_bounded S Sols M \<longleftrightarrow> (\<forall>s \<in> Sols. \<forall>ms. getValidMoves S s = Some ms \<longrightarrow> length ms \<le> M)"

lemma first_loop_ok:
  assumes "search_space S Sols L" "cur \<in> Sols" "obj = queryGetObj S cur" "bestObjVal ls = obj"
  shows "\<exists>ls' b. first_loop S ls cur obj clock = Some ls' \<and> descended S Sols ls cur ls' b
     \<and> (moves_bounded S Sols M \<and> within_limit ls clock \<and> (obj - L + 1) * int (M + 1) \<le> int (length clock)
         \<longrightarrow> local_optimum S b)"
  using assms(2-4)
proof (induction "length clock" arbitrary: ls cur obj clock rule: less_induct)
  case less
  from search_spaceE [OF assms(1) less.prems(1)] obtain ms where ms: "getValidMoves S cur = Some ms"
    "L \<le> queryGetObj S cur"
    and exec: "\<And>m. m \<in> set ms \<Longrightarrow> \<exists>s' \<in> Sols. getNeighborSolution S (decode S cur m) = Some s' \<and> announces S cur m s'"
    by blast
  have M: "length ms \<le> M" if "moves_bounded S Sols M"
    using that less.prems(1) ms(1) by (simp add: moves_bounded_def)
  have pos: "int (M + 1) \<le> (obj - L + 1) * int (M + 1)"
    using ms(2) less.prems(2) by (simp add: mult_le_cancel_right1)
  note base = descended_refl [of cur Sols ls S]
  obtain t cl where tm: "timeout ls clock = (t, cl)" by (cases "timeout ls clock")
  show ?case
  proof (cases t)
    case True
    then have "first_loop S ls cur obj clock = Some ls" using tm by (subst first_loop.simps) simp
    moreover have "\<not> (within_limit ls clock \<and> (obj - L + 1) * int (M + 1) \<le> int (length clock))"
    proof (cases clock)
      case Nil
      have "0 < int (M + 1)" by simp
      then have "0 < (obj - L + 1) * int (M + 1)" by (rule order_less_le_trans [OF _ pos])
      moreover have "int (length clock) = 0" by (simp add: Nil)
      ultimately show ?thesis by linarith
    next
      case (Cons c cs)
      then show ?thesis using tm True by (auto simp: within_limit_def)
    qed
    ultimately show ?thesis using base less.prems by blast
  next
    case False
    then obtain c where c: "clock = c # cl" using tm by (cases clock) auto
    from first_scan_ok [OF less.prems exec, of ms cl] obtain i ls1 s obj1 cl1 where
      scan: "first_scan S ms ls cur obj cl = Some (i, ls1, s, obj1, cl1)"
      and res: "if i then \<exists>m \<in> set ms. getNeighborSolution S (decode S cur m) = Some s \<and> s \<in> Sols
              \<and> obj1 = queryGetObj S s \<and> obj1 < obj \<and> ls1 = ls\<lparr>bestObjVal := obj1, bestSol := Some s\<rparr>
              \<and> (\<exists>k \<le> length ms. cl1 = drop k cl)
        else ls1 = ls \<and> (within_limit ls cl \<and> length ms \<le> length cl \<longrightarrow>
              (\<forall>m \<in> set ms. \<forall>s'. getNeighborSolution S (decode S cur m) = Some s' \<longrightarrow> obj \<le> queryGetObj S s'))"
      by blast
    show ?thesis
    proof (cases i)
      case True
      with res obtain m k where m: "m \<in> set ms" "getNeighborSolution S (decode S cur m) = Some s" "s \<in> Sols"
        "obj1 = queryGetObj S s" "obj1 < obj" "ls1 = ls\<lparr>bestObjVal := obj1, bestSol := Some s\<rparr>"
        "k \<le> length ms" "cl1 = drop k cl" by auto
      have step: "move_step S cur s" using ms(1) m(1,2) by (rule move_step.intros)
      have len: "length cl1 < length clock" by (simp add: c m(8))
      have run: "first_loop S ls cur obj clock = first_loop S ls1 s obj1 cl1"
        using tm False ms(1) scan True by (subst first_loop.simps) simp
      from less.hyps [OF len m(3,4), of ls1] m(6) obtain ls' b where IH:
        "first_loop S ls1 s obj1 cl1 = Some ls'" "descended S Sols ls1 s ls' b"
        "moves_bounded S Sols M \<and> within_limit ls1 cl1 \<and> (obj1 - L + 1) * int (M + 1) \<le> int (length cl1)
          \<Longrightarrow> local_optimum S b" by auto
      have "descended S Sols ls cur ls' b"
        by (rule descended_step [OF step]) (use IH(2) m(4-6) less.prems(2) in simp_all)
      moreover have "local_optimum S b"
        if mb: "moves_bounded S Sols M" and w: "within_limit ls clock"
          and l: "(obj - L + 1) * int (M + 1) \<le> int (length clock)"
      proof (rule IH(3), rule conjI [OF mb], rule conjI)
        show "within_limit ls1 cl1" using w m(6,8) c by (auto simp: within_limit_def dest: in_set_dropD)
        have "(obj1 - L + 1) * int (M + 1) \<le> (obj - L) * int (M + 1)"
          by (rule mult_right_mono) (use m(5) in auto)
        also have "\<dots> = (obj - L + 1) * int (M + 1) - int (M + 1)" by (simp add: algebra_simps)
        also have "\<dots> \<le> int (length cl1)" using l m(7,8) M [OF mb] c by simp
        finally show "(obj1 - L + 1) * int (M + 1) \<le> int (length cl1)" .
      qed
      ultimately show ?thesis using run IH(1) by auto
    next
      case nb: False
      then have "first_loop S ls cur obj clock = Some ls"
        using tm False ms(1) scan res by (subst first_loop.simps) simp
      moreover have "local_optimum S cur"
        if "moves_bounded S Sols M" "within_limit ls clock" "(obj - L + 1) * int (M + 1) \<le> int (length clock)"
      proof -
        have "int (M + 1) \<le> int (length clock)" using pos that(3) by (rule order_trans)
        then have "length ms \<le> length cl" using M [OF that(1)] c by simp
        moreover have "within_limit ls cl" using that(2) c by (simp add: within_limit_def)
        ultimately show ?thesis using res nb ms(1) less.prems(2) by (auto simp: local_optimum_def move_step_iff)
      qed
      ultimately show ?thesis using base less.prems by blast
    qed
  qed
qed

end
