(* ===== verification/LS_Tabu.thy ===== *)
theory LS_Tabu
  imports LS_Search
begin

text \<open>
  Tabu search (\<open>src/inferences/localsearch/TabuSearch.cpp\<close>): the list of forbidden moves and the
  search that takes the best allowed move in every step, also when it is worse.

  The tenure is the \<open>int\<close> of the code; the comparison with the size of the list converts it to
  \<open>size_t\<close>. The constructor that copies another search leaves it uninitialised, so it is an
  argument there. \<open>None\<close> as before: a null pointer or an entry out of range is used.
\<close>

section \<open>The tabu list\<close>

record 'sol TabuSearch = "'sol LocalSearch" +
  tabuTenure :: int
  tabuList :: "ElementTuple list"

definition newTabuSearch :: "'sol \<Rightarrow> 'sol option \<Rightarrow> int \<Rightarrow> int \<Rightarrow> 'sol TabuSearch" where
  "newTabuSearch str iniSol start limit =
     LocalSearch.extend (newLocalSearch str iniSol start limit) \<lparr>tabuTenure = 15, tabuList = []\<rparr>"

definition size_t :: "int \<Rightarrow> nat" where "size_t i = nat (i mod 2 ^ 64)"

definition updateTabuList :: "int \<Rightarrow> ElementTuple \<Rightarrow> ElementTuple list \<Rightarrow> ElementTuple list option" where
  "updateTabuList tenure move tabus = do {
     tabus \<leftarrow> (if length tabus \<ge> size_t tenure
               then (case tabus of [] \<Rightarrow> None | _ # rest \<Rightarrow> Some rest)
               else Some tabus);
     Some (tabus @ [move]) }"

definition removeFromTabuList :: "int \<Rightarrow> ElementTuple list \<Rightarrow> ElementTuple list option" where
  "removeFromTabuList index tabus =
     (if index > -1 \<and> index < int (length tabus)
      then Some (take (nat index) tabus @ drop (nat index + 1) tabus) else None)"

fun tabu_index :: "int \<Rightarrow> ElementTuple list \<Rightarrow> ElementTuple \<Rightarrow> int option" where
  "tabu_index i [] move = Some (-1)"
| "tabu_index i (t # ts) move =
     (case movesAreEqual t move of
        None \<Rightarrow> None
      | Some True \<Rightarrow> Some i
      | Some False \<Rightarrow> tabu_index (i + 1) ts move)"

definition getMoveFromTabuList :: "ElementTuple list \<Rightarrow> ElementTuple \<Rightarrow> int option" where
  "getMoveFromTabuList tabus move = tabu_index 0 tabus move"

section \<open>The choice of the move\<close>

record 'sol best_move =
  bestMove :: ElementTuple
  bestImprovement :: int
  bestSolutionWithMove :: "'sol option"
  flag_toogoodmove :: bool

fun tabu_scan ::
  "'sol services \<Rightarrow> 'sol TabuSearch \<Rightarrow> 'sol \<Rightarrow> int \<Rightarrow> ElementTuple list \<Rightarrow> 'sol best_move \<Rightarrow> 'sol best_move option" where
  "tabu_scan S ls currentSol currentObj [] b = Some b"
| "tabu_scan S ls currentSol currentObj (move # moves) b = do {
     let solutionWithMove = decode S currentSol move;
     deltaObj \<leftarrow> map_option (\<lambda>q. q solutionWithMove) (queryDeltaObj S);
     indexInTabulist \<leftarrow> getMoveFromTabuList (tabuList ls) move;
     let b =
       (if indexInTabulist > -1 then
          (if currentObj + deltaObj < bestObjVal ls
           then b\<lparr>bestImprovement := deltaObj, bestMove := move, flag_toogoodmove := True\<rparr>
           else b)
        else
          (if deltaObj < bestImprovement b
           then b\<lparr>bestImprovement := deltaObj, bestMove := move,
                  bestSolutionWithMove := Some solutionWithMove\<rparr>
           else b));
     tabu_scan S ls currentSol currentObj moves b }"

text \<open>The structure with the chosen move, which may be null, and the new tabu list.\<close>

definition getBestMove ::
  "'sol services \<Rightarrow> 'sol TabuSearch \<Rightarrow> 'sol \<Rightarrow> ElementTuple list \<Rightarrow> ('sol option \<times> ElementTuple list) option" where
  "getBestMove S ls currentSol moves = do {
     let currentObj = queryGetObj S currentSol;
     b \<leftarrow> tabu_scan S ls currentSol currentObj moves
           \<lparr>bestMove = [], bestImprovement = 100000, bestSolutionWithMove = None, flag_toogoodmove = False\<rparr>;
     if bestImprovement b = 100000 then do {
       move \<leftarrow> front (tabuList ls);
       tabus \<leftarrow> removeFromTabuList 0 (tabuList ls);
       Some (Some (decode S currentSol move), tabus) }
     else if \<not> flag_toogoodmove b then do {
       tabus \<leftarrow> updateTabuList (tabuTenure ls) (bestMove b) (tabuList ls);
       Some (bestSolutionWithMove b, tabus) }
     else Some (bestSolutionWithMove b, tabuList ls) }"

section \<open>The search\<close>

function tabu_loop ::
  "'sol services \<Rightarrow> 'sol TabuSearch \<Rightarrow> 'sol \<Rightarrow> int list \<Rightarrow> 'sol TabuSearch option" where
  "tabu_loop S ls currentSol clock =
     (case timeout (LocalSearch.truncate ls) clock of
        (True, _) \<Rightarrow> Some ls
      | (False, clock') \<Rightarrow> do {
          moves \<leftarrow> getValidMoves S currentSol;
          if length moves = 0 then Some ls
          else do {
            (bestSolWithMove, tabus) \<leftarrow> getBestMove S ls currentSol moves;
            swm \<leftarrow> bestSolWithMove;
            newsol \<leftarrow> getNeighborSolution S swm;
            let obj = queryGetObj S newsol;
            let ls = ls\<lparr>tabuList := tabus\<rparr>;
            let ls = (if obj < bestObjVal ls then ls\<lparr>bestObjVal := obj, bestSol := Some newsol\<rparr> else ls);
            tabu_loop S ls newsol clock' } })"
  by pat_completeness auto

termination
  by (relation "measure (\<lambda>(S, ls, s, clock). length clock)")
    (simp_all add: timeout_shorter [OF sym])

declare tabu_loop.simps [simp del]

definition TabuSearch_doSearch :: "'sol services \<Rightarrow> 'sol TabuSearch \<Rightarrow> int list \<Rightarrow> 'sol TabuSearch option" where
  "TabuSearch_doSearch S ls clock = do {
     base \<leftarrow> LocalSearch_doSearch S (LocalSearch.truncate ls);
     let ls = LocalSearch.extend base \<lparr>tabuTenure = tabuTenure ls, tabuList = tabuList ls\<rparr>;
     currentSol \<leftarrow> initialSol ls;
     ls \<leftarrow> tabu_loop S ls currentSol clock;
     Some (if bestSol ls = None then ls\<lparr>bestSol := initialSol ls\<rparr> else ls) }"

section \<open>The tabu list is a bounded queue\<close>

lemma updateTabuList_ok:
  assumes "0 < size_t tenure"
  shows "\<exists>ts. updateTabuList tenure move tabus = Some ts \<and> last ts = move \<and> ts \<noteq> []
     \<and> length ts \<le> max (length tabus) (size_t tenure)
     \<and> (length tabus \<le> size_t tenure \<longrightarrow> ts = drop (length tabus + 1 - size_t tenure) (tabus @ [move]))"
proof (cases "length tabus \<ge> size_t tenure")
  case True
  then obtain t ts where ts: "tabus = t # ts" using assms by (cases tabus) auto
  have "drop (length tabus + 1 - size_t tenure) (tabus @ [move]) = ts @ [move]"
    if "length tabus \<le> size_t tenure"
  proof -
    have "length tabus + 1 - size_t tenure = 1" using that True by simp
    then show ?thesis by (simp add: ts)
  qed
  then show ?thesis using True by (simp add: updateTabuList_def ts)
next
  case False
  then have "length tabus + 1 - size_t tenure = 0" by simp
  then show ?thesis using False by (simp add: updateTabuList_def)
qed

definition same_columns :: "ElementTuple list \<Rightarrow> bool" where
  "same_columns ms \<longleftrightarrow> (\<forall>x \<in> set ms. \<forall>y \<in> set ms. list_all2 same_type x y) \<and> (\<forall>x \<in> set ms. list_all flat x)"

lemma tabu_index_ok:
  assumes "\<forall>t \<in> set ts. list_all2 same_type t move \<and> list_all flat t"
  shows "\<exists>j. tabu_index i ts move = Some j \<and> (if move \<in> set ts then i \<le> j else j = -1)"
  using assms
proof (induction ts arbitrary: i)
  case (Cons t ts)
  then have e: "movesAreEqual t move = Some (t = move)" by (intro movesAreEqual_iff) auto
  show ?case
  proof (cases "t = move")
    case True
    then show ?thesis using e by simp
  next
    case False
    from Cons.IH [of "i + 1"] Cons.prems obtain j where
      j: "tabu_index (i + 1) ts move = Some j" "if move \<in> set ts then i + 1 \<le> j else j = -1" by auto
    then show ?thesis using e False by (auto split: if_splits)
  qed
qed simp

lemma getMoveFromTabuList_ok:
  assumes "\<forall>t \<in> set ts. list_all2 same_type t move \<and> list_all flat t"
  shows "\<exists>j. getMoveFromTabuList ts move = Some j \<and> (j > -1 \<longleftrightarrow> move \<in> set ts)"
  using tabu_index_ok [OF assms, of 0] by (auto simp: getMoveFromTabuList_def split: if_splits)

section \<open>Without aspiration the best allowed move is taken\<close>

definition allowed :: "'sol TabuSearch \<Rightarrow> ElementTuple list \<Rightarrow> ElementTuple list" where
  "allowed ls ms = filter (\<lambda>m. m \<notin> set (tabuList ls)) ms"

definition no_aspiration :: "('sol \<Rightarrow> int) \<Rightarrow> 'sol services \<Rightarrow> 'sol TabuSearch \<Rightarrow> 'sol \<Rightarrow> ElementTuple list \<Rightarrow> bool" where
  "no_aspiration q S ls s ms \<longleftrightarrow>
     (\<forall>m \<in> set ms. m \<in> set (tabuList ls) \<longrightarrow> \<not> queryGetObj S s + q (decode S s m) < bestObjVal ls)"

lemma tabu_scan_ok:
  assumes "queryDeltaObj S = Some q" "same_columns (tabuList ls @ ms)" "no_aspiration q S ls s ms"
    "ob = queryGetObj S s"
  shows "\<exists>b'. tabu_scan S ls s ob ms b = Some b' \<and> flag_toogoodmove b' = flag_toogoodmove b
     \<and> bestImprovement b' \<le> bestImprovement b
     \<and> (\<forall>m \<in> set (allowed ls ms). bestImprovement b' \<le> q (decode S s m))
     \<and> (b' = b \<or> bestMove b' \<in> set (allowed ls ms) \<and> bestImprovement b' < bestImprovement b
          \<and> bestSolutionWithMove b' = Some (decode S s (bestMove b'))
          \<and> bestImprovement b' = q (decode S s (bestMove b')))"
  using assms
proof (induction ms arbitrary: b)
  case (Cons m ms)
  have sc: "same_columns (tabuList ls @ ms)" using Cons.prems(2) by (auto simp: same_columns_def)
  have na: "no_aspiration q S ls s ms" using Cons.prems(3) by (simp add: no_aspiration_def)
  note IH = Cons.IH [OF Cons.prems(1) sc na Cons.prems(4)]
  have "\<forall>t \<in> set (tabuList ls). list_all2 same_type t m \<and> list_all flat t"
    using Cons.prems(2) by (auto simp: same_columns_def)
  from getMoveFromTabuList_ok [OF this] obtain j where
    j: "getMoveFromTabuList (tabuList ls) m = Some j" "(j > -1) = (m \<in> set (tabuList ls))" by blast
  let ?d = "q (decode S s m)"
  let ?b = "b\<lparr>bestImprovement := ?d, bestMove := m, bestSolutionWithMove := Some (decode S s m)\<rparr>"
  show ?case
  proof (cases "m \<notin> set (tabuList ls) \<and> ?d < bestImprovement b")
    case True
    have "tabu_scan S ls s ob (m # ms) b = tabu_scan S ls s ob ms ?b"
      using Cons.prems(1) j True by (simp add: Let_def)
    then show ?thesis using IH [of ?b] True by (auto simp: allowed_def)
  next
    case False
    have "tabu_scan S ls s ob (m # ms) b = tabu_scan S ls s ob ms b"
      using Cons.prems(1,3,4) j False by (auto simp: Let_def no_aspiration_def)
    then show ?thesis using IH [of b] False by (auto simp: allowed_def)
  qed
qed (simp add: allowed_def)

lemma getBestMove_ok:
  assumes "queryDeltaObj S = Some q" "same_columns (tabuList ls @ ms)" "no_aspiration q S ls s ms"
    "m0 \<in> set (allowed ls ms)" "q (decode S s m0) < 100000"
    "0 < size_t (tabuTenure ls)"
  shows "\<exists>m tabus. getBestMove S ls s ms = Some (Some (decode S s m), tabus) \<and> m \<in> set (allowed ls ms)
     \<and> (\<forall>m' \<in> set (allowed ls ms). q (decode S s m) \<le> q (decode S s m'))
     \<and> updateTabuList (tabuTenure ls) m (tabuList ls) = Some tabus"
proof -
  let ?b0 = "\<lparr>bestMove = [], bestImprovement = 100000, bestSolutionWithMove = None, flag_toogoodmove = False\<rparr>"
  from tabu_scan_ok [OF assms(1-3) refl, of ?b0] obtain b where b:
    "tabu_scan S ls s (queryGetObj S s) ms ?b0 = Some b" "\<not> flag_toogoodmove b"
    "\<forall>m \<in> set (allowed ls ms). bestImprovement b \<le> q (decode S s m)"
    "b = ?b0 \<or> bestMove b \<in> set (allowed ls ms) \<and> bestImprovement b < 100000
          \<and> bestSolutionWithMove b = Some (decode S s (bestMove b))
          \<and> bestImprovement b = q (decode S s (bestMove b))" by auto
  have "bestImprovement b < 100000" using b(3) assms(4,5) by force
  with b(4) have r: "bestMove b \<in> set (allowed ls ms)"
    "bestSolutionWithMove b = Some (decode S s (bestMove b))"
    "bestImprovement b = q (decode S s (bestMove b))" by auto
  from updateTabuList_ok [OF assms(6)] obtain tabus where
    u: "updateTabuList (tabuTenure ls) (bestMove b) (tabuList ls) = Some tabus" by blast
  have "getBestMove S ls s ms = Some (Some (decode S s (bestMove b)), tabus)"
    using b(1,2) r u \<open>bestImprovement b < 100000\<close> by (simp add: getBestMove_def Let_def)
  then show ?thesis using r b(3) u by auto
qed

section \<open>What every run preserves\<close>

lemma updateTabuList_length:
  "updateTabuList tenure move tabus = Some ts \<Longrightarrow> length ts \<le> max (length tabus) (size_t tenure)"
  by (auto simp: updateTabuList_def bind_eq_Some_iff split: if_splits list.splits)

lemma getBestMove_length:
  assumes "getBestMove S ls s ms = Some (sw, ts)"
  shows "length ts \<le> max (length (tabuList ls)) (size_t (tabuTenure ls))"
  using assms updateTabuList_length
  by (fastforce simp: getBestMove_def Let_def bind_eq_Some_iff removeFromTabuList_def le_max_iff_disj
      split: if_splits)

definition tabu_inv :: "'sol services \<Rightarrow> 'sol TabuSearch \<Rightarrow> 'sol TabuSearch \<Rightarrow> bool" where
  "tabu_inv S ls ls' \<longleftrightarrow> tabuTenure ls' = tabuTenure ls \<and> initialSol ls' = initialSol ls
     \<and> iniObjVal ls' = iniObjVal ls \<and> bestObjVal ls' \<le> bestObjVal ls
     \<and> length (tabuList ls') \<le> max (length (tabuList ls)) (size_t (tabuTenure ls))
     \<and> (bestSol ls' = bestSol ls \<and> bestObjVal ls' = bestObjVal ls
        \<or> (\<exists>b. bestSol ls' = Some b \<and> bestObjVal ls' = queryGetObj S b \<and> bestObjVal ls' < bestObjVal ls))"

lemma tabu_inv_refl: "tabu_inv S ls ls"
  by (simp add: tabu_inv_def)

lemma tabu_inv_trans: "tabu_inv S a b \<Longrightarrow> tabu_inv S b c \<Longrightarrow> tabu_inv S a c"
  by (auto simp: tabu_inv_def)

lemma tabu_loop_inv: "tabu_loop S ls cur clock = Some ls' \<Longrightarrow> tabu_inv S ls ls'"
proof (induction "length clock" arbitrary: ls cur clock rule: less_induct)
  case less
  obtain t cl where tm: "timeout (LocalSearch.truncate ls) clock = (t, cl)"
    by (cases "timeout (LocalSearch.truncate ls) clock")
  show ?case
  proof (cases t)
    case True
    then show ?thesis using less.prems tm by (subst (asm) tabu_loop.simps) (simp add: tabu_inv_refl)
  next
    case False
    then have len: "length cl < length clock" using tm timeout_shorter [of "LocalSearch.truncate ls" clock cl] by simp
    obtain ms where ms: "getValidMoves S cur = Some ms"
      using less.prems tm False by (subst (asm) tabu_loop.simps) (auto simp: bind_eq_Some_iff)
    show ?thesis
    proof (cases "ms = []")
      case True
      then show ?thesis using less.prems tm False ms
        by (subst (asm) tabu_loop.simps) (simp add: tabu_inv_refl)
    next
      case ne: False
      obtain swm tabus new where g: "getBestMove S ls cur ms = Some (Some swm, tabus)"
        "getNeighborSolution S swm = Some new"
        using less.prems tm False ms ne
        by (subst (asm) tabu_loop.simps) (auto simp: bind_eq_Some_iff Let_def)
      let ?ls = "ls\<lparr>tabuList := tabus\<rparr>"
      let ?ls2 = "if queryGetObj S new < bestObjVal ?ls
        then ?ls\<lparr>bestObjVal := queryGetObj S new, bestSol := Some new\<rparr> else ?ls"
      have "tabu_loop S ?ls2 new cl = Some ls'"
        using less.prems tm False ms ne g by (subst (asm) tabu_loop.simps) (simp add: Let_def)
      then have "tabu_inv S ?ls2 ls'" by (rule less.hyps [OF len])
      moreover have "tabu_inv S ls ?ls2"
        using getBestMove_length [OF g(1)] by (auto simp: tabu_inv_def)
      ultimately show ?thesis using tabu_inv_trans by blast
    qed
  qed
qed

section \<open>The aspiration criterion\<close>

lemma tabu_scan_forbidden:
  assumes "queryDeltaObj S = Some q" "same_columns (tabuList ls)" "set ms \<subseteq> set (tabuList ls)"
  shows "\<exists>b'. tabu_scan S ls s ob ms b = Some b' \<and> bestSolutionWithMove b' = bestSolutionWithMove b
     \<and> (if \<exists>m \<in> set ms. ob + q (decode S s m) < bestObjVal ls
        then flag_toogoodmove b' \<and> (\<exists>m \<in> set ms. bestImprovement b' = q (decode S s m)
               \<and> ob + q (decode S s m) < bestObjVal ls)
        else b' = b)"
  using assms(3)
proof (induction ms arbitrary: b)
  case (Cons m ms)
  have "\<forall>t \<in> set (tabuList ls). list_all2 same_type t m \<and> list_all flat t"
    using assms(2) Cons.prems by (auto simp: same_columns_def)
  from getMoveFromTabuList_ok [OF this] Cons.prems obtain j where
    j: "getMoveFromTabuList (tabuList ls) m = Some j" "j > -1" by auto
  let ?d = "q (decode S s m)"
  let ?b = "if ob + ?d < bestObjVal ls
    then b\<lparr>bestImprovement := ?d, bestMove := m, flag_toogoodmove := True\<rparr> else b"
  have run: "tabu_scan S ls s ob (m # ms) b = tabu_scan S ls s ob ms ?b"
    using assms(1) j by (simp add: Let_def)
  from Cons.IH [of ?b] Cons.prems obtain b' where IH: "tabu_scan S ls s ob ms ?b = Some b'"
    "bestSolutionWithMove b' = bestSolutionWithMove ?b"
    "if \<exists>m \<in> set ms. ob + q (decode S s m) < bestObjVal ls
        then flag_toogoodmove b' \<and> (\<exists>m \<in> set ms. bestImprovement b' = q (decode S s m)
               \<and> ob + q (decode S s m) < bestObjVal ls)
        else b' = ?b" by auto
  then show ?case unfolding run by (auto split: if_splits)
qed simp

lemma getBestMove_forbidden:
  assumes "queryDeltaObj S = Some q" "same_columns (tabuList ls)" "set ms \<subseteq> set (tabuList ls)"
    "\<exists>m \<in> set ms. queryGetObj S s + q (decode S s m) < bestObjVal ls"
    "\<forall>m \<in> set ms. q (decode S s m) \<noteq> 100000"
  shows "getBestMove S ls s ms = Some (None, tabuList ls)"
proof -
  let ?b0 = "\<lparr>bestMove = [], bestImprovement = 100000, bestSolutionWithMove = None, flag_toogoodmove = False\<rparr>"
  from tabu_scan_forbidden [OF assms(1-3), of s "queryGetObj S s" ?b0] assms(4) obtain b where
    "tabu_scan S ls s (queryGetObj S s) ms ?b0 = Some b" "bestSolutionWithMove b = None" "flag_toogoodmove b"
    "\<exists>m \<in> set ms. bestImprovement b = q (decode S s m)" by auto
  then show ?thesis using assms(5) by (auto simp: getBestMove_def Let_def)
qed

end
