(* ===== verification/LS_ILS.thy ===== *)
theory LS_ILS
  imports LS_Tabu
begin

text \<open>
  Iterated local search over several neighbourhoods (\<open>src/inferences/localsearch/ILS.cpp\<close>). Every
  iteration creates a search of the configured type for the next neighbourhood, starts it in the
  current solution and continues from its best solution.

  All neighbourhoods share the objective and the model expansion of the theory; each has its own
  moves, so a neighbourhood is a \<open>services\<close> record. An iteration is described by the clock readings
  it makes: at \<open>timeout\<close>, at the creation of the inner search, and inside the inner search. The
  inner search has the full time limit again. The tenure of an inner tabu search is the
  uninitialised field of the copying constructor.
\<close>

record 'sol ILS = "'sol LocalSearch" +
  listLSType :: "LocalSearchType list"
  listmovemodelling :: "'sol services list"
  currentSol :: 'sol
  currentObjVal :: int

definition ILS_getNextMove :: "int \<Rightarrow> 'sol services list \<Rightarrow> int" where
  "ILS_getNextMove currentmoveindex moves =
     (let i = currentmoveindex + 1 in if i = int (length moves) then 0 else i)"

text \<open>The inner search: its best solution and objective and the objective it started from.\<close>

definition runSearch ::
  "LocalSearchType \<Rightarrow> 'sol services \<Rightarrow> 'sol LocalSearch \<Rightarrow> int \<Rightarrow> int list \<Rightarrow> 'sol LocalSearch option" where
  "runSearch lstype S ls garbage clock =
     (case lstype of
        BESTIMPROVE \<Rightarrow> BestImprovementSearch_doSearch S ls clock
      | TABU \<Rightarrow> map_option LocalSearch.truncate
          (TabuSearch_doSearch S (LocalSearch.extend ls \<lparr>tabuTenure = garbage, tabuList = []\<rparr>) clock)
      | _ \<Rightarrow> FirstImprovementSearch_doSearch S ls clock)"

definition doSingleNeighbourhoodSearch ::
  "'sol ILS \<Rightarrow> LocalSearchType \<Rightarrow> 'sol services \<Rightarrow> int \<Rightarrow> int \<Rightarrow> int list \<Rightarrow> ('sol ILS \<times> int) option" where
  "doSingleNeighbourhoodSearch ils lstype S garbage start clock = do {
     let ls = newLocalSearch (strucInput ils) (initialSol ils) start (timeout_clock ils);
     let ls = setInitialSolution (currentSol ils) ls;
     ls \<leftarrow> runSearch lstype S ls garbage clock;
     b \<leftarrow> bestSol ls;
     Some (ils\<lparr>currentSol := b, currentObjVal := bestObjVal ls\<rparr>, bestObjVal ls - iniObjVal ls) }"

type_synonym iteration = "int \<times> int \<times> int list"

fun ils_loop :: "'sol ILS \<Rightarrow> int \<Rightarrow> nat \<Rightarrow> int \<Rightarrow> iteration list \<Rightarrow> 'sol ILS option" where
  "ils_loop ils moveindex iterationsWithoutImprovement garbage [] = Some ils"
| "ils_loop ils moveindex iterationsWithoutImprovement garbage ((now, start, clock) # its) =
     (if fst (timeout (LocalSearch.truncate ils) [now]) then Some ils
      else
        let moveindex = ILS_getNextMove moveindex (listmovemodelling ils) in
        if moveindex < 0 \<or> moveindex \<ge> int (length (listmovemodelling ils))
          \<or> moveindex \<ge> int (length (listLSType ils)) then None
        else do {
          (ils, deltaobj) \<leftarrow>
            doSingleNeighbourhoodSearch ils (listLSType ils ! nat moveindex)
              (listmovemodelling ils ! nat moveindex) garbage start clock;
          if deltaobj < 0 then
            (let ils = (if currentObjVal ils < bestObjVal ils
                        then ils\<lparr>bestObjVal := currentObjVal ils, bestSol := Some (currentSol ils)\<rparr>
                        else ils)
             in ils_loop ils moveindex 0 garbage its)
          else
            (let n = iterationsWithoutImprovement + 1 in
             if n > length (listmovemodelling ils) then Some ils
             else ils_loop ils moveindex n garbage its) })"

definition ILS_doSearch ::
  "'sol services \<Rightarrow> 'sol LocalSearch \<Rightarrow> LocalSearchType list \<Rightarrow> 'sol services list \<Rightarrow> int
    \<Rightarrow> iteration list \<Rightarrow> 'sol ILS option" where
  "ILS_doSearch S ls types moves garbage its = do {
     ls \<leftarrow> LocalSearch_doSearch S ls;
     s \<leftarrow> initialSol ls;
     ils_loop (LocalSearch.extend ls \<lparr>listLSType = types, listmovemodelling = moves, currentSol = s,
                 currentObjVal = iniObjVal ls\<rparr>) (-1) 0 garbage its }"

section \<open>Every inner descent is accounted for\<close>

text \<open>The neighbourhoods of the search: each gives a search space over the same solutions, and a
  solution, being complete, is its only expansion.\<close>

definition neighbourhoods :: "'sol services list \<Rightarrow> ('sol \<Rightarrow> int) \<Rightarrow> 'sol set \<Rightarrow> int \<Rightarrow> bool" where
  "neighbourhoods moves q Sols L \<longleftrightarrow>
     (\<forall>S \<in> set moves. search_space S Sols L \<and> queryGetObj S = q \<and> queryDeltaObj S \<noteq> None
        \<and> (\<forall>s \<in> Sols. front (doModelExpansion S s) = Some s))"

definition descent_type :: "LocalSearchType \<Rightarrow> bool" where
  "descent_type t \<longleftrightarrow> t \<noteq> TABU"

lemma runSearch_ok:
  assumes "neighbourhoods moves q Sols L" "S \<in> set moves" "initialSol ls = Some s" "iniSolIsGiven ls" "s \<in> Sols"
    "descent_type t"
  shows "\<exists>ls' b. runSearch t S ls garbage clock = Some ls' \<and> bestSol ls' = Some b \<and> b \<in> Sols
     \<and> (move_step S)\<^sup>*\<^sup>* s b \<and> bestObjVal ls' = q b \<and> iniObjVal ls' = q s \<and> q b \<le> q s"
proof -
  from assms(1,2) have S: "search_space S Sols L" "queryGetObj S = q" "queryDeltaObj S \<noteq> None"
    "front (doModelExpansion S s) = Some s" using assms(5) by (auto simp: neighbourhoods_def)
  let ?ls = "ls\<lparr>initialSol := Some s, iniObjVal := q s, bestObjVal := q s, bestSol := None\<rparr>"
  have start: "LocalSearch_doSearch S ls = Some ?ls"
    using assms(3,4) S by (simp add: LocalSearch_doSearch_def getInitialSolution_def)
  have fin: "\<exists>b'. bestSol (bestOrInitial ls') = Some b' \<and> b' = b \<and> bestObjVal (bestOrInitial ls') = q b
      \<and> iniObjVal (bestOrInitial ls') = q s" if "descended S Sols ?ls s ls' b" for ls' b
    using that same_frame_fields [of ?ls ls'] S(2) by (auto simp: descended_def bestOrInitial_def)
  show ?thesis
  proof (cases "t = BESTIMPROVE")
    case True
    from S(3) obtain qd where "queryDeltaObj S = Some qd" by blast
    from best_loop_ok [OF S(1) this assms(5) refl, of ?ls clock] S(2) obtain ls' b where
      B: "best_loop S ?ls s (q s) clock = Some ls'" "descended S Sols ?ls s ls' b" by auto
    have "runSearch t S ls garbage clock
        = Some ((bestOrInitial ls')\<lparr>bestObjVal := q b\<rparr>)"
      using True start B fin [OF B(2)] S(2)
      by (auto simp: runSearch_def BestImprovementSearch_doSearch_def Let_def)
    then show ?thesis using fin [OF B(2)] B(2) S(2) by (auto simp: descended_def)
  next
    case False
    from first_loop_ok [OF S(1) assms(5) refl, of ?ls clock 0] S(2) obtain ls' b where
      B: "first_loop S ?ls s (q s) clock = Some ls'" "descended S Sols ?ls s ls' b" by auto
    have "runSearch t S ls garbage clock = Some (bestOrInitial ls')"
      using False assms(6) start B
      by (cases t) (auto simp: runSearch_def FirstImprovementSearch_doSearch_def descent_type_def)
    then show ?thesis using fin [OF B(2)] B(2) S(2) by (auto simp: descended_def)
  qed
qed

text \<open>The state between two iterations.\<close>

definition ils_inv :: "('sol \<Rightarrow> int) \<Rightarrow> 'sol set \<Rightarrow> 'sol ILS \<Rightarrow> bool" where
  "ils_inv q Sols ils \<longleftrightarrow> currentSol ils \<in> Sols \<and> currentObjVal ils = q (currentSol ils)
     \<and> bestObjVal ils = currentObjVal ils
     \<and> (bestSol ils = None \<and> bestObjVal ils = iniObjVal ils
        \<or> (\<exists>b \<in> Sols. bestSol ils = Some b \<and> bestObjVal ils = q b \<and> bestObjVal ils < iniObjVal ils))"

lemma truncate_timeout: "timeout (LocalSearch.truncate (ils\<lparr>currentSol := a, currentObjVal := b\<rparr>)) = timeout (LocalSearch.truncate ils)"
  by (rule ext, case_tac x) (simp_all add: LocalSearch.truncate_def)

lemma ils_loop_ok:
  assumes "neighbourhoods (listmovemodelling ils) q Sols L" "listmovemodelling ils \<noteq> []"
    "length (listLSType ils) = length (listmovemodelling ils)" "\<forall>t \<in> set (listLSType ils). descent_type t"
    "ils_inv q Sols ils" "-1 \<le> idx" "idx < int (length (listmovemodelling ils))"
  shows "\<exists>ils'. ils_loop ils idx n garbage its = Some ils' \<and> ils_inv q Sols ils'
     \<and> bestObjVal ils' \<le> bestObjVal ils \<and> iniObjVal ils' = iniObjVal ils"
  using assms
proof (induction its arbitrary: ils idx n)
  case (Cons it its)
  obtain now start clock where it: "it = (now, start, clock)" by (cases it)
  let ?moves = "listmovemodelling ils"
  let ?i = "ILS_getNextMove idx ?moves"
  have i: "0 \<le> ?i" "?i < int (length ?moves)"
    using Cons.prems(2,6,7) by (auto simp: ILS_getNextMove_def Let_def)
  let ?S = "?moves ! nat ?i" and ?t = "listLSType ils ! nat ?i"
  have mem: "?S \<in> set ?moves" "descent_type ?t" using i Cons.prems(3,4) by auto
  show ?case
  proof (cases "fst (timeout (LocalSearch.truncate ils) [now])")
    case True
    then show ?thesis using Cons.prems(5) by (simp add: it)
  next
    case nt: False
    let ?ls = "setInitialSolution (currentSol ils)
        (newLocalSearch (strucInput ils) (initialSol ils) start (timeout_clock ils))"
    have s: "initialSol ?ls = Some (currentSol ils)" "iniSolIsGiven ?ls" by (simp_all add: setInitialSolution_def)
    have cur: "currentSol ils \<in> Sols" using Cons.prems(5) by (simp add: ils_inv_def)
    from runSearch_ok [OF Cons.prems(1) mem(1) s cur mem(2), of garbage clock] obtain ls' b where
      R: "runSearch ?t ?S ?ls garbage clock = Some ls'" "bestSol ls' = Some b" "b \<in> Sols"
        "bestObjVal ls' = q b" "iniObjVal ls' = q (currentSol ils)" "q b \<le> q (currentSol ils)" by blast
    let ?ils = "ils\<lparr>currentSol := b, currentObjVal := q b\<rparr>"
    have D: "doSingleNeighbourhoodSearch ils ?t ?S garbage start clock = Some (?ils, q b - q (currentSol ils))"
      using R by (simp add: doSingleNeighbourhoodSearch_def Let_def)
    show ?thesis
    proof (cases "q b < q (currentSol ils)")
      case True
      let ?ils2 = "?ils\<lparr>bestObjVal := q b, bestSol := Some b\<rparr>"
      have better: "q b < bestObjVal ils" using True Cons.prems(5) by (simp add: ils_inv_def)
      have run: "ils_loop ils idx n garbage (it # its) = ils_loop ?ils2 ?i 0 garbage its"
        using nt i Cons.prems(3) D True better by (simp add: it Let_def)
      have inv: "ils_inv q Sols ?ils2" using Cons.prems(5) R(3) True by (auto simp: ils_inv_def)
      have "\<exists>ils'. ils_loop ?ils2 ?i 0 garbage its = Some ils' \<and> ils_inv q Sols ils'
          \<and> bestObjVal ils' \<le> bestObjVal ?ils2 \<and> iniObjVal ils' = iniObjVal ?ils2"
        by (rule Cons.IH) (use Cons.prems inv i in simp_all)
      then show ?thesis using run better by auto
    next
      case False
      have eq: "q b = q (currentSol ils)" using False R(6) by simp
      have inv: "ils_inv q Sols ?ils" using Cons.prems(5) R(3) eq by (auto simp: ils_inv_def)
      have run: "ils_loop ils idx n garbage (it # its)
          = (if n + 1 > length ?moves then Some ?ils else ils_loop ?ils ?i (n + 1) garbage its)"
        using nt i Cons.prems(3) D False by (simp add: it Let_def)
      have "\<exists>ils'. ils_loop ?ils ?i (n + 1) garbage its = Some ils' \<and> ils_inv q Sols ils'
          \<and> bestObjVal ils' \<le> bestObjVal ?ils \<and> iniObjVal ils' = iniObjVal ?ils"
        by (rule Cons.IH) (use Cons.prems inv i in simp_all)
      then show ?thesis using run inv by auto
    qed
  qed
qed simp

end
