(* ===== verification/LS_LNS.thy ===== *)
theory LS_LNS
  imports LS_Search
begin

text \<open>
  Large neighbourhood search (\<open>src/inferences/localsearch/LargeNeighbourhoodSearch.cpp\<close>): the
  bookkeeping of enabled moves, the random choices, the destruction of a part of the solution and
  the search loop.

  Random numbers are arguments: an iteration of the search is described by its clock reading, the number
  drawn for the choice of the move and the sequence of numbers drawn while the solution is disturbed. The
  inferences that a disturbance calls (queries, minimisation) and the access to the tables of the decision
  variables are arguments too. A table is the list of its tuples in iteration order.
  \<open>getNextMove\<close> is a \<open>partial_function\<close>: \<open>None\<close> means that it does not return.
\<close>

section \<open>Random numbers\<close>

text \<open>\<open>rand() % (b - a + 1) + a\<close>; the remainder of a division by zero is not defined.\<close>

definition getRandom :: "int \<Rightarrow> int \<Rightarrow> nat \<Rightarrow> int option" where
  "getRandom a b r = (if b - a + 1 = 0 then None else Some (int r mod \<bar>b - a + 1\<bar> + a))"

lemma getRandom_range: "a \<le> b \<Longrightarrow> \<exists>i. getRandom a b r = Some i \<and> a \<le> i \<and> i \<le> b"
  by (simp add: getRandom_def) (smt (verit) pos_mod_bound pos_mod_sign)

section \<open>Enabled moves\<close>

record 'sol LNSMove =
  enable :: bool
  queryGetRandVar_Domain :: "('sol \<Rightarrow> ElementTuple list) option"
  randomVariablesDomain :: "ElementTuple list option"
  tabulist :: "int list"

record 'sol lns_moves =
  lEnabledMoves :: "nat list"
  lConcreteMovemodelling :: "'sol LNSMove list"

definition set_enable :: "nat \<Rightarrow> bool \<Rightarrow> 'sol LNSMove list \<Rightarrow> 'sol LNSMove list" where
  "set_enable i b ms = ms[i := (ms ! i)\<lparr>enable := b\<rparr>]"

definition enableMove :: "int \<Rightarrow> 'sol lns_moves \<Rightarrow> 'sol lns_moves" where
  "enableMove index st =
     (if index < 0 \<or> index \<ge> int (length (lConcreteMovemodelling st)) then st
      else if enable (lConcreteMovemodelling st ! nat index) then st
      else st\<lparr>lConcreteMovemodelling := set_enable (nat index) True (lConcreteMovemodelling st),
             lEnabledMoves := lEnabledMoves st @ [nat index]\<rparr>)"

fun erase_first :: "nat \<Rightarrow> nat list \<Rightarrow> nat list" where
  "erase_first index [] = []"
| "erase_first index (x # xs) = (if x = index then xs else x # erase_first index xs)"

definition disableMove :: "int \<Rightarrow> 'sol lns_moves \<Rightarrow> 'sol lns_moves" where
  "disableMove index st =
     (if index < 0 \<or> index \<ge> int (length (lConcreteMovemodelling st)) then st
      else if \<not> enable (lConcreteMovemodelling st ! nat index) then st
      else st\<lparr>lConcreteMovemodelling := set_enable (nat index) False (lConcreteMovemodelling st),
             lEnabledMoves := erase_first (nat index) (lEnabledMoves st)\<rparr>)"

definition getRandomMove :: "nat \<Rightarrow> 'sol lns_moves \<Rightarrow> int option" where
  "getRandomMove r st =
     (if length (lEnabledMoves st) = 0 then Some (-1)
      else do {
        moveindex \<leftarrow> getRandom 0 (int (length (lEnabledMoves st))) r;
        if moveindex = int (length (lEnabledMoves st)) then Some 1000
        else Some (int (lEnabledMoves st ! nat moveindex)) })"

partial_function (option) nextMove_loop :: "int \<Rightarrow> int \<Rightarrow> 'sol LNSMove list \<Rightarrow> int option" where
  "nextMove_loop currentmoveindex i ms =
     (if i < int (length ms) then
        (if enable (ms ! nat i) then Some i
         else
           (let i = (if i = int (length ms) - 1 then 0 else i) in
            if i = currentmoveindex then Some (-1)
            else nextMove_loop currentmoveindex (i + 1) ms))
      else Some (-1))"

definition getNextMove :: "int \<Rightarrow> 'sol LNSMove list \<Rightarrow> int option" where
  "getNextMove currentmoveindex ms =
     (let i = currentmoveindex + 1;
          i = (if i = int (length ms) then 0 else i)
      in nextMove_loop currentmoveindex i ms)"

definition resetRandomVariablesDomain :: "'sol \<Rightarrow> 'sol LNSMove \<Rightarrow> (bool \<times> 'sol LNSMove) option" where
  "resetRandomVariablesDomain currentsol move = do {
     q \<leftarrow> queryGetRandVar_Domain move;
     let rdom = q currentsol;
     Some (rdom \<noteq> [], move\<lparr>randomVariablesDomain := Some rdom\<rparr>) }"

definition isTabu :: "int \<Rightarrow> 'sol LNSMove \<Rightarrow> bool" where
  "isTabu index move = (index \<in> set (tabulist move))"

fun signal_moves :: "nat \<Rightarrow> nat \<Rightarrow> 'sol \<Rightarrow> 'sol lns_moves \<Rightarrow> 'sol lns_moves" where
  "signal_moves i 0 currentsol st = st"
| "signal_moves i (Suc n) currentsol st =
     (let st' =
        (case resetRandomVariablesDomain currentsol (lConcreteMovemodelling st ! i) of
           None \<Rightarrow> st
         | Some (ok, move) \<Rightarrow>
             let st1 = st\<lparr>lConcreteMovemodelling := (lConcreteMovemodelling st)[i := move]\<rparr>
             in if \<not> ok then disableMove (int i) st1 else st1)
      in signal_moves (Suc i) n currentsol st')"

definition signalChangeCurrentSolution :: "'sol \<Rightarrow> 'sol lns_moves \<Rightarrow> 'sol lns_moves" where
  "signalChangeCurrentSolution currentsol st =
     signal_moves 0 (length (lConcreteMovemodelling st)) currentsol st"

fun enable_from :: "nat \<Rightarrow> nat \<Rightarrow> 'sol lns_moves \<Rightarrow> 'sol lns_moves" where
  "enable_from i 0 st = st"
| "enable_from i (Suc n) st = enable_from (Suc i) n (enableMove (int i) st)"

definition newLNSMove :: "('sol \<Rightarrow> ElementTuple list) option \<Rightarrow> 'sol LNSMove" where
  "newLNSMove q = \<lparr>enable = False, queryGetRandVar_Domain = q, randomVariablesDomain = None, tabulist = []\<rparr>"

text \<open>The part of \<open>processInputData\<close> that creates and enables the moves.\<close>

definition processInputData :: "('sol \<Rightarrow> ElementTuple list) option list \<Rightarrow> 'sol lns_moves" where
  "processInputData qs =
     enable_from 0 (length qs) \<lparr>lEnabledMoves = [], lConcreteMovemodelling = map newLNSMove qs\<rparr>"

section \<open>Random variables\<close>

definition getVarAtIndex :: "int \<Rightarrow> ElementTuple list \<Rightarrow> ElementTuple" where
  "getVarAtIndex index rdom = (if 0 \<le> index \<and> index < int (length rdom) then rdom ! nat index else [])"

definition getaRandomVar :: "nat \<Rightarrow> 'sol LNSMove \<Rightarrow> ElementTuple option" where
  "getaRandomVar r move = do {
     rdom \<leftarrow> randomVariablesDomain move;
     i \<leftarrow> getRandom 0 (int (length rdom) - 1) r;
     Some (getVarAtIndex i rdom) }"

text \<open>The choice of one element per random variable (\<open>chooseRandomVars\<close>, without a domain query):
  the variables are given by their sort and the size of its domain, two numbers are drawn for
  each variable. The result holds the chosen indices.\<close>

fun choose_indices :: "(nat \<times> int) list \<Rightarrow> (nat \<times> nat) list \<Rightarrow> int \<Rightarrow> nat option \<Rightarrow> int list option" where
  "choose_indices [] rs previousindex preSort = Some []"
| "choose_indices ((srt, randvarsize) # vars) [] previousindex preSort = None"
| "choose_indices ((srt, randvarsize) # vars) ((r1, r2) # rs) previousindex preSort = do {
     vardeletedindex \<leftarrow> getRandom 0 (randvarsize - 1) r1;
     vardeletedindex \<leftarrow>
       (if vardeletedindex = previousindex \<and> randvarsize > 1 \<and> preSort = Some srt then
          (if vardeletedindex < randvarsize div 2
           then getRandom (vardeletedindex + 1) (randvarsize - 1) r2
           else getRandom 0 (vardeletedindex - 1) r2)
        else Some vardeletedindex);
     rest \<leftarrow> choose_indices vars rs vardeletedindex (Some srt);
     Some (vardeletedindex # rest) }"

section \<open>Destroying a part of the solution\<close>

fun remove_window :: "int \<Rightarrow> int \<Rightarrow> int \<Rightarrow> ElementTuple list \<Rightarrow> ElementTuple list" where
  "remove_window i startindex endindex [] = []"
| "remove_window i startindex endindex (t # ts) =
     (if i \<ge> startindex \<and> i \<le> endindex then remove_window (i + 1) startindex endindex ts
      else t # remove_window (i + 1) startindex endindex ts)"

definition changeInterRandomly :: "ElementTuple list \<Rightarrow> int \<Rightarrow> nat \<Rightarrow> ElementTuple list option" where
  "changeInterRandomly cttable strength r = do {
     let size = int (length cttable);
     let strength = (if strength \<ge> size then size - 1 else strength);
     startindex \<leftarrow> getRandom 0 (size - strength - 1) r;
     let endindex = startindex + strength;
     Some (remove_window 0 startindex endindex cttable) }"

definition UpdateInterWithDeletedTable ::
  "ElementTuple list \<Rightarrow> ElementTuple list \<Rightarrow> ElementTuple list \<Rightarrow> ElementTuple list \<times> ElementTuple list" where
  "UpdateInterWithDeletedTable cttable cftable deleteTable =
     (filter (\<lambda>t. t \<notin> set deleteTable) cttable, filter (\<lambda>t. t \<notin> set deleteTable) cftable)"

section \<open>The search\<close>

text \<open>What a disturbance needs of other parts: the tables of certainly true and certainly false tuples of the
  decision variables in a structure; the input structure with such tables put in; the sorts of the random
  variables of a move with the elements of their domains; the answer to the query of a move on the current
  solution with the chosen values; and the models that minimisation gives (pointers, of which the first is
  used).\<close>

record 'sol lns_services =
  decisionTables :: "'sol \<Rightarrow> ElementTuple list \<times> ElementTuple list"
  withTrueTable :: "ElementTuple list \<Rightarrow> 'sol"
  withTables :: "ElementTuple list \<Rightarrow> ElementTuple list \<Rightarrow> 'sol"
  randVars :: "int \<Rightarrow> (nat \<times> DomainElement list) list"
  queryGetMove :: "int \<Rightarrow> 'sol \<Rightarrow> ElementTuple \<Rightarrow> ElementTuple list"
  doMinimization :: "'sol \<Rightarrow> 'sol option list"

text \<open>\<open>models[0]\<close>; that there are no models is only reported, so then the access is outside the vector.\<close>

definition first_model :: "'sol option list \<Rightarrow> 'sol option option" where
  "first_model models = (case models of [] \<Rightarrow> None | m # _ \<Rightarrow> Some m)"

definition chooseRandomVars :: "(nat \<times> DomainElement list) list \<Rightarrow> 'sol LNSMove \<Rightarrow> (nat \<Rightarrow> nat) \<Rightarrow> ElementTuple option" where
  "chooseRandomVars vars chosenmove r =
     (if queryGetRandVar_Domain chosenmove \<noteq> None then do {
        de \<leftarrow> getaRandomVar (r 0) chosenmove;
        if length vars \<le> length de then Some (take (length vars) de) else None }
      else do {
        is \<leftarrow> choose_indices (map (\<lambda>(srt, dom). (srt, int (length dom))) vars)
               (map (\<lambda>i. (r (2 * i), r (2 * i + 1))) [0..<length vars]) (-1) None;
        Some (map2 (\<lambda>(srt, dom) i. dom ! nat i) vars is) })"

definition disturbSolutionRandomly :: "'sol lns_services \<Rightarrow> 'sol \<Rightarrow> int \<Rightarrow> (nat \<Rightarrow> nat) \<Rightarrow> 'sol option option" where
  "disturbSolutionRandomly D currentsol strength r = do {
     ct \<leftarrow> changeInterRandomly (fst (decisionTables D currentsol)) strength (r 0);
     first_model (doMinimization D (withTrueTable D ct)) }"

definition disturbFromMove :: "'sol lns_services \<Rightarrow> 'sol \<Rightarrow> int \<Rightarrow> (nat \<Rightarrow> nat) \<Rightarrow> 'sol lns_moves \<Rightarrow> 'sol option option" where
  "disturbFromMove D currentsol moveindex r st =
     (if moveindex < 0 \<or> moveindex \<ge> int (length (lConcreteMovemodelling st)) then None
      else do {
        vars \<leftarrow> chooseRandomVars (randVars D moveindex) (lConcreteMovemodelling st ! nat moveindex) r;
        let deletedVariables = queryGetMove D moveindex currentsol vars;
        let (ct, cf) = decisionTables D currentsol;
        let (newcttable, newcftable) = UpdateInterWithDeletedTable ct cf deletedVariables;
        first_model (doMinimization D (withTables D newcttable newcftable)) })"

text \<open>\<open>_mMinDisturbSize\<close>, \<open>_mMaxDisturbSize\<close> and \<open>_mMaxItersNoImprove\<close>.\<close>

definition mMinDisturbSize :: int where "mMinDisturbSize = 10"
definition mMaxDisturbSize :: int where "mMaxDisturbSize = 50"
definition mMaxItersNoImprove :: nat where "mMaxItersNoImprove = 10"

text \<open>An iteration: the clock, the number drawn for the move and those drawn for the disturbance.\<close>

type_synonym draw = "int \<times> nat \<times> (nat \<Rightarrow> nat)"

text \<open>Why the loop ended.\<close>

datatype stop = TimedOut | MaxStrength | NoMoves

fun lns_loop ::
  "'sol services \<Rightarrow> 'sol lns_services \<Rightarrow> 'sol LocalSearch \<Rightarrow> 'sol lns_moves \<Rightarrow> 'sol \<Rightarrow> int \<Rightarrow> int \<Rightarrow> nat
    \<Rightarrow> draw list \<Rightarrow> (stop \<times> 'sol LocalSearch \<times> 'sol lns_moves) option" where
  "lns_loop S D ls st currentSol currentobj strength iterationsWithoutImprovement [] =
     Some (TimedOut, ls, st)"
| "lns_loop S D ls st currentSol currentobj strength iterationsWithoutImprovement ((clock, r1, r2) # draws) =
     (if fst (timeout ls [clock]) then Some (TimedOut, ls, st)
      else
        let strength = (if iterationsWithoutImprovement \<ge> mMaxItersNoImprove then strength + 1 else strength) in
        if strength \<ge> mMaxDisturbSize then Some (MaxStrength, ls, st)
        else do {
          moveindex \<leftarrow> getRandomMove r1 st;
          if moveindex = -1 then Some (NoMoves, ls, st)
          else do {
            newsol \<leftarrow> (if moveindex = 1000 then disturbSolutionRandomly D currentSol strength r2
                       else disturbFromMove D currentSol moveindex r2 st);
            case newsol of
              None \<Rightarrow> lns_loop S D ls st currentSol currentobj strength iterationsWithoutImprovement draws
            | Some newsol \<Rightarrow>
                let newobj = queryGetObj S newsol;
                    (currentSol, currentobj, st) =
                      (if newobj < currentobj then (newsol, newobj, signalChangeCurrentSolution newsol st)
                       else (currentSol, currentobj, st));
                    (ls, iters) =
                      (if newobj < bestObjVal ls
                       then (ls\<lparr>bestObjVal := newobj, bestSol := Some currentSol\<rparr>, 0)
                       else (ls, iterationsWithoutImprovement + 1))
                in lns_loop S D ls st currentSol currentobj strength iters draws } })"

definition LargeNeighbourhoodSearch_doSearch ::
  "'sol services \<Rightarrow> 'sol lns_services \<Rightarrow> 'sol LocalSearch \<Rightarrow> 'sol lns_moves \<Rightarrow> draw list
    \<Rightarrow> (stop \<times> 'sol LocalSearch \<times> 'sol lns_moves) option" where
  "LargeNeighbourhoodSearch_doSearch S D ls st draws = do {
     ls \<leftarrow> LocalSearch_doSearch S ls;
     currentSol \<leftarrow> initialSol ls;
     let st = signalChangeCurrentSolution currentSol st;
     let ls = ls\<lparr>bestObjVal := iniObjVal ls\<rparr>;
     (why, ls, st) \<leftarrow> lns_loop S D ls st currentSol (iniObjVal ls) mMinDisturbSize 0 draws;
     Some (why, bestOrInitial ls, st) }"

section \<open>The list of enabled moves agrees with the flags\<close>

definition moves_inv :: "'sol lns_moves \<Rightarrow> bool" where
  "moves_inv st \<longleftrightarrow> distinct (lEnabledMoves st)
     \<and> (\<forall>i. i \<in> set (lEnabledMoves st) \<longleftrightarrow>
          i < length (lConcreteMovemodelling st) \<and> enable (lConcreteMovemodelling st ! i))"

lemma set_erase_first: "distinct xs \<Longrightarrow> set (erase_first i xs) = set xs - {i} \<and> distinct (erase_first i xs)"
  by (induction xs) auto

lemma enable_set_enable:
  "i < length ms \<Longrightarrow> j < length ms \<Longrightarrow> enable (set_enable i b ms ! j) = (if i = j then b else enable (ms ! j))"
  by (simp add: set_enable_def)

lemma length_set_enable [simp]: "length (set_enable i b ms) = length ms"
  by (simp add: set_enable_def)

definition flags :: "nat list \<Rightarrow> 'sol LNSMove list \<Rightarrow> bool" where
  "flags xs ms \<longleftrightarrow> distinct xs \<and> (\<forall>i. i \<in> set xs \<longleftrightarrow> i < length ms \<and> enable (ms ! i))"

lemma moves_inv_flags: "moves_inv st \<longleftrightarrow> flags (lEnabledMoves st) (lConcreteMovemodelling st)"
  by (simp add: moves_inv_def flags_def)

lemma flags_mem: "flags xs ms \<Longrightarrow> i \<in> set xs \<longleftrightarrow> i < length ms \<and> enable (ms ! i)"
  by (simp add: flags_def)

lemma flags_change:
  assumes "flags xs ms" "k < length ms" "distinct ys" "set ys = (if b then insert k (set xs) else set xs - {k})"
  shows "flags ys (set_enable k b ms)"
  unfolding flags_def
proof (intro conjI allI)
  fix i
  have m: "i \<in> set xs \<longleftrightarrow> i < length ms \<and> enable (ms ! i)" by (rule flags_mem [OF assms(1)])
  show "i \<in> set ys \<longleftrightarrow> i < length (set_enable k b ms) \<and> enable (set_enable k b ms ! i)"
  proof (cases "i = k")
    case True
    then show ?thesis using assms(2,4) enable_set_enable [OF assms(2) assms(2)] by simp
  next
    case False
    then show ?thesis using assms(2,4) m by (simp add: set_enable_def)
  qed
qed (rule assms(3))

lemma moves_inv_lt: "moves_inv st \<Longrightarrow> j \<in> set (lEnabledMoves st) \<Longrightarrow> j < length (lConcreteMovemodelling st)"
  by (simp add: moves_inv_flags flags_mem)

lemma enableMove_ok:
  assumes "moves_inv st"
  shows "moves_inv (enableMove i st)
    \<and> set (lEnabledMoves (enableMove i st)) = set (lEnabledMoves st)
       \<union> {j. int j = i \<and> j < length (lConcreteMovemodelling st)}
    \<and> length (lConcreteMovemodelling (enableMove i st)) = length (lConcreteMovemodelling st)"
proof (cases "i < 0 \<or> i \<ge> int (length (lConcreteMovemodelling st))")
  case True
  then show ?thesis using assms by (auto simp: enableMove_def)
next
  case False
  then obtain k where k: "i = int k" "k < length (lConcreteMovemodelling st)"
    by (metis not_le not_less of_nat_less_iff zero_le_imp_eq_int)
  have inv: "flags (lEnabledMoves st) (lConcreteMovemodelling st)" using assms by (simp add: moves_inv_flags)
  show ?thesis
  proof (cases "enable (lConcreteMovemodelling st ! k)")
    case True
    then have "k \<in> set (lEnabledMoves st)" using flags_mem [OF inv] k(2) by simp
    then show ?thesis using True assms k by (auto simp: enableMove_def)
  next
    case False
    then have nin: "k \<notin> set (lEnabledMoves st)" using flags_mem [OF inv] by simp
    have "flags (lEnabledMoves st @ [k]) (set_enable k True (lConcreteMovemodelling st))"
      by (rule flags_change [OF inv k(2)]) (use nin inv in \<open>auto simp: flags_def\<close>)
    then show ?thesis using False k by (auto simp: enableMove_def moves_inv_flags)
  qed
qed

lemma disableMove_ok:
  assumes "moves_inv st"
  shows "moves_inv (disableMove i st)
    \<and> set (lEnabledMoves (disableMove i st)) = set (lEnabledMoves st) - {j. int j = i}
    \<and> length (lConcreteMovemodelling (disableMove i st)) = length (lConcreteMovemodelling st)"
proof (cases "i < 0 \<or> i \<ge> int (length (lConcreteMovemodelling st))")
  case True
  have "int j \<noteq> i" if "j \<in> set (lEnabledMoves st)" for j
    using moves_inv_lt [OF assms that] True by auto
  then have "set (lEnabledMoves st) - {j. int j = i} = set (lEnabledMoves st)" by blast
  then show ?thesis using assms True by (simp add: disableMove_def)
next
  case False
  then obtain k where k: "i = int k" "k < length (lConcreteMovemodelling st)"
    by (metis not_le not_less of_nat_less_iff zero_le_imp_eq_int)
  have inv: "flags (lEnabledMoves st) (lConcreteMovemodelling st)" using assms by (simp add: moves_inv_flags)
  have d: "distinct (lEnabledMoves st)" using inv by (simp add: flags_def)
  note er = set_erase_first [OF d, of k]
  have e: "{j. int j = i} = {k}" using k(1) by auto
  show ?thesis
  proof (cases "enable (lConcreteMovemodelling st ! k)")
    case False
    then have "k \<notin> set (lEnabledMoves st)" using flags_mem [OF inv] by simp
    then show ?thesis using False assms k e by (simp add: disableMove_def)
  next
    case True
    have "flags (erase_first k (lEnabledMoves st)) (set_enable k False (lConcreteMovemodelling st))"
      by (rule flags_change [OF inv k(2)]) (use er in simp_all)
    then show ?thesis using True k er e by (simp add: disableMove_def moves_inv_flags)
  qed
qed

lemma enable_from_ok:
  assumes "moves_inv st" "i + n \<le> length (lConcreteMovemodelling st)"
  shows "moves_inv (enable_from i n st) \<and> set (lEnabledMoves (enable_from i n st)) = set (lEnabledMoves st) \<union> {i..<i + n}
    \<and> length (lConcreteMovemodelling (enable_from i n st)) = length (lConcreteMovemodelling st)"
  using assms
proof (induction n arbitrary: i st)
  case (Suc n)
  note E0 = enableMove_ok [OF Suc.prems(1), of "int i"]
  note E = conjunct1 [OF E0] conjunct1 [OF conjunct2 [OF E0]] conjunct2 [OF conjunct2 [OF E0]]
  have "moves_inv (enable_from (Suc i) n (enableMove (int i) st))
    \<and> set (lEnabledMoves (enable_from (Suc i) n (enableMove (int i) st)))
        = set (lEnabledMoves (enableMove (int i) st)) \<union> {Suc i..<Suc i + n}
    \<and> length (lConcreteMovemodelling (enable_from (Suc i) n (enableMove (int i) st)))
        = length (lConcreteMovemodelling (enableMove (int i) st))"
    by (rule Suc.IH [OF E(1)]) (use Suc.prems E(3) in simp)
  moreover have "set (lEnabledMoves (enableMove (int i) st)) = insert i (set (lEnabledMoves st))"
  proof -
    have "{j. int j = int i \<and> j < length (lConcreteMovemodelling st)} = {i}" using Suc.prems(2) by auto
    then show ?thesis using E(2) by simp
  qed
  moreover have "{i..<i + Suc n} = insert i {Suc i..<Suc i + n}" by auto
  ultimately show ?case using E(3) by simp
qed simp

lemma processInputData_ok:
  "moves_inv (processInputData qs) \<and> set (lEnabledMoves (processInputData qs)) = {0..<length qs}"
proof -
  have "moves_inv \<lparr>lEnabledMoves = [], lConcreteMovemodelling = map newLNSMove qs\<rparr>"
    by (auto simp: moves_inv_def newLNSMove_def)
  from enable_from_ok [OF this, of 0 "length qs"] show ?thesis by (simp add: processInputData_def)
qed

lemma reset_moves_inv:
  assumes "moves_inv st" "i < length (lConcreteMovemodelling st)"
    "enable move = enable (lConcreteMovemodelling st ! i)"
  shows "moves_inv (st\<lparr>lConcreteMovemodelling := (lConcreteMovemodelling st)[i := move]\<rparr>)"
  using assms by (auto simp: moves_inv_def nth_list_update)

lemma reset_keeps: "resetRandomVariablesDomain s move = Some (ok, move') \<Longrightarrow> enable move' = enable move
    \<and> queryGetRandVar_Domain move' = queryGetRandVar_Domain move \<and> tabulist move' = tabulist move"
  by (auto simp: resetRandomVariablesDomain_def bind_eq_Some_iff Let_def)

text \<open>A signalled change disables exactly the moves whose domain query is empty, and enables none.\<close>

definition has_domain :: "'sol \<Rightarrow> 'sol LNSMove \<Rightarrow> bool" where
  "has_domain s move \<longleftrightarrow> (case queryGetRandVar_Domain move of None \<Rightarrow> True | Some q \<Rightarrow> q s \<noteq> [])"

lemma signal_moves_ok:
  assumes "moves_inv st" "i + n = length (lConcreteMovemodelling st)"
  shows "moves_inv (signal_moves i n s st)
    \<and> set (lEnabledMoves (signal_moves i n s st))
       = {j \<in> set (lEnabledMoves st). i \<le> j \<longrightarrow> has_domain s (lConcreteMovemodelling st ! j)}
    \<and> map queryGetRandVar_Domain (lConcreteMovemodelling (signal_moves i n s st))
       = map queryGetRandVar_Domain (lConcreteMovemodelling st)"
  using assms
proof (induction n arbitrary: i st)
  case 0
  have "\<not> i \<le> j" if "j \<in> set (lEnabledMoves st)" for j
    using moves_inv_lt [OF 0(1) that] 0(2) by simp
  then have "{j \<in> set (lEnabledMoves st). i \<le> j \<longrightarrow> has_domain s (lConcreteMovemodelling st ! j)}
      = set (lEnabledMoves st)" by blast
  then show ?case using 0(1) by simp
next
  case (Suc n)
  note dis = disableMove_ok
  let ?ms = "lConcreteMovemodelling st"
  have i: "i < length ?ms" using Suc.prems(2) by simp
  define st' where "st' = (case resetRandomVariablesDomain s (?ms ! i) of None \<Rightarrow> st
     | Some (ok, move) \<Rightarrow>
         let st1 = st\<lparr>lConcreteMovemodelling := ?ms[i := move]\<rparr>
         in if \<not> ok then disableMove (int i) st1 else st1)"
  have st': "moves_inv st' \<and> length (lConcreteMovemodelling st') = length ?ms
    \<and> set (lEnabledMoves st') = {j \<in> set (lEnabledMoves st). j = i \<longrightarrow> has_domain s (?ms ! j)}
    \<and> map queryGetRandVar_Domain (lConcreteMovemodelling st') = map queryGetRandVar_Domain ?ms"
  proof (cases "resetRandomVariablesDomain s (?ms ! i)")
    case None
    then have "has_domain s (?ms ! i)"
      by (cases "queryGetRandVar_Domain (?ms ! i)")
        (simp_all add: resetRandomVariablesDomain_def has_domain_def Let_def)
    then show ?thesis using None Suc.prems(1) by (auto simp: st'_def)
  next
    case (Some r)
    obtain ok move where r: "r = (ok, move)" by (cases r)
    note keep = reset_keeps [OF Some [unfolded r]]
    have ok: "ok = has_domain s (?ms ! i)"
      using Some r by (auto simp: resetRandomVariablesDomain_def has_domain_def bind_eq_Some_iff Let_def)
    let ?st1 = "st\<lparr>lConcreteMovemodelling := ?ms[i := move]\<rparr>"
    have inv1: "moves_inv ?st1" by (rule reset_moves_inv [OF Suc.prems(1) i]) (use keep in simp)
    have q1: "map queryGetRandVar_Domain (?ms[i := move]) = map queryGetRandVar_Domain ?ms"
      using keep i by (simp add: map_update list_update_same_conv)
    show ?thesis
    proof (cases ok)
      case True
      then show ?thesis using Some r inv1 q1 ok by (auto simp: st'_def Let_def)
    next
      case False
      have "j = i" if "int j = int i" for j using that by simp
      then have D: "moves_inv (disableMove (int i) ?st1)"
        "set (lEnabledMoves (disableMove (int i) ?st1)) = set (lEnabledMoves st) - {i}"
        "length (lConcreteMovemodelling (disableMove (int i) ?st1)) = length ?ms"
        using dis [OF inv1, of "int i"] by auto
      have "map queryGetRandVar_Domain (lConcreteMovemodelling (disableMove (int i) ?st1))
          = map queryGetRandVar_Domain (?ms[i := move])"
        by (auto simp: disableMove_def set_enable_def map_update list_update_same_conv nth_list_update)
      then show ?thesis using Some r False D q1 ok by (auto simp: st'_def Let_def)
    qed
  qed
  have n: "Suc i + n = length (lConcreteMovemodelling st')" using Suc.prems(2) st' by simp
  have dom_eq: "has_domain s (lConcreteMovemodelling st' ! j) = has_domain s (?ms ! j)" if "j < length ?ms" for j
  proof -
    have "map queryGetRandVar_Domain (lConcreteMovemodelling st') ! j = map queryGetRandVar_Domain ?ms ! j"
      using st' by simp
    moreover have "length (lConcreteMovemodelling st') = length ?ms" using st' by blast
    ultimately have "queryGetRandVar_Domain (lConcreteMovemodelling st' ! j) = queryGetRandVar_Domain (?ms ! j)"
      using that by simp
    then show ?thesis by (simp add: has_domain_def)
  qed
  have lt: "j < length ?ms" if "j \<in> set (lEnabledMoves st)" for j
    using Suc.prems(1) that by (rule moves_inv_lt)
  have run: "signal_moves i (Suc n) s st = signal_moves (Suc i) n s st'"
    by (simp add: st'_def Let_def)
  have "{j \<in> set (lEnabledMoves st'). Suc i \<le> j \<longrightarrow> has_domain s (lConcreteMovemodelling st' ! j)}
      = {j \<in> set (lEnabledMoves st). i \<le> j \<longrightarrow> has_domain s (?ms ! j)}"
    using st' dom_eq lt by (auto simp: le_eq_less_or_eq Suc_le_eq)
  then show ?case using Suc.IH [OF conjunct1 [OF st'] n] st' unfolding run by simp
qed

lemma signalChange_ok:
  assumes "moves_inv st"
  shows "moves_inv (signalChangeCurrentSolution s st)"
    "set (lEnabledMoves (signalChangeCurrentSolution s st))
       = {j \<in> set (lEnabledMoves st). has_domain s (lConcreteMovemodelling st ! j)}"
  using signal_moves_ok [OF assms, of 0 "length (lConcreteMovemodelling st)" s]
  by (simp_all add: signalChangeCurrentSolution_def)

text \<open>Every enabled move with a domain query has the answer of the query on the current solution at hand, and
  it is not empty.\<close>

definition signalled :: "'sol \<Rightarrow> 'sol lns_moves \<Rightarrow> bool" where
  "signalled s st \<longleftrightarrow> (\<forall>j \<in> set (lEnabledMoves st). \<forall>q. queryGetRandVar_Domain (lConcreteMovemodelling st ! j) = Some q
     \<longrightarrow> randomVariablesDomain (lConcreteMovemodelling st ! j) = Some (q s) \<and> q s \<noteq> [])"

lemma set_enable_fields [simp]:
  "randomVariablesDomain (set_enable k b ms ! j) = randomVariablesDomain (ms ! j)"
  "queryGetRandVar_Domain (set_enable k b ms ! j) = queryGetRandVar_Domain (ms ! j)"
proof -
  have "set_enable k b ms ! j = (if k = j \<and> j < length ms then (ms ! k)\<lparr>enable := b\<rparr> else ms ! j)"
    by (cases "k = j"; cases "j < length ms") (simp_all add: set_enable_def list_update_beyond)
  then show "randomVariablesDomain (set_enable k b ms ! j) = randomVariablesDomain (ms ! j)"
    "queryGetRandVar_Domain (set_enable k b ms ! j) = queryGetRandVar_Domain (ms ! j)" by simp_all
qed

lemma disableMove_fields:
  "length (lConcreteMovemodelling (disableMove i st)) = length (lConcreteMovemodelling st)"
  "randomVariablesDomain (lConcreteMovemodelling (disableMove i st) ! j) = randomVariablesDomain (lConcreteMovemodelling st ! j)"
  "queryGetRandVar_Domain (lConcreteMovemodelling (disableMove i st) ! j) = queryGetRandVar_Domain (lConcreteMovemodelling st ! j)"
  unfolding disableMove_def by simp_all

lemma signal_moves_domain:
  assumes "i + n = length (lConcreteMovemodelling st)" "j < length (lConcreteMovemodelling st)"
  shows "length (lConcreteMovemodelling (signal_moves i n s st)) = length (lConcreteMovemodelling st)
    \<and> queryGetRandVar_Domain (lConcreteMovemodelling (signal_moves i n s st) ! j) = queryGetRandVar_Domain (lConcreteMovemodelling st ! j)
    \<and> randomVariablesDomain (lConcreteMovemodelling (signal_moves i n s st) ! j)
        = (case queryGetRandVar_Domain (lConcreteMovemodelling st ! j) of
             Some q \<Rightarrow> if i \<le> j then Some (q s) else randomVariablesDomain (lConcreteMovemodelling st ! j)
           | None \<Rightarrow> randomVariablesDomain (lConcreteMovemodelling st ! j))"
  using assms
proof (induction n arbitrary: i st)
  case 0
  then show ?case by (simp split: option.split)
next
  case (Suc n)
  let ?ms = "lConcreteMovemodelling st"
  define st' where "st' = (case resetRandomVariablesDomain s (?ms ! i) of None \<Rightarrow> st
     | Some (ok, move) \<Rightarrow>
         let st1 = st\<lparr>lConcreteMovemodelling := ?ms[i := move]\<rparr>
         in if \<not> ok then disableMove (int i) st1 else st1)"
  have run: "signal_moves i (Suc n) s st = signal_moves (Suc i) n s st'" by (simp add: st'_def Let_def)
  have st': "length (lConcreteMovemodelling st') = length ?ms
      \<and> queryGetRandVar_Domain (lConcreteMovemodelling st' ! j) = queryGetRandVar_Domain (?ms ! j)
      \<and> randomVariablesDomain (lConcreteMovemodelling st' ! j)
        = (case queryGetRandVar_Domain (?ms ! j) of
             Some q \<Rightarrow> if i = j then Some (q s) else randomVariablesDomain (?ms ! j) | None \<Rightarrow> randomVariablesDomain (?ms ! j))"
  proof (cases "queryGetRandVar_Domain (?ms ! i)")
    case None
    then have "st' = st" by (simp add: st'_def resetRandomVariablesDomain_def)
    then show ?thesis using None by (auto split: option.split)
  next
    case (Some q)
    then have st': "st' = (let st1 = st\<lparr>lConcreteMovemodelling := ?ms[i := (?ms ! i)\<lparr>randomVariablesDomain := Some (q s)\<rparr>]\<rparr>
        in if q s = [] then disableMove (int i) st1 else st1)"
      by (simp add: st'_def resetRandomVariablesDomain_def Let_def)
    show ?thesis using Some Suc.prems(2)
      by (cases "i = j") (auto simp: st' Let_def disableMove_fields split: option.split)
  qed
  show ?case unfolding run using Suc.IH [of "Suc i" st'] st' Suc.prems
    by (auto simp: le_eq_less_or_eq Suc_le_eq split: option.splits)
qed

lemma signalChange_signalled:
  assumes "moves_inv st"
  shows "signalled s (signalChangeCurrentSolution s st)"
    "map queryGetRandVar_Domain (lConcreteMovemodelling (signalChangeCurrentSolution s st)) = map queryGetRandVar_Domain (lConcreteMovemodelling st)"
proof -
  let ?st = "signalChangeCurrentSolution s st"
  have d: "queryGetRandVar_Domain (lConcreteMovemodelling ?st ! j) = queryGetRandVar_Domain (lConcreteMovemodelling st ! j)
      \<and> (\<forall>q. queryGetRandVar_Domain (lConcreteMovemodelling st ! j) = Some q \<longrightarrow> randomVariablesDomain (lConcreteMovemodelling ?st ! j) = Some (q s))"
    if "j < length (lConcreteMovemodelling st)" for j
    using signal_moves_domain [of 0 "length (lConcreteMovemodelling st)" st j s] that by (simp add: signalChangeCurrentSolution_def)
  have en: "j \<in> set (lEnabledMoves st) \<and> has_domain s (lConcreteMovemodelling st ! j)" if "j \<in> set (lEnabledMoves ?st)" for j
    using that signalChange_ok(2) [OF assms, of s] by simp
  show "signalled s ?st" unfolding signalled_def
  proof (intro ballI allI impI)
    fix j q assume j: "j \<in> set (lEnabledMoves ?st)" "queryGetRandVar_Domain (lConcreteMovemodelling ?st ! j) = Some q"
    note lt = moves_inv_lt [OF assms conjunct1 [OF en [OF j(1)]]]
    have "queryGetRandVar_Domain (lConcreteMovemodelling st ! j) = Some q" using d [OF lt] j(2) by simp
    then show "randomVariablesDomain (lConcreteMovemodelling ?st ! j) = Some (q s) \<and> q s \<noteq> []"
      using d [OF lt] en [OF j(1)] by (simp add: has_domain_def)
  qed
  show "map queryGetRandVar_Domain (lConcreteMovemodelling ?st) = map queryGetRandVar_Domain (lConcreteMovemodelling st)"
    using signal_moves_ok [OF assms, of 0 "length (lConcreteMovemodelling st)" s] by (simp add: signalChangeCurrentSolution_def)
qed

lemma getRandomMove_ok:
  assumes "moves_inv st"
  shows "\<exists>m. getRandomMove r st = Some m
    \<and> (m = -1 \<and> lEnabledMoves st = [] \<or> m = 1000 \<and> lEnabledMoves st \<noteq> [] \<or> m \<in> int ` set (lEnabledMoves st))"
proof (cases "lEnabledMoves st = []")
  case False
  obtain i where i: "getRandom 0 (int (length (lEnabledMoves st))) r = Some i" "0 \<le> i"
    "i \<le> int (length (lEnabledMoves st))"
    using getRandom_range [of 0 "int (length (lEnabledMoves st))" r] by auto
  show ?thesis
  proof (cases "i = int (length (lEnabledMoves st))")
    case True
    then show ?thesis using False i by (simp add: getRandomMove_def)
  next
    case ne: False
    then have "nat i < length (lEnabledMoves st)" using i(2,3) by simp
    then show ?thesis using False i ne by (simp add: getRandomMove_def)
  qed
qed (simp add: getRandomMove_def)

section \<open>Random choices stay in range\<close>

lemma choose_indices_ok:
  assumes "\<forall>v \<in> set vars. 0 < snd v" "length vars \<le> length rs"
  shows "\<exists>is. choose_indices vars rs p s = Some is \<and> length is = length vars
     \<and> (\<forall>k < length vars. 0 \<le> is ! k \<and> is ! k < snd (vars ! k))
     \<and> (\<forall>k. Suc k < length vars \<longrightarrow> fst (vars ! k) = fst (vars ! Suc k) \<longrightarrow> snd (vars ! k) = snd (vars ! Suc k)
          \<longrightarrow> 1 < snd (vars ! Suc k) \<longrightarrow> is ! k \<noteq> is ! Suc k)
     \<and> (vars \<noteq> [] \<longrightarrow> s = Some (fst (hd vars)) \<longrightarrow> 1 < snd (hd vars) \<longrightarrow> is ! 0 \<noteq> p)"
  using assms
proof (induction vars rs p s rule: choose_indices.induct)
  case (3 srt n vars r1 r2 rs p s)
  have n: "0 < n" using 3(2) by simp
  obtain i where i: "getRandom 0 (n - 1) r1 = Some i" "0 \<le> i" "i < n"
    using getRandom_range [of 0 "n - 1" r1] n by auto
  obtain j where j: "(if i = p \<and> n > 1 \<and> s = Some srt then
          (if i < n div 2 then getRandom (i + 1) (n - 1) r2 else getRandom 0 (i - 1) r2)
        else Some i) = Some j" "0 \<le> j" "j < n" "s = Some srt \<longrightarrow> 1 < n \<longrightarrow> j \<noteq> p"
  proof (cases "i = p \<and> n > 1 \<and> s = Some srt")
    case False
    then show ?thesis using that [of i] i by auto
  next
    case c: True
    show ?thesis
    proof (cases "i < n div 2")
      case True
      then have "i + 1 \<le> n - 1" using c by linarith
      then obtain j where "getRandom (i + 1) (n - 1) r2 = Some j" "i + 1 \<le> j" "j \<le> n - 1"
        using getRandom_range by blast
      then show ?thesis using that [of j] c True i(2) by auto
    next
      case False
      then have "0 \<le> i - 1" using c by linarith
      then obtain j where "getRandom 0 (i - 1) r2 = Some j" "0 \<le> j" "j \<le> i - 1"
        using getRandom_range by blast
      then show ?thesis using that [of j] c False i(3) by auto
    qed
  qed
  have "\<exists>is. choose_indices vars rs j (Some srt) = Some is \<and> length is = length vars
     \<and> (\<forall>k < length vars. 0 \<le> is ! k \<and> is ! k < snd (vars ! k))
     \<and> (\<forall>k. Suc k < length vars \<longrightarrow> fst (vars ! k) = fst (vars ! Suc k) \<longrightarrow> snd (vars ! k) = snd (vars ! Suc k)
          \<longrightarrow> 1 < snd (vars ! Suc k) \<longrightarrow> is ! k \<noteq> is ! Suc k)
     \<and> (vars \<noteq> [] \<longrightarrow> Some srt = Some (fst (hd vars)) \<longrightarrow> 1 < snd (hd vars) \<longrightarrow> is ! 0 \<noteq> j)"
    by (rule 3(1) [OF i(1) j(1)]) (use 3(2,3) in auto)
  then obtain "is" where I: "choose_indices vars rs j (Some srt) = Some is" "length is = length vars"
     "\<forall>k < length vars. 0 \<le> is ! k \<and> is ! k < snd (vars ! k)"
     "\<forall>k. Suc k < length vars \<longrightarrow> fst (vars ! k) = fst (vars ! Suc k) \<longrightarrow> snd (vars ! k) = snd (vars ! Suc k)
          \<longrightarrow> 1 < snd (vars ! Suc k) \<longrightarrow> is ! k \<noteq> is ! Suc k"
     "vars \<noteq> [] \<longrightarrow> srt = fst (hd vars) \<longrightarrow> 1 < snd (hd vars) \<longrightarrow> is ! 0 \<noteq> j" by auto
  have "choose_indices ((srt, n) # vars) ((r1, r2) # rs) p s = Some (j # is)"
    using i(1) j(1) I(1) by simp
  moreover have "0 \<le> (j # is) ! k \<and> (j # is) ! k < snd (((srt, n) # vars) ! k)" if "k < Suc (length vars)" for k
    using that j(2,3) I(3) by (cases k) auto
  moreover have "(j # is) ! k \<noteq> (j # is) ! Suc k"
    if "Suc k < Suc (length vars)" "fst (((srt, n) # vars) ! k) = fst (((srt, n) # vars) ! Suc k)"
      "snd (((srt, n) # vars) ! k) = snd (((srt, n) # vars) ! Suc k)" "1 < snd (((srt, n) # vars) ! Suc k)" for k
  proof (cases k)
    case 0
    then show ?thesis using that I(5) by (cases vars) auto
  next
    case (Suc k')
    then show ?thesis using that I(4) by auto
  qed
  ultimately show ?case using I(2) j(4) by (intro exI [of _ "j # is"]) simp
qed auto

lemma remove_window_split:
  "remove_window i a b ts = take (nat (a - i)) ts @ drop (nat (max (b + 1) a - i)) ts"
  if "i \<le> a" "a \<le> b + 1"
  using that
proof (induction ts arbitrary: i)
  case (Cons t ts)
  show ?case
  proof (cases "i = a")
    case False
    then have "nat (a - i) = Suc (nat (a - (i + 1)))" "nat (max (b + 1) a - i) = Suc (nat (max (b + 1) a - (i + 1)))"
      using Cons.prems by auto
    then show ?thesis using Cons.IH [of "i + 1"] Cons.prems False by simp
  next
    case True
    have w: "k \<le> b + 1 \<Longrightarrow> a \<le> k \<Longrightarrow> remove_window k a b us = drop (nat (b + 1 - k)) us" for k us
    proof (induction us arbitrary: k)
      case (Cons u us)
      show ?case
      proof (cases "k \<le> b")
        case True
        then have "nat (b + 1 - k) = Suc (nat (b + 1 - (k + 1)))" by simp
        then show ?thesis using Cons.IH [of "k + 1"] Cons.prems True by simp
      next
        case False
        have past: "b < k \<Longrightarrow> remove_window k a b us = us" for k us
          by (induction us arbitrary: k) auto
        show ?thesis using False Cons.prems past by (simp del: remove_window.simps add: past)
      qed
    qed simp
    have "max (b + 1) a = b + 1" using Cons.prems(2) by simp
    then show ?thesis using w [of a "t # ts"] Cons.prems(2) True by simp
  qed
qed simp

lemma changeInterRandomly_ok:
  assumes "0 \<le> strength" "ts \<noteq> []"
  shows "\<exists>k. changeInterRandomly ts strength r
      = Some (take k ts @ drop (k + nat (min (strength + 1) (int (length ts)))) ts)
    \<and> k + nat (min (strength + 1) (int (length ts))) \<le> length ts"
proof -
  define n where "n = int (length ts)"
  define w where "w = (if strength \<ge> n then n - 1 else strength)"
  have n: "0 < n" using assms(2) by (simp add: n_def)
  have w: "0 \<le> w" "w \<le> n - 1" "w + 1 = min (strength + 1) n" using n assms(1) by (auto simp: w_def)
  then have "0 \<le> n - w - 1" by simp
  from getRandom_range [OF this, of r] obtain a where
    a: "getRandom 0 (n - w - 1) r = Some a" "0 \<le> a" "a \<le> n - w - 1" by blast
  have "changeInterRandomly ts strength r = Some (remove_window 0 a (a + w) ts)"
    using a(1) by (simp add: changeInterRandomly_def Let_def flip: n_def w_def)
  also have "remove_window 0 a (a + w) ts = take (nat a) ts @ drop (nat (a + w + 1)) ts"
    using remove_window_split [of 0 a "a + w" ts] a(2) w(1) by (simp add: max_def)
  also have "nat (a + w + 1) = nat a + nat (w + 1)" using a(2) w(1) by simp
  finally have "changeInterRandomly ts strength r = Some (take (nat a) ts @ drop (nat a + nat (w + 1)) ts)" .
  moreover have "nat a + nat (w + 1) \<le> length ts" using a(2,3) w(1) n_def by simp
  ultimately show ?thesis unfolding w(3) n_def by (intro exI [of _ "nat a"] conjI)
qed

section \<open>The search stops by itself\<close>

text \<open>What minimisation promises: the objective of solutions has a lower bound, and a solution of which a
  part was destroyed is completed to a solution, so that there is a first model.\<close>

definition completes :: "'sol services \<Rightarrow> 'sol lns_services \<Rightarrow> 'sol set \<Rightarrow> int \<Rightarrow> bool" where
  "completes S D Sols L \<longleftrightarrow> (\<forall>s \<in> Sols. L \<le> queryGetObj S s
     \<and> (\<forall>ct. set ct \<subseteq> set (fst (decisionTables D s)) \<longrightarrow>
          (\<exists>s' \<in> Sols. \<exists>models. doMinimization D (withTrueTable D ct) = Some s' # models))
     \<and> (\<forall>ct cf. set ct \<subseteq> set (fst (decisionTables D s)) \<longrightarrow> set cf \<subseteq> set (snd (decisionTables D s)) \<longrightarrow>
          (\<exists>s' \<in> Sols. \<exists>models. doMinimization D (withTables D ct cf) = Some s' # models)))"

text \<open>What the input of the moves promises: the domains of random variables are not empty, and the tuples
  that a domain query gives have an element for each random variable.\<close>

definition moves_input_ok :: "'sol lns_services \<Rightarrow> 'sol set \<Rightarrow> 'sol lns_moves \<Rightarrow> bool" where
  "moves_input_ok D Sols st \<longleftrightarrow> (\<forall>i < length (lConcreteMovemodelling st).
     (\<forall>(srt, dom) \<in> set (randVars D (int i)). dom \<noteq> [])
     \<and> (\<forall>q. queryGetRandVar_Domain (lConcreteMovemodelling st ! i) = Some q \<longrightarrow>
          (\<forall>s \<in> Sols. \<forall>de \<in> set (q s). length (randVars D (int i)) \<le> length de)))"

lemma moves_input_ok_queries:
  assumes "map queryGetRandVar_Domain (lConcreteMovemodelling st') = map queryGetRandVar_Domain (lConcreteMovemodelling st)"
    "moves_input_ok D Sols st"
  shows "moves_input_ok D Sols st'"
proof -
  have "length (lConcreteMovemodelling st') = length (lConcreteMovemodelling st)" using arg_cong [OF assms(1), of length] by simp
  moreover have "queryGetRandVar_Domain (lConcreteMovemodelling st' ! i) = queryGetRandVar_Domain (lConcreteMovemodelling st ! i)"
    if "i < length (lConcreteMovemodelling st)" for i
    using arg_cong [OF assms(1), of "\<lambda>xs. xs ! i"] that calculation by simp
  ultimately show ?thesis using assms(2) by (simp add: moves_input_ok_def)
qed

lemma changeInterRandomly_subset:
  assumes "0 \<le> strength"
  shows "\<exists>ct. changeInterRandomly ts strength r = Some ct \<and> set ct \<subseteq> set ts"
proof (cases "ts = []")
  case True
  then show ?thesis using assms by (simp add: changeInterRandomly_def getRandom_def)
next
  case False
  from changeInterRandomly_ok [OF assms False] obtain k where
    "changeInterRandomly ts strength r = Some (take k ts @ drop (k + nat (min (strength + 1) (int (length ts)))) ts)" by blast
  then show ?thesis using set_take_subset [of k ts] set_drop_subset [of _ ts] by fastforce
qed

lemma chooseRandomVars_ok:
  assumes "moves_inv st" "signalled s st" "moves_input_ok D Sols st" "s \<in> Sols" "j \<in> set (lEnabledMoves st)"
  shows "\<exists>vars. chooseRandomVars (randVars D (int j)) (lConcreteMovemodelling st ! j) r = Some vars"
proof -
  have lt: "j < length (lConcreteMovemodelling st)" by (rule moves_inv_lt [OF assms(1,5)])
  show ?thesis
  proof (cases "queryGetRandVar_Domain (lConcreteMovemodelling st ! j)")
    case None
    let ?vars = "map (\<lambda>(srt, dom). (srt, int (length dom))) (randVars D (int j))"
    have "\<forall>v \<in> set ?vars. 0 < snd v" using assms(3) lt by (fastforce simp: moves_input_ok_def)
    then show ?thesis
      using choose_indices_ok [of ?vars "map (\<lambda>i. (r (2 * i), r (2 * i + 1))) [0..<length (randVars D (int j))]" "-1" None] None
      by (fastforce simp: chooseRandomVars_def)
  next
    case (Some q)
    have q: "randomVariablesDomain (lConcreteMovemodelling st ! j) = Some (q s)" "q s \<noteq> []"
      using assms(2,5) Some by (auto simp: signalled_def)
    obtain i where i: "getRandom 0 (int (length (q s)) - 1) (r 0) = Some i" "0 \<le> i" "i < int (length (q s))"
      using getRandom_range [of 0 "int (length (q s)) - 1" "r 0"] q(2) by (cases "q s") auto
    then have "getaRandomVar (r 0) (lConcreteMovemodelling st ! j) = Some (q s ! nat i)" "q s ! nat i \<in> set (q s)"
      using q by (simp_all add: getaRandomVar_def getVarAtIndex_def)
    then show ?thesis using assms(3,4) lt Some by (simp add: chooseRandomVars_def moves_input_ok_def)
  qed
qed

text \<open>Then every disturbance gives a solution.\<close>

lemma disturb_ok:
  assumes "completes S D Sols L" "moves_inv st" "signalled s st" "moves_input_ok D Sols st" "s \<in> Sols" "0 \<le> strength"
    "m = 1000 \<or> m \<in> int ` set (lEnabledMoves st)"
  shows "\<exists>s' \<in> Sols. (if m = 1000 then disturbSolutionRandomly D s strength r else disturbFromMove D s m r st) = Some (Some s')"
proof (cases "m = 1000")
  case True
  obtain ct where ct: "changeInterRandomly (fst (decisionTables D s)) strength (r 0) = Some ct" "set ct \<subseteq> set (fst (decisionTables D s))"
    using changeInterRandomly_subset [OF assms(6)] by blast
  then obtain s' models where "s' \<in> Sols" "doMinimization D (withTrueTable D ct) = Some s' # models"
    using assms(1,5) unfolding completes_def by blast
  then show ?thesis using True ct(1) by (simp add: disturbSolutionRandomly_def first_model_def)
next
  case False
  then obtain j where j: "m = int j" "j \<in> set (lEnabledMoves st)" using assms(7) by blast
  obtain ct cf where t: "decisionTables D s = (ct, cf)" by (cases "decisionTables D s")
  obtain vars where v: "chooseRandomVars (randVars D m) (lConcreteMovemodelling st ! j) r = Some vars"
    using chooseRandomVars_ok [OF assms(2-5) j(2)] j(1) by blast
  let ?del = "queryGetMove D m s vars"
  have "set (filter (\<lambda>t. t \<notin> set ?del) ct) \<subseteq> set (fst (decisionTables D s))"
    "set (filter (\<lambda>t. t \<notin> set ?del) cf) \<subseteq> set (snd (decisionTables D s))" using t by auto
  then obtain s' models where "s' \<in> Sols"
      "doMinimization D (withTables D (filter (\<lambda>t. t \<notin> set ?del) ct) (filter (\<lambda>t. t \<notin> set ?del) cf)) = Some s' # models"
    using assms(1,5) unfolding completes_def by blast
  then show ?thesis using False j moves_inv_lt [OF assms(2) j(2)] v t
    by (simp add: disturbFromMove_def first_model_def UpdateInterWithDeletedTable_def)
qed

text \<open>The number of further iterations: 11 per possible improvement, then the rest of the tolerance
  and of the strength.\<close>

definition lns_bound :: "int \<Rightarrow> int \<Rightarrow> int \<Rightarrow> nat \<Rightarrow> nat" where
  "lns_bound L best strength iters =
     nat (11 * (best - L)) + (mMaxItersNoImprove - iters) + nat (mMaxDisturbSize - strength)"

definition lns_result :: "'sol services \<Rightarrow> 'sol set \<Rightarrow> 'sol LocalSearch \<Rightarrow> 'sol \<Rightarrow> 'sol LocalSearch \<Rightarrow> bool" where
  "lns_result S Sols ls cur ls' \<longleftrightarrow> same_frame ls ls' \<and> bestObjVal ls' \<le> bestObjVal ls
     \<and> (bestSol ls' = bestSol ls \<and> bestObjVal ls' = bestObjVal ls
        \<or> (\<exists>b \<in> Sols. bestSol ls' = Some b \<and> bestObjVal ls' = queryGetObj S b))"

lemma lns_loop_ok:
  assumes "completes S D Sols L" "moves_inv st" "cur \<in> Sols" "curobj = queryGetObj S cur"
    "bestObjVal ls = curobj" "signalled cur st" "moves_input_ok D Sols st" "0 \<le> strength"
  shows "\<exists>why ls' st'. lns_loop S D ls st cur curobj strength iters draws = Some (why, ls', st')
     \<and> moves_inv st' \<and> set (lEnabledMoves st') \<subseteq> set (lEnabledMoves st) \<and> lns_result S Sols ls cur ls'
     \<and> (within_limit ls (map fst draws) \<and> lns_bound L curobj strength iters < length draws \<longrightarrow> why \<noteq> TimedOut)"
  using assms(2-8)
proof (induction draws arbitrary: ls st cur curobj strength iters)
  case Nil
  then show ?case by (simp add: lns_result_def)
next
  case (Cons d draws)
  obtain c r1 r2 where d: "d = (c, r1, r2)" by (cases d)
  define k where "k = (if iters \<ge> mMaxItersNoImprove then strength + 1 else strength)"
  have L: "L \<le> curobj" using assms(1) Cons.prems(2,3) by (simp add: completes_def)
  have k0: "0 \<le> k" using Cons.prems(7) by (simp add: k_def)
  have res0: "lns_result S Sols ls cur ls" by (simp add: lns_result_def)
  show ?case
  proof (cases "fst (timeout ls [c])")
    case True
    then have "\<not> within_limit ls (map fst (d # draws))" by (simp add: within_limit_def d)
    moreover have "lns_loop S D ls st cur curobj strength iters (d # draws) = Some (TimedOut, ls, st)"
      using True by (simp add: d)
    ultimately show ?thesis using Cons.prems(1) res0 by blast
  next
    case nt: False
    show ?thesis
    proof (cases "k \<ge> mMaxDisturbSize")
      case True
      then have "lns_loop S D ls st cur curobj strength iters (d # draws) = Some (MaxStrength, ls, st)"
        using nt by (simp add: d k_def Let_def)
      then show ?thesis using Cons.prems(1) res0 by blast
    next
      case nk: False
      from getRandomMove_ok [OF Cons.prems(1), of r1] obtain m where m: "getRandomMove r1 st = Some m" by blast
      show ?thesis
      proof (cases "m = -1")
        case True
        then have "lns_loop S D ls st cur curobj strength iters (d # draws) = Some (NoMoves, ls, st)"
          using nt nk m by (simp add: d k_def Let_def)
        then show ?thesis using Cons.prems(1) res0 by blast
      next
        case nm: False
        have "m = 1000 \<or> m \<in> int ` set (lEnabledMoves st)" using getRandomMove_ok [OF Cons.prems(1), of r1] m nm by auto
        from disturb_ok [OF assms(1) Cons.prems(1,5,6,2) k0 this]
        obtain s' where s': "s' \<in> Sols" "(if m = 1000 then disturbSolutionRandomly D cur k r2
            else disturbFromMove D cur m r2 st) = Some (Some s')" by blast
        show ?thesis
        proof (cases "queryGetObj S s' < curobj")
          case True
          let ?ls = "ls\<lparr>bestObjVal := queryGetObj S s', bestSol := Some s'\<rparr>"
          let ?st = "signalChangeCurrentSolution s' st"
          note sig = signalChange_ok [OF Cons.prems(1), of s'] signalChange_signalled [OF Cons.prems(1), of s']
          have run: "lns_loop S D ls st cur curobj strength iters (d # draws)
              = lns_loop S D ?ls ?st s' (queryGetObj S s') k 0 draws"
            using nt nk m nm s'(2) True Cons.prems(4) by (simp add: d k_def [symmetric] Let_def)
          from Cons.IH [OF sig(1) s'(1) refl _ sig(3) moves_input_ok_queries [OF sig(4) Cons.prems(6)] k0, of ?ls 0] obtain why ls' st' where IH:
            "lns_loop S D ?ls ?st s' (queryGetObj S s') k 0 draws = Some (why, ls', st')"
            "moves_inv st'" "set (lEnabledMoves st') \<subseteq> set (lEnabledMoves ?st)" "lns_result S Sols ?ls s' ls'"
            "within_limit ?ls (map fst draws) \<and> lns_bound L (queryGetObj S s') k 0 < length draws \<longrightarrow> why \<noteq> TimedOut"
            by auto
          have "same_frame ls ls'"
            using IH(4) same_frame_trans [OF same_frame_upd [of ls "Some s'" "queryGetObj S s'"]]
            by (simp add: lns_result_def)
          then have "lns_result S Sols ls cur ls'"
            using IH(4) s'(1) True Cons.prems(4) by (auto simp: lns_result_def)
          moreover have "lns_bound L (queryGetObj S s') k 0 < lns_bound L curobj strength iters"
          proof -
            have "L \<le> queryGetObj S s'" using assms(1) s'(1) by (simp add: completes_def)
            moreover have "strength \<le> k" by (simp add: k_def)
            ultimately show ?thesis using True
              by (simp add: lns_bound_def mMaxItersNoImprove_def mMaxDisturbSize_def)
          qed
          ultimately show ?thesis using run IH sig(2) by (auto simp: within_limit_def d)
        next
          case False
          have run: "lns_loop S D ls st cur curobj strength iters (d # draws)
              = lns_loop S D ls st cur curobj k (iters + 1) draws"
            using nt nk m nm s'(2) False Cons.prems(4) by (simp add: d k_def [symmetric] Let_def)
          from Cons.IH [OF Cons.prems(1-6) k0, of "iters + 1"] obtain why ls' st' where IH:
            "lns_loop S D ls st cur curobj k (iters + 1) draws = Some (why, ls', st')"
            "moves_inv st'" "set (lEnabledMoves st') \<subseteq> set (lEnabledMoves st)" "lns_result S Sols ls cur ls'"
            "within_limit ls (map fst draws) \<and> lns_bound L curobj k (iters + 1) < length draws \<longrightarrow> why \<noteq> TimedOut"
            by auto
          have "lns_bound L curobj k (iters + 1) < lns_bound L curobj strength iters"
            using nk by (auto simp: lns_bound_def k_def mMaxItersNoImprove_def mMaxDisturbSize_def)
          then show ?thesis using run IH by (auto simp: within_limit_def d)
        qed
      qed
    qed
  qed
qed

section \<open>The deterministic choice of the next move\<close>

text \<open>From a position it finds the next enabled move up to the end of the list. Having passed the
  end, the search goes on at index 1, so that move 0 is skipped; when nothing is enabled and the
  current move is the last one, or none, it never returns.\<close>

lemma nextMove_loop_step:
  assumes "0 \<le> i" "i < int (length ms) - 1" "\<not> enable (ms ! nat i)" "i \<noteq> cur"
  shows "nextMove_loop cur i ms = nextMove_loop cur (i + 1) ms"
  using assms by (subst nextMove_loop.simps) (simp add: Let_def)

lemma nextMove_loop_found:
  "i < int (length ms) \<Longrightarrow> enable (ms ! nat i) \<Longrightarrow> nextMove_loop cur i ms = Some i"
  by (subst nextMove_loop.simps) simp

lemma getNextMove_next:
  assumes "-1 \<le> cur" "cur < j" "j < int (length ms)" "enable (ms ! nat j)"
    "\<forall>k. cur < k \<and> k < j \<longrightarrow> \<not> enable (ms ! nat k)"
  shows "getNextMove cur ms = Some j"
proof -
  have "nextMove_loop cur i ms = Some j" if "cur < i" "i \<le> j" for i
    using that
  proof (induction "nat (j - i)" arbitrary: i)
    case 0
    then show ?case using assms by (simp add: nextMove_loop_found)
  next
    case (Suc n)
    then have "nextMove_loop cur i ms = nextMove_loop cur (i + 1) ms"
      using assms by (intro nextMove_loop_step) auto
    moreover have "nextMove_loop cur (i + 1) ms = Some j" by (rule Suc.hyps(1)) (use Suc in auto)
    ultimately show ?case by simp
  qed
  from this [of "cur + 1"] show ?thesis using assms by (simp add: getNextMove_def Let_def)
qed

lemma nextMove_loop_diverges:
  assumes "nextMove_loop cur i ms = Some y" "\<forall>m \<in> set ms. \<not> enable m" "2 \<le> length ms"
    "cur = int (length ms) - 1" "0 \<le> i" "i < int (length ms)"
  shows False
proof -
  have "(\<forall>m \<in> set ms. \<not> enable m) \<longrightarrow> 2 \<le> length ms \<longrightarrow> cur = int (length ms) - 1 \<longrightarrow> 0 \<le> i
      \<longrightarrow> i < int (length ms) \<longrightarrow> False"
  proof (rule nextMove_loop.raw_induct [OF _ assms(1)], intro impI)
    fix rec :: "int \<Rightarrow> int \<Rightarrow> 'a LNSMove list \<Rightarrow> int option" and cur i :: int and ms :: "'a LNSMove list" and y
    assume IH: "\<And>cur i ms y. rec cur i ms = Some y \<Longrightarrow> (\<forall>m \<in> set ms. \<not> enable m) \<longrightarrow> 2 \<le> length ms
        \<longrightarrow> cur = int (length ms) - 1 \<longrightarrow> 0 \<le> i \<longrightarrow> i < int (length ms) \<longrightarrow> False"
      and step: "(if i < int (length ms)
          then if enable (ms ! nat i) then Some i
               else let i = if i = int (length ms) - 1 then 0 else i
                    in if i = cur then Some (-1) else rec cur (i + 1) ms
          else Some (-1)) = Some y"
      and H: "\<forall>m \<in> set ms. \<not> enable m" "2 \<le> length ms" "cur = int (length ms) - 1" "0 \<le> i" "i < int (length ms)"
    have "\<not> enable (ms ! nat i)" using H by simp
    then obtain i' where "rec cur i' ms = Some y" "0 \<le> i'" "i' < int (length ms)"
      using step H by (auto simp: Let_def split: if_splits)
    then show False using IH H by blast
  qed
  then show False using assms by blast
qed

end
