(* ===== verification/LS_Properties.thy ===== *)
theory LS_Properties
  imports LS_ILS LS_LNS
begin

text \<open>
  The correctness properties of the local searches, each applied to a small search problem: the
  solutions are the integers, the objective is the number itself, and the only move from a
  positive number subtracts one.
\<close>

section \<open>A small search problem\<close>

definition countdown :: "int services" where
  "countdown = \<lparr>doModelExpansion = (\<lambda>s. [s]), queryGetObj = (\<lambda>s. s),
     queryValidMoves = Some (\<lambda>s. if 0 < s then [[DET_INT (-1)]] else []), theoGetValidMoves = None,
     queryDeltaObj = Some (\<lambda>s. -1), queryGetNextCost = None,
     decode = (\<lambda>s m. case m of [DET_INT d] \<Rightarrow> s + d | _ \<Rightarrow> s),
     expandNext = (\<lambda>s. [s]), transfer = (\<lambda>s. s)\<rparr>"

definition start3 :: "int LocalSearch" where "start3 = newLocalSearch 3 None 0 100"

lemma countdown_simps [simp]:
  "doModelExpansion countdown s = [s]" "queryGetObj countdown s = s"
  "queryDeltaObj countdown = Some (\<lambda>s. -1)"
  "getValidMoves countdown s = Some (if 0 < s then [[DET_INT (-1)]] else [])"
  "getNeighborSolution countdown s = Some s"
  "decode countdown s [DET_INT d] = s + d"
  by (simp_all add: countdown_def getValidMoves_def getNeighborSolution_def
      getNeighborSolutionWithoutMX_def front_def)

lemma countdown_space: "search_space countdown {0..} 0"
  by (auto simp: search_space_def announces_def)

lemma countdown_bounded: "moves_bounded countdown {0..} 1"
  by (auto simp: moves_bounded_def)

lemma start3_init: "getInitialSolution countdown start3 = Some (start3\<lparr>initialSol := Some 3, iniObjVal := 3\<rparr>)"
  by (simp add: getInitialSolution_def start3_def newLocalSearch_def front_def)

section \<open>The descent searches\<close>

text \<open>C1: Best improvement search, when the moves announce their true effect on the objective,
  ends with a solution reached by moves from the initial one that is at least as good; the
  reported objective is that of the returned solution; and if the time limit allows more
  iterations than the objective can drop, the result is a local optimum.\<close>

theorem BestImprovementSearch_correct:
  assumes "search_space S Sols L" "queryDeltaObj S = Some q"
    "getInitialSolution S ls = Some ls0" "initialSol ls0 = Some s" "s \<in> Sols"
  shows "\<exists>ls' b. BestImprovementSearch_doSearch S ls clock = Some ls' \<and> bestSol ls' = Some b \<and> b \<in> Sols
     \<and> (move_step S)\<^sup>*\<^sup>* s b \<and> bestObjVal ls' = queryGetObj S b \<and> queryGetObj S b \<le> queryGetObj S s
     \<and> (within_limit ls clock \<and> queryGetObj S s - L < int (length clock) \<longrightarrow> local_optimum S b)"
proof -
  from assms(3,4) have i: "iniObjVal ls0 = queryGetObj S s" "timeStart ls0 = timeStart ls"
    "timeout_clock ls0 = timeout_clock ls" by (auto simp: getInitialSolution_def bind_eq_Some_iff)
  let ?ls = "ls0\<lparr>bestSol := None, bestObjVal := iniObjVal ls0\<rparr>"
  have start: "LocalSearch_doSearch S ls = Some ?ls" using assms(3) by (simp add: LocalSearch_doSearch_def)
  from best_loop_ok [OF assms(1,2,5) refl, of ?ls clock] i obtain ls' b where
    B: "best_loop S ?ls s (queryGetObj S s) clock = Some ls'" "descended S Sols ?ls s ls' b"
    "within_limit ?ls clock \<and> queryGetObj S s - L < int (length clock) \<longrightarrow> local_optimum S b" by auto
  have w: "within_limit ?ls clock = within_limit ls clock" using i by (simp add: within_limit_def)
  have b: "bestSol (bestOrInitial ls') = Some b"
    using B(2) assms(4) by (auto simp: descended_def bestOrInitial_def dest: same_frame_fields(1))
  have "BestImprovementSearch_doSearch S ls clock = Some ((bestOrInitial ls')\<lparr>bestObjVal := queryGetObj S b\<rparr>)"
    using start B(1) b i assms(4) by (simp add: BestImprovementSearch_doSearch_def Let_def)
  then show ?thesis using b B(2,3) w by (auto simp: descended_def)
qed

theorem BestImprovementSearch_correct_witness:
  "\<exists>ls' b. BestImprovementSearch_doSearch countdown start3 [1, 2, 3, 4] = Some ls' \<and> bestSol ls' = Some b
     \<and> bestObjVal ls' = b \<and> b \<le> 3 \<and> local_optimum countdown b"
proof -
  from BestImprovementSearch_correct [OF countdown_space countdown_simps(3) start3_init, of 3 "[1, 2, 3, 4]"]
  show ?thesis by (auto simp: within_limit_def start3_def newLocalSearch_def)
qed

text \<open>First improvement search ends with a solution reached by moves from the initial one,
  reports its true objective, and returns a local optimum if the clock, which it also reads after
  every rejected move, stays within the limit long enough: \<open>(initial objective - L + 1) * (M + 1)\<close>
  readings suffice for at most \<open>M\<close> moves per solution. It works with a query for the change of the
  objective and with a query for the next objective.\<close>

theorem FirstImprovementSearch_correct:
  assumes "search_space S Sols L" "getInitialSolution S ls = Some ls0" "initialSol ls0 = Some s" "s \<in> Sols"
  shows "\<exists>ls' b. FirstImprovementSearch_doSearch S ls clock = Some ls' \<and> bestSol ls' = Some b \<and> b \<in> Sols
     \<and> (move_step S)\<^sup>*\<^sup>* s b \<and> bestObjVal ls' = queryGetObj S b \<and> queryGetObj S b \<le> queryGetObj S s
     \<and> (moves_bounded S Sols M \<and> within_limit ls clock
        \<and> (queryGetObj S s - L + 1) * int (M + 1) \<le> int (length clock) \<longrightarrow> local_optimum S b)"
proof -
  from assms(2,3) have i: "iniObjVal ls0 = queryGetObj S s" "timeStart ls0 = timeStart ls"
    "timeout_clock ls0 = timeout_clock ls" by (auto simp: getInitialSolution_def bind_eq_Some_iff)
  let ?ls = "ls0\<lparr>bestSol := None, bestObjVal := iniObjVal ls0\<rparr>"
  have start: "LocalSearch_doSearch S ls = Some ?ls" using assms(2) by (simp add: LocalSearch_doSearch_def)
  from first_loop_ok [OF assms(1,4) refl, of ?ls clock M] i obtain ls' b where
    B: "first_loop S ?ls s (queryGetObj S s) clock = Some ls'" "descended S Sols ?ls s ls' b"
    "moves_bounded S Sols M \<and> within_limit ?ls clock \<and> (queryGetObj S s - L + 1) * int (M + 1) \<le> int (length clock)
      \<longrightarrow> local_optimum S b" by (auto simp del: of_nat_add)
  have w: "within_limit ?ls clock = within_limit ls clock" using i by (simp add: within_limit_def)
  have b: "bestSol (bestOrInitial ls') = Some b" "bestObjVal (bestOrInitial ls') = bestObjVal ls'"
    using B(2) assms(3) by (auto simp: descended_def bestOrInitial_def dest: same_frame_fields(1))
  have "FirstImprovementSearch_doSearch S ls clock = Some (bestOrInitial ls')"
    using start B(1) i assms(3) by (simp add: FirstImprovementSearch_doSearch_def)
  then show ?thesis using b B(2,3) w
    by (intro exI [of _ "bestOrInitial ls'"] exI [of _ b]) (simp add: descended_def)
qed

theorem FirstImprovementSearch_correct_witness:
  "\<exists>ls' b. FirstImprovementSearch_doSearch countdown start3 [1, 2, 3, 4, 5, 6, 7, 8] = Some ls'
     \<and> bestSol ls' = Some b \<and> bestObjVal ls' = b \<and> b \<le> 3 \<and> local_optimum countdown b"
proof -
  from FirstImprovementSearch_correct [OF countdown_space start3_init, of 3 "[1, 2, 3, 4, 5, 6, 7, 8]" 1]
  show ?thesis using countdown_bounded by (auto simp: within_limit_def start3_def newLocalSearch_def)
qed

section \<open>Tabu search\<close>

text \<open>C2: when no forbidden move would beat the best objective and some allowed move has an effect
  below the initial 100000, \<open>getBestMove\<close> returns the structure of an allowed move with the least
  effect and appends that move to the tabu list; the list drops its oldest entry when it is full,
  so it holds the last \<open>tenure\<close> moves in order.\<close>

theorem getBestMove_correct:
  assumes "queryDeltaObj S = Some q" "same_columns (tabuList ls @ ms)" "no_aspiration q S ls s ms"
    "m0 \<in> set (allowed ls ms)" "q (decode S s m0) < 100000" "0 < size_t (tabuTenure ls)"
    "length (tabuList ls) \<le> size_t (tabuTenure ls)"
  shows "\<exists>m tabus. getBestMove S ls s ms = Some (Some (decode S s m), tabus) \<and> m \<in> set (allowed ls ms)
     \<and> (\<forall>m' \<in> set (allowed ls ms). q (decode S s m) \<le> q (decode S s m'))
     \<and> tabus = drop (length (tabuList ls) + 1 - size_t (tabuTenure ls)) (tabuList ls @ [m])
     \<and> length tabus \<le> size_t (tabuTenure ls)"
proof -
  from getBestMove_ok [OF assms(1-6)] obtain m tabus where g: "getBestMove S ls s ms = Some (Some (decode S s m), tabus)"
    "m \<in> set (allowed ls ms)" "\<forall>m' \<in> set (allowed ls ms). q (decode S s m) \<le> q (decode S s m')"
    "updateTabuList (tabuTenure ls) m (tabuList ls) = Some tabus" by blast
  moreover have "tabus = drop (length (tabuList ls) + 1 - size_t (tabuTenure ls)) (tabuList ls @ [m])"
    using updateTabuList_ok [OF assms(6), of m "tabuList ls"] g(4) assms(7) by auto
  moreover have "length tabus \<le> size_t (tabuTenure ls)"
    using updateTabuList_length [OF g(4)] assms(7) by simp
  ultimately show ?thesis by blast
qed

definition tabu5 :: "int TabuSearch" where
  "tabu5 = (newTabuSearch 5 None 0 100)\<lparr>tabuList := [[DET_INT 7]], bestObjVal := 0\<rparr>"

lemma tabu5_simps [simp]: "tabuList tabu5 = [[DET_INT 7]]" "tabuTenure tabu5 = 15" "bestObjVal tabu5 = 0"
  by (simp_all add: tabu5_def newTabuSearch_def newLocalSearch_def LocalSearch.defs)

theorem getBestMove_correct_witness:
  "\<exists>m tabus. getBestMove countdown tabu5 5 [[DET_INT (-1)], [DET_INT 7]] = Some (Some (decode countdown 5 m), tabus)
     \<and> m = [DET_INT (-1)] \<and> tabus = [[DET_INT 7], [DET_INT (-1)]]"
proof -
  have "same_columns (tabuList tabu5 @ [[DET_INT (-1)], [DET_INT 7]])" by (simp add: same_columns_def)
  moreover have "no_aspiration (\<lambda>s. -1) countdown tabu5 5 [[DET_INT (-1)], [DET_INT 7]]"
    by (simp add: no_aspiration_def)
  moreover have al: "allowed tabu5 [[DET_INT (-1)], [DET_INT 7]] = [[DET_INT (-1)]]" by (simp add: allowed_def)
  ultimately show ?thesis
    using getBestMove_correct [OF countdown_simps(3), of tabu5 "[[DET_INT (-1)], [DET_INT 7]]" 5 "[DET_INT (-1)]"]
    by (auto simp: size_t_def)
qed

text \<open>C3: every tabu search that returns has a best solution no worse than the initial one and
  reports its objective, and its tabu list never grows beyond the tenure.\<close>

theorem TabuSearch_invariant:
  assumes "TabuSearch_doSearch S ls clock = Some ls'"
  shows "\<exists>b. bestSol ls' = Some b \<and> bestObjVal ls' = queryGetObj S b \<and> bestObjVal ls' \<le> iniObjVal ls'
     \<and> length (tabuList ls') \<le> max (length (tabuList ls)) (size_t (tabuTenure ls))"
proof -
  from assms obtain base s ls1 where D: "LocalSearch_doSearch S (LocalSearch.truncate ls) = Some base"
    "initialSol (LocalSearch.extend base \<lparr>tabuTenure = tabuTenure ls, tabuList = tabuList ls\<rparr>) = Some s"
    "tabu_loop S (LocalSearch.extend base \<lparr>tabuTenure = tabuTenure ls, tabuList = tabuList ls\<rparr>) s clock = Some ls1"
    "ls' = (if bestSol ls1 = None then ls1\<lparr>bestSol := initialSol ls1\<rparr> else ls1)"
    by (auto simp: TabuSearch_doSearch_def bind_eq_Some_iff Let_def)
  let ?ls = "LocalSearch.extend base \<lparr>tabuTenure = tabuTenure ls, tabuList = tabuList ls\<rparr>"
  have base: "initialSol ?ls = Some s" "iniObjVal ?ls = queryGetObj S s" "bestObjVal ?ls = iniObjVal ?ls"
    "bestSol ?ls = None" "tabuTenure ?ls = tabuTenure ls" "tabuList ?ls = tabuList ls"
    using D(1,2)
    by (auto simp: LocalSearch_doSearch_def getInitialSolution_def bind_eq_Some_iff LocalSearch.defs)
  from tabu_loop_inv [OF D(3)] have "tabu_inv S ?ls ls1" .
  then show ?thesis using D(4) base by (auto simp: tabu_inv_def)
qed

theorem TabuSearch_invariant_witness:
  "\<exists>ls' b. TabuSearch_doSearch countdown (newTabuSearch 0 None 0 100) [] = Some ls' \<and> bestSol ls' = Some b
     \<and> bestObjVal ls' = b \<and> bestObjVal ls' \<le> iniObjVal ls' \<and> length (tabuList ls') \<le> 15"
proof -
  have "\<exists>ls'. TabuSearch_doSearch countdown (newTabuSearch 0 None 0 100) [] = Some ls'"
    by (simp add: TabuSearch_doSearch_def newTabuSearch_def newLocalSearch_def LocalSearch.defs
        LocalSearch_doSearch_def getInitialSolution_def front_def tabu_loop.simps Let_def)
  then obtain ls' where r: "TabuSearch_doSearch countdown (newTabuSearch 0 None 0 100) [] = Some ls'" by blast
  have t: "tabuList (newTabuSearch 0 None 0 100 :: int TabuSearch) = []"
    "size_t (tabuTenure (newTabuSearch 0 None 0 100 :: int TabuSearch)) = 15"
    by (simp_all add: newTabuSearch_def newLocalSearch_def LocalSearch.defs size_t_def)
  from TabuSearch_invariant [OF r] r show ?thesis by (auto simp: t)
qed

text \<open>C4: the aspiration criterion does not take the move it accepts: when all valid moves are
  forbidden and one of them would give a new best solution, \<open>getBestMove\<close> accepts it but returns a
  null structure, which the search then dereferences, instead of the solution with that move.\<close>

theorem getBestMove_aspiration_null:
  assumes "queryDeltaObj S = Some q" "same_columns (tabuList ls)" "set ms \<subseteq> set (tabuList ls)"
    "\<exists>m \<in> set ms. queryGetObj S s + q (decode S s m) < bestObjVal ls"
    "\<forall>m \<in> set ms. q (decode S s m) \<noteq> 100000"
  shows "getBestMove S ls s ms = Some (None, tabuList ls)"
  by (rule getBestMove_forbidden [OF assms])

theorem getBestMove_aspiration_null_witness:
  "getBestMove countdown (tabu5\<lparr>bestObjVal := 5\<rparr>) 5 [[DET_INT 7]] = Some (None, [[DET_INT 7]])"
  using getBestMove_aspiration_null [OF countdown_simps(3), of "tabu5\<lparr>bestObjVal := 5\<rparr>" "[[DET_INT 7]]" 5]
  by (simp add: same_columns_def)

section \<open>Iterated local search\<close>

text \<open>C5: iterated local search whose searches are descents (no tabu search) does not fail. Its best objective never
  exceeds the initial one and is that of the best solution; the best solution stays null exactly when
  nothing improved. It is assumed that there is a neighbourhood with a search type for each; that each
  neighbourhood keeps the solutions and their lower bound, has the common objective and a query for the change
  of the objective, whose answers are the true changes; and that model expansion, started with a solution,
  gives this solution first.\<close>

theorem ILS_correct:
  assumes "getInitialSolution S ls = Some ls0" "initialSol ls0 = Some s" "s \<in> Sols"
    "neighbourhoods moves (queryGetObj S) Sols L" "moves \<noteq> []" "length types = length moves"
    "TABU \<notin> set types"
  shows "\<exists>ils. ILS_doSearch S ls types moves garbage its = Some ils \<and> bestObjVal ils \<le> queryGetObj S s
     \<and> (if bestObjVal ils = queryGetObj S s then bestSol ils = None
        else \<exists>b \<in> Sols. bestSol ils = Some b \<and> bestObjVal ils = queryGetObj S b)"
proof -
  have i: "iniObjVal ls0 = queryGetObj S s"
    using assms(1,2) by (auto simp: getInitialSolution_def bind_eq_Some_iff)
  define ils0 where "ils0 = LocalSearch.extend (ls0\<lparr>bestObjVal := iniObjVal ls0, bestSol := None\<rparr>)
    \<lparr>listLSType = types, listmovemodelling = moves, currentSol = s, currentObjVal = iniObjVal ls0\<rparr>"
  have f: "listmovemodelling ils0 = moves" "listLSType ils0 = types" "bestObjVal ils0 = queryGetObj S s"
    "iniObjVal ils0 = queryGetObj S s"
    by (simp_all add: ils0_def LocalSearch.defs i)
  have inv: "ils_inv (queryGetObj S) Sols ils0"
    using assms(3) by (simp add: ils_inv_def ils0_def LocalSearch.defs i)
  have run: "ILS_doSearch S ls types moves garbage its = ils_loop ils0 (-1) 0 garbage its"
    using assms(1,2) by (simp add: ILS_doSearch_def LocalSearch_doSearch_def ils0_def)
  have "\<forall>t \<in> set types. descent_type t" using assms(7) by (auto simp: descent_type_def)
  then have "\<exists>ils'. ils_loop ils0 (-1) 0 garbage its = Some ils' \<and> ils_inv (queryGetObj S) Sols ils'
      \<and> bestObjVal ils' \<le> bestObjVal ils0 \<and> iniObjVal ils' = iniObjVal ils0"
    by (intro ils_loop_ok [where L = L]) (use assms(4-6) f inv in simp_all)
  then obtain ils where r: "ils_loop ils0 (-1) 0 garbage its = Some ils" "ils_inv (queryGetObj S) Sols ils"
    "bestObjVal ils \<le> queryGetObj S s" "iniObjVal ils = queryGetObj S s" using f by auto
  then show ?thesis unfolding run by (auto simp: ils_inv_def)
qed

theorem ILS_correct_witness:
  "\<exists>ils. ILS_doSearch countdown start3 [FIRSTIMPROVE] [countdown] 0 [(1, 1, [2, 3])] = Some ils
     \<and> bestObjVal ils \<le> 3 \<and> (bestObjVal ils = 3 \<longrightarrow> bestSol ils = None)"
proof -
  have "neighbourhoods [countdown] (queryGetObj countdown) {0..} 0"
    using countdown_space by (simp add: neighbourhoods_def front_def)
  from ILS_correct [OF start3_init _ _ this, of 3 "[FIRSTIMPROVE]" 0 "[(1, 1, [2, 3])]"] show ?thesis
    by (auto split: if_splits)
qed

section \<open>Large neighbourhood search\<close>

text \<open>C6: large neighbourhood search, started with a solution and a consistent list of enabled moves, returns. It
  keeps the list consistent and only ever disables moves; its best objective is that of its best solution and
  at most the initial one; and it ends by itself, without the time limit, within 11 iterations per unit
  between the initial objective and its lower bound, plus 50. It is assumed that minimisation completes
  every solution of which a part was destroyed to a solution (\<open>completes\<close>; the code reads past the end of
  the list of models when there is none), that the objective of solutions is bounded below, that the
  domains of random variables are not empty, and that a domain query gives tuples with an element for each
  random variable (\<open>moves_input_ok\<close>).\<close>

theorem LargeNeighbourhoodSearch_correct:
  assumes "getInitialSolution S ls = Some ls0" "initialSol ls0 = Some s" "s \<in> Sols"
    "completes S D Sols L" "moves_input_ok D Sols st" "moves_inv st"
  shows "\<exists>why ls' st' b. LargeNeighbourhoodSearch_doSearch S D ls st draws = Some (why, ls', st')
     \<and> moves_inv st' \<and> set (lEnabledMoves st') \<subseteq> set (lEnabledMoves st)
     \<and> bestSol ls' = Some b \<and> b \<in> Sols \<and> bestObjVal ls' = queryGetObj S b \<and> bestObjVal ls' \<le> queryGetObj S s
     \<and> (within_limit ls (map fst draws) \<and> 11 * (queryGetObj S s - L) + 50 < int (length draws) \<longrightarrow> why \<noteq> TimedOut)"
proof -
  have i: "iniObjVal ls0 = queryGetObj S s" "timeStart ls0 = timeStart ls" "timeout_clock ls0 = timeout_clock ls"
    using assms(1,2) by (auto simp: getInitialSolution_def bind_eq_Some_iff)
  let ?ls = "ls0\<lparr>bestSol := None, bestObjVal := iniObjVal ls0\<rparr>"
  let ?st = "signalChangeCurrentSolution s st"
  have w: "within_limit ?ls = within_limit ls" using i by (simp add: within_limit_def fun_eq_iff)
  note sig = signalChange_ok [OF assms(6), of s] signalChange_signalled [OF assms(6), of s]
  have "L \<le> queryGetObj S s" using assms(3,4) by (simp add: completes_def)
  then have bd: "int (lns_bound L (queryGetObj S s) mMinDisturbSize 0) = 11 * (queryGetObj S s - L) + 50"
    by (simp add: lns_bound_def mMaxItersNoImprove_def mMaxDisturbSize_def mMinDisturbSize_def)
  have pos: "0 \<le> mMinDisturbSize" by (simp add: mMinDisturbSize_def)
  from lns_loop_ok [OF assms(4) sig(1) assms(3) refl _ sig(3) moves_input_ok_queries [OF sig(4) assms(5)] pos, of ?ls 0 draws] i
  obtain why ls' st' where R: "lns_loop S D ?ls ?st s (queryGetObj S s) mMinDisturbSize 0 draws = Some (why, ls', st')"
    "moves_inv st'" "set (lEnabledMoves st') \<subseteq> set (lEnabledMoves ?st)" "lns_result S Sols ?ls s ls'"
    "within_limit ?ls (map fst draws) \<and> lns_bound L (queryGetObj S s) mMinDisturbSize 0 < length draws \<longrightarrow> why \<noteq> TimedOut"
    by auto
  have run: "LargeNeighbourhoodSearch_doSearch S D ls st draws = Some (why, bestOrInitial ls', st')"
    using assms(1,2) i R(1) by (simp add: LargeNeighbourhoodSearch_doSearch_def LocalSearch_doSearch_def Let_def)
  have frame: "initialSol ls' = Some s" using R(4) assms(2) by (auto simp: lns_result_def dest: same_frame_fields(1))
  obtain b where b: "bestSol (bestOrInitial ls') = Some b" "b \<in> Sols" "bestObjVal (bestOrInitial ls') = queryGetObj S b"
    "bestObjVal (bestOrInitial ls') \<le> queryGetObj S s"
    using R(4) i frame assms(3) by (cases "bestSol ls'") (auto simp: lns_result_def bestOrInitial_def)
  show ?thesis
    by (rule exI [of _ why], rule exI [of _ "bestOrInitial ls'"], rule exI [of _ st'], rule exI [of _ b])
      (use run R(2,3,5) sig(2) b w bd in auto)
qed

text \<open>Solutions are natural numbers \<open>s\<close>, their decision table is \<open>[0], ..., [s - 1]\<close>, and minimisation keeps what is left
  of the table. The second move has a domain query.\<close>

definition countdown_lns :: "int lns_services" where
  "countdown_lns =
     \<lparr>decisionTables = (\<lambda>s. (map (\<lambda>i. [DET_INT (int i)]) [0..<nat s], [])), withTrueTable = (\<lambda>ct. int (length ct)),
      withTables = (\<lambda>ct cf. int (length ct)), randVars = (\<lambda>m. [(0, [DET_INT 0, DET_INT 1])]),
      queryGetMove = (\<lambda>m s vars. [vars]), doMinimization = (\<lambda>s. [Some s])\<rparr>"

theorem LargeNeighbourhoodSearch_correct_witness:
  "\<exists>why ls' st' b. LargeNeighbourhoodSearch_doSearch countdown countdown_lns start3
       (processInputData [None, Some (\<lambda>s. [[DET_INT s]])]) (replicate 84 (1, 0, \<lambda>i. i)) = Some (why, ls', st')
     \<and> moves_inv st' \<and> bestSol ls' = Some b \<and> bestObjVal ls' = b \<and> b \<le> 3 \<and> why \<noteq> TimedOut"
proof -
  let ?qs = "[None, Some (\<lambda>s. [[DET_INT s]])]"
  have "completes countdown countdown_lns {0..} 0" by (auto simp: completes_def countdown_lns_def)
  moreover have "moves_input_ok countdown_lns {0..} (processInputData ?qs)"
    by (auto simp: moves_input_ok_def countdown_lns_def processInputData_def newLNSMove_def enableMove_def set_enable_def
        less_Suc_eq numeral_2_eq_2)
  ultimately show ?thesis
    using LargeNeighbourhoodSearch_correct [OF start3_init _ _ _ _ conjunct1 [OF processInputData_ok],
      of 3 "{0..}" countdown_lns 0 ?qs "replicate 84 (1, 0, \<lambda>i. i)"]
    by (auto simp: within_limit_def start3_def newLocalSearch_def)
qed

text \<open>The random choice of variables stays inside the domains, and two consecutive variables of
  the same sort get different elements whenever the domain has more than one.\<close>

theorem choose_indices_correct:
  assumes "\<forall>v \<in> set vars. 0 < snd v" "length vars \<le> length rs"
  shows "\<exists>is. choose_indices vars rs (-1) None = Some is \<and> length is = length vars
     \<and> (\<forall>k < length vars. 0 \<le> is ! k \<and> is ! k < snd (vars ! k))
     \<and> (\<forall>k. Suc k < length vars \<longrightarrow> vars ! k = vars ! Suc k \<longrightarrow> 1 < snd (vars ! k) \<longrightarrow> is ! k \<noteq> is ! Suc k)"
proof -
  from choose_indices_ok [OF assms, of "-1" None] obtain "is" where
    I: "choose_indices vars rs (-1) None = Some is" "length is = length vars"
      "\<forall>k < length vars. 0 \<le> is ! k \<and> is ! k < snd (vars ! k)"
      "\<forall>k. Suc k < length vars \<longrightarrow> fst (vars ! k) = fst (vars ! Suc k) \<longrightarrow> snd (vars ! k) = snd (vars ! Suc k)
          \<longrightarrow> 1 < snd (vars ! Suc k) \<longrightarrow> is ! k \<noteq> is ! Suc k" by (elim exE conjE)
  then show ?thesis by (intro exI [of _ "is"] conjI) simp_all
qed

theorem choose_indices_correct_witness:
  "\<exists>is. choose_indices [(0, 4), (0, 4)] [(5, 7), (9, 2)] (-1) None = Some is \<and> length is = 2 \<and> is ! 0 \<noteq> is ! 1"
proof -
  obtain "is" where I: "choose_indices [(0, 4), (0, 4)] [(5, 7), (9, 2)] (-1) None = Some is" "length is = 2"
    "\<forall>k. Suc k < 2 \<longrightarrow> [(0, 4), (0, 4)] ! k = [(0, 4), (0, 4)] ! Suc k \<longrightarrow> (1::int) < snd ([(0, 4), (0, 4)] ! k)
       \<longrightarrow> is ! k \<noteq> is ! Suc k"
    using choose_indices_correct [of "[(0, 4), (0, 4)]" "[(5, 7), (9, 2)]"] by auto
  have "is ! 0 \<noteq> is ! 1" using I(3) [THEN spec, of 0] by simp
  with I(1,2) show ?thesis by (intro exI [of _ "is"] conjI)
qed

text \<open>C7: \<open>changeInterRandomly\<close> removes one contiguous window that lies inside the table; the window
  has \<open>strength + 1\<close> tuples, or all of the table when it has no more than that.\<close>

theorem changeInterRandomly_correct:
  assumes "0 \<le> strength" "ts \<noteq> []"
  shows "\<exists>k. changeInterRandomly ts strength r
      = Some (take k ts @ drop (k + nat (min (strength + 1) (int (length ts)))) ts)
    \<and> k + nat (min (strength + 1) (int (length ts))) \<le> length ts"
  by (rule changeInterRandomly_ok [OF assms])

theorem changeInterRandomly_correct_witness:
  "\<exists>k. changeInterRandomly [[DET_INT 1], [DET_INT 2], [DET_INT 3]] 1 4
      = Some (take k [[DET_INT 1], [DET_INT 2], [DET_INT 3]] @ drop (k + 2) [[DET_INT 1], [DET_INT 2], [DET_INT 3]])
    \<and> k + 2 \<le> 3"
  using changeInterRandomly_correct [of 1 "[[DET_INT 1], [DET_INT 2], [DET_INT 3]]" 4]
  by (simp add: numeral_2_eq_2 numeral_3_eq_3)

text \<open>C8: \<open>getNextMove\<close> finds the next enabled move behind the current one; but from the last move,
  when no move is enabled and there are at least two, it does not return.\<close>

theorem getNextMove_behaviour:
  "(\<forall>j. -1 \<le> cur \<and> cur < j \<and> j < int (length ms) \<and> enable (ms ! nat j)
        \<and> (\<forall>k. cur < k \<and> k < j \<longrightarrow> \<not> enable (ms ! nat k)) \<longrightarrow> getNextMove cur ms = Some j)
   \<and> ((\<forall>m \<in> set ms. \<not> enable m) \<and> 2 \<le> length ms \<longrightarrow> getNextMove (int (length ms) - 1) ms = None)"
proof (intro conjI allI impI)
  fix j
  assume "-1 \<le> cur \<and> cur < j \<and> j < int (length ms) \<and> enable (ms ! nat j)
    \<and> (\<forall>k. cur < k \<and> k < j \<longrightarrow> \<not> enable (ms ! nat k))"
  then show "getNextMove cur ms = Some j" by (intro getNextMove_next) auto
next
  assume a: "(\<forall>m \<in> set ms. \<not> enable m) \<and> 2 \<le> length ms"
  show "getNextMove (int (length ms) - 1) ms = None"
  proof (cases "getNextMove (int (length ms) - 1) ms")
    case (Some y)
    then have "nextMove_loop (int (length ms) - 1) 0 ms = Some y" by (simp add: getNextMove_def Let_def)
    moreover have "0 < int (length ms)" using a by linarith
    ultimately show ?thesis using nextMove_loop_diverges [of "int (length ms) - 1" 0 ms y] a by simp
  qed
qed

theorem getNextMove_behaviour_witness:
  "getNextMove (-1) [newLNSMove None, (newLNSMove None)\<lparr>enable := True\<rparr>] = Some 1
   \<and> getNextMove 1 [newLNSMove None, newLNSMove None] = None"
proof
  have "\<not> enable ([newLNSMove None, (newLNSMove None)\<lparr>enable := True\<rparr>] ! nat k)" if "-1 < k \<and> k < 1" for k :: int
  proof -
    have "k = 0" using that by simp
    then show ?thesis by (simp add: newLNSMove_def)
  qed
  then show "getNextMove (-1) [newLNSMove None, (newLNSMove None)\<lparr>enable := True\<rparr>] = Some 1"
    using getNextMove_behaviour [of "-1" "[newLNSMove None, (newLNSMove None)\<lparr>enable := True\<rparr>]",
        THEN conjunct1, THEN spec, of 1] by (simp add: newLNSMove_def)
  show "getNextMove 1 [newLNSMove None, newLNSMove None] = None"
    using getNextMove_behaviour [of 0 "[newLNSMove None, newLNSMove None]", THEN conjunct2]
    by (simp add: newLNSMove_def)
qed

section \<open>The option string\<close>

text \<open>An option built from pairs of a type and a move name, without separators inside the
  parts and with non-empty names, is read back as these pairs; more than one pair selects iterated
  local search, a single one the type it names.\<close>

theorem chooseSearch_roundtrip:
  assumes "\<forall>(t, m) \<in> set xs. CHR '','' \<notin> set t \<and> CHR '','' \<notin> set m \<and> CHR '';'' \<notin> set t
      \<and> CHR '';'' \<notin> set m \<and> m \<noteq> []" "xs \<noteq> []"
  shows "chooseSearch (option_string xs)
    = Some (if 1 < length xs then ILS else fst (getLSTypeFromString (fst (hd xs))),
            map (\<lambda>(t, m). (fst (getLSTypeFromString t), m)) xs)"
proof -
  let ?parts = "map (\<lambda>(t, m). t @ CHR '','' # m) xs"
  have s: "split_string (option_string xs) (CHR '';'') = ?parts"
    unfolding option_string_def
    by (rule split_join) (use assms in \<open>auto simp: last_map split: prod.splits\<close>)
  have r: "readLSOptions ?parts = Some (map (\<lambda>(t, m). (fst (getLSTypeFromString t), m)) xs)"
    by (rule readLSOptions_parts) (use assms(1) in auto)
  obtain t m ys where xs: "xs = (t, m) # ys" using assms(2) by (cases xs) auto
  have "split_string (join (CHR '','') [t, m]) (CHR '','') = [t, m]"
    by (rule split_join) (use assms(1) xs in auto)
  then show ?thesis using s r xs by (simp add: chooseSearch_def Let_def)
qed

theorem chooseSearch_roundtrip_witness:
  "chooseSearch (option_string [(''tabu'', ''2opt''), (''bestimprove'', ''or'')])
    = Some (ILS, [(TABU, ''2opt''), (BESTIMPROVE, ''or'')])"
proof -
  have "chooseSearch (option_string [(''tabu'', ''2opt''), (''bestimprove'', ''or'')])
    = Some (if 1 < length [(''tabu'', ''2opt''), (''bestimprove'', ''or'')] then ILS
            else fst (getLSTypeFromString (fst (hd [(''tabu'', ''2opt''), (''bestimprove'', ''or'')]))),
            map (\<lambda>(t, m). (fst (getLSTypeFromString t), m)) [(''tabu'', ''2opt''), (''bestimprove'', ''or'')])"
    by (rule chooseSearch_roundtrip) simp_all
  then show ?thesis by (simp add: getLSTypeFromString_def)
qed

text \<open>The number of fields of a part is at least two when it has a comma that is not its last character.\<close>

lemma split_string_fields: "length (split_string p d) < 2 \<longleftrightarrow> d \<notin> set (butlast p)"
proof (cases "d \<in> set p")
  case False
  then have "split_string p d = (if p = [] then [] else [p])" by (simp add: split_string.simps [of p] getline_end)
  then show ?thesis using False by (auto dest: in_set_butlastD)
next
  case True
  then obtain x r where p: "p = x @ d # r" "d \<notin> set x" by (meson split_list_first)
  have "split_string p d = x # split_string r d"
    unfolding p(1) by (subst split_string.simps) (simp add: getline_delim [OF p(2)])
  moreover have "split_string r d = [] \<longleftrightarrow> r = []" by (subst split_string.simps) (auto split: prod.split option.split)
  ultimately show ?thesis using p by (auto simp: butlast_append)
qed

lemma readLSOptions_None: "readLSOptions ls = None \<longleftrightarrow> (\<exists>p \<in> set ls. length (split_string p (CHR '','')) < 2)"
proof (induction ls)
  case (Cons p ls)
  then show ?case by (cases "split_string p (CHR '','')"; cases "tl (split_string p (CHR '',''))") auto
qed simp

text \<open>C9: the option is read without an access past the end of a vector exactly when it is not empty and every part
  of it, between semicolons, has a comma before its last character, that is, a name of a move after the name
  of the search. So an option without a name of a move fails, in particular the printed name of every
  search type, and so the default value of the option.\<close>

theorem chooseSearch_name_only:
  "(chooseSearch opt = None \<longleftrightarrow> opt = [] \<or> (\<exists>p \<in> set (split_string opt (CHR '';'')). CHR '','' \<notin> set (butlast p)))
   \<and> chooseSearch (str_LocalSearchType t) = None"
proof -
  have iff: "chooseSearch opt = None \<longleftrightarrow> opt = [] \<or> (\<exists>p \<in> set (split_string opt (CHR '';'')). CHR '','' \<notin> set (butlast p))" for opt
  proof (cases "split_string opt (CHR '';'')")
    case Nil
    then have "opt = []" by (subst (asm) split_string.simps) (auto split: prod.splits option.splits if_splits)
    then show ?thesis by (simp add: chooseSearch_def)
  next
    case (Cons l ls)
    then have "opt \<noteq> []" by auto
    then show ?thesis using Cons readLSOptions_None [of "l # ls"] split_string_fields [of l "CHR '',''"]
      by (cases "split_string l (CHR '','')") (auto simp: chooseSearch_def split_string_fields simp del: readLSOptions.simps)
  qed
  have "CHR '';'' \<notin> set (str_LocalSearchType t) \<and> CHR '','' \<notin> set (str_LocalSearchType t)"
    by (cases t) simp_all
  then have "\<forall>p \<in> set (split_string (str_LocalSearchType t) (CHR '';'')). CHR '','' \<notin> set (butlast p)"
    by (auto simp: split_string.simps [of "str_LocalSearchType t"] getline_end dest: in_set_butlastD split: if_splits)
  moreover have "str_LocalSearchType t \<noteq> []" by (cases t) simp_all
  moreover have "split_string s d \<noteq> []" if "s \<noteq> []" for s d
    using that by (subst split_string.simps) (auto split: prod.split option.split)
  ultimately show ?thesis using iff by (metis list.set_intros(1) neq_Nil_conv)
qed

end
