(* ===== verification/Spass_Partition.thy ===== *)
theory Spass_Partition
  imports Spec_Prelude
begin

text \<open>
  Partitions of \<open>{0, ..., size - 1}\<close> (SPASS \<open>partition.c\<close>, \<open>partition.h\<close>): a union-find structure in one
  array with negative indices. The array is a block of cells from \<open>low\<close> up to \<open>high\<close>; an access
  outside of it is \<open>None\<close>, as is a search for a normal form that does not end. Header cells hold the
  size of the set, the length of the allocated array and the stamp counter; the cells from
  \<open>0\<close> hold the parents (a negative cell is a root and codes the representative), the cells from
  \<open>size\<close> the sizes of the classes, the cells from \<open>-4\<close> downwards the stamps of the delayed
  initialisation. The stamp counter is a 32-bit \<open>int\<close> that wraps around; the lengths and indices
  are assumed to fit.
\<close>

section \<open>The array\<close>

record PARTITION =
  low :: int
  high :: int
  cell :: "int \<Rightarrow> int"

definition part_get :: "PARTITION \<Rightarrow> int \<Rightarrow> int option" where
  "part_get p i = (if low p \<le> i \<and> i < high p then Some (cell p i) else None)"

definition part_put :: "PARTITION \<Rightarrow> int \<Rightarrow> int \<Rightarrow> PARTITION option" where
  "part_put p i v = (if low p \<le> i \<and> i < high p then Some (p\<lparr>cell := (cell p)(i := v)\<rparr>) else None)"

definition part_CARD :: int where "part_CARD = -1"
definition part_ALLOC :: int where "part_ALLOC = -2"
definition part_STAMPCOUNTER :: int where "part_STAMPCOUNTER = -3"
definition part_HEAD :: int where "part_HEAD = 3"

lemmas part_consts = part_CARD_def part_ALLOC_def part_STAMPCOUNTER_def part_HEAD_def

definition part_Size :: "PARTITION \<Rightarrow> int option" where
  "part_Size p = part_get p part_CARD"

definition part_Element :: "PARTITION \<Rightarrow> int \<Rightarrow> bool option" where
  "part_Element p e = do { n \<leftarrow> part_Size p; Some (0 \<le> e \<and> e < n) }"

definition part_GetClass :: "PARTITION \<Rightarrow> int \<Rightarrow> int option" where
  "part_GetClass p e = part_get p e"

definition part_SetClass :: "PARTITION \<Rightarrow> int \<Rightarrow> int \<Rightarrow> PARTITION option" where
  "part_SetClass p e c = part_put p e c"

definition part_GetClassSize :: "PARTITION \<Rightarrow> int \<Rightarrow> int option" where
  "part_GetClassSize p e = do { n \<leftarrow> part_get p part_CARD; part_get p (n + e) }"

definition part_SetClassSize :: "PARTITION \<Rightarrow> int \<Rightarrow> int \<Rightarrow> PARTITION option" where
  "part_SetClassSize p e classsize = do { n \<leftarrow> part_get p part_CARD; part_put p (n + e) classsize }"

definition part_GetStamp :: "PARTITION \<Rightarrow> int \<Rightarrow> int option" where
  "part_GetStamp p e = part_get p (- part_HEAD - 1 - e)"

definition part_SetStamp :: "PARTITION \<Rightarrow> int \<Rightarrow> int \<Rightarrow> PARTITION option" where
  "part_SetStamp p e stamp = part_put p (- part_HEAD - 1 - e) stamp"

definition part_Stamped :: "PARTITION \<Rightarrow> int \<Rightarrow> bool option" where
  "part_Stamped p e = do {
     s \<leftarrow> part_GetStamp p e;
     c \<leftarrow> part_get p part_STAMPCOUNTER;
     Some (s = c) }"

definition part_DelayedInit :: "PARTITION \<Rightarrow> int \<Rightarrow> PARTITION option" where
  "part_DelayedInit p e = do {
     s \<leftarrow> part_Stamped p e;
     if \<not> s then do {
       p \<leftarrow> part_SetClass p e (- e - 1);
       p \<leftarrow> part_SetClassSize p e 1;
       c \<leftarrow> part_get p part_STAMPCOUNTER;
       part_SetStamp p e c }
     else Some p }"

section \<open>Creation\<close>

text \<open>\<open>memory_Calloc\<close> gives cells that are 0; the pointer is moved behind the stamps and the header.\<close>

definition part_Create :: "int \<Rightarrow> PARTITION option" where
  "part_Create n =
     (let p = \<lparr>low = - (n + part_HEAD), high = n * 3 + part_HEAD - (n + part_HEAD), cell = (\<lambda>i. 0)\<rparr> in do {
      p \<leftarrow> part_put p part_CARD n;
      p \<leftarrow> part_put p part_ALLOC (n * 3 + part_HEAD);
      part_put p part_STAMPCOUNTER 1 })"

text \<open>The arguments \<open>part_Free\<close> passes to \<open>memory_Free\<close>: the freed address as an offset from the
  pointer, in cells, and the number of bytes (\<open>sizeof(int) = 4\<close>).\<close>

definition part_Free :: "PARTITION \<Rightarrow> (int \<times> int) option" where
  "part_Free p = do {
     a \<leftarrow> part_get p part_ALLOC;
     Some (- ((a - part_HEAD) div 3) - part_HEAD, a * 4) }"

text \<open>The increment of a 32-bit \<open>int\<close>.\<close>

definition int32 :: "int \<Rightarrow> int" where "int32 i = (i + 2 ^ 31) mod 2 ^ 32 - 2 ^ 31"

fun part_reset_stamps :: "PARTITION \<Rightarrow> int \<Rightarrow> nat \<Rightarrow> PARTITION option" where
  "part_reset_stamps p i 0 = Some p"
| "part_reset_stamps p i (Suc n) = do {
     p \<leftarrow> part_SetStamp p i 0;
     part_reset_stamps p (i + 1) n }"

definition part_Init :: "PARTITION \<Rightarrow> int \<Rightarrow> PARTITION option" where
  "part_Init p n = do {
     a \<leftarrow> part_get p part_ALLOC;
     let alloc = (a - part_HEAD) div 3;
     if n > alloc then do {
       freed \<leftarrow> part_Free p;
       part_Create n }
     else do {
       p \<leftarrow> part_put p part_CARD n;
       c \<leftarrow> part_get p part_STAMPCOUNTER;
       p \<leftarrow> part_put p part_STAMPCOUNTER (int32 (c + 1));
       c \<leftarrow> part_get p part_STAMPCOUNTER;
       if c \<le> 0 then do {
         p \<leftarrow> part_reset_stamps p 0 (nat alloc);
         part_put p part_STAMPCOUNTER 1 }
       else Some p } }"

section \<open>Search and union\<close>

partial_function (option) part_NF_loop :: "PARTITION \<Rightarrow> int \<Rightarrow> (PARTITION \<times> int) option" where
  "part_NF_loop p nf = do {
     p \<leftarrow> part_DelayedInit p nf;
     c \<leftarrow> part_GetClass p nf;
     if c \<ge> 0 then part_NF_loop p c else Some (p, nf) }"

partial_function (option) part_compress :: "PARTITION \<Rightarrow> int \<Rightarrow> int \<Rightarrow> PARTITION option" where
  "part_compress p e nf =
     (if e \<noteq> nf then do {
        aux \<leftarrow> part_GetClass p e;
        p \<leftarrow> part_SetClass p e nf;
        part_compress p aux nf }
      else Some p)"

definition part_NF :: "PARTITION \<Rightarrow> int \<Rightarrow> (PARTITION \<times> int) option" where
  "part_NF p e = do {
     (p, nf) \<leftarrow> part_NF_loop p e;
     p \<leftarrow> part_compress p e nf;
     Some (p, nf) }"

definition part_Find :: "PARTITION \<Rightarrow> int \<Rightarrow> (PARTITION \<times> int) option" where
  "part_Find p e = do {
     (p, nf) \<leftarrow> part_NF p e;
     c \<leftarrow> part_GetClass p nf;
     Some (p, - c - 1) }"

definition part_Union :: "PARTITION \<Rightarrow> int \<Rightarrow> int \<Rightarrow> PARTITION option" where
  "part_Union p c1 c2 = do {
     (p, nf1) \<leftarrow> part_NF p c1;
     (p, nf2) \<leftarrow> part_NF p c2;
     if nf1 \<noteq> nf2 then do {
       s1 \<leftarrow> part_GetClassSize p nf1;
       s2 \<leftarrow> part_GetClassSize p nf2;
       (p, nf1, nf2) \<leftarrow>
         (if s1 < s2 then do {
            let aux = nf1;
            let nf1 = nf2;
            let nf2 = aux;
            c \<leftarrow> part_GetClass p nf2;
            p \<leftarrow> part_SetClass p nf1 c;
            c \<leftarrow> part_GetClass p nf2;
            p \<leftarrow> part_SetClass p (- c - 1) nf1;
            Some (p, nf1, nf2) }
          else Some (p, nf1, nf2));
       p \<leftarrow> part_SetClass p nf2 nf1;
       s1 \<leftarrow> part_GetClassSize p nf1;
       s2 \<leftarrow> part_GetClassSize p nf2;
       part_SetClassSize p nf1 (s1 + s2) }
     else Some p }"

definition part_Equivalent :: "PARTITION \<Rightarrow> int \<Rightarrow> int \<Rightarrow> (PARTITION \<times> bool) option" where
  "part_Equivalent p e1 e2 = do {
     (p, c1) \<leftarrow> part_Find p e1;
     (p, c2) \<leftarrow> part_Find p e2;
     Some (p, c1 = c2) }"


section \<open>Forests\<close>

text \<open>Independent of the array: a function \<open>f\<close> gives the parent or, when negative, marks a root;
  \<open>root_in f k e r\<close> says that \<open>r\<close> is the root above \<open>e\<close> and \<open>k\<close> steps away.\<close>

primrec root_in :: "(int \<Rightarrow> int) \<Rightarrow> nat \<Rightarrow> int \<Rightarrow> int \<Rightarrow> bool" where
  "root_in f 0 e r \<longleftrightarrow> f e < 0 \<and> r = e"
| "root_in f (Suc k) e r \<longleftrightarrow> 0 \<le> f e \<and> root_in f k (f e) r"

lemma root_in_det: "root_in f k e r \<Longrightarrow> root_in f m e r' \<Longrightarrow> k = m \<and> r = r'"
proof (induction k arbitrary: e m)
  case 0
  then show ?case by (cases m) auto
next
  case (Suc k)
  then show ?case by (cases m) auto
qed

lemma root_in_root: "root_in f k e r \<Longrightarrow> f r < 0"
  by (induction k arbitrary: e) auto

lemma root_in_avoids:
  "root_in f k x r \<Longrightarrow> root_in f m e r \<Longrightarrow> k < m \<Longrightarrow> root_in (f(e := v)) k x r"
proof (induction k arbitrary: x)
  case 0
  have "x \<noteq> e" using root_in_det [OF 0(1), of m r] 0(2,3) by auto
  then show ?case using 0(1) by simp
next
  case (Suc k)
  have "x \<noteq> e" using root_in_det [OF Suc.prems(1), of m r] Suc.prems(2,3) by auto
  then show ?case using Suc.IH [of "f x"] Suc.prems by simp
qed

lemma root_in_compress:
  assumes "root_in f m e r" "e \<noteq> r" "0 \<le> r"
  shows "root_in f k x s \<Longrightarrow> \<exists>k' \<le> k. root_in (f(e := r)) k' x s"
proof (induction k arbitrary: x)
  case 0
  have "x \<noteq> e" using assms(1,2) 0 by (cases m) auto
  then show ?case using 0 by (intro exI [of _ 0]) simp
next
  case (Suc k)
  show ?case
  proof (cases "x = e")
    case True
    then have "s = r" using root_in_det [OF Suc.prems] assms(1) by blast
    then show ?thesis using True assms root_in_root [OF assms(1)] by (intro exI [of _ "Suc 0"]) simp
  next
    case False
    have "root_in f k (f x) s" using Suc.prems by simp
    from Suc.IH [OF this] obtain k' where "k' \<le> k" "root_in (f(e := r)) k' (f x) s" by (elim exE conjE)
    moreover have "0 \<le> f x" using Suc.prems by simp
    ultimately show ?thesis using False
      by (intro exI [of _ "Suc k'"]) (simp only: root_in.simps fun_upd_other Suc_le_mono, simp)
  qed
qed

lemma root_in_recode: "v < 0 \<Longrightarrow> f b < 0 \<Longrightarrow> root_in (f(b := v)) k x r = root_in f k x r"
  by (induction k arbitrary: x) auto

lemma root_in_link_same:
  "root_in f k x r \<Longrightarrow> r \<noteq> s \<Longrightarrow> f s < 0 \<Longrightarrow> root_in (f(s := b)) k x r"
  by (induction k arbitrary: x) auto

lemma root_in_link:
  "root_in f k x s \<Longrightarrow> f b < 0 \<Longrightarrow> b \<noteq> s \<Longrightarrow> 0 \<le> b \<Longrightarrow> root_in (f(s := b)) (Suc k) x b"
proof (induction k arbitrary: x)
  case (Suc k)
  have "x \<noteq> s" using root_in_root [OF Suc.prems(1)] Suc.prems(1) by auto
  then show ?case using Suc by auto
qed simp


section \<open>Weighted forests that represent a partition\<close>

text \<open>\<open>forest n f s rep\<close>: over \<open>0, ..., n - 1\<close> every element has a root in range, its root codes the
  representative \<open>rep\<close>, which lies in the same tree; \<open>s\<close> of a root is the size of its tree, and
  a path of length \<open>k\<close> needs a tree of at least \<open>2 ^ k\<close> elements.\<close>

definition tree :: "int \<Rightarrow> (int \<Rightarrow> int) \<Rightarrow> int \<Rightarrow> int set" where
  "tree n f r = {e. 0 \<le> e \<and> e < n \<and> (\<exists>k. root_in f k e r)}"

definition rooted :: "int \<Rightarrow> (int \<Rightarrow> int) \<Rightarrow> (int \<Rightarrow> int) \<Rightarrow> int \<Rightarrow> bool" where
  "rooted n f rep e \<longleftrightarrow> 0 \<le> rep e \<and> rep e < n
     \<and> (\<exists>r k k'. root_in f k e r \<and> root_in f k' (rep e) r \<and> 0 \<le> r \<and> r < n \<and> f r = - rep e - 1)"

definition forest :: "int \<Rightarrow> (int \<Rightarrow> int) \<Rightarrow> (int \<Rightarrow> int) \<Rightarrow> (int \<Rightarrow> int) \<Rightarrow> bool" where
  "forest n f s rep \<longleftrightarrow> (\<forall>e. 0 \<le> e \<and> e < n \<longrightarrow> f e < n \<and> rooted n f rep e)
     \<and> (\<forall>r. 0 \<le> r \<and> r < n \<and> f r < 0 \<longrightarrow> s r = int (card (tree n f r)))
     \<and> (\<forall>e k r. 0 \<le> e \<and> e < n \<and> root_in f k e r \<longrightarrow> 2 ^ k \<le> s r)"

lemma forest_root:
  assumes "forest n f s rep" "0 \<le> e" "e < n"
  obtains r k k' where "root_in f k e r" "root_in f k' (rep e) r" "0 \<le> r" "r < n" "f r = - rep e - 1"
    "0 \<le> rep e" "rep e < n"
  using assms by (auto simp: forest_def rooted_def)

lemma forest_bound: "forest n f s rep \<Longrightarrow> 0 \<le> e \<Longrightarrow> e < n \<Longrightarrow> f e < n"
  by (simp add: forest_def)

lemma finite_tree [simp]: "finite (tree n f r)"
  by (rule finite_subset [of _ "{0..<n}"]) (auto simp: tree_def)

lemma rep_idem:
  assumes "forest n f s rep" "0 \<le> e" "e < n"
  shows "rep (rep e) = rep e"
proof -
  obtain r k k' where r: "root_in f k' (rep e) r" "f r = - rep e - 1" "0 \<le> rep e" "rep e < n"
    using forest_root [OF assms] by metis
  obtain r' m where r': "root_in f m (rep e) r'" "f r' = - rep (rep e) - 1"
    using forest_root [OF assms(1) r(3,4)] by metis
  from root_in_det [OF r(1) r'(1)] r(2) r'(2) show ?thesis by simp
qed

lemma rep_eq_iff:
  assumes "forest n f s rep" "0 \<le> e" "e < n" "0 \<le> e'" "e' < n" "root_in f k e r" "root_in f k' e' r'"
  shows "rep e = rep e' \<longleftrightarrow> r = r'"
proof -
  obtain q m m' where q: "root_in f m e q" "root_in f m' (rep e) q" "f q = - rep e - 1"
    using forest_root [OF assms(1,2,3)] by metis
  obtain q' j j' where q': "root_in f j e' q'" "root_in f j' (rep e') q'" "f q' = - rep e' - 1"
    using forest_root [OF assms(1,4,5)] by metis
  have "q = r" "q' = r'" using root_in_det [OF q(1) assms(6)] root_in_det [OF q'(1) assms(7)] by simp_all
  then show ?thesis using q(2,3) q'(2,3) root_in_det [of f m' "rep e" q j' q'] by auto
qed

text \<open>The initial forest.\<close>

lemma forest_id: "forest n (\<lambda>e. - e - 1) (\<lambda>e. 1) (\<lambda>e. e)"
proof -
  have r: "root_in (\<lambda>e. - e - 1) k e r \<longleftrightarrow> k = 0 \<and> r = e" if "0 \<le> e" for k e r
    using that by (cases k) auto
  have "tree n (\<lambda>e. - e - 1) r = {r}" if "0 \<le> r" "r < n" for r
    using that r by (auto simp: tree_def)
  then show ?thesis using r by (auto simp: forest_def rooted_def)
qed

text \<open>A change that keeps all roots and shortens paths.\<close>

lemma forest_shorten:
  assumes F: "forest n f s rep" and b: "\<forall>e. 0 \<le> e \<and> e < n \<longrightarrow> g e < n"
    and keep: "\<And>k x r. root_in f k x r \<Longrightarrow> \<exists>k' \<le> k. root_in g k' x r"
    and same: "\<forall>r. 0 \<le> r \<and> r < n \<and> g r < 0 \<longrightarrow> f r = g r"
    and roots: "\<forall>r. 0 \<le> r \<and> r < n \<and> f r < 0 \<longrightarrow> g r = f r"
  shows "forest n g s rep"
proof -
  have up: "\<exists>k' \<ge> k. root_in f k' x r" if h: "root_in g k x r" "0 \<le> x" "x < n" for k x r
  proof -
    obtain q j where q: "root_in f j x q" using forest_root [OF F h(2,3)] by metis
    from keep [OF q] obtain j' where "j' \<le> j" "root_in g j' x q" by (elim exE conjE)
    with root_in_det [OF h(1), of j' q] q show ?thesis by (intro exI [of _ j]) simp
  qed
  have t: "tree n g r = tree n f r" for r
    using up keep unfolding tree_def by blast
  have "rooted n g rep e" if e: "0 \<le> e" "e < n" for e
  proof -
    obtain r k k' where r: "root_in f k e r" "root_in f k' (rep e) r" "0 \<le> r" "r < n" "f r = - rep e - 1"
      "0 \<le> rep e" "rep e < n" using forest_root [OF F e] by metis
    have "g r = - rep e - 1" using roots r root_in_root [OF r(1)] by auto
    then show ?thesis using keep [OF r(1)] keep [OF r(2)] r(3,4,6,7) unfolding rooted_def by blast
  qed
  moreover have "s r = int (card (tree n g r))" if "0 \<le> r" "r < n" "g r < 0" for r
    using F that same t by (simp add: forest_def)
  moreover have "2 ^ k \<le> s r" if h: "0 \<le> e" "e < n" "root_in g k e r" for e k r
  proof -
    obtain k' where k: "k \<le> k'" "root_in f k' e r" using up [OF h(3,1,2)] by (elim exE conjE)
    have "(2::int) ^ k \<le> 2 ^ k'" using k(1) by simp
    also have "\<dots> \<le> s r" using F h k by (auto simp: forest_def)
    finally show ?thesis .
  qed
  ultimately show ?thesis using b unfolding forest_def by blast
qed

lemma forest_compress:
  assumes F: "forest n f s rep" and e: "root_in f m e r" "e \<noteq> r" "0 \<le> e" "e < n"
  shows "forest n (f(e := r)) s rep"
proof -
  obtain q k where q: "root_in f k e q" "0 \<le> q" "q < n" using forest_root [OF F e(3,4)] by metis
  have r: "0 \<le> r" "r < n" using root_in_det [OF q(1) e(1)] q by auto
  have "0 \<le> f e" using e(1,2) by (cases m) auto
  show ?thesis
    by (rule forest_shorten [OF F])
      (use r forest_bound [OF F] root_in_compress [OF e(1,2) r(1)] \<open>0 \<le> f e\<close> in auto)
qed


text \<open>The union of two trees: the smaller root \<open>small\<close> is linked below \<open>big\<close>, which codes the
  representative \<open>c\<close> of the union.\<close>

lemma forest_link:
  assumes F: "forest n f s rep" and c: "0 \<le> c1" "c1 < n" "0 \<le> c2" "c2 < n"
    and r: "root_in f k1 c1 r1" "root_in f k2 c2 r2" "r1 \<noteq> r2"
    and w: "{big, small} = {r1, r2}" "s small \<le> s big"
  shows "forest n (f(big := - rep c1 - 1, small := big)) (s(big := s big + s small))
    (\<lambda>x. if rep x = rep c2 then rep c1 else rep x)"
proof -
  let ?f = "f(big := - rep c1 - 1)"
  let ?g = "?f(small := big)"
  let ?s = "s(big := s big + s small)"
  let ?rep = "\<lambda>x. if rep x = rep c2 then rep c1 else rep x"
  have ne: "big \<noteq> small" using w r(3) by auto
  have in_range: "0 \<le> q \<and> q < n" if "root_in f k e q" "0 \<le> e" "e < n" for k e q
    using forest_root [OF F that(2,3)] root_in_det [OF that(1)] by metis
  have R: "0 \<le> big" "big < n" "0 \<le> small" "small < n" "f big < 0" "f small < 0"
    using w(1) ne in_range [OF r(1) c(1,2)] in_range [OF r(2) c(3,4)] root_in_root [OF r(1)] root_in_root [OF r(2)]
    by (auto simp: doubleton_eq_iff)
  obtain q1 j1 where q1: "root_in f j1 (rep c1) r1" "0 \<le> rep c1" "rep c1 < n"
    using forest_root [OF F c(1,2)] root_in_det [OF r(1)] by metis
  have fr: "root_in ?f k x r = root_in f k x r" for k x r
    by (rule root_in_recode) (use q1 R in auto)
  have bs: "?f big < 0" "?f small < 0" using q1 R ne by auto
  have other: "root_in ?g k x q" if "root_in f k x q" "q \<noteq> small" for k x q
    by (rule root_in_link_same) (use that fr bs in auto)
  have below: "root_in ?g (Suc k) x big" if "root_in f k x small" for k x
    by (rule root_in_link) (use that fr bs ne R in auto)
  have down: "\<exists>k' q'. root_in f k' x q' \<and> (if q' = small then q = big \<and> k = Suc k' else q = q' \<and> k = k')"
    if h: "root_in ?g k x q" "0 \<le> x" "x < n" for k x q
  proof -
    obtain q' j where q: "root_in f j x q'" using forest_root [OF F h(2,3)] by metis
    show ?thesis
    proof (cases "q' = small")
      case True
      then have "root_in ?g (Suc j) x big" using below q by simp
      from root_in_det [OF h(1) this] q True show ?thesis by (intro exI [of _ j] exI [of _ q']) simp
    next
      case False
      from root_in_det [OF h(1) other [OF q False]] q False show ?thesis by (intro exI [of _ j] exI [of _ q']) simp
    qed
  qed
  have ex: "(\<exists>k. root_in ?g k x q) \<longleftrightarrow>
      (q \<noteq> small \<and> (\<exists>k. root_in f k x q)) \<or> (q = big \<and> (\<exists>k. root_in f k x small))"
    if h: "0 \<le> x" "x < n" for x q
  proof
    assume "\<exists>k. root_in ?g k x q"
    then obtain k where "root_in ?g k x q" ..
    from down [OF this h] obtain k' q' where
      d: "root_in f k' x q'" "if q' = small then q = big \<and> k = Suc k' else q = q' \<and> k = k'" by (elim exE conjE)
    then show "(q \<noteq> small \<and> (\<exists>k. root_in f k x q)) \<or> (q = big \<and> (\<exists>k. root_in f k x small))"
      by (cases "q' = small") auto
  next
    assume "(q \<noteq> small \<and> (\<exists>k. root_in f k x q)) \<or> (q = big \<and> (\<exists>k. root_in f k x small))"
    then show "\<exists>k. root_in ?g k x q" by (elim disjE conjE exE) (use other below in metis)+
  qed
  have tb: "tree n ?g big = tree n f big \<union> tree n f small"
    by (rule set_eqI, simp only: tree_def mem_Collect_eq Un_iff)
      (use ne in \<open>simp add: ex cong: conj_cong del: fun_upd_apply\<close>, blast)
  have disj: "tree n f big \<inter> tree n f small = {}"
  proof -
    have False if "root_in f k x big" "root_in f j x small" for k j x
      using root_in_det [OF that] ne by simp
    then show ?thesis by (auto simp only: tree_def)
  qed
  have to: "tree n ?g q = tree n f q" if "q \<noteq> big" "q \<noteq> small" for q
    by (rule set_eqI, simp only: tree_def mem_Collect_eq)
      (use that in \<open>simp add: ex cong: conj_cong del: fun_upd_apply\<close>)
  have size_of: "s q = int (card (tree n f q))" if "0 \<le> q" "q < n" "f q < 0" for q
    using F that unfolding forest_def by blast
  have pow: "2 ^ k \<le> s q" if "0 \<le> e" "e < n" "root_in f k e q" for e k q
    using F that unfolding forest_def by blast
  have c1r: "rep x = rep c1 \<longleftrightarrow> q = r1" "rep x = rep c2 \<longleftrightarrow> q = r2" if "root_in f k x q" "0 \<le> x" "x < n" for k x q
    using rep_eq_iff [OF F that(2,3) c(1,2) that(1) r(1)] rep_eq_iff [OF F that(2,3) c(3,4) that(1) r(2)] by auto
  have "rooted n ?g ?rep e" if e: "0 \<le> e" "e < n" for e
  proof -
    obtain q k k' where q: "root_in f k e q" "root_in f k' (rep e) q" "0 \<le> q" "q < n" "f q = - rep e - 1"
      "0 \<le> rep e" "rep e < n" using forest_root [OF F e] by metis
    show ?thesis
    proof (cases "q = big \<or> q = small")
      case True
      have m: "?rep e = rep c1" using c1r [OF q(1) e] True w(1) by (auto simp: doubleton_eq_iff)
      have 1: "\<exists>k. root_in ?g k e big" using True q(1) below other ne by blast
      have 2: "\<exists>k. root_in ?g k (rep c1) big"
      proof -
        have "r1 = big \<or> r1 = small" using w(1) by (auto simp: doubleton_eq_iff)
        then show ?thesis using ex [OF q1(2,3), of big] q1(1) ne by blast
      qed
      show ?thesis unfolding rooted_def m using 1 2 R(1,2) q1(2,3) ne by auto
    next
      case False
      have m: "?rep e = rep e" using c1r [OF q(1) e] False w(1) by (auto simp: doubleton_eq_iff)
      show ?thesis unfolding rooted_def m using other [OF q(1)] other [OF q(2)] q(3-7) False by auto
    qed
  qed
  moreover have "?s q = int (card (tree n ?g q))" if h: "0 \<le> q" "q < n" "?g q < 0" for q
  proof (cases "q = big")
    case True
    then show ?thesis using size_of [OF R(1,2,5)] size_of [OF R(3,4,6)] tb disj by (simp add: card_Un_disjoint)
  next
    case False
    then have "q \<noteq> small" "f q < 0" using h R(1) by (auto split: if_splits)
    then show ?thesis using size_of h False to by simp
  qed
  moreover have "2 ^ k \<le> ?s q" if h: "0 \<le> e" "e < n" "root_in ?g k e q" for e k q
  proof -
    obtain k' q' where d: "root_in f k' e q'" "if q' = small then q = big \<and> k = Suc k' else q = q' \<and> k = k'"
      using down [OF h(3,1,2)] by (elim exE conjE)
    have p: "2 ^ k' \<le> s q'" by (rule pow [OF h(1,2) d(1)])
    have nn: "0 \<le> s big" "0 \<le> s small" using size_of R by simp_all
    show ?thesis using d(2) p w(2) nn by (auto split: if_splits)
  qed
  moreover have "?g e < n" if "0 \<le> e" "e < n" for e
    using forest_bound [OF F that] R q1 that by auto
  ultimately show ?thesis unfolding forest_def by blast
qed

text \<open>A path is no longer than the binary logarithm of the number of elements.\<close>

lemma forest_depth:
  assumes "forest n f s rep" "0 \<le> e" "e < n" "root_in f k e r"
  shows "2 ^ k \<le> n"
proof -
  obtain q j j' where q: "root_in f j e q" "0 \<le> q" "q < n" using forest_root [OF assms(1-3)] by metis
  have r: "q = r" using root_in_det [OF q(1) assms(4)] by simp
  have "2 ^ k \<le> s r" using assms unfolding forest_def by blast
  also have "s r = int (card (tree n f r))"
    using assms(1) q r root_in_root [OF assms(4)] unfolding forest_def by blast
  also have "\<dots> \<le> int (card {0..<n})"
    by (simp only: of_nat_le_iff, rule card_mono) (auto simp: tree_def)
  also have "\<dots> = n" using assms(2,3) by simp
  finally show ?thesis .
qed


section \<open>The array as a weighted forest\<close>

text \<open>\<open>part_wf a n p\<close>: the block has room for \<open>a\<close> elements, \<open>n\<close> are in use, no stamp is ahead of the
  counter. \<open>parent\<close> and \<open>weight\<close> read the cells of stamped elements; the others are singletons.\<close>

definition part_wf :: "int \<Rightarrow> int \<Rightarrow> PARTITION \<Rightarrow> bool" where
  "part_wf a n p \<longleftrightarrow> low p = - (a + 3) \<and> high p = 2 * a \<and> 0 \<le> n \<and> n \<le> a
     \<and> cell p (-1) = n \<and> cell p (-2) = 3 * a + 3 \<and> 1 \<le> cell p (-3) \<and> cell p (-3) < 2 ^ 31
     \<and> (\<forall>e. 0 \<le> e \<and> e < a \<longrightarrow> 0 \<le> cell p (- 4 - e) \<and> cell p (- 4 - e) \<le> cell p (-3))"

definition stamped :: "PARTITION \<Rightarrow> int \<Rightarrow> bool" where
  "stamped p e \<longleftrightarrow> 0 \<le> e \<and> e < cell p (-1) \<and> cell p (- 4 - e) = cell p (-3)"

definition parent :: "PARTITION \<Rightarrow> int \<Rightarrow> int" where
  "parent p e = (if stamped p e then cell p e else - e - 1)"

definition weight :: "PARTITION \<Rightarrow> int \<Rightarrow> int" where
  "weight p e = (if stamped p e then cell p (cell p (-1) + e) else 1)"

lemmas part_cells = part_GetClass_def part_SetClass_def part_GetClassSize_def part_SetClassSize_def
  part_GetStamp_def part_SetStamp_def part_get_def part_put_def part_consts

lemma part_DelayedInit_ok:
  assumes "part_wf a n p" "0 \<le> e" "e < n"
  shows "\<exists>p'. part_DelayedInit p e = Some p' \<and> part_wf a n p' \<and> parent p' = parent p \<and> weight p' = weight p
     \<and> stamped p' = (stamped p)(e := True)"
proof (cases "stamped p e")
  case True
  then have "part_DelayedInit p e = Some p" using assms
    by (auto simp: part_DelayedInit_def part_Stamped_def part_cells part_wf_def stamped_def)
  moreover have "stamped p = (stamped p)(e := True)" using True by (simp add: fun_eq_iff)
  ultimately show ?thesis using assms(1) by blast
next
  case False
  let ?c = "((cell p)(e := - e - 1, n + e := 1, - 4 - e := cell p (-3)))"
  let ?p = "p\<lparr>cell := ?c\<rparr>"
  have n: "cell p (-1) = n" "low p = - (a + 3)" "high p = 2 * a" "n \<le> a" using assms by (simp_all add: part_wf_def)
  have run: "part_DelayedInit p e = Some ?p"
    using assms False n by (simp add: part_DelayedInit_def part_Stamped_def part_cells stamped_def)
  have wf: "part_wf a n ?p" using assms by (auto simp: part_wf_def)
  have st: "stamped ?p = (stamped p)(e := True)"
    using assms n by (auto simp: stamped_def fun_eq_iff)
  have "parent ?p = parent p"
    using assms n False st by (auto simp: parent_def fun_eq_iff stamped_def)
  moreover have "weight ?p = weight p"
    using assms n False st by (auto simp: weight_def fun_eq_iff stamped_def)
  ultimately show ?thesis using run wf st by blast
qed

lemma part_SetClass_ok:
  assumes "part_wf a n p" "stamped p e"
  shows "\<exists>p'. part_SetClass p e v = Some p' \<and> part_wf a n p' \<and> parent p' = (parent p)(e := v)
     \<and> weight p' = weight p \<and> stamped p' = stamped p"
proof -
  let ?p = "p\<lparr>cell := (cell p)(e := v)\<rparr>"
  have n: "cell p (-1) = n" "low p = - (a + 3)" "high p = 2 * a" "n \<le> a" "0 \<le> e" "e < n"
    using assms by (simp_all add: part_wf_def stamped_def)
  have "part_SetClass p e v = Some ?p" "part_wf a n ?p" using assms n by (auto simp: part_cells part_wf_def)
  moreover have st: "stamped ?p = stamped p" using n by (auto simp: stamped_def fun_eq_iff)
  moreover have "parent ?p = (parent p)(e := v)" using assms(2) n st by (auto simp: parent_def fun_eq_iff)
  moreover have "weight ?p = weight p" using n st by (auto simp: weight_def fun_eq_iff stamped_def)
  ultimately show ?thesis by blast
qed

lemma part_SetClassSize_ok:
  assumes "part_wf a n p" "stamped p e"
  shows "\<exists>p'. part_SetClassSize p e v = Some p' \<and> part_wf a n p' \<and> parent p' = parent p
     \<and> weight p' = (weight p)(e := v) \<and> stamped p' = stamped p"
proof -
  let ?p = "p\<lparr>cell := (cell p)(n + e := v)\<rparr>"
  have n: "cell p (-1) = n" "low p = - (a + 3)" "high p = 2 * a" "n \<le> a" "0 \<le> e" "e < n"
    using assms by (simp_all add: part_wf_def stamped_def)
  have "part_SetClassSize p e v = Some ?p" "part_wf a n ?p" using assms n by (auto simp: part_cells part_wf_def)
  moreover have st: "stamped ?p = stamped p" using n by (auto simp: stamped_def fun_eq_iff)
  moreover have "parent ?p = parent p" using n st by (auto simp: parent_def fun_eq_iff stamped_def)
  moreover have "weight ?p = (weight p)(e := v)" using assms(2) n st by (auto simp: weight_def fun_eq_iff)
  ultimately show ?thesis by blast
qed

lemma part_gets:
  assumes "part_wf a n p" "stamped p e"
  shows "part_GetClass p e = Some (parent p e)" "part_GetClassSize p e = Some (weight p e)"
  using assms by (auto simp: part_cells part_wf_def stamped_def parent_def weight_def)

lemma stamped_range: "part_wf a n p \<Longrightarrow> stamped p e \<Longrightarrow> 0 \<le> e \<and> e < n"
  by (simp add: part_wf_def stamped_def)

lemma parent_stamped: "0 \<le> parent p e \<Longrightarrow> 0 \<le> e \<Longrightarrow> stamped p e"
  by (simp add: parent_def split: if_splits)

section \<open>The representation\<close>

text \<open>\<open>represents n p rep\<close>: the array holds the partition of \<open>{0, ..., n - 1}\<close> whose classes have the
  representatives \<open>rep\<close>.\<close>

definition represents :: "int \<Rightarrow> PARTITION \<Rightarrow> (int \<Rightarrow> int) \<Rightarrow> bool" where
  "represents n p rep \<longleftrightarrow> (\<exists>a. part_wf a n p) \<and> forest n (parent p) (weight p) rep"

lemma part_NF_loop_ok:
  assumes "root_in f k e r" "part_wf a n p" "parent p = f" "0 \<le> e" "e < n" "\<forall>x. 0 \<le> x \<and> x < n \<longrightarrow> f x < n"
  shows "\<exists>p'. part_NF_loop p e = Some (p', r) \<and> part_wf a n p' \<and> parent p' = f \<and> weight p' = weight p
     \<and> stamped p' r \<and> (\<forall>x. stamped p x \<longrightarrow> stamped p' x)"
  using assms
proof (induction k arbitrary: e p)
  case 0
  obtain p1 where p1: "part_DelayedInit p e = Some p1" "part_wf a n p1" "parent p1 = parent p" "weight p1 = weight p"
    "stamped p1 = (stamped p)(e := True)" using part_DelayedInit_ok [OF 0(2,4,5)] by (elim exE conjE)
  have "stamped p1 e" using p1(5) by simp
  with 0 p1 part_gets [OF p1(2) this] show ?case
    by (subst part_NF_loop.simps) auto
next
  case (Suc k)
  obtain p1 where p1: "part_DelayedInit p e = Some p1" "part_wf a n p1" "parent p1 = parent p" "weight p1 = weight p"
    "stamped p1 = (stamped p)(e := True)" using part_DelayedInit_ok [OF Suc.prems(2,4,5)] by (elim exE conjE)
  have st: "stamped p1 e" using p1(5) by simp
  have f: "0 \<le> f e" "f e < n" "root_in f k (f e) r" using Suc.prems by simp_all
  obtain p2 where p2: "part_NF_loop p1 (f e) = Some (p2, r)" "part_wf a n p2" "parent p2 = f" "weight p2 = weight p1"
    "stamped p2 r" "\<forall>x. stamped p1 x \<longrightarrow> stamped p2 x"
    using Suc.IH [OF f(3) p1(2) _ f(1,2) Suc.prems(6)] p1(3) Suc.prems(3) by auto
  have "part_NF_loop p e = Some (p2, r)"
    using p1 p2 part_gets [OF p1(2) st] f Suc.prems(3) by (subst part_NF_loop.simps) simp
  then show ?case using p1 p2 by (intro exI [of _ p2]) auto
qed

lemma part_compress_ok:
  assumes "root_in (parent p) k e r" "part_wf a n p" "forest n (parent p) (weight p) rep" "0 \<le> e" "e < n"
  shows "\<exists>p'. part_compress p e r = Some p' \<and> part_wf a n p' \<and> forest n (parent p') (weight p') rep
     \<and> weight p' = weight p \<and> parent p' r = parent p r \<and> stamped p' = stamped p
     \<and> (\<forall>j x q. root_in (parent p) j x q \<longrightarrow> (\<exists>j'. root_in (parent p') j' x q))"
  using assms
proof (induction k arbitrary: e p)
  case 0
  then show ?case by (subst part_compress.simps) auto
next
  case (Suc k)
  let ?f = "parent p"
  have f: "0 \<le> ?f e" "?f e < n" "root_in ?f k (?f e) r"
    using Suc.prems(1) forest_bound [OF Suc.prems(3-5)] by simp_all
  have ne: "e \<noteq> r" using root_in_root [OF Suc.prems(1)] f(1) by auto
  have r: "0 \<le> r" "r < n"
    using forest_root [OF Suc.prems(3-5)] root_in_det [OF Suc.prems(1)] by metis+
  have st: "stamped p e" using parent_stamped f(1) Suc.prems(4) by blast
  obtain p1 where p1: "part_SetClass p e r = Some p1" "part_wf a n p1" "parent p1 = ?f(e := r)" "weight p1 = weight p"
    "stamped p1 = stamped p" using part_SetClass_ok [OF Suc.prems(2) st] by blast
  have F1: "forest n (parent p1) (weight p1) rep"
    unfolding p1(3,4) by (rule forest_compress [OF Suc.prems(3,1) ne Suc.prems(4,5)])
  have R1: "root_in (parent p1) k (?f e) r"
    unfolding p1(3) by (rule root_in_avoids [OF f(3) Suc.prems(1)]) simp
  obtain p2 where p2: "part_compress p1 (?f e) r = Some p2" "part_wf a n p2" "forest n (parent p2) (weight p2) rep"
    "weight p2 = weight p1" "parent p2 r = parent p1 r" "stamped p2 = stamped p1"
    "\<forall>j x q. root_in (parent p1) j x q \<longrightarrow> (\<exists>j'. root_in (parent p2) j' x q)"
    using Suc.IH [OF R1 p1(2) F1 f(1,2)] by (elim exE conjE)
  have run: "part_compress p e r = Some p2"
    using ne part_gets [OF Suc.prems(2) st] p1(1) p2(1) by (subst part_compress.simps) simp
  have keep: "\<exists>j'. root_in (parent p2) j' x q" if h: "root_in ?f j x q" for j x q
  proof -
    obtain j' where "root_in (parent p1) j' x q"
      using root_in_compress [OF Suc.prems(1) ne r(1) h] unfolding p1(3) by (elim exE conjE)
    then show ?thesis using p2(7) by blast
  qed
  have "parent p2 r = ?f r" using p2(5) p1(3) ne by simp
  then show ?case using run p2 p1 keep by (intro exI [of _ p2]) auto
qed


lemma part_NF_ok:
  assumes "part_wf a n p" "forest n (parent p) (weight p) rep" "0 \<le> e" "e < n"
  shows "\<exists>p' r. part_NF p e = Some (p', r) \<and> part_wf a n p' \<and> forest n (parent p') (weight p') rep
     \<and> weight p' = weight p \<and> stamped p' r \<and> parent p' r = - rep e - 1 \<and> (\<exists>k. root_in (parent p') k e r)
     \<and> (\<forall>j x q. root_in (parent p) j x q \<longrightarrow> (\<exists>j'. root_in (parent p') j' x q))
     \<and> (\<forall>x. stamped p x \<longrightarrow> stamped p' x)"
proof -
  obtain r k where r: "root_in (parent p) k e r" "parent p r = - rep e - 1"
    using forest_root [OF assms(2-4)] by metis
  obtain p1 where p1: "part_NF_loop p e = Some (p1, r)" "part_wf a n p1" "parent p1 = parent p" "weight p1 = weight p"
    "stamped p1 r" "\<forall>x. stamped p x \<longrightarrow> stamped p1 x"
    using part_NF_loop_ok [OF r(1) assms(1) refl assms(3,4)] forest_bound [OF assms(2)] by blast
  have r1: "root_in (parent p1) k e r" "forest n (parent p1) (weight p1) rep" using r(1) assms(2) p1(3,4) by simp_all
  obtain p2 where p2: "part_compress p1 e r = Some p2" "part_wf a n p2" "forest n (parent p2) (weight p2) rep"
    "weight p2 = weight p1" "parent p2 r = parent p1 r" "stamped p2 = stamped p1"
    "\<forall>j x q. root_in (parent p1) j x q \<longrightarrow> (\<exists>j'. root_in (parent p2) j' x q)"
    using part_compress_ok [OF r1(1) p1(2) r1(2) assms(3,4)] by (elim exE conjE)
  have "\<exists>k. root_in (parent p2) k e r" using p2(7) r1(1) by blast
  moreover have "part_NF p e = Some (p2, r)" using p1(1) p2(1) by (simp add: part_NF_def)
  ultimately show ?thesis using p1 p2 r(2) by (intro exI [of _ p2] exI [of _ r]) auto
qed

lemma part_Find_ok:
  assumes "represents n p rep" "0 \<le> e" "e < n"
  shows "\<exists>p'. part_Find p e = Some (p', rep e) \<and> represents n p' rep"
proof -
  obtain a where a: "part_wf a n p" "forest n (parent p) (weight p) rep"
    using assms(1) unfolding represents_def by (elim exE conjE)
  obtain p' r where p: "part_NF p e = Some (p', r)" "part_wf a n p'" "forest n (parent p') (weight p') rep"
    "stamped p' r" "parent p' r = - rep e - 1"
    using part_NF_ok [OF a assms(2,3)] by (elim exE conjE)
  have "part_Find p e = Some (p', rep e)"
    using p(1,5) part_gets [OF p(2,4)] by (simp add: part_Find_def)
  then show ?thesis using p(2,3) unfolding represents_def by blast
qed

lemma part_Union_ok:
  assumes "represents n p rep" "0 \<le> c1" "c1 < n" "0 \<le> c2" "c2 < n"
  shows "\<exists>p'. part_Union p c1 c2 = Some p' \<and> represents n p' (\<lambda>x. if rep x = rep c2 then rep c1 else rep x)"
proof -
  let ?rep = "\<lambda>x. if rep x = rep c2 then rep c1 else rep x"
  obtain a where a: "part_wf a n p" "forest n (parent p) (weight p) rep"
    using assms(1) unfolding represents_def by (elim exE conjE)
  obtain p1 r1 j1 where p1: "part_NF p c1 = Some (p1, r1)" "part_wf a n p1" "forest n (parent p1) (weight p1) rep"
    "stamped p1 r1" "parent p1 r1 = - rep c1 - 1" "root_in (parent p1) j1 c1 r1"
    using part_NF_ok [OF a assms(2,3)] by (elim exE conjE)
  obtain p2 r2 j2 where p2: "part_NF p1 c2 = Some (p2, r2)" "part_wf a n p2" "forest n (parent p2) (weight p2) rep"
    "weight p2 = weight p1" "stamped p2 r2" "parent p2 r2 = - rep c2 - 1" "root_in (parent p2) j2 c2 r2"
    "\<forall>j x q. root_in (parent p1) j x q \<longrightarrow> (\<exists>j'. root_in (parent p2) j' x q)"
    "\<forall>x. stamped p1 x \<longrightarrow> stamped p2 x"
    using part_NF_ok [OF p1(2,3) assms(4,5)] by (elim exE conjE)
  obtain k1 k2 where k: "root_in (parent p2) k1 c1 r1" "root_in (parent p2) k2 c2 r2" using p1(6) p2(7,8) by blast
  have st: "stamped p2 r1" "stamped p2 r2" using p1(4) p2(5,9) by auto
  have pr1: "parent p2 r1 = - rep c1 - 1"
    using forest_root [OF p2(3) assms(2,3)] root_in_det [OF k(1)] by metis
  have rng: "0 \<le> r1" "r1 < n" "0 \<le> r2" "r2 < n" using stamped_range [OF p2(2)] st by auto
  have c: "0 \<le> rep c1" "rep c1 < n" using forest_root [OF p2(3) assms(2,3)] by metis+
  obtain j where rc: "root_in (parent p2) j (rep c1) r1"
    using forest_root [OF p2(3) assms(2,3)] root_in_det [OF k(1)] by metis
  show ?thesis
  proof (cases "r1 = r2")
    case True
    then have "rep c1 = rep c2" using pr1 p2(6) by simp
    then have "?rep = rep" by (simp add: fun_eq_iff)
    moreover have "part_Union p c1 c2 = Some p2" using True p1(1) p2(1) by (simp add: part_Union_def)
    ultimately show ?thesis using p2(2,3) unfolding represents_def by (intro exI [of _ p2]) auto
  next
    case False
    show ?thesis
    proof (cases "weight p2 r1 < weight p2 r2")
      case True
      let ?f = "(parent p2)(r2 := - rep c1 - 1, r1 := r2)"
      let ?s = "(weight p2)(r2 := weight p2 r2 + weight p2 r1)"
      have F: "forest n ?f ?s ?rep"
        by (rule forest_link [OF p2(3) assms(2-5) k False]) (use True in auto)
      obtain p3 where p3: "part_SetClass p2 r2 (- rep c1 - 1) = Some p3" "part_wf a n p3"
        "parent p3 = (parent p2)(r2 := - rep c1 - 1)" "weight p3 = weight p2" "stamped p3 = stamped p2"
        using part_SetClass_ok [OF p2(2) st(2)] by blast
      have src: "stamped p3 (rep c1)"
      proof (cases "rep c1 = r1")
        case False
        then have "0 \<le> parent p2 (rep c1)" using rc by (cases j) auto
        then show ?thesis using parent_stamped c(1) p3(5) by auto
      qed (use st p3 in simp)
      obtain p4 where p4: "part_SetClass p3 (rep c1) r2 = Some p4" "part_wf a n p4"
        "parent p4 = (parent p3)(rep c1 := r2)" "weight p4 = weight p3" "stamped p4 = stamped p3"
        using part_SetClass_ok [OF p3(2) src] by blast
      obtain p5 where p5: "part_SetClass p4 r1 r2 = Some p5" "part_wf a n p5"
        "parent p5 = (parent p4)(r1 := r2)" "weight p5 = weight p4" "stamped p5 = stamped p4"
        using part_SetClass_ok [OF p4(2), of r1 r2] st p4(5) p3(5) by auto
      obtain p6 where p6: "part_SetClassSize p5 r2 (weight p2 r2 + weight p2 r1) = Some p6" "part_wf a n p6"
        "parent p6 = parent p5" "weight p6 = (weight p5)(r2 := weight p2 r2 + weight p2 r1)"
        using part_SetClassSize_ok [OF p5(2), of r2] st p5(5) p4(5) p3(5) by metis
      have "part_Union p c1 c2 = Some p6"
        using False True p1(1) p2(1) p3(1) p4(1) p5(1) p6(1) pr1 part_gets [OF p2(2) st(1)] part_gets [OF p2(2) st(2)]
          part_gets [OF p3(2), of r1] part_gets [OF p5(2), of r1] part_gets [OF p5(2), of r2]
          st p3(3,4,5) p4(4,5) p5(4,5)
        by (simp add: part_Union_def Let_def)
      moreover have "forest n (parent p6) (weight p6) ?rep"
      proof -
        have w6: "weight p6 = ?s" using p6(4) p5(4) p4(4) p3(4) by simp
        have ne2: "rep c1 \<noteq> r2"
        proof
          assume "rep c1 = r2"
          then have "root_in (parent p2) 0 (rep c1) r2" using root_in_root [OF k(2)] by simp
          from root_in_det [OF this rc] False show False by simp
        qed
        show ?thesis
        proof (cases "rep c1 = r1")
          case True
          then have "parent p6 = ?f" using p6(3) p5(3) p4(3) p3(3) by simp
          with F w6 show ?thesis by simp
        next
          case ne1: False
          have p6f: "parent p6 = ?f(rep c1 := r2)"
            using p6(3) p5(3) p4(3) p3(3) ne1 ne2 by (auto simp: fun_eq_iff)
          have "root_in ((parent p2)(r2 := - rep c1 - 1)) k1 c1 r1"
            using k(1) root_in_root [OF k(2)] c(1) by (simp add: root_in_recode)
          then have "root_in ?f (Suc k1) c1 r2"
            by (rule root_in_link) (use c(1) False rng in auto)
          moreover have "(if rep c1 = rep c2 then rep c1 else rep c1) = rep c1" by simp
          ultimately obtain m where "root_in ?f m (rep c1) r2"
            using forest_root [OF F assms(2,3)] root_in_det [of ?f "Suc k1" c1 r2] by (metis (no_types))
          from forest_compress [OF F this ne2 c] have "forest n (?f(rep c1 := r2)) ?s ?rep" .
          then show ?thesis using w6 p6f by simp
        qed
      qed
      ultimately show ?thesis using p6(2) unfolding represents_def by blast
    next
      case ge: False
      let ?f = "(parent p2)(r2 := r1)"
      let ?s = "(weight p2)(r1 := weight p2 r1 + weight p2 r2)"
      have "(parent p2)(r1 := - rep c1 - 1) = parent p2" using pr1 by (simp add: fun_eq_iff)
      moreover have "forest n ((parent p2)(r1 := - rep c1 - 1, r2 := r1)) ?s ?rep"
        by (rule forest_link [OF p2(3) assms(2-5) k False]) (use ge in auto)
      ultimately have F: "forest n ?f ?s ?rep" by simp
      obtain p3 where p3: "part_SetClass p2 r2 r1 = Some p3" "part_wf a n p3"
        "parent p3 = ?f" "weight p3 = weight p2" "stamped p3 = stamped p2"
        using part_SetClass_ok [OF p2(2) st(2)] by blast
      have st3: "stamped p3 r1" "stamped p3 r2" using st p3(5) by simp_all
      obtain p4 where p4: "part_SetClassSize p3 r1 (weight p2 r1 + weight p2 r2) = Some p4" "part_wf a n p4"
        "parent p4 = parent p3" "weight p4 = (weight p3)(r1 := weight p2 r1 + weight p2 r2)"
        using part_SetClassSize_ok [OF p3(2) st3(1)] by metis
      have "part_Union p c1 c2 = Some p4"
        using False ge p1(1) p2(1) p3(1,4) p4(1) part_gets [OF p2(2) st(1)] part_gets [OF p2(2) st(2)]
          part_gets [OF p3(2) st3(1)] part_gets [OF p3(2) st3(2)]
        by (simp add: part_Union_def Let_def)
      moreover have "parent p4 = ?f" "weight p4 = ?s" using p4(3,4) p3(3,4) by simp_all
      ultimately show ?thesis using F p4(2) unfolding represents_def by auto
    qed
  qed
qed


section \<open>Creation and reuse\<close>

lemma part_fresh:
  assumes "part_wf a n p" "\<forall>e. \<not> stamped p e"
  shows "represents n p (\<lambda>e. e)"
proof -
  have "parent p = (\<lambda>e. - e - 1)" "weight p = (\<lambda>e. 1)" using assms(2) by (simp_all add: parent_def weight_def fun_eq_iff)
  then show ?thesis using assms(1) forest_id unfolding represents_def by auto
qed

lemma part_Create_ok:
  assumes "0 \<le> n"
  shows "\<exists>p. part_Create n = Some p \<and> represents n p (\<lambda>e. e)"
proof -
  let ?p = "\<lparr>low = - (n + 3), high = 2 * n, cell = (\<lambda>i. 0)(-1 := n, -2 := n * 3 + 3, -3 := 1)\<rparr>"
  have "part_Create n = Some ?p" using assms by (simp add: part_Create_def part_cells Let_def)
  moreover have "represents n ?p (\<lambda>e. e)"
    by (rule part_fresh [of n]) (use assms in \<open>auto simp: part_wf_def stamped_def\<close>)
  ultimately show ?thesis by blast
qed

lemma part_reset_stamps_ok:
  assumes "low p \<le> - 4 - (i + int m - 1)" "- 4 - i < high p" "0 \<le> i"
  shows "part_reset_stamps p i m
    = Some (p\<lparr>cell := (\<lambda>j. if - 4 - (i + int m - 1) \<le> j \<and> j \<le> - 4 - i then 0 else cell p j)\<rparr>)"
  using assms
proof (induction m arbitrary: p i)
  case (Suc m)
  show ?case using Suc.prems Suc.IH [of "p\<lparr>cell := (cell p)(- 4 - i := 0)\<rparr>" "i + 1"]
    by (auto simp: part_cells fun_eq_iff algebra_simps intro!: arg_cong2 [of _ _ _ _ cell_update])
qed (auto simp: fun_eq_iff)

lemma int32_less: "- (2 ^ 31) \<le> i \<Longrightarrow> i < 2 ^ 31 \<Longrightarrow> int32 i = i"
  by (simp add: int32_def)

lemma int32_wraps: "int32 (2 ^ 31 - 1 + 1) = - (2 ^ 31)"
  by (simp add: int32_def)

lemma part_Init_ok:
  assumes "represents m p rep" "0 \<le> n"
  shows "\<exists>p'. part_Init p n = Some p' \<and> represents n p' (\<lambda>e. e)"
proof -
  obtain a where wf: "part_wf a m p" using assms(1) unfolding represents_def by blast
  have c: "low p = - (a + 3)" "high p = 2 * a" "0 \<le> a" "cell p (-2) = 3 * a + 3" "1 \<le> cell p (-3)" "cell p (-3) < 2 ^ 31"
    "\<forall>e. 0 \<le> e \<and> e < a \<longrightarrow> 0 \<le> cell p (- 4 - e) \<and> cell p (- 4 - e) \<le> cell p (-3)"
    using wf by (auto simp: part_wf_def)
  have al: "part_get p part_ALLOC = Some (3 * a + 3)" "(3 * a + 3 - part_HEAD) div 3 = a"
    using c by (simp_all add: part_cells)
  show ?thesis
  proof (cases "n > a")
    case True
    then show ?thesis using part_Create_ok [OF assms(2)] al by (simp add: part_Init_def Let_def part_Free_def)
  next
    case False
    show ?thesis
    proof (cases "cell p (-3) + 1 = 2 ^ 31")
      case True
      let ?q = "p\<lparr>cell := (cell p)(-1 := n, -3 := - (2 ^ 31))\<rparr>"
      let ?r = "?q\<lparr>cell := (\<lambda>j. if - 4 - (int (nat a) - 1) \<le> j \<and> j \<le> - 4 then 0 else cell ?q j)\<rparr>"
      let ?p = "?r\<lparr>cell := (cell ?r)(-3 := 1)\<rparr>"
      have w: "int32 (cell p (-3) + 1) = - (2 ^ 31)" using True by (simp add: int32_def)
      have r: "part_reset_stamps ?q 0 (nat a) = Some ?r"
        using part_reset_stamps_ok [of ?q 0 "nat a"] c by simp
      have "part_Init p n = Some ?p"
        using False al c w r by (simp add: part_Init_def Let_def part_cells)
      moreover have "represents n ?p (\<lambda>e. e)"
        by (rule part_fresh [of a]) (use c assms(2) False in \<open>auto simp: part_wf_def stamped_def\<close>)
      ultimately show ?thesis by blast
    next
      case F: False
      let ?p = "p\<lparr>cell := (cell p)(-1 := n, -3 := cell p (-3) + 1)\<rparr>"
      have w: "int32 (cell p (-3) + 1) = cell p (-3) + 1" using F c by (intro int32_less) auto
      have "part_Init p n = Some ?p"
        using False al c w by (simp add: part_Init_def Let_def part_cells)
      moreover have "represents n ?p (\<lambda>e. e)"
      proof (rule part_fresh [of a])
        show "part_wf a n ?p" using c assms(2) False F by (auto simp: part_wf_def)
        have "cell p (- 4 - e) \<noteq> cell p (-3) + 1" if "0 \<le> e" "e < n" for e
          using c(7) [rule_format, of e] that False by auto
        then show "\<forall>e. \<not> stamped ?p e" by (auto simp: stamped_def)
      qed
      ultimately show ?thesis by blast
    qed
  qed
qed

section \<open>Sequences of unions\<close>

fun part_Unions :: "PARTITION \<Rightarrow> (int \<times> int) list \<Rightarrow> PARTITION option" where
  "part_Unions p [] = Some p"
| "part_Unions p ((c1, c2) # us) = do { p \<leftarrow> part_Union p c1 c2; part_Unions p us }"

text \<open>\<open>classes E rep\<close>: the representatives are those of the equivalence relation generated by \<open>E\<close>.\<close>

definition classes :: "(int \<times> int) set \<Rightarrow> (int \<Rightarrow> int) \<Rightarrow> bool" where
  "classes E rep \<longleftrightarrow> (\<forall>x. (x, rep x) \<in> (E \<union> E\<inverse>)\<^sup>*) \<and> (\<forall>(x, y) \<in> E. rep x = rep y)"

lemma eqcl_sym: "(x, y) \<in> (E \<union> E\<inverse>)\<^sup>* \<Longrightarrow> (y, x) \<in> (E \<union> E\<inverse>)\<^sup>*"
  by (metis converse_Un converse_converse rtrancl_converseI sup_commute)

lemma eqcl_mono: "(x, y) \<in> (E \<union> E\<inverse>)\<^sup>* \<Longrightarrow> (x, y) \<in> (insert e E \<union> (insert e E)\<inverse>)\<^sup>*"
  by (rule subsetD [OF rtrancl_mono]) auto

lemma classes_iff:
  assumes "classes E rep"
  shows "rep x = rep y \<longleftrightarrow> (x, y) \<in> (E \<union> E\<inverse>)\<^sup>*"
proof
  assume "rep x = rep y"
  moreover have "(x, rep x) \<in> (E \<union> E\<inverse>)\<^sup>*" "(y, rep y) \<in> (E \<union> E\<inverse>)\<^sup>*" using assms by (simp_all add: classes_def)
  ultimately show "(x, y) \<in> (E \<union> E\<inverse>)\<^sup>*" using eqcl_sym rtrancl_trans by metis
next
  assume "(x, y) \<in> (E \<union> E\<inverse>)\<^sup>*"
  then show "rep x = rep y"
  proof (induction rule: rtrancl_induct)
    case (step y z)
    then show ?case using assms by (auto simp: classes_def)
  qed simp
qed

lemma classes_union:
  assumes "classes E rep"
  shows "classes (insert (c1, c2) E) (\<lambda>x. if rep x = rep c2 then rep c1 else rep x)"
proof -
  let ?E = "insert (c1, c2) E"
  let ?R = "(?E \<union> ?E\<inverse>)\<^sup>*"
  have old: "(x, rep x) \<in> ?R" for x by (rule eqcl_mono) (use assms in \<open>simp add: classes_def\<close>)
  have "(c2, c1) \<in> ?R" by (rule r_into_rtrancl) simp
  moreover have "(x, c2) \<in> ?R" if "rep x = rep c2" for x
    using old [of x] old [of c2] that eqcl_sym rtrancl_trans by metis
  ultimately have "(x, rep c1) \<in> ?R" if "rep x = rep c2" for x
    using that old [of c1] by (meson rtrancl_trans)
  with old assms show ?thesis by (auto simp: classes_def)
qed

lemma part_Unions_ok:
  assumes "represents n p rep" "classes E rep" "\<forall>(x, y) \<in> set us. 0 \<le> x \<and> x < n \<and> 0 \<le> y \<and> y < n"
  shows "\<exists>p' rep'. part_Unions p us = Some p' \<and> represents n p' rep' \<and> classes (set us \<union> E) rep'"
  using assms
proof (induction us arbitrary: p rep E)
  case (Cons u us)
  obtain c1 c2 where u: "u = (c1, c2)" by (cases u)
  obtain p1 where p1: "part_Union p c1 c2 = Some p1"
    "represents n p1 (\<lambda>x. if rep x = rep c2 then rep c1 else rep x)"
    using part_Union_ok [OF Cons.prems(1), of c1 c2] Cons.prems(3) u by auto
  from Cons.IH [OF p1(2) classes_union [OF Cons.prems(2)]] Cons.prems(3)
  obtain p2 rep' where "part_Unions p1 us = Some p2" "represents n p2 rep'"
    "classes (set us \<union> insert (c1, c2) E) rep'" by auto
  then show ?case using p1(1) u by auto
qed auto

lemma part_Equivalent_ok:
  assumes "represents n p rep" "0 \<le> x" "x < n" "0 \<le> y" "y < n"
  shows "\<exists>p'. part_Equivalent p x y = Some (p', rep x = rep y) \<and> represents n p' rep"
proof -
  obtain p1 where p1: "part_Find p x = Some (p1, rep x)" "represents n p1 rep"
    using part_Find_ok [OF assms(1-3)] by blast
  obtain p2 where p2: "part_Find p1 y = Some (p2, rep y)" "represents n p2 rep"
    using part_Find_ok [OF p1(2) assms(4,5)] by blast
  show ?thesis using p1 p2 by (simp add: part_Equivalent_def)
qed


section \<open>Properties\<close>

text \<open>C27: the partition module decides the equivalence relation generated by the unions made since
  the partition was created: no access is out of bounds and every search ends.\<close>

theorem part_Equivalent_correct:
  assumes "\<forall>(x, y) \<in> set us. 0 \<le> x \<and> x < n \<and> 0 \<le> y \<and> y < n" "0 \<le> a" "a < n" "0 \<le> b" "b < n"
  shows "\<exists>p p'. part_Create n \<bind> (\<lambda>p. part_Unions p us) = Some p
     \<and> part_Equivalent p a b = Some (p', (a, b) \<in> (set us \<union> (set us)\<inverse>)\<^sup>*)"
proof -
  obtain p0 where p0: "part_Create n = Some p0" "represents n p0 (\<lambda>e. e)"
    using part_Create_ok [of n] assms(2,3) by auto
  have "classes {} (\<lambda>e. e)" by (simp add: classes_def)
  from part_Unions_ok [OF p0(2) this assms(1)] obtain p rep where
    p: "part_Unions p0 us = Some p" "represents n p rep" "classes (set us) rep" by auto
  from part_Equivalent_ok [OF p(2) assms(2-5)] p0(1) p(1) classes_iff [OF p(3)] show ?thesis by auto
qed

theorem part_Equivalent_correct_witness:
  "\<exists>p p'. part_Create 5 \<bind> (\<lambda>p. part_Unions p [(0, 1), (3, 4), (1, 3)]) = Some p
     \<and> part_Equivalent p 0 4 = Some (p', True)"
proof -
  let ?E = "set [(0, 1), (3, 4), (1::int, 3::int)]"
  have "(0, 1) \<in> (?E \<union> ?E\<inverse>)\<^sup>*" "(1, 3) \<in> (?E \<union> ?E\<inverse>)\<^sup>*" "(3, 4) \<in> (?E \<union> ?E\<inverse>)\<^sup>*"
    by (rule r_into_rtrancl, simp)+
  then have "(0, 4) \<in> (?E \<union> ?E\<inverse>)\<^sup>*" by (meson rtrancl_trans)
  then show ?thesis
    using part_Equivalent_correct [of "[(0, 1), (3, 4), (1, 3)]" 5 0 4] by simp
qed

text \<open>C28: \<open>part_Union\<close> merges the two classes and the representative of the first is that of the
  union; \<open>part_Find\<close> returns the representative and changes none.\<close>

theorem part_Union_correct:
  assumes "represents n p rep" "0 \<le> c1" "c1 < n" "0 \<le> c2" "c2 < n" "0 \<le> e" "e < n"
  shows "\<exists>p1 p2. part_Union p c1 c2 = Some p1
     \<and> part_Find p1 e = Some (p2, if rep e = rep c2 then rep c1 else rep e)
     \<and> represents n p2 (\<lambda>x. if rep x = rep c2 then rep c1 else rep x)"
proof -
  obtain p1 where p1: "part_Union p c1 c2 = Some p1"
    "represents n p1 (\<lambda>x. if rep x = rep c2 then rep c1 else rep x)"
    using part_Union_ok [OF assms(1-5)] by blast
  from part_Find_ok [OF p1(2) assms(6,7)] p1(1) show ?thesis by blast
qed

theorem part_Union_correct_witness:
  "\<exists>p p1 p2. part_Create 3 = Some p \<and> part_Union p 2 0 = Some p1 \<and> part_Find p1 0 = Some (p2, 2)"
proof -
  obtain p where p: "part_Create 3 = Some p" "represents 3 p (\<lambda>e. e)" using part_Create_ok [of 3] by auto
  from part_Union_correct [OF p(2), of 2 0 0] p(1) show ?thesis by auto
qed

text \<open>\<open>part_Init\<close> makes any partition the finest one of the new size, whether the array is reused
  (only the stamp counter moves), the counter overflows, or a larger array is allocated.\<close>

theorem part_Init_correct:
  assumes "represents m p rep" "0 \<le> n" "0 \<le> e" "e < n"
  shows "\<exists>p1 p2. part_Init p n = Some p1 \<and> represents n p1 (\<lambda>x. x) \<and> part_Find p1 e = Some (p2, e)"
proof -
  obtain p1 where p1: "part_Init p n = Some p1" "represents n p1 (\<lambda>x. x)"
    using part_Init_ok [OF assms(1,2)] by blast
  from part_Find_ok [OF p1(2) assms(3,4)] p1 show ?thesis by blast
qed

theorem part_Init_correct_witness:
  "\<exists>p1 p2. part_Init \<lparr>low = -5, high = 4, cell = (\<lambda>i. 0)(-1 := 2, -2 := 9, -3 := 2 ^ 31 - 1)\<rparr> 2 = Some p1
     \<and> part_Find p1 1 = Some (p2, 1)"
proof -
  let ?p = "\<lparr>low = -5, high = 4, cell = (\<lambda>i. 0)(-1 := 2, -2 := 9, -3 := 2 ^ 31 - 1)\<rparr>"
  have "represents 2 ?p (\<lambda>x. x)"
    by (rule part_fresh [of 2]) (auto simp: part_wf_def stamped_def)
  from part_Init_correct [OF this, of 2 1] show ?thesis by auto
qed

text \<open>C29: the searches are short: the number of steps from an element to the root of its class is at
  most the binary logarithm of the size of the set, after any sequence of unions.\<close>

theorem part_depth_bound:
  assumes "\<forall>(x, y) \<in> set us. 0 \<le> x \<and> x < n \<and> 0 \<le> y \<and> y < n" "0 \<le> e" "e < n"
  shows "\<exists>p k r. part_Create n \<bind> (\<lambda>p. part_Unions p us) = Some p \<and> root_in (parent p) k e r \<and> 2 ^ k \<le> n"
proof -
  obtain p0 where p0: "part_Create n = Some p0" "represents n p0 (\<lambda>e. e)"
    using part_Create_ok [of n] assms(2,3) by auto
  have "classes {} (\<lambda>e. e)" by (simp add: classes_def)
  from part_Unions_ok [OF p0(2) this assms(1)] obtain p rep where
    p: "part_Unions p0 us = Some p" "represents n p rep" by auto
  then have F: "forest n (parent p) (weight p) rep" by (simp add: represents_def)
  obtain k r where r: "root_in (parent p) k e r" using forest_root [OF F assms(2,3)] by metis
  from forest_depth [OF F assms(2,3) r] r p0(1) p(1) show ?thesis by auto
qed

theorem part_depth_bound_witness:
  "\<exists>p k r. part_Create 4 \<bind> (\<lambda>p. part_Unions p [(0, 1), (2, 3), (1, 3)]) = Some p
     \<and> root_in (parent p) k 3 r \<and> 2 ^ k \<le> (4::int)"
  by (rule part_depth_bound) simp_all

end
