(* ===== verification/Spass_Symbol.thy ===== *)
theory Spass_Symbol
  imports Spec_Prelude
begin

text \<open>
  The symbols of SPASS (\<open>symbol.h\<close>, \<open>symbol.c\<close>): integers that encode an index into the signature
  table, a type and a status; the table with its operations; precedences.

  The table is a function from indices to entries, \<open>None\<close> for the null pointer of a deleted or
  never created symbol. A precedence is the array of ordering numbers. Calls that end the program
  or follow a null pointer give an error value. The string hash that speeds up \<open>symbol_Lookup\<close> is
  left out, and so is the release of memory.
\<close>

unbundle bit_operations_syntax

section \<open>Encoding\<close>

type_synonym SYMBOL = int

definition symbol_NOOFSTANDARDVAR :: int where "symbol_NOOFSTANDARDVAR = 2000"
definition symbol_NOOFINDEXVAR :: int where "symbol_NOOFINDEXVAR = 2000"
definition symbol_MAXSTANDARDVAR :: int where "symbol_MAXSTANDARDVAR = symbol_NOOFSTANDARDVAR"
definition symbol_MAXINDEXVAR :: int where
  "symbol_MAXINDEXVAR = symbol_NOOFSTANDARDVAR + symbol_NOOFINDEXVAR"
definition symbol_MAXVARIABLES :: int where
  "symbol_MAXVARIABLES = symbol_NOOFSTANDARDVAR + symbol_NOOFINDEXVAR + 1"
definition symbol_MAXSIGNATURE :: int where "symbol_MAXSIGNATURE = 400000"

definition symbol_CONSTANT :: int where "symbol_CONSTANT = 0"
definition symbol_FUNCTION :: int where "symbol_FUNCTION = 1"
definition symbol_PREDICATE :: int where "symbol_PREDICATE = 2"
definition symbol_JUNCTOR :: int where "symbol_JUNCTOR = 3"
definition symbol_STATLEX :: int where "symbol_STATLEX = 0"
definition symbol_STATMUL :: int where "symbol_STATMUL = 1"

definition symbol_TYPEMASK :: int where "symbol_TYPEMASK = 3"
definition symbol_STATMASK :: int where "symbol_STATMASK = 4"
definition symbol_TYPEBITS :: nat where "symbol_TYPEBITS = 2"
definition symbol_TYPESTATBITS :: nat where "symbol_TYPESTATBITS = 3"

lemmas symbol_consts = symbol_NOOFSTANDARDVAR_def symbol_NOOFINDEXVAR_def symbol_MAXSTANDARDVAR_def
  symbol_MAXINDEXVAR_def symbol_MAXVARIABLES_def symbol_MAXSIGNATURE_def symbol_CONSTANT_def
  symbol_FUNCTION_def symbol_PREDICATE_def symbol_JUNCTOR_def symbol_STATLEX_def symbol_STATMUL_def
  symbol_TYPEMASK_def symbol_STATMASK_def symbol_TYPEBITS_def symbol_TYPESTATBITS_def

definition symbol_Equal :: "SYMBOL \<Rightarrow> SYMBOL \<Rightarrow> bool" where "symbol_Equal A B \<longleftrightarrow> A = B"
definition symbol_IsSignature :: "SYMBOL \<Rightarrow> bool" where "symbol_IsSignature S \<longleftrightarrow> S < 0"
definition symbol_Type :: "SYMBOL \<Rightarrow> int" where "symbol_Type S = (- S) AND symbol_TYPEMASK"

definition symbol_IsJunctor :: "SYMBOL \<Rightarrow> bool" where
  "symbol_IsJunctor S \<longleftrightarrow> symbol_IsSignature S \<and> symbol_Type S = symbol_JUNCTOR"

definition symbol_IsFunction :: "SYMBOL \<Rightarrow> bool" where
  "symbol_IsFunction S \<longleftrightarrow>
     symbol_IsSignature S \<and> (symbol_Type S = symbol_FUNCTION \<or> symbol_Type S = symbol_CONSTANT)"

definition symbol_IsConstant :: "SYMBOL \<Rightarrow> bool" where
  "symbol_IsConstant S \<longleftrightarrow> symbol_IsSignature S \<and> symbol_Type S = symbol_CONSTANT"

definition symbol_IsPredicate :: "SYMBOL \<Rightarrow> bool" where
  "symbol_IsPredicate S \<longleftrightarrow> symbol_IsSignature S \<and> symbol_Type S = symbol_PREDICATE"

definition symbol_IsVariable :: "SYMBOL \<Rightarrow> bool" where "symbol_IsVariable S \<longleftrightarrow> S > 0"

definition symbol_IsStandardVariable :: "SYMBOL \<Rightarrow> bool" where
  "symbol_IsStandardVariable S \<longleftrightarrow> symbol_IsVariable S \<and> S \<le> symbol_MAXSTANDARDVAR"

definition symbol_IsIndexVariable :: "SYMBOL \<Rightarrow> bool" where
  "symbol_IsIndexVariable S \<longleftrightarrow> S > symbol_MAXSTANDARDVAR \<and> S \<le> symbol_MAXINDEXVAR"

definition symbol_IsComplex :: "SYMBOL \<Rightarrow> bool" where
  "symbol_IsComplex S \<longleftrightarrow> \<not> symbol_IsVariable S \<and> \<not> symbol_IsConstant S"

definition symbol_NormVar :: "SYMBOL \<Rightarrow> int" where
  "symbol_NormVar S = (if S \<le> symbol_MAXSTANDARDVAR then S else S - symbol_MAXSTANDARDVAR)"

definition symbol_Index :: "SYMBOL \<Rightarrow> int" where
  "symbol_Index S = drop_bit symbol_TYPESTATBITS (- S)"

definition symbol_SignatureSymbol :: "int \<Rightarrow> int \<Rightarrow> int \<Rightarrow> SYMBOL" where
  "symbol_SignatureSymbol ActIndex Type Status =
     - (push_bit symbol_TYPESTATBITS ActIndex OR push_bit symbol_TYPEBITS Status OR Type)"

definition symbol_Stat :: "SYMBOL \<Rightarrow> int" where
  "symbol_Stat S = drop_bit symbol_TYPEBITS ((- S) AND symbol_STATMASK)"

lemma or_low:
  assumes "0 \<le> m" "m < 2 ^ n"
  shows "push_bit n i OR m = 2 ^ n * i + (m::int)"
proof -
  have m: "m = take_bit n m" using assms by (simp add: take_bit_int_eq_self)
  have "push_bit n i AND m = 0"
    by (subst m, rule bit_eqI) (auto simp: bit_simps)
  moreover have "push_bit n i = 2 ^ n * i" by (simp add: push_bit_eq_mult mult.commute)
  ultimately show ?thesis using plus_and_or [of "push_bit n i" m] by simp
qed

lemma symbol_encoding:
  assumes "0 \<le> i" "0 \<le> t" "t < 4" "0 \<le> s" "s < 2"
  shows "symbol_SignatureSymbol i t s = - (8 * i + 4 * s + t)"
    "symbol_Index (symbol_SignatureSymbol i t s) = i"
    "symbol_Type (symbol_SignatureSymbol i t s) = t"
    "symbol_Stat (symbol_SignatureSymbol i t s) = s"
proof -
  have a: "push_bit 2 s OR t = 4 * s + t" using or_low [of t 2 s] assms by simp
  have b: "push_bit 3 i OR (4 * s + t) = 8 * i + (4 * s + t)" using or_low [of "4 * s + t" 3 i] assms by simp
  show e: "symbol_SignatureSymbol i t s = - (8 * i + 4 * s + t)"
    using a b by (simp add: symbol_SignatureSymbol_def symbol_consts or.assoc)
  have n: "- symbol_SignatureSymbol i t s = 8 * i + 4 * s + t" using e by simp
  show "symbol_Index (symbol_SignatureSymbol i t s) = i"
    unfolding symbol_Index_def n using assms by (simp add: symbol_consts drop_bit_eq_div)
  have "(8 * i + 4 * s + t) mod 4 = t" using assms by presburger
  then have "(8 * i + 4 * s + t) AND mask 2 = t"
    by (simp add: take_bit_eq_mask [symmetric] take_bit_eq_mod)
  then show "symbol_Type (symbol_SignatureSymbol i t s) = t"
    unfolding symbol_Type_def n by (simp add: symbol_consts mask_eq_exp_minus_1)
  have "drop_bit 2 ((8 * i + 4 * s + t) AND 4) = drop_bit 2 (8 * i + 4 * s + t) AND drop_bit 2 4"
    by (rule drop_bit_and)
  also have "drop_bit 2 (8 * i + 4 * s + t) = 2 * i + s" using assms by (simp add: drop_bit_eq_div)
  also have "drop_bit 2 (4::int) = mask 1" by (simp add: drop_bit_eq_div)
  also have "(2 * i + s) AND mask 1 = s"
  proof -
    have "(2 * i + s) mod 2 = s" using assms by presburger
    then show ?thesis by (simp add: and_one_eq)
  qed
  finally show "symbol_Stat (symbol_SignatureSymbol i t s) = s"
    unfolding symbol_Stat_def n by (simp add: symbol_consts)
qed


section \<open>Properties of symbols\<close>

text \<open>The bits of \<open>SPROPERTY\<close>.\<close>

definition SKOLEM :: NAT where "SKOLEM = 1"
definition CUMMUTATIVE :: NAT where "CUMMUTATIVE = 2"
definition ASSOCIATIVE :: NAT where "ASSOCIATIVE = 4"
definition ORDRIGHT :: NAT where "ORDRIGHT = 8"
definition ORDMUL :: NAT where "ORDMUL = 16"
definition DECLSORT :: NAT where "DECLSORT = 32"
definition DOMPRED :: NAT where "DOMPRED = 64"
definition PREDEFINED :: NAT where "PREDEFINED = 2048"

record SIGNATURE_NODE =
  sig_name :: string
  sig_weight :: int
  sig_arity :: int
  sig_props :: NAT
  sig_info :: SYMBOL
  sig_generatedBy :: "SYMBOL list"
  sig_fixed :: bool

definition has_property :: "SIGNATURE_NODE \<Rightarrow> NAT \<Rightarrow> bool" where
  "has_property e Prop \<longleftrightarrow> sig_props e AND Prop \<noteq> 0"

definition add_property :: "SIGNATURE_NODE \<Rightarrow> NAT \<Rightarrow> SIGNATURE_NODE" where
  "add_property e Prop = e\<lparr>sig_props := sig_props e OR Prop\<rparr>"

definition remove_property :: "SIGNATURE_NODE \<Rightarrow> NAT \<Rightarrow> SIGNATURE_NODE" where
  "remove_property e Prop =
     (if sig_props e AND Prop \<noteq> 0 then e\<lparr>sig_props := sig_props e - Prop\<rparr> else e)"

lemma bit_property: "has_property e (2 ^ n) \<longleftrightarrow> bit (sig_props e) n \<and> n < 32"
  by (simp add: has_property_def and_exp_eq_0_iff_not_bit) (use bit_imp_le_length in fastforce)

lemma bit_add_property: "n < 32 \<Longrightarrow> bit (sig_props (add_property e (2 ^ n))) m = (bit (sig_props e) m \<or> m = n)"
  by (auto simp: add_property_def bit_or_iff bit_exp_iff)

lemma minus_bit: "bit w n \<Longrightarrow> (w :: NAT) - 2 ^ n = w AND NOT (2 ^ n)"
  by (rule disjunctive_diff_eq_and_not, rule bit_eqI) (auto simp: bit_simps)

lemma bit_remove_property:
  "n < 32 \<Longrightarrow> bit (sig_props (remove_property e (2 ^ n))) m = (bit (sig_props e) m \<and> m \<noteq> n)"
proof (cases "bit (sig_props e) n")
  case True
  assume "n < 32"
  then show ?thesis using True bit_imp_le_length [of "sig_props e" m]
    by (auto simp: remove_property_def and_exp_eq_0_iff_not_bit minus_bit bit_simps)
next
  case False
  assume "n < 32"
  then show ?thesis using False by (auto simp: remove_property_def and_exp_eq_0_iff_not_bit)
qed

section \<open>The signature table\<close>

record symbol_table =
  symbol_SIGNATURE :: "int \<Rightarrow> SIGNATURE_NODE option"
  symbol_ACTINDEX :: int
  symbol_FREEDSYMBOLS :: "int list"
  symbol_ORDERING :: int
  symbol_HASSIGNATURE :: bool

type_synonym PRECEDENCE = "int \<Rightarrow> int"

datatype symbol_error = No_more_symbols | Null_signature

definition symbol_Init :: "bool \<Rightarrow> symbol_table" where
  "symbol_Init Sig =
     \<lparr>symbol_SIGNATURE = (\<lambda>i. None), symbol_ACTINDEX = 1, symbol_FREEDSYMBOLS = [], symbol_ORDERING = 1,
      symbol_HASSIGNATURE = Sig\<rparr>"

definition symbol_SignatureExists :: "symbol_table \<Rightarrow> bool" where
  "symbol_SignatureExists st = symbol_HASSIGNATURE st"

definition symbol_Signature :: "symbol_table \<Rightarrow> int \<Rightarrow> SIGNATURE_NODE option" where
  "symbol_Signature st Index = symbol_SIGNATURE st Index"

text \<open>The fields of an entry. The code follows a null pointer when the symbol has been deleted; these
  functions are total and give the field's initial value there, so what is proved with them speaks of
  symbols in the table.\<close>

definition symbol_Arity :: "symbol_table \<Rightarrow> SYMBOL \<Rightarrow> int" where
  "symbol_Arity st ActSymbol = (case symbol_Signature st (symbol_Index ActSymbol) of None \<Rightarrow> 0 | Some e \<Rightarrow> sig_arity e)"

definition symbol_Weight :: "symbol_table \<Rightarrow> SYMBOL \<Rightarrow> int" where
  "symbol_Weight st ActSymbol = (case symbol_Signature st (symbol_Index ActSymbol) of None \<Rightarrow> 1 | Some e \<Rightarrow> sig_weight e)"

definition symbol_HasProperty :: "symbol_table \<Rightarrow> SYMBOL \<Rightarrow> NAT \<Rightarrow> bool" where
  "symbol_HasProperty st ActSymbol Prop =
     (case symbol_Signature st (symbol_Index ActSymbol) of None \<Rightarrow> False | Some e \<Rightarrow> has_property e Prop)"

definition symbol_SetSignature :: "int \<Rightarrow> SIGNATURE_NODE option \<Rightarrow> symbol_table \<Rightarrow> symbol_table" where
  "symbol_SetSignature Index Sig st = st\<lparr>symbol_SIGNATURE := (symbol_SIGNATURE st)(Index := Sig)\<rparr>"

definition symbol_SetOrdering :: "PRECEDENCE \<Rightarrow> SYMBOL \<Rightarrow> int \<Rightarrow> PRECEDENCE" where
  "symbol_SetOrdering P S ord = P(symbol_Index S := ord)"

definition symbol_Ordering :: "PRECEDENCE \<Rightarrow> SYMBOL \<Rightarrow> int" where
  "symbol_Ordering P S = P (symbol_Index S)"

definition symbol_PrecedenceGreater :: "PRECEDENCE \<Rightarrow> SYMBOL \<Rightarrow> SYMBOL \<Rightarrow> bool" where
  "symbol_PrecedenceGreater P S1 S2 \<longleftrightarrow> symbol_Ordering P S1 < symbol_Ordering P S2"

definition symbol_ClearPrecedence :: "PRECEDENCE \<Rightarrow> PRECEDENCE" where
  "symbol_ClearPrecedence P = (\<lambda>i. if 0 \<le> i \<and> i < symbol_MAXSIGNATURE then - 42 else P i)"

definition symbol_TransferPrecedence :: "PRECEDENCE \<Rightarrow> PRECEDENCE \<Rightarrow> PRECEDENCE" where
  "symbol_TransferPrecedence Source Target =
     (\<lambda>i. if 0 \<le> i \<and> i < symbol_MAXSIGNATURE then Source i else Target i)"

definition symbol_SetIncreasedOrdering :: "PRECEDENCE \<Rightarrow> SYMBOL \<Rightarrow> symbol_table \<Rightarrow> PRECEDENCE \<times> symbol_table" where
  "symbol_SetIncreasedOrdering P S st =
     (symbol_SetOrdering P S (symbol_ORDERING st), st\<lparr>symbol_ORDERING := symbol_ORDERING st + 1\<rparr>)"

definition symbol_SignatureCreate ::
  "string \<Rightarrow> int \<Rightarrow> int \<Rightarrow> int \<Rightarrow> PRECEDENCE \<Rightarrow> symbol_table \<Rightarrow> symbol_error + SYMBOL \<times> PRECEDENCE \<times> symbol_table" where
  "symbol_SignatureCreate String Type Arity Status P st =
     (if symbol_ACTINDEX st \<ge> symbol_MAXSIGNATURE \<and> symbol_FREEDSYMBOLS st = [] then Inl No_more_symbols
      else
        let Entry = \<lparr>sig_name = String, sig_weight = 1, sig_arity = Arity, sig_props = 0, sig_info = 0,
                     sig_generatedBy = [], sig_fixed = False\<rparr>;
            (Entry, st) =
              (case symbol_FREEDSYMBOLS st of
                 [] \<Rightarrow>
                   let Entry = Entry\<lparr>sig_info := symbol_SignatureSymbol (symbol_ACTINDEX st) Type Status\<rparr>
                   in (Entry, (symbol_SetSignature (symbol_ACTINDEX st) (Some Entry) st)
                                \<lparr>symbol_ACTINDEX := symbol_ACTINDEX st + 1\<rparr>)
               | Index # _ \<Rightarrow>
                   let st = st\<lparr>symbol_FREEDSYMBOLS := removeAll Index (symbol_FREEDSYMBOLS st)\<rparr>;
                       Entry = Entry\<lparr>sig_info := symbol_SignatureSymbol Index Type Status\<rparr>
                   in (Entry, symbol_SetSignature Index (Some Entry) st));
            (P, st) = symbol_SetIncreasedOrdering P (sig_info Entry) st
        in Inr (sig_info Entry, P, st))"

definition symbol_CreateFunction ::
  "string \<Rightarrow> int \<Rightarrow> int \<Rightarrow> PRECEDENCE \<Rightarrow> symbol_table \<Rightarrow> symbol_error + SYMBOL \<times> PRECEDENCE \<times> symbol_table" where
  "symbol_CreateFunction String Arity Status P st =
     (if Arity = 0 then symbol_SignatureCreate String symbol_CONSTANT Arity Status P st
      else symbol_SignatureCreate String symbol_FUNCTION Arity Status P st)"

definition symbol_CreatePredicate ::
  "string \<Rightarrow> int \<Rightarrow> int \<Rightarrow> PRECEDENCE \<Rightarrow> symbol_table \<Rightarrow> symbol_error + SYMBOL \<times> PRECEDENCE \<times> symbol_table" where
  "symbol_CreatePredicate String Arity Status P st = symbol_SignatureCreate String symbol_PREDICATE Arity Status P st"

definition symbol_CreateJunctor ::
  "string \<Rightarrow> int \<Rightarrow> int \<Rightarrow> PRECEDENCE \<Rightarrow> symbol_table \<Rightarrow> symbol_error + SYMBOL \<times> PRECEDENCE \<times> symbol_table" where
  "symbol_CreateJunctor String Arity Status P st = symbol_SignatureCreate String symbol_JUNCTOR Arity Status P st"

definition symbol_IsSymbol :: "SYMBOL \<Rightarrow> symbol_table \<Rightarrow> bool" where
  "symbol_IsSymbol S st \<longleftrightarrow> \<not> symbol_SignatureExists st \<or> S \<noteq> 0
     \<and> (symbol_IsVariable S \<and> S < symbol_MAXVARIABLES
        \<or> symbol_IsSignature S \<and> symbol_Index S < symbol_ACTINDEX st)"

definition symbol_IsFreed :: "SYMBOL \<Rightarrow> symbol_table \<Rightarrow> bool" where
  "symbol_IsFreed S st \<longleftrightarrow> S \<in> set (symbol_FREEDSYMBOLS st)"

definition symbol_Delete :: "SYMBOL \<Rightarrow> symbol_table \<Rightarrow> symbol_error + symbol_table" where
  "symbol_Delete S st =
     (if \<not> symbol_IsVariable S then
        let Index = symbol_Index S;
            st = st\<lparr>symbol_FREEDSYMBOLS := Index # symbol_FREEDSYMBOLS st\<rparr>
        in (case symbol_Signature st Index of
              None \<Rightarrow> Inl Null_signature
            | Some Entry \<Rightarrow> Inr (symbol_SetSignature Index None st))
      else Inr st)"

definition symbol_ChangeType :: "SYMBOL \<Rightarrow> int \<Rightarrow> symbol_table \<Rightarrow> symbol_error + SYMBOL \<times> symbol_table" where
  "symbol_ChangeType S Type st =
     (case symbol_Signature st (symbol_Index S) of
        None \<Rightarrow> Inl Null_signature
      | Some Sig \<Rightarrow>
          let S' = symbol_SignatureSymbol (symbol_Index S) Type (symbol_Stat S)
          in Inr (S', symbol_SetSignature (symbol_Index S) (Some (Sig\<lparr>sig_info := S'\<rparr>)) st))"

text \<open>The loops over the table, from index 1 up; the results are consed.\<close>

definition symbol_collect :: "(SIGNATURE_NODE \<Rightarrow> bool) \<Rightarrow> symbol_table \<Rightarrow> SYMBOL list" where
  "symbol_collect test st =
     (if symbol_SignatureExists st then
        foldl (\<lambda>Result Index. case symbol_Signature st Index of
                  None \<Rightarrow> Result
                | Some S \<Rightarrow> if test S then sig_info S # Result else Result) [] [1..symbol_ACTINDEX st - 1]
      else [])"

definition symbol_GetAllSymbols :: "symbol_table \<Rightarrow> SYMBOL list" where
  "symbol_GetAllSymbols st = symbol_collect (\<lambda>S. True) st"

definition symbol_GetAllPredicates :: "symbol_table \<Rightarrow> SYMBOL list" where
  "symbol_GetAllPredicates st = symbol_collect (\<lambda>S. symbol_IsPredicate (sig_info S)) st"

definition symbol_GetAllFunctions :: "symbol_table \<Rightarrow> SYMBOL list" where
  "symbol_GetAllFunctions st = symbol_collect (\<lambda>S. symbol_IsFunction (sig_info S)) st"

text \<open>This loop reads the symbol of an entry before it tests the entry for null.\<close>

fun symbol_property_loop ::
  "NAT \<Rightarrow> symbol_table \<Rightarrow> int list \<Rightarrow> SYMBOL list \<Rightarrow> symbol_error + SYMBOL list" where
  "symbol_property_loop Prop st [] Result = Inr Result"
| "symbol_property_loop Prop st (Index # is) Result =
     (case symbol_Signature st Index of
        None \<Rightarrow> Inl Null_signature
      | Some S \<Rightarrow>
          (case symbol_Signature st (symbol_Index (sig_info S)) of
             None \<Rightarrow> Inl Null_signature
           | Some E \<Rightarrow>
               symbol_property_loop Prop st is
                 (if has_property E Prop then sig_info S # Result else Result)))"

definition symbol_GetAllSymbolsWithProperty :: "NAT \<Rightarrow> symbol_table \<Rightarrow> symbol_error + SYMBOL list" where
  "symbol_GetAllSymbolsWithProperty Prop st =
     (if symbol_SignatureExists st then symbol_property_loop Prop st [1..symbol_ACTINDEX st - 1] [] else Inr [])"

section \<open>User precedences\<close>

text \<open>Destructive selection sort by decreasing precedence: the inner loop swaps the contents of the
  first cell with every greater element it meets.\<close>

fun precedence_inner :: "PRECEDENCE \<Rightarrow> SYMBOL \<Rightarrow> SYMBOL list \<Rightarrow> SYMBOL \<times> SYMBOL list" where
  "precedence_inner P m [] = (m, [])"
| "precedence_inner P m (y # ys) =
     (if symbol_PrecedenceGreater P y m
      then (let (m', r) = precedence_inner P y ys in (m', m # r))
      else (let (m', r) = precedence_inner P m ys in (m', y # r)))"

lemma precedence_inner_length: "length (snd (precedence_inner P m ys)) = length ys"
  by (induction P m ys rule: precedence_inner.induct) (auto split: prod.splits)

function symbol_SortByPrecedence :: "SYMBOL list \<Rightarrow> PRECEDENCE \<Rightarrow> SYMBOL list" where
  "symbol_SortByPrecedence [] P = []"
| "symbol_SortByPrecedence (x # xs) P =
     (let mr = precedence_inner P x xs in fst mr # symbol_SortByPrecedence (snd mr) P)"
  by pat_completeness auto
termination
  by (relation "measure (\<lambda>(xs, P). length xs)") (auto simp: precedence_inner_length)

text \<open>\<open>list_PointerSort\<close> compares the numbers as \<open>unsigned int\<close>.\<close>

fun precedence_assign :: "PRECEDENCE \<Rightarrow> SYMBOL list \<Rightarrow> int list \<Rightarrow> PRECEDENCE" where
  "precedence_assign P (s # ss) (n # ns) = precedence_assign (symbol_SetOrdering P s n) ss ns"
| "precedence_assign P ss ns = P"

definition symbol_RearrangePrecedence :: "PRECEDENCE \<Rightarrow> SYMBOL list \<Rightarrow> PRECEDENCE" where
  "symbol_RearrangePrecedence P UserPrecedence =
     (let Precedences = foldl (\<lambda>ps s. symbol_Ordering P s # ps) [] UserPrecedence;
          Precedences = sort_key (\<lambda>n. unat (word_of_int n :: NAT)) Precedences
      in precedence_assign P UserPrecedence Precedences)"


section \<open>The table invariant\<close>

text \<open>The live entries have indices below \<open>symbol_ACTINDEX\<close>, and their symbols encode these; the freed
  list holds exactly the other indices, once each; no ordering number is ahead of the counter.\<close>

definition symtab_inv :: "PRECEDENCE \<Rightarrow> symbol_table \<Rightarrow> bool" where
  "symtab_inv P st \<longleftrightarrow> 1 \<le> symbol_ACTINDEX st \<and> symbol_ACTINDEX st \<le> symbol_MAXSIGNATURE
     \<and> (\<forall>i e. symbol_SIGNATURE st i = Some e \<longrightarrow> 1 \<le> i \<and> i < symbol_ACTINDEX st
          \<and> symbol_Index (sig_info e) = i \<and> sig_info e < 0 \<and> P i < symbol_ORDERING st)
     \<and> set (symbol_FREEDSYMBOLS st) = {i. 1 \<le> i \<and> i < symbol_ACTINDEX st \<and> symbol_SIGNATURE st i = None}
     \<and> distinct (symbol_FREEDSYMBOLS st)"

definition new_entry :: "string \<Rightarrow> int \<Rightarrow> SYMBOL \<Rightarrow> SIGNATURE_NODE" where
  "new_entry String Arity S =
     \<lparr>sig_name = String, sig_weight = 1, sig_arity = Arity, sig_props = 0, sig_info = S,
      sig_generatedBy = [], sig_fixed = False\<rparr>"

lemma symtab_inv_Init: "symtab_inv P (symbol_Init Sig)"
  by (auto simp: symtab_inv_def symbol_Init_def symbol_consts)

lemma removeAll_tl: "distinct (x # xs) \<Longrightarrow> removeAll x (x # xs) = xs"
  by simp

lemma symbol_SignatureCreate_ok:
  assumes inv: "symtab_inv P st" and ts: "0 \<le> t" "t < 4" "0 \<le> s" "s < 2"
    and room: "symbol_ACTINDEX st < symbol_MAXSIGNATURE \<or> symbol_FREEDSYMBOLS st \<noteq> []"
  shows "\<exists>i S P' st'. symbol_SignatureCreate n t a s P st = Inr (S, P', st') \<and> S = symbol_SignatureSymbol i t s
     \<and> 1 \<le> i \<and> symbol_SIGNATURE st i = None \<and> symbol_SIGNATURE st' = (symbol_SIGNATURE st)(i := Some (new_entry n a S))
     \<and> P' = P(i := symbol_ORDERING st) \<and> symtab_inv P' st'"
proof (cases "symbol_FREEDSYMBOLS st")
  case Nil
  let ?i = "symbol_ACTINDEX st"
  let ?S = "symbol_SignatureSymbol ?i t s"
  let ?st = "st\<lparr>symbol_SIGNATURE := (symbol_SIGNATURE st)(?i := Some (new_entry n a ?S)),
       symbol_ACTINDEX := ?i + 1, symbol_ORDERING := symbol_ORDERING st + 1\<rparr>"
  have i: "1 \<le> ?i" using inv by (simp add: symtab_inv_def)
  note enc = symbol_encoding [OF order_trans [OF zero_le_one i] ts]
  have free: "symbol_SIGNATURE st ?i = None"
    using inv by (cases "symbol_SIGNATURE st ?i") (auto simp: symtab_inv_def)
  have "symbol_SignatureCreate n t a s P st = Inr (?S, P(?i := symbol_ORDERING st), ?st)"
    using Nil room enc(2) by (simp add: symbol_SignatureCreate_def Let_def symbol_SetSignature_def
        symbol_SetIncreasedOrdering_def symbol_SetOrdering_def new_entry_def)
  moreover have "symtab_inv (P(?i := symbol_ORDERING st)) ?st"
  proof -
    have "i < symbol_ACTINDEX st + 1 \<and> P i < symbol_ORDERING st + 1" if "symbol_SIGNATURE st i = Some e" for i e
      using inv that by (force simp: symtab_inv_def)
    then show ?thesis
      using inv Nil room i enc ts unfolding symtab_inv_def by (auto simp: new_entry_def)
  qed
  moreover have "symbol_SIGNATURE ?st = (symbol_SIGNATURE st)(?i := Some (new_entry n a ?S))" by simp
  ultimately show ?thesis using i free by blast
next
  case (Cons i js)
  let ?S = "symbol_SignatureSymbol i t s"
  let ?st = "st\<lparr>symbol_FREEDSYMBOLS := js, symbol_SIGNATURE := (symbol_SIGNATURE st)(i := Some (new_entry n a ?S)),
       symbol_ORDERING := symbol_ORDERING st + 1\<rparr>"
  have i: "1 \<le> i" "i < symbol_ACTINDEX st" "symbol_SIGNATURE st i = None" "i \<notin> set js" "distinct js"
    using inv Cons by (auto simp: symtab_inv_def)
  note enc = symbol_encoding [OF order_trans [OF zero_le_one i(1)] ts]
  have run: "symbol_SignatureCreate n t a s P st = Inr (?S, P(i := symbol_ORDERING st), ?st)"
    using Cons enc(2) i(4) by (simp add: symbol_SignatureCreate_def Let_def symbol_SetSignature_def
        symbol_SetIncreasedOrdering_def symbol_SetOrdering_def new_entry_def)
  have "set js = {j. 1 \<le> j \<and> j < symbol_ACTINDEX st \<and> symbol_SIGNATURE st j = None} - {i}"
    using inv Cons i by (auto simp: symtab_inv_def)
  moreover have "P j < symbol_ORDERING st + 1" if "symbol_SIGNATURE st j = Some e" for j e
    using inv that by (force simp: symtab_inv_def)
  ultimately have "symtab_inv (P(i := symbol_ORDERING st)) ?st"
    using inv i enc ts unfolding symtab_inv_def by (auto simp: new_entry_def)
  moreover have "symbol_SIGNATURE ?st = (symbol_SIGNATURE st)(i := Some (new_entry n a ?S))" by simp
  ultimately show ?thesis using i run by blast
qed

lemma symbol_Delete_ok:
  assumes "symtab_inv P st" "symbol_SIGNATURE st (symbol_Index S) = Some e" "S < 0"
  shows "\<exists>st'. symbol_Delete S st = Inr st' \<and> symtab_inv P st'
     \<and> symbol_SIGNATURE st' = (symbol_SIGNATURE st)(symbol_Index S := None)
     \<and> symbol_FREEDSYMBOLS st' = symbol_Index S # symbol_FREEDSYMBOLS st \<and> symbol_ACTINDEX st' = symbol_ACTINDEX st"
proof -
  let ?i = "symbol_Index S"
  let ?st = "st\<lparr>symbol_FREEDSYMBOLS := ?i # symbol_FREEDSYMBOLS st, symbol_SIGNATURE := (symbol_SIGNATURE st)(?i := None)\<rparr>"
  have "symbol_Delete S st = Inr ?st"
    using assms by (simp add: symbol_Delete_def symbol_IsVariable_def symbol_Signature_def symbol_SetSignature_def Let_def)
  moreover have "symtab_inv P ?st" using assms unfolding symtab_inv_def by auto
  ultimately show ?thesis by simp
qed

lemma symbol_Delete_exists: "symbol_Delete S st = Inr st' \<Longrightarrow> symbol_SignatureExists st' = symbol_SignatureExists st"
  by (auto simp: symbol_Delete_def Let_def symbol_SetSignature_def symbol_SignatureExists_def split: if_splits option.splits)

lemma symbol_SignatureCreate_exists:
  "symbol_SignatureCreate n t a s P st = Inr (S, P', st') \<Longrightarrow> symbol_SignatureExists st' = symbol_SignatureExists st"
  by (auto simp: symbol_SignatureCreate_def Let_def symbol_SetSignature_def symbol_SetIncreasedOrdering_def
      symbol_SignatureExists_def split: if_splits list.splits)

text \<open>The tables the operations lead to. A symbol is deleted only while it is live.\<close>

inductive symbol_reachable :: "PRECEDENCE \<Rightarrow> symbol_table \<Rightarrow> bool" where
  init: "symbol_reachable P (symbol_Init True)"
| create: "symbol_reachable P st \<Longrightarrow> 0 \<le> t \<Longrightarrow> t < 4 \<Longrightarrow> 0 \<le> s \<Longrightarrow> s < 2
    \<Longrightarrow> symbol_SignatureCreate n t a s P st = Inr (S, P', st') \<Longrightarrow> symbol_reachable P' st'"
| delete: "symbol_reachable P st \<Longrightarrow> symbol_SIGNATURE st (symbol_Index S) = Some e \<Longrightarrow> sig_info e = S
    \<Longrightarrow> symbol_Delete S st = Inr st' \<Longrightarrow> symbol_reachable P st'"

lemma symbol_reachable_inv: "symbol_reachable P st \<Longrightarrow> symtab_inv P st"
proof (induction rule: symbol_reachable.induct)
  case (init P)
  then show ?case by (rule symtab_inv_Init)
next
  case (create P st t s n a S P' st')
  have "symbol_ACTINDEX st < symbol_MAXSIGNATURE \<or> symbol_FREEDSYMBOLS st \<noteq> []"
    using create.hyps(6) by (auto simp: symbol_SignatureCreate_def split: if_splits)
  from symbol_SignatureCreate_ok [OF create.IH create.hyps(2-5) this, of n a] create.hyps(6)
  show ?case by auto
next
  case (delete P st S e st')
  have "S < 0" using delete by (auto simp: symtab_inv_def)
  from symbol_Delete_ok [OF delete.IH delete.hyps(2) this] delete.hyps(4) show ?case by auto
qed

lemma symbol_reachable_exists: "symbol_reachable P st \<Longrightarrow> symbol_SignatureExists st"
  by (induction rule: symbol_reachable.induct)
    (auto simp: symbol_Delete_exists symbol_SignatureCreate_exists, simp add: symbol_Init_def symbol_SignatureExists_def)

section \<open>Collecting\<close>

lemma symbol_collect_ok:
  assumes "symbol_SignatureExists st"
  shows "set (symbol_collect test st)
    = {sig_info e | i e. 1 \<le> i \<and> i < symbol_ACTINDEX st \<and> symbol_SIGNATURE st i = Some e \<and> test e}"
proof -
  have "set (foldl (\<lambda>Result Index. case symbol_Signature st Index of None \<Rightarrow> Result
             | Some S \<Rightarrow> if test S then sig_info S # Result else Result) acc is)
     = set acc \<union> {sig_info e | i e. i \<in> set is \<and> symbol_SIGNATURE st i = Some e \<and> test e}" for acc "is"
    by (induction "is" arbitrary: acc) (auto simp: symbol_Signature_def split: option.splits)
  then show ?thesis using assms by (auto simp: symbol_collect_def)
qed

lemma symbol_property_loop_null:
  "i \<in> set is \<Longrightarrow> symbol_SIGNATURE st i = None \<Longrightarrow> symbol_property_loop Prop st is R = Inl Null_signature"
  by (induction "is" arbitrary: R) (auto simp: symbol_Signature_def split: option.splits)

section \<open>User precedences\<close>

lemma precedence_inner_ok:
  "precedence_inner P m ys = (m', r) \<Longrightarrow> mset (m # ys) = mset (m' # r)
     \<and> (\<forall>y \<in> set (m # ys). symbol_Ordering P m' \<le> symbol_Ordering P y)"
proof (induction P m ys arbitrary: m' r rule: precedence_inner.induct)
  case (2 P m y ys)
  show ?case
  proof (cases "symbol_PrecedenceGreater P y m")
    case True
    then obtain r' where r: "precedence_inner P y ys = (m', r')" "r = m # r'"
      using 2(3) by (auto split: prod.splits)
    from 2(1) [OF True r(1)] True r(2) show ?thesis
      by (auto simp: symbol_PrecedenceGreater_def add_mset_commute)
  next
    case False
    then obtain r' where r: "precedence_inner P m ys = (m', r')" "r = y # r'"
      using 2(3) by (auto split: prod.splits)
    from 2(2) [OF False r(1)] False r(2) show ?thesis
      by (auto simp: symbol_PrecedenceGreater_def add_mset_commute)
  qed
qed simp

lemma symbol_SortByPrecedence_ok:
  "mset (symbol_SortByPrecedence xs P) = mset xs
   \<and> sorted_wrt (\<lambda>a b. symbol_Ordering P a \<le> symbol_Ordering P b) (symbol_SortByPrecedence xs P)"
proof (induction xs P rule: symbol_SortByPrecedence.induct)
  case (2 x xs P)
  obtain m r where m: "precedence_inner P x xs = (m, r)" by (cases "precedence_inner P x xs")
  note i = precedence_inner_ok [OF m]
  have IH: "mset (symbol_SortByPrecedence r P) = mset r"
    "sorted_wrt (\<lambda>a b. symbol_Ordering P a \<le> symbol_Ordering P b) (symbol_SortByPrecedence r P)"
    using 2 [OF refl] m by simp_all
  have "set (symbol_SortByPrecedence r P) = set r" using IH(1) by (metis set_mset_mset)
  moreover have "set r \<subseteq> set (x # xs)" using i by (metis set_mset_mset set_subset_Cons)
  ultimately show ?case using i IH m by (auto simp: Let_def)
qed simp

lemma unat_nonneg_int: "0 \<le> n \<Longrightarrow> n < 2 ^ 31 \<Longrightarrow> unat (word_of_int n :: NAT) = nat n"
proof -
  assume "0 \<le> n" "n < 2 ^ 31"
  then have "uint (word_of_int n :: NAT) = n" unfolding uint_word_of_int by simp
  then show ?thesis by (simp only: unat_eq_nat_uint)
qed

lemma insort_key_cong_le:
  assumes "\<forall>m \<in> set xs. f n \<le> f m \<longleftrightarrow> g n \<le> g m"
  shows "insort_key f n xs = insort_key g n xs"
  using assms by (induction xs) simp_all

lemma sort_key_cong_le:
  "\<forall>n \<in> set xs. \<forall>m \<in> set xs. f n \<le> f m \<longleftrightarrow> g n \<le> g m \<Longrightarrow> sort_key f xs = sort_key g xs"
proof (induction xs)
  case (Cons x xs)
  have "sort_key f xs = sort_key g xs" using Cons by simp
  moreover have "insort_key f x (sort_key g xs) = insort_key g x (sort_key g xs)"
    by (rule insort_key_cong_le) (use Cons.prems in simp)
  ultimately show ?case by simp
qed simp

lemma sort_key_nonneg:
  assumes "\<forall>n \<in> set ns. 0 \<le> n \<and> n < 2 ^ 31"
  shows "sort_key (\<lambda>n. unat (word_of_int n :: NAT)) ns = sort ns"
proof (rule sort_key_cong_le, intro ballI)
  fix n m assume "n \<in> set ns" "m \<in> set ns"
  then have "0 \<le> n" "n < 2 ^ 31" "0 \<le> m" "m < 2 ^ 31" using assms by auto
  then show "unat (word_of_int n :: NAT) \<le> unat (word_of_int m :: NAT) \<longleftrightarrow> n \<le> m"
    by (simp add: unat_nonneg_int nat_le_eq_zle)
qed


lemma precedence_assign_other:
  "i \<notin> symbol_Index ` set ss \<Longrightarrow> precedence_assign P ss ns i = P i"
  by (induction P ss ns rule: precedence_assign.induct) (auto simp: symbol_SetOrdering_def)

lemma precedence_assign_map:
  "distinct (map symbol_Index ss) \<Longrightarrow> length ss = length ns
    \<Longrightarrow> map (symbol_Ordering (precedence_assign P ss ns)) ss = ns"
proof (induction P ss ns rule: precedence_assign.induct)
  case (1 P s ss n ns)
  let ?P = "precedence_assign (symbol_SetOrdering P s n) ss ns"
  have "map (symbol_Ordering ?P) ss = ns" using 1 by simp
  moreover have "symbol_Ordering ?P s = n"
    using precedence_assign_other [of "symbol_Index s" ss "symbol_SetOrdering P s n" ns] 1(2)
    by (simp add: symbol_Ordering_def symbol_SetOrdering_def)
  ultimately show ?case by (simp del: map_eq_conv)
qed auto

lemma foldl_cons: "foldl (\<lambda>ps s. f s # ps) acc xs = rev (map f xs) @ acc"
  by (induction xs arbitrary: acc) auto

lemma symbol_RearrangePrecedence_eq:
  assumes "\<forall>S \<in> set U. 0 \<le> symbol_Ordering P S \<and> symbol_Ordering P S < 2 ^ 31"
  shows "symbol_RearrangePrecedence P U = precedence_assign P U (sort (map (symbol_Ordering P) U))"
proof -
  have "sort_key (\<lambda>n. unat (word_of_int n :: NAT)) (rev (map (symbol_Ordering P) U)) = sort (rev (map (symbol_Ordering P) U))"
    by (rule sort_key_nonneg) (use assms in auto)
  also have "\<dots> = sort (map (symbol_Ordering P) U)"
    by (rule properties_for_sort) simp_all
  finally show ?thesis by (simp add: symbol_RearrangePrecedence_def foldl_cons)
qed

section \<open>Properties\<close>

text \<open>C35: the encoding of symbols: index, type and status are read back from the symbol, and
  symbols of the signature are negative 32-bit numbers, so none is a variable.\<close>

theorem symbol_encoding_roundtrip:
  assumes "1 \<le> i" "i < symbol_MAXSIGNATURE" "0 \<le> t" "t < 4" "0 \<le> s" "s < 2"
  shows "symbol_Index (symbol_SignatureSymbol i t s) = i \<and> symbol_Type (symbol_SignatureSymbol i t s) = t
    \<and> symbol_Stat (symbol_SignatureSymbol i t s) = s \<and> symbol_IsSignature (symbol_SignatureSymbol i t s)
    \<and> \<not> symbol_IsVariable (symbol_SignatureSymbol i t s) \<and> - (2 ^ 31) \<le> symbol_SignatureSymbol i t s"
  using symbol_encoding [of i t s] assms by (simp add: symbol_IsSignature_def symbol_IsVariable_def symbol_consts)

theorem symbol_encoding_roundtrip_witness:
  "symbol_Index (symbol_SignatureSymbol 399999 2 1) = 399999 \<and> symbol_Type (symbol_SignatureSymbol 399999 2 1) = 2"
  using symbol_encoding_roundtrip [of 399999 2 1] by (simp add: symbol_consts)

text \<open>C36: in every table the operations lead to, creating a symbol gives a symbol of the requested type
  that no live entry has, smaller in the precedence than all live symbols, and changes no other
  entry; it fails only when all 399999 indices are in use.\<close>

theorem symbol_SignatureCreate_fresh:
  assumes "symbol_reachable P st" "0 \<le> t" "t < 4" "0 \<le> s" "s < 2"
  shows "(symbol_SignatureCreate n t a s P st = Inl No_more_symbols
       \<and> (\<forall>i. 1 \<le> i \<longrightarrow> i < symbol_MAXSIGNATURE \<longrightarrow> symbol_SIGNATURE st i \<noteq> None))
    \<or> (\<exists>S P' st'. symbol_SignatureCreate n t a s P st = Inr (S, P', st') \<and> symbol_Type S = t
       \<and> symbol_SIGNATURE st' = (symbol_SIGNATURE st)(symbol_Index S := Some (new_entry n a S))
       \<and> (\<forall>i e. symbol_SIGNATURE st i = Some e \<longrightarrow> sig_info e \<noteq> S \<and> symbol_PrecedenceGreater P' (sig_info e) S
             \<and> symbol_SIGNATURE st' i = Some e))"
proof (cases "symbol_ACTINDEX st < symbol_MAXSIGNATURE \<or> symbol_FREEDSYMBOLS st \<noteq> []")
  case True
  have inv: "symtab_inv P st" by (rule symbol_reachable_inv [OF assms(1)])
  from symbol_SignatureCreate_ok [OF inv assms(2-5) True, of n a] obtain i S P' st' where
    c: "symbol_SignatureCreate n t a s P st = Inr (S, P', st')" "S = symbol_SignatureSymbol i t s" "1 \<le> i"
      "symbol_SIGNATURE st i = None" "symbol_SIGNATURE st' = (symbol_SIGNATURE st)(i := Some (new_entry n a S))"
      "P' = P(i := symbol_ORDERING st)" by blast
  have e: "symbol_Index S = i" "symbol_Type S = t" using symbol_encoding [of i t s] c(2,3) assms(2-5) by auto
  have "sig_info e' \<noteq> S \<and> symbol_PrecedenceGreater P' (sig_info e') S \<and> symbol_SIGNATURE st' j = Some e'"
    if "symbol_SIGNATURE st j = Some e'" for j e'
  proof -
    have j: "symbol_Index (sig_info e') = j" "P j < symbol_ORDERING st" using inv that by (auto simp: symtab_inv_def)
    have "j \<noteq> i" using that c(4) by auto
    then show ?thesis using j e(1) c(5,6) that by (auto simp: symbol_PrecedenceGreater_def symbol_Ordering_def)
  qed
  then show ?thesis using c(1,5) e by blast
next
  case False
  have inv: "symtab_inv P st" by (rule symbol_reachable_inv [OF assms(1)])
  have "symbol_SIGNATURE st i \<noteq> None" if "1 \<le> i" "i < symbol_MAXSIGNATURE" for i
  proof
    assume "symbol_SIGNATURE st i = None"
    then have "i \<in> set (symbol_FREEDSYMBOLS st)" using inv that False by (auto simp: symtab_inv_def)
    then show False using False by simp
  qed
  then show ?thesis using False by (simp add: symbol_SignatureCreate_def)
qed

theorem symbol_SignatureCreate_fresh_witness:
  "\<exists>S P' st'. symbol_SignatureCreate ''f'' symbol_FUNCTION 2 0 (\<lambda>i. 0) (symbol_Init True) = Inr (S, P', st')
     \<and> symbol_Type S = 1 \<and> symbol_SIGNATURE st' (symbol_Index S) = Some (new_entry ''f'' 2 S)"
proof -
  have "symbol_SIGNATURE (symbol_Init True) 1 = None" by (simp add: symbol_Init_def)
  then show ?thesis
    using symbol_SignatureCreate_fresh [OF symbol_reachable.init, of symbol_FUNCTION 0 "''f''" 2 "\<lambda>i. 0"]
    by (auto simp: symbol_consts)
qed

text \<open>C37: a user precedence is put into effect: the listed symbols are in decreasing precedence
  afterwards, they share the same ordering numbers as before and all others keep theirs.\<close>

theorem symbol_RearrangePrecedence_correct:
  assumes "distinct (map symbol_Index U)" "distinct (map (symbol_Ordering P) U)"
    "\<forall>S \<in> set U. 0 \<le> symbol_Ordering P S \<and> symbol_Ordering P S < 2 ^ 31"
  shows "sorted_wrt (symbol_PrecedenceGreater (symbol_RearrangePrecedence P U)) U
    \<and> mset (map (symbol_Ordering (symbol_RearrangePrecedence P U)) U) = mset (map (symbol_Ordering P) U)
    \<and> (\<forall>S. symbol_Index S \<notin> symbol_Index ` set U
          \<longrightarrow> symbol_Ordering (symbol_RearrangePrecedence P U) S = symbol_Ordering P S)"
proof -
  let ?P = "symbol_RearrangePrecedence P U"
  have m: "map (symbol_Ordering ?P) U = sort (map (symbol_Ordering P) U)"
    unfolding symbol_RearrangePrecedence_eq [OF assms(3)] by (rule precedence_assign_map) (use assms(1) in simp_all)
  have "sorted_wrt (<) (map (symbol_Ordering ?P) U)"
    unfolding m using assms(2) by (simp add: strict_sorted_iff)
  then have "sorted_wrt (symbol_PrecedenceGreater ?P) U"
    unfolding sorted_wrt_map by (rule sorted_wrt_mono_rel [rotated]) (simp add: symbol_PrecedenceGreater_def)
  moreover have "mset (map (symbol_Ordering ?P) U) = mset (map (symbol_Ordering P) U)" unfolding m by simp
  moreover have "symbol_Ordering ?P S = symbol_Ordering P S" if "symbol_Index S \<notin> symbol_Index ` set U" for S
    using precedence_assign_other [OF that] unfolding symbol_RearrangePrecedence_eq [OF assms(3)]
    by (simp add: symbol_Ordering_def)
  ultimately show ?thesis by blast
qed

theorem symbol_RearrangePrecedence_correct_witness:
  "symbol_PrecedenceGreater (symbol_RearrangePrecedence (\<lambda>i. i) [-16, -8]) (-16) (-8)"
  using symbol_RearrangePrecedence_correct [of "[-16, -8]" "\<lambda>i. i"]
  by (simp add: symbol_Index_def symbol_Ordering_def symbol_consts drop_bit_eq_div)

text \<open>C38: after a symbol has been deleted, \<open>symbol_IsFreed\<close> still denies that it is freed (the list
  holds indices, the test looks for the symbol), and \<open>symbol_GetAllSymbolsWithProperty\<close> follows a null
  pointer.\<close>

theorem symbol_Delete_unnoticed:
  assumes "symbol_reachable P st" "symbol_SIGNATURE st (symbol_Index S) = Some e" "sig_info e = S"
  shows "\<exists>st'. symbol_Delete S st = Inr st' \<and> symbol_Index S \<in> set (symbol_FREEDSYMBOLS st')
     \<and> \<not> symbol_IsFreed S st' \<and> symbol_GetAllSymbolsWithProperty pr st' = Inl Null_signature"
proof -
  have inv: "symtab_inv P st" by (rule symbol_reachable_inv [OF assms(1)])
  have S: "S < 0" "1 \<le> symbol_Index S" "symbol_Index S < symbol_ACTINDEX st" using inv assms(2,3) by (auto simp: symtab_inv_def)
  from symbol_Delete_ok [OF inv assms(2) S(1)] obtain st' where
    d: "symbol_Delete S st = Inr st'" "symtab_inv P st'" "symbol_SIGNATURE st' = (symbol_SIGNATURE st)(symbol_Index S := None)"
      "symbol_FREEDSYMBOLS st' = symbol_Index S # symbol_FREEDSYMBOLS st" "symbol_ACTINDEX st' = symbol_ACTINDEX st" by blast
  have "\<not> symbol_IsFreed S st'" using d(2) S(1) by (auto simp: symtab_inv_def symbol_IsFreed_def)
  moreover have "symbol_GetAllSymbolsWithProperty pr st' = Inl Null_signature"
    using symbol_property_loop_null [of "symbol_Index S" "[1..symbol_ACTINDEX st' - 1]" st' pr "[]"] d(3,5) S
      symbol_Delete_exists [OF d(1)] symbol_reachable_exists [OF assms(1)]
    by (simp add: symbol_GetAllSymbolsWithProperty_def)
  ultimately show ?thesis using d(1,4) by simp
qed

theorem symbol_Delete_unnoticed_witness:
  "\<exists>S P st st'. symbol_CreateFunction ''c'' 0 0 P (symbol_Init True) = Inr (S, P, st)
     \<and> symbol_Delete S st = Inr st' \<and> \<not> symbol_IsFreed S st'"
proof -
  let ?P = "\<lambda>i. 1"
  obtain i S P' st where c: "symbol_SignatureCreate ''c'' 0 0 0 ?P (symbol_Init True) = Inr (S, P', st)"
    "S = symbol_SignatureSymbol i 0 0" "1 \<le> i" "symbol_SIGNATURE st = (symbol_SIGNATURE (symbol_Init True))(i := Some (new_entry ''c'' 0 S))"
    "P' = ?P(i := symbol_ORDERING (symbol_Init True))"
    using symbol_SignatureCreate_ok [OF symtab_inv_Init [of _ True], of 0 0 "''c''" 0 ?P] by (auto simp: symbol_Init_def symbol_consts)
  have P: "P' = ?P" using c(5) by (simp add: symbol_Init_def fun_eq_iff)
  have r: "symbol_reachable ?P st"
    using symbol_reachable.create [OF symbol_reachable.init _ _ _ _ c(1)] P by simp
  have "symbol_Index S = i" using symbol_encoding [of i 0 0] c(2,3) by simp
  then have e: "symbol_SIGNATURE st (symbol_Index S) = Some (new_entry ''c'' 0 S)" using c(4) by simp
  from symbol_Delete_unnoticed [OF r e] have "\<exists>st'. symbol_Delete S st = Inr st' \<and> \<not> symbol_IsFreed S st'"
    by (auto simp: new_entry_def)
  moreover have "symbol_CreateFunction ''c'' 0 0 ?P (symbol_Init True) = Inr (S, ?P, st)"
    using c(1) P by (simp add: symbol_CreateFunction_def symbol_consts)
  ultimately show ?thesis by blast
qed

end
