(* ===== verification/Spass_Term.thy ===== *)
theory Spass_Term
  imports Spass_Symbol
begin

text \<open>
  The terms of SPASS (\<open>term.h\<close>, \<open>term.c\<close>).

  A term is a tree of nodes with a symbol, the argument list, a stamp and an installed size. The
  functions are modelled on trees: a function that changes a term in place returns the changed
  tree, which is what every reader of a term without shared subterms sees; \<open>Term1 == Term2\<close> tests
  that only save work on equal terms are left out. The link to the superterm and with it the
  functions that walk upwards, the release of memory and printing are not modelled.

  Most functions walk a term with an explicit stack of argument lists. The loop is written once,
  for walks that read (\<open>term_walk\<close>) and for walks that change nodes (\<open>term_edit\<close>); each function
  gives what it does at a node. The lemmas relate the walks to plain recursion over the tree.
\<close>

section \<open>Terms\<close>

datatype TERM_NODE = term_Node (term_TopSymbol: SYMBOL) (term_ArgumentList: "TERM_NODE list") (term_TermStamp: NAT) (term_Size: NAT)

definition term_Create :: "SYMBOL \<Rightarrow> TERM_NODE list \<Rightarrow> TERM_NODE" where
  "term_Create Symbol List = term_Node Symbol List 0 0"

definition term_RplacTop :: "TERM_NODE \<Rightarrow> SYMBOL \<Rightarrow> TERM_NODE" where
  "term_RplacTop T S = term_Node S (term_ArgumentList T) (term_TermStamp T) (term_Size T)"

definition term_RplacArgumentList :: "TERM_NODE \<Rightarrow> TERM_NODE list \<Rightarrow> TERM_NODE" where
  "term_RplacArgumentList T A = term_Node (term_TopSymbol T) A (term_TermStamp T) (term_Size T)"

definition term_SetSize :: "TERM_NODE \<Rightarrow> NAT \<Rightarrow> TERM_NODE" where
  "term_SetSize T s = term_Node (term_TopSymbol T) (term_ArgumentList T) (term_TermStamp T) s"

definition term_IsVariable :: "TERM_NODE \<Rightarrow> bool" where
  "term_IsVariable T \<longleftrightarrow> symbol_IsVariable (term_TopSymbol T)"

definition term_IsStandardVariable :: "TERM_NODE \<Rightarrow> bool" where
  "term_IsStandardVariable T \<longleftrightarrow> symbol_IsStandardVariable (term_TopSymbol T)"

definition term_IsIndexVariable :: "TERM_NODE \<Rightarrow> bool" where
  "term_IsIndexVariable T \<longleftrightarrow> symbol_IsIndexVariable (term_TopSymbol T)"

definition term_IsComplex :: "TERM_NODE \<Rightarrow> bool" where
  "term_IsComplex T \<longleftrightarrow> term_ArgumentList T \<noteq> []"

definition term_IsConstant :: "TERM_NODE \<Rightarrow> bool" where
  "term_IsConstant T \<longleftrightarrow> \<not> term_IsComplex T \<and> \<not> term_IsVariable T"

definition term_IsAtom :: "TERM_NODE \<Rightarrow> bool" where
  "term_IsAtom T \<longleftrightarrow> symbol_IsPredicate (term_TopSymbol T)"

definition term_EqualTopSymbols :: "TERM_NODE \<Rightarrow> TERM_NODE \<Rightarrow> bool" where
  "term_EqualTopSymbols T S \<longleftrightarrow> symbol_Equal (term_TopSymbol T) (term_TopSymbol S)"

definition term_VariableEqual :: "TERM_NODE \<Rightarrow> TERM_NODE \<Rightarrow> bool" where
  "term_VariableEqual Variable1 Variable2 = term_EqualTopSymbols Variable1 Variable2"

text \<open>\<open>None\<close> where the second or the first argument does not exist.\<close>

definition term_FirstArgument :: "TERM_NODE \<Rightarrow> TERM_NODE option" where
  "term_FirstArgument T = (case term_ArgumentList T of a # _ \<Rightarrow> Some a | _ \<Rightarrow> None)"

definition term_SecondArgument :: "TERM_NODE \<Rightarrow> TERM_NODE option" where
  "term_SecondArgument T = (case term_ArgumentList T of _ # b # _ \<Rightarrow> Some b | _ \<Rightarrow> None)"

definition term_EqualitySwap :: "TERM_NODE \<Rightarrow> TERM_NODE option" where
  "term_EqualitySwap T =
     (case term_ArgumentList T of
        a # b # rest \<Rightarrow> Some (term_RplacArgumentList T (b # a # rest))
      | _ \<Rightarrow> None)"

definition term_IsTerm :: "TERM_NODE \<Rightarrow> symbol_table \<Rightarrow> bool" where
  "term_IsTerm Term st = symbol_IsSymbol (term_TopSymbol Term) st"

fun term_IsTermList :: "TERM_NODE list \<Rightarrow> symbol_table \<Rightarrow> bool" where
  "term_IsTermList [] st = True"
| "term_IsTermList (t # ts) st = (if \<not> term_IsTerm t st then False else term_IsTermList ts st)"

definition term_AllArgsAreVar :: "TERM_NODE \<Rightarrow> bool" where
  "term_AllArgsAreVar Term = list_all term_IsVariable (term_ArgumentList Term)"

text \<open>Notions for the statements: all subterms from the top down and from left to right, the number
  of nodes, and the term without what the stamps and installed sizes say.\<close>

fun subterms :: "TERM_NODE \<Rightarrow> TERM_NODE list" where
  "subterms (term_Node s ts st sz) = term_Node s ts st sz # concat (map subterms ts)"

fun nodes :: "TERM_NODE \<Rightarrow> nat" where
  "nodes (term_Node s ts st sz) = 1 + sum_list (map nodes ts)"

fun erase :: "TERM_NODE \<Rightarrow> TERM_NODE" where
  "erase (term_Node s ts st sz) = term_Node s (map erase ts) 0 0"

definition arity_ok :: "(SYMBOL \<Rightarrow> nat) \<Rightarrow> TERM_NODE \<Rightarrow> bool" where
  "arity_ok ar t \<longleftrightarrow> (\<forall>u \<in> set (subterms t). length (term_ArgumentList u) = ar (term_TopSymbol u))"

lemma nodes_pos [simp]: "0 < nodes t"
  by (cases t) simp

lemma nodes_eq: "nodes t = 1 + sum_list (map nodes (term_ArgumentList t))"
  by (cases t) simp

lemma length_subterms: "length (subterms t) = nodes t"
proof (induction t rule: subterms.induct)
  case (1 s ts st sz)
  have "sum_list (map (length \<circ> subterms) ts) = sum_list (map nodes ts)"
    by (intro arg_cong [where f = sum_list] map_cong) (simp_all add: 1)
  then show ?case by (simp add: length_concat)
qed

lemma term_list_induct [case_names Nil Cons]:
  assumes "P []" "\<And>t ts. P (term_ArgumentList t) \<Longrightarrow> P ts \<Longrightarrow> P (t # ts)"
  shows "P ts"
proof (induction "sum_list (map nodes ts)" arbitrary: ts rule: less_induct)
  case less
  show ?case
  proof (cases ts)
    case (Cons t us)
    then show ?thesis using less assms(2) by (simp add: nodes_eq)
  qed (simp add: assms(1))
qed

lemma subterms_eq: "subterms t = t # concat (map subterms (term_ArgumentList t))"
  by (cases t) simp

lemma arity_ok_simp:
  "arity_ok ar (term_Node s ts st sz) \<longleftrightarrow> length ts = ar s \<and> (\<forall>t \<in> set ts. arity_ok ar t)"
  by (auto simp: arity_ok_def)


section \<open>Walks that read\<close>

text \<open>
  The loop \<open>do { visit Term; while (top of the stack is empty) pop; take the next term } while
  (stack not empty)\<close>. A visit gives a result at once (\<open>Inl\<close>), or the new state and whether the
  argument list of the term is pushed.
\<close>

lemma stack_empty: "dropWhile (\<lambda>Top. Top = []) Stack = [] \<Longrightarrow> concat Stack = []"
  by (induction Stack) (auto split: if_splits)

lemma stack_take:
  assumes "dropWhile (\<lambda>Top. Top = []) Stack = Top # Rest"
  shows "concat Stack = hd Top # concat (tl Top # Rest)"
proof -
  have "concat (dropWhile (\<lambda>Top. Top = []) Stack) = concat Stack" by (induction Stack) auto
  moreover have "Top \<noteq> []" using assms hd_dropWhile [of "\<lambda>Top. Top = []" Stack] by auto
  ultimately show ?thesis using assms by (cases Top) simp_all
qed

function term_walk :: "('s \<Rightarrow> TERM_NODE \<Rightarrow> 'r + 's \<times> bool) \<Rightarrow> TERM_NODE \<Rightarrow> TERM_NODE list list \<Rightarrow> 's \<Rightarrow> 'r + 's" where
  "term_walk visit Term Stack s =
     (case visit s Term of
        Inl r \<Rightarrow> Inl r
      | Inr (s, push) \<Rightarrow>
          (case dropWhile (\<lambda>Top. Top = []) (if push then term_ArgumentList Term # Stack else Stack) of
             [] \<Rightarrow> Inr s
           | Top # Rest \<Rightarrow> term_walk visit (hd Top) (tl Top # Rest) s))"
  by pat_completeness auto
termination
proof (relation "measure (\<lambda>(visit, Term, Stack, s). nodes Term + sum_list (map nodes (concat Stack)))", goal_cases)
  case 1
  then show ?case by simp
next
  case (2 visit Term Stack s b s' push Top Rest)
  let ?St = "if push then term_ArgumentList Term # Stack else Stack"
  have "nodes (hd Top) + sum_list (map nodes (concat (tl Top # Rest))) = sum_list (map nodes (concat ?St))"
    unfolding stack_take [OF 2(3)] by simp
  also have "\<dots> < nodes Term + sum_list (map nodes (concat Stack))" by (simp add: nodes_eq [of Term])
  finally show ?case by simp
qed

declare term_walk.simps [simp del]

text \<open>The same without the stack: the terms that are still to be visited, in order.\<close>

function term_visits :: "('s \<Rightarrow> TERM_NODE \<Rightarrow> 'r + 's \<times> bool) \<Rightarrow> TERM_NODE list \<Rightarrow> 's \<Rightarrow> 'r + 's" where
  "term_visits visit [] s = Inr s"
| "term_visits visit (t # ts) s =
     (case visit s t of
        Inl r \<Rightarrow> Inl r
      | Inr (s, push) \<Rightarrow> term_visits visit ((if push then term_ArgumentList t else []) @ ts) s)"
  by pat_completeness auto
termination
  by (relation "measure (\<lambda>(visit, ts, s). sum_list (map nodes ts))") (auto simp: nodes_eq)

lemma term_visits_append:
  "term_visits visit (xs @ ys) s = (case term_visits visit xs s of Inl r \<Rightarrow> Inl r | Inr s \<Rightarrow> term_visits visit ys s)"
  by (induction visit xs s rule: term_visits.induct) (auto split: sum.splits prod.splits)

lemma term_walk_visits: "term_walk visit t Stack s = term_visits visit (t # concat Stack) s"
proof (induction visit t Stack s rule: term_walk.induct)
  case (1 visit t Stack s)
  show ?case
  proof (cases "visit s t")
    case (Inl r)
    then show ?thesis by (simp add: term_walk.simps)
  next
    case (Inr q)
    obtain s' push where q: "q = (s', push)" by force
    let ?St = "if push then term_ArgumentList t # Stack else Stack"
    have c: "(if push then term_ArgumentList t else []) @ concat Stack = concat ?St" by simp
    show ?thesis
    proof (cases "dropWhile (\<lambda>Top. Top = []) ?St")
      case Nil
      have "term_visits visit (t # concat Stack) s = Inr s'"
        using Inr q by (simp add: c stack_empty [OF Nil] del: if_split)
      then show ?thesis by (subst term_walk.simps) (simp only: Inr q sum.case prod.case Nil list.case)
    next
      case (Cons Top Rest)
      have "term_visits visit (t # concat Stack) s = term_visits visit (concat ?St) s'"
        using Inr q by (simp add: c del: if_split)
      then show ?thesis using 1 [OF Inr q [symmetric] Cons] Inr q Cons stack_take [OF Cons]
        by (simp add: term_walk.simps del: if_split)
    qed
  qed
qed

text \<open>A visit that never stops early, as a fold; one that searches.\<close>

definition leaf :: "TERM_NODE \<Rightarrow> bool" where "leaf t \<longleftrightarrow> term_ArgumentList t = []"

lemma complex_iff [simp]: "term_IsComplex t \<longleftrightarrow> \<not> leaf t"
  by (simp add: term_IsComplex_def leaf_def)

lemma subterms_visit:
  "push \<or> leaf t \<Longrightarrow> concat (map subterms (t # ts))
     = t # concat (map subterms ((if push then term_ArgumentList t else []) @ ts))"
  by (auto simp: subterms_eq [of t] leaf_def)

lemma term_visits_fold:
  assumes "\<And>s t. t \<in> set (concat (map subterms ts)) \<Longrightarrow> \<exists>push. visit s t = Inr (f t s, push) \<and> (push \<or> leaf t)"
  shows "term_visits visit ts s = Inr (fold f (concat (map subterms ts)) s)"
  using assms
proof (induction visit ts s rule: term_visits.induct)
  case (2 visit t ts s)
  have "t \<in> set (concat (map subterms (t # ts)))" by (simp add: subterms_eq [of t])
  from 2(2) [OF this, of s] obtain push where v: "visit s t = Inr (f t s, push)" and p: "push \<or> leaf t" by blast
  have "term_visits visit ((if push then term_ArgumentList t else []) @ ts) (f t s)
      = Inr (fold f (concat (map subterms ((if push then term_ArgumentList t else []) @ ts))) (f t s))"
    by (rule 2(1) [OF v refl], rule 2(2)) (auto simp: subterms_eq [of t] split: if_splits)
  then show ?case unfolding subterms_visit [OF p] using v by simp
qed simp

lemma term_walk_fold:
  assumes "\<And>s u. u \<in> set (subterms t) \<Longrightarrow> \<exists>push. visit s u = Inr (f u s, push) \<and> (push \<or> leaf u)"
  shows "term_walk visit t [] s = Inr (fold f (subterms t) s)"
  using term_visits_fold [of "[t]" visit f s] assms by (simp add: term_walk_visits)

lemma term_visits_search:
  assumes "\<And>s t. visit s t = (if P t then Inl (g t) else Inr (s, push t))" "\<And>t. P t \<or> push t \<or> leaf t"
  shows "term_visits visit ts s = (case find P (concat (map subterms ts)) of None \<Rightarrow> Inr s | Some t \<Rightarrow> Inl (g t))"
  using assms
proof (induction visit ts s rule: term_visits.induct)
  case (2 visit t ts s)
  show ?case
  proof (cases "P t")
    case True
    then show ?thesis using 2(2) [of s t] by (simp add: subterms_eq [of t])
  next
    case False
    then have p: "push t \<or> leaf t" using 2(3) [of t] by blast
    have v: "visit s t = Inr (s, push t)" using False 2(2) [of s t] by simp
    show ?thesis
      unfolding subterms_visit [OF p] using 2(1) [OF v refl 2(2,3)] v False by simp
  qed
qed simp

lemma term_walk_search:
  assumes "\<And>s t. visit s t = (if P t then Inl (g t) else Inr (s, push t))" "\<And>t. P t \<or> push t \<or> leaf t"
  shows "term_walk visit t [] s = (case find P (subterms t) of None \<Rightarrow> Inr s | Some u \<Rightarrow> Inl (g u))"
  using term_visits_search [OF assms, of "[t]" s] by (simp add: term_walk_visits)


section \<open>Functions that read\<close>

primrec outcome :: "'a + 'a \<Rightarrow> 'a" where
  "outcome (Inl r) = r"
| "outcome (Inr s) = s"

definition term_IsGround :: "TERM_NODE \<Rightarrow> bool" where
  "term_IsGround Term =
     (if term_IsComplex Term then
        outcome (term_walk (\<lambda>r T. if term_IsComplex T then Inr (r, True)
                                 else if term_IsVariable T then Inl False else Inr (r, False)) Term [] True)
      else \<not> term_IsVariable Term)"

definition term_ContainsSymbol :: "TERM_NODE \<Rightarrow> SYMBOL \<Rightarrow> bool" where
  "term_ContainsSymbol Term Symbol =
     outcome (term_walk (\<lambda>r T. if term_TopSymbol T = Symbol then Inl True else Inr (r, term_IsComplex T)) Term [] False)"

definition term_FindSubterm :: "TERM_NODE \<Rightarrow> SYMBOL \<Rightarrow> TERM_NODE option" where
  "term_FindSubterm Term Symbol =
     outcome (term_walk (\<lambda>r T. if term_TopSymbol T = Symbol then Inl (Some T) else Inr (r, term_IsComplex T)) Term [] None)"

definition term_ContainsFunctions :: "TERM_NODE \<Rightarrow> bool" where
  "term_ContainsFunctions Term =
     outcome (term_walk (\<lambda>r T. if term_IsComplex T then
                                   if symbol_IsFunction (term_TopSymbol T) \<and> \<not> symbol_IsConstant (term_TopSymbol T)
                                   then Inl True else Inr (r, True)
                                 else Inr (r, False)) Term [] False)"

definition term_ContainsVariable :: "TERM_NODE \<Rightarrow> SYMBOL \<Rightarrow> bool" where
  "term_ContainsVariable Term Var =
     outcome (term_walk (\<lambda>r T. if term_IsComplex T then Inr (r, True)
                                 else if symbol_Equal (term_TopSymbol T) Var then Inl True
                                 else Inr (r, False)) Term [] False)"

definition term_ListOfVariables :: "TERM_NODE \<Rightarrow> TERM_NODE list" where
  "term_ListOfVariables Term =
     outcome (term_walk (\<lambda>Variables T. if term_IsComplex T then Inr (Variables, True)
                                 else if term_IsVariable T then Inr (T # Variables, False)
                                 else Inr (Variables, False)) Term [] [])"

definition term_NumberOfVarOccs :: "TERM_NODE \<Rightarrow> NAT" where
  "term_NumberOfVarOccs Term =
     outcome (term_walk (\<lambda>Result T. if term_IsComplex T then Inr (Result, True)
                                 else if symbol_IsVariable (term_TopSymbol T) then Inr (Result + 1, False)
                                 else Inr (Result, False)) Term [] 0)"

definition term_MaxVar :: "TERM_NODE \<Rightarrow> SYMBOL" where
  "term_MaxVar Term =
     outcome (term_walk (\<lambda>Result T. if term_IsStandardVariable T
                                 then Inr (if term_TopSymbol T > Result then term_TopSymbol T else Result, False)
                                 else Inr (Result, term_IsComplex T)) Term [] 0)"

definition term_FindAllAtoms :: "TERM_NODE \<Rightarrow> SYMBOL \<Rightarrow> TERM_NODE list" where
  "term_FindAllAtoms Term Predicate =
     outcome (term_walk (\<lambda>Result T. if term_TopSymbol T = Predicate then Inr (T # Result, False)
                                 else Inr (Result, term_IsComplex T)) Term [] [])"

text \<open>The recursive ones.\<close>

fun term_ListOfAtoms :: "TERM_NODE \<Rightarrow> SYMBOL \<Rightarrow> TERM_NODE list" where
  "term_ListOfAtoms (term_Node s ts st sz) Predicate =
     (if symbol_Equal s Predicate then [term_Node s ts st sz]
      else foldl (\<lambda>Result l. Result @ l) [] (map (\<lambda>t. term_ListOfAtoms t Predicate) ts))"

fun term_ListOfConstants :: "TERM_NODE \<Rightarrow> SYMBOL list" where
  "term_ListOfConstants (term_Node s ts st sz) =
     (if symbol_IsConstant s then [s]
      else foldl (\<lambda>result l. l @ result) [] (map term_ListOfConstants ts))"

fun term_ListOfFunctions :: "TERM_NODE \<Rightarrow> SYMBOL list" where
  "term_ListOfFunctions (term_Node s ts st sz) =
     foldl (\<lambda>result l. l @ result) ([] @ (if symbol_IsFunction s then [s] else [])) (map term_ListOfFunctions ts)"

fun term_NumberOfSymbolOccurrences :: "TERM_NODE \<Rightarrow> SYMBOL \<Rightarrow> NAT" where
  "term_NumberOfSymbolOccurrences (term_Node s ts st sz) Symbol =
     foldl (\<lambda>Result n. Result + n) (if symbol_Equal s Symbol then 1 else 0)
       (map (\<lambda>t. term_NumberOfSymbolOccurrences t Symbol) ts)"

fun term_ComputeSize :: "TERM_NODE \<Rightarrow> NAT" where
  "term_ComputeSize (term_Node s ts st sz) = foldl (\<lambda>Weight w. Weight + w) 1 (map term_ComputeSize ts)"

fun term_InstallSize :: "TERM_NODE \<Rightarrow> TERM_NODE" where
  "term_InstallSize (term_Node s ts st sz) =
     (let ts = map term_InstallSize ts;
          Weight = foldl (\<lambda>Weight t. Weight + term_Size t) 1 ts
      in term_SetSize (term_Node s ts st sz) Weight)"

fun term_Depth :: "TERM_NODE \<Rightarrow> NAT" where
  "term_Depth (term_Node s ts st sz) =
     foldl (\<lambda>Depth Help. if Help > Depth then Help else Depth) 0 (map term_Depth ts) + 1"

definition sizeof_TERM_NODE :: NAT where "sizeof_TERM_NODE = 32"

section \<open>Equality\<close>

text \<open>The loop over both argument lists is \<open>term_EqualArgs\<close>.\<close>

fun term_Equal :: "TERM_NODE \<Rightarrow> TERM_NODE \<Rightarrow> bool"
and term_EqualArgs :: "TERM_NODE list \<Rightarrow> TERM_NODE list \<Rightarrow> bool" where
  "term_Equal (term_Node s ts st sz) (term_Node s' ts' st' sz') =
     (if \<not> symbol_Equal s s' then False
      else if ts \<noteq> [] then term_EqualArgs ts ts'
      else True)"
| "term_EqualArgs (t # ts) (u # us) = (if \<not> term_Equal t u then False else term_EqualArgs ts us)"
| "term_EqualArgs ts us = (if ts = [] then us = [] else False)"

text \<open>The iterative version with two stacks. \<open>equal_pop\<close> pops both while the first has an empty top
  and gives \<open>None\<close> where the loop returns \<open>FALSE\<close>; the walk gives \<open>None\<close> where the code would read
  the top of an empty stack.\<close>

fun equal_pop :: "TERM_NODE list list \<Rightarrow> TERM_NODE list list \<Rightarrow> (TERM_NODE list list \<times> TERM_NODE list list) option" where
  "equal_pop ([] # Stack1) Stack2 =
     (case Stack2 of [] # Stack2 \<Rightarrow> equal_pop Stack1 Stack2 | _ \<Rightarrow> None)"
| "equal_pop Stack1 Stack2 = Some (Stack1, Stack2)"

lemma equal_pop_Some:
  "equal_pop S1 S2 = Some (S1', S2') \<Longrightarrow> concat S1' = concat S1 \<and> (S1' = [] \<or> hd S1' \<noteq> [])
     \<and> (length S1' = length S2' \<longleftrightarrow> length S1 = length S2)
     \<and> (map (map erase) S1' = map (map erase) S2' \<longleftrightarrow> map (map erase) S1 = map (map erase) S2)"
  by (induction S1 S2 rule: equal_pop.induct) (auto split: list.splits)

lemma equal_pop_None:
  "equal_pop S1 S2 = None \<Longrightarrow> map (map erase) S1 \<noteq> map (map erase) S2"
  by (induction S1 S2 rule: equal_pop.induct) (auto split: list.splits)

function equal_walk :: "TERM_NODE \<Rightarrow> TERM_NODE \<Rightarrow> TERM_NODE list list \<Rightarrow> TERM_NODE list list \<Rightarrow> bool option" where
  "equal_walk Term1 Term2 Stack1 Stack2 =
     (let both = term_EqualTopSymbols Term1 Term2 \<and> term_IsComplex Term1 \<and> term_IsComplex Term2;
          Stack1 = (if both then term_ArgumentList Term1 # Stack1 else Stack1);
          Stack2 = (if both then term_ArgumentList Term2 # Stack2 else Stack2)
      in if \<not> term_EqualTopSymbols Term1 Term2 \<or> term_IsComplex Term1 \<noteq> term_IsComplex Term2 then Some False
         else (case equal_pop Stack1 Stack2 of
                 None \<Rightarrow> Some False
               | Some (Stack1, Stack2) \<Rightarrow>
                   (case Stack1 of
                      [] \<Rightarrow> Some True
                    | Top1 # Rest1 \<Rightarrow>
                        (case Stack2 of
                           [] \<Rightarrow> None
                         | Top2 # Rest2 \<Rightarrow>
                             if Top2 \<noteq> []
                             then equal_walk (hd Top1) (hd Top2) (tl Top1 # Rest1) (tl Top2 # Rest2)
                             else Some False))))"
  by pat_completeness auto
termination
proof (relation "measure (\<lambda>(Term1, Term2, Stack1, Stack2). nodes Term1 + sum_list (map nodes (concat Stack1)))", goal_cases)
  case 1
  then show ?case by simp
next
  case (2 t1 t2 S1 S2 both P1 P2 y Q1 Q2 Top1 Rest1 Top2 Rest2)
  then have e: "equal_pop P1 P2 = Some (Top1 # Rest1, Top2 # Rest2)" by simp
  have "Top1 \<noteq> []" "concat P1 = Top1 @ concat Rest1" using equal_pop_Some [OF e] by auto
  then have "concat P1 = hd Top1 # concat (tl Top1 # Rest1)" by (cases Top1) simp_all
  then have "nodes (hd Top1) + sum_list (map nodes (concat (tl Top1 # Rest1))) = sum_list (map nodes (concat P1))"
    by simp
  also have "\<dots> < nodes t1 + sum_list (map nodes (concat S1))" using 2(2) by (simp add: nodes_eq [of t1])
  finally show ?case by simp
qed

declare equal_walk.simps [simp del]

definition term_EqualIterative :: "TERM_NODE \<Rightarrow> TERM_NODE \<Rightarrow> bool option" where
  "term_EqualIterative Term1 Term2 = equal_walk Term1 Term2 [] []"

lemma erase_eq_iff:
  "erase t = erase u \<longleftrightarrow> term_TopSymbol t = term_TopSymbol u
     \<and> map erase (term_ArgumentList t) = map erase (term_ArgumentList u)"
  by (cases t; cases u) auto

lemma equal_walk_ok:
  "length S1 = length S2 \<Longrightarrow>
   equal_walk t1 t2 S1 S2 = Some (erase t1 = erase t2 \<and> map (map erase) S1 = map (map erase) S2)"
proof (induction t1 t2 S1 S2 rule: equal_walk.induct)
  case (1 t1 t2 S1 S2)
  let ?b = "term_EqualTopSymbols t1 t2 \<and> term_IsComplex t1 \<and> term_IsComplex t2"
  define P1 where "P1 = (if ?b then term_ArgumentList t1 # S1 else S1)"
  define P2 where "P2 = (if ?b then term_ArgumentList t2 # S2 else S2)"
  show ?case
  proof (cases "\<not> term_EqualTopSymbols t1 t2 \<or> term_IsComplex t1 \<noteq> term_IsComplex t2")
    case True
    then have "erase t1 \<noteq> erase t2"
      by (auto simp: erase_eq_iff term_EqualTopSymbols_def symbol_Equal_def leaf_def)
    then show ?thesis using True by (subst equal_walk.simps) (simp add: Let_def)
  next
    case False
    have iff: "erase t1 = erase t2 \<and> map (map erase) S1 = map (map erase) S2 \<longleftrightarrow> map (map erase) P1 = map (map erase) P2"
      using False by (auto simp: P1_def P2_def erase_eq_iff term_EqualTopSymbols_def symbol_Equal_def leaf_def)
    have len: "length P1 = length P2" using 1(2) by (auto simp: P1_def P2_def)
    show ?thesis
    proof (cases "equal_pop P1 P2")
      case None
      then show ?thesis using equal_pop_None [OF None] False iff
        by (subst equal_walk.simps) (simp only: Let_def P1_def P2_def option.case if_False simp_thms)
    next
      case (Some q)
      obtain Q1 Q2 where q: "q = (Q1, Q2)" by force
      note pop = equal_pop_Some [OF Some [unfolded q]]
      have w: "equal_walk t1 t2 S1 S2 = (case Q1 of [] \<Rightarrow> Some True | Top1 # Rest1 \<Rightarrow>
          (case Q2 of [] \<Rightarrow> None | Top2 # Rest2 \<Rightarrow> if Top2 \<noteq> []
             then equal_walk (hd Top1) (hd Top2) (tl Top1 # Rest1) (tl Top2 # Rest2) else Some False))"
        using False Some q by (subst equal_walk.simps) (simp only: Let_def P1_def P2_def option.case prod.case if_False simp_thms)
      show ?thesis
      proof (cases Q1)
        case Nil
        then show ?thesis using w pop len iff by auto
      next
        case (Cons Top1 Rest1)
        then obtain Top2 Rest2 where Q2: "Q2 = Top2 # Rest2" using pop len by (cases Q2) auto
        have ne: "Top1 \<noteq> []" using pop Cons by simp
        show ?thesis
        proof (cases "Top2 = []")
          case True
          then show ?thesis using w Cons Q2 pop iff ne by simp
        next
          case nonempty: False
          have "length Rest1 = length Rest2" using pop len Cons Q2 by simp
          then have "equal_walk (hd Top1) (hd Top2) (tl Top1 # Rest1) (tl Top2 # Rest2)
              = Some (erase (hd Top1) = erase (hd Top2)
                  \<and> map (map erase) (tl Top1 # Rest1) = map (map erase) (tl Top2 # Rest2))"
            using 1(1) [OF refl P1_def P2_def False Some q [symmetric] Cons Q2 nonempty] by simp
          moreover have "map erase Top1 = map erase Top2 \<longleftrightarrow>
              erase (hd Top1) = erase (hd Top2) \<and> map erase (tl Top1) = map erase (tl Top2)"
            using ne nonempty by (cases Top1; cases Top2) simp_all
          ultimately show ?thesis using w Cons Q2 pop iff nonempty by auto
        qed
      qed
    qed
  qed
qed

lemma term_EqualIterative_ok: "term_EqualIterative t u = Some (erase t = erase u)"
  by (simp add: term_EqualIterative_def equal_walk_ok)

lemma term_Equal_ok:
  "arity_ok ar t \<Longrightarrow> arity_ok ar u \<Longrightarrow> term_Equal t u \<longleftrightarrow> erase t = erase u"
  "\<forall>t \<in> set ts. arity_ok ar t \<Longrightarrow> \<forall>u \<in> set us. arity_ok ar u \<Longrightarrow> term_EqualArgs ts us \<longleftrightarrow> map erase ts = map erase us"
proof (induction t u and ts us rule: term_Equal_term_EqualArgs.induct)
  case (1 s ts st sz s' ts' st' sz')
  then show ?case by (cases "ts = []"; cases "ts' = []") (auto simp: symbol_Equal_def arity_ok_simp)
qed (auto simp: neq_Nil_conv)

lemma term_Equal_same: "u = t \<Longrightarrow> term_Equal t u" "us = ts \<Longrightarrow> term_EqualArgs ts us"
  by (induction t u and ts us rule: term_Equal_term_EqualArgs.induct) (auto simp: symbol_Equal_def)

lemmas term_Equal_refl = term_Equal_same [OF refl]


section \<open>Walks that change nodes\<close>

text \<open>
  A visit gives the new state, the node as it leaves it, and whether the argument list of the term is
  pushed. A frame of the stack holds a node, the arguments behind the stack pointer, last one first,
  and the arguments from the stack pointer on; when the list is exhausted the node has its new
  arguments. \<open>edit_list\<close> is the same by recursion.
\<close>

type_synonym frame = "TERM_NODE \<times> TERM_NODE list \<times> TERM_NODE list"

function edit_loop :: "('s \<Rightarrow> TERM_NODE \<Rightarrow> 's \<times> TERM_NODE \<times> bool) \<Rightarrow> frame \<Rightarrow> frame list \<Rightarrow> 's \<Rightarrow> 's \<times> TERM_NODE" where
  "edit_loop visit (p, left, []) [] s = (s, term_RplacArgumentList p (rev left))"
| "edit_loop visit (p, left, []) ((p', left', todo') # rest) s =
     edit_loop visit (p', term_RplacArgumentList p (rev left) # left', todo') rest s"
| "edit_loop visit (p, left, u # us) rest s =
     (case visit s u of
        (s, u', push) \<Rightarrow>
          if push then edit_loop visit (u', [], term_ArgumentList u) ((p, left, us) # rest) s
          else edit_loop visit (p, u' # left, us) rest s)"
  by pat_completeness auto
termination
  by (relation "measure (\<lambda>(visit, (p, left, todo), rest, s).
        Suc (2 * sum_list (map nodes todo)) + sum_list (map (\<lambda>(p, left, todo). Suc (2 * sum_list (map nodes todo))) rest))")
    (auto simp: nodes_eq)

definition term_edit :: "('s \<Rightarrow> TERM_NODE \<Rightarrow> 's \<times> TERM_NODE \<times> bool) \<Rightarrow> TERM_NODE \<Rightarrow> 's \<Rightarrow> 's \<times> TERM_NODE" where
  "term_edit visit Term s =
     (case visit s Term of
        (s, Term', push) \<Rightarrow>
          if push then edit_loop visit (Term', [], term_ArgumentList Term) [] s else (s, Term'))"

function edit_list :: "('s \<Rightarrow> TERM_NODE \<Rightarrow> 's \<times> TERM_NODE \<times> bool) \<Rightarrow> TERM_NODE list \<Rightarrow> 's \<Rightarrow> 's \<times> TERM_NODE list" where
  "edit_list visit [] s = (s, [])"
| "edit_list visit (u # us) s =
     (case visit s u of
        (s, u', push) \<Rightarrow>
          if push then
            (case edit_list visit (term_ArgumentList u) s of
               (s, as) \<Rightarrow> (case edit_list visit us s of
                  (s, vs) \<Rightarrow> (s, term_RplacArgumentList u' as # vs)))
          else (case edit_list visit us s of (s, vs) \<Rightarrow> (s, u' # vs)))"
  by pat_completeness auto
termination
  by (relation "measure (\<lambda>(visit, us, s). sum_list (map nodes us))") (auto simp: nodes_eq)

lemma edit_loop_list:
  "edit_loop visit (p, left, todo) rest s =
     (case edit_list visit todo s of
        (s, ts) \<Rightarrow>
          (case rest of
             [] \<Rightarrow> (s, term_RplacArgumentList p (rev left @ ts))
           | (p', left', todo') # rest \<Rightarrow>
               edit_loop visit (p', term_RplacArgumentList p (rev left @ ts) # left', todo') rest s))"
proof (induction visit todo s arbitrary: p left rest rule: edit_list.induct)
  case (1 visit s)
  then show ?case by (auto split: list.splits)
next
  case (2 visit u us s)
  then show ?case by (auto split: prod.splits list.splits)
qed

lemma term_edit_list: "term_edit visit t s = (case edit_list visit [t] s of (s, ts) \<Rightarrow> (s, hd ts))"
  by (auto simp: term_edit_def edit_loop_list split: prod.splits)


section \<open>Copies and replacement\<close>

fun term_Copy :: "TERM_NODE \<Rightarrow> TERM_NODE" where
  "term_Copy (term_Node s ts st sz) =
     (let Result = (if ts \<noteq> [] then term_Create s (map term_Copy ts) else term_Create s [])
      in term_Node (term_TopSymbol Result) (term_ArgumentList Result) st sz)"

definition term_CopyIterative :: "TERM_NODE \<Rightarrow> TERM_NODE" where
  "term_CopyIterative Term =
     (if term_IsComplex Term then
        snd (edit_loop (\<lambda>s T. (s, term_Create (term_TopSymbol T) [], term_IsComplex T))
               (term_Create (term_TopSymbol Term) [], [], term_ArgumentList Term) [] ())
      else term_Create (term_TopSymbol Term) [])"

definition term_ReplaceSubtermBy :: "TERM_NODE \<Rightarrow> TERM_NODE \<Rightarrow> TERM_NODE \<Rightarrow> bool \<times> TERM_NODE" where
  "term_ReplaceSubtermBy Atom TermS TermT =
     (let TermS = term_Copy TermS in
      if \<not> term_Equal Atom TermS \<and> term_ArgumentList Atom \<noteq> [] then
        edit_loop (\<lambda>Replaced T. if term_Equal T TermS then (True, term_Copy TermT, False)
                                else (Replaced, T, term_IsComplex T))
          (Atom, [], term_ArgumentList Atom) [] False
      else (False, Atom))"

fun term_ReplaceVariable :: "TERM_NODE \<Rightarrow> SYMBOL \<Rightarrow> TERM_NODE \<Rightarrow> TERM_NODE" where
  "term_ReplaceVariable (term_Node s ts st sz) Symbol Repl =
     (if symbol_Equal s Symbol
      then term_RplacArgumentList (term_RplacTop (term_Node s ts st sz) (term_TopSymbol Repl))
             (map term_Copy (term_ArgumentList Repl))
      else term_RplacArgumentList (term_Node s ts st sz) (map (\<lambda>t. term_ReplaceVariable t Symbol Repl) ts))"

fun term_ExchangeVariable :: "TERM_NODE \<Rightarrow> SYMBOL \<Rightarrow> SYMBOL \<Rightarrow> TERM_NODE" where
  "term_ExchangeVariable (term_Node s ts st sz) Old New =
     (if symbol_Equal s Old then term_RplacTop (term_Node s ts st sz) New
      else term_RplacArgumentList (term_Node s ts st sz) (map (\<lambda>t. term_ExchangeVariable t Old New) ts))"

fun term_SubstituteVariable :: "SYMBOL \<Rightarrow> TERM_NODE \<Rightarrow> TERM_NODE \<Rightarrow> bool \<times> TERM_NODE" where
  "term_SubstituteVariable Symbol Repl (term_Node s ts st sz) =
     (if symbol_Equal s Symbol then
        let New = term_Copy Repl
        in (True, term_RplacArgumentList (term_RplacTop (term_Node s ts st sz) (term_TopSymbol Repl)) (term_ArgumentList New))
      else
        let rs = map (term_SubstituteVariable Symbol Repl) ts
        in (foldl (\<lambda>Result (b, t). if b then True else Result) False rs,
            term_RplacArgumentList (term_Node s ts st sz) (map snd rs)))"

fun term_HasSubterm :: "TERM_NODE \<Rightarrow> TERM_NODE \<Rightarrow> bool" where
  "term_HasSubterm (term_Node s ts st sz) Subterm =
     (if term_Equal (term_Node s ts st sz) Subterm then True
      else list_ex (\<lambda>t. term_HasSubterm t Subterm) ts)"

lemmas term_node_defs = term_Create_def term_RplacTop_def term_RplacArgumentList_def term_SetSize_def

lemma term_Copy_id [simp]: "term_Copy t = t"
  by (induction t rule: term_Copy.induct) (auto simp: Let_def term_node_defs intro: map_idI)

text \<open>\<open>term_CopyIterative\<close> drops stamps and sizes, which \<open>term_Copy\<close> keeps.\<close>

lemma edit_list_copy:
  "edit_list (\<lambda>s T. (s, term_Create (term_TopSymbol T) [], term_IsComplex T)) ts s = (s, map erase ts)"
proof (induction ts arbitrary: s rule: term_list_induct)
  case (Cons u us)
  then show ?case by (cases u) (auto simp: term_node_defs leaf_def)
qed simp

lemma term_CopyIterative_ok: "term_CopyIterative t = erase t"
  unfolding term_CopyIterative_def
  by (subst edit_loop_list, unfold edit_list_copy, cases t) (simp add: term_node_defs leaf_def)

text \<open>Replacement of the topmost occurrences, the root apart.\<close>

fun replace_top :: "TERM_NODE \<Rightarrow> TERM_NODE \<Rightarrow> TERM_NODE \<Rightarrow> TERM_NODE" where
  "replace_top S T (term_Node s ts st sz) =
     (if term_Equal (term_Node s ts st sz) S then T else term_Node s (map (replace_top S T) ts) st sz)"

lemma edit_list_replace:
  "edit_list (\<lambda>Replaced u. if term_Equal u S then (True, T, False) else (Replaced, u, term_IsComplex u)) ts b
     = (b \<or> (\<exists>t \<in> set ts. term_HasSubterm t S), map (replace_top S T) ts)"
proof (induction ts arbitrary: b rule: term_list_induct)
  case (Cons u us)
  then show ?case
    by (cases u) (auto simp: term_node_defs leaf_def list_ex_iff)
qed simp

lemma term_ReplaceSubtermBy_ok:
  assumes "\<not> term_Equal t S"
  shows "term_ReplaceSubtermBy t S T = (term_HasSubterm t S, replace_top S T t)"
  using assms
  by (cases t) (auto simp: term_ReplaceSubtermBy_def edit_loop_list edit_list_replace term_node_defs list_ex_iff)


section \<open>What the walks compute\<close>

lemma find_None_iff_ball: "find P xs = None \<longleftrightarrow> (\<forall>x \<in> set xs. \<not> P x)"
  by (auto simp: find_None_iff)

lemma outcome_find:
  "outcome (case find P xs of None \<Rightarrow> Inr False | Some u \<Rightarrow> Inl True) \<longleftrightarrow> (\<exists>x \<in> set xs. P x)"
  "outcome (case find P xs of None \<Rightarrow> Inr True | Some u \<Rightarrow> Inl False) \<longleftrightarrow> (\<forall>x \<in> set xs. \<not> P x)"
  "outcome (case find P xs of None \<Rightarrow> Inr None | Some u \<Rightarrow> Inl (Some u)) = find P xs"
  using find_None_iff_ball [of P xs] by (auto split: option.splits)

lemma term_IsGround_ok:
  "term_IsGround t \<longleftrightarrow> (\<forall>u \<in> set (subterms t). \<not> (leaf u \<and> term_IsVariable u))"
proof (cases "leaf t")
  case True
  then show ?thesis by (simp add: term_IsGround_def subterms_eq [of t]) (simp add: leaf_def)
next
  case False
  have "term_walk (\<lambda>r T. if term_IsComplex T then Inr (r, True)
       else if term_IsVariable T then Inl False else Inr (r, False)) t [] True
     = (case find (\<lambda>u. leaf u \<and> term_IsVariable u) (subterms t) of None \<Rightarrow> Inr True | Some u \<Rightarrow> Inl False)"
    by (rule term_walk_search [where push = term_IsComplex]) auto
  then show ?thesis using False by (simp add: term_IsGround_def outcome_find)
qed

lemma term_ContainsSymbol_ok:
  "term_ContainsSymbol t S \<longleftrightarrow> (\<exists>u \<in> set (subterms t). term_TopSymbol u = S)"
proof -
  have "term_walk (\<lambda>r T. if term_TopSymbol T = S then Inl True else Inr (r, term_IsComplex T)) t [] False
     = (case find (\<lambda>u. term_TopSymbol u = S) (subterms t) of None \<Rightarrow> Inr False | Some u \<Rightarrow> Inl True)"
    by (rule term_walk_search [where push = term_IsComplex]) auto
  then show ?thesis by (simp add: term_ContainsSymbol_def outcome_find)
qed

lemma term_FindSubterm_ok: "term_FindSubterm t S = find (\<lambda>u. term_TopSymbol u = S) (subterms t)"
proof -
  have "term_walk (\<lambda>r T. if term_TopSymbol T = S then Inl (Some T) else Inr (r, term_IsComplex T)) t [] None
     = ((case find (\<lambda>u. term_TopSymbol u = S) (subterms t) of None \<Rightarrow> Inr None | Some u \<Rightarrow> Inl (Some u))
          :: TERM_NODE option + TERM_NODE option)"
    by (rule term_walk_search [where push = term_IsComplex]) auto
  then show ?thesis by (simp add: term_FindSubterm_def outcome_find)
qed

lemma term_ContainsFunctions_ok:
  "term_ContainsFunctions t \<longleftrightarrow> (\<exists>u \<in> set (subterms t). \<not> leaf u
     \<and> symbol_IsFunction (term_TopSymbol u) \<and> \<not> symbol_IsConstant (term_TopSymbol u))"
proof -
  have "term_walk (\<lambda>r T. if term_IsComplex T then
         if symbol_IsFunction (term_TopSymbol T) \<and> \<not> symbol_IsConstant (term_TopSymbol T) then Inl True else Inr (r, True)
       else Inr (r, False)) t [] False
     = (case find (\<lambda>u. \<not> leaf u \<and> symbol_IsFunction (term_TopSymbol u) \<and> \<not> symbol_IsConstant (term_TopSymbol u))
          (subterms t) of None \<Rightarrow> Inr False | Some u \<Rightarrow> Inl True)"
    by (rule term_walk_search [where push = term_IsComplex]) auto
  then show ?thesis by (simp add: term_ContainsFunctions_def outcome_find)
qed

lemma term_ContainsVariable_ok:
  "term_ContainsVariable t V \<longleftrightarrow> (\<exists>u \<in> set (subterms t). leaf u \<and> term_TopSymbol u = V)"
proof -
  have "term_walk (\<lambda>r T. if term_IsComplex T then Inr (r, True)
        else if symbol_Equal (term_TopSymbol T) V then Inl True else Inr (r, False)) t [] False
     = (case find (\<lambda>u. leaf u \<and> term_TopSymbol u = V) (subterms t) of None \<Rightarrow> Inr False | Some u \<Rightarrow> Inl True)"
    by (rule term_walk_search [where push = term_IsComplex]) (auto simp: symbol_Equal_def)
  then show ?thesis by (simp add: term_ContainsVariable_def outcome_find)
qed

lemma fold_cons_filter: "fold (\<lambda>x acc. if P x then x # acc else acc) xs acc = rev (filter P xs) @ acc"
  by (induction xs arbitrary: acc) auto

lemma fold_count_filter: "fold (\<lambda>x n. if P x then n + 1 else n) xs (n::NAT) = n + of_nat (length (filter P xs))"
  by (induction xs arbitrary: n) (auto simp: algebra_simps)

lemma fold_max_filter:
  "fold (\<lambda>x m. if P x then (if f x > m then f x else m) else m) xs (m::int) = Max (insert m (f ` set (filter P xs)))"
proof -
  have "fold (\<lambda>x m. if P x then (if f x > m then f x else m) else m) xs m = fold max (map f (filter P xs)) m"
    by (induction xs arbitrary: m) (auto simp: max_def)
  also have "\<dots> = Max (set (m # map f (filter P xs)))" by (rule Max.set_eq_fold [symmetric])
  finally show ?thesis by simp
qed

lemma term_ListOfVariables_ok:
  "term_ListOfVariables t = rev (filter (\<lambda>u. leaf u \<and> term_IsVariable u) (subterms t))"
proof -
  let ?f = "\<lambda>u acc. if leaf u \<and> term_IsVariable u then u # acc else acc"
  have "term_walk (\<lambda>Variables T. if term_IsComplex T then Inr (Variables, True)
        else if term_IsVariable T then Inr (T # Variables, False) else Inr (Variables, False)) t [] []
     = (Inr (fold ?f (subterms t) []) :: TERM_NODE list + TERM_NODE list)"
    by (rule term_walk_fold) auto
  then show ?thesis by (simp add: term_ListOfVariables_def fold_cons_filter)
qed

lemma term_NumberOfVarOccs_ok:
  "term_NumberOfVarOccs t = of_nat (length (filter (\<lambda>u. leaf u \<and> term_IsVariable u) (subterms t)))"
proof -
  let ?f = "\<lambda>u n. if leaf u \<and> term_IsVariable u then n + 1 else (n::NAT)"
  have "term_walk (\<lambda>Result T. if term_IsComplex T then Inr (Result, True)
        else if symbol_IsVariable (term_TopSymbol T) then Inr (Result + 1, False) else Inr (Result, False)) t [] 0
     = (Inr (fold ?f (subterms t) 0) :: NAT + NAT)"
    by (rule term_walk_fold) (auto simp: term_IsVariable_def)
  then show ?thesis by (simp add: term_NumberOfVarOccs_def fold_count_filter)
qed

text \<open>A variable has no arguments.\<close>

definition var_leaf :: "TERM_NODE \<Rightarrow> bool" where
  "var_leaf t \<longleftrightarrow> (\<forall>u \<in> set (subterms t). term_IsVariable u \<longrightarrow> leaf u)"

lemma term_MaxVar_ok:
  assumes "var_leaf t"
  shows "term_MaxVar t = Max (insert 0 (term_TopSymbol ` set (filter term_IsStandardVariable (subterms t))))"
proof -
  let ?f = "\<lambda>u m. if term_IsStandardVariable u then (if term_TopSymbol u > m then term_TopSymbol u else m) else m"
  have "term_walk (\<lambda>Result T. if term_IsStandardVariable T
        then Inr (if term_TopSymbol T > Result then term_TopSymbol T else Result, False)
        else Inr (Result, term_IsComplex T)) t [] 0 = (Inr (fold ?f (subterms t) 0) :: SYMBOL + SYMBOL)"
    using assms
    by (intro term_walk_fold)
      (auto simp: var_leaf_def term_IsVariable_def term_IsStandardVariable_def symbol_IsStandardVariable_def)
  then show ?thesis by (simp add: term_MaxVar_def fold_max_filter)
qed

text \<open>The two ways to collect atoms: the same atoms, in opposite orders.\<close>

lemma foldl_append: "foldl (\<lambda>r l. r @ l) xs ls = xs @ concat ls"
  by (induction ls arbitrary: xs) auto

lemma foldl_append_front: "foldl (\<lambda>r l. l @ r) xs ls = concat (rev ls) @ xs"
  by (induction ls arbitrary: xs) auto

lemma term_ListOfAtoms_eq:
  "term_ListOfAtoms t P = (if term_TopSymbol t = P then [t]
     else concat (map (\<lambda>u. term_ListOfAtoms u P) (term_ArgumentList t)))"
  by (cases t) (simp add: symbol_Equal_def foldl_append)

lemma term_FindAllAtoms_ok: "term_FindAllAtoms t P = rev (term_ListOfAtoms t P)"
proof -
  let ?v = "\<lambda>Result T. if term_TopSymbol T = P then Inr (T # Result, False) else Inr (Result, term_IsComplex T)"
  have "term_visits ?v ts Result
      = (Inr (rev (concat (map (\<lambda>u. term_ListOfAtoms u P) ts)) @ Result) :: TERM_NODE list + TERM_NODE list)" for ts Result
  proof (induction ts arbitrary: Result rule: term_list_induct)
    case (Cons t ts)
    then show ?case
      by (cases "term_TopSymbol t = P")
        (auto simp: term_ListOfAtoms_eq [of t] leaf_def term_visits_append)
  qed simp
  from this [of "[t]" "[]"] show ?thesis by (simp add: term_FindAllAtoms_def term_walk_visits)
qed

section \<open>Sizes and depth\<close>

lemma foldl_add_word: "foldl (\<lambda>w v. w + v) (a::NAT) ws = a + sum_list ws"
  by (induction ws arbitrary: a) (auto simp: algebra_simps)

lemma term_ComputeSize_ok: "term_ComputeSize t = of_nat (nodes t)"
proof (induction t rule: term_ComputeSize.induct)
  case (1 s ts st sz)
  have "sum_list (map term_ComputeSize ts) = sum_list (map (\<lambda>t. of_nat (nodes t)) ts)"
    by (intro arg_cong [where f = sum_list] map_cong) (simp_all add: 1)
  also have "\<dots> = (of_nat (sum_list (map nodes ts)) :: NAT)" by (induction ts) auto
  finally show ?case by (simp add: foldl_add_word)
qed

lemma foldl_sizes: "foldl (\<lambda>Weight t. Weight + term_Size t) a ts = a + sum_list (map term_Size ts)"
  by (induction ts arbitrary: a) (auto simp: algebra_simps)

lemma term_InstallSize_ok:
  "erase (term_InstallSize t) = erase t
   \<and> (\<forall>u \<in> set (subterms (term_InstallSize t)). term_Size u = of_nat (nodes u))"
proof (induction t rule: term_InstallSize.induct)
  case (1 s ts st sz)
  let ?ts = "map term_InstallSize ts"
  have n: "nodes u = nodes (erase u)" for u
  proof (induction u rule: nodes.induct)
    case (1 s ts st sz)
    have "sum_list (map nodes ts) = sum_list (map (nodes \<circ> erase) ts)"
      by (intro arg_cong [where f = sum_list] map_cong) (simp_all add: 1)
    then show ?case by simp
  qed
  have e: "map erase ?ts = map erase ts" using 1 by simp
  have "term_Size (term_InstallSize t) = of_nat (nodes (term_InstallSize t))" if "t \<in> set ts" for t
    using 1 [OF that] by (subst (asm) subterms_eq) simp
  then have "sum_list (map term_Size ?ts) = sum_list (map (\<lambda>u. of_nat (nodes u)) ?ts)"
    by (intro arg_cong [where f = sum_list] map_cong) auto
  also have "\<dots> = (of_nat (sum_list (map nodes ?ts)) :: NAT)" by (induction ts) auto
  finally have sz: "foldl (\<lambda>Weight t. Weight + term_Size t) 1 ?ts = of_nat (1 + sum_list (map nodes ?ts))"
    by (simp add: foldl_sizes)
  have i: "term_InstallSize (term_Node s ts st sz) = term_Node s ?ts st (of_nat (1 + sum_list (map nodes ?ts)))"
    using sz by (simp add: Let_def term_SetSize_def)
  show ?case unfolding i using e 1 by auto
qed

fun depth :: "TERM_NODE \<Rightarrow> nat" where
  "depth (term_Node s ts st sz) = Suc (fold max (map depth ts) 0)"

lemma fold_max_le: "fold max xs (m::nat) \<le> m + sum_list xs"
proof (induction xs arbitrary: m)
  case (Cons a xs)
  have "fold max xs (max a m) \<le> max a m + sum_list xs" by (rule Cons)
  moreover have "max a m \<le> a + m" by simp
  ultimately have "fold max xs (max a m) \<le> m + (a + sum_list xs)" by linarith
  then show ?case by simp
qed simp

lemma depth_le_nodes: "depth t \<le> nodes t"
proof (induction t rule: depth.induct)
  case (1 s ts st sz)
  have "fold max (map depth ts) 0 \<le> sum_list (map depth ts)" using fold_max_le [of _ 0] by simp
  also have "\<dots> \<le> sum_list (map nodes ts)" using 1 by (intro sum_list_mono) simp
  finally show ?case by simp
qed

lemma fold_max_word:
  assumes "\<forall>n \<in> set ns. n < 2 ^ 32" "m < 2 ^ 32"
  shows "foldl (\<lambda>Depth Help. if Help > Depth then Help else Depth) (of_nat m :: NAT) (map of_nat ns) = of_nat (fold max ns m)"
  using assms
proof (induction ns arbitrary: m)
  case (Cons n ns)
  have "(of_nat m :: NAT) < of_nat n \<longleftrightarrow> m < n"
    using Cons(2,3) by (simp add: word_less_nat_alt unat_of_nat take_bit_nat_eq_self)
  then show ?case using Cons by (simp add: max_def)
qed simp

lemma term_Depth_ok: "nodes t < 2 ^ 32 \<Longrightarrow> unat (term_Depth t) = depth t"
proof -
  have "nodes t < 2 ^ 32 \<Longrightarrow> term_Depth t = of_nat (depth t)"
  proof (induction t rule: term_Depth.induct)
    case (1 s ts st sz)
    have le: "nodes t \<le> sum_list (map nodes ts)" if "t \<in> set ts" for t using that by (simp add: member_le_sum_list)
    have lt: "nodes t < 2 ^ 32" if "t \<in> set ts" for t using le [OF that] 1(2) by simp
    have m: "map term_Depth ts = map of_nat (map depth ts)" using 1(1) lt by simp
    have "\<forall>n \<in> set (map depth ts). n < 2 ^ 32" using lt depth_le_nodes by (auto intro: le_less_trans)
    then have "foldl (\<lambda>Depth Help. if Help > Depth then Help else Depth) 0 (map term_Depth ts) = of_nat (fold max (map depth ts) 0)"
      unfolding m using fold_max_word [of "map depth ts" 0] by simp
    then show ?case unfolding term_Depth.simps depth.simps by simp
  qed
  moreover assume "nodes t < 2 ^ 32"
  moreover have "depth t < 2 ^ 32" using depth_le_nodes [of t] \<open>nodes t < 2 ^ 32\<close> by simp
  ultimately show ?thesis by (simp add: unat_of_nat take_bit_nat_eq_self)
qed

section \<open>Well-formed terms\<close>

text \<open>\<open>term_CheckTermIntern\<close> without its second part, the links to the superterms.\<close>

fun term_CheckTermIntern :: "symbol_table \<Rightarrow> TERM_NODE \<Rightarrow> bool" where
  "term_CheckTermIntern st (term_Node s ts stamp sz) =
     (if \<not> term_IsTerm (term_Node s ts stamp sz) st then False
      else if symbol_IsSignature s \<and> symbol_Arity st s \<noteq> -1 \<and> symbol_Arity st s \<noteq> int (length ts) then False
      else if symbol_IsVariable s \<and> ts \<noteq> [] then False
      else list_all (term_CheckTermIntern st) ts)"

lemma term_IsTerm_top: "term_IsTerm t st \<longleftrightarrow> symbol_IsSymbol (term_TopSymbol t) st"
  by (simp add: term_IsTerm_def)

lemma CheckTerm_var_leaf: "term_CheckTermIntern st t \<Longrightarrow> var_leaf t"
proof (induction t rule: subterms.induct)
  case (1 s ts stamp sz)
  then show ?case
    by (auto simp: var_leaf_def term_IsVariable_def leaf_def list_all_iff split: if_splits)
qed

lemma CheckTerm_erase: "term_CheckTermIntern st (erase t) = term_CheckTermIntern st t"
proof (induction t rule: subterms.induct)
  case (1 s ts stamp sz)
  have "list_all (term_CheckTermIntern st) (map erase ts) = list_all (term_CheckTermIntern st) ts"
    using 1 by (auto simp: list_all_iff)
  then show ?case by (simp add: term_IsTerm_top)
qed

lemma CheckTerm_Rplac:
  "term_CheckTermIntern st (term_Node s ts stamp sz) \<Longrightarrow> length us = length ts \<Longrightarrow> list_all (term_CheckTermIntern st) us
     \<Longrightarrow> term_CheckTermIntern st (term_Node s us stamp' sz')"
  by (auto simp: term_IsTerm_top split: if_splits)

lemma CheckTerm_fields: "term_CheckTermIntern st R \<Longrightarrow> term_CheckTermIntern st (term_Node (term_TopSymbol R) (term_ArgumentList R) stamp sz)"
  by (cases R) (auto simp: term_IsTerm_top split: if_splits)

lemma CheckTerm_ReplaceVariable:
  "term_CheckTermIntern st t \<Longrightarrow> term_CheckTermIntern st R \<Longrightarrow> term_CheckTermIntern st (term_ReplaceVariable t V R)"
proof (induction t V R rule: term_ReplaceVariable.induct)
  case (1 s ts stamp sz V R)
  show ?case
  proof (cases "s = V")
    case True
    then show ?thesis using CheckTerm_fields [OF 1(3)]
      by (simp add: symbol_Equal_def term_node_defs map_idI del: term_CheckTermIntern.simps)
  next
    case False
    have "list_all (term_CheckTermIntern st) (map (\<lambda>t. term_ReplaceVariable t V R) ts)"
      using 1 False by (auto simp: list_all_iff symbol_Equal_def split: if_splits)
    then show ?thesis using CheckTerm_Rplac [OF 1(2)] False
      by (simp add: symbol_Equal_def term_node_defs del: term_CheckTermIntern.simps)
  qed
qed

lemma CheckTerm_SubstituteVariable:
  "term_CheckTermIntern st t \<Longrightarrow> term_CheckTermIntern st R \<Longrightarrow> term_CheckTermIntern st (snd (term_SubstituteVariable V R t))"
proof (induction V R t rule: term_SubstituteVariable.induct)
  case (1 V R s ts stamp sz)
  show ?case
  proof (cases "s = V")
    case True
    then show ?thesis using CheckTerm_fields [OF 1(3)]
      by (simp add: symbol_Equal_def term_node_defs map_idI del: term_CheckTermIntern.simps)
  next
    case False
    have "list_all (term_CheckTermIntern st) (map (snd \<circ> term_SubstituteVariable V R) ts)"
      using 1 False by (auto simp: list_all_iff symbol_Equal_def split: if_splits)
    then show ?thesis using CheckTerm_Rplac [OF 1(2)] False
      by (simp add: symbol_Equal_def term_node_defs del: term_CheckTermIntern.simps)
  qed
qed

lemma CheckTerm_replace_top:
  "term_CheckTermIntern st t \<Longrightarrow> term_CheckTermIntern st R \<Longrightarrow> term_CheckTermIntern st (replace_top S R t)"
proof (induction S R t rule: replace_top.induct)
  case (1 S R s ts stamp sz)
  show ?case
  proof (cases "term_Equal (term_Node s ts stamp sz) S")
    case True
    then show ?thesis using 1(3) by simp
  next
    case False
    have "list_all (term_CheckTermIntern st) (map (replace_top S R) ts)"
      using 1 False by (auto simp: list_all_iff split: if_splits)
    then show ?thesis using CheckTerm_Rplac [OF 1(2)] False by (simp del: term_CheckTermIntern.simps)
  qed
qed

lemma CheckTerm_ExchangeVariable:
  "term_CheckTermIntern st t \<Longrightarrow> symbol_IsVariable Old \<Longrightarrow> symbol_IsVariable New \<Longrightarrow> symbol_IsSymbol New st
     \<Longrightarrow> term_CheckTermIntern st (term_ExchangeVariable t Old New)"
proof (induction t Old New rule: term_ExchangeVariable.induct)
  case (1 s ts stamp sz Old New)
  show ?case
  proof (cases "s = Old")
    case True
    then have "ts = []" using 1(2,3) by (auto split: if_splits)
    then show ?thesis using True 1(4,5)
      by (simp add: symbol_Equal_def term_node_defs term_IsTerm_top symbol_IsVariable_def symbol_IsSignature_def)
  next
    case False
    have "list_all (term_CheckTermIntern st) (map (\<lambda>t. term_ExchangeVariable t Old New) ts)"
      using 1 False by (auto simp: list_all_iff symbol_Equal_def split: if_splits)
    then show ?thesis using CheckTerm_Rplac [OF 1(2)] False
      by (simp add: symbol_Equal_def term_node_defs del: term_CheckTermIntern.simps)
  qed
qed

lemma CheckTerm_ReplaceSubtermBy:
  assumes "term_CheckTermIntern st t" "term_CheckTermIntern st T"
  shows "term_CheckTermIntern st (snd (term_ReplaceSubtermBy t S T))"
proof (cases "term_Equal t S")
  case True
  then show ?thesis using assms by (simp add: term_ReplaceSubtermBy_def)
next
  case False
  then show ?thesis using CheckTerm_replace_top [OF assms] by (simp add: term_ReplaceSubtermBy_ok)
qed

lemma CheckTerm_InstallSize: "term_CheckTermIntern st t \<Longrightarrow> term_CheckTermIntern st (term_InstallSize t)"
  using term_InstallSize_ok [of t] CheckTerm_erase by metis

lemma subterms_erase: "subterms (erase t) = map erase (subterms t)"
proof (induction t rule: subterms.induct)
  case (1 s ts stamp sz)
  then show ?case by (simp add: map_concat comp_def cong: map_cong)
qed

section \<open>Properties\<close>

text \<open>C30: \<open>term_EqualIterative\<close>, with its two stacks, never reads an empty stack and decides equality of
  terms as trees for all terms. \<open>term_Equal\<close> agrees with it if every symbol has one number of
  arguments in the two terms; without that it is not even symmetric, since it ignores the arguments of
  the second term when the first has none.\<close>

theorem term_Equal_correct:
  "term_EqualIterative t u = Some (erase t = erase u)
   \<and> (arity_ok ar t \<and> arity_ok ar u \<longrightarrow> term_EqualIterative t u = Some (term_Equal t u))
   \<and> (\<exists>v w. term_Equal v w \<and> \<not> term_Equal w v)"
proof -
  have "term_Equal (term_Create (-3) []) (term_Create (-3) [term_Create 1 []])
      \<and> \<not> term_Equal (term_Create (-3) [term_Create 1 []]) (term_Create (-3) [])"
    by (simp add: term_Create_def symbol_Equal_def)
  then have "\<exists>v w. term_Equal v w \<and> \<not> term_Equal w v" by blast
  then show ?thesis using term_Equal_ok(1) [of ar t u] by (simp add: term_EqualIterative_ok)
qed

theorem term_Equal_correct_witness:
  "term_EqualIterative (term_Node (-9) [term_Node 1 [] 5 0] 0 0) (term_Node (-9) [term_Node 1 [] 0 0] 0 2) = Some True"
proof -
  let ?ar = "\<lambda>s. if s = -9 then 1 else 0 :: nat"
  have "arity_ok ?ar (term_Node (-9) [term_Node 1 [] 5 0] 0 0)" "arity_ok ?ar (term_Node (-9) [term_Node 1 [] 0 0] 0 2)"
    by (simp_all add: arity_ok_simp)
  then have "term_EqualIterative (term_Node (-9) [term_Node 1 [] 5 0] 0 0) (term_Node (-9) [term_Node 1 [] 0 0] 0 2)
      = Some (term_Equal (term_Node (-9) [term_Node 1 [] 5 0] 0 0) (term_Node (-9) [term_Node 1 [] 0 0] 0 2))"
    using term_Equal_correct [of _ _ ?ar] by blast
  then show ?thesis by (simp add: symbol_Equal_def)
qed

text \<open>C31: the walks with an explicit stack visit the subterms of a term from the top down and from left to
  right: the tests and searches answer for all of them, the lists hold the variables and the atoms
  in reverse order of visit, the count is their number modulo \<open>2^32\<close>, and the copy is the term
  without stamps and sizes.\<close>

theorem term_walks_correct:
  "(term_IsGround t \<longleftrightarrow> filter (\<lambda>u. leaf u \<and> term_IsVariable u) (subterms t) = [])
   \<and> (term_ContainsSymbol t S \<longleftrightarrow> (\<exists>u. u \<in> set (subterms t) \<and> term_TopSymbol u = S))
   \<and> term_FindSubterm t S = find (\<lambda>u. term_TopSymbol u = S) (subterms t)
   \<and> (term_ContainsVariable t S \<longleftrightarrow> (\<exists>u. u \<in> set (subterms t) \<and> leaf u \<and> term_TopSymbol u = S))
   \<and> (term_ContainsFunctions t \<longleftrightarrow> (\<exists>u. u \<in> set (subterms t) \<and> \<not> leaf u
        \<and> symbol_IsFunction (term_TopSymbol u) \<and> \<not> symbol_IsConstant (term_TopSymbol u)))
   \<and> term_ListOfVariables t = rev (filter (\<lambda>u. leaf u \<and> term_IsVariable u) (subterms t))
   \<and> term_NumberOfVarOccs t = of_nat (length (term_ListOfVariables t))
   \<and> term_FindAllAtoms t S = rev (term_ListOfAtoms t S)
   \<and> term_CopyIterative t = erase t"
  by (auto simp: term_IsGround_ok term_ContainsSymbol_ok term_FindSubterm_ok term_ContainsVariable_ok
      term_ContainsFunctions_ok term_ListOfVariables_ok term_NumberOfVarOccs_ok term_FindAllAtoms_ok
      term_CopyIterative_ok filter_empty_conv)

lemma CheckTerm_EqualitySwap: "term_CheckTermIntern st t \<Longrightarrow> term_EqualitySwap t = Some t' \<Longrightarrow> term_CheckTermIntern st t'"
proof (cases t)
  case (term_Node s ts stamp sz)
  assume t: "term_CheckTermIntern st t" "term_EqualitySwap t = Some t'"
  then obtain a b rest where ts: "ts = a # b # rest" "t' = term_Node s (b # a # rest) stamp sz"
    using term_Node by (auto simp: term_EqualitySwap_def term_RplacArgumentList_def split: list.splits)
  have args: "list_all (term_CheckTermIntern st) ts" using t(1) term_Node by (simp split: if_splits)
  show ?thesis unfolding ts(2)
    by (rule CheckTerm_Rplac [OF t(1) [unfolded term_Node]]) (use args ts(1) in simp_all)
qed

text \<open>C32: replacement of a variable by a term (in both versions), exchange of a variable for another, replacement of
  subterms, the swap of the sides of an equation, copies and the installation of sizes keep a term well
  formed, when what is put in is well formed: the symbols are in the table, the numbers of arguments fit
  the arities that the table fixes, and variables have none. The size installed at every node of the term
  is the number of symbols below it, modulo \<open>2^32\<close>, and at the root what \<open>term_ComputeSize\<close> gives.\<close>

theorem term_CheckTerm_preserved:
  assumes "term_CheckTermIntern st t" "term_CheckTermIntern st R" "symbol_IsVariable V" "symbol_IsVariable W" "symbol_IsSymbol W st"
  shows "term_CheckTermIntern st (term_ReplaceVariable t V R) \<and> term_CheckTermIntern st (snd (term_SubstituteVariable V R t))
    \<and> term_CheckTermIntern st (term_ExchangeVariable t V W) \<and> term_CheckTermIntern st (snd (term_ReplaceSubtermBy t S R))
    \<and> (\<forall>t'. term_EqualitySwap t = Some t' \<longrightarrow> term_CheckTermIntern st t')
    \<and> term_CheckTermIntern st (term_CopyIterative t) \<and> term_CheckTermIntern st (term_InstallSize t)
    \<and> erase (term_InstallSize t) = erase t \<and> (\<forall>u \<in> set (subterms (term_InstallSize t)). term_Size u = of_nat (nodes u))
    \<and> term_Size (term_InstallSize t) = term_ComputeSize t"
proof -
  have "nodes (term_InstallSize t) = nodes t"
    using term_InstallSize_ok [of t] length_subterms [of t] length_subterms [of "term_InstallSize t"]
    by (metis length_map subterms_erase)
  moreover have "term_Size (term_InstallSize t) = of_nat (nodes (term_InstallSize t))"
    using term_InstallSize_ok [of t] subterms_eq [of "term_InstallSize t"] by (metis list.set_intros(1))
  ultimately have "term_Size (term_InstallSize t) = term_ComputeSize t" by (simp add: term_ComputeSize_ok)
  moreover have "term_CheckTermIntern st (term_CopyIterative t)" using assms(1) by (simp add: CheckTerm_erase term_CopyIterative_ok)
  ultimately show ?thesis
    using CheckTerm_ReplaceVariable [OF assms(1,2)] CheckTerm_SubstituteVariable [OF assms(1,2)]
      CheckTerm_ExchangeVariable [OF assms(1,3-5)] CheckTerm_ReplaceSubtermBy [OF assms(1,2)]
      CheckTerm_EqualitySwap [OF assms(1)] CheckTerm_InstallSize [OF assms(1)] term_InstallSize_ok [of t] by blast
qed

text \<open>A table with one function symbol of arity 1.\<close>

definition one_symbol :: symbol_table where
  "one_symbol = (symbol_Init True)\<lparr>symbol_SIGNATURE := [1 \<mapsto> new_entry ''f'' 1 (-9)], symbol_ACTINDEX := 2\<rparr>"

theorem term_CheckTerm_preserved_witness:
  "term_CheckTermIntern one_symbol (term_ReplaceVariable (term_Create (-9) [term_Create 1 []]) 1 (term_Create (-9) [term_Create 2 []]))"
proof -
  have "term_CheckTermIntern one_symbol (term_Create (-9) [term_Create 1 []])"
    "term_CheckTermIntern one_symbol (term_Create (-9) [term_Create 2 []])"
    "symbol_IsVariable 1" "symbol_IsVariable 2" "symbol_IsSymbol 2 one_symbol" by code_simp+
  from term_CheckTerm_preserved [OF this] show ?thesis by simp
qed

end
