(* ===== verification/Spass_Term_Marks.thy ===== *)
theory Spass_Term_Marks
  imports Spass_Term
begin

text \<open>
  The state of the term module (\<open>term.h\<close>, \<open>term.c\<close>): the marks and values of variables with the
  functions that collect and rename variables, and the stamps.

  \<open>term_BIND\<close> is an array of pairs, indexed by variables below \<open>symbol_MAXVARIABLES\<close>; here it is two
  functions. The counter of the standard variables belongs to the symbol module and is kept beside
  it. As in the code without \<open>CHECK\<close>, no function tests its input.
\<close>

section \<open>Marks\<close>

record term_state =
  term_MARK :: NAT
  term_BIND_mark :: "SYMBOL \<Rightarrow> NAT"
  term_BIND_value :: "SYMBOL \<Rightarrow> int"
  symbol_STANDARDVARCOUNTER :: SYMBOL
  term_STAMP :: NAT
  term_STAMPOVERFLOW :: "nat \<Rightarrow> bool"
  term_STAMPUSERS :: NAT

definition NAT_MAX :: NAT where "NAT_MAX = - 1"
definition term_MAXSTAMPUSERS :: nat where "term_MAXSTAMPUSERS = 20"
definition symbol_GetInitialStandardVarCounter :: SYMBOL where "symbol_GetInitialStandardVarCounter = 0"

definition term_Init :: "term_state \<Rightarrow> term_state" where
  "term_Init s = s\<lparr>term_MARK := 1, term_STAMP := 0,
     term_STAMPOVERFLOW := (\<lambda>i. if i < term_MAXSTAMPUSERS then False else term_STAMPOVERFLOW s i),
     term_STAMPUSERS := 0\<rparr>"

definition term_NullMark :: NAT where "term_NullMark = 0"

definition symbol_VarIndex :: "SYMBOL \<Rightarrow> int" where "symbol_VarIndex ActSymbol = ActSymbol"

definition term_BindingMark :: "SYMBOL \<Rightarrow> term_state \<Rightarrow> NAT" where
  "term_BindingMark Var s = term_BIND_mark s (symbol_VarIndex Var)"

definition term_SetBindingMark :: "SYMBOL \<Rightarrow> NAT \<Rightarrow> term_state \<Rightarrow> term_state" where
  "term_SetBindingMark Var Mark s = s\<lparr>term_BIND_mark := (term_BIND_mark s)(symbol_VarIndex Var := Mark)\<rparr>"

definition term_BindingValue :: "SYMBOL \<Rightarrow> term_state \<Rightarrow> int" where
  "term_BindingValue Var s = term_BIND_value s (symbol_VarIndex Var)"

definition term_SetBindingValue :: "SYMBOL \<Rightarrow> int \<Rightarrow> term_state \<Rightarrow> term_state" where
  "term_SetBindingValue Var Value s = s\<lparr>term_BIND_value := (term_BIND_value s)(symbol_VarIndex Var := Value)\<rparr>"

definition term_CreateBinding :: "SYMBOL \<Rightarrow> NAT \<Rightarrow> term_state \<Rightarrow> term_state" where
  "term_CreateBinding Var Mark s = term_SetBindingMark Var Mark s"

definition term_ClearBinding :: "SYMBOL \<Rightarrow> term_state \<Rightarrow> term_state" where
  "term_ClearBinding Var s = term_SetBindingMark Var term_NullMark s"

definition term_CreateValueBinding :: "SYMBOL \<Rightarrow> NAT \<Rightarrow> int \<Rightarrow> term_state \<Rightarrow> term_state" where
  "term_CreateValueBinding Var Mark Value s = term_SetBindingValue Var Value (term_SetBindingMark Var Mark s)"

definition term_VarIsMarked :: "SYMBOL \<Rightarrow> NAT \<Rightarrow> term_state \<Rightarrow> bool" where
  "term_VarIsMarked Var Mark s \<longleftrightarrow> term_BindingMark Var s \<ge> Mark"

text \<open>The loop that clears all marks when the counter overflows, as part of \<open>term_ActMark\<close> and
  \<open>term_NewMark\<close>.\<close>

definition clear_marks :: "term_state \<Rightarrow> term_state" where
  "clear_marks s =
     (if term_MARK s = NAT_MAX
      then s\<lparr>term_BIND_mark := (\<lambda>i. if 0 \<le> i \<and> i < symbol_MAXVARIABLES then term_NullMark else term_BIND_mark s i),
             term_MARK := 1\<rparr>
      else s)"

definition term_ActMark :: "term_state \<Rightarrow> NAT \<times> term_state" where
  "term_ActMark s = (let s = clear_marks s; MarkVar = term_MARK s in (MarkVar, s\<lparr>term_MARK := term_MARK s + 1\<rparr>))"

definition term_NewMark :: "term_state \<Rightarrow> term_state" where
  "term_NewMark s = (let s = clear_marks s in s\<lparr>term_MARK := term_MARK s + 1\<rparr>)"

definition term_OldMark :: "term_state \<Rightarrow> NAT" where
  "term_OldMark s = term_MARK s - 1"

section \<open>Collecting and renaming variables\<close>

definition symbol_CreateStandardVariable :: "term_state \<Rightarrow> SYMBOL \<times> term_state" where
  "symbol_CreateStandardVariable s =
     (symbol_STANDARDVARCOUNTER s + 1, s\<lparr>symbol_STANDARDVARCOUNTER := symbol_STANDARDVARCOUNTER s + 1\<rparr>)"

definition symbol_SetStandardVarCounter :: "SYMBOL \<Rightarrow> term_state \<Rightarrow> term_state" where
  "symbol_SetStandardVarCounter Variable s = s\<lparr>symbol_STANDARDVARCOUNTER := Variable\<rparr>"

definition symbol_ResetStandardVarCounter :: "term_state \<Rightarrow> term_state" where
  "symbol_ResetStandardVarCounter s = s\<lparr>symbol_STANDARDVARCOUNTER := symbol_GetInitialStandardVarCounter\<rparr>"

definition term_CreateStandardVariable :: "term_state \<Rightarrow> TERM_NODE \<times> term_state" where
  "term_CreateStandardVariable s = (case symbol_CreateStandardVariable s of (V, s) \<Rightarrow> (term_Create V [], s))"

definition term_MarkVariables :: "TERM_NODE \<Rightarrow> NAT \<Rightarrow> term_state \<Rightarrow> term_state" where
  "term_MarkVariables Term Mark s =
     outcome (term_walk (\<lambda>s T. if term_IsComplex T then Inr (s, True)
                               else if term_IsVariable T then Inr (term_CreateBinding (term_TopSymbol T) Mark s, False)
                               else Inr (s, False)) Term [] s)"

definition term_VariableSymbols :: "TERM_NODE \<Rightarrow> term_state \<Rightarrow> SYMBOL list \<times> term_state" where
  "term_VariableSymbols Term s =
     (case term_ActMark s of
        (ActMark, s) \<Rightarrow>
          outcome (term_walk (\<lambda>(Variables, s) T.
            if term_IsComplex T then Inr ((Variables, s), True)
            else let Top = term_TopSymbol T in
              if symbol_IsVariable Top \<and> \<not> term_VarIsMarked Top ActMark s
              then Inr ((Top # Variables, term_CreateBinding Top ActMark s), False)
              else Inr ((Variables, s), False)) Term [] ([], s)))"

definition term_StartMinRenaming :: "term_state \<Rightarrow> term_state" where
  "term_StartMinRenaming s = term_NewMark (symbol_ResetStandardVarCounter s)"

definition term_StartMaxRenaming :: "SYMBOL \<Rightarrow> term_state \<Rightarrow> term_state" where
  "term_StartMaxRenaming MaxVar s = term_NewMark (symbol_SetStandardVarCounter MaxVar s)"

definition rename_visit :: "NAT \<Rightarrow> term_state \<Rightarrow> TERM_NODE \<Rightarrow> term_state \<times> TERM_NODE \<times> bool" where
  "rename_visit ActMark s T =
     (if term_IsComplex T then (s, T, True)
      else let Top = term_TopSymbol T in
        if symbol_IsVariable Top then
          let s = (if \<not> term_VarIsMarked Top ActMark s
                   then (case symbol_CreateStandardVariable s of (V, s) \<Rightarrow> term_CreateValueBinding Top ActMark V s)
                   else s)
          in (s, term_RplacTop T (term_BindingValue Top s), False)
        else (s, T, False))"

definition term_Rename :: "TERM_NODE \<Rightarrow> term_state \<Rightarrow> term_state \<times> TERM_NODE" where
  "term_Rename Term s = term_edit (rename_visit (term_OldMark s)) Term s"

definition term_GetRenamedVarSymbol :: "SYMBOL \<Rightarrow> term_state \<Rightarrow> SYMBOL" where
  "term_GetRenamedVarSymbol Var s =
     (if term_VarIsMarked Var (term_OldMark s) s then term_BindingValue Var s else Var)"

text \<open>The depth is cast to a pointer and back; here the value is the number itself.\<close>

fun term_MakePseudoLinear ::
  "TERM_NODE \<Rightarrow> NAT \<Rightarrow> NAT \<Rightarrow> term_state \<Rightarrow> (SYMBOL \<times> SYMBOL) list \<times> TERM_NODE \<times> term_state"
and pseudo_linear_args ::
  "TERM_NODE list \<Rightarrow> NAT \<Rightarrow> NAT \<Rightarrow> (SYMBOL \<times> SYMBOL) list \<Rightarrow> term_state \<Rightarrow> (SYMBOL \<times> SYMBOL) list \<times> TERM_NODE list \<times> term_state"
where
  "term_MakePseudoLinear (term_Node Top ts stamp sz) Depth Mark s =
     (if ts \<noteq> [] then
        (case pseudo_linear_args ts Depth Mark [] s of
           (Result, ts, s) \<Rightarrow> (Result, term_Node Top ts stamp sz, s))
      else if symbol_IsVariable Top then
        if term_VarIsMarked Top Mark s then
          (case (if uint Depth \<noteq> term_BindingValue Top s
                 then (case symbol_CreateStandardVariable s of (V, s) \<Rightarrow> (term_RplacTop (term_Node Top ts stamp sz) V, s))
                 else (term_Node Top ts stamp sz, s)) of
             (Term, s) \<Rightarrow> ([(Top, term_TopSymbol Term)], Term, s))
        else ([], term_Node Top ts stamp sz, term_CreateValueBinding Top Mark (uint Depth) s)
      else ([], term_Node Top ts stamp sz, s))"
| "pseudo_linear_args [] Depth Mark Result s = (Result, [], s)"
| "pseudo_linear_args (t # ts) Depth Mark Result s =
     (case term_MakePseudoLinear t (Depth + 1) Mark s of
        (l, t, s) \<Rightarrow> (case pseudo_linear_args ts Depth Mark (l @ Result) s of
          (Result, ts, s) \<Rightarrow> (Result, t # ts, s)))"

definition term_RenamePseudoLinear :: "TERM_NODE \<Rightarrow> SYMBOL \<Rightarrow> term_state \<Rightarrow> (SYMBOL \<times> SYMBOL) list \<times> TERM_NODE \<times> term_state" where
  "term_RenamePseudoLinear Term Var s =
     (case term_ActMark (term_NewMark (symbol_SetStandardVarCounter Var s)) of
        (Mark, s) \<Rightarrow> term_MakePseudoLinear Term 0 Mark s)"

section \<open>Stamps\<close>

text \<open>\<open>None\<close>: the program reports an error and ends.\<close>

definition term_GetStampID :: "term_state \<Rightarrow> (NAT \<times> term_state) option" where
  "term_GetStampID s =
     (if unat (term_STAMPUSERS s) \<ge> term_MAXSTAMPUSERS then None
      else Some (term_STAMPUSERS s, s\<lparr>term_STAMPUSERS := term_STAMPUSERS s + 1\<rparr>))"

definition term_StartStamp :: "term_state \<Rightarrow> term_state" where
  "term_StartStamp s = s\<lparr>term_STAMP := term_STAMP s + 1\<rparr>"

definition term_StampOverflow :: "nat \<Rightarrow> term_state \<Rightarrow> bool \<times> term_state" where
  "term_StampOverflow ID s =
     (if term_STAMP s = NAT_MAX then
        (True, s\<lparr>term_STAMP := 0,
                term_STAMPOVERFLOW := (\<lambda>i. if i < term_MAXSTAMPUSERS then True else term_STAMPOVERFLOW s i)(ID := False)\<rparr>)
      else if term_STAMPOVERFLOW s ID then
        (True, s\<lparr>term_STAMPOVERFLOW := (term_STAMPOVERFLOW s)(ID := False)\<rparr>)
      else (False, s))"

definition term_SetTermStamp :: "term_state \<Rightarrow> TERM_NODE \<Rightarrow> TERM_NODE" where
  "term_SetTermStamp s T = term_Node (term_TopSymbol T) (term_ArgumentList T) (term_STAMP s) (term_Size T)"

definition term_AlreadyVisited :: "term_state \<Rightarrow> TERM_NODE \<Rightarrow> bool" where
  "term_AlreadyVisited s T \<longleftrightarrow> term_TermStamp T = term_STAMP s"

definition term_ResetTermStamp :: "TERM_NODE \<Rightarrow> TERM_NODE" where
  "term_ResetTermStamp T = term_Node (term_TopSymbol T) (term_ArgumentList T) 0 (term_Size T)"

fun term_SetTermSubtermStamp :: "term_state \<Rightarrow> TERM_NODE \<Rightarrow> TERM_NODE" where
  "term_SetTermSubtermStamp s (term_Node S ts stamp sz) =
     (let T = term_SetTermStamp s (term_Node S ts stamp sz)
      in term_RplacArgumentList T (map (term_SetTermSubtermStamp s) ts))"


section \<open>Renaming is an injective renaming\<close>

definition vars :: "TERM_NODE \<Rightarrow> SYMBOL set" where
  "vars t = {term_TopSymbol u | u. u \<in> set (subterms t) \<and> leaf u \<and> term_IsVariable u}"

fun rename_vars :: "(SYMBOL \<Rightarrow> SYMBOL) \<Rightarrow> TERM_NODE \<Rightarrow> TERM_NODE" where
  "rename_vars f (term_Node s ts stamp sz) =
     term_Node (if ts = [] \<and> symbol_IsVariable s then f s else s) (map (rename_vars f) ts) stamp sz"

lemma vars_Node: "vars (term_Node s ts stamp sz) = (if ts = [] then (if symbol_IsVariable s then {s} else {}) else \<Union> (vars ` set ts))"
  by (auto simp: vars_def leaf_def term_IsVariable_def)

lemma vars_eq: "vars t = (if leaf t then (if term_IsVariable t then {term_TopSymbol t} else {}) else \<Union> (vars ` set (term_ArgumentList t)))"
  by (cases t) (simp add: vars_Node leaf_def term_IsVariable_def)

lemma finite_vars [simp]: "finite (vars t)"
proof -
  have "vars t \<subseteq> term_TopSymbol ` set (subterms t)" by (auto simp: vars_def)
  then show ?thesis by (rule finite_subset) simp
qed

lemma rename_vars_cong: "(\<And>v. v \<in> vars t \<Longrightarrow> f v = g v) \<Longrightarrow> rename_vars f t = rename_vars g t"
proof (induction t rule: subterms.induct)
  case (1 s ts stamp sz)
  then show ?case by (cases "ts = []") (auto simp: vars_Node)
qed

lemma subterms_rename: "subterms (rename_vars f t) = map (rename_vars f) (subterms t)"
proof (induction t rule: subterms.induct)
  case (1 s ts stamp sz)
  then show ?case by (simp add: map_concat comp_def cong: map_cong)
qed

lemma rename_vars_simps [simp]:
  "term_ArgumentList (rename_vars f t) = map (rename_vars f) (term_ArgumentList t)"
  "leaf (rename_vars f t) = leaf t"
  by (cases t; simp add: leaf_def)+

text \<open>The variables bound under a mark, and the state between two bindings: their values are distinct
  and just those counted from \<open>m + 1\<close>.\<close>

definition marked :: "NAT \<Rightarrow> term_state \<Rightarrow> SYMBOL set" where
  "marked A s = {v. A \<le> term_BIND_mark s v}"

definition renaming_inv :: "NAT \<Rightarrow> int \<Rightarrow> term_state \<Rightarrow> SYMBOL set \<Rightarrow> bool" where
  "renaming_inv A m s B \<longleftrightarrow> finite B \<and> inj_on (term_BIND_value s) B \<and> m \<le> symbol_STANDARDVARCOUNTER s
     \<and> term_BIND_value s ` B = {m <.. symbol_STANDARDVARCOUNTER s}"

lemma renaming_inv_card: "renaming_inv A m s B \<Longrightarrow> symbol_STANDARDVARCOUNTER s = m + int (card B)"
proof -
  assume i: "renaming_inv A m s B"
  then have "card B = card {m <.. symbol_STANDARDVARCOUNTER s}" by (metis renaming_inv_def card_image)
  then show ?thesis using i by (simp add: renaming_inv_def)
qed

lemmas binding_defs = term_VarIsMarked_def term_BindingMark_def term_BindingValue_def symbol_VarIndex_def
  term_CreateValueBinding_def term_CreateBinding_def term_SetBindingValue_def term_SetBindingMark_def
  symbol_CreateStandardVariable_def

lemma rename_new:
  assumes "renaming_inv A m s B" "v \<notin> B"
  shows "renaming_inv A m (term_CreateValueBinding v A (symbol_STANDARDVARCOUNTER s + 1)
      (s\<lparr>symbol_STANDARDVARCOUNTER := symbol_STANDARDVARCOUNTER s + 1\<rparr>)) (insert v B)"
proof -
  have "(term_BIND_value s)(v := symbol_STANDARDVARCOUNTER s + 1) ` B = {m <.. symbol_STANDARDVARCOUNTER s}"
    using assms by (auto simp: renaming_inv_def fun_upd_def image_def)
  then show ?thesis using assms
    by (auto simp: renaming_inv_def binding_defs inj_on_fun_updI)
qed

text \<open>What a run of the renaming over a list of terms leaves unchanged and gives.\<close>

definition renamed :: "NAT \<Rightarrow> int \<Rightarrow> term_state \<Rightarrow> SYMBOL set \<Rightarrow> SYMBOL set \<Rightarrow> term_state \<Rightarrow> bool" where
  "renamed A m s B V s' \<longleftrightarrow> renaming_inv A m s' (B \<union> V) \<and> term_MARK s' = term_MARK s
     \<and> (\<forall>v. term_BIND_mark s' v = (if v \<in> V \<and> v \<notin> B then A else term_BIND_mark s v))
     \<and> (\<forall>v \<in> B. term_BIND_value s' v = term_BIND_value s v)"

lemma edit_list_rename:
  assumes "renaming_inv A m s B" "\<And>v. v \<in> U \<Longrightarrow> v \<in> B \<longleftrightarrow> A \<le> term_BIND_mark s v" "\<Union> (vars ` set ts) \<subseteq> U"
  shows "\<exists>s'. edit_list (rename_visit A) ts s = (s', map (rename_vars (term_BIND_value s')) ts)
     \<and> renamed A m s B (\<Union> (vars ` set ts)) s'"
  using assms
proof (induction ts arbitrary: s B rule: term_list_induct)
  case Nil
  then show ?case by (simp add: renamed_def)
next
  case (Cons t ts)
  note inv = Cons(3) and bound = Cons(4) and U = Cons(5)
  have "\<exists>s1. renamed A m s B (vars t) s1 \<and> (\<forall>f. (\<forall>v \<in> vars t. f v = term_BIND_value s1 v) \<longrightarrow>
     (\<forall>s2 vs. edit_list (rename_visit A) ts s1 = (s2, vs) \<longrightarrow> edit_list (rename_visit A) (t # ts) s = (s2, rename_vars f t # vs)))"
  proof (cases "leaf t")
    case False
    have "\<Union> (vars ` set (term_ArgumentList t)) = vars t" using False by (simp add: vars_eq [of t])
    with Cons(1) [OF inv bound] U obtain s1 where
      e: "edit_list (rename_visit A) (term_ArgumentList t) s = (s1, map (rename_vars (term_BIND_value s1)) (term_ArgumentList t))"
      and r: "renamed A m s B (vars t) s1" by auto
    have "edit_list (rename_visit A) (t # ts) s = (s2, rename_vars f t # vs)"
      if f: "\<forall>v \<in> vars t. f v = term_BIND_value s1 v" and ts: "edit_list (rename_visit A) ts s1 = (s2, vs)" for f s2 vs
    proof -
      have "rename_vars f t = rename_vars (term_BIND_value s1) t" by (rule rename_vars_cong) (simp add: f)
      also have "\<dots> = term_RplacArgumentList t (map (rename_vars (term_BIND_value s1)) (term_ArgumentList t))"
        using False by (cases t) (simp add: leaf_def term_RplacArgumentList_def)
      finally show ?thesis using e ts False by (simp add: rename_visit_def)
    qed
    then show ?thesis using r by blast
  next
    case True
    show ?thesis
    proof (cases "term_IsVariable t")
      case False
      have V: "vars t = {}" using True False by (simp add: vars_eq [of t])
      have "rename_vars f t = t" for f using True False by (cases t) (simp add: leaf_def term_IsVariable_def)
      then show ?thesis using True False V inv
        by (intro exI [of _ s]) (auto simp: renamed_def rename_visit_def Let_def term_IsVariable_def)
    next
      case var: True
      let ?v = "term_TopSymbol t"
      have V: "vars t = {?v}" using True var by (simp add: vars_eq [of t])
      then have vU: "?v \<in> U" using U by auto
      let ?s1 = "if A \<le> term_BIND_mark s ?v then s
        else term_CreateValueBinding ?v A (symbol_STANDARDVARCOUNTER s + 1)
          (s\<lparr>symbol_STANDARDVARCOUNTER := symbol_STANDARDVARCOUNTER s + 1\<rparr>)"
      have r: "renamed A m s B (vars t) ?s1"
        using rename_new [OF inv, of ?v] inv bound [OF vU] by (auto simp: renamed_def V insert_absorb binding_defs)
      have "rename_vars f t = term_RplacTop t (term_BIND_value ?s1 ?v)"
        if "\<forall>v \<in> vars t. f v = term_BIND_value ?s1 v" for f
        using that True var V by (cases t) (simp add: leaf_def term_IsVariable_def term_RplacTop_def)
      then have "edit_list (rename_visit A) (t # ts) s = (s2, rename_vars f t # vs)"
        if "\<forall>v \<in> vars t. f v = term_BIND_value ?s1 v" "edit_list (rename_visit A) ts ?s1 = (s2, vs)" for f s2 vs
        using that True var by (auto simp: rename_visit_def Let_def term_IsVariable_def binding_defs)
      then show ?thesis using r by blast
    qed
  qed
  then obtain s1 where r: "renamed A m s B (vars t) s1" and
    step: "\<And>f s2 vs. \<forall>v \<in> vars t. f v = term_BIND_value s1 v \<Longrightarrow> edit_list (rename_visit A) ts s1 = (s2, vs)
      \<Longrightarrow> edit_list (rename_visit A) (t # ts) s = (s2, rename_vars f t # vs)" by blast
  have i1: "renaming_inv A m s1 (B \<union> vars t)" using r by (simp add: renamed_def)
  have b1: "v \<in> B \<union> vars t \<longleftrightarrow> A \<le> term_BIND_mark s1 v" if "v \<in> U" for v
    using r bound [OF that] by (auto simp: renamed_def)
  obtain s2 where e: "edit_list (rename_visit A) ts s1 = (s2, map (rename_vars (term_BIND_value s2)) ts)"
    and r2: "renamed A m s1 (B \<union> vars t) (\<Union> (vars ` set ts)) s2" using Cons(2) [OF i1 b1] U by auto
  have "\<forall>v \<in> vars t. term_BIND_value s2 v = term_BIND_value s1 v" using r2 by (auto simp: renamed_def)
  from step [OF this e] have "edit_list (rename_visit A) (t # ts) s = (s2, map (rename_vars (term_BIND_value s2)) (t # ts))"
    by simp
  moreover have "renamed A m s B (\<Union> (vars ` set (t # ts))) s2"
    using r r2 by (auto simp: renamed_def Un_assoc)
  ultimately show ?case by blast
qed

text \<open>No mark of a variable in the array reaches the counter: true after \<open>term_Init\<close> with cleared
  marks, kept by every operation; the marks a new counter value stands for are unused.\<close>

definition in_range :: "SYMBOL \<Rightarrow> bool" where "in_range v \<longleftrightarrow> 0 \<le> v \<and> v < symbol_MAXVARIABLES"

definition marks_ok :: "term_state \<Rightarrow> bool" where
  "marks_ok s \<longleftrightarrow> 0 < term_MARK s \<and> (\<forall>v. in_range v \<longrightarrow> term_BIND_mark s v < term_MARK s)"

lemma clear_marks_ok: "marks_ok s \<Longrightarrow> marks_ok (clear_marks s) \<and> term_MARK (clear_marks s) \<noteq> NAT_MAX
   \<and> symbol_STANDARDVARCOUNTER (clear_marks s) = symbol_STANDARDVARCOUNTER s"
  by (auto simp: marks_ok_def clear_marks_def in_range_def term_NullMark_def NAT_MAX_def)

lemma word_Suc: "y \<noteq> NAT_MAX \<Longrightarrow> (y::NAT) < y + 1"
  unfolding NAT_MAX_def by (meson inc_less_eq_triv_imp not_le)

lemma NewMark_ok:
  assumes "marks_ok s"
  shows "marks_ok (term_NewMark s)" "in_range v \<Longrightarrow> term_BIND_mark (term_NewMark s) v < term_OldMark (term_NewMark s)"
    "symbol_STANDARDVARCOUNTER (term_NewMark s) = symbol_STANDARDVARCOUNTER s"
    "term_OldMark (term_NewMark s) < term_MARK (term_NewMark s)"
proof -
  let ?c = "clear_marks s"
  have c: "marks_ok ?c" "term_MARK ?c \<noteq> NAT_MAX" "symbol_STANDARDVARCOUNTER ?c = symbol_STANDARDVARCOUNTER s"
    using clear_marks_ok [OF assms] by auto
  note less = word_Suc [OF c(2)]
  have o: "term_OldMark (term_NewMark s) = term_MARK ?c" "term_BIND_mark (term_NewMark s) = term_BIND_mark ?c"
    "term_MARK (term_NewMark s) = term_MARK ?c + 1"
    by (simp_all add: term_OldMark_def term_NewMark_def Let_def)
  show "marks_ok (term_NewMark s)" using c(1) less by (auto simp: marks_ok_def o intro: less_trans)
  show "in_range v \<Longrightarrow> term_BIND_mark (term_NewMark s) v < term_OldMark (term_NewMark s)"
    using c(1) by (simp add: marks_ok_def o)
  show "symbol_STANDARDVARCOUNTER (term_NewMark s) = symbol_STANDARDVARCOUNTER s"
    using c(3) by (simp add: term_NewMark_def Let_def)
  show "term_OldMark (term_NewMark s) < term_MARK (term_NewMark s)" using less by (simp add: o)
qed

lemma vars_in_range: "\<forall>v \<in> vars t. v < symbol_MAXVARIABLES \<Longrightarrow> v \<in> vars t \<Longrightarrow> in_range v"
  by (auto simp: vars_def in_range_def term_IsVariable_def symbol_IsVariable_def)

lemma term_Rename_ok:
  assumes "marks_ok s" "\<forall>v \<in> vars t. v < symbol_MAXVARIABLES"
  shows "\<exists>s' f. term_Rename t (term_StartMaxRenaming m s) = (s', rename_vars f t)
     \<and> inj_on f (vars t) \<and> f ` vars t = {m <.. m + int (card (vars t))}
     \<and> symbol_STANDARDVARCOUNTER s' = m + int (card (vars t)) \<and> marks_ok s'
     \<and> (\<forall>v \<in> vars t. term_GetRenamedVarSymbol v s' = f v)"
proof -
  let ?s = "term_StartMaxRenaming m s"
  let ?A = "term_OldMark ?s"
  have s: "?s = term_NewMark (symbol_SetStandardVarCounter m s)" by (simp add: term_StartMaxRenaming_def)
  have "marks_ok (symbol_SetStandardVarCounter m s)" using assms(1) by (simp add: marks_ok_def symbol_SetStandardVarCounter_def)
  note new = NewMark_ok [OF this, folded s]
  have c: "symbol_STANDARDVARCOUNTER ?s = m" using new(3) by (simp add: symbol_SetStandardVarCounter_def)
  have i: "renaming_inv ?A m ?s {}" by (simp add: renaming_inv_def c)
  have b: "v \<in> {} \<longleftrightarrow> ?A \<le> term_BIND_mark ?s v" if "v \<in> vars t" for v
    using new(2) [OF vars_in_range [OF assms(2) that]] by (simp add: not_le)
  obtain s' where e: "edit_list (rename_visit ?A) [t] ?s = (s', [rename_vars (term_BIND_value s') t])"
    and r: "renamed ?A m ?s {} (vars t) s'"
    using edit_list_rename [OF i b, of "vars t" "[t]"] by auto
  have inv: "renaming_inv ?A m s' (vars t)" and M: "term_MARK s' = term_MARK ?s"
    and mk: "\<And>v. term_BIND_mark s' v = (if v \<in> vars t then ?A else term_BIND_mark ?s v)"
    using r by (auto simp: renamed_def)
  have cnt: "symbol_STANDARDVARCOUNTER s' = m + int (card (vars t))" by (rule renaming_inv_card [OF inv])
  have "marks_ok s'" using new(1,4) by (auto simp: marks_ok_def mk M)
  moreover have "\<forall>v \<in> vars t. term_GetRenamedVarSymbol v s' = term_BIND_value s' v"
    by (simp add: term_GetRenamedVarSymbol_def binding_defs mk term_OldMark_def M)
  moreover have "inj_on (term_BIND_value s') (vars t)" "term_BIND_value s' ` vars t = {m <.. m + int (card (vars t))}"
    using inv cnt by (auto simp: renaming_inv_def)
  moreover have "term_Rename t ?s = (s', rename_vars (term_BIND_value s') t)"
    using e by (simp add: term_Rename_def term_edit_list)
  ultimately show ?thesis using cnt by blast
qed

lemma ActMark_ok:
  assumes "marks_ok s"
  shows "\<exists>A s'. term_ActMark s = (A, s') \<and> marks_ok s' \<and> A < term_MARK s' \<and> (\<forall>v. in_range v \<longrightarrow> term_BIND_mark s' v < A)"
proof -
  have e: "term_ActMark s = (term_OldMark (term_NewMark s), term_NewMark s)"
    by (simp add: term_ActMark_def term_NewMark_def term_OldMark_def Let_def)
  show ?thesis unfolding e using NewMark_ok [OF assms] by auto
qed

lemma term_VariableSymbols_ok:
  assumes "marks_ok s" "\<forall>v \<in> vars t. v < symbol_MAXVARIABLES"
  shows "\<exists>vs s'. term_VariableSymbols t s = (vs, s') \<and> distinct vs \<and> set vs = vars t \<and> marks_ok s'"
proof -
  obtain A s1 where a: "term_ActMark s = (A, s1)" "marks_ok s1" "A < term_MARK s1"
    "\<And>v. in_range v \<Longrightarrow> term_BIND_mark s1 v < A" using ActMark_ok [OF assms(1)] by blast
  let ?f = "\<lambda>u (vs, s). if leaf u \<and> term_IsVariable u \<and> \<not> term_VarIsMarked (term_TopSymbol u) A s
     then (term_TopSymbol u # vs, term_CreateBinding (term_TopSymbol u) A s) else (vs, s)"
  have w: "term_VariableSymbols t s = fold ?f (subterms t) ([], s1)"
    unfolding term_VariableSymbols_def a(1)
    by (simp, subst term_walk_fold [where f = ?f]) (auto simp: term_IsVariable_def Let_def)
  have f: "\<exists>vs' s'. fold ?f us (vs, s) = (vs', s') \<and> distinct vs' \<and> marks_ok s'
       \<and> set vs' = set vs \<union> {term_TopSymbol u | u. u \<in> set us \<and> leaf u \<and> term_IsVariable u}"
    if "distinct vs" "marks_ok s" "A < term_MARK s" "\<And>v. in_range v \<Longrightarrow> v \<in> set vs \<longleftrightarrow> A \<le> term_BIND_mark s v"
      "\<And>u. u \<in> set us \<Longrightarrow> leaf u \<Longrightarrow> term_IsVariable u \<Longrightarrow> in_range (term_TopSymbol u)" for us vs s
    using that
  proof (induction us arbitrary: vs s)
    case (Cons u us)
    let ?v = "term_TopSymbol u"
    show ?case
    proof (cases "leaf u \<and> term_IsVariable u")
      case False
      then have "fold ?f (u # us) (vs, s) = fold ?f us (vs, s)" by auto
      then show ?thesis using Cons(1) [OF Cons(2-5)] Cons(6) False by auto
    next
      case True
      then have r: "in_range ?v" using Cons(6) by simp
      show ?thesis
      proof (cases "?v \<in> set vs")
        case old: True
        then have "term_VarIsMarked ?v A s" using Cons(5) [OF r] by (simp add: binding_defs)
        then have "fold ?f (u # us) (vs, s) = fold ?f us (vs, s)" by auto
        moreover have "set vs = insert ?v (set vs)" using old by auto
        ultimately show ?thesis using Cons(1) [OF Cons(2-5)] Cons(6) True by auto
      next
        case new: False
        let ?s = "term_CreateBinding ?v A s"
        have "\<not> term_VarIsMarked ?v A s" using new Cons(5) [OF r] by (simp add: binding_defs)
        then have e: "fold ?f (u # us) (vs, s) = fold ?f us (?v # vs, ?s)" using True by auto
        have 1: "distinct (?v # vs)" using new Cons(2) by simp
        have 2: "marks_ok ?s" "A < term_MARK ?s" using Cons(3,4) by (auto simp: marks_ok_def binding_defs)
        have 3: "v \<in> set (?v # vs) \<longleftrightarrow> A \<le> term_BIND_mark ?s v" if "in_range v" for v
          using Cons(5) [OF that] by (auto simp: binding_defs)
        show ?thesis unfolding e using Cons(1) [OF 1 2 3] Cons(6) True by auto
      qed
    qed
  qed auto
  have "in_range (term_TopSymbol u)" if "u \<in> set (subterms t)" "leaf u" "term_IsVariable u" for u
    using vars_in_range [OF assms(2)] that by (auto simp: vars_def)
  then show ?thesis unfolding w vars_def using f [of "[]" s1 "subterms t"] a(2-4) by (auto simp: not_le)
qed

section \<open>Properties\<close>

text \<open>C33: after \<open>term_StartMaxRenaming\<close>, \<open>term_Rename\<close> replaces the variables of a term by an injective
  renaming onto the variables numbered just above the given one, and \<open>term_GetRenamedVarSymbol\<close>
  reads this renaming; \<open>term_VariableSymbols\<close> lists each variable once. Both keep the marks below
  the counter, so that no number of calls, with an overflow of the counter or not, confuses old and
  new marks.\<close>

theorem term_Rename_correct:
  assumes "marks_ok s" "\<forall>v \<in> vars t. v < symbol_MAXVARIABLES"
  shows "(\<exists>s' f. term_Rename t (term_StartMaxRenaming m s) = (s', rename_vars f t)
       \<and> inj_on f (vars t) \<and> f ` vars t = {m <.. m + int (card (vars t))}
       \<and> symbol_STANDARDVARCOUNTER s' = m + int (card (vars t)) \<and> marks_ok s'
       \<and> (\<forall>v \<in> vars t. term_GetRenamedVarSymbol v s' = f v))
    \<and> (\<exists>vs s'. term_VariableSymbols t s = (vs, s') \<and> distinct vs \<and> set vs = vars t \<and> marks_ok s')"
  using term_Rename_ok [OF assms, of m] term_VariableSymbols_ok [OF assms] by blast

text \<open>A state whose counter is about to overflow.\<close>

definition last_mark :: term_state where
  "last_mark = \<lparr>term_MARK = NAT_MAX, term_BIND_mark = (\<lambda>v. 7), term_BIND_value = (\<lambda>v. 0), symbol_STANDARDVARCOUNTER = 0,
     term_STAMP = 0, term_STAMPOVERFLOW = (\<lambda>i. False), term_STAMPUSERS = 0\<rparr>"

theorem term_Rename_correct_witness:
  "symbol_STANDARDVARCOUNTER (fst (term_Rename (term_Create (-9) [term_Create 3 [], term_Create 5 [], term_Create 3 []])
     (term_StartMaxRenaming 10 last_mark))) = 12"
proof -
  let ?t = "term_Create (-9) [term_Create 3 [], term_Create 5 [], term_Create 3 []]"
  have v: "vars ?t = {3, 5}" by (auto simp: term_Create_def vars_Node symbol_IsVariable_def)
  have "marks_ok last_mark" by (simp add: marks_ok_def last_mark_def NAT_MAX_def word_gt_0)
  then obtain s' f where "term_Rename ?t (term_StartMaxRenaming 10 last_mark) = (s', f)"
    "symbol_STANDARDVARCOUNTER s' = 10 + int (card (vars ?t))"
    using term_Rename_correct [of last_mark ?t 10] by (auto simp: v symbol_consts)
  then show ?thesis by (simp add: v)
qed

end
