(* ===== verification/Spass_KBO.thy ===== *)
theory Spass_KBO
  imports Spass_Term
begin

text \<open>
  The Knuth-Bendix order of SPASS (\<open>kbo.c\<close>, with \<open>ord_RESULT\<close> and \<open>ord_Not\<close> of \<open>order.h\<close>, \<open>order.c\<close>):
  the comparison of two terms, first by an early exit count of variables and weights, then by
  structure. The versions below contexts are in \<open>Spass_KBO_Context\<close>.

  The array \<open>ord_VARCOUNT\<close> has the rows \<open>0 .. symbol_MAXSTANDARDVAR - 1\<close>; only its rows up to the
  greatest variable of the two terms are used, and these are reset at the start, so the model makes
  the array anew. \<open>None\<close> is an access outside the array or a null pointer that is followed, which
  happens where equal symbols have different numbers of arguments. The lemmas compare the code with a
  textbook definition of the order, show that this is a strict order that contains the subterm
  relation, and that it is total when variables are read as constants.

  Weights are summed in a C \<open>int\<close> (\<open>int32\<close>, with the wrap-around of the machine), and the weight of a
  symbol may be as great as the greatest \<open>int\<close>. The lemmas on the textbook order assume that the
  weights of the subterms fit (\<open>weights_fit\<close>); \<open>kbo_Compare_overflow\<close> shows what the code may answer else.
\<close>

section \<open>Results\<close>

datatype ord_RESULT = ord_UNCOMPARABLE | ord_SMALLER_THAN | ord_EQUAL | ord_GREATER_THAN

definition ord_Not :: "ord_RESULT \<Rightarrow> ord_RESULT" where
  "ord_Not Result =
     (if Result = ord_UNCOMPARABLE \<or> Result = ord_EQUAL then Result
      else if Result = ord_GREATER_THAN then ord_SMALLER_THAN
      else ord_GREATER_THAN)"

section \<open>Variables and weights\<close>

definition kbo_MINWEIGHT :: int where "kbo_MINWEIGHT = 1"

text \<open>The value of a C \<open>int\<close> after an operation whose exact result is \<open>i\<close>.\<close>

definition int32 :: "int \<Rightarrow> int" where
  "int32 i = (i + 2147483648) mod 4294967296 - 2147483648"

lemma int32_id: "- 2147483648 \<le> i \<Longrightarrow> i < 2147483648 \<Longrightarrow> int32 i = i"
  by (simp add: int32_def)

lemma int32_0 [simp]: "int32 0 = 0"
  by (simp add: int32_def)

lemma int32_add: "int32 (int32 a + b) = int32 (a + b)"
proof -
  have "(int32 a + b + 2147483648) mod 4294967296 = ((a + 2147483648) mod 4294967296 + b) mod 4294967296"
    by (simp add: int32_def)
  also have "\<dots> = (a + b + 2147483648) mod 4294967296" by (simp only: mod_add_left_eq) (simp add: ac_simps)
  finally show ?thesis by (simp only: int32_def [of "int32 a + b"] int32_def [of "a + b"])
qed

lemma int32_add_right: "int32 (a + int32 b) = int32 (a + b)"
  using int32_add [of b a] by (simp add: add.commute)

lemma int32_diff: "int32 (int32 a - b) = int32 (a - b)"
  using int32_add [of a "- b"] by simp

lemma int32_cong: "int32 a = int32 b \<longleftrightarrow> a mod 4294967296 = b mod 4294967296"
proof -
  have "int32 a = int32 b \<longleftrightarrow> (a + 2147483648) mod 4294967296 = (b + 2147483648) mod 4294967296"
    by (simp add: int32_def)
  then show ?thesis by (simp only: mod_eq_dvd_iff) simp
qed

lemma int32_minus: "int32 (- int32 a) = int32 (- a)"
proof -
  have "int32 (int32 a) = int32 a" using int32_add [of a 0] by simp
  then have "int32 a mod 4294967296 = a mod 4294967296" by (simp only: int32_cong)
  then have "(- int32 a) mod 4294967296 = (- a) mod 4294967296"
    using mod_minus_eq [of "int32 a" 4294967296] mod_minus_eq [of a 4294967296] by metis
  then show ?thesis by (simp only: int32_cong)
qed

lemma int32_diff_right: "int32 (a - int32 b) = int32 (a - b)"
  using int32_add_right [of a "- int32 b"] int32_add_right [of a "- b"] by (simp only: int32_minus) simp

lemma int32_minus_0: "int32 (- a) = 0 \<longleftrightarrow> int32 a = 0"
  using int32_cong [of a 0] int32_cong [of "- a" 0] by (simp add: mod_eq_0_iff_dvd)

text \<open>One of the two walks: it adds to the counts of one column and changes the weight. The first walk
  adds the weights of the symbols, the second subtracts them from what the first left.\<close>

definition kbo_count :: "symbol_table \<Rightarrow> (int \<Rightarrow> int \<Rightarrow> int) \<Rightarrow> TERM_NODE \<Rightarrow> int \<Rightarrow> (int \<Rightarrow> NAT) \<times> int" where
  "kbo_count st change Term Weight =
     outcome (term_walk (\<lambda>(VARCOUNT, Weight) T.
         if term_IsStandardVariable T
         then Inr ((VARCOUNT(term_TopSymbol T := VARCOUNT (term_TopSymbol T) + 1), change Weight kbo_MINWEIGHT), False)
         else Inr ((VARCOUNT, change Weight (symbol_Weight st (term_TopSymbol T))), term_IsComplex T))
       Term [] (\<lambda>i. 0, Weight))"

fun varcond_loop :: "(int \<Rightarrow> NAT) \<Rightarrow> (int \<Rightarrow> NAT) \<Rightarrow> int list \<Rightarrow> bool \<Rightarrow> bool \<Rightarrow> bool \<times> bool" where
  "varcond_loop C0 C1 [] VarCond1 VarCond2 = (VarCond1, VarCond2)"
| "varcond_loop C0 C1 (i # is) VarCond1 VarCond2 =
     (if C0 i < C1 i then
        if \<not> VarCond2 then (False, VarCond2) else varcond_loop C0 C1 is False VarCond2
      else if C0 i > C1 i then
        if \<not> VarCond1 then (VarCond1, False) else varcond_loop C0 C1 is VarCond1 False
      else varcond_loop C0 C1 is VarCond1 VarCond2)"

definition kbo_CompVarCondAndWeight :: "symbol_table \<Rightarrow> TERM_NODE \<Rightarrow> TERM_NODE \<Rightarrow> (int \<times> bool \<times> bool) option" where
  "kbo_CompVarCondAndWeight st Term1 Term2 =
     (let MaxVar1 = term_MaxVar Term1;
          MaxVar2 = term_MaxVar Term2;
          MaxVar1 = (if MaxVar1 < MaxVar2 then MaxVar2 else MaxVar1)
      in if MaxVar1 \<ge> symbol_MAXSTANDARDVAR then None
         else case kbo_count st (\<lambda>w x. int32 (w + x)) Term1 0 of
           (C0, Weight) \<Rightarrow> (case kbo_count st (\<lambda>w x. int32 (w - x)) Term2 Weight of
             (C1, Weight) \<Rightarrow> Some (Weight, varcond_loop C0 C1 [0..MaxVar1] True True)))"

section \<open>Comparison by structure\<close>

text \<open>The two loops that look for the first pair of arguments that are not equal, from the left and,
  counting down the arity, from the right. \<open>Some None\<close>: all are equal.\<close>

fun first_diff :: "TERM_NODE list \<Rightarrow> TERM_NODE list \<Rightarrow> (TERM_NODE \<times> TERM_NODE) option option" where
  "first_diff [] us = Some None"
| "first_diff (t # ts) [] = None"
| "first_diff (t # ts) (u # us) = (if term_Equal t u then first_diff ts us else Some (Some (t, u)))"

fun last_diff :: "TERM_NODE list \<Rightarrow> TERM_NODE list \<Rightarrow> nat \<Rightarrow> (TERM_NODE \<times> TERM_NODE) option option" where
  "last_diff ts us 0 = Some None"
| "last_diff ts us (Suc i) =
     (if i \<ge> length ts \<or> i \<ge> length us then None
      else if term_Equal (ts ! i) (us ! i) then last_diff ts us i
      else Some (Some (ts ! i, us ! i)))"

lemma first_diff_set: "first_diff ts us = Some (Some (t, u)) \<Longrightarrow> t \<in> set ts \<and> u \<in> set us"
  by (induction ts us rule: first_diff.induct) (auto split: if_splits)

lemma last_diff_set: "last_diff ts us i = Some (Some (t, u)) \<Longrightarrow> t \<in> set ts \<and> u \<in> set us"
  by (induction ts us i rule: last_diff.induct) (auto split: if_splits)

lemma nodes_arg: "t \<in> set (term_ArgumentList u) \<Longrightarrow> nodes t < nodes u"
  using member_le_sum_list [of "nodes t" "map nodes (term_ArgumentList u)"] by (auto simp: nodes_eq [of u])

definition kbo_diff :: "symbol_table \<Rightarrow> TERM_NODE \<Rightarrow> TERM_NODE \<Rightarrow> (TERM_NODE \<times> TERM_NODE) option option" where
  "kbo_diff st Term1 Term2 =
     (if symbol_HasProperty st (term_TopSymbol Term1) ORDRIGHT
      then last_diff (term_ArgumentList Term1) (term_ArgumentList Term2) (nat (symbol_Arity st (term_TopSymbol Term1)))
      else first_diff (term_ArgumentList Term1) (term_ArgumentList Term2))"

lemma kbo_diff_set:
  "kbo_diff st s t = Some (Some (u, v)) \<Longrightarrow> u \<in> set (term_ArgumentList s) \<and> v \<in> set (term_ArgumentList t)"
  by (auto simp: kbo_diff_def dest: first_diff_set last_diff_set split: if_splits)

function kbo_CompareStruc ::
  "symbol_table \<Rightarrow> PRECEDENCE \<Rightarrow> TERM_NODE \<Rightarrow> TERM_NODE \<Rightarrow> int \<Rightarrow> bool \<Rightarrow> ord_RESULT option" where
  "kbo_CompareStruc st P Term1 Term2 WeightDiff VarIsConst =
     (if WeightDiff > 0 then Some ord_GREATER_THAN
      else if WeightDiff = 0 then
        if symbol_IsStandardVariable (term_TopSymbol Term1) then
          if symbol_IsStandardVariable (term_TopSymbol Term2) then
            if VarIsConst then
              if term_TopSymbol Term1 > term_TopSymbol Term2 then Some ord_GREATER_THAN
              else if term_TopSymbol Term2 > term_TopSymbol Term1 then Some ord_SMALLER_THAN
              else Some ord_EQUAL
            else Some ord_EQUAL
          else Some ord_UNCOMPARABLE
        else if symbol_IsStandardVariable (term_TopSymbol Term2) \<or> symbol_PrecedenceGreater P (term_TopSymbol Term1) (term_TopSymbol Term2) then Some ord_GREATER_THAN
        else if term_TopSymbol Term1 = term_TopSymbol Term2 then
          (case kbo_diff st Term1 Term2 of
             None \<Rightarrow> None
           | Some None \<Rightarrow> Some ord_EQUAL
           | Some (Some (RecTerm1, RecTerm2)) \<Rightarrow>
               (case kbo_CompVarCondAndWeight st RecTerm1 RecTerm2 of
                  None \<Rightarrow> None
                | Some (RecWeightDiff, T1VarCond, T2VarCond) \<Rightarrow>
                    if RecWeightDiff \<ge> 0 \<and> (T1VarCond \<or> VarIsConst)
                    then kbo_CompareStruc st P RecTerm1 RecTerm2 RecWeightDiff VarIsConst
                    else Some ord_UNCOMPARABLE))
        else Some ord_UNCOMPARABLE
      else Some ord_UNCOMPARABLE)"
  by pat_completeness auto
termination
  by (relation "measure (\<lambda>(st, P, Term1, Term2, WeightDiff, VarIsConst). nodes Term1)")
    (auto dest!: kbo_diff_set nodes_arg)

declare kbo_CompareStruc.simps [simp del]

definition kbo_CompareAux :: "symbol_table \<Rightarrow> PRECEDENCE \<Rightarrow> TERM_NODE \<Rightarrow> TERM_NODE \<Rightarrow> bool \<Rightarrow> ord_RESULT option" where
  "kbo_CompareAux st P Term1 Term2 VarIsConst =
     (case kbo_CompVarCondAndWeight st Term1 Term2 of
        None \<Rightarrow> None
      | Some (WeightDiff, T1VarCond, T2VarCond) \<Rightarrow>
          if VarIsConst then
            (case kbo_CompareStruc st P Term1 Term2 WeightDiff VarIsConst of
               Some ord_UNCOMPARABLE \<Rightarrow> map_option ord_Not (kbo_CompareStruc st P Term2 Term1 (int32 (- WeightDiff)) VarIsConst)
             | r \<Rightarrow> r)
          else if T1VarCond \<and> \<not> T2VarCond then kbo_CompareStruc st P Term1 Term2 WeightDiff False
          else if \<not> T1VarCond \<and> T2VarCond then map_option ord_Not (kbo_CompareStruc st P Term2 Term1 (int32 (- WeightDiff)) False)
          else if T1VarCond \<and> T2VarCond then
            (case kbo_CompareStruc st P Term1 Term2 WeightDiff False of
               Some ord_UNCOMPARABLE \<Rightarrow> map_option ord_Not (kbo_CompareStruc st P Term2 Term1 (int32 (- WeightDiff)) False)
             | r \<Rightarrow> r)
          else Some ord_UNCOMPARABLE)"

definition kbo_Compare :: "symbol_table \<Rightarrow> PRECEDENCE \<Rightarrow> TERM_NODE \<Rightarrow> TERM_NODE \<Rightarrow> ord_RESULT option" where
  "kbo_Compare st P Term1 Term2 = kbo_CompareAux st P Term1 Term2 False"

section \<open>The order in the textbook\<close>

text \<open>Terms the order is meant for: every function has as many arguments as its arity, variables are
  standard variables with a row in the array, and the counts do not wrap around.\<close>

definition kbo_term :: "symbol_table \<Rightarrow> TERM_NODE \<Rightarrow> bool" where
  "kbo_term st t \<longleftrightarrow> nodes t < 2 ^ 32 \<and> (\<forall>u \<in> set (subterms t).
     if term_IsVariable u then leaf u \<and> term_TopSymbol u < symbol_MAXSTANDARDVAR
     else symbol_Arity st (term_TopSymbol u) = int (length (term_ArgumentList u)))"

definition occurrences :: "SYMBOL \<Rightarrow> TERM_NODE \<Rightarrow> nat" where
  "occurrences x t = length (filter (\<lambda>u. term_TopSymbol u = x) (subterms t))"

definition weight :: "symbol_table \<Rightarrow> TERM_NODE \<Rightarrow> int" where
  "weight st t = sum_list (map (\<lambda>u. if term_IsStandardVariable u then kbo_MINWEIGHT
     else symbol_Weight st (term_TopSymbol u)) (subterms t))"

definition varcond :: "TERM_NODE \<Rightarrow> TERM_NODE \<Rightarrow> bool" where
  "varcond s t \<longleftrightarrow> (\<forall>x. symbol_IsStandardVariable x \<longrightarrow> occurrences x t \<le> occurrences x s)"

lemma kbo_term_std:
  "kbo_term st t \<Longrightarrow> u \<in> set (subterms t) \<Longrightarrow> term_IsStandardVariable u \<longleftrightarrow> term_IsVariable u"
  by (auto simp: kbo_term_def term_IsStandardVariable_def symbol_IsStandardVariable_def term_IsVariable_def)

lemma kbo_term_var_leaf: "kbo_term st t \<Longrightarrow> var_leaf t"
  by (auto simp: kbo_term_def var_leaf_def)

lemma subterms_trans: "u \<in> set (subterms t) \<Longrightarrow> set (subterms u) \<subseteq> set (subterms t)"
proof (induction t rule: subterms.induct)
  case (1 s ts stamp sz)
  then show ?case by auto
qed

lemma nodes_subterm: "u \<in> set (subterms t) \<Longrightarrow> nodes u \<le> nodes t"
proof (induction t rule: subterms.induct)
  case (1 s ts stamp sz)
  show ?case
  proof (cases "u = term_Node s ts stamp sz")
    case False
    then obtain v where v: "v \<in> set ts" "u \<in> set (subterms v)" using 1(2) by auto
    then have "nodes u \<le> nodes v" using 1(1) by blast
    also have "\<dots> \<le> nodes (term_Node s ts stamp sz)" using v(1) nodes_arg [of v "term_Node s ts stamp sz"] by simp
    finally show ?thesis .
  qed simp
qed

lemma kbo_term_sub: "kbo_term st t \<Longrightarrow> u \<in> set (subterms t) \<Longrightarrow> kbo_term st u"
  using subterms_trans [of u t] nodes_subterm [of u t] by (auto simp: kbo_term_def)

lemma kbo_term_arg: "kbo_term st t \<Longrightarrow> u \<in> set (term_ArgumentList t) \<Longrightarrow> kbo_term st u"
proof (erule kbo_term_sub)
  assume "u \<in> set (term_ArgumentList t)"
  moreover have "u \<in> set (subterms u)" by (subst subterms_eq) simp
  ultimately show "u \<in> set (subterms t)" by (subst subterms_eq) auto
qed

text \<open>The walk computes the counts and the weight.\<close>

lemma kbo_count_ok:
  assumes "kbo_term st t" "\<And>a b. change (int32 a) b = int32 (a + g * b)"
  shows "kbo_count st change t (int32 w)
    = (\<lambda>x. if symbol_IsStandardVariable x then of_nat (occurrences x t) else 0, int32 (w + g * weight st t))"
proof -
  let ?f = "\<lambda>u (C::int \<Rightarrow> NAT, w). if term_IsStandardVariable u
     then (C(term_TopSymbol u := C (term_TopSymbol u) + 1), change w kbo_MINWEIGHT)
     else (C, change w (symbol_Weight st (term_TopSymbol u)))"
  have "kbo_count st change t (int32 w) = fold ?f (subterms t) (\<lambda>i. 0, int32 w)"
    unfolding kbo_count_def using kbo_term_var_leaf [OF assms(1)] kbo_term_std [OF assms(1)]
    by (subst term_walk_fold [where f = ?f]) (auto simp: var_leaf_def)
  moreover have "fold ?f us (C, int32 w) = (\<lambda>x. if symbol_IsStandardVariable x
        then C x + of_nat (length (filter (\<lambda>u. term_TopSymbol u = x) us)) else C x,
      int32 (w + g * sum_list (map (\<lambda>u. if term_IsStandardVariable u then kbo_MINWEIGHT else symbol_Weight st (term_TopSymbol u)) us)))"
    for us C w
    by (induction us arbitrary: C w) (auto simp: fun_eq_iff term_IsStandardVariable_def assms(2) algebra_simps)
  ultimately show ?thesis by (auto simp: occurrences_def weight_def fun_eq_iff)
qed

lemma kbo_counts_ok:
  assumes "kbo_term st t"
  shows "kbo_count st (\<lambda>w x. int32 (w + x)) t 0
      = (\<lambda>x. if symbol_IsStandardVariable x then of_nat (occurrences x t) else 0, int32 (weight st t))"
    "kbo_count st (\<lambda>w x. int32 (w - x)) t (int32 w)
      = (\<lambda>x. if symbol_IsStandardVariable x then of_nat (occurrences x t) else 0, int32 (w - weight st t))"
  using kbo_count_ok [OF assms, of "\<lambda>w x. int32 (w + x)" 1 0] kbo_count_ok [OF assms, of "\<lambda>w x. int32 (w - x)" "- 1" w]
  by (simp_all add: int32_add int32_diff)

lemma occurrences_bound: "occurrences x t \<le> nodes t"
  by (simp add: occurrences_def length_subterms [symmetric])

lemma occurrences_0_iff: "occurrences x t = 0 \<longleftrightarrow> (\<forall>u \<in> set (subterms t). term_TopSymbol u \<noteq> x)"
  by (simp add: occurrences_def filter_empty_conv)

lemma varcond_loop_ok:
  "v1 \<or> v2 \<Longrightarrow> varcond_loop C0 C1 is v1 v2 = (v1 \<and> (\<forall>i \<in> set is. C1 i \<le> C0 i), v2 \<and> (\<forall>i \<in> set is. C0 i \<le> C1 i))"
proof (induction C0 C1 "is" v1 v2 rule: varcond_loop.induct)
  case (2 C0 C1 i "is" v1 v2)
  consider "C0 i < C1 i" | "C1 i < C0 i" | "C0 i = C1 i" by (rule linorder_cases)
  then show ?case
  proof cases
    case 1
    then show ?thesis using 2 by (cases v2) (auto simp: not_le)
  next
    case b: 2
    then have "\<not> C0 i < C1 i" by simp
    then show ?thesis using 2 b by (cases v1) (auto simp: not_le)
  next
    case 3
    then show ?thesis using 2 by simp
  qed
qed simp

lemma term_MaxVar_less:
  assumes "kbo_term st t"
  shows "0 \<le> term_MaxVar t" "term_MaxVar t < symbol_MAXSTANDARDVAR"
    "symbol_IsStandardVariable x \<Longrightarrow> term_MaxVar t < x \<Longrightarrow> occurrences x t = 0"
proof -
  let ?M = "insert 0 (term_TopSymbol ` set (filter term_IsStandardVariable (subterms t)))"
  have M: "term_MaxVar t = Max ?M" by (rule term_MaxVar_ok [OF kbo_term_var_leaf [OF assms]])
  have "\<forall>v \<in> ?M. v < symbol_MAXSTANDARDVAR"
    using assms kbo_term_std [OF assms] by (auto simp: kbo_term_def symbol_consts)
  then show "0 \<le> term_MaxVar t" "term_MaxVar t < symbol_MAXSTANDARDVAR" unfolding M by simp_all
  assume "symbol_IsStandardVariable x" "term_MaxVar t < x"
  then show "occurrences x t = 0" unfolding M
    by (auto simp: occurrences_0_iff term_IsStandardVariable_def)
qed

lemma of_nat_le_NAT: "m < 2 ^ 32 \<Longrightarrow> n < 2 ^ 32 \<Longrightarrow> (of_nat m :: NAT) \<le> of_nat n \<longleftrightarrow> m \<le> n"
  by (simp add: word_le_nat_alt unat_of_nat take_bit_nat_eq_self)

lemma kbo_CompVarCondAndWeight_ok:
  assumes "kbo_term st s" "kbo_term st t"
  shows "kbo_CompVarCondAndWeight st s t = Some (int32 (weight st s - weight st t), varcond s t, varcond t s)"
proof -
  let ?m = "if term_MaxVar s < term_MaxVar t then term_MaxVar t else term_MaxVar s"
  note S = term_MaxVar_less [OF assms(1)] and T = term_MaxVar_less [OF assms(2)]
  have v: "(\<forall>i \<in> set [0..?m]. (if symbol_IsStandardVariable i then of_nat (occurrences i b) else 0 :: NAT)
        \<le> (if symbol_IsStandardVariable i then of_nat (occurrences i a) else 0)) \<longleftrightarrow> varcond a b"
    if ab: "a = s \<and> b = t \<or> a = t \<and> b = s" for a b
  proof -
    have lt: "occurrences i a < 2 ^ 32" "occurrences i b < 2 ^ 32" for i
      using ab assms occurrences_bound [of i a] occurrences_bound [of i b]
      by (auto simp: kbo_term_def intro: le_less_trans)
    have z: "occurrences x b = 0" if "symbol_IsStandardVariable x" "?m < x" for x
      using ab S(3) [OF that(1)] T(3) [OF that(1)] that(2) by (auto split: if_splits)
    have p: "0 \<le> x" if "symbol_IsStandardVariable x" for x
      using that by (simp add: symbol_IsStandardVariable_def symbol_IsVariable_def)
    have "(\<forall>i \<in> set [0..?m]. symbol_IsStandardVariable i \<longrightarrow> occurrences i b \<le> occurrences i a)
       \<longleftrightarrow> (\<forall>x. symbol_IsStandardVariable x \<longrightarrow> occurrences x b \<le> occurrences x a)"
    proof (intro iffI allI impI ballI)
      fix x
      assume A: "\<forall>i \<in> set [0..?m]. symbol_IsStandardVariable i \<longrightarrow> occurrences i b \<le> occurrences i a"
        and x: "symbol_IsStandardVariable x"
      show "occurrences x b \<le> occurrences x a"
      proof (cases "?m < x")
        case True
        then show ?thesis using z [OF x] by simp
      next
        case False
        then have "x \<in> set [0..?m]" using p [OF x] by (simp del: if_split)
        then show ?thesis using A x by blast
      qed
    qed blast
    then show ?thesis using of_nat_le_NAT [OF lt(2) lt(1)] by (auto simp: varcond_def)
  qed
  have "\<not> symbol_MAXSTANDARDVAR \<le> ?m" using S(2) T(2) by simp
  then show ?thesis
    unfolding kbo_CompVarCondAndWeight_def Let_def kbo_counts_ok(1) [OF assms(1)] kbo_counts_ok(2) [OF assms(2)] prod.case
    by (subst varcond_loop_ok) (simp_all only: v if_False simp_thms)
qed

lemma kbo_VARCOUNT_overrun:
  "kbo_Compare st P (term_Create symbol_MAXSTANDARDVAR []) (term_Create symbol_MAXSTANDARDVAR []) = None"
proof -
  let ?t = "term_Create symbol_MAXSTANDARDVAR []"
  have "var_leaf ?t" by (simp add: var_leaf_def term_Create_def leaf_def)
  then have "term_MaxVar ?t = symbol_MAXSTANDARDVAR"
    by (simp add: term_MaxVar_ok) (simp add: term_Create_def term_IsStandardVariable_def
      symbol_IsStandardVariable_def symbol_IsVariable_def symbol_consts)
  then show ?thesis by (simp add: kbo_Compare_def kbo_CompareAux_def kbo_CompVarCondAndWeight_def Let_def)
qed

section \<open>The textbook order\<close>

definition arguments :: "symbol_table \<Rightarrow> TERM_NODE \<Rightarrow> TERM_NODE list" where
  "arguments st t =
     (if symbol_HasProperty st (term_TopSymbol t) ORDRIGHT then rev (term_ArgumentList t) else term_ArgumentList t)"

lemma nodes_arguments: "sum_list (map nodes (arguments st t)) < nodes t"
proof -
  have "sum_list (map nodes (arguments st t)) = sum_list (map nodes (term_ArgumentList t))"
    unfolding sum_mset_sum_list [symmetric] by (simp add: arguments_def)
  then show ?thesis by (simp add: nodes_eq [of t])
qed

lemma nodes_arguments_less: "Suc (2 * sum_list (map nodes (arguments st t))) < 2 * nodes t"
  using nodes_arguments [of st t] by linarith

function (sequential) kbo_gt :: "symbol_table \<Rightarrow> PRECEDENCE \<Rightarrow> TERM_NODE \<Rightarrow> TERM_NODE \<Rightarrow> bool"
and kbo_lex :: "symbol_table \<Rightarrow> PRECEDENCE \<Rightarrow> TERM_NODE list \<Rightarrow> TERM_NODE list \<Rightarrow> bool" where
  "kbo_gt st P s t \<longleftrightarrow> varcond s t \<and> (weight st s > weight st t \<or> weight st s = weight st t
     \<and> \<not> term_IsVariable s \<and> (term_IsVariable t \<or> symbol_PrecedenceGreater P (term_TopSymbol s) (term_TopSymbol t)
          \<or> term_TopSymbol s = term_TopSymbol t \<and> kbo_lex st P (arguments st s) (arguments st t)))"
| "kbo_lex st P (s # ss) (t # ts) \<longleftrightarrow> (if erase s = erase t then kbo_lex st P ss ts else kbo_gt st P s t)"
| "kbo_lex st P ss ts \<longleftrightarrow> False"
  by pat_completeness auto
termination
  by (relation "measure (\<lambda>x. case x of Inl (st, P, s, t) \<Rightarrow> 2 * nodes s
        | Inr (st, P, ss, ts) \<Rightarrow> Suc (2 * sum_list (map nodes ss)))")
    (auto simp: less_Suc_eq_le Suc_le_eq intro: nodes_arguments_less)

declare kbo_gt.simps [simp del]

lemma kbo_lex_erase: "map erase ss = map erase ts \<Longrightarrow> \<not> kbo_lex st P ss ts"
  by (induction ss arbitrary: ts) auto

lemma PrecedenceGreater_irrefl: "\<not> symbol_PrecedenceGreater P S S"
  by (simp add: symbol_PrecedenceGreater_def)

lemma PrecedenceGreater_trans:
  "symbol_PrecedenceGreater P S T \<Longrightarrow> symbol_PrecedenceGreater P T U \<Longrightarrow> symbol_PrecedenceGreater P S U"
  by (simp add: symbol_PrecedenceGreater_def)

text \<open>Weight, occurrences and the order do not see stamps and sizes.\<close>

lemma term_TopSymbol_erase [simp]: "term_TopSymbol (erase t) = term_TopSymbol t"
  by (cases t) simp

lemma erase_occurrences: "occurrences x (erase t) = occurrences x t"
  by (simp add: occurrences_def subterms_erase filter_map comp_def)

lemma erase_weight: "weight st (erase t) = weight st t"
  by (simp add: weight_def subterms_erase comp_def term_IsStandardVariable_def cong: if_cong)

lemma erase_invariant:
  assumes "erase s = erase t"
  shows "occurrences x s = occurrences x t" "weight st s = weight st t" "term_TopSymbol s = term_TopSymbol t"
    "term_IsVariable s = term_IsVariable t" "leaf s = leaf t" "map erase (arguments st s) = map erase (arguments st t)"
  using erase_occurrences [of x s] erase_occurrences [of x t] erase_weight [of st s] erase_weight [of st t] assms
  by (simp_all add: erase_eq_iff term_IsVariable_def leaf_def arguments_def rev_map [symmetric]) (metis map_is_Nil_conv)+

lemma kbo_gt_erase: "kbo_gt st P s t \<Longrightarrow> erase s \<noteq> erase t"
proof
  assume g: "kbo_gt st P s t" and e: "erase s = erase t"
  show False using g erase_invariant [OF e] kbo_lex_erase [OF erase_invariant(6) [OF e], of st P st]
    by (simp add: kbo_gt.simps [of st P s t] PrecedenceGreater_irrefl)
qed

lemma kbo_gt_cong:
  "erase s = erase s' \<Longrightarrow> erase t = erase t' \<Longrightarrow> kbo_gt st P s t = kbo_gt st P s' t'"
  "map erase ss = map erase ss' \<Longrightarrow> map erase ts = map erase ts' \<Longrightarrow> kbo_lex st P ss ts = kbo_lex st P ss' ts'"
proof (induction st P s t and st P ss ts arbitrary: s' t' and ss' ts' rule: kbo_gt_kbo_lex.induct)
  case (1 st P s t)
  note S = erase_invariant [OF 1(2)] and T = erase_invariant [OF 1(3)]
  have "kbo_lex st P (arguments st s) (arguments st t) = kbo_lex st P (arguments st s') (arguments st t')"
    by (rule 1(1) [OF S(6) T(6)])
  then show ?case by (simp add: kbo_gt.simps S(2-4) T(2-4)) (simp add: varcond_def S(1) T(1))
next
  case (2 st P s ss t ts)
  then obtain s1 ss1 t1 ts1 where "ss' = s1 # ss1" "ts' = t1 # ts1" by (auto simp: Cons_eq_map_conv)
  then show ?case using 2 by auto
qed (auto simp: Cons_eq_map_conv neq_Nil_conv)

lemma kbo_gt_irrefl: "\<not> kbo_gt st P s s"
  using kbo_gt_erase by blast

lemma varcond_trans: "varcond s t \<Longrightarrow> varcond t u \<Longrightarrow> varcond s u"
  unfolding varcond_def using le_trans by blast

lemma kbo_gt_trans:
  "kbo_gt st P s t \<Longrightarrow> kbo_gt st P t u \<Longrightarrow> kbo_gt st P s u"
  "kbo_lex st P ss ts \<Longrightarrow> kbo_lex st P ts us \<Longrightarrow> kbo_lex st P ss us"
proof (induction st P s t and st P ss ts arbitrary: u and us rule: kbo_gt_kbo_lex.induct)
  case (1 st P s t)
  note s = 1(2) [unfolded kbo_gt.simps [of st P s t]] and t = 1(3) [unfolded kbo_gt.simps [of st P t u]]
  have v: "varcond s u" using s t varcond_trans by blast
  show ?case
  proof (cases "weight st s > weight st u")
    case True
    then show ?thesis using v by (simp add: kbo_gt.simps [of st P s u])
  next
    case False
    then have w: "weight st s = weight st t" "weight st t = weight st u" using s t by auto
    then have "\<not> term_IsVariable s" "\<not> term_IsVariable t" using s t by auto
    moreover have "symbol_PrecedenceGreater P (term_TopSymbol s) (term_TopSymbol u)
        \<or> term_TopSymbol s = term_TopSymbol u \<and> kbo_lex st P (arguments st s) (arguments st u)"
      if nv: "\<not> term_IsVariable u"
    proof -
      have "symbol_PrecedenceGreater P (term_TopSymbol s) (term_TopSymbol t)
          \<or> term_TopSymbol s = term_TopSymbol t \<and> kbo_lex st P (arguments st s) (arguments st t)"
        using s w \<open>\<not> term_IsVariable t\<close> by auto
      moreover have "symbol_PrecedenceGreater P (term_TopSymbol t) (term_TopSymbol u)
          \<or> term_TopSymbol t = term_TopSymbol u \<and> kbo_lex st P (arguments st t) (arguments st u)"
        using t w nv by auto
      ultimately show ?thesis using PrecedenceGreater_trans 1(1) by metis
    qed
    ultimately show ?thesis using v w by (auto simp: kbo_gt.simps [of st P s u])
  qed
next
  case (2 st P s ss t ts)
  then obtain u us1 where us: "us = u # us1" by (cases us) auto
  show ?case
  proof (cases "erase s = erase t")
    case True
    show ?thesis
    proof (cases "erase t = erase u")
      case eq: True
      then show ?thesis using 2 True us by auto
    next
      case False
      then show ?thesis using 2 True us kbo_gt_cong(1) [OF True refl, of st P u] by auto
    qed
  next
    case False
    then have st: "kbo_gt st P s t" using 2 by simp
    show ?thesis
    proof (cases "erase t = erase u")
      case True
      then show ?thesis using False us st kbo_gt_cong(1) [OF refl True, of st P s] by auto
    next
      case ne: False
      then have "kbo_gt st P t u" using 2 us by simp
      then have "kbo_gt st P s u" using 2(2) [OF False st] by blast
      then show ?thesis using us kbo_gt_erase by auto
    qed
  qed
qed auto

section \<open>The code computes the order\<close>

fun adiff :: "TERM_NODE list \<Rightarrow> TERM_NODE list \<Rightarrow> (TERM_NODE \<times> TERM_NODE) option" where
  "adiff (t # ts) (u # us) = (if erase t = erase u then adiff ts us else Some (t, u))"
| "adiff ts us = None"

lemma adiff_None: "length ts = length us \<Longrightarrow> adiff ts us = None \<longleftrightarrow> map erase ts = map erase us"
  by (induction ts us rule: adiff.induct) auto

lemma adiff_Some: "adiff ts us = Some (t, u) \<Longrightarrow> t \<in> set ts \<and> u \<in> set us \<and> erase t \<noteq> erase u \<and> (kbo_lex st P ts us \<longleftrightarrow> kbo_gt st P t u)"
  by (induction ts us rule: adiff.induct) (auto split: if_splits)

lemma adiff_sym: "adiff us ts = map_option (\<lambda>(t, u). (u, t)) (adiff ts us)"
  by (induction ts us rule: adiff.induct) (auto split: list.splits)

definition arity_of :: "symbol_table \<Rightarrow> SYMBOL \<Rightarrow> nat" where
  "arity_of st S = (if symbol_IsVariable S then 0 else nat (symbol_Arity st S))"

lemma kbo_term_arity: "kbo_term st t \<Longrightarrow> arity_ok (arity_of st) t"
  by (auto simp: arity_ok_def arity_of_def kbo_term_def term_IsVariable_def leaf_def)

lemma kbo_Equal: "kbo_term st s \<Longrightarrow> kbo_term st t \<Longrightarrow> term_Equal s t \<longleftrightarrow> erase s = erase t"
  by (rule term_Equal_ok(1)) (rule kbo_term_arity; assumption)+

lemma first_diff_ok:
  assumes "length ts = length us" "\<forall>t \<in> set ts. kbo_term st t" "\<forall>u \<in> set us. kbo_term st u"
  shows "first_diff ts us = Some (adiff ts us)"
  using assms by (induction ts us rule: list_induct2) (auto simp: kbo_Equal [of st])

lemma last_diff_ok:
  assumes "length ts = length us" "\<forall>t \<in> set ts. kbo_term st t" "\<forall>u \<in> set us. kbo_term st u" "i \<le> length ts"
  shows "last_diff ts us i = Some (adiff (rev (take i ts)) (rev (take i us)))"
  using assms(4)
proof (induction i)
  case (Suc i)
  have "kbo_term st (ts ! i)" "kbo_term st (us ! i)" using assms(1-3) Suc(2) by auto
  then show ?case using Suc assms(1) by (simp add: take_Suc_conv_app_nth kbo_Equal [of st])
qed simp

lemma kbo_diff_ok:
  assumes "kbo_term st s" "kbo_term st t" "term_TopSymbol s = term_TopSymbol t" "\<not> term_IsVariable s"
  shows "length (arguments st s) = length (arguments st t)" "kbo_diff st s t = Some (adiff (arguments st s) (arguments st t))"
proof -
  have "s \<in> set (subterms s)" "t \<in> set (subterms t)" using subterms_eq [of s] subterms_eq [of t] by (metis list.set_intros(1))+
  then have n: "symbol_Arity st (term_TopSymbol s) = int (length (term_ArgumentList s))"
    "symbol_Arity st (term_TopSymbol t) = int (length (term_ArgumentList t))"
    using assms by (auto simp: kbo_term_def term_IsVariable_def)
  then have len: "length (term_ArgumentList s) = length (term_ArgumentList t)" using assms(3) by simp
  then show "length (arguments st s) = length (arguments st t)" using assms(3) by (simp add: arguments_def)
  have a: "\<forall>u \<in> set (term_ArgumentList s). kbo_term st u" "\<forall>u \<in> set (term_ArgumentList t). kbo_term st u"
    using kbo_term_arg assms(1,2) by blast+
  show "kbo_diff st s t = Some (adiff (arguments st s) (arguments st t))"
    using n len first_diff_ok [OF len a] last_diff_ok [OF len a, of "length (term_ArgumentList s)"] assms(3)
    by (simp add: kbo_diff_def arguments_def)
qed

lemma var_top:
  assumes "kbo_term st t"
  shows "symbol_IsStandardVariable (term_TopSymbol t) \<longleftrightarrow> term_IsVariable t" "term_IsVariable t \<Longrightarrow> leaf t"
proof -
  have "t \<in> set (subterms t)" by (subst subterms_eq) simp
  then show "symbol_IsStandardVariable (term_TopSymbol t) \<longleftrightarrow> term_IsVariable t" "term_IsVariable t \<Longrightarrow> leaf t"
    using kbo_term_std [OF assms] assms by (auto simp: term_IsStandardVariable_def kbo_term_def)
qed

lemma varcond_vars:
  assumes "kbo_term st s" "kbo_term st t" "term_IsVariable s" "term_IsVariable t" "varcond s t"
  shows "erase s = erase t"
proof -
  have l: "leaf s" "leaf t" using var_top(2) assms by blast+
  then have "subterms s = [s]" "subterms t = [t]" using subterms_eq [of s] subterms_eq [of t] by (simp_all add: leaf_def)
  moreover have "occurrences (term_TopSymbol t) t \<le> occurrences (term_TopSymbol t) s"
    using assms(5) var_top(1) [OF assms(2)] assms(4) by (simp add: varcond_def)
  ultimately have "term_TopSymbol s = term_TopSymbol t" by (auto simp: occurrences_def split: if_splits)
  then show ?thesis using l by (simp add: erase_eq_iff leaf_def)
qed

text \<open>Without a bound on the weights: the comparison always answers, it answers equal exactly on equal
  terms, and without variables as constants it never answers smaller.\<close>

lemma kbo_CompareStruc_arg:
  assumes "kbo_term st s" "kbo_term st t" "adiff (arguments st s) (arguments st t) = Some (u, w)"
  shows "kbo_term st u" "kbo_term st w" "nodes u < nodes s" "erase u \<noteq> erase w"
    "u \<in> set (term_ArgumentList s)" "w \<in> set (term_ArgumentList t)"
proof -
  show mem: "u \<in> set (term_ArgumentList s)" "w \<in> set (term_ArgumentList t)"
    using adiff_Some [OF assms(3), of st undefined] by (auto simp: arguments_def split: if_splits)
  then show "kbo_term st u" "kbo_term st w" "nodes u < nodes s" using kbo_term_arg assms(1,2) nodes_arg by blast+
  show "erase u \<noteq> erase w" using adiff_Some [OF assms(3), of st undefined] by blast
qed

lemma kbo_CompareStruc_safe:
  assumes "kbo_term st s" "kbo_term st t"
  shows "kbo_CompareStruc st P s t d V \<noteq> None"
    "kbo_CompareStruc st P s t d False \<noteq> Some ord_SMALLER_THAN"
    "varcond s t \<Longrightarrow> kbo_CompareStruc st P s t d False = Some ord_EQUAL \<Longrightarrow> erase s = erase t"
proof -
  have "kbo_CompareStruc st P s t d V \<noteq> None \<and> kbo_CompareStruc st P s t d False \<noteq> Some ord_SMALLER_THAN
      \<and> (varcond s t \<longrightarrow> kbo_CompareStruc st P s t d False = Some ord_EQUAL \<longrightarrow> erase s = erase t)"
    using assms
  proof (induction "nodes s" arbitrary: s t d rule: less_induct)
    case less
    note s = less.prems(1) and t = less.prems(2)
    note vs = var_top(1) [OF s] var_top(1) [OF t]
    note C = kbo_CompareStruc.simps [of st P s t d]
    show ?case
    proof (cases "\<not> term_IsVariable s \<and> term_TopSymbol s = term_TopSymbol t")
      case False
      have V: "varcond s t \<Longrightarrow> term_IsVariable s \<Longrightarrow> term_IsVariable t \<Longrightarrow> erase s = erase t"
        using varcond_vars [OF s t] by blast
      show ?thesis
      proof (cases "term_IsVariable s")
        case True
        then show ?thesis using V by (simp add: C vs)
      next
        case ns: False
        then have "term_TopSymbol s \<noteq> term_TopSymbol t" using False by blast
        then show ?thesis using ns by (simp add: C vs)
      qed
    next
      case True
      then have ns: "\<not> term_IsVariable s" and top: "term_TopSymbol s = term_TopSymbol t" by blast+
      note d = kbo_diff_ok [OF s t top ns]
      show ?thesis
      proof (cases "adiff (arguments st s) (arguments st t)")
        case None
        then have "map erase (arguments st s) = map erase (arguments st t)" using adiff_None [OF d(1)] by simp
        then have "erase s = erase t" using top
          by (auto simp: erase_eq_iff arguments_def rev_map [symmetric] split: if_splits)
        then show ?thesis using None ns top d(2) by (simp add: C [of V] C [of False] vs)
      next
        case (Some p)
        then obtain u w where a: "adiff (arguments st s) (arguments st t) = Some (u, w)" by (cases p) auto
        note A = kbo_CompareStruc_arg [OF s t a]
        have nt: "\<not> term_IsVariable t" using ns top by (simp add: term_IsVariable_def)
        show ?thesis using ns top d(2) a A(4) less.hyps [OF A(3,1,2)]
          by (cases V) (simp_all add: C [of True] C [of False] vs nt PrecedenceGreater_irrefl kbo_CompVarCondAndWeight_ok [OF A(1,2)])
      qed
    qed
  qed
  then show "kbo_CompareStruc st P s t d V \<noteq> None" "kbo_CompareStruc st P s t d False \<noteq> Some ord_SMALLER_THAN"
    "varcond s t \<Longrightarrow> kbo_CompareStruc st P s t d False = Some ord_EQUAL \<Longrightarrow> erase s = erase t" by blast+
qed

lemma kbo_CompareStruc_same:
  assumes "kbo_term st s" "kbo_term st t" "erase s = erase t"
  shows "kbo_CompareStruc st P s t 0 False = Some ord_EQUAL"
proof -
  note E = erase_invariant [OF assms(3)]
  note vs = var_top(1) [OF assms(1)] var_top(1) [OF assms(2)]
  show ?thesis
  proof (cases "term_IsVariable s")
    case True
    then show ?thesis using E(4) by (simp add: kbo_CompareStruc.simps [of st P s t] vs)
  next
    case False
    note d = kbo_diff_ok [OF assms(1,2) E(3) False]
    have "adiff (arguments st s) (arguments st t) = None" using adiff_None [OF d(1)] E(6) by blast
    then show ?thesis using False E(3,4) d(2) PrecedenceGreater_irrefl
      by (simp add: kbo_CompareStruc.simps [of st P s t] vs)
  qed
qed

lemma kbo_Compare_equal:
  assumes "kbo_term st s" "kbo_term st t"
  shows "kbo_Compare st P s t \<noteq> None" "kbo_Compare st P s t = Some ord_EQUAL \<longleftrightarrow> erase s = erase t"
proof -
  let ?d = "int32 (weight st s - weight st t)"
  note S = kbo_CompareStruc_safe [OF assms] and T = kbo_CompareStruc_safe [OF assms(2,1)]
  note D = kbo_Compare_def kbo_CompareAux_def kbo_CompVarCondAndWeight_ok [OF assms]
  obtain r where r: "kbo_CompareStruc st P s t ?d False = Some r" using S(1) by blast
  obtain q where q: "kbo_CompareStruc st P t s (int32 (- ?d)) False = Some q" using T(1) by blast
  have e: "varcond s t \<Longrightarrow> r = ord_EQUAL \<Longrightarrow> erase s = erase t" "varcond t s \<Longrightarrow> q = ord_EQUAL \<Longrightarrow> erase s = erase t"
    using S(3) [of P ?d] T(3) [of P "int32 (- ?d)"] r q by simp_all
  have same: "varcond s t \<and> varcond t s \<and> r = ord_EQUAL" if "erase s = erase t"
    using erase_invariant(1) [OF that] erase_invariant(2) [OF that, of st]
      kbo_CompareStruc_same [OF assms that, of P] r by (simp add: varcond_def)
  have nq: "ord_Not q = ord_EQUAL \<longleftrightarrow> q = ord_EQUAL" by (cases q) (simp_all add: ord_Not_def)
  have K: "kbo_Compare st P s t = Some (if varcond s t \<and> (varcond t s \<longrightarrow> r \<noteq> ord_UNCOMPARABLE) then r
     else if varcond t s then ord_Not q else ord_UNCOMPARABLE)"
    by (cases "varcond s t"; cases "varcond t s"; cases r) (simp_all add: D r q)
  show "kbo_Compare st P s t \<noteq> None" by (simp add: K)
  show "kbo_Compare st P s t = Some ord_EQUAL \<longleftrightarrow> erase s = erase t"
  proof
    assume "erase s = erase t"
    from same [OF this] show "kbo_Compare st P s t = Some ord_EQUAL" by (simp add: K)
  next
    assume "kbo_Compare st P s t = Some ord_EQUAL"
    then show "erase s = erase t" using e nq unfolding K by (auto split: if_splits)
  qed
qed

text \<open>The weights of all subterms are values of a C \<open>int\<close> that are not negative, so that no difference wraps
  around.\<close>

definition weights_fit :: "symbol_table \<Rightarrow> TERM_NODE \<Rightarrow> bool" where
  "weights_fit st t \<longleftrightarrow> (\<forall>u \<in> set (subterms t). 0 \<le> weight st u \<and> weight st u < 2 ^ 31)"

lemma weights_fit_arg: "weights_fit st t \<Longrightarrow> u \<in> set (term_ArgumentList t) \<Longrightarrow> weights_fit st u"
  by (subst (asm) weights_fit_def, subst (asm) subterms_eq) (auto simp: weights_fit_def)

lemma weights_fit_diff:
  assumes "weights_fit st s" "weights_fit st t"
  shows "int32 (weight st s - weight st t) = weight st s - weight st t"
proof -
  have "s \<in> set (subterms s)" "t \<in> set (subterms t)" using subterms_eq [of s] subterms_eq [of t] by (metis list.set_intros(1))+
  then have "0 \<le> weight st s" "weight st s < 2147483648" "0 \<le> weight st t" "weight st t < 2147483648"
    using assms by (auto simp: weights_fit_def)
  then show ?thesis by (intro int32_id) simp_all
qed

lemma kbo_CompVarCondAndWeight_fit:
  assumes "kbo_term st s" "kbo_term st t" "weights_fit st s" "weights_fit st t"
  shows "kbo_CompVarCondAndWeight st s t = Some (weight st s - weight st t, varcond s t, varcond t s)"
  by (simp add: kbo_CompVarCondAndWeight_ok [OF assms(1,2)] weights_fit_diff [OF assms(3,4)])

lemma kbo_CompareStruc_ok:
  assumes "kbo_term st s" "kbo_term st t" "varcond s t" "weights_fit st s" "weights_fit st t"
  shows "kbo_CompareStruc st P s t (weight st s - weight st t) False
     = Some (if erase s = erase t then ord_EQUAL else if kbo_gt st P s t then ord_GREATER_THAN else ord_UNCOMPARABLE)"
  using assms
proof (induction "nodes s" arbitrary: s t rule: less_induct)
  case less
  note s = less.prems(1) and t = less.prems(2) and v = less.prems(3) and f = less.prems(4,5)
  note vs = var_top(1) [OF s] and vt = var_top(1) [OF t]
  note gt = kbo_gt.simps [of st P s t]
  let ?d = "weight st s - weight st t"
  note C = kbo_CompareStruc.simps [of st P s t ?d False]
  consider (pos) "?d > 0" | (neg) "?d < 0" | (zero) "?d = 0" by linarith
  then show ?case
  proof cases
    case pos
    then have "erase s \<noteq> erase t" using erase_invariant(2) [of s t st] by auto
    then show ?thesis unfolding C using pos v by (simp add: gt)
  next
    case neg
    then have "erase s \<noteq> erase t" using erase_invariant(2) [of s t st] by auto
    then show ?thesis unfolding C using neg by (simp add: gt)
  next
    case zero
    show ?thesis
    proof (cases "term_IsVariable s")
      case True
      then show ?thesis unfolding C using zero varcond_vars [OF s t True _ v] erase_invariant(4) [of s t]
        by (cases "term_IsVariable t") (auto simp: gt vs vt)
    next
      case ns: False
      show ?thesis
      proof (cases "term_IsVariable t \<or> symbol_PrecedenceGreater P (term_TopSymbol s) (term_TopSymbol t)")
        case True
        have "erase s \<noteq> erase t" using True ns erase_invariant(3,4) [of s t] PrecedenceGreater_irrefl by auto
        then show ?thesis unfolding C using True ns zero v by (auto simp: gt vs vt)
      next
        case False
        show ?thesis
        proof (cases "term_TopSymbol s = term_TopSymbol t")
          case ne: False
          then have "erase s \<noteq> erase t" using erase_invariant(3) by blast
          then show ?thesis unfolding C using ne False ns zero by (auto simp: gt vs vt)
        next
          case top: True
          note d = kbo_diff_ok [OF s t top ns]
          show ?thesis
          proof (cases "adiff (arguments st s) (arguments st t)")
            case None
            then have "map erase (arguments st s) = map erase (arguments st t)" using adiff_None [OF d(1)] by simp
            then have "erase s = erase t" using top
              by (auto simp: erase_eq_iff arguments_def rev_map [symmetric] split: if_splits)
            then show ?thesis unfolding C using None False ns zero top d(2) by (simp add: vs vt)
          next
            case (Some p)
            obtain u w where p: "p = (u, w)" by force
            note D = adiff_Some [OF Some [unfolded p], of st P]
            have mem: "u \<in> set (term_ArgumentList s)" "w \<in> set (term_ArgumentList t)"
              using D by (auto simp: arguments_def split: if_splits)
            have k: "kbo_term st u" "kbo_term st w" using kbo_term_arg s t mem by blast+
            have k': "weights_fit st u" "weights_fit st w" using weights_fit_arg f mem by blast+
            have "map erase (arguments st s) \<noteq> map erase (arguments st t)" using adiff_None [OF d(1)] Some by simp
            then have ne: "erase s \<noteq> erase t" using erase_invariant(6) by blast
            have g: "kbo_gt st P s t \<longleftrightarrow> kbo_gt st P u w" using D v zero ns False top by (auto simp: gt)
            show ?thesis
            proof (cases "weight st u \<ge> weight st w \<and> varcond u w")
              case True
              then have "kbo_CompareStruc st P u w (weight st u - weight st w) False
                  = Some (if kbo_gt st P u w then ord_GREATER_THAN else ord_UNCOMPARABLE)"
                using less.hyps [OF nodes_arg [OF mem(1)] k _ k'] D by simp
              then show ?thesis unfolding C using Some p False ns zero top d(2) ne g True
                by (simp add: vs vt kbo_CompVarCondAndWeight_fit [OF k k'])
            next
              case no: False
              then have "\<not> kbo_gt st P u w" by (auto simp: kbo_gt.simps [of st P u w])
              then show ?thesis unfolding C using Some p False ns zero top d(2) ne g no
                by (auto simp: vs vt kbo_CompVarCondAndWeight_fit [OF k k'])
            qed
          qed
        qed
      qed
    qed
  qed
qed

lemma kbo_Compare_ok:
  assumes "kbo_term st s" "kbo_term st t" "weights_fit st s" "weights_fit st t"
  shows "kbo_Compare st P s t = Some
     (if erase s = erase t then ord_EQUAL else if kbo_gt st P s t then ord_GREATER_THAN
      else if kbo_gt st P t s then ord_SMALLER_THAN else ord_UNCOMPARABLE)"
proof -
  have a: "\<not> varcond s t \<Longrightarrow> \<not> kbo_gt st P s t" "\<not> varcond t s \<Longrightarrow> \<not> kbo_gt st P t s"
    by (simp_all add: kbo_gt.simps [of st P s t] kbo_gt.simps [of st P t s])
  have e: "erase s = erase t \<Longrightarrow> varcond s t \<and> varcond t s"
    using erase_invariant(1) [of s t] by (simp add: varcond_def)
  have c: "kbo_CompareStruc st P t s (weight st t - weight st s) False
     = Some (if erase s = erase t then ord_EQUAL else if kbo_gt st P t s then ord_GREATER_THAN else ord_UNCOMPARABLE)"
    if "varcond t s" using kbo_CompareStruc_ok [OF assms(2,1) that assms(4,3), of P] by (simp add: eq_commute [of "erase t" "erase s"])
  have b: "kbo_CompareStruc st P s t (weight st s - weight st t) False
     = Some (if erase s = erase t then ord_EQUAL else if kbo_gt st P s t then ord_GREATER_THAN else ord_UNCOMPARABLE)"
    if "varcond s t" using kbo_CompareStruc_ok [OF assms(1,2) that assms(3,4)] .
  have int32_minus_fit: "int32 (weight st t - weight st s) = weight st t - weight st s"
    by (rule weights_fit_diff [OF assms(4,3)])
  note d = kbo_Compare_def kbo_CompareAux_def kbo_CompVarCondAndWeight_fit [OF assms] int32_minus_fit ord_Not_def
  show ?thesis
  proof (cases "erase s = erase t")
    case True
    then show ?thesis using e b by (simp add: d)
  next
    case ne: False
    show ?thesis
    proof (cases "varcond s t")
      case st: True
      show ?thesis
      proof (cases "varcond t s")
        case True
        then show ?thesis using st ne b c by (cases "kbo_gt st P s t"; cases "kbo_gt st P t s") (simp_all add: d)
      next
        case False
        then show ?thesis using st ne b a(2) by (simp add: d)
      qed
    next
      case st: False
      then show ?thesis using ne c a by (cases "varcond t s") (simp_all add: d)
    qed
  qed
qed

text \<open>When the difference of the weights wraps around to a negative value, the code answers smaller.\<close>

lemma kbo_Compare_overflow:
  assumes "kbo_term st s" "kbo_term st t" "varcond s t" "varcond t s"
    "weight st s - weight st t \<in> {2 ^ 31 <..< 2 ^ 32}"
  shows "kbo_Compare st P s t = Some ord_SMALLER_THAN \<and> kbo_gt st P s t"
proof -
  let ?e = "weight st s - weight st t - 4294967296"
  have e: "- 2147483648 < ?e" "?e < 0" using assms(5) by simp_all
  have "int32 (weight st s - weight st t) = int32 ?e" by (simp add: int32_cong)
  then have d: "int32 (weight st s - weight st t) = ?e" "int32 (- ?e) = - ?e" using e by (simp_all add: int32_id)
  have 1: "kbo_CompareStruc st P s t ?e False = Some ord_UNCOMPARABLE" using e by (subst kbo_CompareStruc.simps) simp
  have 2: "kbo_CompareStruc st P t s (- ?e) False = Some ord_GREATER_THAN" using e by (subst kbo_CompareStruc.simps) simp
  have "kbo_Compare st P s t = Some ord_SMALLER_THAN"
    unfolding kbo_Compare_def kbo_CompareAux_def kbo_CompVarCondAndWeight_ok [OF assms(1,2)] d option.case prod.case
    using assms(3,4) 1 2 by (simp only: if_False if_True simp_thms option.case ord_RESULT.case) (simp add: ord_Not_def)
  moreover have "kbo_gt st P s t" using assms(3,5) by (simp add: kbo_gt.simps [of st P s t])
  ultimately show ?thesis ..
qed

section \<open>Subterms are smaller\<close>

lemma occurrences_arg:
  assumes "u \<in> set (term_ArgumentList t)"
  shows "occurrences x u \<le> occurrences x t"
proof -
  have "length (filter P (subterms u)) \<le> length (filter P (concat (map subterms ts)))" if "u \<in> set ts" for P ts
    using that by (induction ts) (auto intro: trans_le_add2)
  from this [OF assms] show ?thesis by (simp add: occurrences_def subterms_eq [of t] le_Suc_eq)
qed

lemma weight_eq:
  "weight st t = (if term_IsStandardVariable t then kbo_MINWEIGHT else symbol_Weight st (term_TopSymbol t))
     + sum_list (map (weight st) (term_ArgumentList t))"
proof -
  have "sum_list (map f (concat (map subterms ts))) = sum_list (map (\<lambda>u. sum_list (map f (subterms u))) ts)"
    for f :: "TERM_NODE \<Rightarrow> int" and ts by (induction ts) auto
  then show ?thesis by (simp add: weight_def [abs_def] subterms_eq [of t])
qed

lemma weight_pos:
  assumes "\<forall>S. 0 < symbol_Weight st S"
  shows "0 < weight st t"
proof -
  have "0 \<le> sum_list (map (\<lambda>u. if term_IsStandardVariable u then kbo_MINWEIGHT else symbol_Weight st (term_TopSymbol u)) us)" for us
    by (rule sum_list_nonneg) (use assms in \<open>auto simp: kbo_MINWEIGHT_def less_imp_le\<close>)
  from this [of "concat (map subterms (term_ArgumentList t))"] show ?thesis
    using assms by (auto simp: weight_def subterms_eq [of t] kbo_MINWEIGHT_def intro: add_pos_nonneg)
qed

lemma kbo_gt_arg:
  assumes "\<forall>S. 0 < symbol_Weight st S" "u \<in> set (term_ArgumentList t)"
  shows "kbo_gt st P t u"
proof -
  have "weight st u \<le> sum_list (map (weight st) ts)" if "u \<in> set ts" for ts
    using that
  proof (induction ts)
    case (Cons v ts)
    have "0 \<le> sum_list (map (weight st) ts)" by (rule sum_list_nonneg) (use weight_pos [OF assms(1)] in \<open>auto intro: less_imp_le\<close>)
    then show ?case using Cons weight_pos [OF assms(1), of v] by auto
  qed simp
  from this [OF assms(2)] have "weight st u < weight st t"
    using assms(1) by (auto simp: weight_eq [of st t] kbo_MINWEIGHT_def intro: le_less_trans)
  then show ?thesis using occurrences_arg [OF assms(2)] by (simp add: kbo_gt.simps [of st P t u] varcond_def)
qed

lemma kbo_gt_subterm:
  assumes "\<forall>S. 0 < symbol_Weight st S" "u \<in> set (subterms t)"
  shows "u = t \<or> kbo_gt st P t u"
  using assms(2)
proof (induction t rule: subterms.induct)
  case (1 s ts stamp sz)
  let ?t = "term_Node s ts stamp sz"
  show ?case
  proof (cases "u = ?t")
    case False
    then obtain v where v: "v \<in> set ts" "u \<in> set (subterms v)" using 1(2) by auto
    have "kbo_gt st P ?t v" by (rule kbo_gt_arg [OF assms(1)]) (simp add: v)
    then show ?thesis using 1(1) [OF v] kbo_gt_trans(1) by blast
  qed simp
qed

section \<open>Variables as constants\<close>

definition separated :: "PRECEDENCE \<Rightarrow> TERM_NODE set \<Rightarrow> bool" where
  "separated P U \<longleftrightarrow> (\<forall>u \<in> U. \<forall>v \<in> U. \<not> term_IsVariable u \<and> \<not> term_IsVariable v \<and> term_TopSymbol u \<noteq> term_TopSymbol v
     \<longrightarrow> symbol_PrecedenceGreater P (term_TopSymbol u) (term_TopSymbol v)
       \<or> symbol_PrecedenceGreater P (term_TopSymbol v) (term_TopSymbol u))"

lemma subterms_self [simp]: "t \<in> set (subterms t)"
  by (subst subterms_eq) simp

lemma subterms_arg: "u \<in> set (term_ArgumentList t) \<Longrightarrow> set (subterms u) \<subseteq> set (subterms t)"
  by (subst subterms_eq [of t]) auto

lemma kbo_CompareStruc_total:
  assumes "kbo_term st s" "kbo_term st t" "separated P (set (subterms s) \<union> set (subterms t))" "erase s \<noteq> erase t"
    "d = weight st s - weight st t" "weights_fit st s" "weights_fit st t"
  shows "kbo_CompareStruc st P s t d True \<in> {Some ord_GREATER_THAN, Some ord_SMALLER_THAN}
     \<or> kbo_CompareStruc st P s t d True = Some ord_UNCOMPARABLE \<and> kbo_CompareStruc st P t s (- d) True = Some ord_GREATER_THAN"
  using assms
proof (induction "nodes s" arbitrary: s t d rule: less_induct)
  case less
  note s = less.prems(1) and t = less.prems(2) and sep = less.prems(3) and ne = less.prems(4) and d = less.prems(5)
    and f = less.prems(6,7)
  note vs = var_top(1) [OF s] and vt = var_top(1) [OF t]
  note C = kbo_CompareStruc.simps [of st P s t d True] kbo_CompareStruc.simps [of st P t s "- d" True]
  show ?case
  proof (cases "d = 0 \<and> \<not> term_IsVariable s \<and> \<not> term_IsVariable t \<and> term_TopSymbol s = term_TopSymbol t")
    case False
    consider (pos) "d > 0" | (neg) "d < 0" | (s) "d = 0" "term_IsVariable s" "\<not> term_IsVariable t"
      | (t) "d = 0" "\<not> term_IsVariable s" "term_IsVariable t" | (st) "d = 0" "term_IsVariable s" "term_IsVariable t"
      | (top) "d = 0" "\<not> term_IsVariable s" "\<not> term_IsVariable t" "term_TopSymbol s \<noteq> term_TopSymbol t"
      using False by linarith
    then show ?thesis
    proof cases
      case st
      then have "term_TopSymbol s \<noteq> term_TopSymbol t"
        using ne var_top(2) [OF s] var_top(2) [OF t] by (auto simp: erase_eq_iff leaf_def)
      then show ?thesis unfolding C(1) using st by (simp add: vs vt)
    next
      case top
      then have "symbol_PrecedenceGreater P (term_TopSymbol s) (term_TopSymbol t)
          \<or> symbol_PrecedenceGreater P (term_TopSymbol t) (term_TopSymbol s)" using sep by (auto simp: separated_def)
      then show ?thesis unfolding C using top by (auto simp: vs vt)
    qed (unfold C, simp_all add: vs vt)
  next
    case True
    then have top: "term_TopSymbol s = term_TopSymbol t" "term_TopSymbol t = term_TopSymbol s"
      and nv: "\<not> term_IsVariable s" "\<not> term_IsVariable t" and d0: "d = 0" by simp_all
    note D = kbo_diff_ok [OF s t top(1) nv(1)] kbo_diff_ok(2) [OF t s top(2) nv(2)]
    have "map erase (arguments st s) \<noteq> map erase (arguments st t)"
      using ne top(1) by (auto simp: erase_eq_iff arguments_def rev_map [symmetric] split: if_splits)
    then obtain u w where a: "adiff (arguments st s) (arguments st t) = Some (u, w)"
      using adiff_None [OF D(1)] by (cases "adiff (arguments st s) (arguments st t)") auto
    have b: "adiff (arguments st t) (arguments st s) = Some (w, u)"
      by (subst adiff_sym) (simp add: a)
    note A = adiff_Some [OF a, of st P]
    have mem: "u \<in> set (term_ArgumentList s)" "w \<in> set (term_ArgumentList t)"
      using A by (auto simp: arguments_def split: if_splits)
    have k: "kbo_term st u" "kbo_term st w" using kbo_term_arg s t mem by blast+
    have k': "weights_fit st u" "weights_fit st w" using weights_fit_arg f mem by blast+
    have "separated P (set (subterms u) \<union> set (subterms w))"
      using sep subterms_arg [OF mem(1)] subterms_arg [OF mem(2)] unfolding separated_def by blast
    note IH = less.hyps [OF nodes_arg [OF mem(1)] k this _ refl k']
    let ?d = "weight st u - weight st w"
    have Cs: "kbo_CompareStruc st P s t d True = (if ?d \<ge> 0 then kbo_CompareStruc st P u w ?d True else Some ord_UNCOMPARABLE)"
      unfolding C using d0 nv top(1) D(2) a PrecedenceGreater_irrefl by (simp add: vs vt kbo_CompVarCondAndWeight_fit [OF k k'])
    have Ct: "kbo_CompareStruc st P t s (- d) True = (if - ?d \<ge> 0 then kbo_CompareStruc st P w u (- ?d) True else Some ord_UNCOMPARABLE)"
      unfolding C using d0 nv top(2) D(3) b PrecedenceGreater_irrefl
      by (simp add: vs vt kbo_CompVarCondAndWeight_fit [OF k(2,1) k'(2,1)])
    consider (pos) "?d > 0" | (neg) "?d < 0" | (zero) "?d = 0" by linarith
    then show ?thesis
    proof cases
      case pos
      then have "kbo_CompareStruc st P u w ?d True = Some ord_GREATER_THAN" by (subst kbo_CompareStruc.simps) simp
      then show ?thesis using pos Cs by simp
    next
      case neg
      then have "kbo_CompareStruc st P w u (- ?d) True = Some ord_GREATER_THAN" by (subst kbo_CompareStruc.simps) simp
      then show ?thesis using neg Cs Ct by simp
    next
      case zero
      then show ?thesis using IH A Cs Ct by simp
    qed
  qed
qed

lemma kbo_CompareAux_total:
  assumes "kbo_term st s" "kbo_term st t" "separated P (set (subterms s) \<union> set (subterms t))" "erase s \<noteq> erase t"
    "weights_fit st s" "weights_fit st t"
  shows "kbo_CompareAux st P s t True \<in> {Some ord_GREATER_THAN, Some ord_SMALLER_THAN}"
  using kbo_CompareStruc_total [OF assms(1-4) refl assms(5,6)] weights_fit_diff [OF assms(6,5)]
  by (auto simp: kbo_CompareAux_def kbo_CompVarCondAndWeight_fit [OF assms(1,2,5,6)] ord_Not_def)

section \<open>Properties\<close>

text \<open>C23: \<open>kbo_Compare\<close>, with its counting loops and early exits and its weights summed in C \<open>int\<close>s that wrap
  around, computes the Knuth-Bendix order of the textbook on two terms whose symbols have as many
  arguments as their arity, whose variables are below 2000, that have fewer than \<open>2^32\<close> symbols and
  whose subterms all have a weight from 0 to \<open>2^31 - 1\<close>: the condition on variables, then weight,
  precedence and the first different argument, from the right for symbols with the property
  \<open>ORDRIGHT\<close>. Without the bound on the weights it still answers, and equal exactly for equal terms, but
  its other answers may be wrong: two terms with the same variables whose weights differ by more than
  \<open>2^31\<close> and less than \<open>2^32\<close> are compared the wrong way round. For the variable 2000, the greatest standard
  variable, it reads outside the array of counts.\<close>

theorem kbo_Compare_correct:
  assumes "kbo_term st s" "kbo_term st t"
  shows "(weights_fit st s \<and> weights_fit st t \<longrightarrow> kbo_Compare st P s t = Some
      (if erase s = erase t then ord_EQUAL else if kbo_gt st P s t then ord_GREATER_THAN
       else if kbo_gt st P t s then ord_SMALLER_THAN else ord_UNCOMPARABLE))
   \<and> kbo_Compare st P s t \<noteq> None \<and> (kbo_Compare st P s t = Some ord_EQUAL \<longleftrightarrow> erase s = erase t)
   \<and> (varcond s t \<and> varcond t s \<and> weight st s - weight st t \<in> {2 ^ 31 <..< 2 ^ 32}
       \<longrightarrow> kbo_gt st P s t \<and> kbo_Compare st P s t = Some ord_SMALLER_THAN)
   \<and> (let x = term_Create symbol_MAXSTANDARDVAR [] in term_IsStandardVariable x \<and> kbo_Compare st P x x = None)"
proof -
  have "let x = term_Create symbol_MAXSTANDARDVAR [] in term_IsStandardVariable x \<and> kbo_Compare st P x x = None"
    using kbo_VARCOUNT_overrun [of st P]
    by (simp add: Let_def) (simp add: term_IsStandardVariable_def symbol_IsStandardVariable_def
        symbol_IsVariable_def symbol_consts term_Create_def)
  then show ?thesis
    using kbo_Compare_ok [OF assms, of P] kbo_Compare_equal [OF assms, of P] kbo_Compare_overflow [OF assms, of P] by blast
qed

text \<open>Two symbols, \<open>f\<close> with one argument at index 1 and the constant \<open>a\<close> at index 2.\<close>

definition sample_f :: SYMBOL where "sample_f = -9"
definition sample_a :: SYMBOL where "sample_a = -16"

definition sample_table :: symbol_table where
  "sample_table =
     \<lparr>symbol_SIGNATURE = [1 \<mapsto> new_entry ''f'' 1 sample_f, 2 \<mapsto> new_entry ''a'' 0 sample_a], symbol_ACTINDEX = 3,
      symbol_FREEDSYMBOLS = [], symbol_ORDERING = 3, symbol_HASSIGNATURE = True\<rparr>"

definition sample_x :: TERM_NODE where "sample_x = term_Create 1 []"
definition sample_fx :: TERM_NODE where "sample_fx = term_Create sample_f [sample_x]"
definition sample_fa :: TERM_NODE where "sample_fa = term_Create sample_f [term_Create sample_a []]"

lemma sample_arity: "symbol_Arity sample_table sample_f = 1" "symbol_Arity sample_table sample_a = 0"
  by (simp_all add: symbol_Arity_def symbol_Signature_def sample_table_def symbol_Index_def sample_f_def sample_a_def
      symbol_consts drop_bit_eq_div new_entry_def)

lemma sample_weight: "symbol_Weight sample_table S = 1"
  by (simp add: symbol_Weight_def symbol_Signature_def sample_table_def new_entry_def)

lemma sample_terms: "kbo_term sample_table sample_x" "kbo_term sample_table sample_fx" "kbo_term sample_table sample_fa"
  by (simp_all add: kbo_term_def sample_x_def sample_fx_def sample_fa_def term_Create_def term_IsVariable_def
      symbol_IsVariable_def leaf_def sample_arity symbol_consts) (simp_all add: sample_f_def sample_a_def)

lemma sample_gt: "kbo_gt sample_table P sample_fx sample_x"
  by (rule kbo_gt_arg) (simp_all add: sample_weight sample_fx_def term_Create_def)

lemma sample_fit: "weights_fit sample_table sample_x" "weights_fit sample_table sample_fx"
  by (simp_all add: weights_fit_def weight_def sample_weight kbo_MINWEIGHT_def sample_x_def sample_fx_def term_Create_def)

text \<open>An overflow: \<open>f\<close> has the greatest weight that a C \<open>int\<close> holds, and \<open>f(f(a))\<close> is compared with \<open>a\<close>.\<close>

definition heavy_table :: symbol_table where
  "heavy_table = sample_table
     \<lparr>symbol_SIGNATURE := [1 \<mapsto> (new_entry ''f'' 1 sample_f)\<lparr>sig_weight := 2147483647\<rparr>, 2 \<mapsto> new_entry ''a'' 0 sample_a]\<rparr>"

definition sample_ffa :: TERM_NODE where "sample_ffa = term_Create sample_f [sample_fa]"

lemma heavy_terms:
  shows "kbo_term heavy_table sample_ffa" "kbo_term heavy_table (term_Create sample_a [])"
    "varcond sample_ffa (term_Create sample_a [])" "varcond (term_Create sample_a []) sample_ffa"
    "weight heavy_table sample_ffa - weight heavy_table (term_Create sample_a []) \<in> {2 ^ 31 <..< 2 ^ 32}"
proof -
  note sig = symbol_Signature_def heavy_table_def sample_table_def symbol_Index_def sample_f_def sample_a_def
    symbol_consts drop_bit_eq_div new_entry_def
  have a: "symbol_Arity heavy_table sample_f = 1" "symbol_Arity heavy_table sample_a = 0"
    by (simp_all add: symbol_Arity_def sig)
  have w: "symbol_Weight heavy_table sample_f = 2147483647" "symbol_Weight heavy_table sample_a = 1"
    by (simp_all add: symbol_Weight_def sig)
  note t = sample_ffa_def sample_fa_def term_Create_def
  have f: "\<not> symbol_IsVariable sample_f" "\<not> symbol_IsVariable sample_a"
    by (simp_all add: symbol_IsVariable_def sample_f_def sample_a_def)
  show "kbo_term heavy_table sample_ffa" "kbo_term heavy_table (term_Create sample_a [])"
    by (simp_all add: kbo_term_def t term_IsVariable_def f a)
  show "varcond sample_ffa (term_Create sample_a [])" "varcond (term_Create sample_a []) sample_ffa"
    by (auto simp: varcond_def occurrences_def t symbol_IsStandardVariable_def f)
  show "weight heavy_table sample_ffa - weight heavy_table (term_Create sample_a []) \<in> {2 ^ 31 <..< 2 ^ 32}"
    by (simp add: weight_def t term_IsStandardVariable_def symbol_IsStandardVariable_def f w)
qed

theorem kbo_Compare_correct_witness:
  "kbo_Compare sample_table (\<lambda>i. i) sample_fx sample_x = Some ord_GREATER_THAN
   \<and> kbo_gt heavy_table (\<lambda>i. i) sample_ffa (term_Create sample_a [])
   \<and> kbo_Compare heavy_table (\<lambda>i. i) sample_ffa (term_Create sample_a []) = Some ord_SMALLER_THAN"
  using kbo_Compare_correct [OF sample_terms(2,1), of "\<lambda>i. i"] sample_fit sample_gt kbo_gt_erase [OF sample_gt]
    kbo_Compare_correct [OF heavy_terms(1,2), of "\<lambda>i. i"] heavy_terms(3-5) by simp

text \<open>The result is a strict order on terms: what is greater is not equal and is smaller the other
  way round, the order is transitive, with positive weights every proper subterm is smaller, and
  with variables read as constants all different terms are comparable when the precedence separates
  their symbols.\<close>

theorem kbo_Compare_order:
  assumes "kbo_term st s" "kbo_term st t" "kbo_term st u" "weights_fit st s" "weights_fit st t" "weights_fit st u"
  shows "(kbo_Compare st P s t = Some ord_GREATER_THAN \<longleftrightarrow> kbo_Compare st P t s = Some ord_SMALLER_THAN)
   \<and> (kbo_Compare st P s t = Some ord_GREATER_THAN \<longrightarrow> kbo_Compare st P t u = Some ord_GREATER_THAN
        \<longrightarrow> kbo_Compare st P s u = Some ord_GREATER_THAN)
   \<and> ((\<forall>S. 0 < symbol_Weight st S) \<longrightarrow> t \<in> set (subterms s) \<longrightarrow> t \<noteq> s \<longrightarrow> kbo_Compare st P s t = Some ord_GREATER_THAN)
   \<and> (separated P (set (subterms s) \<union> set (subterms t)) \<longrightarrow> erase s \<noteq> erase t
        \<longrightarrow> kbo_CompareAux st P s t True \<in> {Some ord_GREATER_THAN, Some ord_SMALLER_THAN})"
proof -
  have asym: "kbo_gt st P a b \<Longrightarrow> \<not> kbo_gt st P b a" for a b
    using kbo_gt_trans(1) kbo_gt_irrefl by blast
  have G: "kbo_Compare st P a b = Some ord_GREATER_THAN \<longleftrightarrow> kbo_gt st P a b"
      "kbo_Compare st P b a = Some ord_SMALLER_THAN \<longleftrightarrow> kbo_gt st P a b"
    if "kbo_term st a" "kbo_term st b" "weights_fit st a" "weights_fit st b" for a b
    using kbo_Compare_ok [OF that] kbo_Compare_ok [OF that(2,1,4,3)] kbo_gt_erase [of st P a b] asym [of a b]
    by (auto split: if_splits)
  note G = G [OF assms(1,2,4,5)] G [OF assms(2,3,5,6)] G [OF assms(1,3,4,6)]
  show ?thesis
    using G kbo_gt_trans(1) [of st P s t u] kbo_gt_subterm [of st t s P] kbo_CompareAux_total [OF assms(1,2) _ _ assms(4,5)] by blast
qed

theorem kbo_Compare_order_witness:
  "kbo_Compare sample_table (\<lambda>i. i) sample_x sample_fx = Some ord_SMALLER_THAN
   \<and> kbo_Compare sample_table (\<lambda>i. i) sample_fx sample_x = Some ord_GREATER_THAN"
proof -
  have "sample_x \<in> set (subterms sample_fx)" "sample_x \<noteq> sample_fx"
    by (simp_all add: sample_x_def sample_fx_def term_Create_def)
  then show ?thesis
    using kbo_Compare_order [OF sample_terms(2,1,1) sample_fit(2,1,1), of "\<lambda>i. i"] by (auto simp: sample_weight)
qed

end
