(* ===== verification/Spass_RPO.thy ===== *)
theory Spass_RPO
  imports Spass_KBO
begin

text \<open>
  The recursive path order with status of SPASS (\<open>rpos.c\<close>): equality up to permuted arguments,
  comparison by multisets or from left or right. The versions below contexts are in
  \<open>Spass_RPO_Context\<close>.

  The loops over argument lists are combinators whose congruence rules let the mutually recursive
  functions of the code be defined through them. \<open>None\<close> is a null pointer that is followed, when
  the second of two argument lists is the shorter; the last section shows that this does not happen
  for terms with fixed arities.
\<close>

section \<open>Loops\<close>

text \<open>\<open>list_DeleteOneElement\<close> and \<open>list_NMultisetDifference\<close>, here on lists of terms.\<close>

fun delete_one :: "('a \<Rightarrow> 'a \<Rightarrow> bool option) \<Rightarrow> 'a \<Rightarrow> 'a list \<Rightarrow> 'a list option" where
  "delete_one f u [] = Some []"
| "delete_one f u (t # ts) =
     (case f u t of
        None \<Rightarrow> None
      | Some b \<Rightarrow> if b then Some ts else map_option ((#) t) (delete_one f u ts))"

fun multiset_difference :: "('a \<Rightarrow> 'a \<Rightarrow> bool option) \<Rightarrow> 'a list \<Rightarrow> 'a list \<Rightarrow> 'a list option" where
  "multiset_difference f ts [] = Some ts"
| "multiset_difference f ts (u # us) =
     (case delete_one f u ts of None \<Rightarrow> None | Some ts \<Rightarrow> multiset_difference f ts us)"

fun lex_equal :: "('a \<Rightarrow> 'a \<Rightarrow> bool option) \<Rightarrow> 'a list \<Rightarrow> 'a list \<Rightarrow> bool option" where
  "lex_equal f [] us = Some True"
| "lex_equal f (t # ts) [] = None"
| "lex_equal f (t # ts) (u # us) =
     (case f t u of None \<Rightarrow> None | Some b \<Rightarrow> if b then lex_equal f ts us else Some False)"

text \<open>The first result that is not \<open>ord_EQUAL\<close>, and the arguments behind it.\<close>

fun lex_first :: "('a \<Rightarrow> 'a \<Rightarrow> ord_RESULT option) \<Rightarrow> 'a list \<Rightarrow> 'a list \<Rightarrow> (ord_RESULT \<times> 'a list \<times> 'a list) option" where
  "lex_first f [] us = Some (ord_EQUAL, [], us)"
| "lex_first f (t # ts) [] = None"
| "lex_first f (t # ts) (u # us) =
     (case f t u of None \<Rightarrow> None | Some r \<Rightarrow> if r = ord_EQUAL then lex_first f ts us else Some (r, ts, us))"

lemma delete_one_set: "delete_one f u ts = Some us \<Longrightarrow> set us \<subseteq> set ts"
  by (induction ts arbitrary: us) (auto split: option.splits if_splits)

lemma delete_one_cong: "(\<And>t. t \<in> set ts \<Longrightarrow> f u t = g u t) \<Longrightarrow> delete_one f u ts = delete_one g u ts"
  by (induction ts) (auto split: option.splits)

lemma multiset_difference_set: "multiset_difference f ts us = Some vs \<Longrightarrow> set vs \<subseteq> set ts"
  by (induction us arbitrary: ts) (auto split: option.splits dest!: delete_one_set)

lemma multiset_difference_eq:
  "(\<And>t u. t \<in> set ts \<Longrightarrow> u \<in> set us \<Longrightarrow> f u t = g u t) \<Longrightarrow> multiset_difference f ts us = multiset_difference g ts us"
proof (induction us arbitrary: ts)
  case (Cons u us)
  have d: "delete_one f u ts = delete_one g u ts" using Cons(2) by (intro delete_one_cong) auto
  show ?case
  proof (cases "delete_one g u ts")
    case (Some vs)
    have "multiset_difference f vs us = multiset_difference g vs us"
      by (rule Cons(1)) (use Cons(2) delete_one_set [OF Some] in auto)
    then show ?thesis using d Some by simp
  qed (simp add: d)
qed simp

lemma multiset_difference_cong [fundef_cong]:
  "ts = ts' \<Longrightarrow> us = us' \<Longrightarrow> (\<And>t u. t \<in> set ts' \<Longrightarrow> u \<in> set us' \<Longrightarrow> f u t = g u t)
    \<Longrightarrow> multiset_difference f ts us = multiset_difference g ts' us'"
  using multiset_difference_eq by blast

lemma lex_equal_cong [fundef_cong]:
  "ts = ts' \<Longrightarrow> us = us' \<Longrightarrow> (\<And>t u. t \<in> set ts' \<Longrightarrow> u \<in> set us' \<Longrightarrow> f t u = g t u) \<Longrightarrow> lex_equal f ts us = lex_equal g ts' us'"
  by (induction f ts us arbitrary: ts' us' rule: lex_equal.induct) (auto split: option.splits)

lemma lex_first_cong [fundef_cong]:
  "ts = ts' \<Longrightarrow> us = us' \<Longrightarrow> (\<And>t u. t \<in> set ts' \<Longrightarrow> u \<in> set us' \<Longrightarrow> f t u = g t u) \<Longrightarrow> lex_first f ts us = lex_first g ts' us'"
  by (induction f ts us arbitrary: ts' us' rule: lex_first.induct) (auto split: option.splits)

lemma lex_first_set: "lex_first f ts us = Some (r, ts', us') \<Longrightarrow> set ts' \<subseteq> set ts \<and> set us' \<subseteq> set us"
  by (induction f ts us rule: lex_first.induct) (auto split: option.splits if_splits)

section \<open>Equality\<close>

lemmas nodes_args = nodes_arg add_strict_mono [OF nodes_arg nodes_arg]

function rpos_Equal :: "symbol_table \<Rightarrow> TERM_NODE \<Rightarrow> TERM_NODE \<Rightarrow> bool option" where
  "rpos_Equal st T1 T2 =
     (if \<not> term_EqualTopSymbols T1 T2 then Some False
      else if \<not> term_IsComplex T1 then Some True
      else if symbol_HasProperty st (term_TopSymbol T1) ORDMUL then
        (case multiset_difference (rpos_Equal st) (term_ArgumentList T1) (term_ArgumentList T2) of
           None \<Rightarrow> None
         | Some l1 \<Rightarrow> Some (l1 = []))
      else lex_equal (rpos_Equal st) (term_ArgumentList T1) (term_ArgumentList T2))"
  by pat_completeness auto
termination
  by (relation "measure (\<lambda>(st, T1, T2). nodes T1 + nodes T2)")
    (auto intro: nodes_args simp: add.commute [of "nodes _" "nodes _"])

declare rpos_Equal.simps [simp del]

definition rpos_MultisetDifference :: "symbol_table \<Rightarrow> TERM_NODE \<Rightarrow> TERM_NODE \<Rightarrow> TERM_NODE list option" where
  "rpos_MultisetDifference st T1 T2 =
     multiset_difference (rpos_Equal st) (term_ArgumentList T1) (term_ArgumentList T2)"

lemma rpos_MultisetDifference_set: "rpos_MultisetDifference st T1 T2 = Some l \<Longrightarrow> set l \<subseteq> set (term_ArgumentList T1)"
  by (auto simp: rpos_MultisetDifference_def dest: multiset_difference_set)

section \<open>Comparison\<close>

text \<open>\<open>rpos_Greater\<close> is \<open>rpos_GreaterEqual\<close> with a test of its result.\<close>

definition is_greater :: "ord_RESULT option \<Rightarrow> bool option" where
  "is_greater r = map_option (\<lambda>r. r = ord_GREATER_THAN) r"

definition is_comparable :: "ord_RESULT option \<Rightarrow> bool option" where
  "is_comparable r = map_option (\<lambda>r. r \<noteq> ord_UNCOMPARABLE) r"

definition greater_or_uncomparable :: "bool option \<Rightarrow> ord_RESULT option" where
  "greater_or_uncomparable r = map_option (\<lambda>b. if b then ord_GREATER_THAN else ord_UNCOMPARABLE) r"

function rpos_GreaterEqual :: "symbol_table \<Rightarrow> PRECEDENCE \<Rightarrow> bool \<Rightarrow> TERM_NODE \<Rightarrow> TERM_NODE \<Rightarrow> ord_RESULT option"
and rpos_MulGreaterEqual :: "symbol_table \<Rightarrow> PRECEDENCE \<Rightarrow> bool \<Rightarrow> TERM_NODE \<Rightarrow> TERM_NODE \<Rightarrow> ord_RESULT option"
and rpos_LexGreaterEqual :: "symbol_table \<Rightarrow> PRECEDENCE \<Rightarrow> bool \<Rightarrow> TERM_NODE \<Rightarrow> TERM_NODE \<Rightarrow> ord_RESULT option" where
  "rpos_GreaterEqual st P VarIsConst T1 T2 =
     (if term_IsVariable T1 then
        if term_EqualTopSymbols T1 T2 then Some ord_EQUAL
        else if VarIsConst \<and> term_IsVariable T2 then
          if term_TopSymbol T1 > term_TopSymbol T2 then Some ord_GREATER_THAN else Some ord_UNCOMPARABLE
        else Some ord_UNCOMPARABLE
      else if \<not> VarIsConst \<and> term_IsVariable T2 then
        if term_ContainsSymbol T1 (term_TopSymbol T2) then Some ord_GREATER_THAN else Some ord_UNCOMPARABLE
      else if VarIsConst \<and> term_IsVariable T2 then Some ord_GREATER_THAN
      else if term_EqualTopSymbols T1 T2 then
        if symbol_HasProperty st (term_TopSymbol T1) ORDMUL then rpos_MulGreaterEqual st P VarIsConst T1 T2
        else rpos_LexGreaterEqual st P VarIsConst T1 T2
      else if symbol_PrecedenceGreater P (term_TopSymbol T1) (term_TopSymbol T2) then
        greater_or_uncomparable
          (all_loop (\<lambda>t. is_greater (rpos_GreaterEqual st P VarIsConst T1 t)) (term_ArgumentList T2))
      else
        greater_or_uncomparable
          (any_loop (\<lambda>t. is_comparable (rpos_GreaterEqual st P VarIsConst t T2)) (term_ArgumentList T1)))"
| "rpos_MulGreaterEqual st P VarIsConst T1 T2 =
     (case rpos_MultisetDifference st T1 T2 of
        None \<Rightarrow> None
      | Some l1 \<Rightarrow>
          if l1 = [] then Some ord_EQUAL
          else (case rpos_MultisetDifference st T2 T1 of
            None \<Rightarrow> None
          | Some l2 \<Rightarrow>
              greater_or_uncomparable
                (all_loop (\<lambda>u. any_loop (\<lambda>t. is_greater (rpos_GreaterEqual st P VarIsConst t u)) l1) l2)))"
| "rpos_LexGreaterEqual st P VarIsConst T1 T2 =
     (case (if symbol_HasProperty st (term_TopSymbol T1) ORDRIGHT
            then (rev (term_ArgumentList T1), rev (term_ArgumentList T2))
            else (term_ArgumentList T1, term_ArgumentList T2)) of
        (l1, l2) \<Rightarrow>
          (case lex_first (\<lambda>t u. rpos_GreaterEqual st P VarIsConst t u) l1 l2 of
             None \<Rightarrow> None
           | Some (result, scan1, scan2) \<Rightarrow>
               if result = ord_EQUAL then Some ord_EQUAL
               else if result = ord_GREATER_THAN then
                 greater_or_uncomparable (all_loop (\<lambda>u. is_greater (rpos_GreaterEqual st P VarIsConst T1 u)) scan2)
               else
                 greater_or_uncomparable (any_loop (\<lambda>t. is_comparable (rpos_GreaterEqual st P VarIsConst t T2)) scan1)))"
  by pat_completeness auto
termination
  by (relation "measure (\<lambda>x. case x of Inl (st, P, V, T1, T2) \<Rightarrow> 2 * (nodes T1 + nodes T2) + 1
      | Inr (Inl (st, P, V, T1, T2)) \<Rightarrow> 2 * (nodes T1 + nodes T2)
      | Inr (Inr (st, P, V, T1, T2)) \<Rightarrow> 2 * (nodes T1 + nodes T2))")
    (auto dest!: nodes_arg rpos_MultisetDifference_set lex_first_set subsetD split: if_splits)

declare rpos_GreaterEqual.simps [simp del] rpos_MulGreaterEqual.simps [simp del] rpos_LexGreaterEqual.simps [simp del]

definition rpos_Greater :: "symbol_table \<Rightarrow> PRECEDENCE \<Rightarrow> TERM_NODE \<Rightarrow> TERM_NODE \<Rightarrow> bool \<Rightarrow> bool option" where
  "rpos_Greater st P T1 T2 VarIsConst = is_greater (rpos_GreaterEqual st P VarIsConst T1 T2)"

definition rpos_CompareAux :: "symbol_table \<Rightarrow> PRECEDENCE \<Rightarrow> TERM_NODE \<Rightarrow> TERM_NODE \<Rightarrow> bool \<Rightarrow> ord_RESULT option" where
  "rpos_CompareAux st P T1 T2 VarIsConst =
     (case rpos_GreaterEqual st P VarIsConst T1 T2 of
        None \<Rightarrow> None
      | Some result \<Rightarrow>
          if result \<noteq> ord_UNCOMPARABLE then Some result
          else (case rpos_Greater st P T2 T1 VarIsConst of
            None \<Rightarrow> None
          | Some b \<Rightarrow> if b then Some ord_SMALLER_THAN else Some ord_UNCOMPARABLE))"

definition rpos_Compare :: "symbol_table \<Rightarrow> PRECEDENCE \<Rightarrow> TERM_NODE \<Rightarrow> TERM_NODE \<Rightarrow> ord_RESULT option" where
  "rpos_Compare st P T1 T2 = rpos_CompareAux st P T1 T2 False"

definition rpos_CompareSkolem :: "symbol_table \<Rightarrow> PRECEDENCE \<Rightarrow> TERM_NODE \<Rightarrow> TERM_NODE \<Rightarrow> ord_RESULT option" where
  "rpos_CompareSkolem st P T1 T2 = rpos_CompareAux st P T1 T2 True"

section \<open>The order is defined, and equal is equal\<close>

lemma all_loop_defined: "(\<And>x. x \<in> set xs \<Longrightarrow> f x \<noteq> None) \<Longrightarrow> all_loop f xs \<noteq> None"
  by (induction xs) (auto split: option.splits)

lemma any_loop_defined: "(\<And>x. x \<in> set xs \<Longrightarrow> f x \<noteq> None) \<Longrightarrow> any_loop f xs \<noteq> None"
  by (induction xs) (auto split: option.splits)

lemma delete_one_defined: "(\<And>t. t \<in> set ts \<Longrightarrow> f u t \<noteq> None) \<Longrightarrow> delete_one f u ts \<noteq> None"
  by (induction ts) (auto split: option.splits)

lemma multiset_difference_defined:
  "(\<And>t u. t \<in> set ts \<Longrightarrow> u \<in> set us \<Longrightarrow> f u t \<noteq> None) \<Longrightarrow> multiset_difference f ts us \<noteq> None"
proof (induction us arbitrary: ts)
  case (Cons u us)
  obtain vs where v: "delete_one f u ts = Some vs" using delete_one_defined [of ts f u] Cons(2) by auto
  have "multiset_difference f vs us \<noteq> None"
    by (rule Cons(1)) (use Cons(2) delete_one_set [OF v] in auto)
  then show ?case using v by simp
qed simp

lemma lex_equal_defined:
  "length ts = length us \<Longrightarrow> (\<And>t u. t \<in> set ts \<Longrightarrow> u \<in> set us \<Longrightarrow> f t u \<noteq> None) \<Longrightarrow> lex_equal f ts us \<noteq> None"
  by (induction ts us rule: list_induct2) (auto split: option.splits)

lemma lex_first_defined:
  "length ts = length us \<Longrightarrow> (\<And>t u. t \<in> set ts \<Longrightarrow> u \<in> set us \<Longrightarrow> f t u \<noteq> None) \<Longrightarrow> lex_first f ts us \<noteq> None"
  by (induction ts us rule: list_induct2) (auto split: option.splits)

lemma lex_equal_iff: "length ts = length us \<Longrightarrow> lex_equal f ts us = Some True \<longleftrightarrow> list_all2 (\<lambda>t u. f t u = Some True) ts us"
  by (induction ts us rule: list_induct2) (auto split: option.splits)

lemma lex_first_iff:
  "length ts = length us \<Longrightarrow> (\<exists>ts' us'. lex_first f ts us = Some (ord_EQUAL, ts', us')) \<longleftrightarrow> list_all2 (\<lambda>t u. f t u = Some ord_EQUAL) ts us"
  by (induction ts us rule: list_induct2) (auto split: option.splits)

lemma arity_arg: "arity_ok ar t \<Longrightarrow> u \<in> set (term_ArgumentList t) \<Longrightarrow> arity_ok ar u"
  by (cases t) (simp add: arity_ok_simp)

lemma arity_length: "arity_ok ar t \<Longrightarrow> length (term_ArgumentList t) = ar (term_TopSymbol t)"
  by (cases t) (simp add: arity_ok_simp)

lemma same_length:
  "arity_ok ar s \<Longrightarrow> arity_ok ar t \<Longrightarrow> term_EqualTopSymbols s t \<Longrightarrow> length (term_ArgumentList s) = length (term_ArgumentList t)"
  by (simp add: arity_length term_EqualTopSymbols_def symbol_Equal_def)

lemma rpos_Equal_defined: "arity_ok ar s \<Longrightarrow> arity_ok ar t \<Longrightarrow> rpos_Equal st s t \<noteq> None"
proof (induction "nodes s + nodes t" arbitrary: s t rule: less_induct)
  case less
  have IH: "rpos_Equal st u v \<noteq> None"
    if "u \<in> set (term_ArgumentList s) \<and> v \<in> set (term_ArgumentList t) \<or> u \<in> set (term_ArgumentList t) \<and> v \<in> set (term_ArgumentList s)" for u v
  proof (rule less(1))
    show "nodes u + nodes v < nodes s + nodes t" using that nodes_arg by (metis add.commute add_strict_mono)
    show "arity_ok ar u" "arity_ok ar v" using that arity_arg [OF less(2)] arity_arg [OF less(3)] by blast+
  qed
  show ?case
    using multiset_difference_defined [of "term_ArgumentList s" "term_ArgumentList t" "rpos_Equal st"]
      lex_equal_defined [of "term_ArgumentList s" "term_ArgumentList t" "rpos_Equal st"] IH same_length [OF less(2,3)]
    by (subst rpos_Equal.simps) (auto split: option.splits)
qed

lemma rpos_MultisetDifference_defined:
  "arity_ok ar s \<Longrightarrow> arity_ok ar t \<Longrightarrow> rpos_MultisetDifference st s t \<noteq> None"
  unfolding rpos_MultisetDifference_def
  by (rule multiset_difference_defined, rule rpos_Equal_defined [of ar]) (auto intro: arity_arg)

lemma result_defined [simp]:
  "is_greater r = None \<longleftrightarrow> r = None" "is_comparable r = None \<longleftrightarrow> r = None" "greater_or_uncomparable b = None \<longleftrightarrow> b = None"
  by (simp_all add: is_greater_def is_comparable_def greater_or_uncomparable_def)

lemma greater_or_uncomparable_neq [simp]: "greater_or_uncomparable b \<noteq> Some ord_EQUAL"
  by (cases b) (auto simp: greater_or_uncomparable_def)

lemma rpos_LexGreaterEqual_ok:
  assumes "length (term_ArgumentList s) = length (term_ArgumentList t)"
    "\<And>u v. u \<in> set (term_ArgumentList s) \<Longrightarrow> v \<in> set (term_ArgumentList t) \<Longrightarrow> rpos_GreaterEqual st P V u v \<noteq> None
       \<and> (rpos_GreaterEqual st P V u v = Some ord_EQUAL \<longleftrightarrow> rpos_Equal st u v = Some True)"
    "\<And>v. v \<in> set (term_ArgumentList t) \<Longrightarrow> rpos_GreaterEqual st P V s v \<noteq> None"
    "\<And>u. u \<in> set (term_ArgumentList s) \<Longrightarrow> rpos_GreaterEqual st P V u t \<noteq> None"
  shows "rpos_LexGreaterEqual st P V s t \<noteq> None \<and> (rpos_LexGreaterEqual st P V s t = Some ord_EQUAL
     \<longleftrightarrow> list_all2 (\<lambda>u v. rpos_Equal st u v = Some True) (term_ArgumentList s) (term_ArgumentList t))"
proof -
  define ls where "ls = (if symbol_HasProperty st (term_TopSymbol s) ORDRIGHT then rev (term_ArgumentList s) else term_ArgumentList s)"
  define lt where "lt = (if symbol_HasProperty st (term_TopSymbol s) ORDRIGHT then rev (term_ArgumentList t) else term_ArgumentList t)"
  have set: "set ls = set (term_ArgumentList s)" "set lt = set (term_ArgumentList t)" and len: "length ls = length lt"
    using assms(1) by (simp_all add: ls_def lt_def)
  let ?G = "\<lambda>u v. rpos_GreaterEqual st P V u v"
  have "lex_first ?G ls lt \<noteq> None" by (rule lex_first_defined [OF len]) (use assms(2) set in auto)
  then obtain r ss ts where f: "lex_first ?G ls lt = Some (r, ss, ts)" by (cases "lex_first ?G ls lt") auto
  have sub: "set ss \<subseteq> set (term_ArgumentList s)" "set ts \<subseteq> set (term_ArgumentList t)" using lex_first_set [OF f] set by auto
  have e: "rpos_LexGreaterEqual st P V s t = (if r = ord_EQUAL then Some ord_EQUAL
      else if r = ord_GREATER_THAN then greater_or_uncomparable (all_loop (\<lambda>u. is_greater (?G s u)) ts)
      else greater_or_uncomparable (any_loop (\<lambda>u. is_comparable (?G u t)) ss))"
    using f by (subst rpos_LexGreaterEqual.simps) (simp add: ls_def lt_def split: if_splits)
  have "all_loop (\<lambda>u. is_greater (?G s u)) ts \<noteq> None" by (rule all_loop_defined) (use assms(3) sub in auto)
  moreover have "any_loop (\<lambda>u. is_comparable (?G u t)) ss \<noteq> None" by (rule any_loop_defined) (use assms(4) sub in auto)
  ultimately have "rpos_LexGreaterEqual st P V s t \<noteq> None" unfolding e by (auto simp: greater_or_uncomparable_def)
  moreover have "rpos_LexGreaterEqual st P V s t = Some ord_EQUAL \<longleftrightarrow> list_all2 (\<lambda>u v. ?G u v = Some ord_EQUAL) ls lt"
    unfolding e using lex_first_iff [OF len, of ?G] f by auto
  moreover have "list_all2 (\<lambda>u v. ?G u v = Some ord_EQUAL) ls lt \<longleftrightarrow> list_all2 (\<lambda>u v. rpos_Equal st u v = Some True) ls lt"
    by (rule list.rel_cong) (use assms(2) set in auto)
  moreover have "list_all2 R ls lt \<longleftrightarrow> list_all2 R (term_ArgumentList s) (term_ArgumentList t)" for R
    by (simp add: ls_def lt_def)
  ultimately show ?thesis by simp
qed

lemma rpos_GreaterEqual_ok:
  assumes "arity_ok ar s" "arity_ok ar t" "var_leaf s" "var_leaf t"
  shows "rpos_GreaterEqual st P V s t \<noteq> None \<and> (rpos_GreaterEqual st P V s t = Some ord_EQUAL \<longleftrightarrow> rpos_Equal st s t = Some True)"
  using assms
proof (induction "nodes s + nodes t" arbitrary: s t rule: less_induct)
  case less
  note as = less(2) and at = less(3)
  have arg: "arity_ok ar u \<and> var_leaf u \<and> nodes u < nodes x" if "u \<in> set (term_ArgumentList x)" "x = s \<or> x = t" for u x
    using that less(2-5) arity_arg nodes_arg subterms_arg [OF that(1)] by (auto simp: var_leaf_def)
  have IH: "rpos_GreaterEqual st P V u v \<noteq> None \<and> (rpos_GreaterEqual st P V u v = Some ord_EQUAL \<longleftrightarrow> rpos_Equal st u v = Some True)"
    if "u \<in> set (term_ArgumentList s) \<and> v \<in> set (term_ArgumentList t) \<or> u = s \<and> v \<in> set (term_ArgumentList t)
        \<or> u \<in> set (term_ArgumentList s) \<and> v = t" for u v
    using that less(2-5) arg by (intro less(1)) (auto intro: add_strict_mono)
  note G = rpos_GreaterEqual.simps [of st P V s t] and E = rpos_Equal.simps [of st s t]
  consider (vs) "term_IsVariable s" | (vt) "\<not> term_IsVariable s" "term_IsVariable t"
    | (top) "\<not> term_IsVariable s" "\<not> term_IsVariable t" "term_EqualTopSymbols s t"
    | (diff) "\<not> term_IsVariable s" "\<not> term_IsVariable t" "\<not> term_EqualTopSymbols s t" by blast
  then show ?case
  proof cases
    case vs
    then have "leaf s" using less(4) by (simp add: var_leaf_def)
    then show ?thesis using vs by (simp add: G E)
  next
    case vt
    then have "\<not> term_EqualTopSymbols s t" by (auto simp: term_EqualTopSymbols_def symbol_Equal_def term_IsVariable_def)
    then show ?thesis using vt by (simp add: G E)
  next
    case top
    note len = same_length [OF as at top(3)]
    show ?thesis
    proof (cases "symbol_HasProperty st (term_TopSymbol s) ORDMUL")
      case True
      obtain l1 l2 where l: "rpos_MultisetDifference st s t = Some l1" "rpos_MultisetDifference st t s = Some l2"
        using rpos_MultisetDifference_defined as at by (metis not_Some_eq)
      have "all_loop (\<lambda>u. any_loop (\<lambda>t. is_greater (rpos_GreaterEqual st P V t u)) l1) l2 \<noteq> None"
        using rpos_MultisetDifference_set [OF l(1)] rpos_MultisetDifference_set [OF l(2)] IH
        by (intro all_loop_defined any_loop_defined, unfold result_defined) blast
      moreover have "leaf s \<Longrightarrow> l1 = []" using l(1) len by (auto simp: leaf_def rpos_MultisetDifference_def)
      ultimately show ?thesis
        using True top l by (auto simp: G E rpos_MulGreaterEqual.simps rpos_MultisetDifference_def leaf_def greater_or_uncomparable_def)
    next
      case False
      have L: "rpos_LexGreaterEqual st P V s t \<noteq> None \<and> (rpos_LexGreaterEqual st P V s t = Some ord_EQUAL
          \<longleftrightarrow> list_all2 (\<lambda>u v. rpos_Equal st u v = Some True) (term_ArgumentList s) (term_ArgumentList t))"
        by (rule rpos_LexGreaterEqual_ok [OF len]) (use IH in blast)+
      have "leaf s \<Longrightarrow> list_all2 (\<lambda>u v. rpos_Equal st u v = Some True) (term_ArgumentList s) (term_ArgumentList t)"
        using len by (simp add: leaf_def)
      then show ?thesis using L lex_equal_iff [OF len, of "rpos_Equal st"] top False by (auto simp: G E)
    qed
  next
    case diff
    have "all_loop (\<lambda>u. is_greater (rpos_GreaterEqual st P V s u)) (term_ArgumentList t) \<noteq> None"
      by (rule all_loop_defined) (use IH in auto)
    moreover have "any_loop (\<lambda>u. is_comparable (rpos_GreaterEqual st P V u t)) (term_ArgumentList s) \<noteq> None"
      by (rule any_loop_defined) (use IH in auto)
    ultimately show ?thesis using diff by (auto simp: G E greater_or_uncomparable_def)
  qed
qed

lemma rpos_CompareAux_ok:
  assumes "arity_ok ar s" "arity_ok ar t" "var_leaf s" "var_leaf t"
  shows "rpos_CompareAux st P s t V \<noteq> None \<and> (rpos_CompareAux st P s t V = Some ord_EQUAL \<longleftrightarrow> rpos_Equal st s t = Some True)"
  using rpos_GreaterEqual_ok [OF assms, of st P V] rpos_GreaterEqual_ok [OF assms(2,1,4,3), of st P V]
  by (auto simp: rpos_CompareAux_def rpos_Greater_def is_greater_def split: option.splits)

end
