(* ===== verification/Spass_Order.thy ===== *)
theory Spass_Order
  imports Spass_RPO
begin

text \<open>
  The order module of SPASS (\<open>order.c\<close>): the choice between the two orders on terms, and from it the
  comparison of literals. A literal is an atom or the negation of an atom; an equation is compared as
  the multiset of its sides.

  \<open>ord_env\<close> gathers what the functions read: the signature, the precedence, the flag \<open>flag_ORD\<close> and the
  symbols of negation and equality. \<open>None\<close> is a null pointer that is followed, as in the two orders.
  The comparisons below contexts are in \<open>Spass_Order_Context\<close>.
\<close>

section \<open>Terms\<close>

datatype flag_ORD = flag_ORDKBO | flag_ORDRPOS

record ord_env =
  ord_table :: symbol_table
  ord_PRECEDENCE :: PRECEDENCE
  ord_flag :: flag_ORD
  fol_NOT :: SYMBOL
  fol_EQUALITY :: SYMBOL

definition ord_CheckDomPred :: "symbol_table \<Rightarrow> TERM_NODE \<Rightarrow> TERM_NODE \<Rightarrow> PRECEDENCE \<Rightarrow> ord_RESULT" where
  "ord_CheckDomPred st T1 T2 P =
     (let dom1 = symbol_HasProperty st (term_TopSymbol T1) DOMPRED;
          dom2 = symbol_HasProperty st (term_TopSymbol T2) DOMPRED
      in if (term_IsAtom T1 \<and> dom1) \<or> (term_IsAtom T2 \<and> dom2) then
           if term_IsAtom T1 then
             if term_IsAtom T2 then
               if dom1 \<and> (\<not> dom2 \<or> symbol_PrecedenceGreater P (term_TopSymbol T1) (term_TopSymbol T2)) then ord_GREATER_THAN
               else if \<not> dom1 \<or> term_TopSymbol T1 \<noteq> term_TopSymbol T2 then ord_SMALLER_THAN
               else ord_UNCOMPARABLE
             else ord_GREATER_THAN
           else ord_SMALLER_THAN
         else ord_UNCOMPARABLE)"

definition ord_CompareAux :: "ord_env \<Rightarrow> TERM_NODE \<Rightarrow> TERM_NODE \<Rightarrow> bool \<Rightarrow> ord_RESULT option" where
  "ord_CompareAux env T1 T2 VarIsConst =
     (let Aux = ord_CheckDomPred (ord_table env) T1 T2 (ord_PRECEDENCE env)
      in if Aux \<noteq> ord_UNCOMPARABLE then Some Aux
         else (case ord_flag env of
           flag_ORDKBO \<Rightarrow> kbo_CompareAux (ord_table env) (ord_PRECEDENCE env) T1 T2 VarIsConst
         | flag_ORDRPOS \<Rightarrow> rpos_CompareAux (ord_table env) (ord_PRECEDENCE env) T1 T2 VarIsConst))"

definition ord_Compare :: "ord_env \<Rightarrow> TERM_NODE \<Rightarrow> TERM_NODE \<Rightarrow> ord_RESULT option" where
  "ord_Compare env T1 T2 = ord_CompareAux env T1 T2 False"

definition ord_CompareSkolem :: "ord_env \<Rightarrow> TERM_NODE \<Rightarrow> TERM_NODE \<Rightarrow> ord_RESULT option" where
  "ord_CompareSkolem env T1 T2 = ord_CompareAux env T1 T2 True"

definition ord_CompareEqual :: "ord_env \<Rightarrow> TERM_NODE \<Rightarrow> TERM_NODE \<Rightarrow> bool option" where
  "ord_CompareEqual env T1 T2 =
     (case ord_flag env of
        flag_ORDKBO \<Rightarrow> Some (term_Equal T1 T2)
      | flag_ORDRPOS \<Rightarrow> rpos_Equal (ord_table env) T1 T2)"

section \<open>Literals\<close>

definition fol_IsEquality :: "ord_env \<Rightarrow> TERM_NODE \<Rightarrow> bool" where
  "fol_IsEquality env Term \<longleftrightarrow> term_TopSymbol Term = fol_EQUALITY env"

text \<open>The sign decides between equal atoms.\<close>

definition by_sign :: "bool \<Rightarrow> bool \<Rightarrow> ord_RESULT \<Rightarrow> ord_RESULT" where
  "by_sign pos1 pos2 result =
     (if result = ord_EQUAL then
        if pos1 \<and> \<not> pos2 then ord_SMALLER_THAN
        else if \<not> pos1 \<and> pos2 then ord_GREATER_THAN
        else result
      else result)"

text \<open>Both equations are oriented.\<close>

definition lit_both_oriented ::
  "(TERM_NODE \<Rightarrow> TERM_NODE \<Rightarrow> ord_RESULT option) \<Rightarrow> bool \<Rightarrow> bool \<Rightarrow> TERM_NODE \<Rightarrow> TERM_NODE \<Rightarrow> TERM_NODE \<Rightarrow> TERM_NODE \<Rightarrow> ord_RESULT option"
where
  "lit_both_oriented cmp pos1 pos2 l1 r1 l2 r2 = do {
     result \<leftarrow> cmp l1 l2;
     if result = ord_EQUAL then
       if pos1 then
         if pos2 then cmp r1 r2 else Some ord_SMALLER_THAN
       else if pos2 then Some ord_GREATER_THAN
       else cmp r1 r2
     else Some result }"

text \<open>The second is not oriented.\<close>

definition lit_first_oriented ::
  "(TERM_NODE \<Rightarrow> TERM_NODE \<Rightarrow> ord_RESULT option) \<Rightarrow> bool \<Rightarrow> bool \<Rightarrow> TERM_NODE \<Rightarrow> TERM_NODE \<Rightarrow> TERM_NODE \<Rightarrow> TERM_NODE \<Rightarrow> ord_RESULT option"
where
  "lit_first_oriented cmp pos1 pos2 l1 r1 l2 r2 =
     (if term_Equal l1 l2 then map_option (by_sign pos1 pos2) (cmp r1 r2)
      else if term_Equal l1 r2 then map_option (by_sign pos1 pos2) (cmp r1 l2)
      else do {
        result \<leftarrow> cmp l1 l2;
        AuxRl1r2 \<leftarrow> cmp l1 r2;
        if result = AuxRl1r2 then Some result
        else do {
          AuxRr1r2 \<leftarrow> cmp r1 r2;
          if result = AuxRr1r2 then Some result
          else if AuxRl1r2 = AuxRr1r2 \<and> AuxRl1r2 = ord_SMALLER_THAN then Some ord_SMALLER_THAN
          else do {
            AuxRr1l2 \<leftarrow> cmp r1 l2;
            if result = AuxRr1l2 \<and> result = ord_SMALLER_THAN then Some ord_SMALLER_THAN
            else Some ord_UNCOMPARABLE } } })"

text \<open>The first is not oriented; the last comparison does not pass the flag \<open>VarIsConst\<close> on, so it has
  an argument of its own.\<close>

definition lit_second_oriented ::
  "(TERM_NODE \<Rightarrow> TERM_NODE \<Rightarrow> ord_RESULT option) \<Rightarrow> (TERM_NODE \<Rightarrow> TERM_NODE \<Rightarrow> ord_RESULT option)
     \<Rightarrow> bool \<Rightarrow> bool \<Rightarrow> TERM_NODE \<Rightarrow> TERM_NODE \<Rightarrow> TERM_NODE \<Rightarrow> TERM_NODE \<Rightarrow> ord_RESULT option"
where
  "lit_second_oriented cmp cmp_vars pos1 pos2 l1 r1 l2 r2 =
     (if term_Equal l1 l2 then map_option (by_sign pos1 pos2) (cmp r1 r2)
      else if term_Equal r1 l2 then map_option (by_sign pos1 pos2) (cmp l1 r2)
      else do {
        result \<leftarrow> cmp l1 l2;
        AuxRr1l2 \<leftarrow> cmp r1 l2;
        if result = AuxRr1l2 then Some result
        else do {
          AuxRr1r2 \<leftarrow> cmp r1 r2;
          if result = AuxRr1r2 then Some result
          else if AuxRr1l2 = AuxRr1r2 \<and> AuxRr1l2 = ord_GREATER_THAN then Some ord_GREATER_THAN
          else do {
            AuxRl1r2 \<leftarrow> cmp_vars l1 r2;
            if result = AuxRl1r2 \<and> result = ord_GREATER_THAN then Some ord_GREATER_THAN
            else Some ord_UNCOMPARABLE } } })"

text \<open>Neither is oriented.\<close>

definition lit_none_oriented ::
  "(TERM_NODE \<Rightarrow> TERM_NODE \<Rightarrow> ord_RESULT option) \<Rightarrow> bool \<Rightarrow> bool \<Rightarrow> TERM_NODE \<Rightarrow> TERM_NODE \<Rightarrow> TERM_NODE \<Rightarrow> TERM_NODE \<Rightarrow> ord_RESULT option"
where
  "lit_none_oriented cmp pos1 pos2 l1 r1 l2 r2 =
     (if term_Equal l1 l2 then map_option (by_sign pos1 pos2) (cmp r1 r2)
      else if term_Equal r1 l2 then map_option (by_sign pos1 pos2) (cmp l1 r2)
      else if term_Equal l1 r2 then map_option (by_sign pos1 pos2) (cmp r1 l2)
      else if term_Equal r1 r2 then map_option (by_sign pos1 pos2) (cmp l1 l2)
      else do {
        result \<leftarrow> cmp l1 l2;
        if result = ord_UNCOMPARABLE then do {
          result \<leftarrow> cmp l1 r2;
          if result = ord_UNCOMPARABLE then do {
            a \<leftarrow> cmp r1 l2;
            if a = ord_GREATER_THAN then do {
              b \<leftarrow> cmp r1 r2;
              Some (if b = ord_GREATER_THAN then ord_GREATER_THAN else ord_UNCOMPARABLE) }
            else Some ord_UNCOMPARABLE }
          else if result = ord_GREATER_THAN then do {
            a \<leftarrow> cmp r1 l2;
            Some (if a = ord_GREATER_THAN then ord_GREATER_THAN else ord_UNCOMPARABLE) }
          else if result = ord_SMALLER_THAN then do {
            a \<leftarrow> cmp r1 l2;
            if a = ord_SMALLER_THAN then Some ord_SMALLER_THAN
            else do {
              b \<leftarrow> cmp r1 r2;
              Some (if b = ord_SMALLER_THAN then ord_SMALLER_THAN else ord_UNCOMPARABLE) } }
          else Some result }
        else if result = ord_GREATER_THAN then do {
          result \<leftarrow> cmp l1 r2;
          if result = ord_GREATER_THAN then Some ord_GREATER_THAN
          else do {
            auxResult \<leftarrow> cmp r1 r2;
            if auxResult = ord_GREATER_THAN then Some ord_GREATER_THAN
            else if result = ord_UNCOMPARABLE \<or> auxResult = ord_UNCOMPARABLE then Some ord_UNCOMPARABLE
            else Some ord_SMALLER_THAN } }
        else if result = ord_SMALLER_THAN then do {
          result \<leftarrow> cmp r1 l2;
          if result = ord_SMALLER_THAN then Some ord_SMALLER_THAN
          else do {
            auxResult \<leftarrow> cmp r1 r2;
            if auxResult = ord_SMALLER_THAN then Some ord_SMALLER_THAN
            else if result = ord_UNCOMPARABLE \<or> auxResult = ord_UNCOMPARABLE then Some ord_UNCOMPARABLE
            else Some ord_GREATER_THAN } }
        else Some result })"

text \<open>In the branch of an unoriented first equation the code reads
  \<open>(Comp2 = ord_CompareAux(...) == ord_GREATER_THAN)\<close>, which stores the truth value of the comparison;
  as a result, 1 is \<open>ord_SMALLER_THAN\<close> and 0 is \<open>ord_UNCOMPARABLE\<close>.\<close>

definition ord_LiteralCompareAux ::
  "ord_env \<Rightarrow> TERM_NODE \<Rightarrow> bool \<Rightarrow> TERM_NODE \<Rightarrow> bool \<Rightarrow> bool \<Rightarrow> bool \<Rightarrow> ord_RESULT option" where
  "ord_LiteralCompareAux env Lit1 Orient1 Lit2 Orient2 Check VarIsConst = do {
     let cmp = (\<lambda>a b. ord_CompareAux env a b VarIsConst);
     (Lit1, pos1) \<leftarrow> (if symbol_Equal (term_TopSymbol Lit1) (fol_NOT env)
                     then map_option (\<lambda>a. (a, False)) (term_FirstArgument Lit1) else Some (Lit1, True));
     (Lit2, pos2) \<leftarrow> (if symbol_Equal (term_TopSymbol Lit2) (fol_NOT env)
                     then map_option (\<lambda>a. (a, False)) (term_FirstArgument Lit2) else Some (Lit2, True));
     if fol_IsEquality env Lit1 then
       if fol_IsEquality env Lit2 then do {
         l1 \<leftarrow> term_FirstArgument Lit1;
         r1 \<leftarrow> term_SecondArgument Lit1;
         l2 \<leftarrow> term_FirstArgument Lit2;
         r2 \<leftarrow> term_SecondArgument Lit2;
         Comp1 \<leftarrow> (if \<not> Orient1 \<and> Check then cmp l1 r1 else Some ord_UNCOMPARABLE);
         if Orient1 \<or> Comp1 = ord_GREATER_THAN \<or> Comp1 = ord_SMALLER_THAN then do {
           let (l1, r1) = (if Comp1 = ord_SMALLER_THAN then (r1, l1) else (l1, r1));
           Comp2 \<leftarrow> (if \<not> Orient2 \<and> Check then cmp l2 r2 else Some ord_UNCOMPARABLE);
           if Orient2 \<or> Comp2 = ord_GREATER_THAN \<or> Comp2 = ord_SMALLER_THAN then do {
             let (l2, r2) = (if Comp2 = ord_SMALLER_THAN then (r2, l2) else (l2, r2));
             lit_both_oriented cmp pos1 pos2 l1 r1 l2 r2 }
           else lit_first_oriented cmp pos1 pos2 l1 r1 l2 r2 }
         else do {
           Comp2 \<leftarrow> (if \<not> Orient2 \<and> Check
                    then map_option (\<lambda>r. if r = ord_GREATER_THAN then ord_SMALLER_THAN else ord_UNCOMPARABLE) (cmp l2 r2)
                    else Some ord_UNCOMPARABLE);
           if Orient2 \<or> Comp2 = ord_SMALLER_THAN then do {
             let (l2, r2) = (if Comp2 = ord_SMALLER_THAN then (r2, l2) else (l2, r2));
             lit_second_oriented cmp (ord_Compare env) pos1 pos2 l1 r1 l2 r2 }
           else lit_none_oriented cmp pos1 pos2 l1 r1 l2 r2 } }
       else do {
         l1 \<leftarrow> term_FirstArgument Lit1;
         result \<leftarrow> cmp l1 Lit2;
         if \<not> Orient1 \<and> result \<noteq> ord_GREATER_THAN then do {
           r1 \<leftarrow> term_SecondArgument Lit1;
           auxResult \<leftarrow> cmp r1 Lit2;
           Some (if auxResult = ord_GREATER_THAN then ord_GREATER_THAN
                 else if result \<noteq> auxResult then ord_UNCOMPARABLE else result) }
         else Some result }
     else if fol_IsEquality env Lit2 then do {
       l2 \<leftarrow> term_FirstArgument Lit2;
       result \<leftarrow> cmp Lit1 l2;
       if \<not> Orient2 \<and> result \<noteq> ord_SMALLER_THAN then do {
         r2 \<leftarrow> term_SecondArgument Lit2;
         auxResult \<leftarrow> cmp Lit1 r2;
         Some (if auxResult = ord_SMALLER_THAN then ord_SMALLER_THAN
               else if result \<noteq> auxResult then ord_UNCOMPARABLE else result) }
       else Some result }
     else map_option (by_sign pos1 pos2) (cmp Lit1 Lit2) }"

definition ord_LiteralCompare :: "ord_env \<Rightarrow> TERM_NODE \<Rightarrow> bool \<Rightarrow> TERM_NODE \<Rightarrow> bool \<Rightarrow> bool \<Rightarrow> ord_RESULT option" where
  "ord_LiteralCompare env Lit1 Orient1 Lit2 Orient2 Check = ord_LiteralCompareAux env Lit1 Orient1 Lit2 Orient2 Check False"

section \<open>Variables\<close>

text \<open>The counts are those of one column of \<open>ord_VARCOUNT\<close>.\<close>

fun ord_CompareCountVars :: "TERM_NODE \<Rightarrow> (int \<Rightarrow> NAT) \<Rightarrow> (int \<Rightarrow> NAT)" where
  "ord_CompareCountVars (term_Node s ts st sz) VARCOUNT =
     (if term_IsStandardVariable (term_Node s ts st sz) then VARCOUNT(s := VARCOUNT s + 1)
      else fold ord_CompareCountVars ts VARCOUNT)"

fun ord_CompareCheckVars :: "TERM_NODE \<Rightarrow> (int \<Rightarrow> NAT) \<Rightarrow> bool" where
  "ord_CompareCheckVars (term_Node s ts st sz) VARCOUNT =
     (if term_IsStandardVariable (term_Node s ts st sz) \<and> VARCOUNT s = 0 then False
      else list_all (\<lambda>t. ord_CompareCheckVars t VARCOUNT) ts)"

definition ord_CompareVarsSubset :: "TERM_NODE \<Rightarrow> TERM_NODE \<Rightarrow> bool option" where
  "ord_CompareVarsSubset Term1 Term2 =
     (let MaxVar1 = term_MaxVar Term1;
          MaxVar2 = term_MaxVar Term2
      in if MaxVar1 < MaxVar2 then Some False
         else if MaxVar1 \<ge> symbol_MAXSTANDARDVAR then None
         else Some (ord_CompareCheckVars Term2 (ord_CompareCountVars Term1 (\<lambda>i. 0))))"

lemma fold_count_vars:
  assumes "\<forall>t \<in> set ts. \<forall>C. ord_CompareCountVars t C x = C x + of_nat (occurrences x t)"
  shows "fold ord_CompareCountVars ts C x = C x + of_nat (sum_list (map (occurrences x) ts))"
  using assms by (induction ts arbitrary: C) (auto simp: algebra_simps)

lemma occurrences_Node:
  "occurrences x (term_Node s ts st sz) = (if s = x then 1 else 0) + sum_list (map (occurrences x) ts)"
proof -
  have "length (filter P (concat (map subterms ts))) = sum_list (map (\<lambda>u. length (filter P (subterms u))) ts)" for P
    by (induction ts) auto
  then show ?thesis by (simp add: occurrences_def [abs_def])
qed

lemma var_leaf_Node: "var_leaf (term_Node s ts st sz) \<longleftrightarrow> (symbol_IsVariable s \<longrightarrow> ts = []) \<and> (\<forall>t \<in> set ts. var_leaf t)"
  by (auto simp: var_leaf_def leaf_def term_IsVariable_def)

lemma CountVars_ok:
  "var_leaf t \<Longrightarrow> symbol_IsStandardVariable x \<Longrightarrow> ord_CompareCountVars t C x = C x + of_nat (occurrences x t)"
proof (induction t arbitrary: C rule: subterms.induct)
  case (1 s ts st sz)
  have "fold ord_CompareCountVars ts C x = C x + of_nat (sum_list (map (occurrences x) ts))"
    using 1 by (intro fold_count_vars) (auto simp: var_leaf_Node)
  then show ?case using 1(2,3)
    by (auto simp: occurrences_Node term_IsStandardVariable_def symbol_IsStandardVariable_def var_leaf_Node)
qed

lemma CheckVars_ok:
  "ord_CompareCheckVars t C \<longleftrightarrow> (\<forall>x. symbol_IsStandardVariable x \<longrightarrow> 0 < occurrences x t \<longrightarrow> C x \<noteq> 0)"
proof (induction t rule: subterms.induct)
  case (1 s ts st sz)
  have "0 < sum_list (map (occurrences x) ts) \<longleftrightarrow> (\<exists>t \<in> set ts. 0 < occurrences x t)" for x
    by (induction ts) auto
  then show ?case using 1
    by (auto simp: occurrences_Node term_IsStandardVariable_def list_all_iff)
qed

lemma ord_CompareVarsSubset_ok:
  assumes "kbo_term st s" "kbo_term st t"
  shows "ord_CompareVarsSubset s t = Some (\<forall>x. symbol_IsStandardVariable x \<longrightarrow> 0 < occurrences x t \<longrightarrow> 0 < occurrences x s)"
proof (cases "term_MaxVar s < term_MaxVar t")
  case True
  let ?x = "term_MaxVar t"
  have M: "?x = Max (insert 0 (term_TopSymbol ` set (filter term_IsStandardVariable (subterms t))))"
    by (rule term_MaxVar_ok [OF kbo_term_var_leaf [OF assms(2)]])
  have "?x \<in> insert 0 (term_TopSymbol ` set (filter term_IsStandardVariable (subterms t)))"
    unfolding M by (rule Max_in) simp_all
  moreover have "?x \<noteq> 0" using True term_MaxVar_less(1) [OF assms(1)] by simp
  ultimately have "symbol_IsStandardVariable ?x \<and> occurrences ?x t \<noteq> 0"
    by (auto simp: occurrences_0_iff term_IsStandardVariable_def)
  moreover from this have "occurrences ?x s = 0" using term_MaxVar_less(3) [OF assms(1)] True by blast
  ultimately show ?thesis using True by (auto simp: ord_CompareVarsSubset_def Let_def)
next
  case False
  have "(of_nat (occurrences x s) :: NAT) \<noteq> 0 \<longleftrightarrow> 0 < occurrences x s" for x
    using occurrences_bound [of x s] assms(1) nat32_eq_0_iff [of "occurrences x s"] by (auto simp: kbo_term_def)
  then show ?thesis using False term_MaxVar_less(2) [OF assms(1)]
    by (auto simp: ord_CompareVarsSubset_def Let_def CheckVars_ok CountVars_ok [OF kbo_term_var_leaf [OF assms(1)]])
qed

section \<open>Equality and comparison agree\<close>

lemma ord_CheckDomPred_top: "term_TopSymbol s = term_TopSymbol t \<Longrightarrow> ord_CheckDomPred st s t P = ord_UNCOMPARABLE"
  by (auto simp: ord_CheckDomPred_def Let_def term_IsAtom_def PrecedenceGreater_irrefl)

lemma ord_CheckDomPred_neq: "ord_CheckDomPred st s t P \<noteq> ord_EQUAL"
  by (simp add: ord_CheckDomPred_def Let_def)

lemma rpos_Equal_top: "rpos_Equal st s t = Some True \<Longrightarrow> term_TopSymbol s = term_TopSymbol t"
  by (subst (asm) rpos_Equal.simps) (auto simp: term_EqualTopSymbols_def symbol_Equal_def split: if_splits)

lemma ord_Compare_ok:
  assumes "kbo_term (ord_table env) s" "kbo_term (ord_table env) t"
  shows "ord_Compare env s t \<noteq> None \<and> (ord_Compare env s t = Some ord_EQUAL \<longleftrightarrow> ord_CompareEqual env s t = Some True)"
proof (cases "term_TopSymbol s = term_TopSymbol t")
  case True
  then have d: "ord_CheckDomPred (ord_table env) s t (ord_PRECEDENCE env) = ord_UNCOMPARABLE" by (rule ord_CheckDomPred_top)
  have k: "\<exists>r. kbo_CompareAux (ord_table env) (ord_PRECEDENCE env) s t False = Some r \<and> (r = ord_EQUAL \<longleftrightarrow> erase s = erase t)"
    using kbo_Compare_equal [OF assms, of "ord_PRECEDENCE env"] by (auto simp: kbo_Compare_def)
  show ?thesis
  proof (cases "ord_flag env")
    case flag_ORDKBO
    then show ?thesis using k by (auto simp: ord_Compare_def ord_CompareAux_def ord_CompareEqual_def Let_def d kbo_Equal [OF assms])
  next
    case flag_ORDRPOS
    then show ?thesis
      using rpos_CompareAux_ok [OF kbo_term_arity [OF assms(1)] kbo_term_arity [OF assms(2)]
          kbo_term_var_leaf [OF assms(1)] kbo_term_var_leaf [OF assms(2)]]
      by (simp add: ord_Compare_def ord_CompareAux_def ord_CompareEqual_def Let_def d)
  qed
next
  case False
  have e: "ord_CompareEqual env s t \<noteq> Some True"
    using False rpos_Equal_top [of "ord_table env" s t] kbo_Equal [OF assms] erase_invariant(3) [of s t]
    by (auto simp: ord_CompareEqual_def split: flag_ORD.split)
  have r: "rpos_CompareAux (ord_table env) P s t False \<noteq> None \<and> rpos_CompareAux (ord_table env) P s t False \<noteq> Some ord_EQUAL" for P
    using rpos_CompareAux_ok [OF kbo_term_arity [OF assms(1)] kbo_term_arity [OF assms(2)]
        kbo_term_var_leaf [OF assms(1)] kbo_term_var_leaf [OF assms(2)]] False rpos_Equal_top by blast
  have k: "kbo_CompareAux (ord_table env) P s t False \<noteq> None \<and> kbo_CompareAux (ord_table env) P s t False \<noteq> Some ord_EQUAL" for P
    using kbo_Compare_equal [OF assms, of P] False erase_invariant(3) [of s t] by (auto simp: kbo_Compare_def)
  show ?thesis using e r k ord_CheckDomPred_neq
    by (auto simp: ord_Compare_def ord_CompareAux_def Let_def split: flag_ORD.split)
qed

section \<open>Properties\<close>

text \<open>With either order, \<open>ord_Compare\<close> never follows a null pointer on terms with fixed arities and
  variables below 2000, answers equal exactly when \<open>ord_CompareEqual\<close> does, the test for dominating
  predicates included, and \<open>ord_CompareVarsSubset\<close> decides whether every variable of the second term
  occurs in the first.\<close>

theorem ord_Compare_equal:
  assumes "kbo_term (ord_table env) s" "kbo_term (ord_table env) t"
  shows "ord_Compare env s t \<noteq> None \<and> (ord_Compare env s t = Some ord_EQUAL \<longleftrightarrow> ord_CompareEqual env s t = Some True)
    \<and> ord_CompareVarsSubset s t = Some (\<forall>x. symbol_IsStandardVariable x \<longrightarrow> 0 < occurrences x t \<longrightarrow> 0 < occurrences x s)"
  using ord_Compare_ok [OF assms] ord_CompareVarsSubset_ok [OF assms] by blast

definition sample_g :: SYMBOL where "sample_g = -25"

definition sample_env :: "flag_ORD \<Rightarrow> ord_env" where
  "sample_env flag =
     \<lparr>ord_table = sample_table\<lparr>symbol_SIGNATURE := (symbol_SIGNATURE sample_table)(3 \<mapsto> new_entry ''g'' 2 sample_g)\<rparr>,
      ord_PRECEDENCE = (\<lambda>i. i), ord_flag = flag, fol_NOT = -43, fol_EQUALITY = -34\<rparr>"

theorem ord_Compare_equal_witness:
  "ord_Compare (sample_env flag_ORDRPOS) sample_x sample_x = Some ord_EQUAL"
proof -
  have "kbo_term (ord_table (sample_env flag_ORDRPOS)) sample_x"
    by (simp add: kbo_term_def sample_x_def term_Create_def term_IsVariable_def symbol_IsVariable_def leaf_def symbol_consts)
  moreover have "ord_CompareEqual (sample_env flag_ORDRPOS) sample_x sample_x = Some True" by code_simp
  ultimately show ?thesis using ord_Compare_equal by blast
qed

text \<open>C40: the comparison of literals is not an order. Take an equation \<open>A\<close> whose sides are not comparable and an
  equation \<open>B\<close> whose left side is greater than its right side, such that both sides of \<open>A\<close> lie between them.
  When it is not known yet that \<open>B\<close> is oriented, each of the two literals is reported greater than the other:
  the branch for an \<open>A\<close> that is not oriented stores the truth value of a comparison as its result, and so
  compares with the smaller side of \<open>B\<close> first. Told that \<open>B\<close> is oriented, the same branch says that
  \<open>A\<close> is smaller.\<close>

theorem ord_LiteralCompare_both_greater:
  assumes "fol_EQUALITY env \<noteq> fol_NOT env"
    "A = term_Create (fol_EQUALITY env) [s, t]" "B = term_Create (fol_EQUALITY env) [l, r]"
    "ord_Compare env s t = Some ord_UNCOMPARABLE" "ord_Compare env l r = Some ord_GREATER_THAN"
    "ord_Compare env s l = Some ord_SMALLER_THAN" "ord_Compare env t l = Some ord_SMALLER_THAN"
    "ord_Compare env l s = Some ord_GREATER_THAN" "ord_Compare env l t = Some ord_GREATER_THAN"
    "ord_Compare env s r = Some ord_GREATER_THAN" "ord_Compare env t r = Some ord_GREATER_THAN"
    "\<not> term_Equal s r" "\<not> term_Equal t r" "\<not> term_Equal s l" "\<not> term_Equal t l" "\<not> term_Equal l s" "\<not> term_Equal l t"
  shows "ord_LiteralCompare env A False B False True = Some ord_GREATER_THAN
    \<and> ord_LiteralCompare env B False A False True = Some ord_GREATER_THAN
    \<and> ord_LiteralCompare env A False B True True = Some ord_SMALLER_THAN"
  using assms(1,4-) unfolding assms(2,3)
  by (simp add: ord_LiteralCompare_def ord_LiteralCompareAux_def ord_Compare_def term_Create_def symbol_Equal_def
      fol_IsEquality_def term_FirstArgument_def term_SecondArgument_def lit_second_oriented_def lit_first_oriented_def Let_def)

text \<open>The equations \<open>f(x) = f(y)\<close> and \<open>g(f(x), f(y)) = a\<close>.\<close>

theorem ord_LiteralCompare_both_greater_witness:
  "let env = sample_env flag_ORDKBO; fx = term_Create sample_f [term_Create 1 []]; fy = term_Create sample_f [term_Create 2 []];
       A = term_Create (fol_EQUALITY env) [fx, fy];
       B = term_Create (fol_EQUALITY env) [term_Create sample_g [fx, fy], term_Create sample_a []]
   in ord_LiteralCompare env A False B False True = Some ord_GREATER_THAN
    \<and> ord_LiteralCompare env B False A False True = Some ord_GREATER_THAN"
proof -
  let ?env = "sample_env flag_ORDKBO" and ?fx = "term_Create sample_f [term_Create 1 []]" and ?fy = "term_Create sample_f [term_Create 2 []]"
  let ?g = "term_Create sample_g [?fx, ?fy]" and ?a = "term_Create sample_a []"
  have "fol_EQUALITY ?env \<noteq> fol_NOT ?env"
    "ord_Compare ?env ?fx ?fy = Some ord_UNCOMPARABLE" "ord_Compare ?env ?g ?a = Some ord_GREATER_THAN"
    "ord_Compare ?env ?fx ?g = Some ord_SMALLER_THAN" "ord_Compare ?env ?fy ?g = Some ord_SMALLER_THAN"
    "ord_Compare ?env ?g ?fx = Some ord_GREATER_THAN" "ord_Compare ?env ?g ?fy = Some ord_GREATER_THAN"
    "ord_Compare ?env ?fx ?a = Some ord_GREATER_THAN" "ord_Compare ?env ?fy ?a = Some ord_GREATER_THAN"
    "\<not> term_Equal ?fx ?a" "\<not> term_Equal ?fy ?a" "\<not> term_Equal ?fx ?g" "\<not> term_Equal ?fy ?g" "\<not> term_Equal ?g ?fx" "\<not> term_Equal ?g ?fy"
    by code_simp+
  from ord_LiteralCompare_both_greater [OF this(1) refl refl this(2-)] show ?thesis by (simp add: Let_def)
qed

end
