(* ===== verification/Spass_Context.thy ===== *)
theory Spass_Context
  imports Spass_Term_Marks
begin

text \<open>
  Contexts of SPASS (\<open>context.h\<close>, \<open>context.c\<close>): arrays that bind variables to terms below contexts, the
  trail of bindings that links them in the order of their creation, the stack of numbers of bindings,
  and backtracking.

  A context is the address of an array with an entry for each variable, \<open>0\<close> is the null pointer. The
  address of an entry is a context with a variable. The arrays are functions of the variable; the
  functions are called with variables below \<open>cont__SIZE\<close>. An operation on the stack of numbers is \<open>None\<close>
  outside the array of 1000 entries, and an operation on the last binding when there is none.

  \<open>cont_extends\<close> relates a state to those reached by new bindings. Backtracking to a start of
  bindings undoes exactly these.
\<close>

section \<open>State\<close>

type_synonym CONTEXT = ptr

record CONTEXT_NODE =
  cont_BindingSymbol :: SYMBOL
  cont_BindingRenaming :: SYMBOL
  cont_BindingTerm :: "TERM_NODE option"
  cont_BindingContext :: CONTEXT
  cont_BindingLink :: "(CONTEXT \<times> SYMBOL) option"

record cont_state =
  cont_store :: "CONTEXT \<Rightarrow> SYMBOL \<Rightarrow> CONTEXT_NODE"
  cont_LISTOFCONTEXTS :: "CONTEXT list"
  cont_NOOFCONTEXTS :: int
  cont_LASTBINDING :: "(CONTEXT \<times> SYMBOL) option"
  cont_BINDINGS :: int
  cont_STACK :: "int \<Rightarrow> int"
  cont_STACKPOINTER :: int
  cont_LEFTCONTEXT :: CONTEXT
  cont_RIGHTCONTEXT :: CONTEXT
  cont_INSTANCECONTEXT :: CONTEXT
  cont_INDEXVARSCANNER :: SYMBOL
  symbol_INDEXVARCOUNTER :: SYMBOL

definition cont_SIZE :: int where "cont_SIZE = symbol_MAXVARIABLES"
definition cont_STACKSIZE :: int where "cont_STACKSIZE = 1000"
definition symbol_Null :: SYMBOL where "symbol_Null = 0"
definition symbol_GetInitialIndexVarCounter :: SYMBOL where "symbol_GetInitialIndexVarCounter = symbol_MAXSTANDARDVAR"

section \<open>The stack of numbers of bindings\<close>

definition cont_StackInit :: "cont_state \<Rightarrow> cont_state" where
  "cont_StackInit s = s\<lparr>cont_STACKPOINTER := 1\<rparr>"

definition in_stack :: "int \<Rightarrow> bool" where
  "in_stack i \<longleftrightarrow> 0 \<le> i \<and> i < cont_STACKSIZE"

definition cont_StackRplacNth :: "int \<Rightarrow> int \<Rightarrow> cont_state \<Rightarrow> cont_state option" where
  "cont_StackRplacNth N Entry s = (if in_stack N then Some (s\<lparr>cont_STACK := (cont_STACK s)(N := Entry)\<rparr>) else None)"

definition cont_StackPush :: "int \<Rightarrow> cont_state \<Rightarrow> cont_state option" where
  "cont_StackPush Entry s = do {
     s \<leftarrow> cont_StackRplacNth (cont_STACKPOINTER s) Entry s;
     Some (s\<lparr>cont_STACKPOINTER := cont_STACKPOINTER s + 1\<rparr>) }"

definition cont_StackNPop :: "int \<Rightarrow> cont_state \<Rightarrow> cont_state" where
  "cont_StackNPop N s = s\<lparr>cont_STACKPOINTER := cont_STACKPOINTER s - N\<rparr>"

definition cont_StackPop :: "cont_state \<Rightarrow> cont_state" where
  "cont_StackPop s = s\<lparr>cont_STACKPOINTER := cont_STACKPOINTER s - 1\<rparr>"

definition cont_StackNthTop :: "int \<Rightarrow> cont_state \<Rightarrow> int option" where
  "cont_StackNthTop N s = (let i = cont_STACKPOINTER s - (1 + N) in if in_stack i then Some (cont_STACK s i) else None)"

definition cont_StackTop :: "cont_state \<Rightarrow> int option" where
  "cont_StackTop s = (let i = cont_STACKPOINTER s - 1 in if in_stack i then Some (cont_STACK s i) else None)"

definition cont_StackPopResult :: "cont_state \<Rightarrow> (int \<times> cont_state) option" where
  "cont_StackPopResult s = map_option (\<lambda>r. (r, cont_StackPop s)) (cont_StackTop s)"

definition cont_StackRplacTop :: "int \<Rightarrow> cont_state \<Rightarrow> cont_state option" where
  "cont_StackRplacTop Entry s = cont_StackRplacNth (cont_STACKPOINTER s - 1) Entry s"

definition cont_StackRplacNthTop :: "int \<Rightarrow> int \<Rightarrow> cont_state \<Rightarrow> cont_state option" where
  "cont_StackRplacNthTop N Entry s = cont_StackRplacNth (cont_STACKPOINTER s - (1 + N)) Entry s"

definition cont_StackSetBottom :: "int \<Rightarrow> cont_state \<Rightarrow> cont_state" where
  "cont_StackSetBottom Pointer s = s\<lparr>cont_STACKPOINTER := Pointer\<rparr>"

definition cont_StackEmpty :: "int \<Rightarrow> cont_state \<Rightarrow> bool" where
  "cont_StackEmpty Pointer s \<longleftrightarrow> cont_STACKPOINTER s = Pointer"

definition cont_StartBinding :: "cont_state \<Rightarrow> cont_state option" where
  "cont_StartBinding s = map_option (\<lambda>s. s\<lparr>cont_BINDINGS := 0\<rparr>) (cont_StackPush (cont_BINDINGS s) s)"

definition cont_StopAndStartBinding :: "cont_state \<Rightarrow> cont_state option" where
  "cont_StopAndStartBinding s = do {
     t \<leftarrow> cont_StackTop s;
     s \<leftarrow> cont_StackRplacTop (t + cont_BINDINGS s) s;
     Some (s\<lparr>cont_BINDINGS := 0\<rparr>) }"

section \<open>Access\<close>

definition cont_ContextBindingTerm :: "CONTEXT \<Rightarrow> SYMBOL \<Rightarrow> cont_state \<Rightarrow> TERM_NODE option" where
  "cont_ContextBindingTerm C Var s = cont_BindingTerm (cont_store s C Var)"

definition cont_ContextBindingContext :: "CONTEXT \<Rightarrow> SYMBOL \<Rightarrow> cont_state \<Rightarrow> CONTEXT" where
  "cont_ContextBindingContext C Var s = cont_BindingContext (cont_store s C Var)"

definition cont_ContextBindingLink :: "CONTEXT \<Rightarrow> SYMBOL \<Rightarrow> cont_state \<Rightarrow> (CONTEXT \<times> SYMBOL) option" where
  "cont_ContextBindingLink C Var s = cont_BindingLink (cont_store s C Var)"

definition cont_ContextBindingRenaming :: "CONTEXT \<Rightarrow> SYMBOL \<Rightarrow> cont_state \<Rightarrow> SYMBOL" where
  "cont_ContextBindingRenaming C Var s = cont_BindingRenaming (cont_store s C Var)"

definition set_node :: "CONTEXT \<Rightarrow> SYMBOL \<Rightarrow> (CONTEXT_NODE \<Rightarrow> CONTEXT_NODE) \<Rightarrow> cont_state \<Rightarrow> cont_state" where
  "set_node C Var f s = s\<lparr>cont_store := (cont_store s)(C := (cont_store s C)(Var := f (cont_store s C Var)))\<rparr>"

definition cont_SetContextBindingTerm :: "CONTEXT \<Rightarrow> SYMBOL \<Rightarrow> TERM_NODE option \<Rightarrow> cont_state \<Rightarrow> cont_state" where
  "cont_SetContextBindingTerm C Var t = set_node C Var (\<lambda>B. B\<lparr>cont_BindingTerm := t\<rparr>)"

definition cont_SetContextBindingRenaming :: "CONTEXT \<Rightarrow> SYMBOL \<Rightarrow> SYMBOL \<Rightarrow> cont_state \<Rightarrow> cont_state" where
  "cont_SetContextBindingRenaming C Var R = set_node C Var (\<lambda>B. B\<lparr>cont_BindingRenaming := R\<rparr>)"

definition cont_VarIsBound :: "CONTEXT \<Rightarrow> SYMBOL \<Rightarrow> cont_state \<Rightarrow> bool" where
  "cont_VarIsBound C Var s \<longleftrightarrow> cont_ContextBindingTerm C Var s \<noteq> None"

definition cont_VarIsUsed :: "CONTEXT \<Rightarrow> SYMBOL \<Rightarrow> cont_state \<Rightarrow> bool" where
  "cont_VarIsUsed C Var s \<longleftrightarrow> cont_ContextBindingContext C Var s \<noteq> NULL"

definition cont_VarIsLinked :: "CONTEXT \<Rightarrow> SYMBOL \<Rightarrow> cont_state \<Rightarrow> bool" where
  "cont_VarIsLinked C Var s \<longleftrightarrow> cont_ContextBindingLink C Var s \<noteq> None"

definition cont_VarIsRenamed :: "CONTEXT \<Rightarrow> SYMBOL \<Rightarrow> cont_state \<Rightarrow> bool" where
  "cont_VarIsRenamed C Var s \<longleftrightarrow> cont_ContextBindingRenaming C Var s \<noteq> symbol_Null"

definition cont_VarIsClosed :: "CONTEXT \<Rightarrow> SYMBOL \<Rightarrow> cont_state \<Rightarrow> bool" where
  "cont_VarIsClosed C Var s \<longleftrightarrow> \<not> cont_VarIsBound C Var s \<and> cont_VarIsUsed C Var s"

definition cont_IsInContext :: "CONTEXT \<Rightarrow> SYMBOL \<Rightarrow> CONTEXT \<times> SYMBOL \<Rightarrow> bool" where
  "cont_IsInContext C Var B \<longleftrightarrow> (C, Var) = B"

text \<open>What is asked of the last binding is asked of a null pointer when there is none.\<close>

definition cont_LastIsBound :: "cont_state \<Rightarrow> bool option" where
  "cont_LastIsBound s = map_option (\<lambda>(C, Var). cont_VarIsBound C Var s) (cont_LASTBINDING s)"

definition cont_LastIsUsed :: "cont_state \<Rightarrow> bool option" where
  "cont_LastIsUsed s = map_option (\<lambda>(C, Var). cont_VarIsUsed C Var s) (cont_LASTBINDING s)"

definition cont_LastIsClosed :: "cont_state \<Rightarrow> bool option" where
  "cont_LastIsClosed s = do { b \<leftarrow> cont_LastIsBound s; if b then Some False else cont_LastIsUsed s }"

definition cont_ContextOfBinding :: "CONTEXT \<times> SYMBOL \<Rightarrow> cont_state \<Rightarrow> CONTEXT" where
  "cont_ContextOfBinding B s =
     (case find (\<lambda>C. cont_IsInContext C (cont_BindingSymbol (cont_store s (fst B) (snd B))) B) (cont_LISTOFCONTEXTS s) of
        Some C \<Rightarrow> C | None \<Rightarrow> NULL)"

definition cont_IsContextEmpty :: "CONTEXT \<Rightarrow> cont_state \<Rightarrow> bool" where
  "cont_IsContextEmpty Check s =
     list_all (\<lambda>i. \<not> (cont_VarIsBound Check i s \<or> cont_VarIsUsed Check i s \<or> cont_VarIsLinked Check i s
                     \<or> cont_VarIsRenamed Check i s)) [0..cont_SIZE - 1]"

section \<open>Creation and deletion of contexts\<close>

definition cont_InitBinding :: "CONTEXT \<Rightarrow> SYMBOL \<Rightarrow> cont_state \<Rightarrow> cont_state" where
  "cont_InitBinding C Var = set_node C Var (\<lambda>B. B
     \<lparr>cont_BindingLink := None, cont_BindingTerm := None, cont_BindingSymbol := Var,
      cont_BindingRenaming := symbol_Null, cont_BindingContext := NULL\<rparr>)"

definition cont_InitContext :: "CONTEXT \<Rightarrow> cont_state \<Rightarrow> cont_state" where
  "cont_InitContext C s = fold (cont_InitBinding C) [0..cont_SIZE - 1] s"

text \<open>\<open>cont_Create\<close> has the address that \<open>memory_Malloc\<close> returns as its argument.\<close>

definition cont_Create :: "CONTEXT \<Rightarrow> cont_state \<Rightarrow> CONTEXT \<times> cont_state" where
  "cont_Create Result s =
     (let s = cont_InitContext Result s in
      (Result, s\<lparr>cont_LISTOFCONTEXTS := Result # cont_LISTOFCONTEXTS s, cont_NOOFCONTEXTS := cont_NOOFCONTEXTS s + 1\<rparr>))"

definition cont_Delete :: "CONTEXT \<Rightarrow> cont_state \<Rightarrow> cont_state" where
  "cont_Delete C s =
     s\<lparr>cont_LISTOFCONTEXTS := remove1 C (cont_LISTOFCONTEXTS s), cont_NOOFCONTEXTS := cont_NOOFCONTEXTS s - 1\<rparr>"

definition cont_ResetIndexVarScanner :: "cont_state \<Rightarrow> cont_state" where
  "cont_ResetIndexVarScanner s = s\<lparr>cont_INDEXVARSCANNER := symbol_GetInitialIndexVarCounter\<rparr>"

definition cont_Init :: "CONTEXT \<Rightarrow> CONTEXT \<Rightarrow> CONTEXT \<Rightarrow> cont_state \<Rightarrow> cont_state option" where
  "cont_Init inst left right s =
     (let s = cont_ResetIndexVarScanner (s\<lparr>cont_LASTBINDING := None\<rparr>);
          s = s\<lparr>cont_NOOFCONTEXTS := 0, cont_LISTOFCONTEXTS := [], cont_BINDINGS := 0, cont_INSTANCECONTEXT := inst\<rparr>;
          (L, s) = cont_Create left s;
          s = s\<lparr>cont_LEFTCONTEXT := L\<rparr>;
          (R, s) = cont_Create right s;
          s = s\<lparr>cont_RIGHTCONTEXT := R\<rparr>
      in map_option cont_StackPop (cont_StackPush 0 (cont_StackInit s)))"

section \<open>Bindings\<close>

definition cont_CloseBinding :: "CONTEXT \<Rightarrow> SYMBOL \<Rightarrow> cont_state \<Rightarrow> cont_state" where
  "cont_CloseBinding C Var s = cont_SetContextBindingTerm C Var None s"

definition cont_CreateBindingHelp :: "CONTEXT \<Rightarrow> SYMBOL \<Rightarrow> CONTEXT \<Rightarrow> TERM_NODE option \<Rightarrow> cont_state \<Rightarrow> cont_state" where
  "cont_CreateBindingHelp C Var CTerm Term s =
     (set_node C Var (\<lambda>B. B\<lparr>cont_BindingTerm := Term, cont_BindingContext := CTerm, cont_BindingLink := cont_LASTBINDING s\<rparr>) s)
       \<lparr>cont_LASTBINDING := Some (C, Var)\<rparr>"

definition cont_CreateBinding :: "CONTEXT \<Rightarrow> SYMBOL \<Rightarrow> CONTEXT \<Rightarrow> TERM_NODE option \<Rightarrow> cont_state \<Rightarrow> int \<times> cont_state" where
  "cont_CreateBinding C Var CTerm Term s =
     (let s = cont_CreateBindingHelp C Var CTerm Term s;
          s = s\<lparr>cont_BINDINGS := cont_BINDINGS s + 1\<rparr>
      in (cont_BINDINGS s, s))"

definition cont_CreateClosedBinding :: "CONTEXT \<Rightarrow> SYMBOL \<Rightarrow> cont_state \<Rightarrow> int \<times> cont_state" where
  "cont_CreateClosedBinding C Var s =
     (let s = cont_CreateBindingHelp C Var C None s;
          s = s\<lparr>cont_BINDINGS := cont_BINDINGS s + 1\<rparr>
      in (cont_BINDINGS s, s))"

definition cont_BackTrackLastBinding :: "cont_state \<Rightarrow> cont_state option" where
  "cont_BackTrackLastBinding s =
     (case cont_LASTBINDING s of
        None \<Rightarrow> None
      | Some (C, Var) \<Rightarrow>
          let s = s\<lparr>cont_LASTBINDING := cont_ContextBindingLink C Var s\<rparr>;
              s = set_node C Var (\<lambda>B. B\<lparr>cont_BindingTerm := None, cont_BindingContext := NULL,
                    cont_BindingRenaming := symbol_Null, cont_BindingLink := None\<rparr>) s
          in Some (s\<lparr>cont_BINDINGS := cont_BINDINGS s - 1\<rparr>))"

partial_function (option) backtrack_loop :: "cont_state \<Rightarrow> cont_state option" where
  "backtrack_loop s = (if cont_BINDINGS s > 0 then Option.bind (cont_BackTrackLastBinding s) backtrack_loop else Some s)"

definition cont_BackTrack :: "cont_state \<Rightarrow> cont_state option" where
  "cont_BackTrack s = do {
     s \<leftarrow> backtrack_loop s;
     if \<not> cont_StackEmpty 0 s then do {
       (r, s) \<leftarrow> cont_StackPopResult s;
       Some (s\<lparr>cont_BINDINGS := r\<rparr>) }
     else Some s }"

definition cont_StopAndBackTrack :: "cont_state \<Rightarrow> cont_state option" where
  "cont_StopAndBackTrack s = do {
     (r, s) \<leftarrow> cont_StackPopResult s;
     backtrack_loop (s\<lparr>cont_BINDINGS := r\<rparr>) }"

definition cont_BackTrackAndStart :: "cont_state \<Rightarrow> cont_state option" where
  "cont_BackTrackAndStart s = backtrack_loop s"

partial_function (option) reset_loop :: "cont_state \<Rightarrow> cont_state option" where
  "reset_loop s = (if cont_LASTBINDING s \<noteq> None then Option.bind (cont_BackTrackLastBinding s) reset_loop else Some s)"

definition cont_Reset :: "cont_state \<Rightarrow> cont_state option" where
  "cont_Reset s = map_option (\<lambda>s. cont_ResetIndexVarScanner (cont_StackInit (s\<lparr>cont_BINDINGS := 0\<rparr>))) (reset_loop s)"

text \<open>The loops along the trail. They follow the links from the last binding.\<close>

partial_function (option) trail_variables :: "cont_state \<Rightarrow> (CONTEXT \<times> SYMBOL) option \<Rightarrow> bool option" where
  "trail_variables s B =
     (case B of
        None \<Rightarrow> Some True
      | Some (C, Var) \<Rightarrow>
          if symbol_IsStandardVariable (cont_BindingSymbol (cont_store s C Var)) then
            (case cont_ContextBindingTerm C Var s of
               None \<Rightarrow> None
             | Some T \<Rightarrow> if \<not> term_IsStandardVariable T then Some False
                         else trail_variables s (cont_ContextBindingLink C Var s))
          else trail_variables s (cont_ContextBindingLink C Var s))"

definition cont_OnlyVariablesInCoDomOfCurrentTrail :: "cont_state \<Rightarrow> bool option" where
  "cont_OnlyVariablesInCoDomOfCurrentTrail s = trail_variables s (cont_LASTBINDING s)"

partial_function (option) renaming_loop ::
  "CONTEXT \<Rightarrow> (CONTEXT \<times> SYMBOL) option \<Rightarrow> cont_state \<Rightarrow> (bool \<times> cont_state) option" where
  "renaming_loop RenamingContext B s =
     (case B of
        None \<Rightarrow> Some (True, s)
      | Some (C, Var) \<Rightarrow>
          if symbol_IsIndexVariable (cont_BindingSymbol (cont_store s C Var)) then
            renaming_loop RenamingContext (cont_ContextBindingLink C Var s) s
          else
            (case cont_ContextBindingTerm C Var s of
               None \<Rightarrow> None
             | Some T \<Rightarrow>
                 let CodomainSymbol = term_TopSymbol T in
                 if symbol_IsVariable CodomainSymbol then
                   if cont_VarIsRenamed RenamingContext CodomainSymbol s then Some (False, s)
                   else
                     let s = snd (cont_CreateBinding RenamingContext CodomainSymbol NULL None s);
                         s = cont_SetContextBindingRenaming RenamingContext CodomainSymbol CodomainSymbol s
                     in renaming_loop RenamingContext (cont_ContextBindingLink C Var s) s
                 else Some (False, s)))"

definition cont_BindingsAreRenamingModuloMatching :: "CONTEXT \<Rightarrow> cont_state \<Rightarrow> (bool \<times> cont_state) option" where
  "cont_BindingsAreRenamingModuloMatching RenamingContext s = do {
     s \<leftarrow> cont_StartBinding s;
     (b, s) \<leftarrow> renaming_loop RenamingContext (cont_LASTBINDING s) s;
     s \<leftarrow> cont_BackTrack s;
     Some (b, s) }"

text \<open>A new index variable, for a generalisation that is about to get into the index. The counter is
  full when the report in \<open>symbol_CreateIndexVariable\<close> stops the program.\<close>

definition symbol_CreateIndexVariable :: "cont_state \<Rightarrow> (SYMBOL \<times> cont_state) option" where
  "symbol_CreateIndexVariable s =
     (if symbol_INDEXVARCOUNTER s \<ge> symbol_MAXINDEXVAR then None
      else let s = s\<lparr>symbol_INDEXVARCOUNTER := symbol_INDEXVARCOUNTER s + 1\<rparr> in Some (symbol_INDEXVARCOUNTER s, s))"

definition symbol_LastIndexVariable :: "cont_state \<Rightarrow> SYMBOL" where
  "symbol_LastIndexVariable s = symbol_INDEXVARCOUNTER s"

partial_function (option) index_scan :: "CONTEXT \<Rightarrow> cont_state \<Rightarrow> cont_state option" where
  "index_scan IndexContext s =
     (let s = s\<lparr>cont_INDEXVARSCANNER := cont_INDEXVARSCANNER s + 1\<rparr> in
      if \<not> cont_VarIsUsed IndexContext (cont_INDEXVARSCANNER s) s then Some s
      else if symbol_Equal (cont_INDEXVARSCANNER s) (symbol_LastIndexVariable s) then
        map_option (\<lambda>(v, s). s\<lparr>cont_INDEXVARSCANNER := v\<rparr>) (symbol_CreateIndexVariable s)
      else index_scan IndexContext s)"

text \<open>The loops are executed by their equations.\<close>

declare backtrack_loop.simps [code] reset_loop.simps [code] trail_variables.simps [code] renaming_loop.simps
  [code] index_scan.simps [code]

definition cont_NextIndexVariable :: "CONTEXT \<Rightarrow> cont_state \<Rightarrow> (SYMBOL \<times> cont_state) option" where
  "cont_NextIndexVariable IndexContext s = do {
     s \<leftarrow> (if symbol_Equal (cont_INDEXVARSCANNER s) (symbol_LastIndexVariable s)
           then map_option (\<lambda>(v, s). s\<lparr>cont_INDEXVARSCANNER := v\<rparr>) (symbol_CreateIndexVariable s)
           else index_scan IndexContext s);
     Some (cont_INDEXVARSCANNER s, s) }"

section \<open>Facts on bindings\<close>

text \<open>What the bindings of a state say: a map from variables below a context to terms below a context.\<close>

type_synonym cont_env = "CONTEXT \<times> SYMBOL \<Rightarrow> (CONTEXT \<times> TERM_NODE) option"

definition bindings :: "cont_state \<Rightarrow> cont_env" where
  "bindings s v = map_option (Pair (cont_ContextBindingContext (fst v) (snd v) s)) (cont_ContextBindingTerm (fst v) (snd v) s)"

text \<open>A variable that is not bound has an entry as after its initialisation, apart from the symbol.\<close>

definition unbound_clean :: "cont_state \<Rightarrow> bool" where
  "unbound_clean s \<longleftrightarrow> (\<forall>C x. cont_ContextBindingTerm C x s = None \<longrightarrow>
     cont_ContextBindingContext C x s = NULL \<and> cont_ContextBindingLink C x s = None \<and> cont_ContextBindingRenaming C x s = symbol_Null)"

lemmas access_defs = cont_ContextBindingTerm_def cont_ContextBindingContext_def cont_ContextBindingLink_def
  cont_ContextBindingRenaming_def set_node_def cont_SetContextBindingTerm_def

lemma VarIsBound_bindings: "cont_VarIsBound C x s \<longleftrightarrow> bindings s (C, x) \<noteq> None"
  by (simp add: cont_VarIsBound_def bindings_def)

lemma BindingTerm_bindings: "cont_ContextBindingTerm C x s = map_option snd (bindings s (C, x))"
  by (simp add: bindings_def option.map_comp o_def option.map_ident)

lemma BindingContext_bindings: "bindings s (C, x) = Some (C', T) \<Longrightarrow> cont_ContextBindingContext C x s = C'"
  by (auto simp: bindings_def)

lemma CreateBinding_bindings [simp]:
  "bindings (snd (cont_CreateBinding C x C' (Some T) s)) = (bindings s)((C, x) \<mapsto> (C', T))"
  by (auto simp: bindings_def fun_eq_iff cont_CreateBinding_def cont_CreateBindingHelp_def access_defs Let_def)

lemma CreateBinding_simps [simp]:
  "fst (cont_CreateBinding C x C' T s) = cont_BINDINGS s + 1"
  "cont_BINDINGS (snd (cont_CreateBinding C x C' T s)) = cont_BINDINGS s + 1"
  "cont_INSTANCECONTEXT (snd (cont_CreateBinding C x C' T s)) = cont_INSTANCECONTEXT s"
  by (simp_all add: cont_CreateBinding_def cont_CreateBindingHelp_def set_node_def Let_def)

lemma CreateBinding_clean: "unbound_clean s \<Longrightarrow> unbound_clean (snd (cont_CreateBinding C x C' (Some T) s))"
  by (auto simp: unbound_clean_def cont_CreateBinding_def cont_CreateBindingHelp_def access_defs Let_def)

section \<open>Backtracking undoes the bindings since the last start\<close>

inductive cont_extends :: "cont_state \<Rightarrow> cont_state \<Rightarrow> bool" for s where
  nothing: "cont_extends s s"
| binding: "cont_extends s s' \<Longrightarrow> bindings s' (C, x) = None \<Longrightarrow> cont_extends s (snd (cont_CreateBinding C x C' (Some T) s'))"

lemma cont_extends_trans: "cont_extends s1 s2 \<Longrightarrow> cont_extends s2 s3 \<Longrightarrow> cont_extends s1 s3"
  by (rotate_tac, induction rule: cont_extends.induct) (auto intro: cont_extends.intros)

lemma cont_extends_one: "bindings s (C, x) = None \<Longrightarrow> cont_extends s (snd (cont_CreateBinding C x C' (Some T) s))"
  by (intro cont_extends.intros)

lemma cont_extends_clean: "cont_extends s s' \<Longrightarrow> unbound_clean s \<Longrightarrow> unbound_clean s'"
  by (induction rule: cont_extends.induct) (auto intro: CreateBinding_clean)

lemma cont_extends_counter: "cont_extends s s' \<Longrightarrow> cont_BINDINGS s \<le> cont_BINDINGS s'"
  by (induction rule: cont_extends.induct) auto

lemma cont_extends_instance: "cont_extends s s' \<Longrightarrow> cont_INSTANCECONTEXT s' = cont_INSTANCECONTEXT s"
  by (induction rule: cont_extends.induct) auto

lemma cont_extends_bindings: "cont_extends s s' \<Longrightarrow> bindings s \<subseteq>\<^sub>m bindings s'"
proof (induction rule: cont_extends.induct)
  case (binding s' C x C' T)
  then show ?case by (simp add: map_le_def) (metis domIff)
qed simp

text \<open>Backtracking takes the last binding away, whatever happened to the symbol of the entry.\<close>

lemma BackTrackLast_CreateBinding:
  assumes "unbound_clean s" "bindings s (C, x) = None"
  shows "cont_BackTrackLastBinding (snd (cont_CreateBinding C x C' (Some T) s)) = Some s"
proof -
  have "cont_ContextBindingTerm C x s = None" using assms(2) by (simp add: bindings_def)
  then have "cont_store s C x = (cont_store s C x)\<lparr>cont_BindingTerm := None, cont_BindingContext := NULL,
      cont_BindingRenaming := symbol_Null, cont_BindingLink := None\<rparr>"
    using assms(1)[unfolded unbound_clean_def access_defs, rule_format, of C x]
    by (cases "cont_store s C x") (simp add: access_defs)
  then have "(cont_store s)(C := (cont_store s C)(x := (cont_store s C x)\<lparr>cont_BindingTerm := None,
      cont_BindingContext := NULL, cont_BindingRenaming := symbol_Null, cont_BindingLink := None\<rparr>)) = cont_store s"
    by (metis fun_upd_triv)
  then show ?thesis
    by (simp add: cont_BackTrackLastBinding_def cont_CreateBinding_def cont_CreateBindingHelp_def access_defs Let_def)
qed

lemma backtrack_loop_extends:
  assumes "cont_extends s s'" "unbound_clean s" "cont_BINDINGS s = 0"
  shows "backtrack_loop s' = Some s"
  using assms
proof (induction rule: cont_extends.induct)
  case nothing
  then show ?case by (subst backtrack_loop.simps) simp
next
  case (binding s' C x C' T)
  have "0 \<le> cont_BINDINGS s'" using cont_extends_counter [OF binding.hyps(1)] binding.prems by simp
  then show ?case
    using binding BackTrackLast_CreateBinding [OF cont_extends_clean [OF binding.hyps(1)] binding.hyps(2)]
    by (subst backtrack_loop.simps) simp
qed

lemma cont_BackTrack_extends:
  assumes "cont_StartBinding s = Some s1" "cont_extends s1 s2" "unbound_clean s"
  shows "cont_BackTrack s2 = Some (s\<lparr>cont_STACK := (cont_STACK s)(cont_STACKPOINTER s := cont_BINDINGS s)\<rparr>)"
proof -
  have in1: "in_stack (cont_STACKPOINTER s)"
    and s1: "s1 = s\<lparr>cont_STACK := (cont_STACK s)(cont_STACKPOINTER s := cont_BINDINGS s),
        cont_STACKPOINTER := cont_STACKPOINTER s + 1, cont_BINDINGS := 0\<rparr>"
    using assms(1) by (auto simp: cont_StartBinding_def cont_StackPush_def cont_StackRplacNth_def split: if_splits)
  have "unbound_clean s1" using assms(3) by (simp add: s1 unbound_clean_def access_defs)
  then have "backtrack_loop s2 = Some s1" using backtrack_loop_extends [OF assms(2)] by (simp add: s1)
  then show ?thesis using in1
    by (simp add: cont_BackTrack_def s1 cont_StackEmpty_def cont_StackPopResult_def cont_StackTop_def
        cont_StackPop_def in_stack_def)
qed

end
