(* ===== verification/Spass_Env.thy ===== *)
theory Spass_Env
  imports Spass_Context
begin

text \<open>
  What bindings mean: the specification side of the contexts and of unification.

  A variable below a context is a variable of its own, so terms below contexts denote the terms
  \<open>gterm\<close> over pairs of a context and a variable, once each such variable has a value. Bindings are
  equations between variables and terms: \<open>solves\<close> says that values satisfy them. Bindings are used
  only as long as no variable is bound, through other variables, to a term that contains it
  (\<open>ranked\<close>). Such bindings have a most general solution, which leaves the unbound variables as they
  are (\<open>resolved\<close>).
\<close>

declare split_paired_All [simp del] split_paired_Ex [simp del]

section \<open>Values\<close>

datatype gterm = GVar "CONTEXT \<times> SYMBOL" | GFun SYMBOL "gterm list"

fun gvars :: "gterm \<Rightarrow> (CONTEXT \<times> SYMBOL) set" where
  "gvars (GVar v) = {v}"
| "gvars (GFun s ts) = (\<Union>t \<in> set ts. gvars t)"

fun gsize :: "gterm \<Rightarrow> nat" where
  "gsize (GVar v) = 1"
| "gsize (GFun s ts) = 1 + sum_list (map gsize ts)"

fun gsub :: "(CONTEXT \<times> SYMBOL \<Rightarrow> gterm) \<Rightarrow> gterm \<Rightarrow> gterm" where
  "gsub \<sigma> (GVar v) = \<sigma> v"
| "gsub \<sigma> (GFun s ts) = GFun s (map (gsub \<sigma>) ts)"

fun app :: "(CONTEXT \<times> SYMBOL \<Rightarrow> gterm) \<Rightarrow> CONTEXT \<Rightarrow> TERM_NODE \<Rightarrow> gterm" where
  "app \<theta> C (term_Node s ts st sz) = (if symbol_IsVariable s then \<theta> (C, s) else GFun s (map (app \<theta> C) ts))"

fun tvars :: "CONTEXT \<Rightarrow> TERM_NODE \<Rightarrow> (CONTEXT \<times> SYMBOL) set" where
  "tvars C (term_Node s ts st sz) = (if symbol_IsVariable s then {(C, s)} else (\<Union>t \<in> set ts. tvars C t))"

lemma gsize_pos [simp]: "0 < gsize t"
  by (cases t) auto

lemma finite_gvars [simp]: "finite (gvars t)"
  by (induction t) auto

lemma finite_tvars [simp]: "finite (tvars C T)"
  by (induction C T rule: tvars.induct) auto

lemma app_eq: "app \<theta> C T = (if term_IsVariable T then \<theta> (C, term_TopSymbol T) else GFun (term_TopSymbol T) (map (app \<theta> C) (term_ArgumentList T)))"
  by (cases T) (simp add: term_IsVariable_def)

lemma tvars_eq: "tvars C T = (if term_IsVariable T then {(C, term_TopSymbol T)} else (\<Union>t \<in> set (term_ArgumentList T). tvars C t))"
  by (cases T) (simp add: term_IsVariable_def)

lemma app_cong: "\<forall>v \<in> tvars C T. \<theta> v = \<eta> v \<Longrightarrow> app \<theta> C T = app \<eta> C T"
proof (induction C T rule: tvars.induct)
  case (1 C s ts st sz)
  then show ?case by (cases "symbol_IsVariable s") simp_all
qed

lemma gvars_app: "gvars (app \<theta> C T) = (\<Union>v \<in> tvars C T. gvars (\<theta> v))"
  by (induction C T rule: tvars.induct) auto

lemma gsub_GVar [simp]: "gsub GVar t = t"
  by (induction t) (auto intro: map_idI)

lemma gsub_app: "gsub \<sigma> (app \<theta> C T) = app (\<lambda>v. gsub \<sigma> (\<theta> v)) C T"
  by (induction C T rule: tvars.induct) auto

lemma gsize_gsub: "v \<in> gvars t \<Longrightarrow> gsize (\<sigma> v) \<le> gsize (gsub \<sigma> t)"
proof (induction t)
  case (GFun s ts)
  then obtain t where "t \<in> set ts" "v \<in> gvars t" by auto
  moreover have "gsize (gsub \<sigma> t) \<le> sum_list (map (gsize \<circ> gsub \<sigma>) ts)"
    using \<open>t \<in> set ts\<close> by (intro member_le_sum_list) auto
  ultimately show ?case using GFun.IH by fastforce
qed simp

lemma gsize_gsub_proper:
  assumes "v \<in> gvars t" "t \<noteq> GVar v"
  shows "gsize (\<sigma> v) < gsize (gsub \<sigma> t)"
proof (cases t)
  case (GFun s ts)
  then obtain u where u: "u \<in> set ts" "v \<in> gvars u" using assms by auto
  have "gsize (gsub \<sigma> u) \<le> sum_list (map (gsize \<circ> gsub \<sigma>) ts)"
    using u(1) by (intro member_le_sum_list) auto
  then show ?thesis using gsize_gsub [OF u(2), of \<sigma>] GFun by simp
qed (use assms in auto)

section \<open>Solutions of bindings\<close>

definition solves :: "(CONTEXT \<times> SYMBOL \<Rightarrow> gterm) \<Rightarrow> cont_env \<Rightarrow> bool" where
  "solves \<theta> E \<longleftrightarrow> (\<forall>v C T. E v = Some (C, T) \<longrightarrow> \<theta> v = app \<theta> C T)"

definition ranked :: "(CONTEXT \<times> SYMBOL \<Rightarrow> nat) \<Rightarrow> cont_env \<Rightarrow> bool" where
  "ranked r E \<longleftrightarrow> (\<forall>v C T. E v = Some (C, T) \<longrightarrow> (\<forall>w \<in> tvars C T. r w < r v))"

definition resolved :: "(CONTEXT \<times> SYMBOL \<Rightarrow> gterm) \<Rightarrow> cont_env \<Rightarrow> bool" where
  "resolved \<theta> E \<longleftrightarrow> solves \<theta> E \<and> (\<forall>v. E v = None \<longrightarrow> \<theta> v = GVar v)"

lemma solvesD: "solves \<theta> E \<Longrightarrow> E v = Some (C, T) \<Longrightarrow> \<theta> v = app \<theta> C T"
  by (simp add: solves_def)

lemma rankedD: "ranked r E \<Longrightarrow> E v = Some (C, T) \<Longrightarrow> w \<in> tvars C T \<Longrightarrow> r w < r v"
  by (auto simp: ranked_def)

lemma resolvedD: "resolved \<theta> E \<Longrightarrow> solves \<theta> E" "resolved \<theta> E \<Longrightarrow> E v = None \<Longrightarrow> \<theta> v = GVar v"
  by (simp_all add: resolved_def)

text \<open>The values as a recursion with a bound on its depth.\<close>

fun value_at :: "nat \<Rightarrow> cont_env \<Rightarrow> CONTEXT \<times> SYMBOL \<Rightarrow> gterm" where
  "value_at 0 E v = GVar v"
| "value_at (Suc n) E v = (case E v of None \<Rightarrow> GVar v | Some (C, T) \<Rightarrow> app (value_at n E) C T)"

lemma value_at_stable:
  assumes "ranked r E"
  shows "r v < n \<Longrightarrow> r v < m \<Longrightarrow> value_at n E v = value_at m E v"
proof (induction n arbitrary: v m)
  case (Suc n)
  then obtain m' where m: "m = Suc m'" by (cases m) auto
  have "app (value_at n E) C T = app (value_at m' E) C T" if "E v = Some (C, T)" for C T
  proof (intro app_cong ballI)
    fix w assume "w \<in> tvars C T"
    then have "r w < r v" by (rule rankedD [OF assms that])
    then have "r w < n" "r w < m'" using Suc.prems m by simp_all
    then show "value_at n E w = value_at m' E w" by (rule Suc.IH)
  qed
  then show ?case by (cases "E v") (auto simp: m)
qed simp

lemma resolved_exists:
  assumes "ranked r E"
  shows "\<exists>\<theta>. resolved \<theta> E"
proof -
  let ?\<theta> = "\<lambda>v. value_at (Suc (r v)) E v"
  have "?\<theta> v = app ?\<theta> C T" if E: "E v = Some (C, T)" for v C T
  proof -
    have "app (value_at (r v) E) C T = app ?\<theta> C T"
    proof (intro app_cong ballI)
      fix w assume "w \<in> tvars C T"
      then have "r w < r v" by (rule rankedD [OF assms E])
      then show "value_at (r v) E w = ?\<theta> w" using assms by (intro value_at_stable) auto
    qed
    then show ?thesis using E by simp
  qed
  then have "resolved ?\<theta> E" by (auto simp: resolved_def solves_def)
  then show ?thesis by blast
qed

text \<open>A resolved solution is most general: every solution is an instance of it.\<close>

lemma solves_resolved:
  assumes "ranked r E" "resolved \<theta> E" "solves \<sigma> E"
  shows "\<sigma> v = gsub \<sigma> (\<theta> v)"
proof (induction "r v" arbitrary: v rule: less_induct)
  case less
  show ?case
  proof (cases "E v")
    case None
    then show ?thesis using resolvedD(2) [OF assms(2)] by simp
  next
    case (Some CT)
    then obtain C T where E: "E v = Some (C, T)" by (cases CT) auto
    have "app \<sigma> C T = app (\<lambda>w. gsub \<sigma> (\<theta> w)) C T"
      using less rankedD [OF assms(1) E] by (intro app_cong) auto
    then show ?thesis
      using solvesD [OF assms(3) E] solvesD [OF resolvedD(1) [OF assms(2)] E] by (simp add: gsub_app)
  qed
qed

lemma app_resolved:
  assumes "ranked r E" "resolved \<theta> E" "solves \<sigma> E"
  shows "app \<sigma> C T = gsub \<sigma> (app \<theta> C T)"
proof -
  have "(\<lambda>v. gsub \<sigma> (\<theta> v)) = \<sigma>" using solves_resolved [OF assms] by auto
  then show ?thesis by (simp add: gsub_app)
qed

lemma resolved_unique: "ranked r E \<Longrightarrow> resolved \<theta> E \<Longrightarrow> resolved \<eta> E \<Longrightarrow> \<theta> = \<eta>"
proof (rule ext)
  fix v
  assume *: "ranked r E" "resolved \<theta> E" "resolved \<eta> E"
  show "\<theta> v = \<eta> v"
  proof (induction "r v" arbitrary: v rule: less_induct)
    case less
    show ?case
    proof (cases "E v")
      case None
      then show ?thesis using resolvedD(2) [OF *(2)] resolvedD(2) [OF *(3)] by simp
    next
      case (Some CT)
      then obtain C T where E: "E v = Some (C, T)" by (cases CT) auto
      have "app \<theta> C T = app \<eta> C T" using less rankedD [OF *(1) E] by (intro app_cong) auto
      then show ?thesis
        using solvesD [OF resolvedD(1) [OF *(2)] E] solvesD [OF resolvedD(1) [OF *(3)] E] by simp
    qed
  qed
qed

lemma resolved_unbound:
  assumes "ranked r E" "resolved \<theta> E" "w \<in> gvars (\<theta> v)"
  shows "E w = None"
  using assms(3)
proof (induction "r v" arbitrary: v rule: less_induct)
  case less
  show ?case
  proof (cases "E v")
    case None
    then show ?thesis using resolvedD(2) [OF assms(2)] less.prems by simp
  next
    case (Some CT)
    then obtain C T where E: "E v = Some (C, T)" by (cases CT) auto
    then obtain u where "u \<in> tvars C T" "w \<in> gvars (\<theta> u)"
      using less.prems solvesD [OF resolvedD(1) [OF assms(2)] E] by (auto simp: gvars_app)
    then show ?thesis using less.hyps rankedD [OF assms(1) E] by blast
  qed
qed

section \<open>A new binding\<close>

lemma solves_upd: "E v = None \<Longrightarrow> solves \<sigma> (E(v \<mapsto> (C, T))) \<longleftrightarrow> solves \<sigma> E \<and> \<sigma> v = app \<sigma> C T"
proof
  assume E: "E v = None" and *: "solves \<sigma> (E(v \<mapsto> (C, T)))"
  have "\<sigma> w = app \<sigma> C' T'" if "E w = Some (C', T')" for w C' T'
    using that E solvesD [OF *, of w C' T'] by (cases "w = v") simp_all
  then show "solves \<sigma> E \<and> \<sigma> v = app \<sigma> C T" using solvesD [OF *, of v C T] by (simp add: solves_def)
next
  assume "solves \<sigma> E \<and> \<sigma> v = app \<sigma> C T"
  then show "solves \<sigma> (E(v \<mapsto> (C, T)))" by (simp add: solves_def)
qed

text \<open>The occurs check is what keeps the bindings ranked.\<close>

lemma ranked_upd:
  assumes "ranked r E" "resolved \<theta> E" "E v = None" "v \<notin> gvars (app \<theta> C T)"
  shows "\<exists>r. ranked r (E(v \<mapsto> (C, T)))"
proof -
  define M where "M = Suc (Max (insert 0 (r ` tvars C T)))"
  define r' where "r' w = r w + (if v \<in> gvars (\<theta> w) then M else 0)" for w
  have M: "r w < M" if "w \<in> tvars C T" for w
    using that by (simp add: M_def less_Suc_eq_le)
  have new: "r' w < r' v" if "w \<in> tvars C T" for w
  proof -
    have "v \<notin> gvars (\<theta> w)" using assms(4) that by (auto simp: gvars_app)
    moreover have "v \<in> gvars (\<theta> v)" using resolvedD(2) [OF assms(2,3)] by simp
    ultimately show ?thesis using M [OF that] by (simp add: r'_def)
  qed
  have old: "r' w < r' u" if "E u = Some (C', T')" "w \<in> tvars C' T'" for u C' T' w
  proof -
    have "r w < r u" by (rule rankedD [OF assms(1) that])
    moreover have "v \<in> gvars (\<theta> u)" if "v \<in> gvars (\<theta> w)"
      using that \<open>w \<in> tvars C' T'\<close> solvesD [OF resolvedD(1) [OF assms(2)] \<open>E u = Some (C', T')\<close>]
      by (auto simp: gvars_app)
    ultimately show ?thesis by (auto simp: r'_def)
  qed
  have "ranked r' (E(v \<mapsto> (C, T)))" using new old by (auto simp: ranked_def split: if_splits)
  then show ?thesis by blast
qed

lemma occurs_no_solution:
  assumes "ranked r E" "resolved \<theta> E" "v \<in> gvars (app \<theta> C T)" "app \<theta> C T \<noteq> GVar v" "solves \<sigma> E"
  shows "\<sigma> v \<noteq> app \<sigma> C T"
  using gsize_gsub_proper [OF assms(3,4), of \<sigma>] app_resolved [OF assms(1,2,5), of C T] by auto

text \<open>The conditions on bindings that the functions on terms below contexts need: finitely many
  variables are bound, without a cycle, to terms with variables at the leaves and symbols of fixed
  arity.\<close>

definition term_ok :: "(SYMBOL \<Rightarrow> nat) \<Rightarrow> TERM_NODE \<Rightarrow> bool" where
  "term_ok ar T \<longleftrightarrow> (\<forall>u \<in> set (subterms T). length (term_ArgumentList u) = (if term_IsVariable u then 0 else ar (term_TopSymbol u)))"

definition env_ok :: "(SYMBOL \<Rightarrow> nat) \<Rightarrow> cont_env \<Rightarrow> bool" where
  "env_ok ar E \<longleftrightarrow> finite (dom E) \<and> (\<exists>r. ranked r E) \<and> (\<forall>v C T. E v = Some (C, T) \<longrightarrow> term_ok ar T)"

lemma index_variable: "symbol_IsIndexVariable x \<Longrightarrow> symbol_IsVariable x"
  by (simp add: symbol_IsIndexVariable_def symbol_IsVariable_def symbol_consts)

lemma term_ok_arg: "term_ok ar T \<Longrightarrow> t \<in> set (term_ArgumentList T) \<Longrightarrow> term_ok ar t"
  by (cases T) (auto simp: term_ok_def)

lemma term_ok_length:
  "term_ok ar T \<Longrightarrow> \<not> term_IsVariable T \<Longrightarrow> length (term_ArgumentList T) = ar (term_TopSymbol T)"
  "term_ok ar T \<Longrightarrow> term_IsVariable T \<Longrightarrow> term_ArgumentList T = []"
  by (cases T; simp add: term_ok_def)+

lemma env_ok_term: "env_ok ar E \<Longrightarrow> E v = Some (C, T) \<Longrightarrow> term_ok ar T"
  by (auto simp: env_ok_def)

lemma env_ok_empty: "env_ok ar (\<lambda>v. None)"
  by (simp add: env_ok_def ranked_def dom_def)

lemma env_ok_upd:
  assumes "env_ok ar E" "resolved \<theta> E" "E v = None" "term_ok ar T" "v \<notin> gvars (app \<theta> C T)"
  shows "env_ok ar (E(v \<mapsto> (C, T)))"
  using assms ranked_upd [OF _ assms(2,3,5)] by (auto simp: env_ok_def split: if_splits)

lemma env_ok_resolved:
  assumes "env_ok ar E"
  obtains r \<theta> where "ranked r E" "resolved \<theta> E"
  using assms resolved_exists unfolding env_ok_def by metis

end
