(* ===== verification/Spass_Deref.thy ===== *)
theory Spass_Deref
  imports Spass_Env
begin

text \<open>
  Terms below contexts (\<open>context.c\<close>): following bindings, equality of terms up to bindings, copies and
  changed terms with the bindings applied, greatest variable, size and occurrence of a symbol.

  Every function first follows the bindings of a variable; the loops differ in whether they stop at
  the context of instances and whether index variables are looked up in a context of their own. The
  functions are partial: \<open>None\<close> is a loop that does not end, on cyclic bindings, or a null pointer
  that is followed.
\<close>

declare split_paired_All [simp del] split_paired_Ex [simp del]

section \<open>Following bindings\<close>

text \<open>The loops of \<open>unify_Unify\<close> and \<open>cont_CopyAndApplyBindings\<close>, of the functions for one context, of
  \<open>cont_Deref\<close> and of the functions with a context for index variables.\<close>

partial_function (option) cont_follow :: "cont_state \<Rightarrow> CONTEXT \<Rightarrow> TERM_NODE \<Rightarrow> (CONTEXT \<times> TERM_NODE) option" where
  "cont_follow s C T =
     (if term_IsVariable T then
        case cont_ContextBindingTerm C (term_TopSymbol T) s of
          Some T' \<Rightarrow> cont_follow s (cont_ContextBindingContext C (term_TopSymbol T) s) T'
        | None \<Rightarrow> Some (C, T)
      else Some (C, T))"

partial_function (option) cont_follow_Com :: "cont_state \<Rightarrow> CONTEXT \<Rightarrow> TERM_NODE \<Rightarrow> TERM_NODE option" where
  "cont_follow_Com s Context T =
     (if term_IsVariable T then
        case cont_ContextBindingTerm Context (term_TopSymbol T) s of
          Some T' \<Rightarrow> cont_follow_Com s Context T'
        | None \<Rightarrow> Some T
      else Some T)"

partial_function (option) deref_loop :: "cont_state \<Rightarrow> CONTEXT \<Rightarrow> TERM_NODE \<Rightarrow> (CONTEXT \<times> TERM_NODE) option" where
  "deref_loop s C T =
     (if term_IsVariable T \<and> C \<noteq> cont_INSTANCECONTEXT s then
        case cont_ContextBindingTerm C (term_TopSymbol T) s of
          Some T' \<Rightarrow> deref_loop s (cont_ContextBindingContext C (term_TopSymbol T) s) T'
        | None \<Rightarrow> Some (C, T)
      else Some (C, T))"

partial_function (option) index_deref :: "cont_state \<Rightarrow> CONTEXT \<Rightarrow> CONTEXT \<Rightarrow> TERM_NODE \<Rightarrow> (CONTEXT \<times> TERM_NODE) option" where
  "index_deref s IndexContext C T =
     (if term_IsVariable T then
        let TermTop = term_TopSymbol T in
        if \<not> symbol_IsIndexVariable TermTop \<and> C = cont_INSTANCECONTEXT s then Some (C, T)
        else let C = (if symbol_IsIndexVariable TermTop then IndexContext else C) in
          case cont_ContextBindingTerm C TermTop s of
            Some T' \<Rightarrow> index_deref s IndexContext (cont_ContextBindingContext C TermTop s) T'
          | None \<Rightarrow> Some (C, T)
      else Some (C, T))"

definition cont_Deref :: "cont_state \<Rightarrow> CONTEXT \<Rightarrow> CONTEXT \<Rightarrow> TERM_NODE \<Rightarrow> (CONTEXT \<times> TERM_NODE) option" where
  "cont_Deref s GlobalContext TermContext Term =
     (if term_IsIndexVariable Term then
        let TermTop = term_TopSymbol Term in
        case cont_ContextBindingTerm GlobalContext TermTop s of
          Some Term \<Rightarrow> deref_loop s (cont_ContextBindingContext GlobalContext TermTop s) Term
        | None \<Rightarrow> None
      else deref_loop s TermContext Term)"

text \<open>The term is \<open>NULL\<close>, an inner \<open>None\<close>, when the symbol is not bound.\<close>

partial_function (option) symbol_deref_loop ::
  "cont_state \<Rightarrow> CONTEXT \<Rightarrow> SYMBOL \<Rightarrow> TERM_NODE option \<Rightarrow> (CONTEXT \<times> TERM_NODE option) option" where
  "symbol_deref_loop s Context Symbol Term =
     (if symbol_IsVariable Symbol \<and> Context \<noteq> cont_INSTANCECONTEXT s then
        case cont_ContextBindingTerm Context Symbol s of
          Some T \<Rightarrow> symbol_deref_loop s (cont_ContextBindingContext Context Symbol s) (term_TopSymbol T) (Some T)
        | None \<Rightarrow> Some (Context, Term)
      else Some (Context, Term))"

definition cont_SymbolDeref :: "cont_state \<Rightarrow> CONTEXT \<Rightarrow> SYMBOL \<Rightarrow> (CONTEXT \<times> TERM_NODE option) option" where
  "cont_SymbolDeref s Context Symbol = symbol_deref_loop s Context Symbol None"

section \<open>Equality\<close>

partial_function (option) cont_TermEqual ::
  "cont_state \<Rightarrow> CONTEXT \<Rightarrow> CONTEXT \<Rightarrow> TERM_NODE \<Rightarrow> CONTEXT \<Rightarrow> CONTEXT \<Rightarrow> TERM_NODE \<Rightarrow> bool option" where
  "cont_TermEqual s GlobalContext1 TermContext1 Term1 GlobalContext2 TermContext2 Term2 = do {
     (TermContext1, Term1) \<leftarrow> cont_Deref s GlobalContext1 TermContext1 Term1;
     (TermContext2, Term2) \<leftarrow> cont_Deref s GlobalContext2 TermContext2 Term2;
     if \<not> term_EqualTopSymbols Term1 Term2 then Some False
     else if term_ArgumentList Term1 \<noteq> [] then do {
       b \<leftarrow> all_loop (\<lambda>p. cont_TermEqual s GlobalContext1 TermContext1 (fst p) GlobalContext2 TermContext2 (snd p))
             (zip (term_ArgumentList Term1) (term_ArgumentList Term2));
       Some (b \<and> length (term_ArgumentList Term1) = length (term_ArgumentList Term2)) }
     else Some True }"

partial_function (option) cont_TermEqualModuloBindings ::
  "cont_state \<Rightarrow> CONTEXT \<Rightarrow> CONTEXT \<Rightarrow> TERM_NODE \<Rightarrow> CONTEXT \<Rightarrow> TERM_NODE \<Rightarrow> bool option" where
  "cont_TermEqualModuloBindings s IndexContext CtL TermL CtR TermR = do {
     (CtL, TermL) \<leftarrow> index_deref s IndexContext CtL TermL;
     (CtR, TermR) \<leftarrow> index_deref s IndexContext CtR TermR;
     if \<not> term_EqualTopSymbols TermL TermR then Some False
     else if term_IsVariable TermL then Some (CtL = CtR)
     else if term_IsComplex TermL then do {
       b \<leftarrow> all_loop (\<lambda>p. cont_TermEqualModuloBindings s IndexContext CtL (fst p) CtR (snd p))
             (zip (term_ArgumentList TermL) (term_ArgumentList TermR));
       Some (b \<and> length (term_ArgumentList TermL) = length (term_ArgumentList TermR)) }
     else Some True }"

section \<open>Application of bindings\<close>

partial_function (option) cont_CopyAndApplyBindings :: "cont_state \<Rightarrow> CONTEXT \<Rightarrow> TERM_NODE \<Rightarrow> TERM_NODE option" where
  "cont_CopyAndApplyBindings s TermContext Term = do {
     (TermContext, Term) \<leftarrow> cont_follow s TermContext Term;
     if term_IsComplex Term then do {
       ArgumentList \<leftarrow> map_loop (\<lambda>t. cont_CopyAndApplyBindings s TermContext t) (term_ArgumentList Term);
       Some (term_Create (term_TopSymbol Term) ArgumentList) }
     else Some (term_Create (term_TopSymbol Term) []) }"

partial_function (option) cont_CopyAndApplyBindingsCom :: "cont_state \<Rightarrow> CONTEXT \<Rightarrow> TERM_NODE \<Rightarrow> TERM_NODE option" where
  "cont_CopyAndApplyBindingsCom s Context Term = do {
     Term \<leftarrow> cont_follow_Com s Context Term;
     if term_IsComplex Term then do {
       ArgumentList \<leftarrow> map_loop (\<lambda>t. cont_CopyAndApplyBindingsCom s Context t) (term_ArgumentList Term);
       Some (term_Create (term_TopSymbol Term) ArgumentList) }
     else Some (term_Create (term_TopSymbol Term) []) }"

partial_function (option) symbol_apply_loop ::
  "cont_state \<Rightarrow> CONTEXT \<Rightarrow> SYMBOL \<Rightarrow> TERM_NODE option \<Rightarrow> (CONTEXT \<times> TERM_NODE option) option" where
  "symbol_apply_loop s TermContext Symbol Term =
     (if symbol_IsVariable Symbol then
        case cont_ContextBindingTerm TermContext Symbol s of
          Some T \<Rightarrow> symbol_apply_loop s (cont_ContextBindingContext TermContext Symbol s) (term_TopSymbol T) (Some T)
        | None \<Rightarrow> Some (TermContext, Term)
      else Some (TermContext, Term))"

definition cont_SymbolApplyBindings :: "cont_state \<Rightarrow> CONTEXT \<Rightarrow> SYMBOL \<Rightarrow> TERM_NODE option option" where
  "cont_SymbolApplyBindings s TermContext Symbol = do {
     (TermContext, Term) \<leftarrow> symbol_apply_loop s TermContext Symbol None;
     case Term of
       Some T \<Rightarrow>
         if term_IsComplex T then do {
           ArgumentList \<leftarrow> map_loop (\<lambda>t. cont_CopyAndApplyBindings s TermContext t) (term_ArgumentList T);
           Some (Some (term_Create (term_TopSymbol T) ArgumentList)) }
         else Some Term
     | None \<Rightarrow> Some None }"

text \<open>The flag \<open>VarCheck\<close> is only read when the checks are compiled.\<close>

fun cont_ApplyBindingsModuloMatching :: "cont_state \<Rightarrow> CONTEXT \<Rightarrow> TERM_NODE \<Rightarrow> TERM_NODE" where
  "cont_ApplyBindingsModuloMatching s Context (term_Node Top ts st sz) =
     (if symbol_IsVariable Top then
        case cont_ContextBindingTerm Context Top s of
          Some RplacTerm \<Rightarrow>
            let Arglist = map term_Copy (term_ArgumentList RplacTerm)
            in term_RplacArgumentList (term_RplacTop (term_Node Top ts st sz) (term_TopSymbol RplacTerm)) Arglist
        | None \<Rightarrow> term_Node Top ts st sz
      else term_Node Top (map (cont_ApplyBindingsModuloMatching s Context) ts) st sz)"

text \<open>The loop does not end at an index variable that is not bound.\<close>

partial_function (option) index_follow :: "cont_state \<Rightarrow> CONTEXT \<Rightarrow> TERM_NODE \<Rightarrow> TERM_NODE option" where
  "index_follow s Context Term =
     (if symbol_IsIndexVariable (term_TopSymbol Term) then
        case cont_ContextBindingTerm Context (term_TopSymbol Term) s of
          Some T \<Rightarrow> index_follow s Context T
        | None \<Rightarrow> index_follow s Context Term
      else Some Term)"

partial_function (option) cont_CopyAndApplyIndexVariableBindings :: "cont_state \<Rightarrow> CONTEXT \<Rightarrow> TERM_NODE \<Rightarrow> TERM_NODE option" where
  "cont_CopyAndApplyIndexVariableBindings s Context Term = do {
     Term \<leftarrow> index_follow s Context Term;
     if term_IsComplex Term then do {
       ArgumentList \<leftarrow> map_loop (\<lambda>t. cont_CopyAndApplyIndexVariableBindings s Context t) (term_ArgumentList Term);
       Some (term_Create (term_TopSymbol Term) ArgumentList) }
     else Some (term_Create (term_TopSymbol Term) []) }"

fun cont_ApplyBindingsModuloMatchingReverse :: "cont_state \<Rightarrow> CONTEXT \<Rightarrow> TERM_NODE \<Rightarrow> TERM_NODE option" where
  "cont_ApplyBindingsModuloMatchingReverse s Context (term_Node Top ts st sz) =
     (if symbol_IsVariable Top then
        case cont_ContextBindingTerm Context Top s of
          Some T \<Rightarrow> do {
            RplacTerm \<leftarrow> cont_CopyAndApplyIndexVariableBindings s Context T;
            Some (term_RplacArgumentList (term_RplacTop (term_Node Top ts st sz) (term_TopSymbol RplacTerm))
                    (term_ArgumentList RplacTerm)) }
        | None \<Rightarrow> Some (term_Node Top ts st sz)
      else do {
        Arglist \<leftarrow> map_loop (cont_ApplyBindingsModuloMatchingReverse s Context) ts;
        Some (term_Node Top Arglist st sz) })"

section \<open>Greatest variable, size, occurrence\<close>

partial_function (option) cont_TermMaxVar :: "cont_state \<Rightarrow> CONTEXT \<Rightarrow> CONTEXT \<Rightarrow> TERM_NODE \<Rightarrow> SYMBOL option" where
  "cont_TermMaxVar s GlobalContext TermContext Term = do {
     (TermContext, Term) \<leftarrow> cont_Deref s GlobalContext TermContext Term;
     if term_IsStandardVariable Term then
       Some (if term_TopSymbol Term > symbol_Null then term_TopSymbol Term else symbol_Null)
     else do {
       ms \<leftarrow> map_loop (\<lambda>t. cont_TermMaxVar s GlobalContext TermContext t) (term_ArgumentList Term);
       Some (foldl (\<lambda>result m. if m > result then m else result) symbol_Null ms) } }"

partial_function (option) cont_TermSize :: "cont_state \<Rightarrow> CONTEXT \<Rightarrow> CONTEXT \<Rightarrow> TERM_NODE \<Rightarrow> NAT option" where
  "cont_TermSize s GlobalContext TermContext Term = do {
     (TermContext, Term) \<leftarrow> cont_Deref s GlobalContext TermContext Term;
     ns \<leftarrow> map_loop (\<lambda>t. cont_TermSize s GlobalContext TermContext t) (term_ArgumentList Term);
     Some (foldl (+) 1 ns) }"

partial_function (option) cont_TermContainsSymbol ::
  "cont_state \<Rightarrow> CONTEXT \<Rightarrow> CONTEXT \<Rightarrow> TERM_NODE \<Rightarrow> SYMBOL \<Rightarrow> bool option" where
  "cont_TermContainsSymbol s GlobalContext TermContext Term Symbol = do {
     (TermContext, Term) \<leftarrow> cont_Deref s GlobalContext TermContext Term;
     if symbol_Equal (term_TopSymbol Term) Symbol then Some True
     else any_loop (\<lambda>t. cont_TermContainsSymbol s GlobalContext TermContext t Symbol) (term_ArgumentList Term) }"

text \<open>The loops are executed by their equations.\<close>

declare cont_follow.simps [code] cont_follow_Com.simps [code] deref_loop.simps [code] index_deref.simps [code] symbol_deref_loop.simps [code] cont_TermEqual.simps [code] cont_TermEqualModuloBindings.simps [code] cont_CopyAndApplyBindings.simps [code] cont_CopyAndApplyBindingsCom.simps [code] symbol_apply_loop.simps [code] index_follow.simps [code] cont_CopyAndApplyIndexVariableBindings.simps [code] cont_TermMaxVar.simps [code] cont_TermSize.simps [code] cont_TermContainsSymbol.simps [code]

section \<open>What the loops compute\<close>

definition env_vars :: "cont_env \<Rightarrow> (CONTEXT \<times> SYMBOL) set" where
  "env_vars E = dom E \<union> (\<Union>(C, T) \<in> ran E. tvars C T)"

lemma env_vars_finite: "finite (dom E) \<Longrightarrow> finite (env_vars E)"
  by (auto simp: env_vars_def finite_ran)

lemma env_varsI: "E v = Some (C, T) \<Longrightarrow> tvars C T \<subseteq> env_vars E" "E v = Some (C, T) \<Longrightarrow> v \<in> env_vars E"
  by (auto simp: env_vars_def intro!: ranI)

lemma env_vars_upd: "E v = None \<Longrightarrow> env_vars (E(v \<mapsto> (C, T))) = insert v (tvars C T \<union> env_vars E)"
  by (auto simp: env_vars_def)

lemma follow_unfold:
  "cont_follow s C T =
     (if term_IsVariable T then
        case bindings s (C, term_TopSymbol T) of Some (C', T') \<Rightarrow> cont_follow s C' T' | None \<Rightarrow> Some (C, T)
      else Some (C, T))"
  by (subst cont_follow.simps) (simp add: bindings_def split: option.split)

text \<open>Following the bindings of a variable does not change the value of the term.\<close>

lemma follow_ok:
  assumes "env_ok ar (bindings s)" "term_ok ar T"
  obtains C' T' where "cont_follow s C T = Some (C', T')" "term_ok ar T'"
    "\<And>\<theta>. solves \<theta> (bindings s) \<Longrightarrow> app \<theta> C' T' = app \<theta> C T"
    "term_IsVariable T' \<Longrightarrow> bindings s (C', term_TopSymbol T') = None"
    "tvars C' T' \<subseteq> tvars C T \<union> env_vars (bindings s)"
proof -
  obtain r \<theta> where r: "ranked r (bindings s)" using env_ok_resolved [OF assms(1)] by blast
  have "\<exists>C' T'. cont_follow s C T = Some (C', T') \<and> term_ok ar T'
      \<and> (\<forall>\<theta>. solves \<theta> (bindings s) \<longrightarrow> app \<theta> C' T' = app \<theta> C T)
      \<and> (term_IsVariable T' \<longrightarrow> bindings s (C', term_TopSymbol T') = None)
      \<and> tvars C' T' \<subseteq> tvars C T \<union> env_vars (bindings s)"
    using assms(2)
  proof (induction "r (C, term_TopSymbol T)" arbitrary: C T rule: less_induct)
    case less
    show ?case
    proof (cases "term_IsVariable T \<and> bindings s (C, term_TopSymbol T) \<noteq> None")
      case False
      then show ?thesis using less.prems by (subst follow_unfold) auto
    next
      case True
      then obtain C1 T1 where E: "bindings s (C, term_TopSymbol T) = Some (C1, T1)" by auto
      then have follow: "cont_follow s C T = cont_follow s C1 T1" using True by (subst follow_unfold) simp
      have ok: "term_ok ar T1" by (rule env_ok_term [OF assms(1) E])
      have vs: "tvars C1 T1 \<subseteq> env_vars (bindings s)" by (rule env_varsI(1)) (rule E)
      have same: "app \<theta> C T = app \<theta> C1 T1" if "solves \<theta> (bindings s)" for \<theta>
        using solvesD [OF that E] True by (simp add: app_eq [of \<theta> C T])
      show ?thesis
      proof (cases "term_IsVariable T1")
        case True
        then have "r (C1, term_TopSymbol T1) < r (C, term_TopSymbol T)"
          by (intro rankedD [OF r E]) (simp add: tvars_eq)
        from less.hyps [OF this ok] show ?thesis using same vs follow by fastforce
      next
        case False
        then have "cont_follow s C1 T1 = Some (C1, T1)" by (subst follow_unfold) simp
        then show ?thesis using False ok same vs follow by auto
      qed
    qed
  qed
  then show ?thesis using that by blast
qed

text \<open>The copy is the value with the contexts of its variables forgotten.\<close>

fun strip :: "gterm \<Rightarrow> TERM_NODE" where
  "strip (GVar v) = term_Create (snd v) []"
| "strip (GFun s ts) = term_Create s (map strip ts)"

lemma sum_list_arg: "t \<in> set ts \<Longrightarrow> f t < 1 + sum_list (map f ts)" for f :: "'a \<Rightarrow> nat"
  by (simp add: less_Suc_eq_le member_le_sum_list)

lemma gsize_arg:
  assumes "\<not> term_IsVariable T" "t \<in> set (term_ArgumentList T)"
  shows "gsize (app \<theta> C t) < gsize (app \<theta> C T)"
  using sum_list_arg [of "app \<theta> C t" "map (app \<theta> C) (term_ArgumentList T)" gsize] assms by (simp add: app_eq [of \<theta> C T])

lemma CopyAndApply_ok:
  assumes "env_ok ar (bindings s)" "resolved \<theta> (bindings s)" "term_ok ar T"
  shows "cont_CopyAndApplyBindings s C T = Some (strip (app \<theta> C T))"
  using assms(3)
proof (induction "gsize (app \<theta> C T)" arbitrary: C T rule: less_induct)
  case less
  obtain C' T' where f: "cont_follow s C T = Some (C', T')" "term_ok ar T'" "app \<theta> C' T' = app \<theta> C T"
    "term_IsVariable T' \<Longrightarrow> bindings s (C', term_TopSymbol T') = None"
    using follow_ok [OF assms(1) less.prems] resolvedD(1) [OF assms(2)] by metis
  show ?case
  proof (cases "term_IsVariable T'")
    case True
    then have "app \<theta> C T = GVar (C', term_TopSymbol T')"
      using f resolvedD(2) [OF assms(2)] by (metis app_eq)
    then show ?thesis using f(1) True term_ok_length(2) [OF f(2)]
      by (subst cont_CopyAndApplyBindings.simps) (simp add: term_IsComplex_def)
  next
    case False
    have "map_loop (\<lambda>t. cont_CopyAndApplyBindings s C' t) (term_ArgumentList T')
        = Some (map (strip \<circ> app \<theta> C') (term_ArgumentList T'))"
    proof (rule map_loop_Some)
      fix t assume t: "t \<in> set (term_ArgumentList T')"
      show "cont_CopyAndApplyBindings s C' t = Some ((strip \<circ> app \<theta> C') t)"
        using less.hyps [of C' t] gsize_arg [OF False t, of \<theta> C'] f(3) term_ok_arg [OF f(2) t] by simp
    qed
    moreover have "app \<theta> C T = GFun (term_TopSymbol T') (map (app \<theta> C') (term_ArgumentList T'))"
      using f(3) False by (simp add: app_eq [of \<theta> C' T'])
    ultimately show ?thesis using f(1)
      by (subst cont_CopyAndApplyBindings.simps) (auto simp: leaf_def)
  qed
qed

text \<open>One context: every binding goes to the context itself.\<close>

definition own_context :: "CONTEXT \<Rightarrow> cont_env \<Rightarrow> bool" where
  "own_context C E \<longleftrightarrow> (\<forall>x C' T. E (C, x) = Some (C', T) \<longrightarrow> C' = C)"

lemma follow_Com:
  assumes "env_ok ar (bindings s)" "own_context C (bindings s)" "term_ok ar T"
  shows "cont_follow s C T = map_option (Pair C) (cont_follow_Com s C T)"
proof -
  obtain r \<theta> where r: "ranked r (bindings s)" using env_ok_resolved [OF assms(1)] by blast
  show ?thesis
    using assms(3)
  proof (induction "r (C, term_TopSymbol T)" arbitrary: T rule: less_induct)
    case less
    show ?case
    proof (cases "term_IsVariable T \<and> bindings s (C, term_TopSymbol T) \<noteq> None")
      case False
      then show ?thesis
        by (subst follow_unfold, subst cont_follow_Com.simps) (auto simp: BindingTerm_bindings)
    next
      case True
      then obtain T1 where E: "bindings s (C, term_TopSymbol T) = Some (C, T1)"
        using assms(2) by (auto simp: own_context_def)
      then have F: "cont_follow s C T = cont_follow s C T1"
        using True by (subst follow_unfold) simp
      have G: "cont_follow_Com s C T = cont_follow_Com s C T1"
        using True E by (subst cont_follow_Com.simps) (simp add: BindingTerm_bindings)
      note * = F G
      show ?thesis
      proof (cases "term_IsVariable T1")
        case True
        then have "r (C, term_TopSymbol T1) < r (C, term_TopSymbol T)"
          by (intro rankedD [OF r E]) (simp add: tvars_eq)
        from less.hyps [OF this env_ok_term [OF assms(1) E]] show ?thesis by (simp add: *)
      next
        case False
        have "cont_follow s C T1 = Some (C, T1)" using False by (subst follow_unfold) simp
        moreover have "cont_follow_Com s C T1 = Some T1" using False by (subst cont_follow_Com.simps) simp
        ultimately show ?thesis by (simp add: *)
      qed
    qed
  qed
qed

end
