(* ===== verification/Spass_Deref_Terms.thy ===== *)
theory Spass_Deref_Terms
  imports Spass_Deref
begin

text \<open>
  Terms seen through \<open>cont_Deref\<close> (\<open>context.c\<close>): \<open>derefs\<close> relates a term below contexts to the term that
  is read when every variable is followed on the way down. The functions of \<open>context.c\<close> that walk a
  term through \<open>cont_Deref\<close> are related to those of \<open>term.c\<close> on the term that is read.
\<close>

section \<open>The term that is read\<close>

text \<open>No index variable is left: the code assumes that all are bound in the global context.\<close>

inductive derefs :: "cont_state \<Rightarrow> CONTEXT \<Rightarrow> CONTEXT \<Rightarrow> TERM_NODE \<Rightarrow> TERM_NODE \<Rightarrow> bool" for s G where
  node: "cont_Deref s G C T = Some (C', U) \<Longrightarrow> \<not> term_IsIndexVariable U
     \<Longrightarrow> list_all2 (derefs s G C') (term_ArgumentList U) ts \<Longrightarrow> derefs s G C T (term_Create (term_TopSymbol U) ts)"

inductive_cases derefsE: "derefs s G C T T'"

lemma derefs_elim:
  assumes "derefs s G C T T'"
  obtains C' U where "cont_Deref s G C T = Some (C', U)" "\<not> term_IsIndexVariable U" "term_TopSymbol U = term_TopSymbol T'"
    "list_all2 (derefs s G C') (term_ArgumentList U) (term_ArgumentList T')"
  using assms by (rule derefsE) (auto simp: term_Create_def)

lemma deref_loop_stops: "deref_loop s C T = Some y \<Longrightarrow> deref_loop s (fst y) (snd y) = Some y"
proof (induction rule: deref_loop.raw_induct [rotated, consumes 1, case_names step])
  case (step f s C T y)
  show ?case
  proof (cases "term_IsVariable T \<and> C \<noteq> cont_INSTANCECONTEXT s \<and> cont_ContextBindingTerm C (term_TopSymbol T) s \<noteq> None")
    case True
    then show ?thesis using step by (auto split: option.splits)
  next
    case False
    then have "y = (C, T)" using step.hyps by (auto split: if_splits option.splits)
    then show ?thesis using False by (subst deref_loop.simps) auto
  qed
qed

lemma cont_Deref_again:
  assumes "cont_Deref s G C T = Some (C', U)" "\<not> term_IsIndexVariable U"
  shows "cont_Deref s G C' U = Some (C', U)"
  using assms deref_loop_stops [of s _ _ "(C', U)"]
  by (auto simp: cont_Deref_def Let_def split: if_splits option.splits)

lemma derefs_again: "derefs s G C T T' \<Longrightarrow> cont_Deref s G C T = Some (C', U) \<Longrightarrow> derefs s G C' U T'"
  by (erule derefsE) (auto intro: derefs.node cont_Deref_again)

section \<open>The functions on terms below contexts\<close>

lemma derefs_variable: "derefs s G C T T' \<Longrightarrow> cont_Deref s G C T = Some (C', U) \<Longrightarrow> term_IsVariable T' \<longleftrightarrow> term_IsVariable U"
  by (erule derefsE) (auto simp: term_Create_def term_IsVariable_def)

lemma list_all2_zip:
  assumes "list_all2 P xs xs'" "list_all2 Q ys ys'" "\<And>x x' y y'. x' \<in> set xs' \<Longrightarrow> y' \<in> set ys' \<Longrightarrow> P x x' \<Longrightarrow> Q y y' \<Longrightarrow> R (x, y) (x', y')"
  shows "list_all2 R (zip xs ys) (zip xs' ys')"
  using assms by (auto simp: list_all2_conv_all_nth)

lemma term_EqualArgs_iff: "term_EqualArgs ts us \<longleftrightarrow> length ts = length us \<and> (\<forall>p \<in> set (zip ts us). term_Equal (fst p) (snd p))"
  by (induction ts us rule: list_induct2') auto

lemma term_Equal_eq:
  "term_Equal t u \<longleftrightarrow> term_EqualTopSymbols t u \<and> (term_ArgumentList t \<noteq> [] \<longrightarrow> term_EqualArgs (term_ArgumentList t) (term_ArgumentList u))"
  by (cases t; cases u) (simp add: term_EqualTopSymbols_def)

lemma nodes_arg': "t \<in> set (term_ArgumentList u) \<Longrightarrow> nodes t < nodes u"
  using member_le_sum_list [of "nodes t" "map nodes (term_ArgumentList u)"] by (auto simp: nodes_eq [of u])

lemma cont_TermEqual_ok:
  assumes "derefs s G1 C1 T1 T1'" "derefs s G2 C2 T2 T2'"
  shows "cont_TermEqual s G1 C1 T1 G2 C2 T2 = Some (term_Equal T1' T2')"
  using assms
proof (induction "nodes T1'" arbitrary: C1 T1 T1' C2 T2 T2' rule: less_induct)
  case less
  obtain D1 U1 where 1: "cont_Deref s G1 C1 T1 = Some (D1, U1)" "term_TopSymbol U1 = term_TopSymbol T1'"
      "list_all2 (derefs s G1 D1) (term_ArgumentList U1) (term_ArgumentList T1')" by (rule derefs_elim [OF less.prems(1)])
  obtain D2 U2 where 2: "cont_Deref s G2 C2 T2 = Some (D2, U2)" "term_TopSymbol U2 = term_TopSymbol T2'"
      "list_all2 (derefs s G2 D2) (term_ArgumentList U2) (term_ArgumentList T2')" by (rule derefs_elim [OF less.prems(2)])
  have "list_all2 (\<lambda>p q. cont_TermEqual s G1 D1 (fst p) G2 D2 (snd p) = Some (term_Equal (fst q) (snd q)))
      (zip (term_ArgumentList U1) (term_ArgumentList U2)) (zip (term_ArgumentList T1') (term_ArgumentList T2'))"
    by (rule list_all2_zip [OF 1(3) 2(3)]) (simp add: less.hyps nodes_arg')
  from all_loop_rel [OF this] have loop: "all_loop (\<lambda>p. cont_TermEqual s G1 D1 (fst p) G2 D2 (snd p)) (zip (term_ArgumentList U1) (term_ArgumentList U2))
      = Some (\<forall>q \<in> set (zip (term_ArgumentList T1') (term_ArgumentList T2')). term_Equal (fst q) (snd q))"
    by (simp add: all_loop_Some)
  have len: "length (term_ArgumentList U1) = length (term_ArgumentList T1')" "length (term_ArgumentList U2) = length (term_ArgumentList T2')"
    "term_ArgumentList U1 = [] \<longleftrightarrow> term_ArgumentList T1' = []"
    using 1(3) 2(3) by (auto dest: list_all2_lengthD)
  show ?case
    by (subst cont_TermEqual.simps)
      (simp add: 1(1,2) 2(1,2) loop len term_Equal_eq [of T1' T2'] term_EqualArgs_iff term_EqualTopSymbols_def conj_commute)
qed

lemma derefs_walk:
  assumes "derefs s G C T T'"
    "\<And>C T T' C' U. cont_Deref s G C T = Some (C', U) \<Longrightarrow> term_TopSymbol U = term_TopSymbol T'
       \<Longrightarrow> list_all2 (\<lambda>t t'. P C' t t') (term_ArgumentList U) (term_ArgumentList T') \<Longrightarrow> P C T T'"
  shows "P C T T'"
  using assms(1)
proof (induction rule: derefs.induct)
  case (node C T C' U ts)
  show ?case
    by (rule assms(2) [OF node(1)]) (use node(3) in \<open>auto simp: term_Create_def elim!: list.rel_mono_strong\<close>)
qed

lemma foldl_max: "foldl (\<lambda>r m. if m > r then m else r) a ms = Max (insert a (set ms))" for a :: int
proof (induction ms arbitrary: a)
  case (Cons m ms)
  have "Max (insert (if m > a then m else a) (set ms)) = Max (insert a (insert m (set ms)))"
    by (cases "ms = []") (auto simp: max_def)
  then show ?case using Cons by simp
qed simp

lemma Max_UN_zero:
  fixes M :: "'a \<Rightarrow> int set"
  assumes "finite A" "\<And>t. finite (M t)" "\<And>t. 0 \<in> M t"
  shows "Max (insert 0 (\<Union>t \<in> A. M t)) = Max (insert 0 ((\<lambda>t. Max (M t)) ` A))"
proof (rule Max_eqI)
  let ?R = "insert 0 ((\<lambda>t. Max (M t)) ` A)"
  have fin: "finite ?R" using assms(1) by simp
  fix y assume "y \<in> insert 0 (\<Union>t \<in> A. M t)"
  then consider "y = 0" | t where "t \<in> A" "y \<in> M t" by auto
  then show "y \<le> Max ?R"
  proof cases
    case 2
    then have "y \<le> Max (M t)" "Max (M t) \<le> Max ?R" using assms(2) fin by (auto intro: Max_ge)
    then show ?thesis by simp
  qed (use fin in auto)
next
  have "Max (insert 0 ((\<lambda>t. Max (M t)) ` A)) \<in> insert 0 ((\<lambda>t. Max (M t)) ` A)" using assms(1) by (intro Max_in) auto
  moreover have "Max (M t) \<in> M t" for t using assms(2,3) Max_in [of "M t"] by (metis empty_iff)
  ultimately show "Max (insert 0 ((\<lambda>t. Max (M t)) ` A)) \<in> insert 0 (\<Union>t \<in> A. M t)"
    by (elim insertE imageE) (simp, simp only: insert_iff UN_iff, blast)
qed (use assms in auto)

lemma MaxVar_args:
  assumes "var_leaf T" "\<not> term_IsStandardVariable T"
  shows "term_MaxVar T = Max (insert 0 (term_MaxVar ` set (term_ArgumentList T)))"
proof -
  let ?M = "\<lambda>t. insert 0 (term_TopSymbol ` set (filter term_IsStandardVariable (subterms t)))"
  have leaf: "var_leaf t" if "t \<in> set (term_ArgumentList T)" for t
    using assms(1) that by (auto simp: var_leaf_def subterms_eq [of T])
  have args: "term_MaxVar ` set (term_ArgumentList T) = (\<lambda>t. Max (?M t)) ` set (term_ArgumentList T)"
    using term_MaxVar_ok [OF leaf] by auto
  have "?M T = insert 0 (\<Union>t \<in> set (term_ArgumentList T). ?M t)"
    using assms(2) by (auto simp: subterms_eq [of T])
  then show ?thesis unfolding term_MaxVar_ok [OF assms(1)] args
    using Max_UN_zero [of "set (term_ArgumentList T)" ?M] by simp
qed

lemma cont_TermMaxVar_ok:
  assumes "derefs s G C T T'" "var_leaf T'"
  shows "cont_TermMaxVar s G C T = Some (term_MaxVar T')"
proof -
  have "var_leaf T' \<longrightarrow> cont_TermMaxVar s G C T = Some (term_MaxVar T')"
    using assms(1)
  proof (rule derefs_walk, intro impI)
    fix C T T' C' U
    assume *: "cont_Deref s G C T = Some (C', U)" "term_TopSymbol U = term_TopSymbol T'"
      "list_all2 (\<lambda>t t'. var_leaf t' \<longrightarrow> cont_TermMaxVar s G C' t = Some (term_MaxVar t')) (term_ArgumentList U) (term_ArgumentList T')"
      "var_leaf T'"
    have std: "term_IsStandardVariable U \<longleftrightarrow> term_IsStandardVariable T'" using *(2) by (simp add: term_IsStandardVariable_def)
    show "cont_TermMaxVar s G C T = Some (term_MaxVar T')"
    proof (cases "term_IsStandardVariable T'")
      case True
      then have "subterms T' = [T']" "0 < term_TopSymbol T'" using *(4)
        by (auto simp: var_leaf_def subterms_eq [of T'] leaf_def term_IsVariable_def term_IsStandardVariable_def
            symbol_IsStandardVariable_def symbol_IsVariable_def)
      then show ?thesis using True *(2) std
        by (subst cont_TermMaxVar.simps) (simp add: *(1) symbol_Null_def term_MaxVar_ok [OF *(4)])
    next
      case False
      have "list_all2 (\<lambda>t t'. cont_TermMaxVar s G C' t = Some (term_MaxVar t')) (term_ArgumentList U) (term_ArgumentList T')"
        using *(3) by (rule list.rel_mono_strong) (use *(4) in \<open>auto simp: var_leaf_def subterms_eq [of T']\<close>)
      from map_loop_rel [OF this] show ?thesis using False std
        by (subst cont_TermMaxVar.simps) (simp add: *(1) symbol_Null_def foldl_max MaxVar_args [OF *(4)])
    qed
  qed
  then show ?thesis using assms(2) by blast
qed

lemma of_nat_sum_list: "(of_nat (sum_list ns) :: NAT) = sum_list (map of_nat ns)"
  by (induction ns) auto

lemma cont_TermSize_ok: "derefs s G C T T' \<Longrightarrow> cont_TermSize s G C T = Some (of_nat (nodes T'))"
proof (erule derefs_walk)
  fix C T T' C' U
  assume *: "cont_Deref s G C T = Some (C', U)" "term_TopSymbol U = term_TopSymbol T'"
    "list_all2 (\<lambda>t t'. cont_TermSize s G C' t = Some (of_nat (nodes t'))) (term_ArgumentList U) (term_ArgumentList T')"
  show "cont_TermSize s G C T = Some (of_nat (nodes T'))"
    using map_loop_rel [OF *(3)] by (subst cont_TermSize.simps) (simp add: *(1) nodes_eq [of T'] foldl_add_word of_nat_sum_list comp_def)
qed

lemma cont_TermContainsSymbol_ok:
  "derefs s G C T T' \<Longrightarrow> cont_TermContainsSymbol s G C T x = Some (\<exists>u \<in> set (subterms T'). term_TopSymbol u = x)"
proof (erule derefs_walk)
  fix C T T' C' U
  assume *: "cont_Deref s G C T = Some (C', U)" "term_TopSymbol U = term_TopSymbol T'"
    "list_all2 (\<lambda>t t'. cont_TermContainsSymbol s G C' t x = Some (\<exists>u \<in> set (subterms t'). term_TopSymbol u = x)) (term_ArgumentList U) (term_ArgumentList T')"
  show "cont_TermContainsSymbol s G C T x = Some (\<exists>u \<in> set (subterms T'). term_TopSymbol u = x)"
    using any_loop_rel [OF *(3)]
    by (subst cont_TermContainsSymbol.simps) (auto simp: *(1,2) subterms_eq [of T'] symbol_Equal_def any_loop_Some)
qed

end
