(* ===== verification/Spass_KBO_Context.thy ===== *)
theory Spass_KBO_Context
  imports Spass_KBO Spass_Deref_Terms
begin

text \<open>
  The Knuth-Bendix order on terms below contexts (\<open>kbo.c\<close>): the functions follow the bindings while
  they compare. The lemmas show that they compare the terms that are read through the bindings as
  the order of \<open>Spass_KBO\<close> does.

  As there, the array of counts is made anew, and \<open>None\<close> is an access outside of it or a null
  pointer that is followed; it is also a loop along bindings that does not end.
\<close>

declare split_paired_All [simp del] split_paired_Ex [simp del]

section \<open>Variables and weights\<close>

partial_function (option) kbo_ContCompVarCondAndWeightIntern ::
  "cont_state \<Rightarrow> symbol_table \<Rightarrow> CONTEXT \<Rightarrow> CONTEXT \<Rightarrow> TERM_NODE \<Rightarrow> (int \<Rightarrow> NAT) \<Rightarrow> ((int \<Rightarrow> NAT) \<times> int) option" where
  "kbo_ContCompVarCondAndWeightIntern s st GlobalContext TermContext Term VARCOUNT = do {
     (TermContext, Term) \<leftarrow> cont_Deref s GlobalContext TermContext Term;
     if term_IsStandardVariable Term then
       Some (VARCOUNT(term_TopSymbol Term := VARCOUNT (term_TopSymbol Term) + 1), int32 (0 + kbo_MINWEIGHT))
     else
       fold_loop (\<lambda>r t. do {
           (VARCOUNT, Weight) \<leftarrow> kbo_ContCompVarCondAndWeightIntern s st GlobalContext TermContext t (fst r);
           Some (VARCOUNT, int32 (snd r + Weight)) })
         (VARCOUNT, int32 (0 + symbol_Weight st (term_TopSymbol Term))) (term_ArgumentList Term) }"

definition kbo_ContCompVarCondAndWeight ::
  "cont_state \<Rightarrow> symbol_table \<Rightarrow> CONTEXT \<Rightarrow> CONTEXT \<Rightarrow> TERM_NODE \<Rightarrow> CONTEXT \<Rightarrow> CONTEXT \<Rightarrow> TERM_NODE \<Rightarrow> (int \<times> bool \<times> bool) option" where
  "kbo_ContCompVarCondAndWeight s st GlobalContext1 TermContext1 Term1 GlobalContext2 TermContext2 Term2 = do {
     MaxVar1 \<leftarrow> cont_TermMaxVar s GlobalContext1 TermContext1 Term1;
     MaxVar2 \<leftarrow> cont_TermMaxVar s GlobalContext2 TermContext2 Term2;
     let MaxVar1 = (if MaxVar1 < MaxVar2 then MaxVar2 else MaxVar1);
     if MaxVar1 \<ge> symbol_MAXSTANDARDVAR then None
     else do {
       (C0, Weight1) \<leftarrow> kbo_ContCompVarCondAndWeightIntern s st GlobalContext1 TermContext1 Term1 (\<lambda>i. 0);
       (C1, Weight2) \<leftarrow> kbo_ContCompVarCondAndWeightIntern s st GlobalContext2 TermContext2 Term2 (\<lambda>i. 0);
       Some (int32 (Weight1 - Weight2), varcond_loop C0 C1 [0..MaxVar1] True True) } }"

section \<open>Comparison by structure\<close>

text \<open>The loops that look for the first different pair of arguments, with a test that may fail.\<close>

fun cont_first_diff :: "(TERM_NODE \<Rightarrow> TERM_NODE \<Rightarrow> bool option) \<Rightarrow> TERM_NODE list \<Rightarrow> TERM_NODE list \<Rightarrow> (TERM_NODE \<times> TERM_NODE) option option" where
  "cont_first_diff eq [] us = Some None"
| "cont_first_diff eq (t # ts) [] = None"
| "cont_first_diff eq (t # ts) (u # us) = Option.bind (eq t u) (\<lambda>b. if b then cont_first_diff eq ts us else Some (Some (t, u)))"

fun cont_last_diff :: "(TERM_NODE \<Rightarrow> TERM_NODE \<Rightarrow> bool option) \<Rightarrow> TERM_NODE list \<Rightarrow> TERM_NODE list \<Rightarrow> nat \<Rightarrow> (TERM_NODE \<times> TERM_NODE) option option" where
  "cont_last_diff eq ts us 0 = Some None"
| "cont_last_diff eq ts us (Suc i) =
     (if i \<ge> length ts \<or> i \<ge> length us then None
      else Option.bind (eq (ts ! i) (us ! i)) (\<lambda>b. if b then cont_last_diff eq ts us i else Some (Some (ts ! i, us ! i))))"

definition kbo_ContDiff ::
  "cont_state \<Rightarrow> symbol_table \<Rightarrow> CONTEXT \<Rightarrow> CONTEXT \<Rightarrow> TERM_NODE \<Rightarrow> CONTEXT \<Rightarrow> CONTEXT \<Rightarrow> TERM_NODE \<Rightarrow> (TERM_NODE \<times> TERM_NODE) option option" where
  "kbo_ContDiff s st GlobalContext1 TermContext1 Term1 GlobalContext2 TermContext2 Term2 =
     (let eq = (\<lambda>t u. cont_TermEqual s GlobalContext1 TermContext1 t GlobalContext2 TermContext2 u)
      in if symbol_HasProperty st (term_TopSymbol Term1) ORDRIGHT
         then cont_last_diff eq (term_ArgumentList Term1) (term_ArgumentList Term2) (nat (symbol_Arity st (term_TopSymbol Term1)))
         else cont_first_diff eq (term_ArgumentList Term1) (term_ArgumentList Term2))"

partial_function (option) kbo_ContCompareStruc ::
  "cont_state \<Rightarrow> symbol_table \<Rightarrow> PRECEDENCE \<Rightarrow> CONTEXT \<Rightarrow> CONTEXT \<Rightarrow> TERM_NODE \<Rightarrow> CONTEXT \<Rightarrow> CONTEXT \<Rightarrow> TERM_NODE \<Rightarrow> int \<Rightarrow> ord_RESULT option" where
  "kbo_ContCompareStruc s st P GlobalContext1 TermContext1 Term1 GlobalContext2 TermContext2 Term2 WeightDiff = do {
     (TermContext1, Term1) \<leftarrow> cont_Deref s GlobalContext1 TermContext1 Term1;
     (TermContext2, Term2) \<leftarrow> cont_Deref s GlobalContext2 TermContext2 Term2;
     if WeightDiff > 0 then Some ord_GREATER_THAN
     else if WeightDiff = 0 then
       if symbol_IsStandardVariable (term_TopSymbol Term1) then
         if symbol_IsStandardVariable (term_TopSymbol Term2) then Some ord_EQUAL else Some ord_UNCOMPARABLE
       else if symbol_IsStandardVariable (term_TopSymbol Term2) \<or> symbol_PrecedenceGreater P (term_TopSymbol Term1) (term_TopSymbol Term2) then Some ord_GREATER_THAN
       else if term_TopSymbol Term1 = term_TopSymbol Term2 then do {
         d \<leftarrow> kbo_ContDiff s st GlobalContext1 TermContext1 Term1 GlobalContext2 TermContext2 Term2;
         case d of
           None \<Rightarrow> Some ord_EQUAL
         | Some (RecTerm1, RecTerm2) \<Rightarrow> do {
             (TermContext1, RecTerm1) \<leftarrow> cont_Deref s GlobalContext1 TermContext1 RecTerm1;
             (TermContext2, RecTerm2) \<leftarrow> cont_Deref s GlobalContext2 TermContext2 RecTerm2;
             (RecWeightDiff, T1VarCond, T2VarCond) \<leftarrow>
               kbo_ContCompVarCondAndWeight s st GlobalContext1 TermContext1 RecTerm1 GlobalContext2 TermContext2 RecTerm2;
             if RecWeightDiff \<ge> 0 \<and> T1VarCond
             then kbo_ContCompareStruc s st P GlobalContext1 TermContext1 RecTerm1 GlobalContext2 TermContext2 RecTerm2 RecWeightDiff
             else Some ord_UNCOMPARABLE } }
       else Some ord_UNCOMPARABLE
     else Some ord_UNCOMPARABLE }"

definition kbo_ContCompare ::
  "cont_state \<Rightarrow> symbol_table \<Rightarrow> PRECEDENCE \<Rightarrow> CONTEXT \<Rightarrow> TERM_NODE \<Rightarrow> CONTEXT \<Rightarrow> TERM_NODE \<Rightarrow> ord_RESULT option" where
  "kbo_ContCompare s st P Context1 Term1 Context2 Term2 = do {
     (WeightDiff, T1VarCond, T2VarCond) \<leftarrow> kbo_ContCompVarCondAndWeight s st Context1 Context1 Term1 Context2 Context2 Term2;
     if T1VarCond \<and> \<not> T2VarCond then kbo_ContCompareStruc s st P Context1 Context1 Term1 Context2 Context2 Term2 WeightDiff
     else if \<not> T1VarCond \<and> T2VarCond then
       map_option ord_Not (kbo_ContCompareStruc s st P Context2 Context2 Term2 Context1 Context1 Term1 (int32 (- WeightDiff)))
     else if T1VarCond \<and> T2VarCond then do {
       Result \<leftarrow> kbo_ContCompareStruc s st P Context1 Context1 Term1 Context2 Context2 Term2 WeightDiff;
       if Result = ord_UNCOMPARABLE then
         map_option ord_Not (kbo_ContCompareStruc s st P Context2 Context2 Term2 Context1 Context1 Term1 (int32 (- WeightDiff)))
       else Some Result }
     else Some ord_UNCOMPARABLE }"

partial_function (option) kbo_ContGreaterCompareStruc ::
  "cont_state \<Rightarrow> symbol_table \<Rightarrow> PRECEDENCE \<Rightarrow> CONTEXT \<Rightarrow> CONTEXT \<Rightarrow> TERM_NODE \<Rightarrow> CONTEXT \<Rightarrow> CONTEXT \<Rightarrow> TERM_NODE \<Rightarrow> bool \<Rightarrow> bool option" where
  "kbo_ContGreaterCompareStruc s st P GlobalContext1 TermContext1 Term1 GlobalContext2 TermContext2 Term2 VarIsConst = do {
     (TermContext1, Term1) \<leftarrow> cont_Deref s GlobalContext1 TermContext1 Term1;
     (TermContext2, Term2) \<leftarrow> cont_Deref s GlobalContext2 TermContext2 Term2;
     if symbol_IsStandardVariable (term_TopSymbol Term1) then
       if symbol_IsStandardVariable (term_TopSymbol Term2) then
         Some (VarIsConst \<and> term_TopSymbol Term1 > term_TopSymbol Term2)
       else Some False
     else if symbol_IsStandardVariable (term_TopSymbol Term2) \<or> symbol_PrecedenceGreater P (term_TopSymbol Term1) (term_TopSymbol Term2) then Some True
     else if term_TopSymbol Term1 = term_TopSymbol Term2 then do {
       d \<leftarrow> kbo_ContDiff s st GlobalContext1 TermContext1 Term1 GlobalContext2 TermContext2 Term2;
       case d of
         None \<Rightarrow> Some False
       | Some (RecTerm1, RecTerm2) \<Rightarrow> do {
           (TermContext1, RecTerm1) \<leftarrow> cont_Deref s GlobalContext1 TermContext1 RecTerm1;
           (TermContext2, RecTerm2) \<leftarrow> cont_Deref s GlobalContext2 TermContext2 RecTerm2;
           (RecWeightDiff, T1VarCond, T2VarCond) \<leftarrow>
             kbo_ContCompVarCondAndWeight s st GlobalContext1 TermContext1 RecTerm1 GlobalContext2 TermContext2 RecTerm2;
           if T1VarCond \<or> VarIsConst then
             if RecWeightDiff > 0 then Some True
             else if RecWeightDiff = 0 then
               kbo_ContGreaterCompareStruc s st P GlobalContext1 TermContext1 RecTerm1 GlobalContext2 TermContext2 RecTerm2 VarIsConst
             else Some False
           else Some False } }
     else Some False }"

text \<open>The loops are executed by their equations.\<close>

declare kbo_ContCompVarCondAndWeightIntern.simps [code] kbo_ContCompareStruc.simps [code]
  kbo_ContGreaterCompareStruc.simps [code]

definition kbo_ContGreaterHelp ::
  "cont_state \<Rightarrow> symbol_table \<Rightarrow> PRECEDENCE \<Rightarrow> CONTEXT \<Rightarrow> TERM_NODE \<Rightarrow> CONTEXT \<Rightarrow> TERM_NODE \<Rightarrow> bool \<Rightarrow> bool option" where
  "kbo_ContGreaterHelp s st P Context1 Term1 Context2 Term2 VarIsConst = do {
     (WeightDiff, T1VarCond, T2VarCond) \<leftarrow> kbo_ContCompVarCondAndWeight s st Context1 Context1 Term1 Context2 Context2 Term2;
     if T1VarCond \<or> VarIsConst then
       if WeightDiff > 0 then Some True
       else if WeightDiff = 0 then
         kbo_ContGreaterCompareStruc s st P Context1 Context1 Term1 Context2 Context2 Term2 VarIsConst
       else Some False
     else Some False }"

definition kbo_ContGreater ::
  "cont_state \<Rightarrow> symbol_table \<Rightarrow> PRECEDENCE \<Rightarrow> CONTEXT \<Rightarrow> TERM_NODE \<Rightarrow> CONTEXT \<Rightarrow> TERM_NODE \<Rightarrow> bool option" where
  "kbo_ContGreater s st P Context1 Term1 Context2 Term2 = kbo_ContGreaterHelp s st P Context1 Term1 Context2 Term2 False"

definition kbo_ContGreaterSkolemSubst ::
  "cont_state \<Rightarrow> symbol_table \<Rightarrow> PRECEDENCE \<Rightarrow> CONTEXT \<Rightarrow> TERM_NODE \<Rightarrow> CONTEXT \<Rightarrow> TERM_NODE \<Rightarrow> bool option" where
  "kbo_ContGreaterSkolemSubst s st P Context1 Term1 Context2 Term2 = kbo_ContGreaterHelp s st P Context1 Term1 Context2 Term2 True"

section \<open>Comparison of the terms that are read\<close>

lemma fold_loop_count:
  assumes "list_all2 (\<lambda>t t'. \<forall>C. g C t = Some (\<lambda>x. C x + c t' x, int32 (w t'))) ts ts'"
  shows "fold_loop (\<lambda>r t. Option.bind (g (fst r) t) (\<lambda>(C, v). Some (C, int32 (snd r + v)))) (C, int32 a) ts
    = Some (\<lambda>x. C x + sum_list (map (\<lambda>t. c t x) ts'), int32 (a + sum_list (map w ts')))"
  using assms
  by (induction arbitrary: C a rule: list_all2_induct) (auto simp: algebra_simps int32_add int32_add_right)

lemma occurrences_eq: "occurrences x t = (if term_TopSymbol t = x then 1 else 0) + sum_list (map (occurrences x) (term_ArgumentList t))"
proof -
  have "length (filter Q (concat (map subterms ts))) = sum_list (map (\<lambda>t. length (filter Q (subterms t))) ts)" for Q ts
    by (induction ts) auto
  then show ?thesis by (simp add: occurrences_def [abs_def] subterms_eq [of t])
qed

definition std_counts :: "TERM_NODE \<Rightarrow> int \<Rightarrow> NAT" where
  "std_counts t x = (if symbol_IsStandardVariable x then of_nat (occurrences x t) else 0)"

lemma ContIntern_ok:
  assumes "derefs s G C T T'" "kbo_term st T'"
  shows "kbo_ContCompVarCondAndWeightIntern s st G C T V = Some (\<lambda>x. V x + std_counts T' x, int32 (weight st T'))"
proof -
  have "kbo_term st T' \<longrightarrow> (\<forall>V. kbo_ContCompVarCondAndWeightIntern s st G C T V = Some (\<lambda>x. V x + std_counts T' x, int32 (weight st T')))"
    using assms(1)
  proof (rule derefs_walk, intro impI allI)
    fix C T T' C' U V
    assume *: "cont_Deref s G C T = Some (C', U)" "term_TopSymbol U = term_TopSymbol T'"
      "list_all2 (\<lambda>t t'. kbo_term st t' \<longrightarrow> (\<forall>V. kbo_ContCompVarCondAndWeightIntern s st G C' t V
          = Some (\<lambda>x. V x + std_counts t' x, int32 (weight st t')))) (term_ArgumentList U) (term_ArgumentList T')"
      "kbo_term st T'"
    have std: "term_IsStandardVariable U \<longleftrightarrow> term_IsStandardVariable T'" using *(2) by (simp add: term_IsStandardVariable_def)
    show "kbo_ContCompVarCondAndWeightIntern s st G C T V = Some (\<lambda>x. V x + std_counts T' x, int32 (weight st T'))"
    proof (cases "term_IsStandardVariable T'")
      case True
      then have "term_ArgumentList T' = []"
        using kbo_term_var_leaf [OF *(4)] kbo_term_std [OF *(4) subterms_self] unfolding var_leaf_def leaf_def by (metis subterms_self)
      then show ?thesis using True std *(2)
        by (subst kbo_ContCompVarCondAndWeightIntern.simps)
          (auto simp: *(1) std_counts_def occurrences_eq [of _ T'] weight_eq [of st T'] term_IsStandardVariable_def fun_eq_iff)
    next
      case False
      have "list_all2 (\<lambda>t t'. \<forall>V. kbo_ContCompVarCondAndWeightIntern s st G C' t V
          = Some (\<lambda>x. V x + std_counts t' x, int32 (weight st t'))) (term_ArgumentList U) (term_ArgumentList T')"
        using *(3) by (rule list.rel_mono_strong) (use kbo_term_arg [OF *(4)] in blast)
      note fold_loop_count [OF this]
      moreover have "sum_list (map (\<lambda>t. std_counts t x) (term_ArgumentList T')) = std_counts T' x" for x
        using False by (auto simp: std_counts_def [abs_def] occurrences_eq [of x T'] of_nat_sum_list comp_def term_IsStandardVariable_def)
      ultimately show ?thesis using False std *(2)
        by (subst kbo_ContCompVarCondAndWeightIntern.simps) (simp add: *(1) weight_eq [of st T'])
    qed
  qed
  then show ?thesis using assms(2) by blast
qed

lemma ContCompVarCondAndWeight_ok:
  assumes "derefs s G1 C1 T1 T1'" "derefs s G2 C2 T2 T2'" "kbo_term st T1'" "kbo_term st T2'"
  shows "kbo_ContCompVarCondAndWeight s st G1 C1 T1 G2 C2 T2 = kbo_CompVarCondAndWeight st T1' T2'"
  using kbo_counts_ok(1) [OF assms(3)] kbo_counts_ok(2) [OF assms(4)]
  by (simp add: kbo_ContCompVarCondAndWeight_def kbo_CompVarCondAndWeight_def Let_def
      cont_TermMaxVar_ok [OF assms(1) kbo_term_var_leaf [OF assms(3)]] cont_TermMaxVar_ok [OF assms(2) kbo_term_var_leaf [OF assms(4)]]
      ContIntern_ok [OF assms(1,3)] ContIntern_ok [OF assms(2,4)] std_counts_def [abs_def] int32_diff int32_diff_right)

lemma cont_first_diff_ok:
  assumes "list_all2 Q1 ts ts'" "list_all2 Q2 us us'" "\<And>t t' u u'. Q1 t t' \<Longrightarrow> Q2 u u' \<Longrightarrow> eq t u = Some (term_Equal t' u')"
  shows "rel_option (rel_option (rel_prod Q1 Q2)) (cont_first_diff eq ts us) (first_diff ts' us')"
  using assms
proof (induction eq ts us arbitrary: ts' us' rule: cont_first_diff.induct)
  case (3 eq t ts u us)
  then show ?case by (auto simp: list_all2_Cons1)
qed (auto simp: list_all2_Cons1)

lemma cont_last_diff_ok:
  assumes "list_all2 Q1 ts ts'" "list_all2 Q2 us us'" "\<And>t t' u u'. Q1 t t' \<Longrightarrow> Q2 u u' \<Longrightarrow> eq t u = Some (term_Equal t' u')"
  shows "rel_option (rel_option (rel_prod Q1 Q2)) (cont_last_diff eq ts us i) (last_diff ts' us' i)"
proof (induction i)
  case (Suc i)
  have len: "length ts = length ts'" "length us = length us'" using assms(1,2) by (auto dest: list_all2_lengthD)
  show ?case
  proof (cases "i < length ts \<and> i < length us")
    case True
    then have "Q1 (ts ! i) (ts' ! i)" "Q2 (us ! i) (us' ! i)" using assms(1,2) by (auto simp: list_all2_conv_all_nth)
    then show ?thesis using Suc True len assms(3) by auto
  next
    case False
    then show ?thesis using len by auto
  qed
qed simp

lemma kbo_ContDiff_ok:
  assumes "list_all2 (derefs s G1 D1) (term_ArgumentList U1) (term_ArgumentList T1')" "term_TopSymbol U1 = term_TopSymbol T1'"
    "list_all2 (derefs s G2 D2) (term_ArgumentList U2) (term_ArgumentList T2')"
  shows "rel_option (rel_option (rel_prod (derefs s G1 D1) (derefs s G2 D2))) (kbo_ContDiff s st G1 D1 U1 G2 D2 U2) (kbo_diff st T1' T2')"
  using cont_first_diff_ok [OF assms(1,3) cont_TermEqual_ok] cont_last_diff_ok [OF assms(1,3) cont_TermEqual_ok]
  by (simp add: kbo_ContDiff_def kbo_diff_def Let_def assms(2))

text \<open>The pair of arguments that decides, below contexts and in the terms that are read.\<close>

lemma kbo_ContDiff_cases:
  assumes "list_all2 (derefs s G1 D1) (term_ArgumentList U1) (term_ArgumentList T1')" "term_TopSymbol U1 = term_TopSymbol T1'"
    "list_all2 (derefs s G2 D2) (term_ArgumentList U2) (term_ArgumentList T2')" "kbo_term st T1'" "kbo_term st T2'"
  obtains "kbo_ContDiff s st G1 D1 U1 G2 D2 U2 = None" "kbo_diff st T1' T2' = None"
  | "kbo_ContDiff s st G1 D1 U1 G2 D2 U2 = Some None" "kbo_diff st T1' T2' = Some None"
  | t u t' u' E1 V1 E2 V2 where "kbo_ContDiff s st G1 D1 U1 G2 D2 U2 = Some (Some (t, u))" "kbo_diff st T1' T2' = Some (Some (t', u'))"
    "cont_Deref s G1 D1 t = Some (E1, V1)" "derefs s G1 E1 V1 t'" "cont_Deref s G2 D2 u = Some (E2, V2)" "derefs s G2 E2 V2 u'"
    "kbo_term st t'" "kbo_term st u'" "nodes t' < nodes T1'"
proof -
  note rel = kbo_ContDiff_ok [OF assms(1-3), of st]
  show ?thesis
  proof (cases "kbo_diff st T1' T2'")
    case None
    then show ?thesis using rel that(1) by auto
  next
    case (Some d)
    show ?thesis
    proof (cases d)
      case None
      then show ?thesis using Some rel that(2) by (auto simp: option_rel_Some2)
    next
      case d: (Some p)
      obtain t' u' where p: "p = (t', u')" by (cases p)
      then obtain t u where tu: "kbo_ContDiff s st G1 D1 U1 G2 D2 U2 = Some (Some (t, u))" "derefs s G1 D1 t t'" "derefs s G2 D2 u u'"
        using rel Some d by (auto simp: option_rel_Some2)
      obtain E1 V1 E2 V2 where E: "cont_Deref s G1 D1 t = Some (E1, V1)" "cont_Deref s G2 D2 u = Some (E2, V2)"
        using tu(2,3) by (meson derefsE)
      note mem = kbo_diff_set [of st T1' T2' t' u']
      show ?thesis
        by (rule that(3) [OF tu(1) _ E(1) derefs_again [OF tu(2) E(1)] E(2) derefs_again [OF tu(3) E(2)]])
          (use Some d p mem kbo_term_arg assms(4,5) nodes_arg in auto)
    qed
  qed
qed

lemma kbo_ContCompareStruc_ok:
  assumes "derefs s G1 C1 T1 T1'" "derefs s G2 C2 T2 T2'" "kbo_term st T1'" "kbo_term st T2'"
  shows "kbo_ContCompareStruc s st P G1 C1 T1 G2 C2 T2 W = kbo_CompareStruc st P T1' T2' W False"
  using assms
proof (induction "nodes T1'" arbitrary: C1 T1 T1' C2 T2 T2' W rule: less_induct)
  case less
  obtain D1 U1 where 1: "cont_Deref s G1 C1 T1 = Some (D1, U1)" "term_TopSymbol U1 = term_TopSymbol T1'"
      "list_all2 (derefs s G1 D1) (term_ArgumentList U1) (term_ArgumentList T1')" by (rule derefs_elim [OF less.prems(1)])
  obtain D2 U2 where 2: "cont_Deref s G2 C2 T2 = Some (D2, U2)" "term_TopSymbol U2 = term_TopSymbol T2'"
      "list_all2 (derefs s G2 D2) (term_ArgumentList U2) (term_ArgumentList T2')" by (rule derefs_elim [OF less.prems(2)])
  note unfold = kbo_ContCompareStruc.simps [of s st P G1 C1 T1 G2 C2 T2 W] kbo_CompareStruc.simps [of st P T1' T2' W False]
  show ?case
  proof (rule kbo_ContDiff_cases [OF 1(3,2) 2(3) less.prems(3,4)], goal_cases)
    case (3 t u t' u' E1 V1 E2 V2)
    have C: "kbo_ContCompVarCondAndWeight s st G1 E1 V1 G2 E2 V2 = kbo_CompVarCondAndWeight st t' u'"
      by (rule ContCompVarCondAndWeight_ok [OF 3(4,6,7,8)])
    have R: "kbo_ContCompareStruc s st P G1 E1 V1 G2 E2 V2 W' = kbo_CompareStruc st P t' u' W' False" for W'
      by (rule less.hyps [OF 3(9,4,6,7,8)])
    show ?case unfolding unfold using 3
      by (simp add: 1(1,2) 2(1,2) C R) (cases "kbo_CompVarCondAndWeight st t' u'", auto simp: R)
  qed (unfold unfold, simp_all add: 1(1,2) 2(1,2))
qed

lemma kbo_ContGreaterCompareStruc_ok:
  assumes "derefs s G1 C1 T1 T1'" "derefs s G2 C2 T2 T2'" "kbo_term st T1'" "kbo_term st T2'"
  shows "kbo_ContGreaterCompareStruc s st P G1 C1 T1 G2 C2 T2 V = map_option (\<lambda>r. r = ord_GREATER_THAN) (kbo_CompareStruc st P T1' T2' 0 V)"
  using assms
proof (induction "nodes T1'" arbitrary: C1 T1 T1' C2 T2 T2' rule: less_induct)
  case less
  obtain D1 U1 where 1: "cont_Deref s G1 C1 T1 = Some (D1, U1)" "term_TopSymbol U1 = term_TopSymbol T1'"
      "list_all2 (derefs s G1 D1) (term_ArgumentList U1) (term_ArgumentList T1')" by (rule derefs_elim [OF less.prems(1)])
  obtain D2 U2 where 2: "cont_Deref s G2 C2 T2 = Some (D2, U2)" "term_TopSymbol U2 = term_TopSymbol T2'"
      "list_all2 (derefs s G2 D2) (term_ArgumentList U2) (term_ArgumentList T2')" by (rule derefs_elim [OF less.prems(2)])
  note unfold = kbo_ContGreaterCompareStruc.simps [of s st P G1 C1 T1 G2 C2 T2 V] kbo_CompareStruc.simps [of st P T1' T2' 0 V]
  show ?case
  proof (rule kbo_ContDiff_cases [OF 1(3,2) 2(3) less.prems(3,4)], goal_cases)
    case (3 t u t' u' E1 V1 E2 V2)
    have C: "kbo_ContCompVarCondAndWeight s st G1 E1 V1 G2 E2 V2 = Some (int32 (weight st t' - weight st u'), varcond t' u', varcond u' t')"
      "kbo_CompVarCondAndWeight st t' u' = Some (int32 (weight st t' - weight st u'), varcond t' u', varcond u' t')"
      using ContCompVarCondAndWeight_ok [OF 3(4,6,7,8)] kbo_CompVarCondAndWeight_ok [OF 3(7,8)] by simp_all
    have R: "kbo_ContGreaterCompareStruc s st P G1 E1 V1 G2 E2 V2 V
        = map_option (\<lambda>r. r = ord_GREATER_THAN) (kbo_CompareStruc st P t' u' 0 V)"
      by (rule less.hyps [OF 3(9,4,6,7,8)])
    have G: "kbo_CompareStruc st P t' u' d V = Some ord_GREATER_THAN" if "d > 0" for d
      using that by (subst kbo_CompareStruc.simps) simp
    show ?case unfolding unfold using 3 G
      by (cases "int32 (weight st t' - weight st u')" "0::int" rule: linorder_cases) (simp_all add: 1(1,2) 2(1,2) C R)
  qed (unfold unfold, simp_all add: 1(1,2) 2(1,2))
qed

text \<open>With variables as constants, what is smaller one way is greater the other way.\<close>

lemma kbo_CompareStruc_swap:
  assumes "kbo_term st t" "kbo_term st u" "kbo_CompareStruc st P t u (- d) True = Some ord_SMALLER_THAN"
  shows "kbo_CompareStruc st P u t d True = Some ord_GREATER_THAN"
  using assms
proof (induction "nodes t" arbitrary: t u d rule: less_induct)
  case less
  note t = less.prems(1) and u = less.prems(2)
  note vs = var_top(1) [OF t] and vt = var_top(1) [OF u]
  note C = kbo_CompareStruc.simps [of st P t u "- d" True] kbo_CompareStruc.simps [of st P u t d True]
  have d0: "d = 0" using less.prems(3) unfolding C(1) by (auto split: if_splits)
  show ?case
  proof (cases "\<not> term_IsVariable t \<and> \<not> term_IsVariable u \<and> term_TopSymbol t = term_TopSymbol u")
    case False
    then show ?thesis using less.prems(3) d0 unfolding C by (auto simp: vs vt split: if_splits)
  next
    case True
    note D = kbo_diff_ok [OF t u] kbo_diff_ok(2) [OF u t]
    obtain v w where a: "adiff (arguments st t) (arguments st u) = Some (v, w)"
      using less.prems(3) True d0 D PrecedenceGreater_irrefl unfolding C(1)
      by (cases "adiff (arguments st t) (arguments st u)") (auto simp: vs vt split: if_splits)
    have b: "adiff (arguments st u) (arguments st t) = Some (w, v)" by (subst adiff_sym) (simp add: a)
    have mem: "v \<in> set (term_ArgumentList t)" "w \<in> set (term_ArgumentList u)"
      using adiff_Some [OF a, of st P] by (auto simp: arguments_def split: if_splits)
    have k: "kbo_term st v" "kbo_term st w" using kbo_term_arg t u mem by blast+
    let ?d = "int32 (weight st v - weight st w)"
    have S: "0 \<le> ?d" "kbo_CompareStruc st P v w ?d True = Some ord_SMALLER_THAN"
      using less.prems(3) True d0 D a PrecedenceGreater_irrefl unfolding C(1)
      by (simp_all add: vs vt kbo_CompVarCondAndWeight_ok [OF k] split: if_splits)
    have "?d = 0" using S by (subst (asm) kbo_CompareStruc.simps) (auto split: if_splits)
    moreover from this have "int32 (weight st w - weight st v) = 0"
      using int32_minus_0 [of "weight st v - weight st w"] by simp
    moreover from \<open>?d = 0\<close> have "kbo_CompareStruc st P w v 0 True = Some ord_GREATER_THAN"
      using less.hyps [OF nodes_arg [OF mem(1)] k, of 0] S(2) by simp
    ultimately show ?thesis using True d0 D b PrecedenceGreater_irrefl unfolding C(2)
      by (simp add: vs vt kbo_CompVarCondAndWeight_ok [OF k(2,1)])
  qed
qed

lemma kbo_ContGreaterHelp_ok:
  assumes "derefs s C1 C1 T1 T1'" "derefs s C2 C2 T2 T2'" "kbo_term st T1'" "kbo_term st T2'"
  shows "kbo_ContGreaterHelp s st P C1 T1 C2 T2 V = Some (kbo_CompareAux st P T1' T2' V = Some ord_GREATER_THAN)"
proof -
  let ?d = "int32 (weight st T1' - weight st T2')"
  have C: "kbo_ContCompVarCondAndWeight s st C1 C1 T1 C2 C2 T2 = Some (?d, varcond T1' T2', varcond T2' T1')"
    "kbo_CompVarCondAndWeight st T1' T2' = Some (?d, varcond T1' T2', varcond T2' T1')"
    using ContCompVarCondAndWeight_ok [OF assms] kbo_CompVarCondAndWeight_ok [OF assms(3,4)] by simp_all
  have G: "kbo_CompareStruc st P T1' T2' ?d V = Some ord_GREATER_THAN" if "?d > 0"
    using that by (subst kbo_CompareStruc.simps) simp
  have L: "kbo_CompareStruc st P T1' T2' ?d V = Some ord_UNCOMPARABLE" if "?d < 0"
    using that by (subst kbo_CompareStruc.simps) simp
  have H: "kbo_ContGreaterHelp s st P C1 T1 C2 T2 V
      = Some ((varcond T1' T2' \<or> V) \<and> kbo_CompareStruc st P T1' T2' ?d V = Some ord_GREATER_THAN)"
    using G L kbo_CompareStruc_safe(1) [OF assms(3,4), of P 0 V]
    by (cases ?d "0::int" rule: linorder_cases)
      (auto simp: kbo_ContGreaterHelp_def C kbo_ContGreaterCompareStruc_ok [OF assms])
  have swap: "kbo_CompareStruc st P T2' T1' (int32 (- ?d)) True \<noteq> Some ord_SMALLER_THAN"
    if "kbo_CompareStruc st P T1' T2' ?d True = Some ord_UNCOMPARABLE"
  proof
    assume S: "kbo_CompareStruc st P T2' T1' (int32 (- ?d)) True = Some ord_SMALLER_THAN"
    then have "int32 (- ?d) = 0" by (subst (asm) kbo_CompareStruc.simps) (simp split: if_splits)
    moreover from this have "?d = 0" using int32_minus_0 [of "weight st T1' - weight st T2'"] by (simp add: int32_minus)
    ultimately show False using kbo_CompareStruc_swap [OF assms(4,3), of P 0] S that by simp
  qed
  note S = kbo_CompareStruc_safe [OF assms(3,4)] and T = kbo_CompareStruc_safe [OF assms(4,3)]
  show ?thesis
  proof (cases V)
    case True
    then show ?thesis unfolding H using swap T(1) [of P "int32 (- ?d)" True]
      by (auto simp: kbo_CompareAux_def C(2) ord_Not_def split: option.split ord_RESULT.split) (metis ord_RESULT.exhaust)
  next
    case False
    obtain r where r: "kbo_CompareStruc st P T1' T2' ?d False = Some r" using S(1) by blast
    obtain q where q: "kbo_CompareStruc st P T2' T1' (int32 (- ?d)) False = Some q" using T(1) by blast
    have "q \<noteq> ord_SMALLER_THAN" using T(2) [of P "int32 (- ?d)"] q by simp
    then have n: "ord_Not q \<noteq> ord_GREATER_THAN" by (cases q) (simp_all add: ord_Not_def)
    have "kbo_CompareAux st P T1' T2' False = Some (if varcond T1' T2' \<and> (varcond T2' T1' \<longrightarrow> r \<noteq> ord_UNCOMPARABLE) then r
        else if varcond T2' T1' then ord_Not q else ord_UNCOMPARABLE)"
      by (cases "varcond T1' T2'"; cases "varcond T2' T1'"; cases r) (simp_all add: kbo_CompareAux_def C(2) r q)
    then show ?thesis unfolding H using False r n by (auto split: if_splits)
  qed
qed

lemma kbo_ContCompare_ok:
  assumes "derefs s C1 C1 T1 T1'" "derefs s C2 C2 T2 T2'" "kbo_term st T1'" "kbo_term st T2'"
  shows "kbo_ContCompare s st P C1 T1 C2 T2 = kbo_Compare st P T1' T2'"
  using ContCompVarCondAndWeight_ok [OF assms] kbo_CompVarCondAndWeight_ok [OF assms(3,4)]
    kbo_ContCompareStruc_ok [OF assms] kbo_ContCompareStruc_ok [OF assms(2,1,4,3)]
  by (simp add: kbo_ContCompare_def kbo_Compare_def kbo_CompareAux_def) (auto split: option.split ord_RESULT.split)

end
