(* ===== verification/Spass_RPO_Context.thy ===== *)
theory Spass_RPO_Context
  imports Spass_RPO Spass_Deref_Terms
begin

text \<open>
  The recursive path order on terms below contexts (\<open>rpos.c\<close>), and equality of this order in both
  versions: it is equality of terms up to the order of the arguments below symbols with multiset
  status, so it is an equivalence. The comparison below contexts compares the terms that are read
  through the bindings; it does so with variables as variables even when it is asked to read them as
  constants.
\<close>

declare split_paired_All [simp del] split_paired_Ex [simp del]

section \<open>Equality up to permutations\<close>

text \<open>A normal form: the arguments of a symbol with multiset status are a multiset.\<close>

datatype rpos_tree = rpos_List SYMBOL "rpos_tree list" | rpos_Multi SYMBOL "rpos_tree multiset"

fun canon :: "symbol_table \<Rightarrow> TERM_NODE \<Rightarrow> rpos_tree" where
  "canon st (term_Node S ts stamp sz) =
     (if symbol_HasProperty st S ORDMUL then rpos_Multi S (mset (map (canon st) ts)) else rpos_List S (map (canon st) ts))"

lemma canon_eq:
  "canon st s = canon st t \<longleftrightarrow> term_TopSymbol s = term_TopSymbol t
     \<and> (if symbol_HasProperty st (term_TopSymbol s) ORDMUL
        then mset (map (canon st) (term_ArgumentList s)) = mset (map (canon st) (term_ArgumentList t))
        else map (canon st) (term_ArgumentList s) = map (canon st) (term_ArgumentList t))"
  by (cases s; cases t) auto

text \<open>Deleting one element and subtracting lists, with a test that is equality of a key.\<close>

lemma delete_one_key:
  assumes "\<And>t. t \<in> set ts \<Longrightarrow> f u t = Some (k u = k t)"
  shows "\<exists>vs. delete_one f u ts = Some vs \<and> set vs \<subseteq> set ts \<and> mset (map k vs) = mset (map k ts) - {#k u#}"
  using assms
proof (induction ts)
  case (Cons t ts)
  then obtain vs where vs: "delete_one f u ts = Some vs" "set vs \<subseteq> set ts" "mset (map k vs) = mset (map k ts) - {#k u#}" by auto
  show ?case
  proof (cases "k u = k t")
    case False
    then have "add_mset (k t) (mset (map k ts)) - {#k u#} = add_mset (k t) (mset (map k ts) - {#k u#})" by simp
    then show ?thesis using False Cons.prems vs by (auto intro!: exI [of _ "t # vs"])
  qed (use Cons.prems in auto)
qed simp

lemma multiset_difference_key:
  assumes "\<And>t u. t \<in> set ts \<Longrightarrow> u \<in> set us \<Longrightarrow> f u t = Some (k u = k t)"
  shows "\<exists>vs. multiset_difference f ts us = Some vs \<and> set vs \<subseteq> set ts \<and> mset (map k vs) = mset (map k ts) - mset (map k us)"
  using assms
proof (induction us arbitrary: ts)
  case (Cons u us)
  obtain vs where vs: "delete_one f u ts = Some vs" "set vs \<subseteq> set ts" "mset (map k vs) = mset (map k ts) - {#k u#}"
    using delete_one_key [of ts f u k] Cons.prems by auto
  then obtain ws where "multiset_difference f vs us = Some ws" "set ws \<subseteq> set vs" "mset (map k ws) = mset (map k vs) - mset (map k us)"
    using Cons.IH [of vs] Cons.prems by (meson list.set_intros(2) subsetD)
  then show ?case using vs by auto
qed simp

lemma lex_equal_key:
  assumes "length ts = length us" "\<And>t u. t \<in> set ts \<Longrightarrow> u \<in> set us \<Longrightarrow> f t u = Some (k t = k u)"
  shows "lex_equal f ts us = Some (map k ts = map k us)"
  using assms by (induction ts us rule: list_induct2) auto

lemma multiset_difference_empty:
  assumes "length ts = length us" "\<And>t u. t \<in> set ts \<Longrightarrow> u \<in> set us \<Longrightarrow> f u t = Some (k u = k t)"
  shows "map_option (\<lambda>l. l = []) (multiset_difference f ts us) = Some (mset (map k ts) = mset (map k us))"
proof -
  obtain vs where "multiset_difference f ts us = Some vs" "mset (map k vs) = mset (map k ts) - mset (map k us)"
    using multiset_difference_key [of ts us f k, OF assms(2)] by auto
  moreover have "M - N = {#} \<longleftrightarrow> M = N" if "size M = size N" for M N :: "'b multiset"
  proof
    assume "M - N = {#}"
    then have "M \<subseteq># N" by (simp add: Diff_eq_empty_iff_mset)
    then show "M = N" using mset_subset_size [of M N] that by (auto simp: subset_mset.less_le)
  qed simp
  moreover have "vs = [] \<longleftrightarrow> mset (map k vs) = {#}" by simp
  ultimately show ?thesis using assms(1) by (simp del: mset_map)
qed

lemma rpos_Equal_canon:
  "arity_ok ar s \<Longrightarrow> arity_ok ar t \<Longrightarrow> rpos_Equal st s t = Some (canon st s = canon st t)"
proof (induction "nodes s + nodes t" arbitrary: s t rule: less_induct)
  case less
  note args = arity_arg [OF less.prems(1)] arity_arg [OF less.prems(2)]
  show ?case
  proof (cases "term_EqualTopSymbols s t")
    case True
    note len = same_length [OF less.prems True]
    have IH: "rpos_Equal st u v = Some (canon st u = canon st v)"
      if "u \<in> set (term_ArgumentList s) \<and> v \<in> set (term_ArgumentList t) \<or> u \<in> set (term_ArgumentList t) \<and> v \<in> set (term_ArgumentList s)" for u v
    proof (rule less.hyps)
      show "nodes u + nodes v < nodes s + nodes t" using that nodes_arg by (metis add.commute add_strict_mono)
    qed (use that args in blast)+
    have M: "map_option (\<lambda>l. l = []) (multiset_difference (rpos_Equal st) (term_ArgumentList s) (term_ArgumentList t))
        = Some (mset (map (canon st) (term_ArgumentList s)) = mset (map (canon st) (term_ArgumentList t)))"
      by (rule multiset_difference_empty [OF len]) (use IH in blast)
    have L: "lex_equal (rpos_Equal st) (term_ArgumentList s) (term_ArgumentList t)
        = Some (map (canon st) (term_ArgumentList s) = map (canon st) (term_ArgumentList t))"
      by (rule lex_equal_key [OF len]) (use IH in blast)
    show ?thesis using True M L len
      by (subst rpos_Equal.simps)
        (auto simp: canon_eq [of st s t] term_EqualTopSymbols_def symbol_Equal_def leaf_def map_option_case split: option.splits)
  next
    case False
    then show ?thesis by (subst rpos_Equal.simps) (auto simp: canon_eq [of st s t] term_EqualTopSymbols_def symbol_Equal_def)
  qed
qed

lemma rpos_Equal_sym: "arity_ok ar s \<Longrightarrow> arity_ok ar t \<Longrightarrow> rpos_Equal st s t = rpos_Equal st t s"
  by (simp add: rpos_Equal_canon [where ar = ar] eq_commute)

section \<open>Equality below contexts\<close>

text \<open>The loop over the second list deletes from a copy of the first; the test takes the element of the
  first list first.\<close>

lemma lex_equal_bind: "lex_equal f (t # ts) (u # us) = Option.bind (f t u) (\<lambda>b. if b then lex_equal f ts us else Some False)"
  by (simp split: option.split)

lemma lex_equal_mono [partial_function_mono]:
  assumes "\<And>t u. mono_option (\<lambda>f. D t u f)"
  shows "mono_option (\<lambda>f. lex_equal (\<lambda>t u. D t u f) ts us)"
proof (induction ts us rule: list_induct2')
  case (4 t ts u us)
  show ?case unfolding lex_equal_bind using assms 4 by (intro bind_mono if_mono option.const_mono)
qed (simp_all add: option.const_mono)

lemma delete_one_bind:
  "delete_one f u (t # ts) = Option.bind (f u t) (\<lambda>b. if b then Some ts else map_option ((#) t) (delete_one f u ts))"
  by (simp split: option.split)

lemma delete_one_mono [partial_function_mono]:
  assumes "\<And>t u. mono_option (\<lambda>f. D t u f)"
  shows "mono_option (\<lambda>f. delete_one (\<lambda>t u. D t u f) u ts)"
proof (induction ts)
  case (Cons t ts)
  show ?case unfolding delete_one_bind using assms Cons by (intro bind_mono if_mono option.const_mono map_option_mono)
qed (simp add: option.const_mono)

lemma multiset_difference_bind:
  "multiset_difference f ts (u # us) = Option.bind (delete_one f u ts) (\<lambda>ts. multiset_difference f ts us)"
  by (simp split: option.split)

lemma multiset_difference_mono [partial_function_mono]:
  assumes "\<And>t u. mono_option (\<lambda>f. D t u f)"
  shows "mono_option (\<lambda>f. multiset_difference (\<lambda>t u. D t u f) ts us)"
proof (induction us arbitrary: ts)
  case (Cons u us)
  show ?case unfolding multiset_difference_bind using assms Cons by (intro bind_mono delete_one_mono)
qed (simp add: option.const_mono)

partial_function (option) rpos_ContEqual ::
  "cont_state \<Rightarrow> symbol_table \<Rightarrow> CONTEXT \<Rightarrow> CONTEXT \<Rightarrow> TERM_NODE \<Rightarrow> CONTEXT \<Rightarrow> CONTEXT \<Rightarrow> TERM_NODE \<Rightarrow> bool option" where
  "rpos_ContEqual s st GlobalC1 TermC1 T1 GlobalC2 TermC2 T2 = do {
     (TermC1, T1) \<leftarrow> cont_Deref s GlobalC1 TermC1 T1;
     (TermC2, T2) \<leftarrow> cont_Deref s GlobalC2 TermC2 T2;
     if \<not> term_EqualTopSymbols T1 T2 then Some False
     else if \<not> term_IsComplex T1 then Some True
     else if symbol_HasProperty st (term_TopSymbol T1) ORDMUL then
       map_option (\<lambda>l1. l1 = [])
         (multiset_difference (\<lambda>u t. rpos_ContEqual s st GlobalC1 TermC1 t GlobalC2 TermC2 u) (term_ArgumentList T1) (term_ArgumentList T2))
     else lex_equal (\<lambda>t u. rpos_ContEqual s st GlobalC1 TermC1 t GlobalC2 TermC2 u) (term_ArgumentList T1) (term_ArgumentList T2) }"

definition rpos_ContMultisetDifference ::
  "cont_state \<Rightarrow> symbol_table \<Rightarrow> CONTEXT \<Rightarrow> CONTEXT \<Rightarrow> TERM_NODE \<Rightarrow> CONTEXT \<Rightarrow> CONTEXT \<Rightarrow> TERM_NODE \<Rightarrow> TERM_NODE list option" where
  "rpos_ContMultisetDifference s st GlobalC1 TermC1 T1 GlobalC2 TermC2 T2 =
     multiset_difference (\<lambda>u t. rpos_ContEqual s st GlobalC1 TermC1 t GlobalC2 TermC2 u) (term_ArgumentList T1) (term_ArgumentList T2)"

lemma delete_one_rel:
  assumes "list_all2 Q ts ts'" "\<And>t t'. Q t t' \<Longrightarrow> t' \<in> set ts' \<Longrightarrow> f u t = g u' t'"
  shows "rel_option (list_all2 Q) (delete_one f u ts) (delete_one g u' ts')"
  using assms by (induction rule: list_all2_induct) (auto split: option.split simp: option.rel_map elim!: option.rel_mono_strong)

lemma multiset_difference_rel:
  assumes "list_all2 Q ts ts'" "list_all2 R us us'"
    "\<And>t t' u u'. Q t t' \<Longrightarrow> R u u' \<Longrightarrow> t' \<in> set ts' \<Longrightarrow> u' \<in> set us' \<Longrightarrow> f u t = g u' t'"
  shows "rel_option (list_all2 Q) (multiset_difference f ts us) (multiset_difference g ts' us')"
  using assms(2,1,3)
proof (induction arbitrary: ts ts' rule: list_all2_induct)
  case (Cons u us u' us')
  have d: "rel_option (list_all2 Q) (delete_one f u ts) (delete_one g u' ts')"
    using Cons by (intro delete_one_rel) auto
  show ?case
  proof (cases "delete_one g u' ts'")
    case None
    then show ?thesis using d by simp
  next
    case (Some vs')
    then obtain vs where vs: "delete_one f u ts = Some vs" "list_all2 Q vs vs'" using d by (auto simp: option_rel_Some2)
    have "rel_option (list_all2 Q) (multiset_difference f vs us) (multiset_difference g vs' us')"
      using vs(2) Cons.prems(2) delete_one_set [OF Some] by (intro Cons.IH) auto
    then show ?thesis using vs(1) Some by simp
  qed
qed simp

lemma lex_equal_rel:
  assumes "list_all2 Q ts ts'" "list_all2 R us us'"
    "\<And>t t' u u'. Q t t' \<Longrightarrow> R u u' \<Longrightarrow> t' \<in> set ts' \<Longrightarrow> u' \<in> set us' \<Longrightarrow> f t u = g t' u'"
  shows "lex_equal f ts us = lex_equal g ts' us'"
  using assms
proof (induction f ts us arbitrary: ts' us' rule: lex_equal.induct)
  case (3 f t ts u us)
  then show ?case by (auto simp: list_all2_Cons1 split: option.split)
qed (auto simp: list_all2_Cons1)

lemma rpos_ContEqual_ok:
  assumes "derefs s G1 C1 T1 T1'" "derefs s G2 C2 T2 T2'" "arity_ok ar T1'" "arity_ok ar T2'"
  shows "rpos_ContEqual s st G1 C1 T1 G2 C2 T2 = rpos_Equal st T1' T2'"
  using assms
proof (induction "nodes T1'" arbitrary: C1 T1 T1' C2 T2 T2' rule: less_induct)
  case less
  obtain D1 U1 where 1: "cont_Deref s G1 C1 T1 = Some (D1, U1)" "term_TopSymbol U1 = term_TopSymbol T1'"
      "list_all2 (derefs s G1 D1) (term_ArgumentList U1) (term_ArgumentList T1')" by (rule derefs_elim [OF less.prems(1)])
  obtain D2 U2 where 2: "cont_Deref s G2 C2 T2 = Some (D2, U2)" "term_TopSymbol U2 = term_TopSymbol T2'"
      "list_all2 (derefs s G2 D2) (term_ArgumentList U2) (term_ArgumentList T2')" by (rule derefs_elim [OF less.prems(2)])
  have IH: "rpos_ContEqual s st G1 D1 t G2 D2 u = rpos_Equal st t' u'"
    if "derefs s G1 D1 t t'" "derefs s G2 D2 u u'" "t' \<in> set (term_ArgumentList T1')" "u' \<in> set (term_ArgumentList T2')" for t t' u u'
    by (rule less.hyps [OF nodes_arg [OF that(3)] that(1,2) arity_arg [OF less.prems(3) that(3)] arity_arg [OF less.prems(4) that(4)]])
  have sym: "rpos_Equal st t' u' = rpos_Equal st u' t'"
    if "t' \<in> set (term_ArgumentList T1')" "u' \<in> set (term_ArgumentList T2')" for t' u'
    by (rule rpos_Equal_sym [OF arity_arg [OF less.prems(3) that(1)] arity_arg [OF less.prems(4) that(2)]])
  have M: "rel_option (list_all2 (derefs s G1 D1))
      (multiset_difference (\<lambda>u t. rpos_ContEqual s st G1 D1 t G2 D2 u) (term_ArgumentList U1) (term_ArgumentList U2))
      (multiset_difference (rpos_Equal st) (term_ArgumentList T1') (term_ArgumentList T2'))"
    by (rule multiset_difference_rel [OF 1(3) 2(3)]) (use IH sym in metis)
  have L: "lex_equal (\<lambda>t u. rpos_ContEqual s st G1 D1 t G2 D2 u) (term_ArgumentList U1) (term_ArgumentList U2)
      = lex_equal (rpos_Equal st) (term_ArgumentList T1') (term_ArgumentList T2')"
    by (rule lex_equal_rel [OF 1(3) 2(3)]) (rule IH)
  have E: "map_option (\<lambda>l. l = []) x = (case y of None \<Rightarrow> None | Some l1 \<Rightarrow> Some (l1 = []))"
    if "rel_option (list_all2 Q) x y" for Q and x y :: "TERM_NODE list option"
    using that by (cases x; cases y) auto
  have len: "term_ArgumentList U1 = [] \<longleftrightarrow> term_ArgumentList T1' = []" using 1(3) by (auto dest: list_all2_lengthD)
  show ?case
    by (subst rpos_ContEqual.simps, subst rpos_Equal.simps)
      (simp add: 1(1,2) 2(1,2) L E [OF M] len leaf_def term_EqualTopSymbols_def)
qed

section \<open>Comparison below contexts\<close>

lemma lex_first_bind:
  "lex_first f (t # ts) (u # us) = Option.bind (f t u) (\<lambda>r. if r = ord_EQUAL then lex_first f ts us else Some (r, ts, us))"
  by (simp split: option.split)

lemma lex_first_mono [partial_function_mono]:
  assumes "\<And>t u. mono_option (\<lambda>f. D t u f)"
  shows "mono_option (\<lambda>f. lex_first (\<lambda>t u. D t u f) ts us)"
proof (induction ts us rule: list_induct2')
  case (4 t ts u us)
  show ?case unfolding lex_first_bind using assms 4 by (intro bind_mono if_mono option.const_mono)
qed (simp_all add: option.const_mono)

text \<open>The four ways in which arguments are compared, for a comparison \<open>cmp\<close> of two terms.\<close>

definition greater_all :: "(TERM_NODE \<Rightarrow> TERM_NODE \<Rightarrow> ord_RESULT option) \<Rightarrow> TERM_NODE \<Rightarrow> TERM_NODE list \<Rightarrow> ord_RESULT option" where
  "greater_all cmp T1 us = greater_or_uncomparable (all_loop (\<lambda>u. is_greater (cmp T1 u)) us)"

definition comparable_any :: "(TERM_NODE \<Rightarrow> TERM_NODE \<Rightarrow> ord_RESULT option) \<Rightarrow> TERM_NODE list \<Rightarrow> TERM_NODE \<Rightarrow> ord_RESULT option" where
  "comparable_any cmp ts T2 = greater_or_uncomparable (any_loop (\<lambda>t. is_comparable (cmp t T2)) ts)"

definition multiset_compare :: "(TERM_NODE \<Rightarrow> TERM_NODE \<Rightarrow> ord_RESULT option) \<Rightarrow> TERM_NODE list \<Rightarrow> TERM_NODE list \<Rightarrow> ord_RESULT option" where
  "multiset_compare cmp l1 l2 = greater_or_uncomparable (all_loop (\<lambda>u. any_loop (\<lambda>t. is_greater (cmp t u)) l1) l2)"

definition lex_compare ::
  "(TERM_NODE \<Rightarrow> TERM_NODE \<Rightarrow> ord_RESULT option) \<Rightarrow> TERM_NODE \<Rightarrow> TERM_NODE \<Rightarrow> TERM_NODE list \<Rightarrow> TERM_NODE list \<Rightarrow> ord_RESULT option" where
  "lex_compare cmp T1 T2 l1 l2 = do {
     p \<leftarrow> lex_first cmp l1 l2;
     if fst p = ord_EQUAL then Some ord_EQUAL
     else if fst p = ord_GREATER_THAN then greater_all cmp T1 (snd (snd p))
     else comparable_any cmp (fst (snd p)) T2 }"

lemmas compare_defs = greater_all_def comparable_any_def multiset_compare_def lex_compare_def is_greater_def is_comparable_def
  greater_or_uncomparable_def

lemma compare_mono [partial_function_mono]:
  assumes "\<And>t u. mono_option (\<lambda>f. D t u f)"
  shows "mono_option (\<lambda>f. greater_all (\<lambda>t u. D t u f) T1 us)" "mono_option (\<lambda>f. comparable_any (\<lambda>t u. D t u f) ts T2)"
    "mono_option (\<lambda>f. multiset_compare (\<lambda>t u. D t u f) l1 l2)" "mono_option (\<lambda>f. lex_compare (\<lambda>t u. D t u f) T1 T2 l1 l2)"
  unfolding compare_defs using assms
  by (intro map_option_mono all_loop_mono any_loop_mono bind_mono if_mono lex_first_mono option.const_mono, assumption?)+

partial_function (option) rpos_ContGreaterEqual ::
  "cont_state \<Rightarrow> symbol_table \<Rightarrow> PRECEDENCE \<Rightarrow> bool \<Rightarrow> CONTEXT \<Rightarrow> CONTEXT \<Rightarrow> TERM_NODE \<Rightarrow> CONTEXT \<Rightarrow> CONTEXT \<Rightarrow> TERM_NODE \<Rightarrow> ord_RESULT option" where
  "rpos_ContGreaterEqual s st P VarIsConst GlobalC1 TermC1 T1 GlobalC2 TermC2 T2 = do {
     (TermC1, T1) \<leftarrow> cont_Deref s GlobalC1 TermC1 T1;
     (TermC2, T2) \<leftarrow> cont_Deref s GlobalC2 TermC2 T2;
     if term_IsVariable T1 then
       if term_EqualTopSymbols T1 T2 then Some ord_EQUAL else Some ord_UNCOMPARABLE
     else if term_IsVariable T2 then
       greater_or_uncomparable (cont_TermContainsSymbol s GlobalC1 TermC1 T1 (term_TopSymbol T2))
     else if term_EqualTopSymbols T1 T2 then
       if symbol_HasProperty st (term_TopSymbol T1) ORDMUL then do {
         l1 \<leftarrow> rpos_ContMultisetDifference s st GlobalC1 TermC1 T1 GlobalC2 TermC2 T2;
         if l1 = [] then Some ord_EQUAL
         else do {
           l2 \<leftarrow> rpos_ContMultisetDifference s st GlobalC2 TermC2 T2 GlobalC1 TermC1 T1;
           multiset_compare (\<lambda>t u. rpos_ContGreaterEqual s st P VarIsConst GlobalC1 TermC1 t GlobalC2 TermC2 u) l1 l2 } }
       else
         let right = symbol_HasProperty st (term_TopSymbol T1) ORDRIGHT;
             l1 = (if right then rev (term_ArgumentList T1) else term_ArgumentList T1);
             l2 = (if right then rev (term_ArgumentList T2) else term_ArgumentList T2)
         in lex_compare (\<lambda>t u. rpos_ContGreaterEqual s st P VarIsConst GlobalC1 TermC1 t GlobalC2 TermC2 u) T1 T2 l1 l2
     else if symbol_PrecedenceGreater P (term_TopSymbol T1) (term_TopSymbol T2) then
       greater_all (\<lambda>t u. rpos_ContGreaterEqual s st P VarIsConst GlobalC1 TermC1 t GlobalC2 TermC2 u) T1 (term_ArgumentList T2)
     else
       comparable_any (\<lambda>t u. rpos_ContGreaterEqual s st P VarIsConst GlobalC1 TermC1 t GlobalC2 TermC2 u) (term_ArgumentList T1) T2 }"

text \<open>The loops are executed by their equations.\<close>

declare rpos_ContEqual.simps [code] rpos_ContGreaterEqual.simps [code]

definition rpos_ContGreaterAux ::
  "cont_state \<Rightarrow> symbol_table \<Rightarrow> PRECEDENCE \<Rightarrow> CONTEXT \<Rightarrow> CONTEXT \<Rightarrow> TERM_NODE \<Rightarrow> CONTEXT \<Rightarrow> CONTEXT \<Rightarrow> TERM_NODE \<Rightarrow> bool \<Rightarrow> bool option" where
  "rpos_ContGreaterAux s st P GlobalC1 TermC1 T1 GlobalC2 TermC2 T2 VarIsConst =
     is_greater (rpos_ContGreaterEqual s st P VarIsConst GlobalC1 TermC1 T1 GlobalC2 TermC2 T2)"

text \<open>The functions for equal top symbols, which the recursion inlines.\<close>

definition rpos_ContMulGreaterEqual ::
  "cont_state \<Rightarrow> symbol_table \<Rightarrow> PRECEDENCE \<Rightarrow> CONTEXT \<Rightarrow> CONTEXT \<Rightarrow> TERM_NODE \<Rightarrow> CONTEXT \<Rightarrow> CONTEXT \<Rightarrow> TERM_NODE \<Rightarrow> bool \<Rightarrow> ord_RESULT option" where
  "rpos_ContMulGreaterEqual s st P GlobalC1 TermC1 T1 GlobalC2 TermC2 T2 VarIsConst = do {
     l1 \<leftarrow> rpos_ContMultisetDifference s st GlobalC1 TermC1 T1 GlobalC2 TermC2 T2;
     if l1 = [] then Some ord_EQUAL
     else do {
       l2 \<leftarrow> rpos_ContMultisetDifference s st GlobalC2 TermC2 T2 GlobalC1 TermC1 T1;
       multiset_compare (\<lambda>t u. rpos_ContGreaterEqual s st P VarIsConst GlobalC1 TermC1 t GlobalC2 TermC2 u) l1 l2 } }"

definition rpos_ContLexGreaterEqual ::
  "cont_state \<Rightarrow> symbol_table \<Rightarrow> PRECEDENCE \<Rightarrow> CONTEXT \<Rightarrow> CONTEXT \<Rightarrow> TERM_NODE \<Rightarrow> CONTEXT \<Rightarrow> CONTEXT \<Rightarrow> TERM_NODE \<Rightarrow> bool \<Rightarrow> ord_RESULT option" where
  "rpos_ContLexGreaterEqual s st P GlobalC1 TermC1 T1 GlobalC2 TermC2 T2 VarIsConst =
     (let right = symbol_HasProperty st (term_TopSymbol T1) ORDRIGHT;
          l1 = (if right then rev (term_ArgumentList T1) else term_ArgumentList T1);
          l2 = (if right then rev (term_ArgumentList T2) else term_ArgumentList T2)
      in lex_compare (\<lambda>t u. rpos_ContGreaterEqual s st P VarIsConst GlobalC1 TermC1 t GlobalC2 TermC2 u) T1 T2 l1 l2)"

definition rpos_ContGreater ::
  "cont_state \<Rightarrow> symbol_table \<Rightarrow> PRECEDENCE \<Rightarrow> CONTEXT \<Rightarrow> CONTEXT \<Rightarrow> TERM_NODE \<Rightarrow> CONTEXT \<Rightarrow> CONTEXT \<Rightarrow> TERM_NODE \<Rightarrow> bool option" where
  "rpos_ContGreater s st P GlobalC1 TermC1 T1 GlobalC2 TermC2 T2 =
     is_greater (rpos_ContGreaterEqual s st P False GlobalC1 TermC1 T1 GlobalC2 TermC2 T2)"

definition rpos_ContGreaterSkolemSubst ::
  "cont_state \<Rightarrow> symbol_table \<Rightarrow> PRECEDENCE \<Rightarrow> CONTEXT \<Rightarrow> CONTEXT \<Rightarrow> TERM_NODE \<Rightarrow> CONTEXT \<Rightarrow> CONTEXT \<Rightarrow> TERM_NODE \<Rightarrow> bool option" where
  "rpos_ContGreaterSkolemSubst s st P GlobalC1 TermC1 T1 GlobalC2 TermC2 T2 =
     is_greater (rpos_ContGreaterEqual s st P True GlobalC1 TermC1 T1 GlobalC2 TermC2 T2)"

definition rpos_ContCompareAux ::
  "cont_state \<Rightarrow> symbol_table \<Rightarrow> PRECEDENCE \<Rightarrow> CONTEXT \<Rightarrow> TERM_NODE \<Rightarrow> CONTEXT \<Rightarrow> TERM_NODE \<Rightarrow> bool \<Rightarrow> ord_RESULT option" where
  "rpos_ContCompareAux s st P C1 T1 C2 T2 VarIsConst =
     (let GlobalC1 = C1; GlobalC2 = C2 in do {
       (C1, T1) \<leftarrow> cont_Deref s GlobalC1 C1 T1;
       (C2, T2) \<leftarrow> cont_Deref s GlobalC2 C2 T2;
       result \<leftarrow> rpos_ContGreaterEqual s st P VarIsConst GlobalC1 C1 T1 GlobalC2 C2 T2;
       if result \<noteq> ord_UNCOMPARABLE then Some result
       else do {
         b \<leftarrow> rpos_ContGreaterAux s st P GlobalC2 C2 T2 GlobalC1 C1 T1 VarIsConst;
         Some (if b then ord_SMALLER_THAN else ord_UNCOMPARABLE) } })"

definition rpos_ContCompare ::
  "cont_state \<Rightarrow> symbol_table \<Rightarrow> PRECEDENCE \<Rightarrow> CONTEXT \<Rightarrow> TERM_NODE \<Rightarrow> CONTEXT \<Rightarrow> TERM_NODE \<Rightarrow> ord_RESULT option" where
  "rpos_ContCompare s st P C1 T1 C2 T2 = rpos_ContCompareAux s st P C1 T1 C2 T2 False"

section \<open>Comparison of the terms that are read\<close>

text \<open>The plain order through the same combinators.\<close>

lemma rpos_GreaterEqual_unfold:
  "rpos_GreaterEqual st P False T1 T2 =
     (if term_IsVariable T1 then
        if term_EqualTopSymbols T1 T2 then Some ord_EQUAL else Some ord_UNCOMPARABLE
      else if term_IsVariable T2 then greater_or_uncomparable (Some (term_ContainsSymbol T1 (term_TopSymbol T2)))
      else if term_EqualTopSymbols T1 T2 then
        if symbol_HasProperty st (term_TopSymbol T1) ORDMUL then do {
          l1 \<leftarrow> rpos_MultisetDifference st T1 T2;
          if l1 = [] then Some ord_EQUAL
          else do { l2 \<leftarrow> rpos_MultisetDifference st T2 T1; multiset_compare (rpos_GreaterEqual st P False) l1 l2 } }
        else
          let right = symbol_HasProperty st (term_TopSymbol T1) ORDRIGHT;
              l1 = (if right then rev (term_ArgumentList T1) else term_ArgumentList T1);
              l2 = (if right then rev (term_ArgumentList T2) else term_ArgumentList T2)
          in lex_compare (rpos_GreaterEqual st P False) T1 T2 l1 l2
      else if symbol_PrecedenceGreater P (term_TopSymbol T1) (term_TopSymbol T2) then
        greater_all (rpos_GreaterEqual st P False) T1 (term_ArgumentList T2)
      else comparable_any (rpos_GreaterEqual st P False) (term_ArgumentList T1) T2)"
  by (subst rpos_GreaterEqual.simps, subst rpos_MulGreaterEqual.simps, subst rpos_LexGreaterEqual.simps)
    (auto simp: greater_all_def comparable_any_def multiset_compare_def lex_compare_def greater_or_uncomparable_def Let_def split: option.split)

lemma greater_all_rel:
  assumes "list_all2 R us us'" "\<And>u u'. R u u' \<Longrightarrow> u' \<in> set us' \<Longrightarrow> f T1 u = g T1' u'"
  shows "greater_all f T1 us = greater_all g T1' us'"
proof -
  have "list_all2 (\<lambda>u u'. is_greater (f T1 u) = is_greater (g T1' u')) us us'"
    using assms(1) by (rule list.rel_mono_strong) (simp add: assms(2))
  from all_loop_rel [OF this] show ?thesis by (simp add: greater_all_def)
qed

lemma comparable_any_rel:
  assumes "list_all2 Q ts ts'" "\<And>t t'. Q t t' \<Longrightarrow> t' \<in> set ts' \<Longrightarrow> f t T2 = g t' T2'"
  shows "comparable_any f ts T2 = comparable_any g ts' T2'"
proof -
  have "list_all2 (\<lambda>t t'. is_comparable (f t T2) = is_comparable (g t' T2')) ts ts'"
    using assms(1) by (rule list.rel_mono_strong) (simp add: assms(2))
  from any_loop_rel [OF this] show ?thesis by (simp add: comparable_any_def)
qed

lemma multiset_compare_rel:
  assumes "list_all2 Q ts ts'" "list_all2 R us us'"
    "\<And>t t' u u'. Q t t' \<Longrightarrow> R u u' \<Longrightarrow> t' \<in> set ts' \<Longrightarrow> u' \<in> set us' \<Longrightarrow> f t u = g t' u'"
  shows "multiset_compare f ts us = multiset_compare g ts' us'"
proof -
  have inner: "any_loop (\<lambda>t. is_greater (f t u)) ts = any_loop (\<lambda>t. is_greater (g t u')) ts'" if "R u u'" "u' \<in> set us'" for u u'
    by (rule any_loop_rel, rule list.rel_mono_strong [OF assms(1)]) (use assms(3) [OF _ that(1) _ that(2)] in simp)
  have "list_all2 (\<lambda>u u'. any_loop (\<lambda>t. is_greater (f t u)) ts = any_loop (\<lambda>t. is_greater (g t u')) ts') us us'"
    using assms(2) by (rule list.rel_mono_strong) (rule inner)
  from all_loop_rel [OF this] show ?thesis by (simp add: multiset_compare_def)
qed

lemma lex_first_rel:
  assumes "list_all2 Q ts ts'" "list_all2 R us us'"
    "\<And>t t' u u'. Q t t' \<Longrightarrow> R u u' \<Longrightarrow> t' \<in> set ts' \<Longrightarrow> u' \<in> set us' \<Longrightarrow> f t u = g t' u'"
  shows "rel_option (rel_prod (=) (rel_prod (list_all2 Q) (list_all2 R))) (lex_first f ts us) (lex_first g ts' us')"
  using assms
proof (induction f ts us arbitrary: ts' us' rule: lex_first.induct)
  case (3 f t ts u us)
  then obtain t' ts'' u' us'' where s: "ts' = t' # ts''" "us' = u' # us''" "Q t t'" "R u u'" "list_all2 Q ts ts''" "list_all2 R us us''"
    by (auto simp: list_all2_Cons1)
  have e: "f t u = g t' u'" using s by (intro "3.prems"(3)) auto
  show ?case
  proof (cases "g t' u'")
    case (Some r)
    have "rel_option (rel_prod (=) (rel_prod (list_all2 Q) (list_all2 R))) (lex_first f ts us) (lex_first g ts'' us'')" if "r = ord_EQUAL"
      by (rule "3.IH" [OF _ that s(5,6)]) (use Some e "3.prems"(3) s in auto)
    then show ?thesis using s e Some by auto
  qed (simp add: s e)
qed (auto simp: list_all2_Cons1)

lemma lex_compare_rel:
  assumes "list_all2 Q ts ts'" "list_all2 R us us'"
    "\<And>t t' u u'. Q t t' \<Longrightarrow> R u u' \<Longrightarrow> t' \<in> set ts' \<Longrightarrow> u' \<in> set us' \<Longrightarrow> f t u = g t' u'"
    "\<And>u u'. R u u' \<Longrightarrow> u' \<in> set us' \<Longrightarrow> f T1 u = g T1' u'" "\<And>t t'. Q t t' \<Longrightarrow> t' \<in> set ts' \<Longrightarrow> f t T2 = g t' T2'"
  shows "lex_compare f T1 T2 ts us = lex_compare g T1' T2' ts' us'"
proof -
  have rel: "rel_option (rel_prod (=) (rel_prod (list_all2 Q) (list_all2 R))) (lex_first f ts us) (lex_first g ts' us')"
    by (rule lex_first_rel [OF assms(1,2)]) (rule assms(3))
  show ?thesis
proof (cases "lex_first g ts' us'")
  case None
  then show ?thesis using rel by (simp add: lex_compare_def)
next
  case (Some p)
  obtain r vs' ws' where p: "p = (r, vs', ws')" by (cases p)
  then obtain vs ws where f: "lex_first f ts us = Some (r, vs, ws)" "list_all2 Q vs vs'" "list_all2 R ws ws'"
    using rel Some by (auto simp: option_rel_Some2)
  have sub: "set vs' \<subseteq> set ts'" "set ws' \<subseteq> set us'" using lex_first_set Some p by blast+
  have "greater_all f T1 ws = greater_all g T1' ws'" by (rule greater_all_rel [OF f(3)]) (use assms(4) sub in blast)
  moreover have "comparable_any f vs T2 = comparable_any g vs' T2'" by (rule comparable_any_rel [OF f(2)]) (use assms(5) sub in blast)
  ultimately show ?thesis using Some p f(1) by (simp add: lex_compare_def)
qed
qed

lemma rpos_ContMultisetDifference_ok:
  assumes "list_all2 (derefs s G1 D1) (term_ArgumentList U1) (term_ArgumentList T1')"
    "list_all2 (derefs s G2 D2) (term_ArgumentList U2) (term_ArgumentList T2')" "arity_ok ar T1'" "arity_ok ar T2'"
  shows "rel_option (list_all2 (derefs s G1 D1)) (rpos_ContMultisetDifference s st G1 D1 U1 G2 D2 U2) (rpos_MultisetDifference st T1' T2')"
  unfolding rpos_ContMultisetDifference_def rpos_MultisetDifference_def
proof (rule multiset_difference_rel [OF assms(1,2)])
  fix t t' u u'
  assume "derefs s G1 D1 t t'" "derefs s G2 D2 u u'" "t' \<in> set (term_ArgumentList T1')" "u' \<in> set (term_ArgumentList T2')"
  then show "rpos_ContEqual s st G1 D1 t G2 D2 u = rpos_Equal st u' t'"
    using rpos_ContEqual_ok rpos_Equal_sym arity_arg [OF assms(3)] arity_arg [OF assms(4)] by metis
qed

lemma rpos_ContGreaterEqual_ok:
  assumes "derefs s G1 C1 T1 T1'" "derefs s G2 C2 T2 T2'" "arity_ok ar T1'" "arity_ok ar T2'"
  shows "rpos_ContGreaterEqual s st P V G1 C1 T1 G2 C2 T2 = rpos_GreaterEqual st P False T1' T2'"
  using assms
proof (induction "nodes T1' + nodes T2'" arbitrary: C1 T1 T1' C2 T2 T2' rule: less_induct)
  case less
  obtain D1 U1 where 1: "cont_Deref s G1 C1 T1 = Some (D1, U1)" "term_TopSymbol U1 = term_TopSymbol T1'"
      "list_all2 (derefs s G1 D1) (term_ArgumentList U1) (term_ArgumentList T1')" by (rule derefs_elim [OF less.prems(1)])
  obtain D2 U2 where 2: "cont_Deref s G2 C2 T2 = Some (D2, U2)" "term_TopSymbol U2 = term_TopSymbol T2'"
      "list_all2 (derefs s G2 D2) (term_ArgumentList U2) (term_ArgumentList T2')" by (rule derefs_elim [OF less.prems(2)])
  note U1 = derefs_again [OF less.prems(1) 1(1)] and U2 = derefs_again [OF less.prems(2) 2(1)]
  let ?f = "\<lambda>t u. rpos_ContGreaterEqual s st P V G1 D1 t G2 D2 u" and ?g = "rpos_GreaterEqual st P False"
  let ?A1 = "term_ArgumentList T1'" and ?A2 = "term_ArgumentList T2'"
  have a: "?f t u = ?g t' u'" if "derefs s G1 D1 t t'" "derefs s G2 D2 u u'" "t' \<in> set ?A1" "u' \<in> set ?A2" for t t' u u'
    by (rule less.hyps [OF _ that(1,2) arity_arg [OF less.prems(3) that(3)] arity_arg [OF less.prems(4) that(4)]])
      (simp add: add_strict_mono nodes_arg that)
  have b: "?f U1 u = ?g T1' u'" if "derefs s G2 D2 u u'" "u' \<in> set ?A2" for u u'
    by (rule less.hyps [OF _ U1 that(1) less.prems(3) arity_arg [OF less.prems(4) that(2)]]) (simp add: nodes_arg that)
  have c: "?f t U2 = ?g t' T2'" if "derefs s G1 D1 t t'" "t' \<in> set ?A1" for t t'
    by (rule less.hyps [OF _ that(1) U2 arity_arg [OF less.prems(3) that(2)] less.prems(4)]) (simp add: nodes_arg that)
  have lex: "lex_compare ?f U1 U2 (h (term_ArgumentList U1)) (h (term_ArgumentList U2)) = lex_compare ?g T1' T2' (h ?A1) (h ?A2)"
    if "h = rev \<or> h = (\<lambda>x. x)" for h
  proof (rule lex_compare_rel [of "derefs s G1 D1" _ _ "derefs s G2 D2"])
    show "list_all2 (derefs s G1 D1) (h (term_ArgumentList U1)) (h ?A1)" using that 1(3) by auto
    show "list_all2 (derefs s G2 D2) (h (term_ArgumentList U2)) (h ?A2)" using that 2(3) by auto
    have h: "set (h ts) = set ts" for ts :: "TERM_NODE list" using that by auto
    show "?f t u = ?g t' u'" if "derefs s G1 D1 t t'" "derefs s G2 D2 u u'" "t' \<in> set (h ?A1)" "u' \<in> set (h ?A2)" for t t' u u'
      using a [OF that(1,2)] that(3,4) unfolding h by blast
    show "?f U1 u = ?g T1' u'" if "derefs s G2 D2 u u'" "u' \<in> set (h ?A2)" for u u'
      using b [OF that(1)] that(2) unfolding h by blast
    show "?f t U2 = ?g t' T2'" if "derefs s G1 D1 t t'" "t' \<in> set (h ?A1)" for t t'
      using c [OF that(1)] that(2) unfolding h by blast
  qed
  note lex = lex [of rev] lex [of "\<lambda>x. x"]
  have m1: "rel_option (list_all2 (derefs s G1 D1)) (rpos_ContMultisetDifference s st G1 D1 U1 G2 D2 U2) (rpos_MultisetDifference st T1' T2')"
    by (rule rpos_ContMultisetDifference_ok [OF 1(3) 2(3) less.prems(3,4)])
  have m2: "rel_option (list_all2 (derefs s G2 D2)) (rpos_ContMultisetDifference s st G2 D2 U2 G1 D1 U1) (rpos_MultisetDifference st T2' T1')"
    by (rule rpos_ContMultisetDifference_ok [OF 2(3) 1(3) less.prems(4,3)])
  have mul: "multiset_compare ?f l1 l2 = multiset_compare ?g l1' l2'"
    if "list_all2 (derefs s G1 D1) l1 l1'" "list_all2 (derefs s G2 D2) l2 l2'" "set l1' \<subseteq> set ?A1" "set l2' \<subseteq> set ?A2" for l1 l2 l1' l2'
    by (rule multiset_compare_rel [OF that(1,2)]) (use a that(3,4) in blast)
  have all: "greater_all ?f U1 (term_ArgumentList U2) = greater_all ?g T1' ?A2"
    by (rule greater_all_rel [OF 2(3)]) (rule b)
  have some: "comparable_any ?f (term_ArgumentList U1) U2 = comparable_any ?g ?A1 T2'"
    by (rule comparable_any_rel [OF 1(3)]) (rule c)
  have has: "cont_TermContainsSymbol s G1 D1 U1 x = Some (term_ContainsSymbol T1' x)" for x
    by (simp add: cont_TermContainsSymbol_ok [OF U1] term_ContainsSymbol_ok)
  have MD: "Option.bind (rpos_ContMultisetDifference s st G1 D1 U1 G2 D2 U2) (\<lambda>l1. if l1 = [] then Some ord_EQUAL
        else Option.bind (rpos_ContMultisetDifference s st G2 D2 U2 G1 D1 U1) (\<lambda>l2. multiset_compare ?f l1 l2))
      = Option.bind (rpos_MultisetDifference st T1' T2') (\<lambda>l1. if l1 = [] then Some ord_EQUAL
        else Option.bind (rpos_MultisetDifference st T2' T1') (\<lambda>l2. multiset_compare ?g l1 l2))"
  proof (cases "rpos_MultisetDifference st T1' T2'")
    case (Some l1')
    then obtain l1 where l1: "rpos_ContMultisetDifference s st G1 D1 U1 G2 D2 U2 = Some l1" "list_all2 (derefs s G1 D1) l1 l1'"
      using m1 by (auto simp: option_rel_Some2)
    have nil: "l1 = [] \<longleftrightarrow> l1' = []" using l1(2) by (auto dest: list_all2_lengthD)
    show ?thesis
    proof (cases "rpos_MultisetDifference st T2' T1'")
      case s2: (Some l2')
      then obtain l2 where l2: "rpos_ContMultisetDifference s st G2 D2 U2 G1 D1 U1 = Some l2" "list_all2 (derefs s G2 D2) l2 l2'"
        using m2 by (auto simp: option_rel_Some2)
      show ?thesis
        using mul [OF l1(2) l2(2)] rpos_MultisetDifference_set Some s2 l1(1) l2(1) nil by auto
    qed (use m2 Some l1(1) nil in auto)
  qed (use m1 in auto)
  show ?case
    by (subst rpos_ContGreaterEqual.simps, subst rpos_GreaterEqual_unfold)
      (simp add: 1(1,2) 2(1,2) lex MD all some Let_def has term_IsVariable_def term_EqualTopSymbols_def)
qed

lemma rpos_ContGreater_ok:
  assumes "derefs s G1 C1 T1 T1'" "derefs s G2 C2 T2 T2'" "arity_ok ar T1'" "arity_ok ar T2'"
  shows "rpos_ContGreater s st P G1 C1 T1 G2 C2 T2 = rpos_Greater st P T1' T2' False"
    "rpos_ContGreaterSkolemSubst s st P G1 C1 T1 G2 C2 T2 = rpos_Greater st P T1' T2' False"
  by (simp_all add: rpos_ContGreater_def rpos_ContGreaterSkolemSubst_def rpos_Greater_def rpos_ContGreaterEqual_ok [OF assms])

lemma rpos_ContCompareAux_ok:
  assumes "derefs s C1 C1 T1 T1'" "derefs s C2 C2 T2 T2'" "arity_ok ar T1'" "arity_ok ar T2'"
  shows "rpos_ContCompareAux s st P C1 T1 C2 T2 V = rpos_Compare st P T1' T2'"
proof -
  obtain D1 U1 where 1: "cont_Deref s C1 C1 T1 = Some (D1, U1)" by (rule derefs_elim [OF assms(1)])
  obtain D2 U2 where 2: "cont_Deref s C2 C2 T2 = Some (D2, U2)" by (rule derefs_elim [OF assms(2)])
  note U1 = derefs_again [OF assms(1) 1] and U2 = derefs_again [OF assms(2) 2]
  show ?thesis
    by (simp add: rpos_ContCompareAux_def rpos_Compare_def rpos_CompareAux_def rpos_Greater_def rpos_ContGreaterAux_def is_greater_def
        rpos_ContGreaterEqual_ok [OF U1 U2 assms(3,4)] rpos_ContGreaterEqual_ok [OF U2 U1 assms(4,3)] 1 2 Let_def
        split: option.split)
qed

end
