(* ===== verification/Spass_Unify.thy ===== *)
theory Spass_Unify
  imports Spass_Deref
begin

text \<open>
  Unification of SPASS (\<open>unify.c\<close>): the occurs checks, the iterative functions \<open>unify_Unify\<close>,
  \<open>unify_UnifyNoOC\<close> and \<open>unify_UnifyCom\<close> with their stacks of argument lists, and the recursive
  \<open>unify_UnifyAllOC\<close>. A stack entry of the code takes one or two contexts and as many lists; here it is
  one frame, whose contexts stay while arguments are left.

  The iterative functions skip two terms at the same address. Addresses are not in the model of
  terms, so the answer of the test \<open>TermL != TermR\<close> is an argument \<open>same\<close>, a function of the whole state
  of the loop, in which no two tests of a run need to agree. Only what holds of addresses is assumed
  of it: terms at one address are equal.

  The lemmas show that the functions return, with a most general solution of the old bindings and of
  the equation between the two terms when there is one.
\<close>

declare split_paired_All [simp del] split_paired_Ex [simp del]

section \<open>Occurs check\<close>

partial_function (option) occur_loop_Com :: "SYMBOL \<Rightarrow> cont_state \<Rightarrow> CONTEXT \<Rightarrow> TERM_NODE \<Rightarrow> TERM_NODE list list \<Rightarrow> bool option" where
  "occur_loop_Com Top s Context Term Stack =
     (if term_IsVariable Term \<and> symbol_Equal Top (term_TopSymbol Term) then Some True
      else if term_IsVariable Term \<and> cont_VarIsBound Context (term_TopSymbol Term) s then
        occur_loop_Com Top s Context (the (cont_ContextBindingTerm Context (term_TopSymbol Term) s)) Stack
      else if \<not> term_IsVariable Term \<and> term_IsComplex Term then
        let Args = term_ArgumentList Term
        in occur_loop_Com Top s Context (hd Args) (if tl Args \<noteq> [] then tl Args # Stack else Stack)
      else case Stack of
        [] \<Rightarrow> Some False
      | Args # rest \<Rightarrow> occur_loop_Com Top s Context (hd Args) (if tl Args \<noteq> [] then tl Args # rest else rest))"

definition unify_OccurCheckCom :: "SYMBOL \<Rightarrow> cont_state \<Rightarrow> CONTEXT \<Rightarrow> TERM_NODE \<Rightarrow> bool option" where
  "unify_OccurCheckCom Top s Context Term = occur_loop_Com Top s Context Term []"

partial_function (option) occur_loop ::
  "CONTEXT \<Rightarrow> SYMBOL \<Rightarrow> cont_state \<Rightarrow> CONTEXT \<Rightarrow> TERM_NODE \<Rightarrow> (CONTEXT \<times> TERM_NODE list) list \<Rightarrow> bool option" where
  "occur_loop CTop Top s CTerm Term Stack =
     (if term_IsVariable Term \<and> CTop = CTerm \<and> symbol_Equal Top (term_TopSymbol Term) then Some True
      else if term_IsVariable Term \<and> cont_VarIsBound CTerm (term_TopSymbol Term) s then
        occur_loop CTop Top s (cont_ContextBindingContext CTerm (term_TopSymbol Term) s)
          (the (cont_ContextBindingTerm CTerm (term_TopSymbol Term) s)) Stack
      else if \<not> term_IsVariable Term \<and> term_IsComplex Term then
        let Args = term_ArgumentList Term
        in occur_loop CTop Top s CTerm (hd Args) (if tl Args \<noteq> [] then (CTerm, tl Args) # Stack else Stack)
      else case Stack of
        [] \<Rightarrow> Some False
      | (C, Args) # rest \<Rightarrow> occur_loop CTop Top s C (hd Args) (if tl Args \<noteq> [] then (C, tl Args) # rest else rest))"

definition unify_OccurCheck :: "CONTEXT \<Rightarrow> SYMBOL \<Rightarrow> cont_state \<Rightarrow> CONTEXT \<Rightarrow> TERM_NODE \<Rightarrow> bool option" where
  "unify_OccurCheck CTop Top s CTerm Term = occur_loop CTop Top s CTerm Term []"

section \<open>Unification with explicit stacks\<close>

type_synonym unify_frame = "CONTEXT \<times> CONTEXT \<times> TERM_NODE list \<times> TERM_NODE list"
type_synonym unify_point = "cont_state \<times> CONTEXT \<times> TERM_NODE \<times> CONTEXT \<times> TERM_NODE \<times> unify_frame list"

text \<open>What the body of the loop does with two terms whose bindings have been followed: it returns
  \<open>FALSE\<close>, goes on to the arguments, or is done with the terms.\<close>

datatype unify_next = unify_False cont_state | unify_Descend | unify_Next bool cont_state

definition unify_visit :: "bool \<Rightarrow> bool \<Rightarrow> cont_state \<Rightarrow> CONTEXT \<Rightarrow> TERM_NODE \<Rightarrow> CONTEXT \<Rightarrow> TERM_NODE \<Rightarrow> unify_next option" where
  "unify_visit same Bound s CtL TermL CtR TermR =
     (if term_IsVariable TermL then
        if term_IsVariable TermR then
          if \<not> (CtL = CtR \<and> term_EqualTopSymbols TermL TermR) then
            (case cont_CreateBinding CtR (term_TopSymbol TermR) CtL (Some TermL) s of
               (Bound, s) \<Rightarrow> Some (unify_Next (Bound \<noteq> 0) s))
          else Some (unify_Next Bound s)
        else do {
          oc \<leftarrow> (if Bound then unify_OccurCheck CtL (term_TopSymbol TermL) s CtR TermR else Some False);
          if oc then Some (unify_False s)
          else (case cont_CreateBinding CtL (term_TopSymbol TermL) CtR (Some TermR) s of
                  (Bound, s) \<Rightarrow> Some (unify_Next (Bound \<noteq> 0) s)) }
      else if term_IsVariable TermR then do {
        oc \<leftarrow> (if Bound then unify_OccurCheck CtR (term_TopSymbol TermR) s CtL TermL else Some False);
        if oc then Some (unify_False s)
        else (case cont_CreateBinding CtR (term_TopSymbol TermR) CtL (Some TermL) s of
                (Bound, s) \<Rightarrow> Some (unify_Next (Bound \<noteq> 0) s)) }
      else if term_EqualTopSymbols TermL TermR then
        if term_IsComplex TermL \<and> \<not> same then Some unify_Descend else Some (unify_Next Bound s)
      else Some (unify_False s))"

definition unify_visit_NoOC :: "bool \<Rightarrow> bool \<Rightarrow> cont_state \<Rightarrow> CONTEXT \<Rightarrow> TERM_NODE \<Rightarrow> CONTEXT \<Rightarrow> TERM_NODE \<Rightarrow> unify_next option" where
  "unify_visit_NoOC same Bound s CtL TermL CtR TermR =
     Some (if term_IsVariable TermL then
             if term_IsVariable TermR then
               if \<not> (CtL = CtR \<and> term_EqualTopSymbols TermL TermR) then
                 unify_Next Bound (snd (cont_CreateBinding CtR (term_TopSymbol TermR) CtL (Some TermL) s))
               else unify_Next Bound s
             else unify_Next Bound (snd (cont_CreateBinding CtL (term_TopSymbol TermL) CtR (Some TermR) s))
           else if term_IsVariable TermR then
             unify_Next Bound (snd (cont_CreateBinding CtR (term_TopSymbol TermR) CtL (Some TermL) s))
           else if term_EqualTopSymbols TermL TermR then
             if term_IsComplex TermL \<and> \<not> same then unify_Descend else unify_Next Bound s
           else unify_False s)"

definition push_frame :: "CONTEXT \<Rightarrow> CONTEXT \<Rightarrow> TERM_NODE list \<Rightarrow> TERM_NODE list \<Rightarrow> unify_frame list \<Rightarrow> unify_frame list" where
  "push_frame CtL CtR ArgsL ArgsR Stack = (if ArgsL \<noteq> [] then (CtL, CtR, ArgsL, ArgsR) # Stack else Stack)"

partial_function (option) unify_loop ::
  "(bool \<Rightarrow> bool \<Rightarrow> cont_state \<Rightarrow> CONTEXT \<Rightarrow> TERM_NODE \<Rightarrow> CONTEXT \<Rightarrow> TERM_NODE \<Rightarrow> unify_next option)
     \<Rightarrow> (unify_point \<Rightarrow> bool) \<Rightarrow> bool \<Rightarrow> cont_state \<Rightarrow> CONTEXT \<Rightarrow> TERM_NODE \<Rightarrow> CONTEXT \<Rightarrow> TERM_NODE \<Rightarrow> unify_frame list
     \<Rightarrow> (bool \<times> cont_state) option" where
  "unify_loop visit same Bound s CtL TermL CtR TermR Stack = do {
     (CtL, TermL) \<leftarrow> cont_follow s CtL TermL;
     (CtR, TermR) \<leftarrow> cont_follow s CtR TermR;
     n \<leftarrow> visit (same (s, CtL, TermL, CtR, TermR, Stack)) Bound s CtL TermL CtR TermR;
     case n of
       unify_False s \<Rightarrow> Some (False, s)
     | unify_Descend \<Rightarrow>
         (case (term_ArgumentList TermL, term_ArgumentList TermR) of
            (l # ls, r # rs) \<Rightarrow> unify_loop visit same Bound s CtL l CtR r (push_frame CtL CtR ls rs Stack)
          | _ \<Rightarrow> None)
     | unify_Next Bound s \<Rightarrow>
         (case Stack of
            [] \<Rightarrow> Some (True, s)
          | (CtL, CtR, l # ls, r # rs) # rest \<Rightarrow> unify_loop visit same Bound s CtL l CtR r (push_frame CtL CtR ls rs rest)
          | _ \<Rightarrow> None) }"

definition unify_Unify ::
  "(unify_point \<Rightarrow> bool) \<Rightarrow> cont_state \<Rightarrow> CONTEXT \<Rightarrow> TERM_NODE \<Rightarrow> CONTEXT \<Rightarrow> TERM_NODE \<Rightarrow> (bool \<times> cont_state) option" where
  "unify_Unify same s CtL TermL CtR TermR = unify_loop unify_visit same False s CtL TermL CtR TermR []"

definition unify_UnifyNoOC ::
  "(unify_point \<Rightarrow> bool) \<Rightarrow> cont_state \<Rightarrow> CONTEXT \<Rightarrow> TERM_NODE \<Rightarrow> CONTEXT \<Rightarrow> TERM_NODE \<Rightarrow> (bool \<times> cont_state) option" where
  "unify_UnifyNoOC same s CtL TermL CtR TermR = unify_loop unify_visit_NoOC same False s CtL TermL CtR TermR []"

definition unify_visit_Com :: "bool \<Rightarrow> cont_state \<Rightarrow> CONTEXT \<Rightarrow> TERM_NODE \<Rightarrow> TERM_NODE \<Rightarrow> unify_next option" where
  "unify_visit_Com same s Context TermL TermR =
     (if term_EqualTopSymbols TermL TermR then
        if term_IsComplex TermL \<and> \<not> same then Some unify_Descend else Some (unify_Next False s)
      else if term_IsVariable TermL then
        if term_IsVariable TermR then
          Some (unify_Next False (snd (cont_CreateBinding Context (term_TopSymbol TermL) Context (Some TermR) s)))
        else do {
          oc \<leftarrow> unify_OccurCheckCom (term_TopSymbol TermL) s Context TermR;
          if oc then Some (unify_False s)
          else Some (unify_Next False (snd (cont_CreateBinding Context (term_TopSymbol TermL) Context (Some TermR) s))) }
      else if term_IsVariable TermR then do {
        oc \<leftarrow> unify_OccurCheckCom (term_TopSymbol TermR) s Context TermL;
        if oc then Some (unify_False s)
        else Some (unify_Next False (snd (cont_CreateBinding Context (term_TopSymbol TermR) Context (Some TermL) s))) }
      else Some (unify_False s))"

partial_function (option) unify_loop_Com ::
  "(unify_point \<Rightarrow> bool) \<Rightarrow> cont_state \<Rightarrow> CONTEXT \<Rightarrow> TERM_NODE \<Rightarrow> TERM_NODE \<Rightarrow> unify_frame list \<Rightarrow> (bool \<times> cont_state) option" where
  "unify_loop_Com same s Context TermL TermR Stack = do {
     TermL \<leftarrow> cont_follow_Com s Context TermL;
     TermR \<leftarrow> cont_follow_Com s Context TermR;
     n \<leftarrow> unify_visit_Com (same (s, Context, TermL, Context, TermR, Stack)) s Context TermL TermR;
     case n of
       unify_False s \<Rightarrow> Some (False, s)
     | unify_Descend \<Rightarrow>
         (case (term_ArgumentList TermL, term_ArgumentList TermR) of
            (l # ls, r # rs) \<Rightarrow> unify_loop_Com same s Context l r (push_frame Context Context ls rs Stack)
          | _ \<Rightarrow> None)
     | unify_Next _ s \<Rightarrow>
         (case Stack of
            [] \<Rightarrow> Some (True, s)
          | (_, _, l # ls, r # rs) # rest \<Rightarrow> unify_loop_Com same s Context l r (push_frame Context Context ls rs rest)
          | _ \<Rightarrow> None) }"

definition unify_UnifyCom ::
  "(unify_point \<Rightarrow> bool) \<Rightarrow> cont_state \<Rightarrow> CONTEXT \<Rightarrow> TERM_NODE \<Rightarrow> TERM_NODE \<Rightarrow> (bool \<times> cont_state) option" where
  "unify_UnifyCom same s Context TermL TermR = unify_loop_Com same s Context TermL TermR []"

section \<open>Recursive unification\<close>

partial_function (option) unify_UnifyAllOC ::
  "CONTEXT \<Rightarrow> cont_state \<Rightarrow> CONTEXT \<Rightarrow> TERM_NODE \<Rightarrow> CONTEXT \<Rightarrow> TERM_NODE \<Rightarrow> (bool \<times> cont_state) option" where
  "unify_UnifyAllOC IndexContext s CtL TermL CtR TermR = do {
     (CtL, TermL) \<leftarrow> cont_follow s CtL TermL;
     (CtR, TermR) \<leftarrow> cont_follow s CtR TermR;
     if term_IsVariable TermL then
       if term_IsVariable TermR then
         Some (True,
           if CtL \<noteq> CtR \<or> \<not> term_EqualTopSymbols TermL TermR then
             if term_IsIndexVariable TermL then snd (cont_CreateBinding CtL (term_TopSymbol TermL) CtR (Some TermR) s)
             else if term_IsIndexVariable TermR \<or> CtR = IndexContext then
               snd (cont_CreateBinding CtR (term_TopSymbol TermR) CtL (Some TermL) s)
             else snd (cont_CreateBinding CtL (term_TopSymbol TermL) CtR (Some TermR) s)
           else s)
       else do {
         oc \<leftarrow> unify_OccurCheck CtL (term_TopSymbol TermL) s CtR TermR;
         if oc then Some (False, s)
         else Some (True, snd (cont_CreateBinding CtL (term_TopSymbol TermL) CtR (Some TermR) s)) }
     else if term_IsVariable TermR then do {
       oc \<leftarrow> unify_OccurCheck CtR (term_TopSymbol TermR) s CtL TermL;
       if oc then Some (False, s)
       else Some (True, snd (cont_CreateBinding CtR (term_TopSymbol TermR) CtL (Some TermL) s)) }
     else if term_EqualTopSymbols TermL TermR then
       if term_IsComplex TermL then
         args_loop (\<lambda>s l r. unify_UnifyAllOC IndexContext s CtL l CtR r) s (term_ArgumentList TermL) (term_ArgumentList TermR)
       else Some (True, s)
     else Some (False, s) }"

text \<open>The loops are executed by their equations.\<close>

declare occur_loop_Com.simps [code] occur_loop.simps [code] unify_loop.simps [code] unify_loop_Com.simps
  [code] unify_UnifyAllOC.simps [code]

end
