(* ===== verification/Spass_Unify_Correct.thy ===== *)
theory Spass_Unify_Correct
  imports Spass_Unify
begin

text \<open>
  Correctness of the unification functions: the occurs check decides whether a variable is in the
  value of a term, every function returns on bindings without cycles, and its result solves exactly
  the old bindings and the equation.
\<close>

declare split_paired_All [simp del] split_paired_Ex [simp del]

section \<open>Occurs check\<close>

definition fr_terms :: "(CONTEXT \<times> TERM_NODE list) list \<Rightarrow> (CONTEXT \<times> TERM_NODE) list" where
  "fr_terms Stack = concat (map (\<lambda>(C, As). map (Pair C) As) Stack)"

lemma fr_terms_simps [simp]: "fr_terms [] = []" "fr_terms ((C, As) # rest) = map (Pair C) As @ fr_terms rest"
  by (simp_all add: fr_terms_def)

abbreviation (input) work :: "(CONTEXT \<times> SYMBOL \<Rightarrow> gterm) \<Rightarrow> (CONTEXT \<times> TERM_NODE) list \<Rightarrow> nat" where
  "work \<theta> ps \<equiv> sum_list (map (\<lambda>(C, T). gsize (app \<theta> C T)) ps)"

lemma occur_unfold:
  "occur_loop CTop Top s C T Stack =
     (if term_IsVariable T \<and> (C, term_TopSymbol T) = (CTop, Top) then Some True
      else if term_IsVariable T \<and> bindings s (C, term_TopSymbol T) \<noteq> None then
        (case the (bindings s (C, term_TopSymbol T)) of (C', T') \<Rightarrow> occur_loop CTop Top s C' T' Stack)
      else if \<not> term_IsVariable T \<and> term_IsComplex T then
        occur_loop CTop Top s C (hd (term_ArgumentList T))
          (if tl (term_ArgumentList T) \<noteq> [] then (C, tl (term_ArgumentList T)) # Stack else Stack)
      else case Stack of
        [] \<Rightarrow> Some False
      | (C, Args) # rest \<Rightarrow> occur_loop CTop Top s C (hd Args) (if tl Args \<noteq> [] then (C, tl Args) # rest else rest))"
  by (subst occur_loop.simps) (auto simp: VarIsBound_bindings symbol_Equal_def Let_def bindings_def)

lemma occur_follow:
  assumes "ranked r (bindings s)" "bindings s (CTop, Top) = None" "cont_follow s C T = Some (C', T')"
  shows "occur_loop CTop Top s C T Stack = occur_loop CTop Top s C' T' Stack"
  using assms(3)
proof (induction "r (C, term_TopSymbol T)" arbitrary: C T rule: less_induct)
  case less
  show ?case
  proof (cases "term_IsVariable T \<and> bindings s (C, term_TopSymbol T) \<noteq> None")
    case False
    then show ?thesis using less.prems by (subst (asm) follow_unfold) (auto split: if_splits)
  next
    case True
    then obtain C1 T1 where E: "bindings s (C, term_TopSymbol T) = Some (C1, T1)" by auto
    then have f: "cont_follow s C1 T1 = Some (C', T')" using True less.prems by (subst (asm) follow_unfold) simp
    have "(C, term_TopSymbol T) \<noteq> (CTop, Top)" using E assms(2) by auto
    then have o1: "occur_loop CTop Top s C T Stack = occur_loop CTop Top s C1 T1 Stack"
      using True E by (subst occur_unfold) (simp del: prod.inject)
    show ?thesis
    proof (cases "term_IsVariable T1")
      case True
      then have "r (C1, term_TopSymbol T1) < r (C, term_TopSymbol T)"
        by (intro rankedD [OF assms(1) E]) (simp add: tvars_eq)
      from less.hyps [OF this f] show ?thesis by (simp add: o1)
    next
      case False
      then show ?thesis using f o1 by (subst (asm) follow_unfold) simp
    qed
  qed
qed

lemma occur_loop_ok:
  assumes "env_ok ar (bindings s)" "resolved \<theta> (bindings s)" "bindings s (CTop, Top) = None"
    and "\<forall>(D, u) \<in> set ((C, T) # fr_terms Stack). term_ok ar u" "[] \<notin> snd ` set Stack"
  shows "occur_loop CTop Top s C T Stack
    = Some (\<exists>(D, u) \<in> set ((C, T) # fr_terms Stack). (CTop, Top) \<in> gvars (app \<theta> D u))"
  using assms(4,5)
proof (induction "work \<theta> ((C, T) # fr_terms Stack)" arbitrary: C T Stack rule: less_induct)
  case less
  obtain r where r: "ranked r (bindings s)" using env_ok_resolved [OF assms(1)] by blast
  have "term_ok ar T" using less.prems by simp
  from follow_ok [OF assms(1) this] obtain C' T' where f: "cont_follow s C T = Some (C', T')" "term_ok ar T'"
    "app \<theta> C' T' = app \<theta> C T" "term_IsVariable T' \<Longrightarrow> bindings s (C', term_TopSymbol T') = None"
    using resolvedD(1) [OF assms(2)] by metis
  have var: "app \<theta> C T = GVar (C', term_TopSymbol T')" if "term_IsVariable T'"
    using that f resolvedD(2) [OF assms(2)] by (metis app_eq)
  have funct: "app \<theta> C T = GFun (term_TopSymbol T') (map (app \<theta> C') (term_ArgumentList T'))" if "\<not> term_IsVariable T'"
    using that f(3) by (simp add: app_eq [of \<theta> C' T'])
  have next_ok: "occur_loop CTop Top s C T Stack = Some (\<exists>(D, u) \<in> set ((C, T) # fr_terms Stack). (CTop, Top) \<in> gvars (app \<theta> D u))"
    if absent: "(CTop, Top) \<notin> gvars (app \<theta> C T)" and nocomplex: "term_IsVariable T' \<or> \<not> term_IsComplex T'"
  proof (cases Stack)
    case Nil
    then show ?thesis using that f(4) var
      by (subst occur_follow [OF r assms(3) f(1)], subst occur_unfold) auto
  next
    case (Cons fr rest)
    then obtain D a as where fr: "fr = (D, a # as)" using less.prems(2) by (cases fr; cases "snd fr") auto
    let ?S = "if as \<noteq> [] then (D, as) # rest else rest"
    have "occur_loop CTop Top s C T Stack = occur_loop CTop Top s D a ?S"
      using that f(4) var fr Cons
      by (subst occur_follow [OF r assms(3) f(1)], subst occur_unfold) auto
    also have "\<dots> = Some (\<exists>(D', u) \<in> set ((D, a) # fr_terms ?S). (CTop, Top) \<in> gvars (app \<theta> D' u))"
      using less.prems by (intro less.hyps) (auto simp: Cons fr)
    finally show ?thesis using absent by (auto simp: Cons fr)
  qed
  show ?case
  proof (cases "term_IsVariable T'")
    case True
    show ?thesis
    proof (cases "(C', term_TopSymbol T') = (CTop, Top)")
      case True
      then show ?thesis using \<open>term_IsVariable T'\<close> var
        by (subst occur_follow [OF r assms(3) f(1)], subst occur_unfold) simp
    next
      case False
      then show ?thesis using True var by (intro next_ok) auto
    qed
  next
    case False
    show ?thesis
    proof (cases "term_ArgumentList T'")
      case Nil
      then show ?thesis using False funct by (intro next_ok) (simp_all add: leaf_def)
    next
      case (Cons a as)
      let ?S = "if as \<noteq> [] then (C', as) # Stack else Stack"
      have "occur_loop CTop Top s C T Stack = occur_loop CTop Top s C' a ?S"
        using False Cons by (subst occur_follow [OF r assms(3) f(1)], subst occur_unfold) (simp add: leaf_def)
      also have "\<dots> = Some (\<exists>(D, u) \<in> set ((C', a) # fr_terms ?S). (CTop, Top) \<in> gvars (app \<theta> D u))"
        using less.prems term_ok_arg [OF f(2)] funct [OF False]
        by (intro less.hyps) (auto simp: Cons o_def)
      finally show ?thesis using funct [OF False] Cons by (auto simp: bex_Un)
    qed
  qed
qed

lemma OccurCheck_ok:
  assumes "env_ok ar (bindings s)" "resolved \<theta> (bindings s)" "bindings s (CTop, Top) = None" "term_ok ar T"
  shows "unify_OccurCheck CTop Top s C T = Some ((CTop, Top) \<in> gvars (app \<theta> C T))"
  using occur_loop_ok [OF assms(1-3), of C T "[]"] assms(4) by (simp add: unify_OccurCheck_def)

section \<open>The loop of the iterative functions\<close>

type_synonym unify_pair = "(CONTEXT \<times> TERM_NODE) \<times> CONTEXT \<times> TERM_NODE"

definition pairs :: "CONTEXT \<Rightarrow> CONTEXT \<Rightarrow> TERM_NODE list \<Rightarrow> TERM_NODE list \<Rightarrow> unify_pair list" where
  "pairs CL CR ls rs = map (\<lambda>(l, r). ((CL, l), (CR, r))) (zip ls rs)"

definition fr_pairs :: "unify_frame list \<Rightarrow> unify_pair list" where
  "fr_pairs Stack = concat (map (\<lambda>(CL, CR, ls, rs). pairs CL CR ls rs) Stack)"

definition frame_ok :: "unify_frame \<Rightarrow> bool" where
  "frame_ok fr = (case fr of (CL, CR, ls, rs) \<Rightarrow> ls \<noteq> [] \<and> length ls = length rs)"

definition pair_ok :: "(SYMBOL \<Rightarrow> nat) \<Rightarrow> (CONTEXT \<times> SYMBOL) set \<Rightarrow> unify_pair \<Rightarrow> bool" where
  "pair_ok ar U p = (case p of ((CL, l), (CR, r)) \<Rightarrow> term_ok ar l \<and> term_ok ar r \<and> tvars CL l \<subseteq> U \<and> tvars CR r \<subseteq> U)"

definition equal_pair :: "(CONTEXT \<times> SYMBOL \<Rightarrow> gterm) \<Rightarrow> unify_pair \<Rightarrow> bool" where
  "equal_pair \<sigma> p = (case p of ((CL, l), (CR, r)) \<Rightarrow> app \<sigma> CL l = app \<sigma> CR r)"

definition pair_work :: "(CONTEXT \<times> SYMBOL \<Rightarrow> gterm) \<Rightarrow> unify_pair list \<Rightarrow> nat" where
  "pair_work \<theta> ps = sum_list (map (\<lambda>((CL, l), _). gsize (app \<theta> CL l)) ps)"

lemma pairs_simps [simp]:
  "pairs CL CR [] rs = []"
  "pairs CL CR (l # ls) (r # rs) = ((CL, l), (CR, r)) # pairs CL CR ls rs"
  by (simp_all add: pairs_def)

lemma fr_pairs_simps [simp]:
  "fr_pairs [] = []"
  "fr_pairs ((CL, CR, ls, rs) # rest) = pairs CL CR ls rs @ fr_pairs rest"
  by (simp_all add: fr_pairs_def)

lemma fr_pairs_push [simp]: "fr_pairs (push_frame CL CR ls rs Stack) = pairs CL CR ls rs @ fr_pairs Stack"
  by (cases ls) (simp_all add: push_frame_def)

lemma frame_ok_push: "length ls = length rs \<Longrightarrow> \<forall>fr \<in> set Stack. frame_ok fr \<Longrightarrow> \<forall>fr \<in> set (push_frame CL CR ls rs Stack). frame_ok fr"
  by (simp add: push_frame_def frame_ok_def)

lemma pair_work_simps [simp]:
  "pair_work \<theta> [] = 0"
  "pair_work \<theta> (p # ps) = gsize (app \<theta> (fst (fst p)) (snd (fst p))) + pair_work \<theta> ps"
  "pair_work \<theta> (ps @ qs) = pair_work \<theta> ps + pair_work \<theta> qs"
  by (simp_all add: pair_work_def split: prod.split)

lemma pair_work_pairs: "length ls = length rs \<Longrightarrow> pair_work \<theta> (pairs CL CR ls rs) = sum_list (map (gsize \<circ> app \<theta> CL) ls)"
  by (induction ls rs rule: list_induct2) auto

lemma in_pairs: "p \<in> set (pairs CL CR ls rs) \<Longrightarrow> \<exists>l \<in> set ls. \<exists>r \<in> set rs. p = ((CL, l), (CR, r))"
  by (auto simp: pairs_def dest: set_zip_leftD set_zip_rightD)

lemma equal_pair_args:
  assumes "\<not> term_IsVariable L" "\<not> term_IsVariable R" "term_TopSymbol L = term_TopSymbol R"
    "length (term_ArgumentList L) = length (term_ArgumentList R)"
  shows "equal_pair \<sigma> ((CL, L), (CR, R)) \<longleftrightarrow> (\<forall>p \<in> set (pairs CL CR (term_ArgumentList L) (term_ArgumentList R)). equal_pair \<sigma> p)"
proof -
  have "map (app \<sigma> CL) ls = map (app \<sigma> CR) rs \<longleftrightarrow> (\<forall>p \<in> set (pairs CL CR ls rs). equal_pair \<sigma> p)"
    if "length ls = length rs" for ls rs
    using that by (induction ls rs rule: list_induct2) (auto simp: equal_pair_def)
  then show ?thesis using assms by (simp add: equal_pair_def app_eq [of \<sigma> CL L] app_eq [of \<sigma> CR R])
qed

text \<open>What a visit has to do, for an invariant \<open>J\<close> of the state and a condition \<open>pre\<close> on the pairs of
  terms that are still to be visited.\<close>

definition good_binding ::
  "(SYMBOL \<Rightarrow> nat) \<Rightarrow> cont_state \<Rightarrow> (CONTEXT \<times> SYMBOL \<Rightarrow> gterm) \<Rightarrow> unify_pair \<Rightarrow> cont_state \<Rightarrow> bool" where
  "good_binding ar s \<theta> p s' \<longleftrightarrow> (\<exists>C x D T. s' = snd (cont_CreateBinding C x D (Some T) s)
     \<and> bindings s (C, x) = None \<and> term_ok ar T \<and> (C, x) \<notin> gvars (app \<theta> D T)
     \<and> (\<forall>\<sigma>. \<sigma> (C, x) = app \<sigma> D T \<longleftrightarrow> equal_pair \<sigma> p)
     \<and> insert (C, x) (tvars D T) \<subseteq> tvars (fst (fst p)) (snd (fst p)) \<union> tvars (fst (snd p)) (snd (snd p)))"

text \<open>The outcome of a function on a list of pairs of terms.\<close>

definition unified :: "(SYMBOL \<Rightarrow> nat) \<Rightarrow> cont_state \<Rightarrow> unify_pair list \<Rightarrow> bool \<Rightarrow> cont_state \<Rightarrow> bool" where
  "unified ar s ps b s' \<longleftrightarrow> cont_extends s s' \<and> env_ok ar (bindings s')
     \<and> (if b then \<forall>\<sigma>. solves \<sigma> (bindings s') \<longleftrightarrow> solves \<sigma> (bindings s) \<and> (\<forall>p \<in> set ps. equal_pair \<sigma> p)
        else \<forall>\<sigma>. \<not> (solves \<sigma> (bindings s) \<and> (\<forall>p \<in> set ps. equal_pair \<sigma> p)))"

lemma unified_Nil: "env_ok ar (bindings s) \<Longrightarrow> unified ar s [] True s"
  by (simp add: unified_def cont_extends.nothing)

lemma unified_fail:
  "env_ok ar (bindings s) \<Longrightarrow> (\<And>\<sigma>. solves \<sigma> (bindings s) \<Longrightarrow> \<not> equal_pair \<sigma> p) \<Longrightarrow> unified ar s (p # ps) False s"
  by (auto simp: unified_def cont_extends.nothing)

lemma unified_step:
  assumes "unified ar s2 ps b s'" "cont_extends s s2"
    "\<And>\<sigma>. solves \<sigma> (bindings s2) \<longleftrightarrow> solves \<sigma> (bindings s) \<and> equal_pair \<sigma> p"
  shows "unified ar s (p # ps) b s'"
  using assms(1) cont_extends_trans [OF assms(2)] by (auto simp: unified_def assms(3))

lemma unified_replace:
  assumes "unified ar s ps b s'"
    "\<And>\<sigma>. solves \<sigma> (bindings s) \<Longrightarrow> (\<forall>p \<in> set ps. equal_pair \<sigma> p) \<longleftrightarrow> (\<forall>p \<in> set qs. equal_pair \<sigma> p)"
  shows "unified ar s qs b s'"
  using assms unfolding unified_def by metis

lemma good_binding_facts:
  assumes "good_binding ar s \<theta> p s'" "env_ok ar (bindings s)" "resolved \<theta> (bindings s)" "pair_ok ar U p" "env_vars (bindings s) \<subseteq> U" "finite U"
  shows "env_ok ar (bindings s')" "cont_extends s s'" "env_vars (bindings s') \<subseteq> U"
    "card (U - dom (bindings s')) < card (U - dom (bindings s))"
    "\<And>\<sigma>. solves \<sigma> (bindings s') \<longleftrightarrow> solves \<sigma> (bindings s) \<and> equal_pair \<sigma> p"
proof -
  obtain C x D T where g: "s' = snd (cont_CreateBinding C x D (Some T) s)" "bindings s (C, x) = None" "term_ok ar T"
    "(C, x) \<notin> gvars (app \<theta> D T)" "\<And>\<sigma>. \<sigma> (C, x) = app \<sigma> D T \<longleftrightarrow> equal_pair \<sigma> p"
    "insert (C, x) (tvars D T) \<subseteq> tvars (fst (fst p)) (snd (fst p)) \<union> tvars (fst (snd p)) (snd (snd p))"
    using assms(1) unfolding good_binding_def by blast
  have E: "bindings s' = (bindings s)((C, x) \<mapsto> (D, T))" by (simp add: g(1))
  have U: "insert (C, x) (tvars D T) \<subseteq> U" using g(6) assms(4) by (auto simp: pair_ok_def split: prod.splits)
  show "env_ok ar (bindings s')" unfolding E by (rule env_ok_upd [OF assms(2,3) g(2,3,4)])
  show "cont_extends s s'" unfolding g(1) by (rule cont_extends_one) (rule g(2))
  show "env_vars (bindings s') \<subseteq> U" unfolding E using U assms(5) by (simp add: env_vars_upd [of "bindings s" "(C, x)", OF g(2)])
  show "card (U - dom (bindings s')) < card (U - dom (bindings s))"
    using U g(2) assms(6) by (intro psubset_card_mono) (auto simp: E)
  show "\<And>\<sigma>. solves \<sigma> (bindings s') \<longleftrightarrow> solves \<sigma> (bindings s) \<and> equal_pair \<sigma> p"
    unfolding E by (simp add: solves_upd [of "bindings s" "(C, x)", OF g(2)] g(5))
qed

lemma gsize_args_less:
  "\<not> term_IsVariable T \<Longrightarrow> sum_list (map (gsize \<circ> app \<theta> C) (term_ArgumentList T)) < gsize (app \<theta> C T)"
  by (simp add: app_eq [of \<theta> C T])

locale unify_interface =
  fixes visit :: "bool \<Rightarrow> bool \<Rightarrow> cont_state \<Rightarrow> CONTEXT \<Rightarrow> TERM_NODE \<Rightarrow> CONTEXT \<Rightarrow> TERM_NODE \<Rightarrow> unify_next option"
    and ar :: "SYMBOL \<Rightarrow> nat"
    and J :: "cont_state \<Rightarrow> bool"
    and pre :: "bool \<Rightarrow> (CONTEXT \<times> SYMBOL \<Rightarrow> gterm) \<Rightarrow> unify_pair \<Rightarrow> bool"
  assumes visit_ok:
    "env_ok ar (bindings s) \<Longrightarrow> J s \<Longrightarrow> resolved \<theta> (bindings s) \<Longrightarrow> term_ok ar L \<Longrightarrow> term_ok ar R
     \<Longrightarrow> (term_IsVariable L \<Longrightarrow> bindings s (CL, term_TopSymbol L) = None)
     \<Longrightarrow> (term_IsVariable R \<Longrightarrow> bindings s (CR, term_TopSymbol R) = None)
     \<Longrightarrow> pre Bound \<theta> ((CL, L), (CR, R)) \<Longrightarrow> (same \<Longrightarrow> \<forall>\<sigma>. equal_pair \<sigma> ((CL, L), (CR, R)))
     \<Longrightarrow> \<exists>n. visit same Bound s CL L CR R = Some n
       \<and> (case n of
            unify_False s' \<Rightarrow> s' = s \<and> (\<forall>\<sigma>. solves \<sigma> (bindings s) \<longrightarrow> \<not> equal_pair \<sigma> ((CL, L), (CR, R)))
          | unify_Descend \<Rightarrow> \<not> term_IsVariable L \<and> \<not> term_IsVariable R \<and> term_TopSymbol L = term_TopSymbol R \<and> term_IsComplex L
          | unify_Next B s' \<Rightarrow> s' = s \<and> (\<forall>p. pre Bound \<theta> p \<longrightarrow> pre B \<theta> p) \<and> (\<forall>\<sigma>. equal_pair \<sigma> ((CL, L), (CR, R)))
              \<or> good_binding ar s \<theta> ((CL, L), (CR, R)) s' \<and> J s' \<and> (\<forall>\<theta>' p. pre Bound \<theta> p \<longrightarrow> pre B \<theta>' p))"
    and pre_follow:
    "J s \<Longrightarrow> resolved \<theta> (bindings s) \<Longrightarrow> pre Bound \<theta> ((CL, L), (CR, R))
     \<Longrightarrow> cont_follow s CL L = Some (CL', L') \<Longrightarrow> cont_follow s CR R = Some (CR', R')
     \<Longrightarrow> (\<And>\<sigma>. solves \<sigma> (bindings s) \<Longrightarrow> app \<sigma> CL' L' = app \<sigma> CL L)
     \<Longrightarrow> (\<And>\<sigma>. solves \<sigma> (bindings s) \<Longrightarrow> app \<sigma> CR' R' = app \<sigma> CR R)
     \<Longrightarrow> pre Bound \<theta> ((CL', L'), (CR', R'))"
    and pre_args:
    "pre Bound \<theta> ((CL, L), (CR, R)) \<Longrightarrow> \<not> term_IsVariable L \<Longrightarrow> \<not> term_IsVariable R
     \<Longrightarrow> term_TopSymbol L = term_TopSymbol R \<Longrightarrow> length (term_ArgumentList L) = length (term_ArgumentList R)
     \<Longrightarrow> q \<in> set (pairs CL CR (term_ArgumentList L) (term_ArgumentList R)) \<Longrightarrow> pre Bound \<theta> q"
begin

lemma loop_ok:
  assumes "finite U"
    and "\<And>s CL L CR R Stack. same (s, CL, L, CR, R, Stack) \<Longrightarrow> \<forall>\<sigma>. equal_pair \<sigma> ((CL, L), (CR, R))"
    and "env_ok ar (bindings s)" "J s" "resolved \<theta> (bindings s)" "env_vars (bindings s) \<subseteq> U"
    and "\<forall>p \<in> set (((CL, L), (CR, R)) # fr_pairs Stack). pair_ok ar U p \<and> pre Bound \<theta> p"
    and "\<forall>fr \<in> set Stack. frame_ok fr"
  shows "\<exists>b s'. unify_loop visit same Bound s CL L CR R Stack = Some (b, s')
    \<and> unified ar s (((CL, L), (CR, R)) # fr_pairs Stack) b s' \<and> J s'"
  using assms(3-)
proof (induction "card (U - dom (bindings s))" arbitrary: Bound s \<theta> CL L CR R Stack rule: less_induct)
  case outer: less
  show ?case
    using outer.prems(5,6)
  proof (induction "pair_work \<theta> (((CL, L), (CR, R)) # fr_pairs Stack)" arbitrary: Bound CL L CR R Stack rule: less_induct)
    case inner: less
    note env = outer.prems(1) and J = outer.prems(2) and res = outer.prems(3) and vars = outer.prems(4)
    have ok: "term_ok ar L" "term_ok ar R" "tvars CL L \<subseteq> U" "tvars CR R \<subseteq> U"
      using inner.prems(1) by (simp_all add: pair_ok_def)
    obtain CL' L' where fL: "cont_follow s CL L = Some (CL', L')" "term_ok ar L'"
      "\<And>\<sigma>. solves \<sigma> (bindings s) \<Longrightarrow> app \<sigma> CL' L' = app \<sigma> CL L"
      "term_IsVariable L' \<Longrightarrow> bindings s (CL', term_TopSymbol L') = None" "tvars CL' L' \<subseteq> tvars CL L \<union> env_vars (bindings s)"
      by (rule follow_ok [OF env ok(1), of CL]) (rule that; blast)
    obtain CR' R' where fR: "cont_follow s CR R = Some (CR', R')" "term_ok ar R'"
      "\<And>\<sigma>. solves \<sigma> (bindings s) \<Longrightarrow> app \<sigma> CR' R' = app \<sigma> CR R"
      "term_IsVariable R' \<Longrightarrow> bindings s (CR', term_TopSymbol R') = None" "tvars CR' R' \<subseteq> tvars CR R \<union> env_vars (bindings s)"
      by (rule follow_ok [OF env ok(2), of CR]) (rule that; blast)
    let ?p = "((CL', L'), (CR', R'))" and ?same = "same (s, CL', L', CR', R', Stack)"
    have p: "pair_ok ar U ?p" using fL(2,5) fR(2,5) ok(3,4) vars by (auto simp: pair_ok_def)
    have eqp: "equal_pair \<sigma> ((CL, L), (CR, R)) \<longleftrightarrow> equal_pair \<sigma> ?p" if "solves \<sigma> (bindings s)" for \<sigma>
      using fL(3) fR(3) that by (simp add: equal_pair_def)
    have pre0: "pre Bound \<theta> ?p"
      using inner.prems(1) fL(3) fR(3) by (intro pre_follow [OF J res _ fL(1) fR(1)]) simp_all
    obtain n where n: "visit ?same Bound s CL' L' CR' R' = Some n"
      "case n of
            unify_False s' \<Rightarrow> s' = s \<and> (\<forall>\<sigma>. solves \<sigma> (bindings s) \<longrightarrow> \<not> equal_pair \<sigma> ?p)
          | unify_Descend \<Rightarrow> \<not> term_IsVariable L' \<and> \<not> term_IsVariable R' \<and> term_TopSymbol L' = term_TopSymbol R' \<and> term_IsComplex L'
          | unify_Next B s' \<Rightarrow> s' = s \<and> (\<forall>p. pre Bound \<theta> p \<longrightarrow> pre B \<theta> p) \<and> (\<forall>\<sigma>. equal_pair \<sigma> ?p)
              \<or> good_binding ar s \<theta> ?p s' \<and> J s' \<and> (\<forall>\<theta>' p. pre Bound \<theta> p \<longrightarrow> pre B \<theta>' p)"
      using visit_ok [OF env J res fL(2) fR(2) fL(4) fR(4) pre0 assms(2)] by blast
    let ?rest = "\<lambda>B s. (case Stack of [] \<Rightarrow> Some (True, s)
      | (CL, CR, l # ls, r # rs) # rest \<Rightarrow> unify_loop visit same B s CL l CR r (push_frame CL CR ls rs rest)
      | _ \<Rightarrow> None)"
    have loop: "unify_loop visit same Bound s CL L CR R Stack = (case n of
        unify_False s \<Rightarrow> Some (False, s)
      | unify_Descend \<Rightarrow> (case (term_ArgumentList L', term_ArgumentList R') of
            (l # ls, r # rs) \<Rightarrow> unify_loop visit same Bound s CL' l CR' r (push_frame CL' CR' ls rs Stack)
          | _ \<Rightarrow> None)
      | unify_Next B s \<Rightarrow> ?rest B s)"
      using fL(1) fR(1) n(1) by (subst unify_loop.simps) (simp split: unify_next.split list.split)
    have finish: ?case if "unify_loop visit same Bound s CL L CR R Stack = Some (b, s')" "unified ar s (?p # fr_pairs Stack) b s'" "J s'" for b s'
      using that eqp unified_replace [OF that(2), of "((CL, L), (CR, R)) # fr_pairs Stack"] by auto
    have rest_ok: "\<exists>b s'. ?rest B s2 = Some (b, s') \<and> unified ar s2 (fr_pairs Stack) b s' \<and> J s'"
      if "env_ok ar (bindings s2)" "J s2"
        and go: "\<And>CL l CR r ls rs rest. Stack = (CL, CR, l # ls, r # rs) # rest \<Longrightarrow>
          \<exists>b s'. unify_loop visit same B s2 CL l CR r (push_frame CL CR ls rs rest) = Some (b, s')
            \<and> unified ar s2 (((CL, l), (CR, r)) # fr_pairs (push_frame CL CR ls rs rest)) b s' \<and> J s'" for B s2
    proof (cases Stack)
      case Nil
      then show ?thesis using that(1,2) unified_Nil by auto
    next
      case (Cons fr rest)
      moreover have "frame_ok fr" using inner.prems(2) Cons by simp
      ultimately obtain CL l CR r ls rs where S: "Stack = (CL, CR, l # ls, r # rs) # rest"
        by (cases fr) (force simp: frame_ok_def neq_Nil_conv Suc_length_conv)
      show ?thesis using go [OF S] by (simp add: S)
    qed
    show ?case
    proof (cases n)
      case (unify_False s')
      then show ?thesis using n(2) loop by (intro finish [of False s]) (auto intro: unified_fail [OF env] simp: J)
    next
      case unify_Descend
      then have d: "\<not> term_IsVariable L'" "\<not> term_IsVariable R'" "term_TopSymbol L' = term_TopSymbol R'" "term_IsComplex L'"
        using n(2) by simp_all
      have len: "length (term_ArgumentList L') = length (term_ArgumentList R')"
        using d term_ok_length(1) [OF fL(2)] term_ok_length(1) [OF fR(2)] by simp
      then obtain l ls r rs where args: "term_ArgumentList L' = l # ls" "term_ArgumentList R' = r # rs" "length ls = length rs"
        using d(4) by (cases "term_ArgumentList L'"; cases "term_ArgumentList R'") (auto simp: leaf_def)
      let ?ps = "((CL', l), (CR', r)) # fr_pairs (push_frame CL' CR' ls rs Stack)"
      have ps: "?ps = pairs CL' CR' (term_ArgumentList L') (term_ArgumentList R') @ fr_pairs Stack" by (simp add: args)
      have "pair_work \<theta> ?ps < pair_work \<theta> (((CL, L), (CR, R)) # fr_pairs Stack)"
        unfolding ps using gsize_args_less [OF d(1), of \<theta> CL'] fL(3) [OF resolvedD(1) [OF res]]
        by (simp add: pair_work_pairs [OF len])
      moreover have "pair_ok ar U q \<and> pre Bound \<theta> q" if "q \<in> set ?ps" for q
      proof (cases "q \<in> set (fr_pairs Stack)")
        case True
        then show ?thesis using inner.prems(1) by simp
      next
        case False
        then have mem: "q \<in> set (pairs CL' CR' (term_ArgumentList L') (term_ArgumentList R'))"
          using that unfolding ps by simp
        from in_pairs [OF this] obtain u v
          where q: "u \<in> set (term_ArgumentList L')" "v \<in> set (term_ArgumentList R')" "q = ((CL', u), (CR', v))"
          by blast
        have "tvars CL' u \<subseteq> tvars CL' L'" "tvars CR' v \<subseteq> tvars CR' R'"
          using q d by (auto simp: tvars_eq [of CL' L'] tvars_eq [of CR' R'])
        then have "pair_ok ar U q" using q term_ok_arg [OF fL(2) q(1)] term_ok_arg [OF fR(2) q(2)] p by (auto simp: pair_ok_def)
        then show ?thesis using pre_args [OF pre0 d(1-3) len mem] by simp
      qed
      ultimately obtain b s' where r: "unify_loop visit same Bound s CL' l CR' r (push_frame CL' CR' ls rs Stack) = Some (b, s')"
        "unified ar s ?ps b s'" "J s'"
        using inner.hyps [of CL' l CR' r "push_frame CL' CR' ls rs Stack"] frame_ok_push [OF args(3) inner.prems(2)] by blast
      have "unified ar s (?p # fr_pairs Stack) b s'"
        by (rule unified_replace [OF r(2)]) (simp add: ps equal_pair_args [OF d(1-3) len] ball_Un del: fr_pairs_push)
      then show ?thesis using loop r(1,3) args unify_Descend by (intro finish) simp_all
    next
      case (unify_Next B s2)
      then consider "s2 = s" "\<forall>p. pre Bound \<theta> p \<longrightarrow> pre B \<theta> p" "\<forall>\<sigma>. equal_pair \<sigma> ?p"
        | "good_binding ar s \<theta> ?p s2" "J s2" "\<forall>\<theta>' p. pre Bound \<theta> p \<longrightarrow> pre B \<theta>' p"
        using n(2) by auto
      then show ?thesis
      proof cases
        case 1
        have "\<exists>b s'. ?rest B s2 = Some (b, s') \<and> unified ar s2 (fr_pairs Stack) b s' \<and> J s'"
          unfolding 1(1)
        proof (rule rest_ok [OF env J])
          fix CL2 l CR2 r ls rs rest
          assume S: "Stack = (CL2, CR2, l # ls, r # rs) # rest"
          have "pair_work \<theta> (((CL2, l), (CR2, r)) # fr_pairs (push_frame CL2 CR2 ls rs rest)) < pair_work \<theta> (((CL, L), (CR, R)) # fr_pairs Stack)"
            by (simp add: S)
          then show "\<exists>b s'. unify_loop visit same B s CL2 l CR2 r (push_frame CL2 CR2 ls rs rest) = Some (b, s')
            \<and> unified ar s (((CL2, l), (CR2, r)) # fr_pairs (push_frame CL2 CR2 ls rs rest)) b s' \<and> J s'"
            using inner.prems 1(2) by (intro inner.hyps) (auto simp: S frame_ok_def push_frame_def)
        qed
        then obtain b s' where "?rest B s2 = Some (b, s')" "unified ar s (fr_pairs Stack) b s'" "J s'" using 1(1) by blast
        moreover from this(2) have "unified ar s (?p # fr_pairs Stack) b s'"
          by (rule unified_step) (use 1(3) in \<open>auto intro: cont_extends.nothing\<close>)
        ultimately show ?thesis using loop unify_Next by (intro finish [of b s']) simp_all
      next
        case 2
        note g = good_binding_facts [OF 2(1) env res p vars assms(1)]
        obtain r2 \<theta>2 where res2: "resolved \<theta>2 (bindings s2)" using env_ok_resolved [OF g(1)] by blast
        have "\<exists>b s'. ?rest B s2 = Some (b, s') \<and> unified ar s2 (fr_pairs Stack) b s' \<and> J s'"
        proof (rule rest_ok [OF g(1) 2(2)])
          fix CL2 l CR2 r ls rs rest
          assume S: "Stack = (CL2, CR2, l # ls, r # rs) # rest"
          show "\<exists>b s'. unify_loop visit same B s2 CL2 l CR2 r (push_frame CL2 CR2 ls rs rest) = Some (b, s')
            \<and> unified ar s2 (((CL2, l), (CR2, r)) # fr_pairs (push_frame CL2 CR2 ls rs rest)) b s' \<and> J s'"
            using inner.prems 2(3) by (intro outer.hyps [OF g(4,1) 2(2) res2 g(3)]) (auto simp: S frame_ok_def push_frame_def)
        qed
        then obtain b s' where "?rest B s2 = Some (b, s')" "unified ar s2 (fr_pairs Stack) b s'" "J s'" by blast
        moreover from this(2) have "unified ar s (?p # fr_pairs Stack) b s'"
          by (rule unified_step [OF _ g(2,5)])
        ultimately show ?thesis using loop unify_Next by (intro finish [of b s']) simp_all
      qed
    qed
  qed
qed

end

section \<open>\<open>unify_Unify\<close>\<close>

text \<open>Before the first binding there is no occurs check: then the two terms must not share variables.\<close>

definition unify_pre :: "bool \<Rightarrow> (CONTEXT \<times> SYMBOL \<Rightarrow> gterm) \<Rightarrow> unify_pair \<Rightarrow> bool" where
  "unify_pre Bound \<theta> p \<longleftrightarrow> Bound \<or> gvars (app \<theta> (fst (fst p)) (snd (fst p))) \<inter> gvars (app \<theta> (fst (snd p)) (snd (snd p))) = {}"

lemma app_var: "resolved \<theta> E \<Longrightarrow> term_IsVariable T \<Longrightarrow> E (C, term_TopSymbol T) = None \<Longrightarrow> app \<theta> C T = GVar (C, term_TopSymbol T)"
  by (simp add: app_eq resolved_def)

lemma app_not_var: "\<not> term_IsVariable T \<Longrightarrow> app \<theta> C T \<noteq> GVar v"
  by (simp add: app_eq)

text \<open>The three ways to go on after the bindings have been followed.\<close>

lemma bind_var:
  assumes "resolved \<theta> (bindings s)" "term_IsVariable V" "bindings s (C, term_TopSymbol V) = None" "term_ok ar T"
    "(C, term_TopSymbol V) \<notin> gvars (app \<theta> D T)"
  shows "good_binding ar s \<theta> ((C, V), (D, T)) (snd (cont_CreateBinding C (term_TopSymbol V) D (Some T) s))"
    and "good_binding ar s \<theta> ((D, T), (C, V)) (snd (cont_CreateBinding C (term_TopSymbol V) D (Some T) s))"
  unfolding good_binding_def
  by (rule exI [of _ C], rule exI [of _ "term_TopSymbol V"], rule exI [of _ D], rule exI [of _ T],
      use assms in \<open>auto simp: equal_pair_def app_eq [of _ C V] tvars_eq [of C V]\<close>)+

lemma occurs_fail:
  assumes "env_ok ar (bindings s)" "resolved \<theta> (bindings s)" "term_IsVariable V" "\<not> term_IsVariable T"
    "(C, term_TopSymbol V) \<in> gvars (app \<theta> D T)" "solves \<sigma> (bindings s)"
  shows "\<not> equal_pair \<sigma> ((C, V), (D, T))" "\<not> equal_pair \<sigma> ((D, T), (C, V))"
proof -
  obtain r where r: "ranked r (bindings s)" using env_ok_resolved [OF assms(1)] by blast
  have "\<sigma> (C, term_TopSymbol V) \<noteq> app \<sigma> D T"
    by (rule occurs_no_solution [OF r assms(2,5) _ assms(6)]) (rule app_not_var [OF assms(4)])
  then show "\<not> equal_pair \<sigma> ((C, V), (D, T))" "\<not> equal_pair \<sigma> ((D, T), (C, V))"
    using assms(3) by (auto simp: equal_pair_def app_eq [of _ C V])
qed

lemma leaf_pair:
  assumes "\<not> term_IsVariable L" "\<not> term_IsVariable R" "term_EqualTopSymbols L R" "\<not> term_IsComplex L" "term_ok ar L" "term_ok ar R"
  shows "equal_pair \<sigma> ((CL, L), (CR, R))"
proof -
  have "length (term_ArgumentList L) = length (term_ArgumentList R)"
    using assms term_ok_length(1) [OF assms(5,1)] term_ok_length(1) [OF assms(6,2)]
    by (simp add: term_EqualTopSymbols_def symbol_Equal_def)
  then show ?thesis using assms
    by (simp add: equal_pair_def app_eq [of \<sigma> CL L] app_eq [of \<sigma> CR R] term_EqualTopSymbols_def symbol_Equal_def leaf_def)
qed

lemma clash_pair:
  "\<not> term_IsVariable L \<Longrightarrow> \<not> term_IsVariable R \<Longrightarrow> \<not> term_EqualTopSymbols L R \<Longrightarrow> \<not> equal_pair \<sigma> ((CL, L), (CR, R))"
  by (simp add: equal_pair_def app_eq [of \<sigma> CL L] app_eq [of \<sigma> CR R] term_EqualTopSymbols_def symbol_Equal_def)

lemma CreateBinding_pair: "cont_CreateBinding C x D T s = (cont_BINDINGS s + 1, snd (cont_CreateBinding C x D T s))"
  by (metis CreateBinding_simps(1) prod.collapse)

interpretation uni: unify_interface unify_visit ar "\<lambda>s. 0 \<le> cont_BINDINGS s" unify_pre for ar
proof (unfold_locales, goal_cases)
  case (1 s \<theta> L R CL CR Bound same)
  let ?vL = "(CL, term_TopSymbol L)" and ?vR = "(CR, term_TopSymbol R)"
  have L: "app \<theta> CL L = GVar ?vL" if "term_IsVariable L" by (rule app_var [OF 1(3) that 1(6) [OF that]])
  have R: "app \<theta> CR R = GVar ?vR" if "term_IsVariable R" by (rule app_var [OF 1(3) that 1(7) [OF that]])
  have B: "cont_BINDINGS s + 1 \<noteq> 0" "\<And>C x D T. 0 \<le> cont_BINDINGS (snd (cont_CreateBinding C x D T s))"
    using 1(2) by simp_all
  have pre: "\<forall>\<theta>' p. unify_pre Bound \<theta> p \<longrightarrow> unify_pre True \<theta>' p" by (simp add: unify_pre_def)
  consider (vv) "term_IsVariable L" "term_IsVariable R" | (vt) "term_IsVariable L" "\<not> term_IsVariable R"
    | (tv) "\<not> term_IsVariable L" "term_IsVariable R" | (tt) "\<not> term_IsVariable L" "\<not> term_IsVariable R" by blast
  then show ?case
  proof cases
    case vv
    show ?thesis
    proof (cases "?vL = ?vR")
      case True
      then have "\<forall>\<sigma>. equal_pair \<sigma> ((CL, L), (CR, R))" using vv by (simp add: equal_pair_def app_eq)
      then show ?thesis using vv True
        by (simp add: unify_visit_def term_EqualTopSymbols_def symbol_Equal_def)
    next
      case False
      have "?vR \<notin> gvars (app \<theta> CL L)" using L [OF vv(1)] False by auto
      note g = bind_var(2) [OF 1(3) vv(2) 1(7) [OF vv(2)] 1(4) this]
      show ?thesis using vv False g B pre
        by (subst unify_visit_def, subst CreateBinding_pair)
          (auto simp: term_EqualTopSymbols_def symbol_Equal_def)
    qed
  next
    case vt
    have oc: "(if Bound then unify_OccurCheck CL (term_TopSymbol L) s CR R else Some False) = Some (?vL \<in> gvars (app \<theta> CR R))"
      using OccurCheck_ok [OF 1(1,3) 1(6) [OF vt(1)] 1(5)] 1(8) L [OF vt(1)] by (auto simp: unify_pre_def)
    show ?thesis
    proof (cases "?vL \<in> gvars (app \<theta> CR R)")
      case True
      then show ?thesis using vt oc occurs_fail(1) [OF 1(1,3) vt True] by (simp add: unify_visit_def)
    next
      case False
      note g = bind_var(1) [OF 1(3) vt(1) 1(6) [OF vt(1)] 1(5) False]
      show ?thesis using vt False oc g B pre
        by (subst unify_visit_def, subst CreateBinding_pair) simp
    qed
  next
    case tv
    have oc: "(if Bound then unify_OccurCheck CR (term_TopSymbol R) s CL L else Some False) = Some (?vR \<in> gvars (app \<theta> CL L))"
      using OccurCheck_ok [OF 1(1,3) 1(7) [OF tv(2)] 1(4)] 1(8) R [OF tv(2)] by (auto simp: unify_pre_def)
    show ?thesis
    proof (cases "?vR \<in> gvars (app \<theta> CL L)")
      case True
      then show ?thesis using tv oc occurs_fail(2) [OF 1(1,3) tv(2,1) True] by (simp add: unify_visit_def)
    next
      case False
      note g = bind_var(2) [OF 1(3) tv(2) 1(7) [OF tv(2)] 1(4) False]
      show ?thesis using tv False oc g B pre
        by (subst unify_visit_def, subst CreateBinding_pair) simp
    qed
  next
    case tt
    then show ?thesis using leaf_pair [OF tt _ _ 1(4,5)] clash_pair [OF tt] 1(9)
      by (simp add: unify_visit_def) (simp add: term_EqualTopSymbols_def symbol_Equal_def)
  qed
next
  case (2 s \<theta> Bound CL L CR R CL' L' CR' R')
  then show ?case using resolvedD(1) by (simp add: unify_pre_def)
next
  case (3 Bound \<theta> CL L CR R q)
  then obtain l r where q: "l \<in> set (term_ArgumentList L)" "r \<in> set (term_ArgumentList R)" "q = ((CL, l), (CR, r))"
    using in_pairs by blast
  then have "gvars (app \<theta> CL l) \<subseteq> gvars (app \<theta> CL L)" "gvars (app \<theta> CR r) \<subseteq> gvars (app \<theta> CR R)"
    using 3(2,3) by (auto simp: app_eq [of \<theta> CL L] app_eq [of \<theta> CR R])
  then show ?case using 3(1) by (auto simp: unify_pre_def q(3))
qed

text \<open>The addresses: equal terms in one context, or equal terms without variables.\<close>

definition same_Unify :: "(unify_point \<Rightarrow> bool) \<Rightarrow> bool" where
  "same_Unify same \<longleftrightarrow> (\<forall>s CL L CR R Stack. same (s, CL, L, CR, R, Stack) \<longrightarrow> L = R \<and> (CL = CR \<or> tvars CL L = {}))"

lemma app_closed: "tvars C T = {} \<Longrightarrow> app \<sigma> C T = app \<sigma> D T"
proof (induction C T rule: tvars.induct)
  case (1 C s ts st sz)
  then show ?case by (cases "symbol_IsVariable s") auto
qed

lemma same_Unify_equal: "same_Unify same \<Longrightarrow> same (s, CL, L, CR, R, Stack) \<Longrightarrow> \<forall>\<sigma>. equal_pair \<sigma> ((CL, L), (CR, R))"
proof -
  assume *: "same_Unify same" "same (s, CL, L, CR, R, Stack)"
  have "L = R \<and> (CL = CR \<or> tvars CL L = {})" using * unfolding same_Unify_def by blast
  then show "\<forall>\<sigma>. equal_pair \<sigma> ((CL, L), (CR, R))" using app_closed by (auto simp: equal_pair_def)
qed

lemma unify_Unify_ok:
  assumes "env_ok ar (bindings s)" "0 \<le> cont_BINDINGS s" "resolved \<theta> (bindings s)" "term_ok ar L" "term_ok ar R"
    "gvars (app \<theta> CL L) \<inter> gvars (app \<theta> CR R) = {}" "same_Unify same"
  shows "\<exists>b s'. unify_Unify same s CL L CR R = Some (b, s') \<and> unified ar s [((CL, L), (CR, R))] b s'"
proof -
  let ?U = "env_vars (bindings s) \<union> tvars CL L \<union> tvars CR R"
  have "finite ?U" using assms(1) env_vars_finite by (auto simp: env_ok_def)
  moreover have "unify_pre False \<theta> ((CL, L), (CR, R))" using assms(6) by (simp add: unify_pre_def)
  ultimately show ?thesis
    using uni.loop_ok [of ?U same, OF _ _ assms(1,2,3), of CL L CR R "[]" False] same_Unify_equal [OF assms(7)] assms(4,5)
    by (auto simp: unify_Unify_def pair_ok_def)
qed

section \<open>\<open>unify_UnifyNoOC\<close>\<close>

text \<open>Without the occurs check the function is right where its callers use it, on terms that are known
  to have a unifier: this rules out that an occurs check would fail.\<close>

lemma unifier_no_occurs:
  assumes "env_ok ar (bindings s)" "resolved \<theta> (bindings s)" "term_IsVariable V" "\<not> term_IsVariable T" "solves \<sigma> (bindings s)"
    "equal_pair \<sigma> ((C, V), (D, T)) \<or> equal_pair \<sigma> ((D, T), (C, V))"
  shows "(C, term_TopSymbol V) \<notin> gvars (app \<theta> D T)"
  using occurs_fail [OF assms(1-4) _ assms(5)] assms(6) by blast

interpretation nooc: unify_interface unify_visit_NoOC ar "\<lambda>s. solves \<sigma> (bindings s)" "\<lambda>Bound \<theta> p. equal_pair \<sigma> p" for ar \<sigma>
proof (unfold_locales, goal_cases)
  case (1 s \<theta> L R CL CR Bound same)
  let ?vL = "(CL, term_TopSymbol L)" and ?vR = "(CR, term_TopSymbol R)"
  have L: "app \<theta> CL L = GVar ?vL" if "term_IsVariable L" by (rule app_var [OF 1(3) that 1(6) [OF that]])
  have J: "solves \<sigma> (bindings s')" if g: "good_binding ar s \<theta> ((CL, L), (CR, R)) s'" for s'
  proof -
    obtain C x D T where "s' = snd (cont_CreateBinding C x D (Some T) s)" "bindings s (C, x) = None"
      "\<And>\<sigma>. \<sigma> (C, x) = app \<sigma> D T \<longleftrightarrow> equal_pair \<sigma> ((CL, L), (CR, R))"
      using g unfolding good_binding_def by blast
    then show ?thesis using 1(2,8) solves_upd [of "bindings s" "(C, x)" \<sigma> D T] by simp
  qed
  consider (vv) "term_IsVariable L" "term_IsVariable R" | (vt) "term_IsVariable L" "\<not> term_IsVariable R"
    | (tv) "\<not> term_IsVariable L" "term_IsVariable R" | (tt) "\<not> term_IsVariable L" "\<not> term_IsVariable R" by blast
  then show ?case
  proof cases
    case vv
    show ?thesis
    proof (cases "?vL = ?vR")
      case True
      then have "\<forall>\<sigma>. equal_pair \<sigma> ((CL, L), (CR, R))" using vv by (simp add: equal_pair_def app_eq)
      then show ?thesis using vv True
        by (simp add: unify_visit_NoOC_def term_EqualTopSymbols_def symbol_Equal_def)
    next
      case False
      have "?vR \<notin> gvars (app \<theta> CL L)" using L [OF vv(1)] False by auto
      note g = bind_var(2) [OF 1(3) vv(2) 1(7) [OF vv(2)] 1(4) this]
      show ?thesis using vv False g J [OF g]
        by (auto simp: unify_visit_NoOC_def term_EqualTopSymbols_def symbol_Equal_def)
    qed
  next
    case vt
    note g = bind_var(1) [OF 1(3) vt(1) 1(6) [OF vt(1)] 1(5) unifier_no_occurs [OF 1(1,3) vt 1(2) disjI1 [OF 1(8)]]]
    show ?thesis using vt g J [OF g] by (simp add: unify_visit_NoOC_def)
  next
    case tv
    note g = bind_var(2) [OF 1(3) tv(2) 1(7) [OF tv(2)] 1(4) unifier_no_occurs [OF 1(1,3) tv(2,1) 1(2) disjI2 [OF 1(8)]]]
    show ?thesis using tv g J [OF g] by (simp add: unify_visit_NoOC_def)
  next
    case tt
    then show ?thesis using leaf_pair [OF tt _ _ 1(4,5)] clash_pair [OF tt] 1(9)
      by (simp add: unify_visit_NoOC_def) (simp add: term_EqualTopSymbols_def symbol_Equal_def)
  qed
next
  case (2 s \<theta> Bound CL L CR R CL' L' CR' R')
  then show ?case by (simp add: equal_pair_def)
next
  case (3 Bound \<theta> CL L CR R q)
  then show ?case using equal_pair_args by blast
qed

lemma unify_UnifyNoOC_ok:
  assumes "env_ok ar (bindings s)" "term_ok ar L" "term_ok ar R" "same_Unify same"
    "solves \<sigma> (bindings s)" "app \<sigma> CL L = app \<sigma> CR R"
  shows "\<exists>s'. unify_UnifyNoOC same s CL L CR R = Some (True, s') \<and> unified ar s [((CL, L), (CR, R))] True s'"
proof -
  let ?U = "env_vars (bindings s) \<union> tvars CL L \<union> tvars CR R"
  have "finite ?U" using assms(1) env_vars_finite by (auto simp: env_ok_def)
  moreover have \<sigma>: "equal_pair \<sigma> ((CL, L), (CR, R))" using assms(6) by (simp add: equal_pair_def)
  moreover obtain r \<theta> where "resolved \<theta> (bindings s)" using env_ok_resolved [OF assms(1)] by blast
  ultimately have "\<exists>b s'. unify_loop unify_visit_NoOC same False s CL L CR R [] = Some (b, s')
      \<and> unified ar s [((CL, L), (CR, R))] b s'"
    using nooc.loop_ok [of ?U same ar s \<sigma> \<theta> CL L CR R "[]" False] same_Unify_equal [OF assms(4)] assms(1-3,5)
    by (auto simp: pair_ok_def)
  then obtain b s' where r: "unify_UnifyNoOC same s CL L CR R = Some (b, s')" "unified ar s [((CL, L), (CR, R))] b s'"
    by (auto simp: unify_UnifyNoOC_def)
  have b using r(2) assms(5) \<sigma> by (auto simp: unified_def split: if_splits)
  then show ?thesis using r by auto
qed

section \<open>One context\<close>

lemma occur_loop_Com:
  assumes "occur_loop C Top s D T St = Some b" "own_context C (bindings s)" "D = C" "St = map (Pair C) Stack"
  shows "occur_loop_Com Top s C T Stack = Some b"
  using assms
proof (induction arbitrary: Stack rule: occur_loop.raw_induct [rotated, consumes 1, case_names step])
  case (step loop C Top s D T St b)
  have own: "cont_ContextBindingContext C x s = C" if "cont_VarIsBound C x s" for x
    using step.prems(1) that by (auto simp: own_context_def VarIsBound_bindings bindings_def cont_VarIsBound_def)
  show ?case
    using step.hyps unfolding step.prems(2,3)
    by (subst occur_loop_Com.simps) (auto simp: own Let_def split: if_splits list.splits intro!: step.IH [OF _ step.prems(1)])
qed

lemma OccurCheckCom_ok:
  assumes "env_ok ar (bindings s)" "resolved \<theta> (bindings s)" "bindings s (C, Top) = None" "term_ok ar T" "own_context C (bindings s)"
  shows "unify_OccurCheckCom Top s C T = Some ((C, Top) \<in> gvars (app \<theta> C T))"
  using occur_loop_Com [OF _ assms(5) refl, of Top T "[]" _ "[]"] OccurCheck_ok [OF assms(1-4)]
  by (simp add: unify_OccurCheckCom_def unify_OccurCheck_def)

definition visit_Com :: "bool \<Rightarrow> bool \<Rightarrow> cont_state \<Rightarrow> CONTEXT \<Rightarrow> TERM_NODE \<Rightarrow> CONTEXT \<Rightarrow> TERM_NODE \<Rightarrow> unify_next option" where
  "visit_Com same Bound s CL L CR R = unify_visit_Com same s CL L R"

lemma own_context_bind: "own_context C E \<Longrightarrow> own_context C (E((C, x) \<mapsto> (C, T)))"
  by (auto simp: own_context_def)

lemma follow_own: "own_context C (bindings s) \<Longrightarrow> cont_follow s C T = Some (C', T') \<Longrightarrow> C' = C"
proof -
  have "cont_follow s' D T = Some p \<Longrightarrow> own_context C (bindings s') \<Longrightarrow> D = C \<Longrightarrow> fst p = C" for s' D T p
  proof (induction rule: cont_follow.raw_induct [rotated, consumes 1, case_names step])
    case (step follow s D T p)
    have "cont_ContextBindingContext C x s = C" if "cont_ContextBindingTerm C x s = Some T'" for x T'
      using step.prems(1) that by (auto simp: own_context_def bindings_def)
    then show ?case using step by (auto split: if_splits option.splits)
  qed
  then show "own_context C (bindings s) \<Longrightarrow> cont_follow s C T = Some (C', T') \<Longrightarrow> C' = C" by fastforce
qed

interpretation com: unify_interface visit_Com ar "\<lambda>s. own_context C (bindings s)" "\<lambda>Bound \<theta> p. fst (fst p) = C \<and> fst (snd p) = C" for ar C
proof (unfold_locales, goal_cases)
  case (1 s \<theta> L R CL CR Bound same)
  then have C: "CL = C" "CR = C" by simp_all
  let ?vL = "(C, term_TopSymbol L)" and ?vR = "(C, term_TopSymbol R)"
  have L: "app \<theta> C L = GVar ?vL" if "term_IsVariable L" using app_var [OF 1(3) that 1(6) [OF that]] C by simp
  have R: "app \<theta> C R = GVar ?vR" if "term_IsVariable R" using app_var [OF 1(3) that 1(7) [OF that]] C by simp
  have unbound: "term_IsVariable L \<Longrightarrow> bindings s ?vL = None" "term_IsVariable R \<Longrightarrow> bindings s ?vR = None"
    using 1(6,7) C by simp_all
  note own = own_context_bind [OF 1(2)]
  show ?case
  proof (cases "term_EqualTopSymbols L R")
    case True
    then have var: "term_IsVariable L \<longleftrightarrow> term_IsVariable R"
      by (simp add: term_EqualTopSymbols_def symbol_Equal_def term_IsVariable_def)
    have "equal_pair \<sigma> ((C, L), (C, R))" if "term_IsVariable L \<or> \<not> term_IsComplex L" for \<sigma>
    proof (cases "term_IsVariable L")
      case True
      then show ?thesis using var \<open>term_EqualTopSymbols L R\<close>
        by (simp add: equal_pair_def app_eq term_EqualTopSymbols_def symbol_Equal_def)
    next
      case False
      then show ?thesis using var that leaf_pair [OF _ _ True _ 1(4,5)] by simp
    qed
    moreover have "term_IsVariable L \<Longrightarrow> \<not> term_IsComplex L" using term_ok_length(2) [OF 1(4)] by (simp add: leaf_def)
    ultimately show ?thesis using True 1(9) var C
      by (auto simp: visit_Com_def unify_visit_Com_def) (auto simp: term_EqualTopSymbols_def symbol_Equal_def)
  next
    case False
    then have neq: "?vL \<noteq> ?vR" by (auto simp: term_EqualTopSymbols_def symbol_Equal_def)
    show ?thesis
    proof (cases "term_IsVariable L")
      case vL: True
      have oc: "unify_OccurCheckCom (term_TopSymbol L) s C R = Some (?vL \<in> gvars (app \<theta> C R))"
        by (rule OccurCheckCom_ok [OF 1(1,3) unbound(1) [OF vL] 1(5,2)])
      show ?thesis
      proof (cases "?vL \<in> gvars (app \<theta> C R)")
        case True
        then have "\<not> term_IsVariable R" using R neq by auto
        then show ?thesis using vL False oc True occurs_fail(1) [OF 1(1,3) vL _ True] C
          by (simp add: visit_Com_def unify_visit_Com_def)
      next
        case no: False
        note g = bind_var(1) [OF 1(3) vL unbound(1) [OF vL] 1(5) no]
        show ?thesis using vL False oc no g own C by (simp add: visit_Com_def unify_visit_Com_def)
      qed
    next
      case nL: False
      show ?thesis
      proof (cases "term_IsVariable R")
        case vR: True
        have oc: "unify_OccurCheckCom (term_TopSymbol R) s C L = Some (?vR \<in> gvars (app \<theta> C L))"
          by (rule OccurCheckCom_ok [OF 1(1,3) unbound(2) [OF vR] 1(4,2)])
        show ?thesis
        proof (cases "?vR \<in> gvars (app \<theta> C L)")
          case True
          then show ?thesis using nL vR False oc occurs_fail(2) [OF 1(1,3) vR nL True] C
            by (simp add: visit_Com_def unify_visit_Com_def)
        next
          case no: False
          note g = bind_var(2) [OF 1(3) vR unbound(2) [OF vR] 1(4) no]
          show ?thesis using nL vR False oc no g own C by (simp add: visit_Com_def unify_visit_Com_def)
        qed
      next
        case nR: False
        then show ?thesis using nL False clash_pair [OF nL nR] C by (simp add: visit_Com_def unify_visit_Com_def)
      qed
    qed
  qed
next
  case (2 s \<theta> Bound CL L CR R CL' L' CR' R')
  then show ?case using follow_own by auto
next
  case (3 Bound \<theta> CL L CR R q)
  then show ?case using in_pairs by fastforce
qed

text \<open>The loop for one context returns what the loop for two contexts does.\<close>

definition one_context :: "CONTEXT \<Rightarrow> unify_frame list \<Rightarrow> bool" where
  "one_context C Stack \<longleftrightarrow> (\<forall>fr \<in> set Stack. fst fr = C \<and> fst (snd fr) = C)"

lemma one_context_simps [simp]:
  "one_context C []" "one_context C ((CL, CR, ls, rs) # Stack) \<longleftrightarrow> CL = C \<and> CR = C \<and> one_context C Stack"
  "one_context C (push_frame C C ls rs Stack) \<longleftrightarrow> one_context C Stack"
  by (auto simp: one_context_def push_frame_def)

lemma follow_Com_Some:
  "own_context C (bindings s) \<Longrightarrow> cont_follow s C T = Some (C', T') \<Longrightarrow> cont_follow_Com s C T = Some T'"
proof -
  have "cont_follow s D T = Some p \<Longrightarrow> own_context C (bindings s) \<Longrightarrow> D = C \<Longrightarrow> cont_follow_Com s C T = Some (snd p)" for D p
  proof (induction rule: cont_follow.raw_induct [rotated, consumes 1, case_names step])
    case (step follow s D T p)
    have "cont_ContextBindingContext C x s = C" if "cont_ContextBindingTerm C x s = Some T'" for x T'
      using step.prems(1) that by (auto simp: own_context_def bindings_def)
    then show ?case using step by (subst cont_follow_Com.simps) (auto split: if_splits option.splits)
  qed
  then show "own_context C (bindings s) \<Longrightarrow> cont_follow s C T = Some (C', T') \<Longrightarrow> cont_follow_Com s C T = Some T'" by fastforce
qed

lemma visit_Com_own:
  assumes "visit_Com same B s C L C R = Some (unify_Next B' s')" "own_context C (bindings s)"
  shows "own_context C (bindings s')"
  using assms own_context_bind
  by (auto simp: visit_Com_def unify_visit_Com_def bind_eq_Some_iff split: if_splits)

lemma unify_loop_Com_eq:
  assumes "unify_loop visit same' B s CL L CR R Stack = Some r" "visit = visit_Com" "own_context C (bindings s)"
    "CL = C" "CR = C" "one_context C Stack" "\<forall>s L R Stack. same' (s, C, L, C, R, Stack) = same (s, C, L, C, R, Stack)"
  shows "unify_loop_Com same s C L R Stack = Some r"
  using assms
proof (induction rule: unify_loop.raw_induct [rotated, consumes 1, case_names step])
  case (step loop visit same' B s CL L CR R Stack r)
  obtain CL' L' CR' R' n where f: "cont_follow s C L = Some (CL', L')" "cont_follow s C R = Some (CR', R')"
    "visit_Com (same' (s, CL', L', CR', R', Stack)) B s CL' L' CR' R' = Some n"
    using step.hyps step.prems by (auto simp: bind_eq_Some_iff)
  have C': "CL' = C" "CR' = C" using follow_own [OF step.prems(2)] f by blast+
  have n: "unify_visit_Com (same (s, C, L', C, R', Stack)) s C L' R' = Some n"
    using f(3) step.prems(6) by (simp add: C' visit_Com_def)
  note IH = step.IH [OF _ step.prems(1)]
  show ?case
  proof (cases n)
    case (unify_False s')
    then show ?thesis
      using step.hyps step.prems f n C' by (subst unify_loop_Com.simps) (simp add: follow_Com_Some [OF step.prems(2)])
  next
    case unify_Descend
    then show ?thesis
      using step.hyps step.prems f n C'
      by (subst unify_loop_Com.simps) (auto simp: follow_Com_Some [OF step.prems(2)] split: list.splits intro: IH)
  next
    case (unify_Next B' s')
    then have own: "own_context C (bindings s')" using visit_Com_own [of _ B s C L' R' B' s'] f(3) step.prems(2) C' by blast
    then show ?thesis
      using step.hyps step.prems f n C' unify_Next
      by (subst unify_loop_Com.simps)
        (auto simp: follow_Com_Some [OF step.prems(2)] split: list.splits prod.splits intro: IH)
  qed
qed

definition same_node :: "(unify_point \<Rightarrow> bool) \<Rightarrow> bool" where
  "same_node same \<longleftrightarrow> (\<forall>s CL L CR R Stack. same (s, CL, L, CR, R, Stack) \<longrightarrow> L = R)"

lemma unify_UnifyCom_ok:
  assumes "env_ok ar (bindings s)" "own_context C (bindings s)" "term_ok ar L" "term_ok ar R" "same_node same"
  shows "\<exists>b s'. unify_UnifyCom same s C L R = Some (b, s') \<and> unified ar s [((C, L), (C, R))] b s' \<and> own_context C (bindings s')"
proof -
  let ?U = "env_vars (bindings s) \<union> tvars C L \<union> tvars C R"
  let ?same = "\<lambda>(s, CL, L, CR, R, Stack). same (s, CL, L, CR, R, Stack) \<and> CL = CR"
  have "finite ?U" using assms(1) env_vars_finite by (auto simp: env_ok_def)
  moreover obtain r \<theta> where "resolved \<theta> (bindings s)" using env_ok_resolved [OF assms(1)] by blast
  moreover have "\<forall>\<sigma>. equal_pair \<sigma> ((CL, L), (CR, R))" if "?same (s, CL, L, CR, R, Stack)" for s CL L CR R Stack
  proof -
    have "same (s, CL, L, CR, R, Stack)" "CL = CR" using that by (simp only: case_prod_conv)+
    moreover have "L = R" using calculation(1) assms(5) unfolding same_node_def by blast
    ultimately show ?thesis by (simp add: equal_pair_def)
  qed
  ultimately have "\<exists>b s'. unify_loop visit_Com ?same False s C L C R [] = Some (b, s')
      \<and> unified ar s [((C, L), (C, R))] b s' \<and> own_context C (bindings s')"
    using com.loop_ok [of ?U ?same ar s C \<theta> C L C R "[]" False] assms(1-4) by (auto simp: pair_ok_def)
  then obtain b s' where *: "unify_loop visit_Com ?same False s C L C R [] = Some (b, s')"
    "unified ar s [((C, L), (C, R))] b s'" "own_context C (bindings s')" by blast
  have "unify_loop_Com same s C L R [] = Some (b, s')"
    by (rule unify_loop_Com_eq [OF *(1) refl assms(2) refl refl]) simp_all
  then show ?thesis using *(2,3) by (auto simp: unify_UnifyCom_def)
qed

section \<open>The recursive function\<close>

definition unified_in ::
  "(CONTEXT \<times> SYMBOL) set \<Rightarrow> (SYMBOL \<Rightarrow> nat) \<Rightarrow> cont_state \<Rightarrow> unify_pair list \<Rightarrow> (bool \<times> cont_state) option \<Rightarrow> bool" where
  "unified_in U ar s ps r \<longleftrightarrow> (\<exists>b s'. r = Some (b, s') \<and> unified ar s ps b s' \<and> env_vars (bindings s') \<subseteq> U)"

lemma unified_inI: "r = Some (b, s') \<Longrightarrow> unified ar s ps b s' \<Longrightarrow> env_vars (bindings s') \<subseteq> U \<Longrightarrow> unified_in U ar s ps r"
  by (auto simp: unified_in_def)

lemma cont_extends_dom:
  assumes "cont_extends s s'" "env_vars (bindings s') \<subseteq> U" "finite U"
  shows "s' = s \<or> card (U - dom (bindings s')) < card (U - dom (bindings s))"
proof -
  have "s' = s \<or> dom (bindings s) \<subset> dom (bindings s')"
    using assms(1)
  proof (induction rule: cont_extends.induct)
    case (binding s' C x C' T)
    have "dom (bindings (snd (cont_CreateBinding C x C' (Some T) s'))) = insert (C, x) (dom (bindings s'))" by simp
    moreover have "(C, x) \<notin> dom (bindings s')" using binding.hyps(2) by (simp add: domIff)
    ultimately show ?case using binding.IH by (metis insertI1 psubsetI subset_insertI subset_insertI2 psubsetE)
  qed simp
  moreover have "dom (bindings s') \<subseteq> U" using assms(2) by (auto simp: env_vars_def)
  ultimately show ?thesis using assms(3) psubset_card_mono [of "U - dom (bindings s)" "U - dom (bindings s')"] by blast
qed

lemma unified_append:
  "unified ar s ps True s1 \<Longrightarrow> unified ar s1 qs b s' \<Longrightarrow> unified ar s (ps @ qs) b s'"
  using cont_extends_trans [of s s1 s'] unfolding unified_def by (cases b) (auto simp: ball_Un)

lemma unified_append_fail: "unified ar s ps False s1 \<Longrightarrow> unified ar s (ps @ qs) False s1"
  unfolding unified_def by (auto simp: ball_Un)

lemma args_loop_unified:
  assumes "length ls = length rs" "finite U"
    and "\<And>s' l r. l \<in> set ls \<Longrightarrow> r \<in> set rs \<Longrightarrow> env_ok ar (bindings s') \<Longrightarrow> env_vars (bindings s') \<subseteq> U
      \<Longrightarrow> s' = s \<or> card (U - dom (bindings s')) < card (U - dom (bindings s)) \<Longrightarrow> unified_in U ar s' [((CL, l), (CR, r))] (f s' l r)"
    and "env_ok ar (bindings s0)" "env_vars (bindings s0) \<subseteq> U" "s0 = s \<or> card (U - dom (bindings s0)) < card (U - dom (bindings s))"
  shows "unified_in U ar s0 (pairs CL CR ls rs) (args_loop f s0 ls rs)"
  using assms
proof (induction ls rs arbitrary: s0 rule: list_induct2)
  case Nil
  then show ?case by (auto simp: unified_in_def unified_Nil)
next
  case (Cons l ls r rs)
  then have "unified_in U ar s0 [((CL, l), (CR, r))] (f s0 l r)" by simp
  then obtain b s1 where f: "f s0 l r = Some (b, s1)" "unified ar s0 [((CL, l), (CR, r))] b s1" "env_vars (bindings s1) \<subseteq> U"
    by (auto simp: unified_in_def)
  show ?case
  proof (cases b)
    case False
    then show ?thesis using f unified_append_fail [of ar s0 "[((CL, l), (CR, r))]" s1 "pairs CL CR ls rs"]
      by (auto simp: unified_in_def)
  next
    case True
    have s1: "env_ok ar (bindings s1)" "cont_extends s0 s1" using f(2) by (auto simp: unified_def)
    then have "s1 = s \<or> card (U - dom (bindings s1)) < card (U - dom (bindings s))"
      using cont_extends_dom [OF s1(2) f(3) Cons.prems(1)] Cons.prems(5) by auto
    then have "unified_in U ar s1 (pairs CL CR ls rs) (args_loop f s1 ls rs)"
      using Cons.prems(1,2) s1(1) f(3) by (intro Cons.IH) auto
    then show ?thesis using True f unified_append [of ar s0 "[((CL, l), (CR, r))]" s1 "pairs CL CR ls rs"]
      by (auto simp: unified_in_def)
  qed
qed

lemma unified_bind:
  assumes "good_binding ar s \<theta> p s'" "env_ok ar (bindings s)" "resolved \<theta> (bindings s)" "pair_ok ar U p" "env_vars (bindings s) \<subseteq> U" "finite U"
  shows "unified ar s [p] True s' \<and> env_vars (bindings s') \<subseteq> U"
  using good_binding_facts [OF assms] by (auto simp: unified_def)

lemma AllOC_visit:
  assumes "env_ok ar (bindings s)" "resolved \<theta> (bindings s)" "pair_ok ar U ((CL, L), (CR, R))" "env_vars (bindings s) \<subseteq> U" "finite U"
    "term_IsVariable L \<Longrightarrow> bindings s (CL, term_TopSymbol L) = None" "term_IsVariable R \<Longrightarrow> bindings s (CR, term_TopSymbol R) = None"
    "term_IsVariable L \<or> term_IsVariable R"
  shows "unified_in U ar s [((CL, L), (CR, R))] (unify_UnifyAllOC I s CL L CR R)"
proof -
  have fL: "cont_follow s CL L = Some (CL, L)" using assms(6) by (subst follow_unfold) simp
  have fR: "cont_follow s CR R = Some (CR, R)" using assms(7) by (subst follow_unfold) simp
  have ok: "term_ok ar L" "term_ok ar R" using assms(3) by (simp_all add: pair_ok_def)
  let ?vL = "(CL, term_TopSymbol L)" and ?vR = "(CR, term_TopSymbol R)"
  have L: "app \<theta> CL L = GVar ?vL" if "term_IsVariable L" by (rule app_var [OF assms(2) that assms(6) [OF that]])
  have R: "app \<theta> CR R = GVar ?vR" if "term_IsVariable R" by (rule app_var [OF assms(2) that assms(7) [OF that]])
  note bind = unified_bind [OF _ assms(1,2,3,4,5)]
  note fail = unified_inI [OF _ unified_fail [OF assms(1)] assms(4)]
  consider (vv) "term_IsVariable L" "term_IsVariable R" | (vt) "term_IsVariable L" "\<not> term_IsVariable R"
    | (tv) "\<not> term_IsVariable L" "term_IsVariable R" using assms(8) by blast
  then show ?thesis
  proof cases
    case vv
    show ?thesis
    proof (cases "?vL = ?vR")
      case True
      then have "unified ar s [((CL, L), (CR, R))] True s"
        using vv assms(1) by (auto simp: unified_def equal_pair_def app_eq cont_extends.nothing)
      then show ?thesis using vv True assms(4) fL fR
        by (intro unified_inI [of _ True s]) (subst unify_UnifyAllOC.simps, simp_all add: term_EqualTopSymbols_def symbol_Equal_def)
    next
      case False
      have "?vR \<notin> gvars (app \<theta> CL L)" "?vL \<notin> gvars (app \<theta> CR R)" using L [OF vv(1)] R [OF vv(2)] False by auto
      note g = bind [OF bind_var(2) [OF assms(2) vv(2) assms(7) [OF vv(2)] ok(1) this(1)]]
        bind [OF bind_var(1) [OF assms(2) vv(1) assms(6) [OF vv(1)] ok(2) this(2)]]
      show ?thesis using vv False g fL fR
        by (subst unify_UnifyAllOC.simps) (auto simp: unified_in_def term_EqualTopSymbols_def symbol_Equal_def)
    qed
  next
    case vt
    note oc = OccurCheck_ok [OF assms(1,2) assms(6) [OF vt(1)] ok(2), of CR]
    show ?thesis
    proof (cases "?vL \<in> gvars (app \<theta> CR R)")
      case True
      then show ?thesis using vt oc fL fR
        by (intro fail occurs_fail(1) [OF assms(1,2) vt True]) (subst unify_UnifyAllOC.simps, simp)
    next
      case False
      note g = bind [OF bind_var(1) [OF assms(2) vt(1) assms(6) [OF vt(1)] ok(2) False]]
      show ?thesis using vt False oc g fL fR by (subst unify_UnifyAllOC.simps) (auto simp: unified_in_def)
    qed
  next
    case tv
    note oc = OccurCheck_ok [OF assms(1,2) assms(7) [OF tv(2)] ok(1), of CL]
    show ?thesis
    proof (cases "?vR \<in> gvars (app \<theta> CL L)")
      case True
      then show ?thesis using tv oc fL fR
        by (intro fail occurs_fail(2) [OF assms(1,2) tv(2,1) True]) (subst unify_UnifyAllOC.simps, simp)
    next
      case False
      note g = bind [OF bind_var(2) [OF assms(2) tv(2) assms(7) [OF tv(2)] ok(1) False]]
      show ?thesis using tv False oc g fL fR by (subst unify_UnifyAllOC.simps) (auto simp: unified_in_def)
    qed
  qed
qed

lemma follow_idem: "cont_follow s C T = Some (C', T') \<Longrightarrow> cont_follow s C' T' = Some (C', T')"
proof -
  have "cont_follow s C T = Some p \<Longrightarrow> cont_follow s (fst p) (snd p) = Some p" for p
  proof (induction rule: cont_follow.raw_induct [rotated, consumes 1, case_names step])
    case (step follow s C T p)
    show ?case
    proof (cases "term_IsVariable T \<and> cont_ContextBindingTerm C (term_TopSymbol T) s \<noteq> None")
      case True
      then show ?thesis using step by auto
    next
      case False
      then have "p = (C, T)" using step.hyps by (auto split: if_splits)
      then show ?thesis using False by (subst cont_follow.simps) auto
    qed
  qed
  then show "cont_follow s C T = Some (C', T') \<Longrightarrow> cont_follow s C' T' = Some (C', T')" by fastforce
qed

lemma AllOC_follow:
  "cont_follow s CL L = Some (CL', L') \<Longrightarrow> cont_follow s CR R = Some (CR', R')
     \<Longrightarrow> unify_UnifyAllOC I s CL L CR R = unify_UnifyAllOC I s CL' L' CR' R'"
  by (simp add: unify_UnifyAllOC.simps [of I s CL L CR R] unify_UnifyAllOC.simps [of I s CL' L' CR' R'] follow_idem)

lemma unify_UnifyAllOC_ok:
  assumes "finite U" "env_ok ar (bindings s)" "resolved \<theta> (bindings s)" "env_vars (bindings s) \<subseteq> U" "pair_ok ar U ((CL, L), (CR, R))"
  shows "unified_in U ar s [((CL, L), (CR, R))] (unify_UnifyAllOC I s CL L CR R)"
  using assms(2-)
proof (induction "card (U - dom (bindings s))" arbitrary: s \<theta> CL L CR R rule: less_induct)
  case outer: less
  note env = outer.prems(1) and res = outer.prems(2) and vars = outer.prems(3)
  show ?case
    using outer.prems(4)
  proof (induction "gsize (app \<theta> CL L)" arbitrary: CL L CR R rule: less_induct)
    case inner: less
    have ok: "term_ok ar L" "term_ok ar R" "tvars CL L \<subseteq> U" "tvars CR R \<subseteq> U"
      using inner.prems by (simp_all add: pair_ok_def)
    obtain CL' L' where fL: "cont_follow s CL L = Some (CL', L')" "term_ok ar L'"
      "\<And>\<sigma>. solves \<sigma> (bindings s) \<Longrightarrow> app \<sigma> CL' L' = app \<sigma> CL L"
      "term_IsVariable L' \<Longrightarrow> bindings s (CL', term_TopSymbol L') = None" "tvars CL' L' \<subseteq> tvars CL L \<union> env_vars (bindings s)"
      by (rule follow_ok [OF env ok(1), of CL]) (rule that; blast)
    obtain CR' R' where fR: "cont_follow s CR R = Some (CR', R')" "term_ok ar R'"
      "\<And>\<sigma>. solves \<sigma> (bindings s) \<Longrightarrow> app \<sigma> CR' R' = app \<sigma> CR R"
      "term_IsVariable R' \<Longrightarrow> bindings s (CR', term_TopSymbol R') = None" "tvars CR' R' \<subseteq> tvars CR R \<union> env_vars (bindings s)"
      by (rule follow_ok [OF env ok(2), of CR]) (rule that; blast)
    let ?p = "((CL', L'), (CR', R'))"
    have p: "pair_ok ar U ?p" using fL(2,5) fR(2,5) ok(3,4) vars by (auto simp: pair_ok_def)
    have "unified_in U ar s [?p] (unify_UnifyAllOC I s CL' L' CR' R')"
    proof (cases "term_IsVariable L' \<or> term_IsVariable R'")
      case True
      show ?thesis by (rule AllOC_visit [OF env res p vars assms(1) fL(4) fR(4) True])
    next
      case False
      then have nv: "\<not> term_IsVariable L'" "\<not> term_IsVariable R'" by simp_all
      have fl: "cont_follow s CL' L' = Some (CL', L')" "cont_follow s CR' R' = Some (CR', R')"
        using follow_idem fL(1) fR(1) by blast+
      show ?thesis
      proof (cases "term_EqualTopSymbols L' R'")
        case False
        then show ?thesis using nv fl
          by (intro unified_inI [OF _ unified_fail [OF env clash_pair [OF nv False]] vars]) (subst unify_UnifyAllOC.simps, simp)
      next
        case True
        then have top: "term_TopSymbol L' = term_TopSymbol R'" by (simp add: term_EqualTopSymbols_def symbol_Equal_def)
        have len: "length (term_ArgumentList L') = length (term_ArgumentList R')"
          using nv top term_ok_length(1) [OF fL(2)] term_ok_length(1) [OF fR(2)] by simp
        have args: "unified_in U ar s (pairs CL' CR' (term_ArgumentList L') (term_ArgumentList R'))
          (args_loop (\<lambda>s l r. unify_UnifyAllOC I s CL' l CR' r) s (term_ArgumentList L') (term_ArgumentList R'))"
        proof (rule args_loop_unified [OF len assms(1) _ env vars])
          fix s' l r
          assume *: "l \<in> set (term_ArgumentList L')" "r \<in> set (term_ArgumentList R')" "env_ok ar (bindings s')" "env_vars (bindings s') \<subseteq> U"
            "s' = s \<or> card (U - dom (bindings s')) < card (U - dom (bindings s))"
          have sub: "pair_ok ar U ((CL', l), (CR', r))"
            using p * term_ok_arg [OF fL(2) *(1)] term_ok_arg [OF fR(2) *(2)] nv
            by (auto simp: pair_ok_def tvars_eq [of CL' L'] tvars_eq [of CR' R'])
          from *(5) show "unified_in U ar s' [((CL', l), (CR', r))] (unify_UnifyAllOC I s' CL' l CR' r)"
          proof
            assume "s' = s"
            moreover have "gsize (app \<theta> CL' l) < gsize (app \<theta> CL L)"
              using gsize_arg [OF nv(1) *(1), of \<theta> CL'] fL(3) [OF resolvedD(1) [OF res]] by simp
            ultimately show ?thesis using inner.hyps [OF _ sub] by simp
          next
            assume less: "card (U - dom (bindings s')) < card (U - dom (bindings s))"
            obtain r' \<theta>' where "resolved \<theta>' (bindings s')" using env_ok_resolved [OF *(3)] by blast
            from outer.hyps [OF less *(3) this *(4) sub] show ?thesis .
          qed
        qed simp
        have eq: "unified ar s (pairs CL' CR' (term_ArgumentList L') (term_ArgumentList R')) b s' \<Longrightarrow> unified ar s [?p] b s'" for b s'
          by (erule unified_replace) (simp add: equal_pair_args [OF nv top len])
        show ?thesis
        proof (cases "term_IsComplex L'")
          case complex: True
          show ?thesis using args eq nv True complex fl
            by (subst unify_UnifyAllOC.simps) (auto simp: unified_in_def)
        next
          case False
          then have "pairs CL' CR' (term_ArgumentList L') (term_ArgumentList R') = []" by (simp add: leaf_def pairs_def)
          then have "unified ar s [?p] True s" using eq unified_Nil [OF env] by simp
          then show ?thesis using nv True False fl vars
            by (subst unify_UnifyAllOC.simps) (auto simp: unified_in_def)
        qed
      qed
    qed
    then obtain b s' where r: "unify_UnifyAllOC I s CL' L' CR' R' = Some (b, s')" "unified ar s [?p] b s'" "env_vars (bindings s') \<subseteq> U"
      by (auto simp: unified_in_def)
    have "unified ar s [((CL, L), (CR, R))] b s'"
      by (rule unified_replace [OF r(2)]) (simp add: equal_pair_def fL(3) fR(3))
    then show ?case using r(1,3) AllOC_follow [OF fL(1) fR(1)] by (auto simp: unified_in_def)
  qed
qed

end
