(* ===== verification/Spass_Unify_Properties.thy ===== *)
theory Spass_Unify_Properties
  imports Spass_Unify_Correct
begin

text \<open>
  What the unification functions promise, stated without the bookkeeping of their proofs: they return,
  they answer \<open>TRUE\<close> when the terms have a unifier below the bindings of the state, the bindings they
  leave are a most general one, and backtracking takes them away.
\<close>

declare split_paired_All [simp del] split_paired_Ex [simp del]

definition unifies :: "cont_state \<Rightarrow> CONTEXT \<Rightarrow> TERM_NODE \<Rightarrow> CONTEXT \<Rightarrow> TERM_NODE \<Rightarrow> (CONTEXT \<times> SYMBOL \<Rightarrow> gterm) \<Rightarrow> bool" where
  "unifies s CL L CR R \<sigma> \<longleftrightarrow> solves \<sigma> (bindings s) \<and> app \<sigma> CL L = app \<sigma> CR R"

definition most_general :: "cont_state \<Rightarrow> CONTEXT \<Rightarrow> TERM_NODE \<Rightarrow> CONTEXT \<Rightarrow> TERM_NODE \<Rightarrow> (CONTEXT \<times> SYMBOL \<Rightarrow> gterm) \<Rightarrow> bool" where
  "most_general s CL L CR R \<theta> \<longleftrightarrow> unifies s CL L CR R \<theta> \<and> (\<forall>\<sigma>. unifies s CL L CR R \<sigma> \<longrightarrow> (\<forall>v. \<sigma> v = gsub \<sigma> (\<theta> v)))"

text \<open>The answer is whether there is a unifier; after \<open>TRUE\<close> the bindings of the new state resolve to a
  most general one, and copying either term with the bindings applied gives the same term.\<close>

definition unify_result ::
  "(SYMBOL \<Rightarrow> nat) \<Rightarrow> cont_state \<Rightarrow> CONTEXT \<Rightarrow> TERM_NODE \<Rightarrow> CONTEXT \<Rightarrow> TERM_NODE \<Rightarrow> bool \<Rightarrow> cont_state \<Rightarrow> bool" where
  "unify_result ar s CL L CR R b s' \<longleftrightarrow> cont_extends s s' \<and> env_ok ar (bindings s') \<and> (b \<longleftrightarrow> (\<exists>\<sigma>. unifies s CL L CR R \<sigma>))
     \<and> (b \<longrightarrow> (\<exists>\<theta> T. resolved \<theta> (bindings s') \<and> most_general s CL L CR R \<theta>
           \<and> cont_CopyAndApplyBindings s' CL L = Some T \<and> cont_CopyAndApplyBindings s' CR R = Some T))"

lemma unified_result:
  assumes "unified ar s [((CL, L), (CR, R))] b s'" "term_ok ar L" "term_ok ar R"
  shows "unify_result ar s CL L CR R b s'"
proof -
  have E: "cont_extends s s'" "env_ok ar (bindings s')" using assms(1) by (simp_all add: unified_def)
  obtain r \<theta> where \<theta>: "ranked r (bindings s')" "resolved \<theta> (bindings s')" using env_ok_resolved [OF E(2)] by blast
  show ?thesis
  proof (cases b)
    case True
    then have sol: "solves \<sigma> (bindings s') \<longleftrightarrow> unifies s CL L CR R \<sigma>" for \<sigma>
      using assms(1) by (simp add: unified_def unifies_def equal_pair_def)
    have u: "unifies s CL L CR R \<theta>" using sol resolvedD(1) [OF \<theta>(2)] by blast
    moreover have "most_general s CL L CR R \<theta>"
      using u solves_resolved [OF \<theta>] sol by (auto simp: most_general_def)
    moreover have "cont_CopyAndApplyBindings s' CR R = cont_CopyAndApplyBindings s' CL L"
      using u CopyAndApply_ok [OF E(2) \<theta>(2)] assms(2,3) by (simp add: unifies_def)
    ultimately show ?thesis using True E \<theta>(2) CopyAndApply_ok [OF E(2) \<theta>(2) assms(2)]
      unfolding unify_result_def by auto
  next
    case False
    then show ?thesis using assms(1) E by (auto simp: unify_result_def unified_def unifies_def equal_pair_def)
  qed
qed

lemma unified_in_AllOC:
  assumes "env_ok ar (bindings s)" "term_ok ar L" "term_ok ar R"
  shows "\<exists>b s'. unify_UnifyAllOC IndexContext s CL L CR R = Some (b, s') \<and> unify_result ar s CL L CR R b s'"
proof -
  let ?U = "env_vars (bindings s) \<union> tvars CL L \<union> tvars CR R"
  obtain r \<theta> where "resolved \<theta> (bindings s)" using env_ok_resolved [OF assms(1)] by blast
  then have "unified_in ?U ar s [((CL, L), (CR, R))] (unify_UnifyAllOC IndexContext s CL L CR R)"
    using assms env_vars_finite by (intro unify_UnifyAllOC_ok) (auto simp: env_ok_def pair_ok_def)
  then show ?thesis using unified_result assms(2,3) by (auto simp: unified_in_def)
qed

text \<open>C10: \<open>unify_UnifyAllOC\<close>, on bindings without cycles, returns; its answer is whether the two terms have
  a unifier below the bindings, and the bindings it leaves are a most general unifier that makes the
  copies of the two terms equal.\<close>
theorem unify_UnifyAllOC_correct:
  assumes "env_ok ar (bindings s)" "term_ok ar L" "term_ok ar R"
  shows "\<exists>b s'. unify_UnifyAllOC IndexContext s CL L CR R = Some (b, s') \<and> unify_result ar s CL L CR R b s'"
  by (rule unified_in_AllOC [OF assms])

text \<open>C11: \<open>unify_UnifyCom\<close>, on one context whose bindings stay in it, does the same, whatever terms share
  an address.\<close>
theorem unify_UnifyCom_correct:
  assumes "env_ok ar (bindings s)" "own_context C (bindings s)" "term_ok ar L" "term_ok ar R" "same_node same"
  shows "\<exists>b s'. unify_UnifyCom same s C L R = Some (b, s') \<and> unify_result ar s C L C R b s' \<and> own_context C (bindings s')"
  using unify_UnifyCom_ok [OF assms] unified_result assms(3,4) by blast

text \<open>C12: \<open>unify_Unify\<close> does the same when the values of the terms share no variable, as terms in two fresh
  contexts do, and terms at one address are in one context or have no variables; \<open>unify_UnifyNoOC\<close>, which
  has no occurs check, when the terms are known to have a unifier.\<close>
theorem unify_Unify_correct:
  assumes "env_ok ar (bindings s)" "0 \<le> cont_BINDINGS s" "term_ok ar L" "term_ok ar R" "same_Unify same"
  shows "(\<forall>\<theta>. resolved \<theta> (bindings s) \<and> gvars (app \<theta> CL L) \<inter> gvars (app \<theta> CR R) = {}
        \<longrightarrow> (\<exists>b s'. unify_Unify same s CL L CR R = Some (b, s') \<and> unify_result ar s CL L CR R b s'))
    \<and> (\<forall>\<sigma>. unifies s CL L CR R \<sigma>
        \<longrightarrow> (\<exists>s'. unify_UnifyNoOC same s CL L CR R = Some (True, s') \<and> unify_result ar s CL L CR R True s'))"
proof (intro conjI allI impI)
  fix \<theta> assume "resolved \<theta> (bindings s) \<and> gvars (app \<theta> CL L) \<inter> gvars (app \<theta> CR R) = {}"
  then show "\<exists>b s'. unify_Unify same s CL L CR R = Some (b, s') \<and> unify_result ar s CL L CR R b s'"
    using unify_Unify_ok [OF assms(1,2) _ assms(3,4)] assms(5) unified_result [OF _ assms(3,4)] by blast
next
  fix \<sigma> assume "unifies s CL L CR R \<sigma>"
  then show "\<exists>s'. unify_UnifyNoOC same s CL L CR R = Some (True, s') \<and> unify_result ar s CL L CR R True s'"
    using unify_UnifyNoOC_ok [OF assms(1,3,4,5)] unified_result [OF _ assms(3,4)] unfolding unifies_def by blast
qed

lemma StartBinding_bindings: "cont_StartBinding s = Some s1 \<Longrightarrow> bindings s1 = bindings s"
  by (auto simp: cont_StartBinding_def cont_StackPush_def cont_StackRplacNth_def bindings_def access_defs fun_eq_iff
      split: if_splits)

text \<open>C13: whatever a unification after \<open>cont_StartBinding\<close> answers, \<open>cont_BackTrack\<close> restores the state, apart
  from the stack entry above the top in which the number of bindings was kept.\<close>
theorem unify_BackTrack_roundtrip:
  assumes "cont_StartBinding s = Some s1" "unbound_clean s" "env_ok ar (bindings s)" "term_ok ar L" "term_ok ar R"
    "own_context C (bindings s)" "same_node same"
  defines "restored \<equiv> s\<lparr>cont_STACK := (cont_STACK s)(cont_STACKPOINTER s := cont_BINDINGS s)\<rparr>"
  shows "(\<exists>b s2. unify_UnifyAllOC IndexContext s1 CL L CR R = Some (b, s2) \<and> cont_BackTrack s2 = Some restored)
    \<and> (\<exists>b s2. unify_UnifyCom same s1 C L R = Some (b, s2) \<and> cont_BackTrack s2 = Some restored)"
proof -
  note s1 = StartBinding_bindings [OF assms(1)]
  have undo: "cont_BackTrack s2 = Some restored" if "unify_result ar s1 C1 L C2 R b s2" for C1 C2 b s2
    using cont_BackTrack_extends [OF assms(1) _ assms(2)] that by (simp add: unify_result_def restored_def)
  obtain b s2 where "unify_UnifyAllOC IndexContext s1 CL L CR R = Some (b, s2)" "unify_result ar s1 CL L CR R b s2"
    using unified_in_AllOC [of ar s1 L R IndexContext CL CR] assms s1 by auto
  moreover obtain b' s2' where "unify_UnifyCom same s1 C L R = Some (b', s2')" "unified ar s1 [((C, L), (C, R))] b' s2'"
    using unify_UnifyCom_ok [of ar s1 C L R same] assms s1 by auto
  ultimately show ?thesis using undo unified_result [OF _ assms(4,5)] by blast
qed

text \<open>C14: \<open>unify_Unify\<close> skips two terms at one address although their variables are in different contexts:
  below empty contexts it answers \<open>TRUE\<close> for a shared term with variables and binds nothing, so the
  bindings it leaves do not unify the terms.\<close>
theorem unify_Unify_shared_term:
  assumes "bindings s = (\<lambda>v. None)" "same (s, CL, T, CR, T, [])" "\<not> term_IsVariable T" "term_IsComplex T"
    "tvars CL T \<noteq> {}" "CL \<noteq> CR"
  shows "unify_Unify same s CL T CR T = Some (True, s)
    \<and> (\<exists>\<sigma>. solves \<sigma> (bindings s) \<and> app \<sigma> CL T \<noteq> app \<sigma> CR T)"
proof
  have f: "cont_follow s C T = Some (C, T)" for C using assms(3) by (subst follow_unfold) simp
  show "unify_Unify same s CL T CR T = Some (True, s)"
    unfolding unify_Unify_def using assms(2-4)
    by (subst unify_loop.simps) (simp add: f unify_visit_def term_EqualTopSymbols_def symbol_Equal_def)
  have g: "gvars (app GVar C T) = tvars C T" for C by (simp add: gvars_app)
  have ctx: "fst v = C" if "v \<in> tvars C T'" for v C T'
    using that by (induction C T' rule: tvars.induct) (auto split: if_splits)
  have "tvars CL T \<noteq> tvars CR T" using assms(5,6) ctx by blast
  then have "app GVar CL T \<noteq> app GVar CR T" using g by metis
  then show "\<exists>\<sigma>. solves \<sigma> (bindings s) \<and> app \<sigma> CL T \<noteq> app \<sigma> CR T" using assms(1) by (auto simp: solves_def)
qed

section \<open>Concrete terms\<close>

definition sample_cont :: cont_state where
  "sample_cont = \<lparr>cont_store = (\<lambda>C x. \<lparr>cont_BindingSymbol = x, cont_BindingRenaming = 0, cont_BindingTerm = None,
       cont_BindingContext = 0, cont_BindingLink = None\<rparr>),
     cont_LISTOFCONTEXTS = [2, 1], cont_NOOFCONTEXTS = 2, cont_LASTBINDING = None, cont_BINDINGS = 0,
     cont_STACK = (\<lambda>i. 0), cont_STACKPOINTER = 1, cont_LEFTCONTEXT = 1, cont_RIGHTCONTEXT = 2,
     cont_INSTANCECONTEXT = 3, cont_INDEXVARSCANNER = 2000, symbol_INDEXVARCOUNTER = 2000\<rparr>"

text \<open>\<open>f(x, x)\<close> and \<open>f(y, g(z))\<close>, with \<open>-5\<close> for \<open>f\<close>, \<open>-9\<close> for \<open>g\<close>.\<close>

definition sample_l :: TERM_NODE where
  "sample_l = term_Create (-5) [term_Create 1 [], term_Create 1 []]"
definition sample_r :: TERM_NODE where
  "sample_r = term_Create (-5) [term_Create 2 [], term_Create (-9) [term_Create 3 []]]"
definition sample_ar :: "SYMBOL \<Rightarrow> nat" where
  "sample_ar S = (if S = -5 then 2 else if S = -9 then 1 else 0)"

lemma sample_bindings: "bindings sample_cont = (\<lambda>v. None)"
  by (simp add: fun_eq_iff bindings_def sample_cont_def access_defs)

lemma sample_clean: "unbound_clean sample_cont"
  by (simp add: unbound_clean_def sample_cont_def access_defs symbol_Null_def)

lemma sample_pair: "term_ok sample_ar sample_l" "term_ok sample_ar sample_r"
  by (simp_all add: term_ok_def sample_l_def sample_r_def sample_ar_def term_Create_def term_IsVariable_def symbol_IsVariable_def)

lemma sample_env: "env_ok sample_ar (bindings sample_cont)"
  unfolding sample_bindings by (rule env_ok_empty)

lemma sample_own: "own_context C (bindings sample_cont)"
  by (simp add: own_context_def sample_bindings)

lemmas sample_facts = sample_env sample_pair

theorem unify_UnifyAllOC_correct_witness:
  "\<exists>b s'. unify_UnifyAllOC 0 sample_cont 1 sample_l 2 sample_r = Some (b, s') \<and> unify_result sample_ar sample_cont 1 sample_l 2 sample_r b s'"
  by (rule unify_UnifyAllOC_correct [OF sample_facts])

theorem unify_UnifyCom_correct_witness:
  "\<exists>b s'. unify_UnifyCom (\<lambda>_. False) sample_cont 1 sample_l sample_r = Some (b, s')
     \<and> unify_result sample_ar sample_cont 1 sample_l 1 sample_r b s' \<and> own_context 1 (bindings s')"
  by (rule unify_UnifyCom_correct [OF sample_env sample_own sample_pair]) (simp add: same_node_def)

theorem unify_Unify_correct_witness:
  "\<exists>b s'. unify_Unify (\<lambda>_. False) sample_cont 1 sample_l 2 sample_r = Some (b, s') \<and> unify_result sample_ar sample_cont 1 sample_l 2 sample_r b s'"
proof -
  have res: "resolved GVar (bindings sample_cont)" by (simp add: resolved_def solves_def sample_bindings)
  have apart: "gvars (app GVar 1 sample_l) \<inter> gvars (app GVar 2 sample_r) = {}"
    by (simp add: sample_l_def sample_r_def term_Create_def symbol_IsVariable_def)
  have "0 \<le> cont_BINDINGS sample_cont" "same_Unify (\<lambda>_. False)" by (simp_all add: sample_cont_def same_Unify_def)
  from conjunct1 [OF unify_Unify_correct [OF sample_env this(1) sample_pair this(2)]] show ?thesis
    using res apart by blast
qed

theorem unify_BackTrack_roundtrip_witness:
  "\<exists>s1 b s2. cont_StartBinding sample_cont = Some s1 \<and> unify_UnifyAllOC 0 s1 1 sample_l 2 sample_r = Some (b, s2)
     \<and> cont_BackTrack s2 = Some (sample_cont\<lparr>cont_STACK := (cont_STACK sample_cont)(cont_STACKPOINTER sample_cont := cont_BINDINGS sample_cont)\<rparr>)"
proof -
  obtain s1 where "cont_StartBinding sample_cont = Some s1"
    by (auto simp: cont_StartBinding_def cont_StackPush_def cont_StackRplacNth_def in_stack_def cont_STACKSIZE_def sample_cont_def)
  from conjunct1 [OF unify_BackTrack_roundtrip [OF this sample_clean sample_env sample_pair sample_own, of "\<lambda>_. False" 0 1 2]] this
  show ?thesis by (auto simp: same_node_def)
qed

theorem unify_Unify_shared_term_witness:
  "unify_Unify (\<lambda>_. True) sample_cont 1 sample_l 2 sample_l = Some (True, sample_cont)"
  by (rule conjunct1 [OF unify_Unify_shared_term [OF sample_bindings]])
    (simp_all add: sample_l_def term_Create_def term_IsVariable_def symbol_IsVariable_def leaf_def)

end
