(* ===== verification/Spass_Order_Context.thy ===== *)
theory Spass_Order_Context
  imports Spass_Order Spass_KBO_Context Spass_RPO_Context Spass_Unify_Properties
begin

text \<open>
  The comparisons of the order module below contexts (\<open>order.c\<close>): \<open>ord_ContCompare\<close>,
  \<open>ord_ContGreater\<close> and \<open>ord_ContGreaterSkolemSubst\<close>, on the two orders below contexts. They are
  shown to compare the terms that are read, and to find the two sides of a unification equal.
\<close>

declare split_paired_All [simp del] split_paired_Ex [simp del]

definition ord_ContCompare :: "ord_env \<Rightarrow> cont_state \<Rightarrow> CONTEXT \<Rightarrow> TERM_NODE \<Rightarrow> CONTEXT \<Rightarrow> TERM_NODE \<Rightarrow> ord_RESULT option" where
  "ord_ContCompare env s C1 T1 C2 T2 =
     (let Aux = ord_CheckDomPred (ord_table env) T1 T2 (ord_PRECEDENCE env)
      in if Aux \<noteq> ord_UNCOMPARABLE then Some Aux
         else (case ord_flag env of
           flag_ORDKBO \<Rightarrow> kbo_ContCompare s (ord_table env) (ord_PRECEDENCE env) C1 T1 C2 T2
         | flag_ORDRPOS \<Rightarrow> rpos_ContCompare s (ord_table env) (ord_PRECEDENCE env) C1 T1 C2 T2))"

definition ord_ContGreater :: "ord_env \<Rightarrow> cont_state \<Rightarrow> CONTEXT \<Rightarrow> TERM_NODE \<Rightarrow> CONTEXT \<Rightarrow> TERM_NODE \<Rightarrow> bool option" where
  "ord_ContGreater env s C1 T1 C2 T2 =
     (let Aux = ord_CheckDomPred (ord_table env) T1 T2 (ord_PRECEDENCE env)
      in if Aux \<noteq> ord_UNCOMPARABLE then Some (Aux = ord_GREATER_THAN)
         else (case ord_flag env of
           flag_ORDKBO \<Rightarrow> kbo_ContGreater s (ord_table env) (ord_PRECEDENCE env) C1 T1 C2 T2
         | flag_ORDRPOS \<Rightarrow> rpos_ContGreater s (ord_table env) (ord_PRECEDENCE env) C1 C1 T1 C2 C2 T2))"

text \<open>Here the test for dominating predicates is not made.\<close>

definition ord_ContGreaterSkolemSubst :: "ord_env \<Rightarrow> cont_state \<Rightarrow> CONTEXT \<Rightarrow> TERM_NODE \<Rightarrow> CONTEXT \<Rightarrow> TERM_NODE \<Rightarrow> bool option" where
  "ord_ContGreaterSkolemSubst env s C1 T1 C2 T2 =
     (case ord_flag env of
        flag_ORDKBO \<Rightarrow> kbo_ContGreaterSkolemSubst s (ord_table env) (ord_PRECEDENCE env) C1 T1 C2 T2
      | flag_ORDRPOS \<Rightarrow> rpos_ContGreaterSkolemSubst s (ord_table env) (ord_PRECEDENCE env) C1 C1 T1 C2 C2 T2)"

section \<open>The terms that are read under bindings without cycles\<close>

text \<open>The variables are those of contexts in which \<open>cont_Deref\<close> follows bindings, and none is an index
  variable.\<close>

definition followed :: "cont_state \<Rightarrow> (CONTEXT \<times> SYMBOL) set \<Rightarrow> bool" where
  "followed s V \<longleftrightarrow> (\<forall>v \<in> V. fst v \<noteq> cont_INSTANCECONTEXT s \<and> \<not> symbol_IsIndexVariable (snd v))"

lemma followed_mono: "followed s V \<Longrightarrow> W \<subseteq> V \<Longrightarrow> followed s W"
  by (auto simp: followed_def)

lemma deref_loop_follow:
  "cont_follow s C T = Some y \<Longrightarrow> followed s (tvars C T \<union> env_vars (bindings s)) \<Longrightarrow> deref_loop s C T = Some y"
proof (induction rule: cont_follow.raw_induct [rotated, consumes 1, case_names step])
  case (step f s C T y)
  show ?case
  proof (cases "term_IsVariable T")
    case False
    then show ?thesis using step.hyps by (subst deref_loop.simps) simp
  next
    case var: True
    have C: "C \<noteq> cont_INSTANCECONTEXT s" using step.prems var by (auto simp: followed_def tvars_eq)
    show ?thesis
    proof (cases "cont_ContextBindingTerm C (term_TopSymbol T) s")
      case None
      then show ?thesis using step.hyps var C by (subst deref_loop.simps) simp
    next
      case (Some T')
      let ?C = "cont_ContextBindingContext C (term_TopSymbol T) s"
      have "bindings s (C, term_TopSymbol T) = Some (?C, T')" using Some by (simp add: bindings_def)
      then have "tvars ?C T' \<subseteq> env_vars (bindings s)" by (rule env_varsI(1))
      then have "followed s (tvars ?C T' \<union> env_vars (bindings s))" using step.prems by (auto intro: followed_mono)
      then have "deref_loop s ?C T' = Some y" using step.hyps step.IH var Some by simp
      then show ?thesis using var Some C by (subst deref_loop.simps) simp
    qed
  qed
qed

lemma derefs_strip:
  assumes "env_ok ar (bindings s)" "resolved \<theta> (bindings s)" "term_ok ar T" "followed s (tvars C T \<union> env_vars (bindings s))"
  shows "derefs s G C T (strip (app \<theta> C T))"
  using assms(3,4)
proof (induction "gsize (app \<theta> C T)" arbitrary: C T rule: less_induct)
  case less
  obtain C' U where f: "cont_follow s C T = Some (C', U)" "term_ok ar U" "app \<theta> C' U = app \<theta> C T"
    "term_IsVariable U \<Longrightarrow> bindings s (C', term_TopSymbol U) = None" "tvars C' U \<subseteq> tvars C T \<union> env_vars (bindings s)"
    using follow_ok [OF assms(1) less.prems(1)] resolvedD(1) [OF assms(2)] by metis
  have fu: "followed s (tvars C' U \<union> env_vars (bindings s))" using f(5) less.prems(2) by (auto intro: followed_mono)
  have idx: "\<not> term_IsIndexVariable V" if "followed s (tvars D V)" for D V
    using that by (cases V) (auto simp: followed_def term_IsIndexVariable_def index_variable)
  have d: "cont_Deref s G C T = Some (C', U)"
    using idx [of C T] deref_loop_follow [OF f(1) less.prems(2)] followed_mono [OF less.prems(2)] by (simp add: cont_Deref_def)
  have args: "list_all2 (derefs s G C') (term_ArgumentList U) (map (\<lambda>t. strip (app \<theta> C' t)) (term_ArgumentList U))"
  proof (clarsimp simp: list_all2_conv_all_nth)
    fix i assume i: "i < length (term_ArgumentList U)"
    let ?t = "term_ArgumentList U ! i"
    have t: "?t \<in> set (term_ArgumentList U)" using i by simp
    then have nv: "\<not> term_IsVariable U" using term_ok_length(2) [OF f(2)] by (auto simp: leaf_def)
    have "tvars C' ?t \<subseteq> tvars C' U" using nv t by (auto simp: tvars_eq [of C' U])
    then have "followed s (tvars C' ?t \<union> env_vars (bindings s))" using fu by (auto intro: followed_mono)
    then show "derefs s G C' ?t (strip (app \<theta> C' ?t))"
      using less.hyps [of C' ?t] gsize_arg [OF nv t, of \<theta> C'] f(3) term_ok_arg [OF f(2) t] by simp
  qed
  have "strip (app \<theta> C T) = term_Create (term_TopSymbol U) (map (\<lambda>t. strip (app \<theta> C' t)) (term_ArgumentList U))"
  proof (cases "term_IsVariable U")
    case True
    then have "app \<theta> C' U = GVar (C', term_TopSymbol U)" using f(4) resolvedD(2) [OF assms(2)] by (simp add: app_eq [of \<theta> C' U])
    then show ?thesis using f(3) term_ok_length(2) [OF f(2) True] by simp
  next
    case False
    then have "app \<theta> C' U = GFun (term_TopSymbol U) (map (app \<theta> C') (term_ArgumentList U))" by (simp add: app_eq [of \<theta> C' U])
    then show ?thesis using f(3) by (simp add: comp_def)
  qed
  moreover have "\<not> term_IsIndexVariable U" using idx [of C' U] followed_mono [OF fu] by simp
  ultimately show ?case using derefs.node [OF d _ args] by simp
qed

section \<open>The comparison of the terms that are read\<close>

lemma CheckDomPred_cong:
  assumes "term_IsAtom T1 = term_IsAtom T1'" "term_IsAtom T1 \<Longrightarrow> term_TopSymbol T1 = term_TopSymbol T1'"
    "term_IsAtom T2 = term_IsAtom T2'" "term_IsAtom T2 \<Longrightarrow> term_TopSymbol T2 = term_TopSymbol T2'"
  shows "ord_CheckDomPred st T1 T2 P = ord_CheckDomPred st T1' T2' P"
  using assms by (auto simp: ord_CheckDomPred_def Let_def)

text \<open>A variable is not bound to an atom.\<close>

definition no_atom :: "TERM_NODE \<Rightarrow> TERM_NODE \<Rightarrow> bool" where
  "no_atom T T' \<longleftrightarrow> (term_IsVariable T \<longrightarrow> \<not> term_IsAtom T')"

lemma variable_not_atom: "term_IsVariable T \<Longrightarrow> \<not> term_IsAtom T"
  by (auto simp: term_IsVariable_def term_IsAtom_def symbol_IsVariable_def symbol_IsPredicate_def symbol_IsSignature_def)

lemma derefs_atom:
  assumes "derefs s G C T T'" "no_atom T T'"
  shows "term_IsAtom T = term_IsAtom T'" "term_IsAtom T \<Longrightarrow> term_TopSymbol T = term_TopSymbol T'"
proof -
  have "term_TopSymbol T = term_TopSymbol T'" if "\<not> term_IsVariable T"
  proof -
    have "cont_Deref s G C T = Some (C, T)" using that index_variable
      by (subst cont_Deref_def, subst deref_loop.simps) (auto simp: term_IsVariable_def term_IsIndexVariable_def)
    then show ?thesis using assms(1) by (auto elim: derefs_elim)
  qed
  then show "term_IsAtom T = term_IsAtom T'" "term_IsAtom T \<Longrightarrow> term_TopSymbol T = term_TopSymbol T'"
    using assms(2) variable_not_atom [of T] unfolding no_atom_def term_IsAtom_def by metis+
qed

lemma rpos_Greater_Compare:
  assumes "kbo_term st t" "kbo_term st u"
  shows "rpos_Greater st P t u False = map_option (\<lambda>r. r = ord_GREATER_THAN) (rpos_Compare st P t u)"
  using rpos_CompareAux_ok [OF kbo_term_arity [OF assms(1)] kbo_term_arity [OF assms(2)]
      kbo_term_var_leaf [OF assms(1)] kbo_term_var_leaf [OF assms(2)], of st P False]
  by (auto simp: rpos_Compare_def rpos_CompareAux_def rpos_Greater_def is_greater_def split: option.splits if_splits)

lemma ord_Cont_ok:
  assumes "derefs s C1 C1 T1 T1'" "derefs s C2 C2 T2 T2'" "kbo_term (ord_table env) T1'" "kbo_term (ord_table env) T2'"
    "no_atom T1 T1'" "no_atom T2 T2'"
  shows "ord_ContCompare env s C1 T1 C2 T2 = ord_Compare env T1' T2'
    \<and> ord_ContGreater env s C1 T1 C2 T2 = map_option (\<lambda>r. r = ord_GREATER_THAN) (ord_Compare env T1' T2')"
proof -
  note d = CheckDomPred_cong [OF derefs_atom [OF assms(1,5)] derefs_atom [OF assms(2,6)]]
  note ar = kbo_term_arity [OF assms(3)] kbo_term_arity [OF assms(4)]
  have k: "(\<exists>y. kbo_Compare (ord_table env) P T1' T2' = Some y)" for P using kbo_Compare_equal(1) [OF assms(3,4), of P] by simp
  show ?thesis using k [of "ord_PRECEDENCE env"]
    by (auto simp: ord_ContCompare_def ord_ContGreater_def ord_Compare_def ord_CompareAux_def Let_def d
        kbo_ContCompare_ok [OF assms(1-4)] kbo_ContGreater_def kbo_ContGreaterHelp_ok [OF assms(1-4)] kbo_Compare_def
        rpos_ContCompare_def rpos_ContCompareAux_ok [OF assms(1,2) ar] rpos_ContGreater_ok(1) [OF assms(1,2) ar]
        rpos_Greater_Compare [OF assms(3,4)] rpos_Compare_def split: flag_ORD.split)
qed

lemma ord_Skolem_ok:
  assumes "derefs s C1 C1 T1 T1'" "derefs s C2 C2 T2 T2'" "kbo_term (ord_table env) T1'" "kbo_term (ord_table env) T2'"
  shows "ord_ContGreaterSkolemSubst env s C1 T1 C2 T2 =
    (case ord_flag env of
       flag_ORDKBO \<Rightarrow> Some (kbo_CompareAux (ord_table env) (ord_PRECEDENCE env) T1' T2' True = Some ord_GREATER_THAN)
     | flag_ORDRPOS \<Rightarrow> rpos_Greater (ord_table env) (ord_PRECEDENCE env) T1' T2' False)"
  using rpos_ContGreater_ok(2) [OF assms(1,2) kbo_term_arity [OF assms(3)] kbo_term_arity [OF assms(4)]]
  by (simp add: ord_ContGreaterSkolemSubst_def kbo_ContGreaterSkolemSubst_def kbo_ContGreaterHelp_ok [OF assms] split: flag_ORD.split)

lemma ord_CompareEqual_refl: "kbo_term (ord_table env) t \<Longrightarrow> ord_CompareEqual env t t = Some True"
  by (simp add: ord_CompareEqual_def kbo_Equal rpos_Equal_canon [OF kbo_term_arity kbo_term_arity] split: flag_ORD.split)

lemma ord_unified_ok:
  assumes "env_ok ar (bindings s)" "term_ok ar L" "term_ok ar R"
    "followed s (tvars CL L \<union> tvars CR R \<union> env_vars (bindings s))"
    "unify_UnifyAllOC I s CL L CR R = Some (True, s')"
    "\<And>T. cont_CopyAndApplyBindings s' CL L = Some T \<Longrightarrow> kbo_term (ord_table env) T \<and> no_atom L T \<and> no_atom R T"
  shows "ord_ContCompare env s' CL L CR R = Some ord_EQUAL"
proof -
  let ?U = "env_vars (bindings s) \<union> tvars CL L \<union> tvars CR R"
  obtain r \<theta>0 where "resolved \<theta>0 (bindings s)" using env_ok_resolved [OF assms(1)] by blast
  then have "unified_in ?U ar s [((CL, L), (CR, R))] (unify_UnifyAllOC I s CL L CR R)"
    using assms env_vars_finite by (intro unify_UnifyAllOC_ok) (auto simp: env_ok_def pair_ok_def)
  then have u: "unified ar s [((CL, L), (CR, R))] True s'" "env_vars (bindings s') \<subseteq> ?U"
    using assms(5) by (auto simp: unified_in_def)
  have E: "cont_extends s s'" "env_ok ar (bindings s')" using u(1) by (simp_all add: unified_def)
  obtain r' \<theta> where \<theta>: "resolved \<theta> (bindings s')" using env_ok_resolved [OF E(2)] by blast
  have same: "app \<theta> CL L = app \<theta> CR R" using u(1) resolvedD(1) [OF \<theta>] by (auto simp: unified_def equal_pair_def)
  have "cont_INSTANCECONTEXT s' = cont_INSTANCECONTEXT s" using E(1) by (rule cont_extends_instance)
  then have f: "followed s' (tvars CL L \<union> tvars CR R \<union> env_vars (bindings s'))"
    using u(2) followed_mono [OF assms(4), of "tvars CL L \<union> tvars CR R \<union> env_vars (bindings s')"] by (auto simp: followed_def)
  let ?T = "strip (app \<theta> CL L)"
  have "derefs s' CL CL L ?T" "derefs s' CR CR R ?T"
    using derefs_strip [OF E(2) \<theta> assms(2) followed_mono [OF f], of CL CL]
      derefs_strip [OF E(2) \<theta> assms(3) followed_mono [OF f], of CR CR] same by auto
  moreover have T: "kbo_term (ord_table env) ?T" "no_atom L ?T" "no_atom R ?T"
    using assms(6) [OF CopyAndApply_ok [OF E(2) \<theta> assms(2)]] by simp_all
  ultimately have "ord_ContCompare env s' CL L CR R = ord_Compare env ?T ?T" using ord_Cont_ok by blast
  also have "\<dots> = Some ord_EQUAL" using ord_Compare_ok [OF T(1) T(1)] ord_CompareEqual_refl [OF T(1)] by blast
  finally show ?thesis .
qed

section \<open>Properties\<close>

text \<open>C24: with either order, on terms below contexts, \<open>ord_ContCompare\<close> answers what \<open>ord_Compare\<close> answers
  on the terms that are read when the bindings are followed, and \<open>ord_ContGreater\<close> whether that is
  greater: no instance has to be built to compare two instances. The terms that are read have to be well
  formed (as many arguments as the arity, variables below 2000), and neither of the two terms may be a
  variable that stands for an atom. Their weights need not fit in an \<open>int\<close>.\<close>

theorem ord_ContCompare_correct:
  assumes "derefs s C1 C1 T1 T1'" "derefs s C2 C2 T2 T2'" "kbo_term (ord_table env) T1'" "kbo_term (ord_table env) T2'"
    "no_atom T1 T1'" "no_atom T2 T2'"
  shows "ord_ContCompare env s C1 T1 C2 T2 = ord_Compare env T1' T2'
    \<and> ord_ContGreater env s C1 T1 C2 T2 = map_option (\<lambda>r. r = ord_GREATER_THAN) (ord_Compare env T1' T2')"
  by (rule ord_Cont_ok [OF assms])

text \<open>C25: \<open>ord_ContGreaterSkolemSubst\<close>, whose variables are meant as fresh constants, is the Skolem version
  of the Knuth-Bendix order on the terms that are read, but the plain version of the recursive path
  order: there the flag for constants is not used, and the dominating predicates are not tested.\<close>
theorem ord_ContGreaterSkolemSubst_correct:
  assumes "derefs s C1 C1 T1 T1'" "derefs s C2 C2 T2 T2'" "kbo_term (ord_table env) T1'" "kbo_term (ord_table env) T2'"
  shows "ord_ContGreaterSkolemSubst env s C1 T1 C2 T2 =
    (case ord_flag env of
       flag_ORDKBO \<Rightarrow> Some (kbo_CompareAux (ord_table env) (ord_PRECEDENCE env) T1' T2' True = Some ord_GREATER_THAN)
     | flag_ORDRPOS \<Rightarrow> rpos_Greater (ord_table env) (ord_PRECEDENCE env) T1' T2' False)"
  by (rule ord_Skolem_ok [OF assms])

text \<open>C26: when \<open>unify_UnifyAllOC\<close> has answered \<open>TRUE\<close>, \<open>ord_ContCompare\<close> finds the two terms equal below the
  bindings that it left, with either order, provided that no index variable and no variable of the
  instance context takes part and the common instance is a term of the order.\<close>
theorem ord_ContCompare_unified:
  assumes "env_ok ar (bindings s)" "term_ok ar L" "term_ok ar R"
    "followed s (tvars CL L \<union> tvars CR R \<union> env_vars (bindings s))"
    "unify_UnifyAllOC I s CL L CR R = Some (True, s')"
    "\<forall>T. cont_CopyAndApplyBindings s' CL L = Some T \<longrightarrow> kbo_term (ord_table env) T \<and> no_atom L T \<and> no_atom R T"
  shows "ord_ContCompare env s' CL L CR R = Some ord_EQUAL"
  using ord_unified_ok [OF assms(1-5)] assms(6) by blast

text \<open>\<open>f(x)\<close> with \<open>x\<close> bound to \<open>a\<close>, and a free variable.\<close>

definition sample_bound :: cont_state where
  "sample_bound = snd (cont_CreateBinding 1 1 2 (Some (term_Create sample_a [])) sample_cont)"

lemma derefs_leaf:
  "cont_Deref s G C T = Some (C', U) \<Longrightarrow> \<not> term_IsIndexVariable U \<Longrightarrow> term_ArgumentList U = [] \<Longrightarrow> t = term_Create (term_TopSymbol U) []
    \<Longrightarrow> derefs s G C T t"
  using derefs.node [of s G C T C' U "[]"] by simp

lemma sample_derefs: "derefs sample_bound 1 1 sample_fx sample_fa" "derefs sample_bound 2 2 sample_x sample_x"
proof -
  have "derefs sample_bound 1 1 sample_x (term_Create sample_a [])"
    by (rule derefs_leaf [of _ _ _ _ 2 "term_Create sample_a []"]) code_simp+
  moreover have "cont_Deref sample_bound 1 1 sample_fx = Some (1, sample_fx)" "\<not> term_IsIndexVariable sample_fx"
    by code_simp+
  ultimately have "derefs sample_bound 1 1 sample_fx (term_Create (term_TopSymbol sample_fx) [term_Create sample_a []])"
    by (intro derefs.node) (auto simp: sample_fx_def term_Create_def)
  then show "derefs sample_bound 1 1 sample_fx sample_fa" by (simp add: sample_fx_def sample_fa_def term_Create_def)
  show "derefs sample_bound 2 2 sample_x sample_x"
    by (rule derefs_leaf [of _ _ _ _ 2 sample_x]) code_simp+
qed

lemma sample_env_arity: "symbol_Arity (ord_table (sample_env flag)) sample_f = 1" "symbol_Arity (ord_table (sample_env flag)) sample_a = 0"
  by (simp_all add: symbol_Arity_def symbol_Signature_def sample_env_def sample_table_def symbol_Index_def sample_f_def sample_a_def
      symbol_consts drop_bit_eq_div new_entry_def)

lemma sample_kbo_terms:
  "kbo_term (ord_table (sample_env flag)) sample_fa" "kbo_term (ord_table (sample_env flag)) sample_x"
  "kbo_term (ord_table (sample_env flag)) sample_fx"
  by (simp_all add: kbo_term_def sample_x_def sample_fx_def sample_fa_def term_Create_def term_IsVariable_def
      symbol_IsVariable_def leaf_def sample_env_arity symbol_consts) (simp_all add: sample_f_def sample_a_def)

lemma sample_no_atom: "no_atom sample_fx sample_fa" "no_atom sample_x sample_x"
  by code_simp+

theorem ord_ContCompare_correct_witness:
  "ord_ContGreater (sample_env flag_ORDKBO) sample_bound 1 sample_fx 2 sample_x
    = map_option (\<lambda>r. r = ord_GREATER_THAN) (ord_Compare (sample_env flag_ORDKBO) sample_fa sample_x)"
  by (rule conjunct2 [OF ord_ContCompare_correct [OF sample_derefs sample_kbo_terms(1,2) sample_no_atom]])

text \<open>The recursive path order does not see that \<open>f(x)\<close> is greater than the constant \<open>y\<close>; the order
  without contexts, asked for the same, does.\<close>
theorem ord_ContGreaterSkolemSubst_correct_witness:
  "ord_ContGreaterSkolemSubst (sample_env flag_ORDRPOS) sample_bound 1 sample_fx 2 sample_x = Some False
    \<and> rpos_Greater (ord_table (sample_env flag_ORDRPOS)) (ord_PRECEDENCE (sample_env flag_ORDRPOS)) sample_fa sample_x True = Some True
    \<and> ord_ContGreaterSkolemSubst (sample_env flag_ORDKBO) sample_bound 1 sample_fx 2 sample_x = Some True"
proof (intro conjI)
  note skolem = ord_ContGreaterSkolemSubst_correct [OF sample_derefs sample_kbo_terms(1,2)]
  show "ord_ContGreaterSkolemSubst (sample_env flag_ORDRPOS) sample_bound 1 sample_fx 2 sample_x = Some False"
    unfolding skolem by code_simp
  show "rpos_Greater (ord_table (sample_env flag_ORDRPOS)) (ord_PRECEDENCE (sample_env flag_ORDRPOS)) sample_fa sample_x True = Some True"
    by code_simp
  show "ord_ContGreaterSkolemSubst (sample_env flag_ORDKBO) sample_bound 1 sample_fx 2 sample_x = Some True"
    unfolding skolem by code_simp
qed

theorem ord_ContCompare_unified_witness:
  "\<exists>s'. unify_UnifyAllOC 0 sample_cont 1 sample_fx 2 sample_x = Some (True, s')
    \<and> ord_ContCompare (sample_env flag_ORDRPOS) s' 1 sample_fx 2 sample_x = Some ord_EQUAL"
proof -
  let ?ar = "\<lambda>S. if S = sample_f then 1 else 0"
  have ok: "term_ok ?ar sample_fx" "term_ok ?ar sample_x"
    by (simp_all add: term_ok_def sample_fx_def sample_x_def sample_f_def term_Create_def term_IsVariable_def symbol_IsVariable_def)
  have env: "env_ok ?ar (bindings sample_cont)" unfolding sample_bindings by (rule env_ok_empty)
  have "followed sample_cont (tvars 1 sample_fx \<union> tvars 2 sample_x \<union> env_vars (bindings sample_cont))"
    unfolding sample_bindings by (simp add: followed_def env_vars_def sample_fx_def sample_x_def sample_f_def term_Create_def symbol_IsVariable_def
        symbol_IsIndexVariable_def sample_cont_def symbol_consts)
  moreover have "map_option (\<lambda>(b, s'). (b, cont_CopyAndApplyBindings s' 1 sample_fx)) (unify_UnifyAllOC 0 sample_cont 1 sample_fx 2 sample_x)
      = Some (True, Some sample_fx)"
    by code_simp
  then obtain s' where "unify_UnifyAllOC 0 sample_cont 1 sample_fx 2 sample_x = Some (True, s')"
      "cont_CopyAndApplyBindings s' 1 sample_fx = Some sample_fx"
    by auto
  moreover have "no_atom sample_fx sample_fx \<and> no_atom sample_x sample_fx" by code_simp
  ultimately show ?thesis
    using ord_ContCompare_unified [OF env ok, of 1 2 0 s' "sample_env flag_ORDRPOS"] sample_kbo_terms by auto
qed

end
