(* ===== verification/Spass_Match.thy ===== *)
theory Spass_Match
  imports Spass_Unify
begin

text \<open>
  Matching (\<open>unify.c\<close>) and substitutions (\<open>subst.h\<close>, \<open>subst.c\<close>) of SPASS: the tests whether a term is a
  generalisation, an instance or a variant of another, common generalisations for the index, and the
  functions that apply these tests along a substitution.

  A substitution is the list of its nodes; the functions that only release nodes are left out, as is
  printing. The recursive functions thread the state through their loops over arguments
  (\<open>args_loop\<close>); \<open>None\<close> is a null pointer that is followed.
\<close>

declare split_paired_All [simp del] split_paired_Ex [simp del]

section \<open>Matching of terms\<close>

text \<open>The variables of the left term are bound in \<open>Context\<close>, the right term is not changed by bindings.\<close>

fun unify_Match :: "CONTEXT \<Rightarrow> cont_state \<Rightarrow> TERM_NODE \<Rightarrow> TERM_NODE \<Rightarrow> (bool \<times> cont_state) option" where
  "unify_Match Context s (term_Node Top ts st sz) TermR =
     (if symbol_IsVariable Top then
        case cont_ContextBindingTerm Context Top s of
          Some T \<Rightarrow> Some (term_Equal T TermR, s)
        | None \<Rightarrow> Some (True, snd (cont_CreateBinding Context Top (cont_INSTANCECONTEXT s) (Some TermR) s))
      else if symbol_Equal Top (term_TopSymbol TermR) then
        if ts \<noteq> [] then args_loop (\<lambda>s l r. unify_Match Context s l r) s ts (term_ArgumentList TermR)
        else Some (True, s)
      else Some (False, s))"

fun unify_MatchFlexible :: "CONTEXT \<Rightarrow> cont_state \<Rightarrow> TERM_NODE \<Rightarrow> TERM_NODE \<Rightarrow> (bool \<times> cont_state) option" where
  "unify_MatchFlexible Context s (term_Node Top ts st sz) TermR =
     (if symbol_IsVariable Top then
        case cont_ContextBindingTerm Context Top s of
          Some T \<Rightarrow> Some (term_Equal T TermR, s)
        | None \<Rightarrow> Some (True, snd (cont_CreateBinding Context Top (cont_INSTANCECONTEXT s) (Some TermR) s))
      else if symbol_Equal Top (term_TopSymbol TermR) \<and> length ts = length (term_ArgumentList TermR) then
        if ts \<noteq> [] then args_loop (\<lambda>s l r. unify_MatchFlexible Context s l r) s ts (term_ArgumentList TermR)
        else Some (True, s)
      else Some (False, s))"

fun unify_MatchBindingsHelp ::
  "CONTEXT \<Rightarrow> cont_state \<Rightarrow> TERM_NODE \<Rightarrow> CONTEXT \<Rightarrow> TERM_NODE \<Rightarrow> (bool \<times> cont_state) option" where
  "unify_MatchBindingsHelp IndexContext s (term_Node Top ts st sz) CtR TermR =
     Option.bind (index_deref s IndexContext CtR TermR) (\<lambda>(CtR, TermR).
       if symbol_IsVariable Top then
         case cont_ContextBindingTerm IndexContext Top s of
           Some T \<Rightarrow>
             map_option (\<lambda>b. (b, s))
               (cont_TermEqualModuloBindings s IndexContext (cont_ContextBindingContext IndexContext Top s) T CtR TermR)
         | None \<Rightarrow> Some (True, snd (cont_CreateBinding IndexContext Top CtR (Some TermR) s))
       else if symbol_Equal Top (term_TopSymbol TermR) then
         if ts \<noteq> [] then args_loop (\<lambda>s l r. unify_MatchBindingsHelp IndexContext s l CtR r) s ts (term_ArgumentList TermR)
         else Some (True, s)
       else Some (False, s))"

definition unify_MatchBindings :: "CONTEXT \<Rightarrow> cont_state \<Rightarrow> TERM_NODE \<Rightarrow> TERM_NODE \<Rightarrow> (bool \<times> cont_state) option" where
  "unify_MatchBindings IndexContext s TermL TermR = unify_MatchBindingsHelp IndexContext s TermL (cont_INSTANCECONTEXT s) TermR"

text \<open>Is the left term an instance of the right one?\<close>

fun unify_MatchReverse ::
  "CONTEXT \<Rightarrow> cont_state \<Rightarrow> TERM_NODE \<Rightarrow> CONTEXT \<Rightarrow> TERM_NODE \<Rightarrow> (bool \<times> cont_state) option" where
  "unify_MatchReverse IndexContext s (term_Node Top ts st sz) CtR TermR =
     Option.bind (index_deref s IndexContext CtR TermR) (\<lambda>(CtR, TermR).
       let TermL = term_Node Top ts st sz;
           bindR = Some (True, snd (cont_CreateBinding IndexContext (term_TopSymbol TermR) (cont_INSTANCECONTEXT s) (Some TermL) s))
       in if symbol_IsVariable Top then
            if CtR = cont_INSTANCECONTEXT s \<and> symbol_Equal Top (term_TopSymbol TermR) then Some (True, s)
            else if symbol_IsIndexVariable Top then
              Some (True, snd (cont_CreateBinding IndexContext Top CtR (Some TermR) s))
            else if term_IsVariable TermR \<and> (term_IsIndexVariable TermR \<or> CtR = IndexContext) then bindR
            else Some (False, s)
          else if term_IsVariable TermR then
            if term_IsIndexVariable TermR \<or> CtR = IndexContext then bindR else Some (False, s)
          else if symbol_Equal Top (term_TopSymbol TermR) then
            if ts \<noteq> [] then args_loop (\<lambda>s l r. unify_MatchReverse IndexContext s l CtR r) s ts (term_ArgumentList TermR)
            else Some (True, s)
          else Some (False, s))"

fun unify_Variation :: "CONTEXT \<Rightarrow> cont_state \<Rightarrow> TERM_NODE \<Rightarrow> TERM_NODE \<Rightarrow> (bool \<times> cont_state) option" where
  "unify_Variation Context s (term_Node Top ts st sz) TermR =
     (if symbol_IsVariable Top then
        if symbol_Equal Top (term_TopSymbol TermR) then Some (True, s)
        else if symbol_IsIndexVariable Top then
          case cont_ContextBindingTerm Context Top s of
            Some T \<Rightarrow> Some (term_Equal T TermR, s)
          | None \<Rightarrow> Some (True, snd (cont_CreateBinding Context Top Context (Some TermR) s))
        else Some (False, s)
      else if symbol_Equal Top (term_TopSymbol TermR) then
        if ts \<noteq> [] then args_loop (\<lambda>s l r. unify_Variation Context s l r) s ts (term_ArgumentList TermR)
        else Some (True, s)
      else Some (False, s))"

section \<open>Substitutions\<close>

type_synonym SUBST = "(SYMBOL \<times> TERM_NODE) list"

definition subst_Add :: "SYMBOL \<Rightarrow> TERM_NODE \<Rightarrow> SUBST \<Rightarrow> SUBST" where
  "subst_Add Symbol Codomain Subst = (Symbol, Codomain) # Subst"

definition subst_NUnion :: "SUBST \<Rightarrow> SUBST \<Rightarrow> SUBST" where
  "subst_NUnion S1 S2 = (if S1 = [] then S2 else if S2 = [] then S1 else S1 @ S2)"

fun subst_Term :: "SYMBOL \<Rightarrow> SUBST \<Rightarrow> TERM_NODE option" where
  "subst_Term Symbol [] = None"
| "subst_Term Symbol ((Dom, codomain) # Subst) = (if symbol_Equal Symbol Dom then Some codomain else subst_Term Symbol Subst)"

fun subst_ApplyIntern :: "SUBST \<Rightarrow> TERM_NODE \<Rightarrow> TERM_NODE" where
  "subst_ApplyIntern Subst (term_Node Top ts st sz) =
     (case (if symbol_IsVariable Top then subst_Term Top Subst else None) of
        Some RplacTerm \<Rightarrow>
          let Arglist = map term_Copy (term_ArgumentList RplacTerm)
          in term_RplacArgumentList (term_RplacTop (term_Node Top ts st sz) (term_TopSymbol RplacTerm)) Arglist
      | None \<Rightarrow> term_Node Top (map (subst_ApplyIntern Subst) ts) st sz)"

definition subst_Apply :: "SUBST \<Rightarrow> TERM_NODE \<Rightarrow> TERM_NODE" where
  "subst_Apply Subst Term = (if Subst = [] then Term else subst_ApplyIntern Subst Term)"

definition substitute_all :: "SYMBOL \<Rightarrow> TERM_NODE \<Rightarrow> SUBST \<Rightarrow> SUBST" where
  "substitute_all Symbol Repl Subst = map (\<lambda>(x, t). (x, snd (term_SubstituteVariable Symbol Repl t))) Subst"

fun subst_Merge :: "SUBST \<Rightarrow> SUBST \<Rightarrow> SUBST" where
  "subst_Merge [] Drain = Drain"
| "subst_Merge ((Dom, codomain) # Source) Drain =
     (let Changed = list_ex (\<lambda>(x, t). fst (term_SubstituteVariable Dom codomain t)) Drain;
          Drain = substitute_all Dom codomain Drain
      in subst_Merge Source (if \<not> Changed then subst_Add Dom (term_Copy codomain) Drain else Drain))"

definition subst_BindVar :: "SYMBOL \<Rightarrow> SUBST \<Rightarrow> bool" where
  "subst_BindVar Var Subst = list_ex (\<lambda>(x, t). symbol_Equal x Var) Subst"

fun compose_loop :: "SUBST \<Rightarrow> SUBST \<Rightarrow> SUBST \<Rightarrow> SUBST \<times> SUBST" where
  "compose_loop [] Inner New = (Inner, New)"
| "compose_loop ((Dom, codomain) # Scan1) Inner New =
     (let Inner = substitute_all Dom codomain Inner
      in compose_loop Scan1 Inner (if \<not> subst_BindVar Dom Inner then subst_Add Dom (term_Copy codomain) New else New))"

definition subst_Compose :: "SUBST \<Rightarrow> SUBST \<Rightarrow> SUBST" where
  "subst_Compose Outer Inner = (case compose_loop Outer Inner [] of (Inner, New) \<Rightarrow> subst_NUnion Inner New)"

definition subst_Copy :: "SUBST \<Rightarrow> SUBST" where
  "subst_Copy Subst = map (\<lambda>(x, t). (x, term_Copy t)) Subst"

definition subst_MatchTops :: "CONTEXT \<Rightarrow> cont_state \<Rightarrow> SUBST \<Rightarrow> bool" where
  "subst_MatchTops Context s Subst =
     list_ex (\<lambda>(x, t). case cont_ContextBindingTerm Context x s of Some T \<Rightarrow> term_EqualTopSymbols T t | None \<Rightarrow> False) Subst"

definition subst_IsShallow :: "SUBST \<Rightarrow> bool" where
  "subst_IsShallow Subst =
     list_all (\<lambda>(x, Codomain). if \<not> term_IsVariable Codomain \<and> \<not> term_IsGround Codomain
                 then list_all (\<lambda>a. \<not> (\<not> term_IsVariable a \<and> \<not> term_IsGround a)) (term_ArgumentList Codomain)
                 else True) Subst"

text \<open>The tests along a substitution.\<close>

fun subst_Unify :: "CONTEXT \<Rightarrow> cont_state \<Rightarrow> SUBST \<Rightarrow> (bool \<times> cont_state) option" where
  "subst_Unify IndexContext s [] = Some (True, s)"
| "subst_Unify IndexContext s ((Dom, cod) # Subst) =
     (case cont_ContextBindingTerm IndexContext Dom s of
        None \<Rightarrow> do {
          oc \<leftarrow> unify_OccurCheck IndexContext Dom s IndexContext cod;
          if oc then Some (False, s)
          else subst_Unify IndexContext (snd (cont_CreateBinding IndexContext Dom IndexContext (Some cod) s)) Subst }
      | Some T \<Rightarrow> do {
          (b, s) \<leftarrow> unify_UnifyAllOC IndexContext s IndexContext cod (cont_ContextBindingContext IndexContext Dom s) T;
          if \<not> b then Some (False, s) else subst_Unify IndexContext s Subst })"

fun subst_Match :: "CONTEXT \<Rightarrow> cont_state \<Rightarrow> SUBST \<Rightarrow> (bool \<times> cont_state) option" where
  "subst_Match Context s [] = Some (True, s)"
| "subst_Match Context s ((Dom, cod) # Subst) =
     (case cont_ContextBindingTerm Context Dom s of
        None \<Rightarrow> Some (False, s)
      | Some T \<Rightarrow> do {
          (b, s) \<leftarrow> unify_Match Context s cod T;
          if \<not> b then Some (False, s) else subst_Match Context s Subst })"

fun subst_MatchReverse :: "CONTEXT \<Rightarrow> cont_state \<Rightarrow> SUBST \<Rightarrow> (bool \<times> cont_state) option" where
  "subst_MatchReverse IndexContext s [] = Some (True, s)"
| "subst_MatchReverse IndexContext s ((Dom, cod) # Subst) =
     (case cont_ContextBindingTerm IndexContext Dom s of
        None \<Rightarrow>
          if symbol_IsIndexVariable Dom then
            subst_MatchReverse IndexContext (snd (cont_CreateBinding IndexContext Dom (cont_INSTANCECONTEXT s) (Some cod) s)) Subst
          else Some (False, s)
      | Some T \<Rightarrow> do {
          (b, s) \<leftarrow> unify_MatchReverse IndexContext s cod (cont_ContextBindingContext IndexContext Dom s) T;
          if \<not> b then Some (False, s) else subst_MatchReverse IndexContext s Subst })"

fun subst_Variation :: "CONTEXT \<Rightarrow> cont_state \<Rightarrow> SUBST \<Rightarrow> (bool \<times> cont_state) option" where
  "subst_Variation Context s [] = Some (True, s)"
| "subst_Variation Context s ((Dom, cod) # Subst) =
     (case cont_ContextBindingTerm Context Dom s of
        None \<Rightarrow> Some (False, s)
      | Some T \<Rightarrow> do {
          (b, s) \<leftarrow> unify_Variation Context s cod T;
          if \<not> b then Some (False, s) else subst_Variation Context s Subst })"

fun unify_EstablishMatcher :: "CONTEXT \<Rightarrow> cont_state \<Rightarrow> SUBST \<Rightarrow> cont_state" where
  "unify_EstablishMatcher Context s [] = s"
| "unify_EstablishMatcher Context s ((Dom, cod) # Subst) =
     unify_EstablishMatcher Context (snd (cont_CreateBinding Context Dom (cont_INSTANCECONTEXT s) (Some cod) s)) Subst"

definition subst_CloseVariables :: "CONTEXT \<Rightarrow> SUBST \<Rightarrow> cont_state \<Rightarrow> cont_state" where
  "subst_CloseVariables Context Subst s = fold (\<lambda>(x, t) s. cont_CloseBinding Context x s) Subst s"

text \<open>The loops along the trail of bindings.\<close>

partial_function (option) subst_CloseOpenVariables :: "SUBST \<Rightarrow> cont_state \<Rightarrow> (SUBST \<times> cont_state) option" where
  "subst_CloseOpenVariables Result s =
     (case cont_LASTBINDING s of
        None \<Rightarrow> Some (Result, s)
      | Some (C, x) \<Rightarrow>
          let Result = (case cont_ContextBindingTerm C x s of
                Some T \<Rightarrow> subst_Add (cont_BindingSymbol (cont_store s C x)) (term_Copy T) Result
              | None \<Rightarrow> Result)
          in Option.bind (cont_BackTrackLastBinding s) (subst_CloseOpenVariables Result))"

partial_function (option) extract_loop ::
  "cont_state \<Rightarrow> CONTEXT \<Rightarrow> CONTEXT \<Rightarrow> (CONTEXT \<times> SYMBOL) option \<Rightarrow> SUBST \<Rightarrow> SUBST \<Rightarrow> (SUBST \<times> SUBST) option" where
  "extract_loop s CL CR Scan LeftSubst RightSubst =
     (case Scan of
        None \<Rightarrow> Some (LeftSubst, RightSubst)
      | Some (C, x) \<Rightarrow>
          let sym = cont_BindingSymbol (cont_store s C x);
              link = cont_ContextBindingLink C x s;
              copy = (case cont_ContextBindingTerm C x s of
                        Some T \<Rightarrow> cont_CopyAndApplyBindings s (cont_ContextBindingContext C x s) T
                      | None \<Rightarrow> None)
          in if cont_IsInContext CL sym (C, x) then
               Option.bind copy (\<lambda>t. extract_loop s CL CR link (subst_Add sym t LeftSubst) RightSubst)
             else if cont_IsInContext CR sym (C, x) then
               Option.bind copy (\<lambda>t. extract_loop s CL CR link LeftSubst (subst_Add sym t RightSubst))
             else extract_loop s CL CR link LeftSubst RightSubst)"

definition subst_ExtractUnifier :: "cont_state \<Rightarrow> CONTEXT \<Rightarrow> CONTEXT \<Rightarrow> (SUBST \<times> SUBST) option" where
  "subst_ExtractUnifier s CL CR = extract_loop s CL CR (cont_LASTBINDING s) [] []"

partial_function (option) extract_loop_Com ::
  "cont_state \<Rightarrow> CONTEXT \<Rightarrow> (CONTEXT \<times> SYMBOL) option \<Rightarrow> SUBST \<Rightarrow> SUBST option" where
  "extract_loop_Com s Context Scan Subst =
     (case Scan of
        None \<Rightarrow> Some Subst
      | Some (C, x) \<Rightarrow>
          (case cont_ContextBindingTerm C x s of
             None \<Rightarrow> None
           | Some T \<Rightarrow>
               Option.bind (cont_CopyAndApplyBindingsCom s Context T)
                 (\<lambda>t. extract_loop_Com s Context (cont_ContextBindingLink C x s)
                        (subst_Add (cont_BindingSymbol (cont_store s C x)) t Subst))))"

definition subst_ExtractUnifierCom :: "cont_state \<Rightarrow> CONTEXT \<Rightarrow> SUBST option" where
  "subst_ExtractUnifierCom s Context = extract_loop_Com s Context (cont_LASTBINDING s) []"

partial_function (option) matcher_loop :: "cont_state \<Rightarrow> (CONTEXT \<times> SYMBOL) option \<Rightarrow> (SYMBOL \<times> TERM_NODE option) list
    \<Rightarrow> (SYMBOL \<times> TERM_NODE option) list option" where
  "matcher_loop s Scan Result =
     (case Scan of
        None \<Rightarrow> Some Result
      | Some (C, x) \<Rightarrow> matcher_loop s (cont_ContextBindingLink C x s)
          ((cont_BindingSymbol (cont_store s C x), cont_ContextBindingTerm C x s) # Result))"

definition subst_ExtractMatcher :: "cont_state \<Rightarrow> (SYMBOL \<times> TERM_NODE option) list option" where
  "subst_ExtractMatcher s = matcher_loop s (cont_LASTBINDING s) []"

section \<open>Common generalisations\<close>

fun unify_ComGenLinear ::
  "CONTEXT \<Rightarrow> TERM_NODE \<Rightarrow> TERM_NODE \<Rightarrow> SUBST \<times> SUBST \<times> cont_state \<Rightarrow> (TERM_NODE \<times> SUBST \<times> SUBST \<times> cont_state) option"
and comgen_args ::
  "CONTEXT \<Rightarrow> TERM_NODE list \<Rightarrow> TERM_NODE list \<Rightarrow> SUBST \<times> SUBST \<times> cont_state
     \<Rightarrow> (TERM_NODE list \<times> SUBST \<times> SUBST \<times> cont_state) option" where
  "unify_ComGenLinear IndexContext (term_Node Top ts st sz) TermR (SubstL, SubstR, s) =
     (let TermL = term_Node Top ts st sz in
      if term_IsIndexVariable TermR then
        Some (term_Copy TermR, subst_Add (term_TopSymbol TermR) (term_Copy TermL) SubstL, SubstR, s)
      else if symbol_Equal Top (term_TopSymbol TermR) then
        map_option (\<lambda>(ArgList, r). (term_Create Top ArgList, r))
          (comgen_args IndexContext ts (term_ArgumentList TermR) (SubstL, SubstR, s))
      else
        map_option (\<lambda>(Symbol, s). (term_Create Symbol [], subst_Add Symbol (term_Copy TermL) SubstL,
                                   subst_Add Symbol (term_Copy TermR) SubstR, s))
          (cont_NextIndexVariable IndexContext s))"
| "comgen_args IndexContext [] rs p = Some ([], p)"
| "comgen_args IndexContext (l # ls) [] p = None"
| "comgen_args IndexContext (l # ls) (r # rs) p =
     Option.bind (unify_ComGenLinear IndexContext l r p)
       (\<lambda>(t, p). map_option (\<lambda>(ts, p). (t # ts, p)) (comgen_args IndexContext ls rs p))"

text \<open>The loop runs once before it tests for the end of the substitution, so an empty one is a null
  pointer that is followed.\<close>

fun comgen_loop ::
  "CONTEXT \<Rightarrow> SUBST \<Rightarrow> SUBST \<Rightarrow> SUBST \<times> SUBST \<times> cont_state \<Rightarrow> (SUBST \<times> SUBST \<times> SUBST \<times> cont_state) option" where
  "comgen_loop Context [] Result (SubstOld, SubstNew, s) = Some (Result, SubstOld, SubstNew, s)"
| "comgen_loop Context ((Dom, cod) # Subst) Result (SubstOld, SubstNew, s) =
     Option.bind
       (case cont_ContextBindingTerm Context Dom s of
          None \<Rightarrow> Some (Result, subst_Add Dom (term_Copy cod) SubstOld, SubstNew, s)
        | Some T \<Rightarrow>
            if term_Equal T cod then Some (subst_Add Dom (term_Copy cod) Result, SubstOld, SubstNew, s)
            else if \<not> symbol_Equal (term_TopSymbol T) (term_TopSymbol cod) then
              Some (Result, subst_Add Dom (term_Copy cod) SubstOld, subst_Add Dom (term_Copy T) SubstNew, s)
            else
              map_option (\<lambda>(t, SubstNew, SubstOld, s). (subst_Add Dom t Result, SubstOld, SubstNew, s))
                (unify_ComGenLinear Context T cod (SubstNew, SubstOld, s)))
       (\<lambda>(Result, SubstOld, SubstNew, s).
          comgen_loop Context Subst Result (SubstOld, SubstNew, cont_CloseBinding Context Dom s))"

definition subst_ComGen :: "CONTEXT \<Rightarrow> SUBST \<Rightarrow> cont_state \<Rightarrow> (SUBST \<times> SUBST \<times> SUBST \<times> cont_state) option" where
  "subst_ComGen Context Subst s = (if Subst = [] then None else comgen_loop Context Subst [] ([], [], s))"

end
