(* ===== verification/Spass_ComGen_Correct.thy ===== *)
theory Spass_ComGen_Correct
  imports Spass_Match_Correct
begin

text \<open>
  Correctness of \<open>unify_ComGenLinear\<close> (\<open>unify.c\<close>) with the scanner for index variables of \<open>context.c\<close>: the
  term that is built is a generalisation of both terms, and the two substitutions that are extended
  on the way are the ones that give the terms back.
\<close>

declare split_paired_All [simp del] split_paired_Ex [simp del]

section \<open>The scanner for index variables\<close>

definition scan_ok :: "cont_state \<Rightarrow> bool" where
  "scan_ok s \<longleftrightarrow> symbol_MAXSTANDARDVAR \<le> cont_INDEXVARSCANNER s \<and> cont_INDEXVARSCANNER s \<le> symbol_INDEXVARCOUNTER s"

text \<open>A variable that the scanner does not return.\<close>

definition taken :: "CONTEXT \<Rightarrow> cont_state \<Rightarrow> SYMBOL \<Rightarrow> bool" where
  "taken C s x \<longleftrightarrow> cont_VarIsUsed C x s \<and> x \<le> symbol_INDEXVARCOUNTER s"

text \<open>From \<open>s\<close> to \<open>s'\<close> only the scanner has advanced, with at most \<open>n\<close> new index variables.\<close>

definition advanced :: "nat \<Rightarrow> cont_state \<Rightarrow> cont_state \<Rightarrow> bool" where
  "advanced n s s' \<longleftrightarrow> scan_ok s' \<and> cont_INDEXVARSCANNER s \<le> cont_INDEXVARSCANNER s'
     \<and> symbol_INDEXVARCOUNTER s \<le> symbol_INDEXVARCOUNTER s' \<and> symbol_INDEXVARCOUNTER s' \<le> symbol_INDEXVARCOUNTER s + int n
     \<and> s' = s\<lparr>cont_INDEXVARSCANNER := cont_INDEXVARSCANNER s', symbol_INDEXVARCOUNTER := symbol_INDEXVARCOUNTER s'\<rparr>"

definition fresh :: "CONTEXT \<Rightarrow> cont_state \<Rightarrow> cont_state \<Rightarrow> SYMBOL set" where
  "fresh C s s' = {v. cont_INDEXVARSCANNER s < v \<and> v \<le> cont_INDEXVARSCANNER s' \<and> symbol_IsIndexVariable v \<and> \<not> taken C s v}"

lemma advanced_refl: "scan_ok s \<Longrightarrow> advanced 0 s s"
  by (simp add: advanced_def)

lemma advanced_mono: "advanced m s s' \<Longrightarrow> m \<le> n \<Longrightarrow> advanced n s s'"
  by (simp add: advanced_def)

lemma advanced_store: "advanced n s s' \<Longrightarrow> cont_store s' = cont_store s"
  unfolding advanced_def by (metis cont_state.select_convs(1) cont_state.surjective cont_state.update_convs(11,12))

lemma advanced_used: "advanced n s s' \<Longrightarrow> cont_VarIsUsed C x s' = cont_VarIsUsed C x s"
  by (simp add: cont_VarIsUsed_def cont_ContextBindingContext_def advanced_store)

lemma advanced_taken: "advanced n s s' \<Longrightarrow> taken C s x \<Longrightarrow> taken C s' x"
  unfolding taken_def using advanced_used [of n s s' C x] by (auto simp: advanced_def)

lemma advanced_trans: "advanced m s1 s2 \<Longrightarrow> advanced n s2 s3 \<Longrightarrow> advanced (m + n) s1 s3"
  by (cases s1; cases s2; cases s3) (auto simp: advanced_def)

lemma fresh_mono:
  "advanced m s1 s2 \<Longrightarrow> advanced n s2 s3 \<Longrightarrow> fresh C s1 s2 \<subseteq> fresh C s1 s3 \<and> fresh C s2 s3 \<subseteq> fresh C s1 s3 \<and> fresh C s1 s2 \<inter> fresh C s2 s3 = {}"
  using advanced_taken [of m s1 s2 C] by (auto simp: fresh_def advanced_def)

lemma index_scan_ok:
  assumes "scan_ok s" "cont_INDEXVARSCANNER s < symbol_INDEXVARCOUNTER s" "symbol_INDEXVARCOUNTER s < symbol_MAXINDEXVAR"
  shows "\<exists>s'. index_scan C s = Some s' \<and> advanced 1 s s' \<and> cont_INDEXVARSCANNER s' \<in> fresh C s s'"
  using assms
proof (induction "nat (symbol_INDEXVARCOUNTER s - cont_INDEXVARSCANNER s)" arbitrary: s rule: less_induct)
  case less
  let ?s1 = "s\<lparr>cont_INDEXVARSCANNER := cont_INDEXVARSCANNER s + 1\<rparr>"
  have used: "cont_VarIsUsed C x (s\<lparr>cont_INDEXVARSCANNER := v\<rparr>) = cont_VarIsUsed C x s" for x v
    by (simp add: cont_VarIsUsed_def cont_ContextBindingContext_def)
  consider (free) "\<not> cont_VarIsUsed C (cont_INDEXVARSCANNER s + 1) s"
    | (full) "cont_VarIsUsed C (cont_INDEXVARSCANNER s + 1) s" "cont_INDEXVARSCANNER s + 1 = symbol_INDEXVARCOUNTER s"
    | (more) "cont_VarIsUsed C (cont_INDEXVARSCANNER s + 1) s" "cont_INDEXVARSCANNER s + 1 < symbol_INDEXVARCOUNTER s"
    using less.prems(2) by linarith
  then show ?case
  proof cases
    case free
    then have "index_scan C s = Some ?s1" by (subst index_scan.simps) (simp add: Let_def used)
    then show ?thesis using free less.prems
      by (simp add: advanced_def scan_ok_def fresh_def taken_def symbol_IsIndexVariable_def)
  next
    case full
    then show ?thesis using less.prems
      by (subst index_scan.simps)
        (auto simp: Let_def used symbol_Equal_def symbol_LastIndexVariable_def symbol_CreateIndexVariable_def
          advanced_def scan_ok_def fresh_def taken_def symbol_IsIndexVariable_def)
  next
    case more
    then have eq: "index_scan C s = index_scan C ?s1"
      by (subst index_scan.simps) (simp add: Let_def used symbol_Equal_def symbol_LastIndexVariable_def)
    obtain s' where s': "index_scan C ?s1 = Some s'" "advanced 1 ?s1 s'" "cont_INDEXVARSCANNER s' \<in> fresh C ?s1 s'"
      using less.hyps [of ?s1] less.prems more by (auto simp: scan_ok_def)
    then have "advanced 1 s s'" "cont_INDEXVARSCANNER s' \<in> fresh C s s'"
      by (auto simp: advanced_def fresh_def taken_def used)
    then show ?thesis using eq s'(1) by auto
  qed
qed

lemma cont_NextIndexVariable_ok:
  assumes "scan_ok s" "symbol_INDEXVARCOUNTER s < symbol_MAXINDEXVAR"
  obtains v s' where "cont_NextIndexVariable C s = Some (v, s')" "advanced 1 s s'" "v \<in> fresh C s s'"
proof (cases "cont_INDEXVARSCANNER s = symbol_INDEXVARCOUNTER s")
  case True
  then show ?thesis using assms
    by (intro that [of "symbol_INDEXVARCOUNTER s + 1"
          "s\<lparr>symbol_INDEXVARCOUNTER := symbol_INDEXVARCOUNTER s + 1, cont_INDEXVARSCANNER := symbol_INDEXVARCOUNTER s + 1\<rparr>"])
      (auto simp: cont_NextIndexVariable_def symbol_Equal_def symbol_LastIndexVariable_def symbol_CreateIndexVariable_def
        advanced_def scan_ok_def fresh_def taken_def symbol_IsIndexVariable_def Let_def)
next
  case False
  then obtain s' where "index_scan C s = Some s'" "advanced 1 s s'" "cont_INDEXVARSCANNER s' \<in> fresh C s s'"
    using index_scan_ok [OF assms(1) _ assms(2)] assms(1) unfolding scan_ok_def by force
  then show ?thesis using False
    by (intro that [of "cont_INDEXVARSCANNER s'" s']) (simp_all add: cont_NextIndexVariable_def symbol_Equal_def symbol_LastIndexVariable_def)
qed

section \<open>Substitutions as values of variables\<close>

definition asub :: "SUBST \<Rightarrow> SYMBOL \<Rightarrow> TERM_NODE" where
  "asub S x = (case subst_Term x S of Some u \<Rightarrow> erase u | None \<Rightarrow> term_Node x [] 0 0)"

fun variables :: "TERM_NODE \<Rightarrow> SYMBOL set" where
  "variables (term_Node s ts st sz) = (if symbol_IsVariable s then {s} else (\<Union>t \<in> set ts. variables t))"

fun index_vars :: "TERM_NODE \<Rightarrow> SYMBOL list" where
  "index_vars (term_Node s ts st sz) = (if symbol_IsIndexVariable s then [s] else concat (map index_vars ts))"

lemma vsub_cong: "(\<And>x. x \<in> variables t \<Longrightarrow> \<sigma> x = \<tau> x) \<Longrightarrow> vsub \<sigma> t = vsub \<tau> t"
proof (induction t)
  case (term_Node s ts st sz)
  have "map (vsub \<sigma>) ts = map (vsub \<tau>) ts" if "\<not> symbol_IsVariable s"
  proof (rule map_cong [OF refl])
    fix t assume "t \<in> set ts"
    then show "vsub \<sigma> t = vsub \<tau> t" using term_Node.prems that by (intro term_Node.IH) auto
  qed
  then show ?case using term_Node.prems by simp
qed

lemma subst_Term_None: "subst_Term x S = None \<longleftrightarrow> x \<notin> fst ` set S"
  by (induction S) (auto simp: symbol_Equal_def split: if_splits)

lemma subst_Term_append: "subst_Term x (S1 @ S2) = (case subst_Term x S1 of Some u \<Rightarrow> Some u | None \<Rightarrow> subst_Term x S2)"
  by (induction S1) auto

lemma asub_front: "x \<in> fst ` set S1 \<or> x \<notin> fst ` set S2 \<Longrightarrow> asub (S1 @ S2) x = asub S1 x"
  using subst_Term_None [of x S1] subst_Term_None [of x S2] by (auto simp: asub_def subst_Term_append split: option.splits)

lemma asub_back: "x \<notin> fst ` set S1 \<Longrightarrow> asub (S1 @ S2) x = asub S2 x"
  using subst_Term_None [of x S1] by (auto simp: asub_def subst_Term_append)

lemma asub_other: "x \<notin> fst ` set S \<Longrightarrow> asub S x = term_Node x [] 0 0"
  using subst_Term_None [of x S] by (auto simp: asub_def)

lemma ApplyIntern_vsub: "var_leaf t \<Longrightarrow> erase (subst_ApplyIntern S t) = vsub (asub S) t"
proof (induction S t rule: subst_ApplyIntern.induct)
  case (1 S Top ts st sz)
  show ?case
  proof (cases "symbol_IsVariable Top")
    case True
    have "erase (term_RplacArgumentList (term_RplacTop (term_Node Top ts st sz) (term_TopSymbol T)) (term_ArgumentList T)) = erase T" for T
      by (cases T) (simp add: term_node_defs)
    then show ?thesis using True var_leaf_args(2) [OF "1.prems" True]
      by (simp add: asub_def map_idI Let_def split: option.split)
  next
    case False
    then show ?thesis using 1 var_leaf_args(1) [OF "1.prems"] by simp
  qed
qed

section \<open>Common generalisations\<close>

text \<open>The terms \<open>ts\<close> generalise \<open>ls\<close> and \<open>rs\<close>: \<open>NL\<close> and \<open>NR\<close> are what is put in front of the substitutions.\<close>

definition generalises ::
  "CONTEXT \<Rightarrow> cont_state \<Rightarrow> cont_state \<Rightarrow> TERM_NODE list \<Rightarrow> TERM_NODE list \<Rightarrow> TERM_NODE list \<Rightarrow> SUBST \<Rightarrow> SUBST \<Rightarrow> bool" where
  "generalises C s s' ls rs ts NL NR \<longleftrightarrow> advanced (sum_list (map nodes ls)) s s' \<and> (\<forall>t \<in> set ts. var_leaf t)
     \<and> map (vsub (asub NL)) ts = map erase ls \<and> map (vsub (asub NR)) ts = map erase rs
     \<and> fst ` set NL \<subseteq> fst ` set NR \<union> (\<Union>r \<in> set rs. set (index_vars r)) \<and> fst ` set NR \<subseteq> fresh C s s'
     \<and> (\<forall>t \<in> set ts. \<forall>x \<in> variables t. symbol_IsIndexVariable x \<longrightarrow> x \<in> fst ` set NL)"

definition gen_result ::
  "CONTEXT \<Rightarrow> TERM_NODE list \<Rightarrow> TERM_NODE list \<Rightarrow> SUBST \<times> SUBST \<times> cont_state \<Rightarrow> TERM_NODE list \<Rightarrow> SUBST \<times> SUBST \<times> cont_state \<Rightarrow> bool" where
  "gen_result C ls rs p ts q \<longleftrightarrow> (\<exists>NL NR. fst q = NL @ fst p \<and> fst (snd q) = NR @ fst (snd p)
     \<and> generalises C (snd (snd p)) (snd (snd q)) ls rs ts NL NR)"

definition gen_ready :: "(SYMBOL \<Rightarrow> nat) \<Rightarrow> CONTEXT \<Rightarrow> cont_state \<Rightarrow> TERM_NODE list \<Rightarrow> TERM_NODE list \<Rightarrow> bool" where
  "gen_ready ar C s ls rs \<longleftrightarrow> scan_ok s \<and> symbol_INDEXVARCOUNTER s + int (sum_list (map nodes ls)) \<le> symbol_MAXINDEXVAR
     \<and> length ls = length rs \<and> (\<forall>t \<in> set ls \<union> set rs. arity_ok ar t \<and> var_leaf t)
     \<and> distinct (concat (map index_vars rs)) \<and> (\<forall>r \<in> set rs. \<forall>x \<in> set (index_vars r). taken C s x)"

lemma index_vars_index: "x \<in> set (index_vars t) \<Longrightarrow> symbol_IsIndexVariable x"
  by (induction t) (auto split: if_splits)

lemma fresh_not_taken: "x \<in> fresh C s s' \<Longrightarrow> taken C s x \<Longrightarrow> False"
  by (simp add: fresh_def)

lemma subset_union: "A \<subseteq> F1 \<union> R1 \<Longrightarrow> B \<subseteq> F2 \<union> R2 \<Longrightarrow> F1 \<subseteq> F \<Longrightarrow> F2 \<subseteq> F \<Longrightarrow> B \<union> A \<subseteq> F \<union> (R1 \<union> R2)"
  by blast

text \<open>The arguments one after the other: what the later ones add does not change the earlier ones.\<close>

lemma generalises_Cons:
  assumes "generalises C s s1 [l] [r] [t] NL1 NR1" "generalises C s1 s2 ls rs ts NL2 NR2" "gen_ready ar C s (l # ls) (r # rs)"
  shows "generalises C s s2 (l # ls) (r # rs) (t # ts) (NL2 @ NL1) (NR2 @ NR1)"
proof -
  note g1 = assms(1)[unfolded generalises_def, simplified] and g2 = assms(2)[unfolded generalises_def, simplified]
  have adv: "advanced (nodes l) s s1" "advanced (sum_list (map nodes ls)) s1 s2" using g1 g2 by blast+
  have F: "fresh C s s1 \<subseteq> fresh C s s2" "fresh C s1 s2 \<subseteq> fresh C s s2" "fresh C s s1 \<inter> fresh C s1 s2 = {}"
    using fresh_mono [OF adv] by blast+
  have taken: "taken C s x" if "x \<in> set (index_vars r) \<or> (\<exists>r \<in> set rs. x \<in> set (index_vars r))" for x
    using assms(3) that by (auto simp: gen_ready_def)
  have apart: "x \<notin> set (index_vars r)" if "\<exists>r \<in> set rs. x \<in> set (index_vars r)" for x
    using assms(3) that by (auto simp: gen_ready_def)
  have l: "fst ` set NL1 \<subseteq> fst ` set NR1 \<union> set (index_vars r)" "fst ` set NL2 \<subseteq> fst ` set NR2 \<union> (\<Union>r \<in> set rs. set (index_vars r))"
    and r: "fst ` set NR1 \<subseteq> fresh C s s1" "fst ` set NR2 \<subseteq> fresh C s1 s2"
    using g1 g2 by simp_all
  have d: "fst ` set NL1 \<subseteq> fresh C s s1 \<union> set (index_vars r)" "fst ` set NL2 \<subseteq> fresh C s1 s2 \<union> (\<Union>r \<in> set rs. set (index_vars r))"
    by (rule subset_trans [OF l(1) Un_mono [OF r(1) subset_refl]], rule subset_trans [OF l(2) Un_mono [OF r(2) subset_refl]])
  have dom2: "x \<in> fresh C s1 s2 \<or> (\<exists>r \<in> set rs. x \<in> set (index_vars r))" if "x \<in> fst ` set NL2 \<or> x \<in> fst ` set NR2" for x
    using that d(2) r(2) by blast
  have dom1: "x \<in> fresh C s s1 \<or> x \<in> set (index_vars r)" if "x \<in> fst ` set NL1" for x
    using that d(1) by blast
  have idx: "symbol_IsIndexVariable x" if "x \<in> fresh C s' s''" for x s' s'' using that by (simp add: fresh_def)
  have later: "x \<notin> fresh C s1 s2 \<and> \<not> (\<exists>r \<in> set rs. x \<in> set (index_vars r))"
    if "x \<in> fresh C s s1 \<or> x \<in> set (index_vars r) \<or> \<not> symbol_IsIndexVariable x" for x
    using that
  proof (elim disjE)
    assume "x \<in> fresh C s s1"
    then show ?thesis using F(3) fresh_not_taken [of x C s s1] taken [of x] by blast
  next
    assume "x \<in> set (index_vars r)"
    then show ?thesis using taken [of x] apart [of x] advanced_taken [OF adv(1), of C x] fresh_not_taken [of x C s1 s2] by blast
  next
    assume "\<not> symbol_IsIndexVariable x"
    then show ?thesis using idx [of x s1 s2] index_vars_index [of x] by blast
  qed
  have new: "x \<notin> fst ` set NL2 \<and> x \<notin> fst ` set NR2" if "x \<in> fst ` set NL1 \<or> \<not> symbol_IsIndexVariable x" for x
    using that dom1 [of x] dom2 [of x] later [of x] by blast
  have old: "x \<notin> fst ` set NR1" if "x \<in> fst ` set NL2 \<or> \<not> symbol_IsIndexVariable x" for x
  proof
    assume "x \<in> fst ` set NR1"
    then have "x \<in> fresh C s s1" using r(1) by blast
    then show False using that later [of x] dom2 [of x] idx [of x s s1] by blast
  qed
  have old': "x \<notin> fst ` set NL1" if "\<not> symbol_IsIndexVariable x" for x
    using that dom1 [of x] idx [of x s s1] index_vars_index [of x] by blast
  have iv: "\<forall>x \<in> variables t. symbol_IsIndexVariable x \<longrightarrow> x \<in> fst ` set NL1"
    "\<forall>t \<in> set ts. \<forall>x \<in> variables t. symbol_IsIndexVariable x \<longrightarrow> x \<in> fst ` set NL2"
    using g1 g2 by simp_all
  have tv: "x \<in> fst ` set NL1 \<or> \<not> symbol_IsIndexVariable x" if "x \<in> variables t" for x
    using that iv(1) by blast
  have tsv: "x \<in> fst ` set NL2 \<or> \<not> symbol_IsIndexVariable x" if "x \<in> variables u" "u \<in> set ts" for x u
    using that iv(2) by blast
  have t: "vsub (asub (NL2 @ NL1)) t = vsub (asub NL1) t" "vsub (asub (NR2 @ NR1)) t = vsub (asub NR1) t"
    by (rule vsub_cong, rule asub_back, use new tv in blast)+
  have ts: "vsub (asub (NL2 @ NL1)) u = vsub (asub NL2) u" "vsub (asub (NR2 @ NR1)) u = vsub (asub NR2) u" if "u \<in> set ts" for u
    by (rule vsub_cong, rule asub_front, use old old' tsv [OF _ that] in blast)+
  have map_ts: "map (vsub (asub (NL2 @ NL1))) ts = map (vsub (asub NL2)) ts" "map (vsub (asub (NR2 @ NR1))) ts = map (vsub (asub NR2)) ts"
    using ts by auto
  have vals: "map (vsub (asub (NL2 @ NL1))) (t # ts) = map erase (l # ls)" "map (vsub (asub (NR2 @ NR1))) (t # ts) = map erase (r # rs)"
    using map_ts t g1 g2 by simp_all
  have doms: "fst ` set (NL2 @ NL1) \<subseteq> fst ` set (NR2 @ NR1) \<union> (\<Union>r \<in> set (r # rs). set (index_vars r))" "fst ` set (NR2 @ NR1) \<subseteq> fresh C s s2"
    using subset_union [OF l Un_upper2 Un_upper1] subset_union [of _ _ "{}" _ _ "{}", OF _ _ F(1,2)] r by (simp_all add: image_Un)
  have vars: "\<forall>u \<in> set (t # ts). \<forall>x \<in> variables u. symbol_IsIndexVariable x \<longrightarrow> x \<in> fst ` set (NL2 @ NL1)"
    using iv by (simp add: image_Un)
  show ?thesis
    unfolding generalises_def
  proof (intro conjI)
    show "advanced (sum_list (map nodes (l # ls))) s s2" using advanced_trans [OF adv] by simp
    show "\<forall>t \<in> set (t # ts). var_leaf t" using g1 g2 by simp
  qed (fact vals doms vars)+
qed

lemma gen_ready_first: "gen_ready ar C s (l # ls) (r # rs) \<Longrightarrow> gen_ready ar C s [l] [r]"
  by (auto simp: gen_ready_def)

lemma gen_ready_rest:
  assumes "gen_ready ar C s (l # ls) (r # rs)" "advanced (nodes l) s s'"
  shows "gen_ready ar C s' ls rs"
  using assms advanced_taken [OF assms(2)] by (auto simp: gen_ready_def) (simp add: advanced_def)+

lemma gen_ready_args:
  assumes "gen_ready ar C s [term_Node Top ts st sz] [R]" "\<not> term_IsIndexVariable R" "Top = term_TopSymbol R"
  shows "gen_ready ar C s ts (term_ArgumentList R)"
  using assms by (cases R) (auto simp: gen_ready_def arity_ok_simp term_IsIndexVariable_def var_leaf_args(1))

lemma var_leaf_Create: "var_leaf (term_Create s ts) \<longleftrightarrow> (\<forall>t \<in> set ts. var_leaf t) \<and> (symbol_IsVariable s \<longrightarrow> ts = [])"
  by (auto simp: var_leaf_def term_Create_def leaf_def term_IsVariable_def)

text \<open>The three cases of the function.\<close>

lemma generalises_index:
  assumes "gen_ready ar C s [L] [R]" "term_IsIndexVariable R"
  shows "generalises C s s [L] [R] [R] [(term_TopSymbol R, L)] []"
proof -
  obtain x st sz where R: "R = term_Node x [] st sz" "symbol_IsIndexVariable x" "symbol_IsVariable x"
    using assms index_variable by (cases R) (auto simp: gen_ready_def term_IsIndexVariable_def dest: var_leaf_args(2))
  have "advanced (nodes L) s s" "var_leaf R" using assms(1) by (simp_all add: gen_ready_def advanced_def)
  then show ?thesis using R(2,3) unfolding generalises_def R(1) by (simp add: asub_def symbol_Equal_def)
qed

lemma generalises_new:
  assumes "advanced 1 s s'" "v \<in> fresh C s s'"
  shows "generalises C s s' [L] [R] [term_Create v []] [(v, L)] [(v, R)]"
proof -
  have "symbol_IsIndexVariable v" "symbol_IsVariable v" using assms(2) index_variable by (auto simp: fresh_def)
  moreover have "advanced (nodes L) s s'" by (rule advanced_mono [OF assms(1)]) (simp add: Suc_le_eq)
  ultimately show ?thesis using assms(2)
    unfolding generalises_def by (simp add: var_leaf_Create) (simp add: term_Create_def asub_def symbol_Equal_def)
qed

lemma generalises_same:
  assumes "generalises C s s' ts (term_ArgumentList R) us NL NR" "gen_ready ar C s [term_Node Top ts st sz] [R]"
    "\<not> term_IsIndexVariable R" "Top = term_TopSymbol R"
  shows "generalises C s s' [term_Node Top ts st sz] [R] [term_Create Top us] NL NR"
proof -
  note g = assms(1)[unfolded generalises_def]
  obtain rs st' sz' where R: "R = term_Node Top rs st' sz'" using assms(4) by (cases R) auto
  have idx: "\<not> symbol_IsIndexVariable Top" using assms(3) R by (simp add: term_IsIndexVariable_def)
  have leaf: "ts = [] \<and> rs = []" if "symbol_IsVariable Top"
    using assms(2) that by (auto simp: gen_ready_def R dest: var_leaf_args(2))
  have us: "length us = length ts" using arg_cong [where f = length, OF conjunct1 [OF conjunct2 [OF conjunct2 [OF g]]]] by simp
  have dom: "Top \<notin> fst ` set NL" "Top \<notin> fst ` set NR" if "symbol_IsVariable Top"
    using g leaf [OF that] idx by (auto simp: R fresh_def)
  have "advanced (nodes (term_Node Top ts st sz)) s s'" using g by (auto simp: advanced_def)
  then show ?thesis
    using g us leaf dom idx by (cases "symbol_IsVariable Top") (simp_all add: generalises_def R asub_other var_leaf_Create, simp_all add: term_Create_def asub_other)
qed


lemma unify_ComGenLinear_ok:
  "gen_ready ar C (snd (snd p)) [L] [R] \<Longrightarrow> \<exists>t q. unify_ComGenLinear C L R p = Some (t, q) \<and> gen_result C [L] [R] p [t] q"
  "gen_ready ar C (snd (snd p)) ls rs \<Longrightarrow> \<exists>ts q. comgen_args C ls rs p = Some (ts, q) \<and> gen_result C ls rs p ts q"
proof (induction C L R p and C ls rs p rule: unify_ComGenLinear_comgen_args.induct)
  case (1 C Top ts st sz R SL SR s)
  let ?L = "term_Node Top ts st sz"
  have ready: "gen_ready ar C s [?L] [R]" using "1.prems" by simp
  have scan: "scan_ok s" using ready by (simp add: gen_ready_def)
  consider (index) "term_IsIndexVariable R" | (same) "\<not> term_IsIndexVariable R" "Top = term_TopSymbol R"
    | (new) "\<not> term_IsIndexVariable R" "Top \<noteq> term_TopSymbol R" by blast
  then show ?case
  proof cases
    case index
    note generalises_index [OF ready index]
    then show ?thesis using index by (auto simp: gen_result_def subst_Add_def)
  next
    case new
    then obtain v s' where v: "cont_NextIndexVariable C s = Some (v, s')" "advanced 1 s s'" "v \<in> fresh C s s'"
      using cont_NextIndexVariable_ok [OF scan, of C] ready by (auto simp: gen_ready_def)
    note generalises_new [OF v(2,3), of ?L R]
    then show ?thesis using new v(1) by (auto simp: gen_result_def subst_Add_def symbol_Equal_def)
  next
    case same
    obtain us q where us: "comgen_args C ts (term_ArgumentList R) (SL, SR, s) = Some (us, q)"
      "gen_result C ts (term_ArgumentList R) (SL, SR, s) us q"
      using "1.IH" [OF refl same(1)] gen_ready_args [OF ready same] same(2) by (auto simp: symbol_Equal_def)
    obtain NL NR where N: "fst q = NL @ SL" "fst (snd q) = NR @ SR" "generalises C s (snd (snd q)) ts (term_ArgumentList R) us NL NR"
      using us(2) by (auto simp: gen_result_def)
    note generalises_same [OF N(3) ready same]
    then show ?thesis using same us(1) N by (auto simp: gen_result_def symbol_Equal_def)
  qed
next
  case (4 C l ls r rs p)
  obtain t q where t: "unify_ComGenLinear C l r p = Some (t, q)" "gen_result C [l] [r] p [t] q"
    using "4.IH"(1) gen_ready_first [OF "4.prems"] by blast
  then have "advanced (nodes l) (snd (snd p)) (snd (snd q))" by (auto simp: gen_result_def generalises_def)
  then obtain ts q' where ts: "comgen_args C ls rs q = Some (ts, q')" "gen_result C ls rs q ts q'"
    using "4.IH"(2) [OF t(1) refl] gen_ready_rest [OF "4.prems"] by blast
  have "gen_result C (l # ls) (r # rs) p (t # ts) q'"
    using t(2) ts(2) generalises_Cons [OF _ _ "4.prems"] unfolding gen_result_def by fastforce
  then show ?case using t(1) ts(1) by (cases q) auto
qed (auto simp: gen_result_def generalises_def gen_ready_def advanced_def)

end
