(* ===== verification/Spass_Match_Properties.thy ===== *)
theory Spass_Match_Properties
  imports Spass_ComGen_Correct Spass_Unify_Properties "HOL-Library.Sublist"
begin

text \<open>
  What matching, the test of variants and common generalisations promise, and where the flexible
  version of matching falls short of it.
\<close>

declare split_paired_All [simp del] split_paired_Ex [simp del]

lemma matched_single:
  assumes "matched A I s [L] [R] r" "r = Some (b, s')" "b \<Longrightarrow> \<exists>\<sigma>. A \<sigma> s'"
  shows "cont_extends s s' \<and> (b \<longleftrightarrow> (\<exists>\<sigma>. A \<sigma> s \<and> vsub \<sigma> L = erase R))
    \<and> (b \<longrightarrow> (\<forall>\<sigma>. A \<sigma> s' \<longleftrightarrow> A \<sigma> s \<and> vsub \<sigma> L = erase R))"
proof (cases b)
  case True
  then show ?thesis using assms by (auto simp: matched_def)
next
  case False
  then show ?thesis using assms by (auto simp: matched_def)
qed

text \<open>C15: matching of terms in which every symbol has one number of arguments (\<open>arity_ok\<close>, for both terms and for the
  terms that are bound already) and variables of the left term have none: \<open>unify_Match\<close> returns; it answers
  \<open>TRUE\<close> exactly when some substitution for the variables of the left term agrees with the bindings of the
  context and gives the right term. Then the bindings that are left determine the matchers, and applying
  them to the left term gives the right one. On these terms \<open>unify_MatchFlexible\<close> does the same.\<close>
theorem unify_Match_correct:
  assumes "arity_ok ar L" "arity_ok ar R" "var_leaf L" "bound_ok ar C s"
  shows "\<exists>b s'. unify_Match C s L R = Some (b, s') \<and> unify_MatchFlexible C s L R = Some (b, s') \<and> cont_extends s s'
     \<and> (b \<longleftrightarrow> (\<exists>\<sigma>. agrees C \<sigma> s \<and> vsub \<sigma> L = erase R))
     \<and> (b \<longrightarrow> (\<forall>\<sigma>. agrees C \<sigma> s' \<longleftrightarrow> agrees C \<sigma> s \<and> vsub \<sigma> L = erase R)
           \<and> erase (cont_ApplyBindingsModuloMatching s' C L) = erase R)"
proof -
  have m: "matched (agrees C) (bound_ok ar C) s [L] [R] (unify_Match C s L R)" by (rule unify_Match_ok [OF assms(1,2,4)])
  then obtain b s' where r: "unify_Match C s L R = Some (b, s')" by (auto simp: matched_def)
  have res: "cont_extends s s'" "b \<longleftrightarrow> (\<exists>\<sigma>. agrees C \<sigma> s \<and> vsub \<sigma> L = erase R)"
    "b \<Longrightarrow> \<forall>\<sigma>. agrees C \<sigma> s' \<longleftrightarrow> agrees C \<sigma> s \<and> vsub \<sigma> L = erase R"
    using matched_single [OF m r] agrees_matcher [of C s'] by blast+
  moreover have "erase (cont_ApplyBindingsModuloMatching s' C L) = erase R" if b
    using res(3) [OF that] agrees_matcher [of C s'] ApplyBindings_vsub [OF assms(3)] by metis
  ultimately show ?thesis using r unify_MatchFlexible_eq [OF assms(1,2)] by auto
qed

text \<open>\<open>unify_Variation\<close> answers \<open>TRUE\<close> exactly when the right term, which has no index variables, is the left
  term with its index variables replaced, in agreement with the bindings.\<close>
theorem unify_Variation_correct:
  assumes "arity_ok ar L" "arity_ok ar R" "var_leaf R" "no_index R" "bound_ok ar C s" "agrees_index C \<sigma>\<^sub>0 s"
  shows "\<exists>b s'. unify_Variation C s L R = Some (b, s') \<and> cont_extends s s'
     \<and> (b \<longleftrightarrow> (\<exists>\<sigma>. agrees_index C \<sigma> s \<and> vsub \<sigma> L = erase R))
     \<and> (b \<longrightarrow> (\<forall>\<sigma>. agrees_index C \<sigma> s' \<longleftrightarrow> agrees_index C \<sigma> s \<and> vsub \<sigma> L = erase R))"
proof -
  have ok: "vari_ok ar C s" using assms(5,6) by (auto simp: vari_ok_def)
  have m: "matched (agrees_index C) (vari_ok ar C) s [L] [R] (unify_Variation C s L R)"
    by (rule unify_Variation_ok [OF assms(1-4) ok])
  then obtain b s' where r: "unify_Variation C s L R = Some (b, s')" "vari_ok ar C s'" by (auto simp: matched_def)
  then show ?thesis using matched_single [OF m r(1)] by (auto simp: vari_ok_def)
qed

text \<open>C16: a common generalisation: \<open>unify_ComGenLinear\<close> extends the two substitutions at their front, so that applying
  the first to the term it returns gives the left term and applying the second gives the right one. The
  substitution for the right term is extended only at new index variables: the scanner has not passed them
  before, they are not in the right term, and those created before are not in use below the context; the one for the left term at these and at index variables of the right
  term. Both terms have to have fixed arities and variables without arguments. The index variables of the right
  term have to occur once each and be in use below the context, the scanner has to be within the
  variables created so far, enough index variables have to be left, and the substitutions must bind
  index variables only, the right one none of the right term.\<close>
theorem unify_ComGenLinear_correct:
  assumes "arity_ok ar L" "arity_ok ar R" "var_leaf L" "var_leaf R" "distinct (index_vars R)"
    "\<forall>x \<in> set (index_vars R). taken C s x" "scan_ok s" "symbol_INDEXVARCOUNTER s + int (nodes L) \<le> symbol_MAXINDEXVAR"
    "\<forall>x \<in> fst ` set SubstL. symbol_IsIndexVariable x"
    "\<forall>x \<in> fst ` set SubstR. symbol_IsIndexVariable x \<and> x \<notin> set (index_vars R)"
  shows "\<exists>t NL NR s'. unify_ComGenLinear C L R (SubstL, SubstR, s) = Some (t, NL @ SubstL, NR @ SubstR, s')
     \<and> (\<forall>x \<in> fst ` set NR. symbol_IsIndexVariable x \<and> cont_INDEXVARSCANNER s < x \<and> \<not> taken C s x \<and> x \<notin> set (index_vars R))
     \<and> fst ` set NL \<subseteq> fst ` set NR \<union> set (index_vars R) \<and> cont_store s' = cont_store s
     \<and> erase (subst_ApplyIntern (NL @ SubstL) t) = erase L \<and> erase (subst_ApplyIntern (NR @ SubstR) t) = erase R"
proof -
  have "gen_ready ar C s [L] [R]" using assms(1-8) by (simp add: gen_ready_def)
  then obtain t q where t: "unify_ComGenLinear C L R (SubstL, SubstR, s) = Some (t, q)" "gen_result C [L] [R] (SubstL, SubstR, s) [t] q"
    using unify_ComGenLinear_ok(1) [of ar C "(SubstL, SubstR, s)"] by fastforce
  then obtain NL NR where q: "fst q = NL @ SubstL" "fst (snd q) = NR @ SubstR"
    and g: "generalises C s (snd (snd q)) [L] [R] [t] NL NR" by (auto simp: gen_result_def)
  have vl: "vsub (asub NL) t = erase L" "vsub (asub NR) t = erase R" and lf: "var_leaf t"
    and iv: "\<And>x. x \<in> variables t \<Longrightarrow> symbol_IsIndexVariable x \<Longrightarrow> x \<in> fst ` set NL"
    and dl: "fst ` set NL \<subseteq> fst ` set NR \<union> set (index_vars R)" and dr: "fst ` set NR \<subseteq> fresh C s (snd (snd q))"
    and adv: "advanced (nodes L) s (snd (snd q))"
    using g by (auto simp: generalises_def)
  have new: "symbol_IsIndexVariable x \<and> cont_INDEXVARSCANNER s < x \<and> \<not> taken C s x \<and> x \<notin> set (index_vars R)"
    if "x \<in> fst ` set NR" for x
    using subsetD [OF dr that] assms(6) by (auto simp: fresh_def)
  have "asub (NL @ SubstL) x = asub NL x" if "x \<in> variables t" for x
    by (rule asub_front) (use iv [OF that] assms(9) in blast)
  from vsub_cong [OF this] have L: "erase (subst_ApplyIntern (NL @ SubstL) t) = erase L"
    using ApplyIntern_vsub [OF lf, of "NL @ SubstL"] vl(1) by simp
  have "asub (NR @ SubstR) x = asub NR x" if "x \<in> variables t" for x
    by (rule asub_front) (use iv [OF that] dl assms(10) in blast)
  from vsub_cong [OF this] have R: "erase (subst_ApplyIntern (NR @ SubstR) t) = erase R"
    using ApplyIntern_vsub [OF lf, of "NR @ SubstR"] vl(2) by simp
  obtain s' where q': "q = (NL @ SubstL, NR @ SubstR, s')" using q by (cases q) auto
  show ?thesis using t(1) new dl L R advanced_store [OF adv] unfolding q'
    by (intro exI [of _ t] exI [of _ NL] exI [of _ NR] exI [of _ s']) simp
qed

text \<open>C17: \<open>unify_MatchFlexible\<close> does not check the second occurrence of a variable against a term whose top symbol has
  a flexible number of arguments: it accepts \<open>f(a(), a(t))\<close> as an instance of \<open>f(x, x)\<close>.\<close>
theorem unify_MatchFlexible_not_instance:
  assumes "symbol_IsVariable x" "cont_ContextBindingTerm C x s = None" "\<not> symbol_IsVariable f" "\<not> symbol_IsVariable a"
    "L = term_Create f [term_Create x [], term_Create x []]" "R = term_Create f [term_Create a [], term_Create a [t]]"
  shows "(\<exists>s'. unify_MatchFlexible C s L R = Some (True, s')) \<and> (\<forall>\<sigma>. vsub \<sigma> L \<noteq> erase R)"
  using assms(1-4) unfolding assms(5,6)
  by (auto simp: term_Create_def CreateBinding_Term symbol_Equal_def)

section \<open>Concrete terms\<close>

text \<open>\<open>f(g(z), g(z))\<close>, \<open>f(v, v)\<close> and \<open>f(g(z), v)\<close> with the index variable \<open>v\<close>, and a state in which \<open>v\<close> is in use.\<close>

definition sample_inst :: TERM_NODE where
  "sample_inst = term_Create (-5) [term_Create (-9) [term_Create 3 []], term_Create (-9) [term_Create 3 []]]"
definition sample_vv :: TERM_NODE where
  "sample_vv = term_Create (-5) [term_Create 2001 [], term_Create 2001 []]"
definition sample_gv :: TERM_NODE where
  "sample_gv = term_Create (-5) [term_Create (-9) [term_Create 3 []], term_Create 2001 []]"
definition sample_used :: cont_state where
  "sample_used = snd (cont_CreateBinding 1 2001 1 (Some (term_Create 2 [])) sample_cont)\<lparr>symbol_INDEXVARCOUNTER := 2001\<rparr>"

lemma sample_unbound: "cont_ContextBindingTerm C x sample_cont = None"
  by (simp add: access_defs sample_cont_def)

lemma sample_bound_ok: "bound_ok ar C sample_cont"
  by (simp add: bound_ok_def sample_unbound)

lemma sample_agrees: "agrees_index C (\<lambda>x. term_Node x [] 0 0) sample_cont"
  by (simp add: agrees_index_def agrees_def sample_unbound)

lemmas sample_inst_defs = sample_inst_def sample_vv_def sample_gv_def sample_l_def sample_r_def term_Create_def

lemma sample_arities: "arity_ok sample_ar sample_l" "arity_ok sample_ar sample_r" "arity_ok sample_ar sample_inst"
    "arity_ok sample_ar sample_vv" "arity_ok sample_ar sample_gv"
  by (simp_all add: sample_inst_defs sample_ar_def arity_ok_simp)

lemma sample_leaves: "var_leaf sample_l" "var_leaf sample_r" "var_leaf sample_inst" "var_leaf sample_gv"
  by (simp_all add: sample_inst_defs var_leaf_def leaf_def term_IsVariable_def symbol_IsVariable_def)

theorem unify_Match_correct_witness:
  "\<exists>s'. unify_Match 1 sample_cont sample_l sample_inst = Some (True, s')
     \<and> erase (cont_ApplyBindingsModuloMatching s' 1 sample_l) = erase sample_inst"
proof -
  have "vsub ((\<lambda>x. term_Node x [] 0 0)(1 := erase (term_Create (-9) [term_Create 3 []]))) sample_l = erase sample_inst"
    by (simp add: sample_inst_defs symbol_IsVariable_def)
  then have "\<exists>\<sigma>. agrees 1 \<sigma> sample_cont \<and> vsub \<sigma> sample_l = erase sample_inst" by (auto simp: agrees_def sample_unbound)
  then show ?thesis
    using unify_Match_correct [OF sample_arities(1,3) sample_leaves(1) sample_bound_ok, of 1] by auto
qed

theorem unify_Variation_correct_witness:
  "\<exists>s'. unify_Variation 1 sample_cont sample_vv sample_inst = Some (True, s')"
proof -
  have "vsub ((\<lambda>x. term_Node x [] 0 0)(2001 := erase (term_Create (-9) [term_Create 3 []]))) sample_vv = erase sample_inst"
    by (simp add: sample_inst_defs symbol_IsVariable_def)
  then have "\<exists>\<sigma>. agrees_index 1 \<sigma> sample_cont \<and> vsub \<sigma> sample_vv = erase sample_inst"
    by (intro exI conjI) (auto simp: agrees_index_def agrees_def sample_unbound symbol_IsIndexVariable_def symbol_consts)
  moreover have "no_index sample_inst"
    by (simp add: sample_inst_defs no_index_def term_IsIndexVariable_def symbol_IsIndexVariable_def symbol_consts)
  ultimately show ?thesis
    using unify_Variation_correct [OF sample_arities(4,3) sample_leaves(3) _ sample_bound_ok sample_agrees, of 1] by auto
qed

theorem unify_ComGenLinear_correct_witness:
  "\<exists>t SubstL SubstR s'. unify_ComGenLinear 1 sample_r sample_gv ([], [], sample_used) = Some (t, SubstL, SubstR, s')
     \<and> erase (subst_ApplyIntern SubstL t) = erase sample_r \<and> erase (subst_ApplyIntern SubstR t) = erase sample_gv"
proof -
  have "index_vars sample_gv = [2001]"
    by (simp add: sample_gv_def term_Create_def symbol_IsIndexVariable_def symbol_consts)
  moreover have "taken 1 sample_used 2001"
    by (simp add: taken_def sample_used_def cont_VarIsUsed_def access_defs cont_CreateBinding_def cont_CreateBindingHelp_def)
  moreover have "scan_ok sample_used" "symbol_INDEXVARCOUNTER sample_used + int (nodes sample_r) \<le> symbol_MAXINDEXVAR"
    by (simp_all add: scan_ok_def sample_used_def sample_cont_def sample_r_def term_Create_def symbol_consts
        cont_CreateBinding_def cont_CreateBindingHelp_def set_node_def)
  ultimately show ?thesis
    using unify_ComGenLinear_correct [OF sample_arities(2,5) sample_leaves(2,4), of 1 sample_used "[]" "[]"] by auto
qed

theorem unify_MatchFlexible_not_instance_witness:
  "\<exists>s'. unify_MatchFlexible 1 sample_cont sample_l (term_Create (-5) [term_Create (-9) [], term_Create (-9) [term_Create 3 []]]) = Some (True, s')"
  by (rule conjunct1 [OF unify_MatchFlexible_not_instance [where x = 1 and f = "-5" and a = "-9"]])
    (simp_all add: sample_unbound sample_l_def symbol_IsVariable_def)

end
