(* ===== verification/Spass_Formula.thy ===== *)
theory Spass_Formula
  imports Spass_Term
begin

text \<open>
  Formulas as terms (\<open>foldfg.h\<close>, \<open>foldfg.c\<close>).

  A formula is a term whose top symbol is a junctor or a predicate. The symbols are created once by
  \<open>fol_Init\<close> and kept in global variables, here in the record \<open>fol_symbols\<close>, whose fields have the names
  of the inline functions that read the variables. A quantifier has two arguments, a list of variables
  below the symbol \<open>fol_Varlist\<close>, and the formula.

  The specification side is \<open>holds\<close>: the truth of a formula in an interpretation, over any type of
  values, with quantifiers that change the assignment. The lemmas give its value for each junctor and
  show that it depends on the free variables only.
\<close>

section \<open>The symbols of first-order logic\<close>

record fol_symbols =
  fol_All :: SYMBOL
  fol_Exist :: SYMBOL
  fol_And :: SYMBOL
  fol_Or :: SYMBOL
  fol_Not :: SYMBOL
  fol_Implies :: SYMBOL
  fol_Implied :: SYMBOL
  fol_Equiv :: SYMBOL
  fol_Xor :: SYMBOL
  fol_Nor :: SYMBOL
  fol_Nand :: SYMBOL
  fol_Varlist :: SYMBOL
  fol_Equality :: SYMBOL
  fol_NonEquality :: SYMBOL
  fol_True :: SYMBOL
  fol_False :: SYMBOL

definition fol_IsQuantifier :: "fol_symbols \<Rightarrow> SYMBOL \<Rightarrow> bool" where
  "fol_IsQuantifier F S \<longleftrightarrow> symbol_Equal (fol_All F) S \<or> symbol_Equal (fol_Exist F) S"

definition fol_IsTrue :: "fol_symbols \<Rightarrow> TERM_NODE \<Rightarrow> bool" where
  "fol_IsTrue F S \<longleftrightarrow> symbol_Equal (fol_True F) (term_TopSymbol S)"

definition fol_IsFalse :: "fol_symbols \<Rightarrow> TERM_NODE \<Rightarrow> bool" where
  "fol_IsFalse F S \<longleftrightarrow> symbol_Equal (fol_False F) (term_TopSymbol S)"

definition fol_QuantifierVariables :: "TERM_NODE \<Rightarrow> TERM_NODE list option" where
  "fol_QuantifierVariables T = map_option term_ArgumentList (term_FirstArgument T)"

definition fol_IsNegativeLiteral :: "fol_symbols \<Rightarrow> TERM_NODE \<Rightarrow> bool option" where
  "fol_IsNegativeLiteral F T =
     (if symbol_Equal (term_TopSymbol T) (fol_Not F)
      then map_option (\<lambda>a. symbol_IsPredicate (term_TopSymbol a)) (term_FirstArgument T)
      else Some False)"

definition fol_IsJunctor :: "fol_symbols \<Rightarrow> SYMBOL \<Rightarrow> bool" where
  "fol_IsJunctor F S \<longleftrightarrow> fol_IsQuantifier F S \<or> symbol_Equal S (fol_And F) \<or> symbol_Equal S (fol_Or F)
     \<or> symbol_Equal S (fol_Not F) \<or> symbol_Equal S (fol_Implied F) \<or> symbol_Equal S (fol_Varlist F)
     \<or> symbol_Equal S (fol_Implies F) \<or> symbol_Equal S (fol_Equiv F) \<or> symbol_Equal S (fol_Xor F)
     \<or> symbol_Equal S (fol_Nor F) \<or> symbol_Equal S (fol_Nand F)"

definition fol_Atom :: "fol_symbols \<Rightarrow> TERM_NODE \<Rightarrow> TERM_NODE option" where
  "fol_Atom F Lit = (if term_TopSymbol Lit = fol_Not F then term_FirstArgument Lit else Some Lit)"

definition fol_IsLiteral :: "fol_symbols \<Rightarrow> TERM_NODE \<Rightarrow> bool option" where
  "fol_IsLiteral F T =
     (if symbol_IsPredicate (term_TopSymbol T) then Some True
      else if symbol_Equal (term_TopSymbol T) (fol_Not F)
      then map_option (\<lambda>a. symbol_IsPredicate (term_TopSymbol a)) (term_FirstArgument T)
      else Some False)"

definition fol_DeleteFalseTermFromList :: "fol_symbols \<Rightarrow> TERM_NODE list \<Rightarrow> TERM_NODE list" where
  "fol_DeleteFalseTermFromList F List = filter (\<lambda>t. \<not> fol_IsFalse F t) List"

definition fol_DeleteTrueTermFromList :: "fol_symbols \<Rightarrow> TERM_NODE list \<Rightarrow> TERM_NODE list" where
  "fol_DeleteTrueTermFromList F List = filter (\<lambda>t. \<not> fol_IsTrue F t) List"

definition fol_CreateQuantifier :: "fol_symbols \<Rightarrow> SYMBOL \<Rightarrow> TERM_NODE list \<Rightarrow> TERM_NODE list \<Rightarrow> TERM_NODE" where
  "fol_CreateQuantifier F Quantifier VarList Arguments = term_Create Quantifier (term_Create (fol_Varlist F) VarList # Arguments)"

definition fol_ComplementaryTerm :: "fol_symbols \<Rightarrow> TERM_NODE \<Rightarrow> TERM_NODE option" where
  "fol_ComplementaryTerm F Term =
     (if symbol_Equal (term_TopSymbol Term) (fol_Not F) then map_option term_Copy (term_FirstArgument Term)
      else Some (term_Create (fol_Not F) [term_Copy Term]))"

text \<open>The symbols are different, the first twelve are junctors, the others predicates.\<close>

definition fol_junctors :: "fol_symbols \<Rightarrow> SYMBOL list" where
  "fol_junctors F = [fol_All F, fol_Exist F, fol_And F, fol_Or F, fol_Not F, fol_Implies F, fol_Implied F, fol_Equiv F,
     fol_Xor F, fol_Nor F, fol_Nand F, fol_Varlist F]"

definition fol_predicates :: "fol_symbols \<Rightarrow> SYMBOL list" where
  "fol_predicates F = [fol_Equality F, fol_NonEquality F, fol_True F, fol_False F]"

definition fol_ok :: "fol_symbols \<Rightarrow> bool" where
  "fol_ok F \<longleftrightarrow> distinct (fol_junctors F) \<and> distinct (fol_predicates F)
     \<and> (\<forall>s \<in> set (fol_junctors F). symbol_IsJunctor s) \<and> (\<forall>s \<in> set (fol_predicates F). symbol_IsPredicate s)"

lemma junctor_kind: "symbol_IsJunctor s \<Longrightarrow> \<not> symbol_IsPredicate s \<and> \<not> symbol_IsVariable s \<and> \<not> symbol_IsFunction s"
  by (auto simp: symbol_IsJunctor_def symbol_IsPredicate_def symbol_IsVariable_def symbol_IsFunction_def symbol_IsSignature_def
      symbol_consts)

lemma predicate_kind: "symbol_IsPredicate s \<Longrightarrow> \<not> symbol_IsJunctor s \<and> \<not> symbol_IsVariable s \<and> \<not> symbol_IsFunction s"
  by (auto simp: symbol_IsJunctor_def symbol_IsPredicate_def symbol_IsVariable_def symbol_IsFunction_def symbol_IsSignature_def
      symbol_consts)

lemma function_kind: "symbol_IsFunction s \<Longrightarrow> \<not> symbol_IsJunctor s \<and> \<not> symbol_IsVariable s \<and> \<not> symbol_IsPredicate s"
  by (auto simp: symbol_IsJunctor_def symbol_IsPredicate_def symbol_IsVariable_def symbol_IsFunction_def symbol_IsSignature_def
      symbol_consts)

named_theorems fol_simps \<open>values of the tests on the symbols of first-order logic\<close>

lemma fol_distinct:
  assumes "fol_ok F"
  shows "distinct (fol_junctors F @ fol_predicates F)"
  using assms junctor_kind predicate_kind by (auto simp: fol_ok_def)

lemma fol_symbol_kinds [fol_simps]:
  assumes "fol_ok F"
  shows "symbol_IsPredicate (fol_Equality F)" "symbol_IsPredicate (fol_NonEquality F)" "symbol_IsPredicate (fol_True F)"
    "symbol_IsPredicate (fol_False F)" "s \<in> set (fol_junctors F) \<Longrightarrow> \<not> symbol_IsPredicate s"
    "s \<in> set (fol_junctors F) \<Longrightarrow> \<not> symbol_IsVariable s" "s \<in> set (fol_junctors F) \<Longrightarrow> \<not> symbol_IsFunction s"
  using assms junctor_kind by (auto simp: fol_ok_def fol_predicates_def)

section \<open>Formulas\<close>

text \<open>Terms without junctors and predicates, as arguments of predicates.\<close>

definition plain_term :: "TERM_NODE \<Rightarrow> bool" where
  "plain_term t \<longleftrightarrow> (\<forall>u \<in> set (subterms t). symbol_IsFunction (term_TopSymbol u) \<or> term_IsVariable u \<and> leaf u)"

definition vlist_ok :: "fol_symbols \<Rightarrow> TERM_NODE \<Rightarrow> bool" where
  "vlist_ok F vl \<longleftrightarrow> term_TopSymbol vl = fol_Varlist F \<and> (\<forall>x \<in> set (term_ArgumentList vl). term_IsVariable x \<and> leaf x)"

definition vars_of :: "TERM_NODE \<Rightarrow> SYMBOL set" where
  "vars_of vl = term_TopSymbol ` set (term_ArgumentList vl)"

fun fol_formula :: "fol_symbols \<Rightarrow> TERM_NODE \<Rightarrow> bool" where
  "fol_formula F (term_Node s ts st sz) =
     (if s = fol_All F \<or> s = fol_Exist F then (case ts of [vl, b] \<Rightarrow> vlist_ok F vl \<and> fol_formula F b | _ \<Rightarrow> False)
      else if s = fol_And F \<or> s = fol_Or F \<or> s = fol_Nor F \<or> s = fol_Nand F then ts \<noteq> [] \<and> (\<forall>t \<in> set ts. fol_formula F t)
      else if s = fol_Not F then (case ts of [t] \<Rightarrow> fol_formula F t | _ \<Rightarrow> False)
      else if s = fol_Implies F \<or> s = fol_Implied F \<or> s = fol_Equiv F \<or> s = fol_Xor F
      then (case ts of [a, b] \<Rightarrow> fol_formula F a \<and> fol_formula F b | _ \<Rightarrow> False)
      else symbol_IsPredicate s \<and> (\<forall>t \<in> set ts. plain_term t) \<and> (s = fol_True F \<or> s = fol_False F \<longrightarrow> ts = [])
        \<and> (s = fol_Equality F \<longrightarrow> length ts = 2))"

lemma fol_formula_induct [consumes 1, case_names quantifier many one two atom]:
  assumes "fol_formula F t"
    and "\<And>s vl b st sz. s = fol_All F \<or> s = fol_Exist F \<Longrightarrow> vlist_ok F vl \<Longrightarrow> fol_formula F b \<Longrightarrow> P b \<Longrightarrow> P (term_Node s [vl, b] st sz)"
    and "\<And>s ts st sz. s = fol_And F \<or> s = fol_Or F \<or> s = fol_Nor F \<or> s = fol_Nand F \<Longrightarrow> ts \<noteq> []
      \<Longrightarrow> (\<And>t. t \<in> set ts \<Longrightarrow> fol_formula F t) \<Longrightarrow> (\<And>t. t \<in> set ts \<Longrightarrow> P t) \<Longrightarrow> P (term_Node s ts st sz)"
    and "\<And>t st sz. fol_formula F t \<Longrightarrow> P t \<Longrightarrow> P (term_Node (fol_Not F) [t] st sz)"
    and "\<And>s a b st sz. s = fol_Implies F \<or> s = fol_Implied F \<or> s = fol_Equiv F \<or> s = fol_Xor F \<Longrightarrow> fol_formula F a \<Longrightarrow> fol_formula F b
      \<Longrightarrow> P a \<Longrightarrow> P b \<Longrightarrow> P (term_Node s [a, b] st sz)"
    and "\<And>s ts st sz. symbol_IsPredicate s \<Longrightarrow> (\<And>t. t \<in> set ts \<Longrightarrow> plain_term t) \<Longrightarrow> (s = fol_True F \<or> s = fol_False F \<Longrightarrow> ts = [])
      \<Longrightarrow> (s = fol_Equality F \<Longrightarrow> length ts = 2) \<Longrightarrow> P (term_Node s ts st sz)"
  shows "P t"
  using assms(1)
proof (induction t)
  case (term_Node s ts st sz)
  show ?case
  proof (cases "s = fol_All F \<or> s = fol_Exist F")
    case True
    then obtain vl b where "ts = [vl, b]" "vlist_ok F vl" "fol_formula F b" using term_Node.prems by (auto split: list.splits)
    then show ?thesis using term_Node.IH True assms(2) by auto
  next
    case nq: False
    show ?thesis
    proof (cases "s = fol_And F \<or> s = fol_Or F \<or> s = fol_Nor F \<or> s = fol_Nand F")
      case True
      then have "ts \<noteq> []" "\<forall>t \<in> set ts. fol_formula F t" using nq term_Node.prems by auto
      then show ?thesis using term_Node.IH True assms(3) by auto
    next
      case nm: False
      show ?thesis
      proof (cases "s = fol_Not F")
        case True
        then obtain t where "ts = [t]" "fol_formula F t" using nq nm term_Node.prems by (auto split: list.splits)
        then show ?thesis using term_Node.IH True assms(4) by auto
      next
        case no: False
        show ?thesis
        proof (cases "s = fol_Implies F \<or> s = fol_Implied F \<or> s = fol_Equiv F \<or> s = fol_Xor F")
          case True
          then obtain a b where "ts = [a, b]" "fol_formula F a" "fol_formula F b" using nq nm no term_Node.prems by (auto split: list.splits)
          then show ?thesis using term_Node.IH True assms(5) by auto
        next
          case False
          then have "symbol_IsPredicate s" "\<forall>t \<in> set ts. plain_term t" "s = fol_True F \<or> s = fol_False F \<longrightarrow> ts = []"
            "s = fol_Equality F \<longrightarrow> length ts = 2"
            using nq nm no term_Node.prems by simp_all
          then show ?thesis by (intro assms(6)) simp_all
        qed
      qed
    qed
  qed
qed

lemma fol_formula_cases [consumes 1, case_names quantifier many one two atom]:
  assumes "fol_formula F t"
  obtains s vl b st sz where "t = term_Node s [vl, b] st sz" "s = fol_All F \<or> s = fol_Exist F" "vlist_ok F vl" "fol_formula F b"
  | s ts st sz where "t = term_Node s ts st sz" "s = fol_And F \<or> s = fol_Or F \<or> s = fol_Nor F \<or> s = fol_Nand F" "ts \<noteq> []"
      "\<And>t. t \<in> set ts \<Longrightarrow> fol_formula F t"
  | u st sz where "t = term_Node (fol_Not F) [u] st sz" "fol_formula F u"
  | s a b st sz where "t = term_Node s [a, b] st sz" "s = fol_Implies F \<or> s = fol_Implied F \<or> s = fol_Equiv F \<or> s = fol_Xor F"
      "fol_formula F a" "fol_formula F b"
  | s ts st sz where "t = term_Node s ts st sz" "symbol_IsPredicate s" "\<And>t. t \<in> set ts \<Longrightarrow> plain_term t"
      "s = fol_True F \<or> s = fol_False F \<Longrightarrow> ts = []" "s = fol_Equality F \<Longrightarrow> length ts = 2"
proof -
  show ?thesis
    using assms that
  proof (induction t rule: fol_formula_induct)
    case (quantifier s vl b st sz)
    show ?case by (rule quantifier.prems(1) [OF refl]) (use quantifier.hyps in simp_all)
  next
    case (many s ts st sz)
    show ?case by (rule many.prems(2) [OF refl]) (use many.hyps in simp_all)
  next
    case (one t st sz)
    show ?case by (rule one.prems(3) [OF refl]) (use one.hyps in simp_all)
  next
    case (two s a b st sz)
    show ?case by (rule two.prems(4) [OF refl]) (use two.hyps in simp_all)
  next
    case (atom s ts st sz)
    show ?case by (rule atom.prems(5) [OF refl]) (use atom.hyps in simp_all)
  qed
qed

section \<open>Truth\<close>

type_synonym 'a interp = "(SYMBOL \<Rightarrow> 'a list \<Rightarrow> 'a) \<times> (SYMBOL \<Rightarrow> 'a list \<Rightarrow> bool)"

fun term_value :: "'a interp \<Rightarrow> (SYMBOL \<Rightarrow> 'a) \<Rightarrow> TERM_NODE \<Rightarrow> 'a" where
  "term_value I v (term_Node s ts st sz) = (if symbol_IsVariable s then v s else fst I s (map (term_value I v) ts))"

text \<open>Assignments that agree but for some variables.\<close>

definition agree_off :: "SYMBOL set \<Rightarrow> (SYMBOL \<Rightarrow> 'a) \<Rightarrow> (SYMBOL \<Rightarrow> 'a) \<Rightarrow> bool" where
  "agree_off X v w \<longleftrightarrow> (\<forall>x. x \<notin> X \<longrightarrow> w x = v x)"

fun holds :: "fol_symbols \<Rightarrow> 'a interp \<Rightarrow> (SYMBOL \<Rightarrow> 'a) \<Rightarrow> TERM_NODE \<Rightarrow> bool" where
  "holds F I v (term_Node s ts st sz) =
     (if s = fol_All F then (case ts of [vl, b] \<Rightarrow> (\<forall>w. agree_off (vars_of vl) v w \<longrightarrow> holds F I w b) | _ \<Rightarrow> False)
      else if s = fol_Exist F then (case ts of [vl, b] \<Rightarrow> (\<exists>w. agree_off (vars_of vl) v w \<and> holds F I w b) | _ \<Rightarrow> False)
      else if s = fol_And F then (\<forall>t \<in> set ts. holds F I v t)
      else if s = fol_Or F then (\<exists>t \<in> set ts. holds F I v t)
      else if s = fol_Nand F then (\<exists>t \<in> set ts. \<not> holds F I v t)
      else if s = fol_Nor F then (\<forall>t \<in> set ts. \<not> holds F I v t)
      else if s = fol_Not F then (case ts of [t] \<Rightarrow> \<not> holds F I v t | _ \<Rightarrow> False)
      else if s = fol_Implies F then (case ts of [a, b] \<Rightarrow> holds F I v a \<longrightarrow> holds F I v b | _ \<Rightarrow> False)
      else if s = fol_Implied F then (case ts of [a, b] \<Rightarrow> holds F I v b \<longrightarrow> holds F I v a | _ \<Rightarrow> False)
      else if s = fol_Equiv F then (case ts of [a, b] \<Rightarrow> holds F I v a \<longleftrightarrow> holds F I v b | _ \<Rightarrow> False)
      else if s = fol_Xor F then (case ts of [a, b] \<Rightarrow> holds F I v a \<noteq> holds F I v b | _ \<Rightarrow> False)
      else if s = fol_True F then True
      else if s = fol_False F then False
      else if s = fol_Equality F then (case ts of [a, b] \<Rightarrow> term_value I v a = term_value I v b | _ \<Rightarrow> False)
      else snd I s (map (term_value I v) ts))"

lemma fol_neq_one:
  assumes "fol_ok F"
  shows "fol_All F \<noteq> fol_Exist F \<and> fol_All F \<noteq> fol_And F \<and> fol_All F \<noteq> fol_Or F \<and> fol_All F \<noteq> fol_Not F \<and>
     fol_All F \<noteq> fol_Implies F \<and> fol_All F \<noteq> fol_Implied F \<and> fol_All F \<noteq> fol_Equiv F \<and> fol_All F \<noteq> fol_Xor F \<and>
     fol_All F \<noteq> fol_Nor F \<and> fol_All F \<noteq> fol_Nand F \<and> fol_All F \<noteq> fol_Varlist F \<and> fol_All F \<noteq> fol_Equality F \<and>
     fol_All F \<noteq> fol_NonEquality F \<and> fol_All F \<noteq> fol_True F \<and> fol_All F \<noteq> fol_False F \<and> fol_Exist F \<noteq> fol_And F \<and>
     fol_Exist F \<noteq> fol_Or F \<and> fol_Exist F \<noteq> fol_Not F \<and> fol_Exist F \<noteq> fol_Implies F \<and> fol_Exist F \<noteq> fol_Implied F \<and>
     fol_Exist F \<noteq> fol_Equiv F \<and> fol_Exist F \<noteq> fol_Xor F \<and> fol_Exist F \<noteq> fol_Nor F \<and> fol_Exist F \<noteq> fol_Nand F \<and>
     fol_Exist F \<noteq> fol_Varlist F \<and> fol_Exist F \<noteq> fol_Equality F \<and> fol_Exist F \<noteq> fol_NonEquality F \<and> fol_Exist F \<noteq> fol_True F \<and>
     fol_Exist F \<noteq> fol_False F \<and> fol_And F \<noteq> fol_Or F \<and> fol_And F \<noteq> fol_Not F \<and> fol_And F \<noteq> fol_Implies F \<and>
     fol_And F \<noteq> fol_Implied F \<and> fol_And F \<noteq> fol_Equiv F \<and> fol_And F \<noteq> fol_Xor F \<and> fol_And F \<noteq> fol_Nor F \<and>
     fol_And F \<noteq> fol_Nand F \<and> fol_And F \<noteq> fol_Varlist F \<and> fol_And F \<noteq> fol_Equality F \<and> fol_And F \<noteq> fol_NonEquality F \<and>
     fol_And F \<noteq> fol_True F \<and> fol_And F \<noteq> fol_False F \<and> fol_Or F \<noteq> fol_Not F \<and> fol_Or F \<noteq> fol_Implies F \<and>
     fol_Or F \<noteq> fol_Implied F \<and> fol_Or F \<noteq> fol_Equiv F \<and> fol_Or F \<noteq> fol_Xor F \<and> fol_Or F \<noteq> fol_Nor F \<and>
     fol_Or F \<noteq> fol_Nand F \<and> fol_Or F \<noteq> fol_Varlist F \<and> fol_Or F \<noteq> fol_Equality F \<and> fol_Or F \<noteq> fol_NonEquality F \<and>
     fol_Or F \<noteq> fol_True F \<and> fol_Or F \<noteq> fol_False F \<and> fol_Not F \<noteq> fol_Implies F \<and> fol_Not F \<noteq> fol_Implied F \<and>
     fol_Not F \<noteq> fol_Equiv F \<and> fol_Not F \<noteq> fol_Xor F \<and> fol_Not F \<noteq> fol_Nor F \<and> fol_Not F \<noteq> fol_Nand F \<and>
     fol_Not F \<noteq> fol_Varlist F \<and> fol_Not F \<noteq> fol_Equality F \<and> fol_Not F \<noteq> fol_NonEquality F \<and> fol_Not F \<noteq> fol_True F \<and>
     fol_Not F \<noteq> fol_False F \<and> fol_Implies F \<noteq> fol_Implied F \<and> fol_Implies F \<noteq> fol_Equiv F \<and> fol_Implies F \<noteq> fol_Xor F \<and>
     fol_Implies F \<noteq> fol_Nor F \<and> fol_Implies F \<noteq> fol_Nand F \<and> fol_Implies F \<noteq> fol_Varlist F \<and> fol_Implies F \<noteq> fol_Equality F \<and>
     fol_Implies F \<noteq> fol_NonEquality F \<and> fol_Implies F \<noteq> fol_True F \<and> fol_Implies F \<noteq> fol_False F \<and> fol_Implied F \<noteq> fol_Equiv F \<and>
     fol_Implied F \<noteq> fol_Xor F \<and> fol_Implied F \<noteq> fol_Nor F \<and> fol_Implied F \<noteq> fol_Nand F \<and> fol_Implied F \<noteq> fol_Varlist F \<and>
     fol_Implied F \<noteq> fol_Equality F \<and> fol_Implied F \<noteq> fol_NonEquality F \<and> fol_Implied F \<noteq> fol_True F \<and> fol_Implied F \<noteq> fol_False F \<and>
     fol_Equiv F \<noteq> fol_Xor F \<and> fol_Equiv F \<noteq> fol_Nor F \<and> fol_Equiv F \<noteq> fol_Nand F \<and> fol_Equiv F \<noteq> fol_Varlist F \<and>
     fol_Equiv F \<noteq> fol_Equality F \<and> fol_Equiv F \<noteq> fol_NonEquality F \<and> fol_Equiv F \<noteq> fol_True F \<and> fol_Equiv F \<noteq> fol_False F \<and>
     fol_Xor F \<noteq> fol_Nor F \<and> fol_Xor F \<noteq> fol_Nand F \<and> fol_Xor F \<noteq> fol_Varlist F \<and> fol_Xor F \<noteq> fol_Equality F \<and>
     fol_Xor F \<noteq> fol_NonEquality F \<and> fol_Xor F \<noteq> fol_True F \<and> fol_Xor F \<noteq> fol_False F \<and> fol_Nor F \<noteq> fol_Nand F \<and>
     fol_Nor F \<noteq> fol_Varlist F \<and> fol_Nor F \<noteq> fol_Equality F \<and> fol_Nor F \<noteq> fol_NonEquality F \<and> fol_Nor F \<noteq> fol_True F \<and>
     fol_Nor F \<noteq> fol_False F \<and> fol_Nand F \<noteq> fol_Varlist F \<and> fol_Nand F \<noteq> fol_Equality F \<and> fol_Nand F \<noteq> fol_NonEquality F \<and>
     fol_Nand F \<noteq> fol_True F \<and> fol_Nand F \<noteq> fol_False F \<and> fol_Varlist F \<noteq> fol_Equality F \<and> fol_Varlist F \<noteq> fol_NonEquality F \<and>
     fol_Varlist F \<noteq> fol_True F \<and> fol_Varlist F \<noteq> fol_False F \<and> fol_Equality F \<noteq> fol_NonEquality F \<and> fol_Equality F \<noteq> fol_True F \<and>
     fol_Equality F \<noteq> fol_False F \<and> fol_NonEquality F \<noteq> fol_True F \<and> fol_NonEquality F \<noteq> fol_False F \<and> fol_True F \<noteq> fol_False F"
  using fol_distinct [OF assms]
  by (simp only: fol_junctors_def fol_predicates_def append.simps distinct.simps list.set insert_iff empty_iff de_Morgan_disj
      HOL.simp_thms conj_assoc)

lemma fol_neq_two:
  assumes "fol_ok F"
  shows "fol_Exist F \<noteq> fol_All F \<and> fol_And F \<noteq> fol_All F \<and> fol_Or F \<noteq> fol_All F \<and> fol_Not F \<noteq> fol_All F \<and>
     fol_Implies F \<noteq> fol_All F \<and> fol_Implied F \<noteq> fol_All F \<and> fol_Equiv F \<noteq> fol_All F \<and> fol_Xor F \<noteq> fol_All F \<and>
     fol_Nor F \<noteq> fol_All F \<and> fol_Nand F \<noteq> fol_All F \<and> fol_Varlist F \<noteq> fol_All F \<and> fol_Equality F \<noteq> fol_All F \<and>
     fol_NonEquality F \<noteq> fol_All F \<and> fol_True F \<noteq> fol_All F \<and> fol_False F \<noteq> fol_All F \<and> fol_And F \<noteq> fol_Exist F \<and>
     fol_Or F \<noteq> fol_Exist F \<and> fol_Not F \<noteq> fol_Exist F \<and> fol_Implies F \<noteq> fol_Exist F \<and> fol_Implied F \<noteq> fol_Exist F \<and>
     fol_Equiv F \<noteq> fol_Exist F \<and> fol_Xor F \<noteq> fol_Exist F \<and> fol_Nor F \<noteq> fol_Exist F \<and> fol_Nand F \<noteq> fol_Exist F \<and>
     fol_Varlist F \<noteq> fol_Exist F \<and> fol_Equality F \<noteq> fol_Exist F \<and> fol_NonEquality F \<noteq> fol_Exist F \<and> fol_True F \<noteq> fol_Exist F \<and>
     fol_False F \<noteq> fol_Exist F \<and> fol_Or F \<noteq> fol_And F \<and> fol_Not F \<noteq> fol_And F \<and> fol_Implies F \<noteq> fol_And F \<and>
     fol_Implied F \<noteq> fol_And F \<and> fol_Equiv F \<noteq> fol_And F \<and> fol_Xor F \<noteq> fol_And F \<and> fol_Nor F \<noteq> fol_And F \<and>
     fol_Nand F \<noteq> fol_And F \<and> fol_Varlist F \<noteq> fol_And F \<and> fol_Equality F \<noteq> fol_And F \<and> fol_NonEquality F \<noteq> fol_And F \<and>
     fol_True F \<noteq> fol_And F \<and> fol_False F \<noteq> fol_And F \<and> fol_Not F \<noteq> fol_Or F \<and> fol_Implies F \<noteq> fol_Or F \<and>
     fol_Implied F \<noteq> fol_Or F \<and> fol_Equiv F \<noteq> fol_Or F \<and> fol_Xor F \<noteq> fol_Or F \<and> fol_Nor F \<noteq> fol_Or F \<and>
     fol_Nand F \<noteq> fol_Or F \<and> fol_Varlist F \<noteq> fol_Or F \<and> fol_Equality F \<noteq> fol_Or F \<and> fol_NonEquality F \<noteq> fol_Or F \<and>
     fol_True F \<noteq> fol_Or F \<and> fol_False F \<noteq> fol_Or F \<and> fol_Implies F \<noteq> fol_Not F \<and> fol_Implied F \<noteq> fol_Not F \<and>
     fol_Equiv F \<noteq> fol_Not F \<and> fol_Xor F \<noteq> fol_Not F \<and> fol_Nor F \<noteq> fol_Not F \<and> fol_Nand F \<noteq> fol_Not F \<and>
     fol_Varlist F \<noteq> fol_Not F \<and> fol_Equality F \<noteq> fol_Not F \<and> fol_NonEquality F \<noteq> fol_Not F \<and> fol_True F \<noteq> fol_Not F \<and>
     fol_False F \<noteq> fol_Not F \<and> fol_Implied F \<noteq> fol_Implies F \<and> fol_Equiv F \<noteq> fol_Implies F \<and> fol_Xor F \<noteq> fol_Implies F \<and>
     fol_Nor F \<noteq> fol_Implies F \<and> fol_Nand F \<noteq> fol_Implies F \<and> fol_Varlist F \<noteq> fol_Implies F \<and> fol_Equality F \<noteq> fol_Implies F \<and>
     fol_NonEquality F \<noteq> fol_Implies F \<and> fol_True F \<noteq> fol_Implies F \<and> fol_False F \<noteq> fol_Implies F \<and> fol_Equiv F \<noteq> fol_Implied F \<and>
     fol_Xor F \<noteq> fol_Implied F \<and> fol_Nor F \<noteq> fol_Implied F \<and> fol_Nand F \<noteq> fol_Implied F \<and> fol_Varlist F \<noteq> fol_Implied F \<and>
     fol_Equality F \<noteq> fol_Implied F \<and> fol_NonEquality F \<noteq> fol_Implied F \<and> fol_True F \<noteq> fol_Implied F \<and> fol_False F \<noteq> fol_Implied F \<and>
     fol_Xor F \<noteq> fol_Equiv F \<and> fol_Nor F \<noteq> fol_Equiv F \<and> fol_Nand F \<noteq> fol_Equiv F \<and> fol_Varlist F \<noteq> fol_Equiv F \<and>
     fol_Equality F \<noteq> fol_Equiv F \<and> fol_NonEquality F \<noteq> fol_Equiv F \<and> fol_True F \<noteq> fol_Equiv F \<and> fol_False F \<noteq> fol_Equiv F \<and>
     fol_Nor F \<noteq> fol_Xor F \<and> fol_Nand F \<noteq> fol_Xor F \<and> fol_Varlist F \<noteq> fol_Xor F \<and> fol_Equality F \<noteq> fol_Xor F \<and>
     fol_NonEquality F \<noteq> fol_Xor F \<and> fol_True F \<noteq> fol_Xor F \<and> fol_False F \<noteq> fol_Xor F \<and> fol_Nand F \<noteq> fol_Nor F \<and>
     fol_Varlist F \<noteq> fol_Nor F \<and> fol_Equality F \<noteq> fol_Nor F \<and> fol_NonEquality F \<noteq> fol_Nor F \<and> fol_True F \<noteq> fol_Nor F \<and>
     fol_False F \<noteq> fol_Nor F \<and> fol_Varlist F \<noteq> fol_Nand F \<and> fol_Equality F \<noteq> fol_Nand F \<and> fol_NonEquality F \<noteq> fol_Nand F \<and>
     fol_True F \<noteq> fol_Nand F \<and> fol_False F \<noteq> fol_Nand F \<and> fol_Equality F \<noteq> fol_Varlist F \<and> fol_NonEquality F \<noteq> fol_Varlist F \<and>
     fol_True F \<noteq> fol_Varlist F \<and> fol_False F \<noteq> fol_Varlist F \<and> fol_NonEquality F \<noteq> fol_Equality F \<and> fol_True F \<noteq> fol_Equality F \<and>
     fol_False F \<noteq> fol_Equality F \<and> fol_True F \<noteq> fol_NonEquality F \<and> fol_False F \<noteq> fol_NonEquality F \<and> fol_False F \<noteq> fol_True F"
  using fol_neq_one [OF assms] by (intro conjI; elim conjE) (rule not_sym, assumption)+

lemmas fol_neq [fol_simps] = fol_neq_one fol_neq_two

text \<open>The value of a formula for each junctor.\<close>

lemma holds_simps [fol_simps]:
  assumes "fol_ok F"
  shows "holds F I v (term_Node (fol_All F) [vl, b] st sz) \<longleftrightarrow> (\<forall>w. agree_off (vars_of vl) v w \<longrightarrow> holds F I w b)"
    "holds F I v (term_Node (fol_Exist F) [vl, b] st sz) \<longleftrightarrow> (\<exists>w. agree_off (vars_of vl) v w \<and> holds F I w b)"
    "holds F I v (term_Node (fol_And F) ts st sz) \<longleftrightarrow> (\<forall>t \<in> set ts. holds F I v t)"
    "holds F I v (term_Node (fol_Or F) ts st sz) \<longleftrightarrow> (\<exists>t \<in> set ts. holds F I v t)"
    "holds F I v (term_Node (fol_Nand F) ts st sz) \<longleftrightarrow> (\<exists>t \<in> set ts. \<not> holds F I v t)"
    "holds F I v (term_Node (fol_Nor F) ts st sz) \<longleftrightarrow> (\<forall>t \<in> set ts. \<not> holds F I v t)"
    "holds F I v (term_Node (fol_Not F) [t] st sz) \<longleftrightarrow> \<not> holds F I v t"
    "holds F I v (term_Node (fol_Implies F) [a, b] st sz) \<longleftrightarrow> (holds F I v a \<longrightarrow> holds F I v b)"
    "holds F I v (term_Node (fol_Implied F) [a, b] st sz) \<longleftrightarrow> (holds F I v b \<longrightarrow> holds F I v a)"
    "holds F I v (term_Node (fol_Equiv F) [a, b] st sz) \<longleftrightarrow> (holds F I v a \<longleftrightarrow> holds F I v b)"
    "holds F I v (term_Node (fol_Xor F) [a, b] st sz) \<longleftrightarrow> (holds F I v a \<noteq> holds F I v b)"
    "holds F I v (term_Node (fol_True F) ts st sz)"
    "\<not> holds F I v (term_Node (fol_False F) ts st sz)"
    "holds F I v (term_Node (fol_Equality F) [a, b] st sz) \<longleftrightarrow> term_value I v a = term_value I v b"
  by (simp_all add: fol_neq [OF assms])

text \<open>And which of these nodes are formulas.\<close>

lemma formula_simps [fol_simps]:
  assumes "fol_ok F"
  shows "fol_formula F (term_Node (fol_All F) [vl, b] st sz) \<longleftrightarrow> vlist_ok F vl \<and> fol_formula F b"
    "fol_formula F (term_Node (fol_Exist F) [vl, b] st sz) \<longleftrightarrow> vlist_ok F vl \<and> fol_formula F b"
    "fol_formula F (term_Node (fol_And F) ts st sz) \<longleftrightarrow> ts \<noteq> [] \<and> (\<forall>t \<in> set ts. fol_formula F t)"
    "fol_formula F (term_Node (fol_Or F) ts st sz) \<longleftrightarrow> ts \<noteq> [] \<and> (\<forall>t \<in> set ts. fol_formula F t)"
    "fol_formula F (term_Node (fol_Nand F) ts st sz) \<longleftrightarrow> ts \<noteq> [] \<and> (\<forall>t \<in> set ts. fol_formula F t)"
    "fol_formula F (term_Node (fol_Nor F) ts st sz) \<longleftrightarrow> ts \<noteq> [] \<and> (\<forall>t \<in> set ts. fol_formula F t)"
    "fol_formula F (term_Node (fol_Not F) [t] st sz) \<longleftrightarrow> fol_formula F t"
    "fol_formula F (term_Node (fol_Implies F) [a, b] st sz) \<longleftrightarrow> fol_formula F a \<and> fol_formula F b"
    "fol_formula F (term_Node (fol_Implied F) [a, b] st sz) \<longleftrightarrow> fol_formula F a \<and> fol_formula F b"
    "fol_formula F (term_Node (fol_Equiv F) [a, b] st sz) \<longleftrightarrow> fol_formula F a \<and> fol_formula F b"
    "fol_formula F (term_Node (fol_Xor F) [a, b] st sz) \<longleftrightarrow> fol_formula F a \<and> fol_formula F b"
    "fol_formula F (term_Node (fol_True F) ts st sz) \<longleftrightarrow> ts = []"
    "fol_formula F (term_Node (fol_False F) ts st sz) \<longleftrightarrow> ts = []"
  by (auto simp: fol_neq [OF assms] fol_symbol_kinds [OF assms])

lemma quantifier_iff: "fol_IsQuantifier F s \<longleftrightarrow> s = fol_All F \<or> s = fol_Exist F"
  by (auto simp: fol_IsQuantifier_def symbol_Equal_def)

section \<open>Free variables\<close>

fun free_vars :: "fol_symbols \<Rightarrow> TERM_NODE \<Rightarrow> SYMBOL set" where
  "free_vars F (term_Node s ts st sz) =
     (if s = fol_All F \<or> s = fol_Exist F then (case ts of [vl, b] \<Rightarrow> free_vars F b - vars_of vl | _ \<Rightarrow> {})
      else if symbol_IsVariable s then {s} else (\<Union>t \<in> set ts. free_vars F t))"

lemma free_vars_simps [fol_simps]:
  assumes "fol_ok F"
  shows "free_vars F (term_Node (fol_All F) [vl, b] st sz) = free_vars F b - vars_of vl"
    "free_vars F (term_Node (fol_Exist F) [vl, b] st sz) = free_vars F b - vars_of vl"
    "s \<in> set (fol_junctors F) \<Longrightarrow> s \<noteq> fol_All F \<Longrightarrow> s \<noteq> fol_Exist F
      \<Longrightarrow> free_vars F (term_Node s ts st sz) = (\<Union>t \<in> set ts. free_vars F t)"
  using fol_symbol_kinds [OF assms] by (auto simp: fol_neq [OF assms])

lemma free_vars_many [fol_simps]:
  assumes "fol_ok F" "s = fol_And F \<or> s = fol_Or F \<or> s = fol_Nor F \<or> s = fol_Nand F \<or> s = fol_Not F \<or> s = fol_Implies F
    \<or> s = fol_Implied F \<or> s = fol_Equiv F \<or> s = fol_Xor F"
  shows "free_vars F (term_Node s ts st sz) = (\<Union>t \<in> set ts. free_vars F t)"
proof (rule free_vars_simps(3) [OF assms(1)])
  show "s \<in> set (fol_junctors F)" using assms(2) by (auto simp: fol_junctors_def)
qed (use assms(2) in \<open>auto simp: fol_neq [OF assms(1)]\<close>)

lemma free_vars_predicate [fol_simps]:
  assumes "fol_ok F" "symbol_IsPredicate s"
  shows "free_vars F (term_Node s ts st sz) = (\<Union>t \<in> set ts. free_vars F t)"
proof -
  have "s \<noteq> fol_All F" "s \<noteq> fol_Exist F" using fol_symbol_kinds(5) [OF assms(1)] assms(2) by (auto simp: fol_junctors_def)
  then show ?thesis using predicate_kind [OF assms(2)] by simp
qed

declare holds.simps [simp del] free_vars.simps [simp del] fol_formula.simps [simp del]

lemma plain_term_arg: "plain_term (term_Node s ts st sz) \<Longrightarrow> t \<in> set ts \<Longrightarrow> plain_term t"
  by (auto simp: plain_term_def)

lemma plain_term_not_quantifier:
  assumes "fol_ok F" "plain_term (term_Node s ts st sz)"
  shows "s \<noteq> fol_All F" "s \<noteq> fol_Exist F"
  using assms fol_symbol_kinds(6,7) [OF assms(1)]
  by (auto simp: plain_term_def term_IsVariable_def fol_junctors_def)

lemma term_value_cong:
  assumes "fol_ok F" "plain_term t" "\<And>x. x \<in> free_vars F t \<Longrightarrow> v x = w x"
  shows "term_value I v t = term_value I w t"
  using assms(2,3)
proof (induction t)
  case (term_Node s ts st sz)
  note nq = plain_term_not_quantifier [OF assms(1) term_Node.prems(1)]
  show ?case
  proof (cases "symbol_IsVariable s")
    case False
    have "term_value I v t = term_value I w t" if "t \<in> set ts" for t
      using term_Node.IH [OF that plain_term_arg [OF term_Node.prems(1) that]] term_Node.prems(2) that False nq
      by (auto simp: free_vars.simps)
    then show ?thesis using False by (simp cong: map_cong)
  qed (use term_Node.prems nq in \<open>simp add: free_vars.simps\<close>)
qed

text \<open>The value of an atom depends on the values of its arguments.\<close>

definition atom_value :: "fol_symbols \<Rightarrow> 'a interp \<Rightarrow> SYMBOL \<Rightarrow> 'a list \<Rightarrow> bool" where
  "atom_value F I s xs =
     (if s = fol_True F then True else if s = fol_False F then False
      else if s = fol_Equality F then (case xs of [a, b] \<Rightarrow> a = b | _ \<Rightarrow> False)
      else snd I s xs)"

lemma not_junctor: "fol_ok F \<Longrightarrow> symbol_IsPredicate s \<Longrightarrow> s \<notin> set (fol_junctors F)"
  using fol_symbol_kinds(5) by blast

lemma holds_atom:
  assumes "fol_ok F" "symbol_IsPredicate s"
  shows "holds F I v (term_Node s ts st sz) = atom_value F I s (map (term_value I v) ts)"
  using not_junctor [OF assms] by (simp add: holds.simps fol_junctors_def atom_value_def split: list.split)

lemma holds_cong:
  assumes "fol_ok F" "fol_formula F t" "\<And>x. x \<in> free_vars F t \<Longrightarrow> v x = w x"
  shows "holds F I v t = holds F I w t"
  using assms(2,3)
proof (induction t arbitrary: v w rule: fol_formula_induct)
  case (quantifier s vl b st sz)
  let ?X = "vars_of vl"
  let ?to = "\<lambda>u w'. \<lambda>x. if x \<in> ?X then w' x else u x"
  have fv: "free_vars F (term_Node s [vl, b] st sz) = free_vars F b - ?X" using quantifier.hyps(1) by (simp add: free_vars.simps)
  have move: "agree_off ?X u (?to u w')" for u w' by (simp add: agree_off_def)
  have same: "holds F I w' b = holds F I (?to u' w') b" if "agree_off ?X u w'" "\<And>x. x \<in> free_vars F b - ?X \<Longrightarrow> u x = u' x" for u u' w'
    by (rule quantifier.IH) (use that in \<open>auto simp: agree_off_def\<close>)
  have vw: "\<And>x. x \<in> free_vars F b - ?X \<Longrightarrow> v x = w x" "\<And>x. x \<in> free_vars F b - ?X \<Longrightarrow> w x = v x"
    using quantifier.prems fv by simp_all
  have "\<exists>u'. agree_off ?X w u' \<and> holds F I u b = holds F I u' b" if "agree_off ?X v u" for u
    by (rule exI [of _ "?to w u"]) (rule conjI [OF move same [OF that vw(1)]])
  moreover have "\<exists>u'. agree_off ?X v u' \<and> holds F I u b = holds F I u' b" if "agree_off ?X w u" for u
    by (rule exI [of _ "?to v u"]) (rule conjI [OF move same [OF that vw(2)]])
  ultimately have all: "(\<forall>u. agree_off ?X v u \<longrightarrow> holds F I u b) \<longleftrightarrow> (\<forall>u. agree_off ?X w u \<longrightarrow> holds F I u b)"
    and ex: "(\<exists>u. agree_off ?X v u \<and> holds F I u b) \<longleftrightarrow> (\<exists>u. agree_off ?X w u \<and> holds F I u b)"
    by metis+
  show ?case using quantifier.hyps(1) by (elim disjE) (simp_all only: holds_simps [OF assms(1)] all ex)
next
  case (many s ts st sz)
  have "holds F I v t = holds F I w t" if "t \<in> set ts" for t
  proof (rule many.IH [OF that])
    fix x assume "x \<in> free_vars F t"
    then show "v x = w x" using that many.hyps(1) by (intro many.prems) (auto simp: free_vars_many [OF assms(1)])
  qed
  then show ?case using many.hyps(1) by (auto simp: holds_simps [OF assms(1)])
next
  case (one t st sz)
  have "holds F I v t = holds F I w t"
    by (rule one.IH) (use one.prems in \<open>simp add: free_vars_many [OF assms(1)]\<close>)
  then show ?case by (simp add: holds_simps [OF assms(1)])
next
  case (two s a b st sz)
  have "free_vars F (term_Node s [a, b] st sz) = free_vars F a \<union> free_vars F b"
    using two.hyps(1) by (subst free_vars_many [OF assms(1)]) auto
  then have "holds F I v a = holds F I w a" "holds F I v b = holds F I w b"
    using two.prems by (auto intro!: two.IH)
  then show ?case using two.hyps(1) by (auto simp: holds_simps [OF assms(1)])
next
  case (atom s ts st sz)
  have "term_value I v t = term_value I w t" if "t \<in> set ts" for t
    by (rule term_value_cong [OF assms(1) atom.hyps(2) [OF that]], rule atom.prems)
      (use that in \<open>auto simp: free_vars_predicate [OF assms(1) atom.hyps(1)]\<close>)
  then have "map (term_value I v) ts = map (term_value I w) ts" by simp
  then show ?case by (simp only: holds_atom [OF assms(1) atom.hyps(1)])
qed

end
