(* ===== verification/Spass_Term_Edit.thy ===== *)
theory Spass_Term_Edit
  imports Spass_Term
begin

text \<open>
  Loops that change a term in place while pointers into it wait on a stack (\<open>vec_Push\<close>, \<open>vec_PopResult\<close>).

  A pointer to a node of the term is its position, the list of argument numbers on the way from the
  root. \<open>edit_stack\<close> pops a position, lets the visit replace the node below it, and pushes the positions that
  the visit asks for. The visit may look at the whole term, as the code does when it searches for a
  polarity. A position that does not exist any more is a dangling pointer, so the loop fails.
\<close>

type_synonym position = "nat list"

fun term_at :: "TERM_NODE \<Rightarrow> position \<Rightarrow> TERM_NODE option" where
  "term_at t [] = Some t"
| "term_at t (i # p) = (if i < length (term_ArgumentList t) then term_at (term_ArgumentList t ! i) p else None)"

fun put_at :: "TERM_NODE \<Rightarrow> position \<Rightarrow> TERM_NODE \<Rightarrow> TERM_NODE" where
  "put_at t [] u = u"
| "put_at t (i # p) u =
     (if i < length (term_ArgumentList t)
      then term_RplacArgumentList t ((term_ArgumentList t)[i := put_at (term_ArgumentList t ! i) p u])
      else t)"

text \<open>The positions of the arguments in the order in which a loop over the argument list pushes them.\<close>

definition push_args :: "position \<Rightarrow> TERM_NODE \<Rightarrow> position list" where
  "push_args p t = rev (map (\<lambda>i. p @ [i]) [0..<length (term_ArgumentList t)])"

partial_function (option) edit_stack ::
  "(TERM_NODE \<Rightarrow> position \<Rightarrow> TERM_NODE \<Rightarrow> (TERM_NODE \<times> position list) option) \<Rightarrow> position list \<Rightarrow> TERM_NODE \<Rightarrow> TERM_NODE option" where
  "edit_stack visit Stack T =
     (case Stack of
        [] \<Rightarrow> Some T
      | p # rest \<Rightarrow> do {
          t \<leftarrow> term_at T p;
          (t', pushed) \<leftarrow> visit T p t;
          edit_stack visit (pushed @ rest) (put_at T p t') })"

declare edit_stack.simps [code]

section \<open>Positions\<close>

lemma put_at_same [simp]: "term_at T p = Some t \<Longrightarrow> put_at T p t = T"
  by (induction T p arbitrary: t rule: term_at.induct)
    (auto simp: term_RplacArgumentList_def split: if_splits)

lemma term_at_put [simp]: "term_at T p = Some t \<Longrightarrow> term_at (put_at T p u) p = Some u"
  by (induction T p arbitrary: t rule: term_at.induct)
    (auto simp: term_RplacArgumentList_def split: if_splits)

lemma term_at_append: "term_at T (p @ q) = Option.bind (term_at T p) (\<lambda>t. term_at t q)"
  by (induction T p rule: term_at.induct) auto

lemma term_at_put_below: "term_at T p = Some t \<Longrightarrow> term_at (put_at T p u) (p @ q) = term_at u q"
  by (simp add: term_at_append)

text \<open>Neither of two positions is below the other.\<close>

definition apart :: "position \<Rightarrow> position \<Rightarrow> bool" where
  "apart p q \<longleftrightarrow> (\<forall>r. q \<noteq> p @ r) \<and> (\<forall>r. p \<noteq> q @ r)"

lemma apart_Cons: "apart (i # p) (j # q) \<longleftrightarrow> i \<noteq> j \<or> apart p q"
  by (auto simp: apart_def)

lemma apart_Nil [simp]: "\<not> apart [] q" "\<not> apart p []"
  by (auto simp: apart_def)

lemma apart_sym: "apart p q \<Longrightarrow> apart q p"
  by (auto simp: apart_def)

lemma apart_below: "apart p q \<Longrightarrow> apart (p @ r) q"
  by (auto simp: apart_def append_eq_append_conv2 append_eq_append_conv)

lemma apart_siblings: "i \<noteq> j \<Longrightarrow> apart (p @ [i]) (p @ [j])"
  by (auto simp: apart_def)

lemma term_at_put_apart: "apart p q \<Longrightarrow> term_at (put_at T p u) q = term_at T q"
proof (induction T p u arbitrary: q rule: put_at.induct)
  case (2 t i p u)
  then show ?case by (cases q) (auto simp: apart_Cons term_RplacArgumentList_def nth_list_update)
qed simp

lemma put_at_append: "term_at T p = Some t \<Longrightarrow> put_at T (p @ q) u = put_at T p (put_at t q u)"
proof (induction T p arbitrary: t rule: term_at.induct)
  case (2 T i p)
  then show ?case by (auto split: if_splits)
qed simp

section \<open>Loops\<close>

text \<open>What a visit has to promise for the loop to return: its steps keep an invariant and decrease a
  measure.\<close>

locale stack_editor =
  fixes visit :: "TERM_NODE \<Rightarrow> position \<Rightarrow> TERM_NODE \<Rightarrow> (TERM_NODE \<times> position list) option"
    and Inv :: "position list \<Rightarrow> TERM_NODE \<Rightarrow> bool"
    and m :: "position list \<Rightarrow> TERM_NODE \<Rightarrow> nat"
  assumes step: "Inv (p # rest) T \<Longrightarrow> \<exists>t t' pushed. term_at T p = Some t \<and> visit T p t = Some (t', pushed)
      \<and> Inv (pushed @ rest) (put_at T p t') \<and> m (pushed @ rest) (put_at T p t') < m (p # rest) T"
begin

lemma returns: "Inv Stack T \<Longrightarrow> \<exists>T'. edit_stack visit Stack T = Some T' \<and> Inv [] T'"
proof (induction "m Stack T" arbitrary: Stack T rule: less_induct)
  case less
  show ?case
  proof (cases Stack)
    case Nil
    then show ?thesis using less.prems by (subst edit_stack.simps) simp
  next
    case (Cons p rest)
    then obtain t t' pushed where s: "term_at T p = Some t" "visit T p t = Some (t', pushed)"
        "Inv (pushed @ rest) (put_at T p t')" "m (pushed @ rest) (put_at T p t') < m (p # rest) T"
      using step [of p rest T] less.prems by blast
    have "\<exists>T'. edit_stack visit (pushed @ rest) (put_at T p t') = Some T' \<and> Inv [] T'"
      using less.hyps s(3,4) Cons by blast
    then show ?thesis using s(1,2) Cons by (subst edit_stack.simps) simp
  qed
qed

end

text \<open>The measures are sums over the stack of a size of the node; a change apart from the other
  positions leaves their part as it is.\<close>

definition stack_size :: "(TERM_NODE \<Rightarrow> nat) \<Rightarrow> position list \<Rightarrow> TERM_NODE \<Rightarrow> nat" where
  "stack_size f Stack T = sum_list (map (\<lambda>p. case term_at T p of None \<Rightarrow> 0 | Some t \<Rightarrow> f t) Stack)"

lemma stack_size_simps [simp]:
  "stack_size f [] T = 0"
  "stack_size f (p # Stack) T = (case term_at T p of None \<Rightarrow> 0 | Some t \<Rightarrow> f t) + stack_size f Stack T"
  "stack_size f (ps @ qs) T = stack_size f ps T + stack_size f qs T"
  by (simp_all add: stack_size_def)

lemma stack_size_apart: "\<forall>q \<in> set Stack. apart p q \<Longrightarrow> stack_size f Stack (put_at T p u) = stack_size f Stack T"
  by (induction Stack) (simp_all add: term_at_put_apart)

lemma stack_size_args:
  assumes "term_at T p = Some t"
  shows "stack_size f (push_args p u) (put_at T p u) = sum_list (map f (term_ArgumentList u))"
proof -
  have "(case term_at (put_at T p u) (p @ [i]) of None \<Rightarrow> 0 | Some t \<Rightarrow> f t) = f (term_ArgumentList u ! i)"
    if "i < length (term_ArgumentList u)" for i
    using that assms by (simp add: term_at_put_below)
  then have "map (\<lambda>q. case term_at (put_at T p u) q of None \<Rightarrow> 0 | Some t \<Rightarrow> f t) (map (\<lambda>i. p @ [i]) [0..<length (term_ArgumentList u)])
      = map (\<lambda>i. f (term_ArgumentList u ! i)) [0..<length (term_ArgumentList u)]"
    by simp
  also have "\<dots> = map f (term_ArgumentList u)" by (rule nth_equalityI) simp_all
  finally show ?thesis by (simp add: stack_size_def push_args_def rev_map [symmetric] sum_list_rev)
qed

text \<open>Stacks whose positions exist and are pairwise apart.\<close>

definition stack_ok :: "position list \<Rightarrow> TERM_NODE \<Rightarrow> bool" where
  "stack_ok Stack T \<longleftrightarrow> pairwise apart (set Stack) \<and> distinct Stack \<and> (\<forall>p \<in> set Stack. term_at T p \<noteq> None)"

lemma stack_ok_push:
  assumes "stack_ok (p # rest) T"
  shows "stack_ok (push_args p u @ rest) (put_at T p u)" "stack_ok rest (put_at T p u)" "\<forall>q \<in> set rest. apart p q"
proof -
  have a: "\<forall>q \<in> set rest. apart p q" using assms by (auto simp: stack_ok_def pairwise_insert)
  obtain t where t: "term_at T p = Some t" using assms by (auto simp: stack_ok_def)
  have r: "pairwise apart (set rest)" "distinct rest" "\<forall>q \<in> set rest. term_at T q \<noteq> None"
    using assms by (auto simp: stack_ok_def pairwise_insert)
  show rest: "stack_ok rest (put_at T p u)" using r a by (simp add: stack_ok_def term_at_put_apart)
  show "\<forall>q \<in> set rest. apart p q" by (rule a)
  have args: "set (push_args p u) = {p @ [i] | i. i < length (term_ArgumentList u)}" by (auto simp: push_args_def)
  have "pairwise apart (set (push_args p u))" unfolding args by (auto simp: pairwise_def intro: apart_siblings)
  moreover have "distinct (push_args p u)" by (simp add: push_args_def distinct_map inj_on_def)
  moreover have "\<forall>x \<in> set (push_args p u). \<forall>y \<in> set rest. apart x y \<and> x \<noteq> y"
    unfolding args using a apart_below by (fastforce simp: apart_def)
  moreover have "\<forall>x \<in> set (push_args p u). term_at (put_at T p u) x \<noteq> None"
    unfolding args using t by (auto simp: term_at_put_below)
  ultimately show "stack_ok (push_args p u @ rest) (put_at T p u)"
    using rest by (auto simp: stack_ok_def pairwise_def dest: apart_sym)
qed

end
