(* ===== verification/Spass_CNF_Distribute.thy ===== *)
theory Spass_CNF_Distribute
  imports Spass_Formula Spass_Term_Edit
begin

text \<open>
  The last step of the clause normal form translation (\<open>cnf_DistributiveFormula\<close>): disjunctions are
  distributed over conjunctions. A first walk flattens nested disjunctions and pushes the disjunctions on
  a stack; then they are popped, the inner ones first, and replaced by conjunctions. The stack holds the
  positions of the nodes (\<open>Spass_Term_Edit\<close>). The functions that link cells of argument lists to each other
  give the lists that result.
\<close>

section \<open>Flattening\<close>

text \<open>\<open>None\<close> is the null pointer that is followed when an argument to be merged has no arguments itself.\<close>

fun cnf_Flatten :: "TERM_NODE \<Rightarrow> SYMBOL \<Rightarrow> TERM_NODE option" where
  "cnf_Flatten (term_Node s ts st sz) Symbol =
     (if symbol_Equal s Symbol then
        map_option (\<lambda>us. term_Node s (concat us) st sz)
          (map_loop (\<lambda>Argterm.
             if symbol_Equal (term_TopSymbol Argterm) Symbol then do {
               Argterm \<leftarrow> cnf_Flatten Argterm Symbol;
               if term_ArgumentList Argterm = [] then None else Some (term_ArgumentList Argterm) }
             else Some [Argterm]) ts)
      else Some (term_Node s ts st sz))"

text \<open>The boolean result is set to \<open>FALSE\<close> at the start and at every turn of the loop that sets it.\<close>

fun cnf_FlattenToSimpleORTerm :: "fol_symbols \<Rightarrow> TERM_NODE \<Rightarrow> (bool \<times> TERM_NODE) option" where
  "cnf_FlattenToSimpleORTerm F (term_Node s ts st sz) =
     (if symbol_Equal s (fol_Or F) then do {
        (SimpleOrTerm, us) \<leftarrow> fold_loop (\<lambda>state Argterm. let SimpleOrTerm = fst state; us = snd state in
          if symbol_Equal (term_TopSymbol Argterm) (fol_Or F) then do {
            (SimpleOrSubTerm, Argterm) \<leftarrow> cnf_FlattenToSimpleORTerm F Argterm;
            let SimpleOrTerm = (if \<not> SimpleOrSubTerm then False else SimpleOrTerm);
            if term_ArgumentList Argterm = [] then None else Some (SimpleOrTerm, us @ term_ArgumentList Argterm) }
          else if symbol_Equal (term_TopSymbol Argterm) (fol_And F) then Some (False, us @ [Argterm])
          else Some (SimpleOrTerm, us @ [Argterm])) (False, []) ts;
        Some (SimpleOrTerm, term_Node s us st sz) }
      else Some (False, term_Node s ts st sz))"

lemma fold_flatten_size:
  assumes "fold_loop f (b, us) ts = Some (b', us')" "\<And>s t s'. t \<in> set ts \<Longrightarrow> f s t = Some s' \<Longrightarrow> sum_list (map nodes (snd s')) \<le> sum_list (map nodes (snd s)) + nodes t"
  shows "sum_list (map nodes us') \<le> sum_list (map nodes us) + sum_list (map nodes ts)"
  using assms
proof (induction ts arbitrary: b us)
  case (Cons t ts)
  obtain s where s: "f (b, us) t = Some s" "fold_loop f s ts = Some (b', us')" using Cons.prems(1) by (auto simp: bind_eq_Some_iff)
  obtain b1 us1 where p: "s = (b1, us1)" by (cases s)
  have "sum_list (map nodes us') \<le> sum_list (map nodes us1) + sum_list (map nodes ts)"
    using Cons.IH [of b1 us1] s(2) Cons.prems(2) p by simp
  moreover have "sum_list (map nodes us1) \<le> sum_list (map nodes us) + nodes t" using Cons.prems(2) [OF _ s(1)] p by simp
  ultimately show ?case by simp
qed simp

lemma FlattenToSimpleORTerm_size: "cnf_FlattenToSimpleORTerm F t = Some (b, t') \<Longrightarrow> nodes t' \<le> nodes t"
proof (induction t arbitrary: b t')
  case (term_Node s ts st sz)
  show ?case
  proof (cases "symbol_Equal s (fol_Or F)")
    case True
    then obtain b' us where us: "fold_loop (\<lambda>state Argterm. let SimpleOrTerm = fst state; us = snd state in
          if symbol_Equal (term_TopSymbol Argterm) (fol_Or F) then do {
            (SimpleOrSubTerm, Argterm) \<leftarrow> cnf_FlattenToSimpleORTerm F Argterm;
            let SimpleOrTerm = (if \<not> SimpleOrSubTerm then False else SimpleOrTerm);
            if term_ArgumentList Argterm = [] then None else Some (SimpleOrTerm, us @ term_ArgumentList Argterm) }
          else if symbol_Equal (term_TopSymbol Argterm) (fol_And F) then Some (False, us @ [Argterm])
          else Some (SimpleOrTerm, us @ [Argterm])) (False, []) ts = Some (b', us)" "t' = term_Node s us st sz"
      using term_Node.prems by (auto simp: bind_eq_Some_iff)
    have "sum_list (map nodes us) \<le> sum_list (map nodes []) + sum_list (map nodes ts)"
    proof (rule fold_flatten_size [OF us(1)], goal_cases)
      case (1 a t a')
      obtain c vs where a: "a = (c, vs)" by (cases a)
      show ?case
      proof (cases "symbol_Equal (term_TopSymbol t) (fol_Or F)")
        case True
        then obtain d t1 where t1: "cnf_FlattenToSimpleORTerm F t = Some (d, t1)" "snd a' = vs @ term_ArgumentList t1"
          using 1(2) a by (auto simp: bind_eq_Some_iff Let_def split: if_splits)
        then show ?thesis using term_Node.IH [OF 1(1) t1(1)] a nodes_eq [of t1] by simp
      qed (use 1 a in \<open>auto split: if_splits\<close>)
    qed
    then show ?thesis using us(2) by simp
  qed (use term_Node.prems in simp)
qed

text \<open>The walk gives the changed term and the positions that it pushed, the last one first.\<close>

function cnf_ScanTree :: "fol_symbols \<Rightarrow> TERM_NODE \<Rightarrow> (TERM_NODE \<times> position list) option" where
  "cnf_ScanTree F Tree = do {
     (SimpleOrTerm, Tree) \<leftarrow> cnf_FlattenToSimpleORTerm F Tree;
     rs \<leftarrow> map_loop (cnf_ScanTree F) (term_ArgumentList Tree);
     Some (term_RplacArgumentList Tree (map fst rs),
           concat (rev (map (\<lambda>i. map (\<lambda>p. i # p) (snd (rs ! i))) [0..<length rs]))
             @ (if symbol_Equal (term_TopSymbol Tree) (fol_Or F) \<and> \<not> SimpleOrTerm then [[]] else [])) }"
  by auto

termination cnf_ScanTree
proof (relation "measure (\<lambda>(F, t). nodes t)", goal_cases)
  case (2 F Tree p b T t)
  then show ?case using FlattenToSimpleORTerm_size [of F Tree b T] nodes_eq [of T] member_le_sum_list [of "nodes t" "map nodes (term_ArgumentList T)"]
    by auto
qed simp

declare cnf_ScanTree.simps [simp del]

section \<open>Products of lists of clauses\<close>

function term_DestroyDuplicatesInList :: "TERM_NODE list \<Rightarrow> TERM_NODE list" where
  "term_DestroyDuplicatesInList [] = []"
| "term_DestroyDuplicatesInList (t # ts) = t # term_DestroyDuplicatesInList (filter (\<lambda>u. \<not> term_Equal t u) ts)"
  by pat_completeness auto

termination by (relation "measure length") (auto simp: le_imp_less_Suc)

definition cnf_CombineORTerms :: "TERM_NODE \<Rightarrow> TERM_NODE \<Rightarrow> TERM_NODE" where
  "cnf_CombineORTerms Term1 Term2 = term_RplacArgumentList Term1 (term_ArgumentList Term1 @ term_ArgumentList Term2)"

definition cnf_AddAtomToORTerm :: "TERM_NODE \<Rightarrow> TERM_NODE \<Rightarrow> TERM_NODE" where
  "cnf_AddAtomToORTerm AtomTerm OrTerm = term_RplacArgumentList OrTerm (AtomTerm # term_ArgumentList OrTerm)"

definition cnf_BuildORTermFromAtoms :: "fol_symbols \<Rightarrow> TERM_NODE \<Rightarrow> TERM_NODE \<Rightarrow> TERM_NODE" where
  "cnf_BuildORTermFromAtoms F Atom1 Atom2 = term_Create (fol_Or F) [Atom2, Atom1]"

text \<open>One turn of the inner loop; \<open>more1\<close> and \<open>more2\<close> say that the lists go on. The copies that are made then keep
  the terms of the result apart.\<close>

definition multi_term :: "fol_symbols \<Rightarrow> bool \<Rightarrow> bool \<Rightarrow> TERM_NODE \<Rightarrow> TERM_NODE \<Rightarrow> TERM_NODE" where
  "multi_term F more1 more2 Term1 Term2 =
     (let Term1 = (if more2 then term_Copy Term1 else Term1);
          Term2 = (if more1 then term_Copy Term2 else Term2);
          Symbol1 = term_TopSymbol Term1; Symbol2 = term_TopSymbol Term2 in
      if symbol_Equal Symbol1 (fol_Or F) \<and> symbol_Equal Symbol2 (fol_Or F) then
        (if more1 \<and> \<not> more2 then cnf_CombineORTerms Term2 Term1 else cnf_CombineORTerms Term1 Term2)
      else if symbol_Equal Symbol1 (fol_Or F) \<and> \<not> symbol_Equal Symbol2 (fol_Or F) then cnf_AddAtomToORTerm Term2 Term1
      else if \<not> symbol_Equal Symbol1 (fol_Or F) \<and> symbol_Equal Symbol2 (fol_Or F) then cnf_AddAtomToORTerm Term1 Term2
      else cnf_BuildORTermFromAtoms F Term1 Term2)"

fun multi_inner :: "fol_symbols \<Rightarrow> bool \<Rightarrow> TERM_NODE \<Rightarrow> TERM_NODE list \<Rightarrow> TERM_NODE list \<Rightarrow> TERM_NODE list" where
  "multi_inner F more1 Term1 [] NewResult = NewResult"
| "multi_inner F more1 Term1 (Term2 # Scan2) NewResult =
     multi_inner F more1 Term1 Scan2 (multi_term F more1 (Scan2 \<noteq> []) Term1 Term2 # NewResult)"

fun multi_outer :: "fol_symbols \<Rightarrow> TERM_NODE list \<Rightarrow> TERM_NODE list \<Rightarrow> TERM_NODE list \<Rightarrow> TERM_NODE list" where
  "multi_outer F [] RightCNFAndArgument NewResult = NewResult"
| "multi_outer F (Term1 # Scan1) RightCNFAndArgument NewResult =
     multi_outer F Scan1 RightCNFAndArgument (multi_inner F (Scan1 \<noteq> []) Term1 RightCNFAndArgument NewResult)"

definition cnf_List_MultiCons :: "fol_symbols \<Rightarrow> TERM_NODE list \<Rightarrow> TERM_NODE list \<Rightarrow> TERM_NODE list" where
  "cnf_List_MultiCons F TempResultList RightCNFAndArgument =
     term_DestroyDuplicatesInList (multi_outer F TempResultList RightCNFAndArgument [])"

definition cnf_SeparateAndTermsFromArgList :: "fol_symbols \<Rightarrow> TERM_NODE list \<Rightarrow> TERM_NODE list \<times> TERM_NODE list" where
  "cnf_SeparateAndTermsFromArgList F Input =
     (filter (\<lambda>t. symbol_Equal (term_TopSymbol t) (fol_And F)) Input, filter (\<lambda>t. \<not> symbol_Equal (term_TopSymbol t) (fol_And F)) Input)"

definition cnf_MakeBigAndList :: "fol_symbols \<Rightarrow> TERM_NODE list \<Rightarrow> TERM_NODE list" where
  "cnf_MakeBigAndList F AndList =
     foldl (\<lambda>Result t. cnf_List_MultiCons F Result (term_ArgumentList t)) (term_ArgumentList (hd AndList)) (tl AndList)"

definition cnf_AttachAtomList :: "fol_symbols \<Rightarrow> TERM_NODE list \<Rightarrow> TERM_NODE list \<Rightarrow> TERM_NODE list" where
  "cnf_AttachAtomList F ResultCandidate AtomList =
     map (\<lambda>t. if symbol_Equal (term_TopSymbol t) (fol_Or F)
              then term_RplacArgumentList t (term_DestroyDuplicatesInList (term_ArgumentList t @ map term_Copy AtomList))
              else term_Create (fol_Or F) (term_DestroyDuplicatesInList (t # map term_Copy AtomList))) ResultCandidate"

section \<open>The translation\<close>

definition cnf_TransformTree_visit :: "fol_symbols \<Rightarrow> TERM_NODE \<Rightarrow> position \<Rightarrow> TERM_NODE \<Rightarrow> (TERM_NODE \<times> position list) option" where
  "cnf_TransformTree_visit F Formula p Term = do {
     ArgList \<leftarrow> map_loop (\<lambda>t. cnf_Flatten t (fol_And F)) (term_ArgumentList Term);
     let (AndList, AtomList) = cnf_SeparateAndTermsFromArgList F ArgList;
     Some (if AndList \<noteq> [] then
             let Result = cnf_MakeBigAndList F AndList;
                 Result = (if AtomList \<noteq> [] then cnf_AttachAtomList F Result AtomList else Result)
             in term_RplacArgumentList (term_RplacTop Term (fol_And F)) Result
           else term_RplacArgumentList Term AtomList, []) }"

definition cnf_TransformTree :: "fol_symbols \<Rightarrow> position list \<Rightarrow> TERM_NODE \<Rightarrow> TERM_NODE option" where
  "cnf_TransformTree F Stack Formula = edit_stack (cnf_TransformTree_visit F) Stack Formula"

definition cnf_DistributiveFormula :: "fol_symbols \<Rightarrow> TERM_NODE \<Rightarrow> TERM_NODE option" where
  "cnf_DistributiveFormula F Formula =
     (if symbol_Equal (term_TopSymbol Formula) (fol_Or F) \<or> symbol_Equal (term_TopSymbol Formula) (fol_And F) then do {
        (Formula, Stack) \<leftarrow> cnf_ScanTree F Formula;
        Formula \<leftarrow> cnf_TransformTree F Stack Formula;
        cnf_Flatten Formula (fol_And F) }
      else Some Formula)"

end
