(* ===== verification/Spass_CNF.thy ===== *)
theory Spass_CNF
  imports Spass_Formula Spass_Term_Edit
begin

text \<open>
  The first steps of the clause normal form translation (\<open>cnf.c\<close>): implications and equivalences are
  removed, negations are moved to the atoms. Both functions keep the nodes that are left to do on a
  stack and change the formula in place (\<open>Spass_Term_Edit\<close>); the first asks for the polarity of a node
  with a search from the root.
\<close>

section \<open>Changes below a position\<close>

lemma not_formula:
  assumes "fol_ok F" "symbol_IsFunction s \<or> symbol_IsVariable s \<or> s = fol_Varlist F"
  shows "\<not> fol_formula F (term_Node s ts st sz)"
proof -
  have "s \<noteq> fol_All F \<and> s \<noteq> fol_Exist F \<and> s \<noteq> fol_And F \<and> s \<noteq> fol_Or F \<and> s \<noteq> fol_Not F \<and> s \<noteq> fol_Implies F \<and> s \<noteq> fol_Implied F
      \<and> s \<noteq> fol_Equiv F \<and> s \<noteq> fol_Xor F \<and> s \<noteq> fol_Nor F \<and> s \<noteq> fol_Nand F"
    using assms(2) fol_symbol_kinds(6,7) [OF assms(1)] fol_neq [OF assms(1)] by (auto simp: fol_junctors_def)
  moreover have "\<not> symbol_IsPredicate s"
    using assms(2) function_kind [of s] predicate_kind [of s] fol_symbol_kinds(5) [OF assms(1), of s] by (auto simp: fol_junctors_def)
  ultimately show ?thesis by (simp add: fol_formula.simps)
qed

lemma plain_term_not_formula: "fol_ok F \<Longrightarrow> plain_term t \<Longrightarrow> \<not> fol_formula F t"
  using not_formula [of F] by (cases t) (auto simp: plain_term_def term_IsVariable_def)

lemma plain_term_at: "plain_term t \<Longrightarrow> term_at t p = Some u \<Longrightarrow> plain_term u"
proof (induction t p rule: term_at.induct)
  case (2 t i p)
  then have i: "i < length (term_ArgumentList t)" "term_at (term_ArgumentList t ! i) p = Some u" by (auto split: if_splits)
  have "plain_term (term_ArgumentList t ! i)" using plain_term_arg 2 nth_mem [OF i(1)] by (cases t) auto
  then show ?case using 2 i by simp
qed simp

lemma vlist_arg_plain: "vlist_ok F vl \<Longrightarrow> x \<in> set (term_ArgumentList vl) \<Longrightarrow> plain_term x"
  by (cases x) (auto simp: vlist_ok_def plain_term_def leaf_def)

lemma vlist_at_not_formula: "fol_ok F \<Longrightarrow> vlist_ok F vl \<Longrightarrow> term_at vl p = Some u \<Longrightarrow> \<not> fol_formula F u"
proof (cases p)
  case Nil
  assume "fol_ok F" "vlist_ok F vl" "term_at vl p = Some u"
  then show ?thesis using Nil not_formula [of F] by (cases vl) (auto simp: vlist_ok_def)
next
  case (Cons i q)
  assume a: "fol_ok F" "vlist_ok F vl" "term_at vl p = Some u"
  then have i: "i < length (term_ArgumentList vl)" "term_at (term_ArgumentList vl ! i) q = Some u" using Cons by (auto split: if_splits)
  have "plain_term u" using plain_term_at [OF vlist_arg_plain [OF a(2) nth_mem [OF i(1)]] i(2)] .
  then show ?thesis using a(1) plain_term_not_formula by blast
qed

text \<open>The formulas that a formula is made of, and their replacement by others.\<close>

lemma formula_put_at:
  assumes F: "fol_ok F" and t: "fol_formula F t" "fol_formula F t'" "\<And>v. holds F I v t' = holds F I v t"
    and T: "fol_formula F T" and at: "term_at T p = Some t"
  shows "fol_formula F (put_at T p t') \<and> (\<forall>v. holds F I v (put_at T p t') = holds F I v T)"
  using T at
proof (induction T arbitrary: p rule: fol_formula_induct)
  case (quantifier s vl b st sz)
  show ?case
  proof (cases p)
    case (Cons i q)
    have "i = 1" using Cons quantifier.prems vlist_at_not_formula [OF F quantifier.hyps(2)] t(1)
      by (cases i) (auto split: if_splits)
    then show ?thesis using quantifier Cons
      by (auto simp: term_RplacArgumentList_def formula_simps [OF F] holds_simps [OF F])
  qed (use quantifier.prems t in auto)
next
  case (many s ts st sz)
  show ?case
  proof (cases p)
    case (Cons i q)
    then have i: "i < length ts" "term_at (ts ! i) q = Some t" using many.prems by (auto split: if_splits)
    let ?u = "put_at (ts ! i) q t'"
    have IH: "fol_formula F ?u" "\<And>v. holds F I v ?u = holds F I v (ts ! i)" using many.IH [of "ts ! i" q] i by auto
    have all: "\<forall>u \<in> set (ts[i := ?u]). fol_formula F u" using many.hyps(3) IH(1) by (auto dest: set_update_subset_insert [THEN subsetD])
    have "list_all2 (\<lambda>a b. \<forall>v. holds F I v a = holds F I v b) (ts[i := ?u]) ts"
      using IH(2) i(1) by (auto simp: list_all2_conv_all_nth nth_list_update)
    then have "(\<forall>u \<in> set (ts[i := ?u]). holds F I v u) = (\<forall>u \<in> set ts. holds F I v u)"
      "(\<exists>u \<in> set (ts[i := ?u]). holds F I v u) = (\<exists>u \<in> set ts. holds F I v u)"
      "(\<exists>u \<in> set (ts[i := ?u]). \<not> holds F I v u) = (\<exists>u \<in> set ts. \<not> holds F I v u)"
      "(\<forall>u \<in> set (ts[i := ?u]). \<not> holds F I v u) = (\<forall>u \<in> set ts. \<not> holds F I v u)" for v
      by (induction rule: list_all2_induct) auto
    then show ?thesis using many.hyps(1,2) all Cons i
      by (auto simp: term_RplacArgumentList_def formula_simps [OF F] holds_simps [OF F])
  qed (use many.prems t in auto)
next
  case (one u st sz)
  show ?case
  proof (cases p)
    case (Cons i q)
    then show ?thesis using one
      by (auto simp: term_RplacArgumentList_def formula_simps [OF F] holds_simps [OF F] split: if_splits)
  qed (use one.prems t in auto)
next
  case (two s a b st sz)
  show ?case
  proof (cases p)
    case (Cons i q)
    then have "i = 0 \<or> i = 1" using two.prems by (auto split: if_splits)
    then show ?thesis using two Cons
      by (auto simp: term_RplacArgumentList_def formula_simps [OF F] holds_simps [OF F])
  qed (use two.prems t in auto)
next
  case (atom s ts st sz)
  show ?case
  proof (cases p)
    case (Cons i q)
    then have i: "i < length ts" "term_at (ts ! i) q = Some t" using atom.prems by (auto split: if_splits)
    have "plain_term t" using plain_term_at [OF atom.hyps(2) [OF nth_mem [OF i(1)]] i(2)] .
    then show ?thesis using plain_term_not_formula [OF F] t(1) by blast
  qed (use atom.prems t in auto)
qed

section \<open>Polarity\<close>

text \<open>The search keeps pairs of a node and its polarity on the stack. It ends in an error report when
  it does not meet the node, and it follows the first and second argument without a test.\<close>

definition polarity_args :: "fol_symbols \<Rightarrow> position \<Rightarrow> int \<Rightarrow> TERM_NODE \<Rightarrow> (position \<times> int) list option" where
  "polarity_args F p pol t =
     (let Top = term_TopSymbol t; n = length (term_ArgumentList t) in
      if Top = fol_Not F then (if n \<ge> 1 then Some [(p @ [0], - pol)] else None)
      else if Top = fol_Exist F \<or> Top = fol_All F then (if n \<ge> 2 then Some [(p @ [1], pol)] else None)
      else if Top = fol_Implies F then (if n \<ge> 2 then Some [(p @ [1], pol), (p @ [0], - pol)] else None)
      else if Top = fol_Equiv F then (if n \<ge> 2 then Some [(p @ [1], 0), (p @ [0], 0)] else None)
      else if Top = fol_And F \<or> Top = fol_Or F then Some (rev (map (\<lambda>i. (p @ [i], pol)) [0..<n]))
      else Some [])"

partial_function (option) polarity_search :: "fol_symbols \<Rightarrow> TERM_NODE \<Rightarrow> position \<Rightarrow> (position \<times> int) list \<Rightarrow> int option" where
  "polarity_search F term subterm Stack =
     (if Stack = [] then None
      else let term1 = fst (hd Stack); polterm1 = snd (hd Stack) in
        if term1 = subterm then Some polterm1
        else do {
          t \<leftarrow> term_at term term1;
          pushed \<leftarrow> polarity_args F term1 polterm1 t;
          polarity_search F term subterm (pushed @ tl Stack) })"

declare polarity_search.simps [code]

definition cnf_GetFormulaPolarity :: "fol_symbols \<Rightarrow> TERM_NODE \<Rightarrow> position \<Rightarrow> int option" where
  "cnf_GetFormulaPolarity F term subterm = polarity_search F term subterm [([], 1)]"

text \<open>The same on the way from the root to the node.\<close>

definition child_polarity :: "fol_symbols \<Rightarrow> SYMBOL \<Rightarrow> int \<Rightarrow> nat \<Rightarrow> int option" where
  "child_polarity F Top pol i =
     (if Top = fol_Not F then (if i = 0 then Some (- pol) else None)
      else if Top = fol_Exist F \<or> Top = fol_All F then (if i = 1 then Some pol else None)
      else if Top = fol_Implies F then (if i = 0 then Some (- pol) else if i = 1 then Some pol else None)
      else if Top = fol_Equiv F then (if i = 0 \<or> i = 1 then Some 0 else None)
      else if Top = fol_And F \<or> Top = fol_Or F then Some pol
      else None)"

fun polarity :: "fol_symbols \<Rightarrow> TERM_NODE \<Rightarrow> int \<Rightarrow> position \<Rightarrow> int option" where
  "polarity F t pol [] = Some pol"
| "polarity F t pol (i # p) =
     (if i < length (term_ArgumentList t)
      then Option.bind (child_polarity F (term_TopSymbol t) pol i) (\<lambda>pol. polarity F (term_ArgumentList t ! i) pol p)
      else None)"

section \<open>Implications and equivalences\<close>

definition cnf_RemoveEquivImpl_visit :: "fol_symbols \<Rightarrow> TERM_NODE \<Rightarrow> position \<Rightarrow> TERM_NODE \<Rightarrow> (TERM_NODE \<times> position list) option" where
  "cnf_RemoveEquivImpl_visit F term p term1 = do {
     term1 \<leftarrow>
       (if symbol_Equal (term_TopSymbol term1) (fol_Implies F) then
          (case term_ArgumentList term1 of
             [] \<Rightarrow> None
           | a # rest \<Rightarrow> Some (term_RplacArgumentList (term_RplacTop term1 (fol_Or F)) (term_Create (fol_Not F) [a] # rest)))
        else if symbol_Equal (term_TopSymbol term1) (fol_Equiv F) then do {
          pol \<leftarrow> cnf_GetFormulaPolarity F term p;
          (case term_ArgumentList term1 of
             termL # termR # rest \<Rightarrow>
               let termLneg = term_Create (fol_Not F) [term_Copy termL];
                   termRneg = term_Create (fol_Not F) [term_Copy termR]
               in Some (if pol = 1 \<or> pol = 0 then
                          term_RplacArgumentList (term_RplacTop term1 (fol_And F))
                            (term_Create (fol_Or F) [termLneg, termR] # term_Create (fol_Or F) [termRneg, termL] # rest)
                        else if pol = - 1 then
                          term_RplacArgumentList (term_RplacTop term1 (fol_Or F))
                            (term_Create (fol_And F) [termLneg, termRneg] # term_Create (fol_And F) [termL, termR] # rest)
                        else term1)
           | _ \<Rightarrow> None) }
        else Some term1);
     Some (term1, if term_ArgumentList term1 \<noteq> [] \<and> \<not> symbol_IsPredicate (term_TopSymbol term1) then push_args p term1 else []) }"

definition cnf_RemoveEquivImplFromFormula :: "fol_symbols \<Rightarrow> TERM_NODE \<Rightarrow> TERM_NODE option" where
  "cnf_RemoveEquivImplFromFormula F term = edit_stack (cnf_RemoveEquivImpl_visit F) [[]] term"

section \<open>Negation normal form\<close>

definition cnf_GetDualSymbol :: "fol_symbols \<Rightarrow> SYMBOL \<Rightarrow> SYMBOL" where
  "cnf_GetDualSymbol F symbol =
     (if symbol_Equal symbol (fol_All F) then fol_Exist F
      else if symbol_Equal symbol (fol_Exist F) then fol_All F
      else if symbol_Equal symbol (fol_Or F) then fol_And F
      else if symbol_Equal symbol (fol_And F) then fol_Or F
      else symbol)"

text \<open>After a double negation the node itself waits below its arguments on the stack.\<close>

definition cnf_NegationNormal_visit :: "fol_symbols \<Rightarrow> TERM_NODE \<Rightarrow> position \<Rightarrow> TERM_NODE \<Rightarrow> (TERM_NODE \<times> position list) option" where
  "cnf_NegationNormal_visit F term p term1 = do {
     (term1, again) \<leftarrow>
       (if symbol_Equal (term_TopSymbol term1) (fol_Not F) then do {
          subterm \<leftarrow> term_FirstArgument term1;
          if symbol_Equal (term_TopSymbol subterm) (fol_Not F) then do {
            a \<leftarrow> term_FirstArgument subterm;
            Some (term_RplacArgumentList (term_RplacTop term1 (term_TopSymbol a)) (term_ArgumentList a), [p]) }
          else if fol_IsQuantifier F (term_TopSymbol subterm) then
            (case term_ArgumentList subterm of
               vl # b # rest \<Rightarrow>
                 Some (term_RplacArgumentList (term_RplacTop term1 (cnf_GetDualSymbol F (term_TopSymbol subterm)))
                         (map term_Copy (vl # term_Create (fol_Not F) [b] # rest)), [])
             | _ \<Rightarrow> None)
          else if symbol_Equal (term_TopSymbol subterm) (fol_Or F) \<or> symbol_Equal (term_TopSymbol subterm) (fol_And F) then
            Some (term_RplacArgumentList (term_RplacTop term1 (cnf_GetDualSymbol F (term_TopSymbol subterm)))
                    (map term_Copy (map (\<lambda>termL. term_Create (fol_Not F) [termL]) (term_ArgumentList subterm))), [])
          else Some (term1, []) }
        else Some (term1, []));
     Some (term1, (if term_ArgumentList term1 \<noteq> [] then push_args p term1 else []) @ again) }"

definition cnf_NegationNormalFormula :: "fol_symbols \<Rightarrow> TERM_NODE \<Rightarrow> TERM_NODE option" where
  "cnf_NegationNormalFormula F term = edit_stack (cnf_NegationNormal_visit F) [[]] term"

end
