(* ===== verification/Spass_CNF_Polarity.thy ===== *)
theory Spass_CNF_Polarity
  imports Spass_CNF
begin

text \<open>
  The search for a polarity (\<open>cnf_GetFormulaPolarity\<close>) returns, and it answers what the way from the root
  says. The last section tells which nodes and polarities a term has after a change below a position.
\<close>

section \<open>The search for a polarity\<close>

lemma child_polarity_simps [fol_simps]:
  assumes "fol_ok F"
  shows "child_polarity F (fol_Not F) pol i = (if i = 0 then Some (- pol) else None)"
    "child_polarity F (fol_All F) pol i = (if i = 1 then Some pol else None)"
    "child_polarity F (fol_Exist F) pol i = (if i = 1 then Some pol else None)"
    "child_polarity F (fol_Implies F) pol i = (if i = 0 then Some (- pol) else if i = 1 then Some pol else None)"
    "child_polarity F (fol_Equiv F) pol i = (if i = 0 \<or> i = 1 then Some 0 else None)"
    "child_polarity F (fol_And F) pol i = Some pol"
    "child_polarity F (fol_Or F) pol i = Some pol"
  by (simp_all add: child_polarity_def fol_neq [OF assms])

lemma child_polarity_other:
  "s \<noteq> fol_Not F \<Longrightarrow> s \<noteq> fol_All F \<Longrightarrow> s \<noteq> fol_Exist F \<Longrightarrow> s \<noteq> fol_Implies F \<Longrightarrow> s \<noteq> fol_Equiv F \<Longrightarrow> s \<noteq> fol_And F \<Longrightarrow> s \<noteq> fol_Or F
    \<Longrightarrow> child_polarity F s pol i = None"
  by (simp add: child_polarity_def)

lemma polarity_args_simps:
  assumes "fol_ok F"
  shows "polarity_args F p pol (term_Node (fol_Not F) [a] st sz) = Some [(p @ [0], - pol)]"
    "polarity_args F p pol (term_Node (fol_All F) [a, b] st sz) = Some [(p @ [1], pol)]"
    "polarity_args F p pol (term_Node (fol_Exist F) [a, b] st sz) = Some [(p @ [1], pol)]"
    "polarity_args F p pol (term_Node (fol_Implies F) [a, b] st sz) = Some [(p @ [1], pol), (p @ [0], - pol)]"
    "polarity_args F p pol (term_Node (fol_Equiv F) [a, b] st sz) = Some [(p @ [1], 0), (p @ [0], 0)]"
    "polarity_args F p pol (term_Node (fol_And F) ts st sz) = Some (rev (map (\<lambda>i. (p @ [i], pol)) [0..<length ts]))"
    "polarity_args F p pol (term_Node (fol_Or F) ts st sz) = Some (rev (map (\<lambda>i. (p @ [i], pol)) [0..<length ts]))"
  by (simp_all add: polarity_args_def fol_neq [OF assms] Let_def)

lemma polarity_args_other:
  "s \<noteq> fol_Not F \<Longrightarrow> s \<noteq> fol_All F \<Longrightarrow> s \<noteq> fol_Exist F \<Longrightarrow> s \<noteq> fol_Implies F \<Longrightarrow> s \<noteq> fol_Equiv F \<Longrightarrow> s \<noteq> fol_And F \<Longrightarrow> s \<noteq> fol_Or F
    \<Longrightarrow> polarity_args F p pol (term_Node s ts st sz) = Some []"
  by (simp add: polarity_args_def Let_def)

lemma two_numbers: "{i :: nat. i < Suc (Suc 0) \<and> i = Suc 0} = {Suc 0}" "{i :: nat. i < Suc (Suc 0) \<and> (i = 0 \<or> i = Suc 0)} = {Suc 0, 0}"
  by auto

lemma polarity_args_ok:
  assumes "fol_ok F" "fol_formula F t"
  shows "\<exists>js. polarity_args F p pol t = Some (map (\<lambda>i. (p @ [i], the (child_polarity F (term_TopSymbol t) pol i))) js) \<and> distinct js
    \<and> set js = {i. i < length (term_ArgumentList t) \<and> child_polarity F (term_TopSymbol t) pol i \<noteq> None}
    \<and> (\<forall>i \<in> set js. fol_formula F (term_ArgumentList t ! i))"
proof -
  note simps = polarity_args_simps [OF assms(1)] child_polarity_simps [OF assms(1)] two_numbers
  have other: ?thesis if "term_TopSymbol t \<notin> {fol_Not F, fol_All F, fol_Exist F, fol_Implies F, fol_Equiv F, fol_And F, fol_Or F}"
  proof -
    have "polarity_args F p pol t = Some []" using that by (cases t) (auto intro: polarity_args_other)
    moreover have "child_polarity F (term_TopSymbol t) pol i = None" for i using that by (intro child_polarity_other) auto
    ultimately show ?thesis by (intro exI [of _ "[]"]) simp
  qed
  show ?thesis
    using assms(2)
  proof (cases rule: fol_formula_cases)
    case (quantifier s vl b st sz)
    show ?thesis
      by (rule exI [of _ "[1]"]) (use quantifier in \<open>auto simp: simps less_Suc_eq\<close>)
  next
    case (many s ts st sz)
    show ?thesis
    proof (cases "s = fol_And F \<or> s = fol_Or F")
      case True
      show ?thesis by (rule exI [of _ "rev [0..<length ts]"]) (use many(1,3,4) True in \<open>auto simp: simps rev_map\<close>)
    next
      case False
      show ?thesis by (rule other) (use many(1,2) False in \<open>auto simp: fol_neq [OF assms(1)]\<close>)
    qed
  next
    case (one u st sz)
    show ?thesis by (rule exI [of _ "[0]"]) (use one in \<open>auto simp: simps\<close>)
  next
    case (two s a b st sz)
    show ?thesis
    proof (cases "s = fol_Implies F \<or> s = fol_Equiv F")
      case True
      show ?thesis by (rule exI [of _ "[1, 0]"]) (use two(1,3,4) True in \<open>auto simp: simps less_Suc_eq split: if_splits\<close>)
    next
      case False
      show ?thesis by (rule other) (use two(1,2) False in \<open>auto simp: fol_neq [OF assms(1)]\<close>)
    qed
  next
    case (atom s ts st sz)
    show ?thesis by (rule other) (use atom(1) not_junctor [OF assms(1) atom(2)] in \<open>auto simp: fol_junctors_def\<close>)
  qed
qed

definition found :: "fol_symbols \<Rightarrow> TERM_NODE \<Rightarrow> position \<Rightarrow> position \<times> int \<Rightarrow> int option" where
  "found F T g = (\<lambda>(p, pol). if take (length p) g = p
     then Option.bind (term_at T p) (\<lambda>t. polarity F t pol (drop (length p) g)) else None)"

fun first_found :: "('a \<Rightarrow> 'b option) \<Rightarrow> 'a list \<Rightarrow> 'b option" where
  "first_found f [] = None"
| "first_found f (x # xs) = (case f x of None \<Rightarrow> first_found f xs | Some y \<Rightarrow> Some y)"

lemma first_found_append: "first_found f (xs @ ys) = (case first_found f xs of None \<Rightarrow> first_found f ys | Some y \<Rightarrow> Some y)"
  by (induction xs) (auto split: option.split)

lemma first_found_one: "x \<in> set xs \<Longrightarrow> (\<And>y. y \<in> set xs \<Longrightarrow> y \<noteq> x \<Longrightarrow> f y = None) \<Longrightarrow> first_found f xs = f x"
proof (induction xs)
  case (Cons a xs)
  have none: "first_found f zs = None" if "\<And>y. y \<in> set zs \<Longrightarrow> f y = None" for zs
    using that by (induction zs) auto
  show ?case
  proof (cases "x \<in> set xs")
    case True
    then show ?thesis using Cons by (cases "a = x") (auto split: option.split)
  next
    case False
    then show ?thesis using Cons.prems none [of xs] by (auto split: option.split)
  qed
qed simp

lemma first_found_none: "(\<And>y. y \<in> set xs \<Longrightarrow> f y = None) \<Longrightarrow> first_found f xs = None"
  by (induction xs) auto

lemma found_below: "found F T (p @ q) (p, pol) = Option.bind (term_at T p) (\<lambda>t. polarity F t pol q)"
  by (simp add: found_def)

lemma found_args:
  assumes "term_at T p = Some t" "p \<noteq> g"
    "set js = {i. i < length (term_ArgumentList t) \<and> child_polarity F (term_TopSymbol t) pol i \<noteq> None}"
  shows "first_found (found F T g) (map (\<lambda>i. (p @ [i], the (child_polarity F (term_TopSymbol t) pol i))) js) = found F T g (p, pol)"
proof (cases "take (length p) g = p")
  case False
  have "take (length p + 1) g \<noteq> p @ [i]" for i
  proof
    assume "take (length p + 1) g = p @ [i]"
    then have "take (length p) (take (length p + 1) g) = p" by simp
    then show False using False by (simp add: min_def)
  qed
  then have "found F T g y = None" if "y \<in> set (map (\<lambda>i. (p @ [i], the (child_polarity F (term_TopSymbol t) pol i))) js)" for y
    using that by (auto simp: found_def)
  then have "first_found (found F T g) (map (\<lambda>i. (p @ [i], the (child_polarity F (term_TopSymbol t) pol i))) js) = None"
    by (rule first_found_none)
  then show ?thesis using False by (simp add: found_def)
next
  case True
  then obtain i q where g: "g = p @ i # q" using assms(2) by (metis append_Nil2 append_take_drop_id list.exhaust)
  let ?pair = "\<lambda>i. (p @ [i], the (child_polarity F (term_TopSymbol t) pol i))"
  have other: "found F T g (?pair j) = None" if "j \<noteq> i" for j using that g by (auto simp: found_def)
  have at: "term_at T (p @ [i]) = (if i < length (term_ArgumentList t) then Some (term_ArgumentList t ! i) else None)"
    using assms(1) by (simp add: term_at_append)
  show ?thesis
  proof (cases "i \<in> set js")
    case True
    then have ii: "i < length (term_ArgumentList t)" "child_polarity F (term_TopSymbol t) pol i \<noteq> None" using assms(3) by auto
    have "first_found (found F T g) (map ?pair js) = found F T g (?pair i)"
    proof (intro first_found_one)
      fix y assume "y \<in> set (map ?pair js)" "y \<noteq> ?pair i"
      then obtain j where "y = ?pair j" "j \<noteq> i" by auto
      then show "found F T g y = None" using other by simp
    qed (use True in simp)
    also have "\<dots> = found F T g (p, pol)"
      using ii found_below [of F T "p @ [i]" q] found_below [of F T p "i # q" pol] at assms(1) g by auto
    finally show ?thesis .
  next
    case False
    then have "first_found (found F T g) (map ?pair js) = None"
    proof (intro first_found_none)
      fix y assume "y \<in> set (map ?pair js)"
      then obtain j where "y = ?pair j" "j \<noteq> i" using False by auto
      then show "found F T g y = None" using other by simp
    qed
    moreover have "found F T g (p, pol) = None"
      using found_below [of F T p "i # q" pol] False assms(1,3) g by (cases "child_polarity F (term_TopSymbol t) pol i") auto
    ultimately show ?thesis by simp
  qed
qed

lemma sum_distinct_args:
  fixes f :: "'a \<Rightarrow> nat"
  assumes "distinct js" "\<forall>i \<in> set js. i < length xs"
  shows "sum_list (map (\<lambda>i. f (xs ! i)) js) \<le> sum_list (map f xs)"
proof -
  have "sum_list (map (\<lambda>i. f (xs ! i)) js) = (\<Sum>i \<in> set js. f (xs ! i))" using assms(1) by (simp add: sum_list_distinct_conv_sum_set)
  also have "\<dots> \<le> (\<Sum>i \<in> {0..<length xs}. f (xs ! i))" using assms(2) by (intro sum_mono2) auto
  also have "\<dots> = sum_list (map f xs)" by (simp add: sum_list_sum_nth)
  finally show ?thesis .
qed

lemma polarity_search_ok:
  assumes "fol_ok F" "\<And>x. x \<in> set Stack \<Longrightarrow> \<exists>t. term_at T (fst x) = Some t \<and> fol_formula F t"
  shows "polarity_search F T g Stack = first_found (found F T g) Stack"
  using assms(2)
proof (induction "stack_size nodes (map fst Stack) T" arbitrary: Stack rule: less_induct)
  case less
  show ?case
  proof (cases Stack)
    case Nil
    then show ?thesis by (subst polarity_search.simps) simp
  next
    case (Cons x rest)
    obtain p pol where x: "x = (p, pol)" by force
    obtain t where t: "term_at T p = Some t" "fol_formula F t" using less.prems [of x] Cons x by auto
    show ?thesis
    proof (cases "p = g")
      case True
      then show ?thesis using Cons x t by (subst polarity_search.simps) (simp add: found_def)
    next
      case False
      obtain "js" where js: "polarity_args F p pol t = Some (map (\<lambda>i. (p @ [i], the (child_polarity F (term_TopSymbol t) pol i))) js)"
          "distinct js" "set js = {i. i < length (term_ArgumentList t) \<and> child_polarity F (term_TopSymbol t) pol i \<noteq> None}"
          "\<forall>i \<in> set js. fol_formula F (term_ArgumentList t ! i)"
        using polarity_args_ok [OF assms(1) t(2)] by blast
      let ?new = "map (\<lambda>i. (p @ [i], the (child_polarity F (term_TopSymbol t) pol i))) js"
      have at: "term_at T (p @ [i]) = Some (term_ArgumentList t ! i)" if "i \<in> set js" for i
        using that js(3) t(1) by (simp add: term_at_append)
      have "stack_size nodes (map fst ?new) T = sum_list (map (\<lambda>i. nodes (term_ArgumentList t ! i)) js)"
        using at by (auto simp: stack_size_def intro!: arg_cong [where f = sum_list] map_cong)
      also have "\<dots> \<le> sum_list (map nodes (term_ArgumentList t))" using js(2,3) by (intro sum_distinct_args) auto
      also have "\<dots> < nodes t" by (simp add: nodes_eq [of t])
      finally have less_size: "stack_size nodes (map fst (?new @ rest)) T < stack_size nodes (map fst Stack) T"
        using Cons x t(1) by simp
      have "polarity_search F T g Stack = polarity_search F T g (?new @ rest)"
        using Cons x t(1) False js(1) by (subst polarity_search.simps) (simp add: Let_def)
      also have "\<dots> = first_found (found F T g) (?new @ rest)"
        by (rule less.hyps [OF less_size]) (use less.prems Cons at js(4) in auto)
      also have "\<dots> = first_found (found F T g) Stack"
        using found_args [OF t(1) False js(3)] Cons x by (simp add: first_found_append)
      finally show ?thesis .
    qed
  qed
qed

lemma cnf_GetFormulaPolarity_ok:
  assumes "fol_ok F" "fol_formula F T"
  shows "cnf_GetFormulaPolarity F T g = polarity F T 1 g"
  using polarity_search_ok [OF assms(1), of "[([], 1)]" T g] assms(2)
  by (simp add: cnf_GetFormulaPolarity_def found_def split: option.split)

section \<open>Nodes of a changed term\<close>

lemma term_at_put_cases:
  assumes "term_at T p = Some t" "term_at (put_at T p u) g = Some x"
  obtains r where "g = p @ r" "term_at u r = Some x"
  | y where "term_at T g = Some y" "term_TopSymbol x = term_TopSymbol y" "\<nexists>r. g = p @ r"
proof (cases "\<exists>r. g = p @ r")
  case True
  then show thesis using that(1) assms term_at_put_below [OF assms(1)] by auto
next
  case False
  have "\<exists>y. term_at T g = Some y \<and> term_TopSymbol x = term_TopSymbol y"
    using assms False
  proof (induction T p arbitrary: g rule: term_at.induct)
    case (2 T i p)
    then show ?case
    proof (cases g)
      case (Cons j q)
      show ?thesis
      proof (cases "j = i")
        case True
        then show ?thesis using 2 Cons by (auto simp: term_RplacArgumentList_def split: if_splits)
      next
        case False
        then show ?thesis using 2 Cons by (auto simp: term_RplacArgumentList_def split: if_splits)
      qed
    qed (auto simp: term_RplacArgumentList_def split: if_splits)
  qed simp
  then show thesis using that(2) False by blast
qed

lemma polarity_put_apart: "apart p q \<Longrightarrow> polarity F (put_at T p u) pol q = polarity F T pol q"
proof (induction T p u arbitrary: q pol rule: put_at.induct)
  case (2 t i p u)
  then show ?case
    by (cases q) (auto simp: apart_Cons term_RplacArgumentList_def nth_list_update split: option.split bind_splits)
qed simp

lemma polarity_put_same: "term_at T p = Some t \<Longrightarrow> polarity F (put_at T p u) pol p = polarity F T pol p"
proof (induction T p u arbitrary: pol rule: put_at.induct)
  case (2 t i p u)
  then show ?case by (auto simp: term_RplacArgumentList_def split: bind_splits if_splits)
qed simp

lemma polarity_snoc:
  "term_at T p = Some t \<Longrightarrow> i < length (term_ArgumentList t)
    \<Longrightarrow> polarity F T pol (p @ [i]) = Option.bind (polarity F T pol p) (\<lambda>pol. child_polarity F (term_TopSymbol t) pol i)"
proof (induction F T pol p rule: polarity.induct)
  case (2 F T pol j p)
  then show ?case by (auto split: if_splits bind_splits)
qed (auto split: bind_splits)

end
