(* ===== verification/Spass_CNF_Correct.thy ===== *)
theory Spass_CNF_Correct
  imports Spass_CNF_Polarity
begin

text \<open>
  Proofs on the loops of \<open>Spass_CNF\<close>: the loops return, they keep the truth of the formula, and what they
  are to remove is gone. Both invariants say that a node which is still to be changed lies below a node
  on the stack.
\<close>

section \<open>Occurrences of symbols\<close>

fun without :: "SYMBOL set \<Rightarrow> TERM_NODE \<Rightarrow> bool" where
  "without X (term_Node s ts st sz) = (s \<notin> X \<and> (\<forall>t \<in> set ts. without X t))"

lemma without_Create [simp]: "without X (term_Create s ts) \<longleftrightarrow> s \<notin> X \<and> (\<forall>t \<in> set ts. without X t)"
  by (simp add: term_Create_def)

lemma without_iff: "without X t \<longleftrightarrow> (\<forall>g u. term_at t g = Some u \<longrightarrow> term_TopSymbol u \<notin> X)"
proof (induction t)
  case (term_Node s ts st sz)
  have "(\<forall>g u. term_at (term_Node s ts st sz) g = Some u \<longrightarrow> term_TopSymbol u \<notin> X)
    \<longleftrightarrow> s \<notin> X \<and> (\<forall>i < length ts. \<forall>g u. term_at (ts ! i) g = Some u \<longrightarrow> term_TopSymbol u \<notin> X)" (is "?A \<longleftrightarrow> ?B")
  proof
    assume A: ?A
    have "s \<notin> X" using A [rule_format, of "[]" "term_Node s ts st sz"] by simp
    moreover have "term_TopSymbol u \<notin> X" if "i < length ts" "term_at (ts ! i) g = Some u" for i g u
      using A [rule_format, of "i # g" u] that by simp
    ultimately show ?B by blast
  next
    assume B: ?B
    have "term_TopSymbol u \<notin> X" if "term_at (term_Node s ts st sz) g = Some u" for g u
      using that B by (cases g) (auto split: if_splits)
    then show ?A by blast
  qed
  moreover have "(\<forall>t \<in> set ts. without X t) \<longleftrightarrow> (\<forall>i < length ts. \<forall>g u. term_at (ts ! i) g = Some u \<longrightarrow> term_TopSymbol u \<notin> X)"
    by (simp add: all_set_conv_all_nth term_Node.IH)
  ultimately show ?case by simp
qed

lemma without_put_at: "without X T \<Longrightarrow> without X u \<Longrightarrow> without X (put_at T p u)"
proof (induction T p u rule: put_at.induct)
  case (2 T i p u)
  have "without X (put_at (term_ArgumentList T ! i) p u)" if "i < length (term_ArgumentList T)"
    using 2 that by (cases T) auto
  then show ?case using 2
    by (cases T) (auto simp: term_RplacArgumentList_def dest: set_update_subset_insert [THEN subsetD])
qed simp

lemma without_at: "without X T \<Longrightarrow> term_at T p = Some t \<Longrightarrow> without X t"
  by (induction T p rule: term_at.induct) (auto split: if_splits elim!: without.elims)

lemma without_mono: "without X t \<Longrightarrow> Y \<subseteq> X \<Longrightarrow> without Y t"
  by (induction t) auto

lemma without_plain: "plain_term t \<Longrightarrow> fol_ok F \<Longrightarrow> X \<subseteq> set (fol_junctors F) \<Longrightarrow> without X t"
proof (induction t)
  case (term_Node s ts st sz)
  have "s \<notin> set (fol_junctors F)"
    using term_Node.prems(1) fol_symbol_kinds(6,7) [OF term_Node.prems(2), of s]
    by (auto simp: plain_term_def term_IsVariable_def)
  then show ?case using term_Node plain_term_arg by auto
qed

lemma without_vlist:
  assumes "vlist_ok F vl" "fol_ok F" "X \<subseteq> set (fol_junctors F)" "fol_Varlist F \<notin> X"
  shows "without X vl"
  using assms without_plain [OF vlist_arg_plain [OF assms(1)] assms(2,3)] by (cases vl) (auto simp: vlist_ok_def)

section \<open>Nodes without formulas\<close>

text \<open>The loops also push lists of variables and terms, and leave them as they are.\<close>

definition inert :: "fol_symbols \<Rightarrow> TERM_NODE \<Rightarrow> bool" where
  "inert F t \<longleftrightarrow> vlist_ok F t \<or> plain_term t"

lemma inert_arg: "inert F t \<Longrightarrow> a \<in> set (term_ArgumentList t) \<Longrightarrow> inert F a"
  using vlist_arg_plain plain_term_arg by (cases t) (auto simp: inert_def)

lemma inert_top:
  assumes "fol_ok F" "inert F t"
  shows "term_TopSymbol t \<notin> set (fol_junctors F) - {fol_Varlist F}" "\<not> symbol_IsPredicate (term_TopSymbol t)"
proof -
  consider "term_TopSymbol t = fol_Varlist F" | "symbol_IsFunction (term_TopSymbol t)" | "symbol_IsVariable (term_TopSymbol t)"
    using assms(2) by (cases t) (auto simp: inert_def vlist_ok_def plain_term_def term_IsVariable_def)
  then have "term_TopSymbol t \<notin> set (fol_junctors F) - {fol_Varlist F} \<and> \<not> symbol_IsPredicate (term_TopSymbol t)"
  proof cases
    case 1
    then have "term_TopSymbol t \<in> set (fol_junctors F)" by (simp add: fol_junctors_def)
    then show ?thesis using 1 fol_symbol_kinds(5) [OF assms(1)] by blast
  next
    case 2
    then show ?thesis using fol_symbol_kinds(7) [OF assms(1)] function_kind by blast
  next
    case 3
    then show ?thesis using fol_symbol_kinds(6) [OF assms(1)] predicate_kind by blast
  qed
  then show "term_TopSymbol t \<notin> set (fol_junctors F) - {fol_Varlist F}" "\<not> symbol_IsPredicate (term_TopSymbol t)" by blast+
qed

lemma formula_arg:
  assumes "fol_ok F" "fol_formula F t" "a \<in> set (term_ArgumentList t)"
  shows "fol_formula F a \<or> inert F a"
  using assms(2,3) by (cases rule: fol_formula_cases) (auto simp: inert_def)

section \<open>Implications and equivalences are removed\<close>

definition other_junctors :: "fol_symbols \<Rightarrow> SYMBOL set" where
  "other_junctors F = {fol_Implied F, fol_Xor F, fol_Nor F, fol_Nand F}"

fun equiv_weight :: "fol_symbols \<Rightarrow> TERM_NODE \<Rightarrow> nat" where
  "equiv_weight F (term_Node s ts st sz) =
     (let n = sum_list (map (equiv_weight F) ts)
      in if symbol_IsPredicate s then 1 else if s = fol_Equiv F then 6 + 2 * n else if s = fol_Implies F then 3 + n else 1 + n)"

lemma visit_inert:
  assumes F: "fol_ok F" and t: "inert F t"
  shows "cnf_RemoveEquivImpl_visit F T p t = Some (t, push_args p t)"
    "sum_list (map (equiv_weight F) (term_ArgumentList t)) < equiv_weight F t"
proof -
  have top: "term_TopSymbol t \<noteq> fol_Implies F" "term_TopSymbol t \<noteq> fol_Equiv F" "\<not> symbol_IsPredicate (term_TopSymbol t)"
    using inert_top [OF assms] by (auto simp: fol_junctors_def fol_neq [OF F])
  then show "cnf_RemoveEquivImpl_visit F T p t = Some (t, push_args p t)"
    by (auto simp: cnf_RemoveEquivImpl_visit_def symbol_Equal_def push_args_def)
  show "sum_list (map (equiv_weight F) (term_ArgumentList t)) < equiv_weight F t" using top by (cases t) auto
qed

text \<open>What a visit of a formula makes of it.\<close>

definition equiv_removed :: "fol_symbols \<Rightarrow> 'a interp \<Rightarrow> TERM_NODE \<Rightarrow> TERM_NODE \<Rightarrow> bool" where
  "equiv_removed F I t t' \<longleftrightarrow> fol_formula F t' \<and> (\<forall>v. holds F I v t' = holds F I v t)
     \<and> term_TopSymbol t' \<notin> {fol_Implies F, fol_Equiv F} \<union> other_junctors F
     \<and> (without (other_junctors F) t \<longrightarrow> without (other_junctors F) t')
     \<and> sum_list (map (equiv_weight F) (if symbol_IsPredicate (term_TopSymbol t') then [] else term_ArgumentList t')) < equiv_weight F t"

lemma visit_formula:
  assumes F: "fol_ok F" and t: "fol_formula F t" "without (other_junctors F) t"
    and pol: "cnf_GetFormulaPolarity F T p \<in> {Some 1, Some 0, Some (- 1)}"
  shows "\<exists>t'. cnf_RemoveEquivImpl_visit F T p t = Some (t', if symbol_IsPredicate (term_TopSymbol t') then [] else push_args p t')
    \<and> equiv_removed F I t t'"
proof -
  note simps = cnf_RemoveEquivImpl_visit_def symbol_Equal_def equiv_removed_def fol_neq [OF F] fol_symbol_kinds [OF F] formula_simps [OF F]
    holds_simps [OF F] term_node_defs Let_def fol_junctors_def other_junctors_def
  show ?thesis
    using t(1)
  proof (cases rule: fol_formula_cases)
    case (quantifier s vl b st sz)
    show ?thesis by (rule exI [of _ t]) (use quantifier in \<open>auto simp: simps push_args_def\<close>)
  next
    case (many s ts st sz)
    have s: "s = fol_And F \<or> s = fol_Or F" using many(1,2) t(2) by (auto simp: other_junctors_def)
    show ?thesis by (rule exI [of _ t]) (use many(1,3,4) s in \<open>auto simp: simps push_args_def\<close>)
  next
    case (one u st sz)
    show ?thesis by (rule exI [of _ t]) (use one in \<open>auto simp: simps push_args_def\<close>)
  next
    case (two s a b st sz)
    consider "s = fol_Implies F" | "s = fol_Equiv F" using two(1,2) t(2) by (auto simp: other_junctors_def)
    then show ?thesis
    proof cases
      case 1
      show ?thesis by (rule exI [of _ "term_Node (fol_Or F) [term_Create (fol_Not F) [a], b] st sz"])
          (use two(1,3,4) 1 in \<open>auto simp: simps\<close>)
    next
      case 2
      let ?neg = "\<lambda>t. term_Create (fol_Not F) [t]"
      show ?thesis
      proof (cases "cnf_GetFormulaPolarity F T p = Some (- 1)")
        case True
        show ?thesis
          by (rule exI [of _ "term_Node (fol_Or F) [term_Create (fol_And F) [?neg a, ?neg b], term_Create (fol_And F) [a, b]] st sz"])
            (use two(1,3,4) 2 True in \<open>auto simp: simps\<close>)
      next
        case False
        show ?thesis
          by (rule exI [of _ "term_Node (fol_And F) [term_Create (fol_Or F) [?neg a, b], term_Create (fol_Or F) [?neg b, a]] st sz"])
            (use two(1,3,4) 2 False pol in \<open>auto simp: simps\<close>)
      qed
    qed
  next
    case (atom s ts st sz)
    have "s \<notin> set (fol_junctors F)" using not_junctor [OF F atom(2)] .
    then show ?thesis by (intro exI [of _ t]) (use atom(1,2) t in \<open>auto simp: simps\<close>)
  qed
qed

text \<open>What is on the stack, and where the symbols that are to be removed can be.\<close>

definition pending :: "(TERM_NODE \<Rightarrow> bool) \<Rightarrow> position list \<Rightarrow> TERM_NODE \<Rightarrow> bool" where
  "pending bad Stack T \<longleftrightarrow> (\<forall>g x. term_at T g = Some x \<longrightarrow> bad x \<longrightarrow> (\<exists>p \<in> set Stack. \<exists>r. g = p @ r))"

lemma pending_none: "pending bad [] T \<Longrightarrow> term_at T g = Some x \<Longrightarrow> \<not> bad x"
  by (auto simp: pending_def)

lemma pending_root: "pending bad [[]] T"
  by (simp add: pending_def)

text \<open>A visit may change the nodes below and the node itself, and pushes what it leaves undone.\<close>

lemma pending_step:
  assumes "pending bad (p # rest) T" "term_at T p = Some t"
    and new: "\<And>r x. term_at t' r = Some x \<Longrightarrow> bad x \<Longrightarrow> \<exists>q \<in> set pushed. \<exists>r'. p @ r = q @ r'"
    and above: "\<And>g x y. \<nexists>r. g = p @ r \<Longrightarrow> term_at (put_at T p t') g = Some x \<Longrightarrow> term_at T g = Some y \<Longrightarrow> term_TopSymbol x = term_TopSymbol y
      \<Longrightarrow> bad x \<Longrightarrow> bad y"
  shows "pending bad (pushed @ rest) (put_at T p t')"
  unfolding pending_def
proof (intro allI impI)
  fix g x assume x: "term_at (put_at T p t') g = Some x" "bad x"
  from assms(2) x(1) show "\<exists>q \<in> set (pushed @ rest). \<exists>r. g = q @ r"
  proof (cases rule: term_at_put_cases)
    case (1 r)
    then show ?thesis using new [OF 1(2) x(2)] by auto
  next
    case (2 y)
    have "bad y" using above [OF 2(3) x(1) 2(1,2) x(2)] .
    then obtain q r where "q \<in> set (p # rest)" "g = q @ r" using assms(1) 2(1) unfolding pending_def by blast
    then show ?thesis using 2(3) by auto
  qed
qed

lemma push_args_below: "term_at t (i # r) = Some x \<Longrightarrow> \<exists>q \<in> set (push_args p t). \<exists>r'. p @ i # r = q @ r'"
  by (auto simp: push_args_def split: if_splits intro!: bexI [of _ i])

definition equiv_todo :: "fol_symbols \<Rightarrow> TERM_NODE \<Rightarrow> position \<Rightarrow> bool" where
  "equiv_todo F T p \<longleftrightarrow> (\<exists>t. term_at T p = Some t
     \<and> (inert F t \<or> fol_formula F t \<and> polarity F T 1 p \<in> {Some 1, Some 0, Some (- 1)}))"

lemma equiv_todo_apart: "apart p q \<Longrightarrow> equiv_todo F T q \<Longrightarrow> equiv_todo F (put_at T p u) q"
  by (simp add: equiv_todo_def term_at_put_apart polarity_put_apart)

lemma equiv_todo_args:
  assumes F: "fol_ok F" and p: "term_at T p = Some t" and q: "q \<in> set (push_args p t')"
    and ok: "inert F t' \<or> fol_formula F t' \<and> term_TopSymbol t' \<notin> {fol_Implies F, fol_Equiv F} \<union> other_junctors F
      \<and> \<not> symbol_IsPredicate (term_TopSymbol t') \<and> polarity F T 1 p \<in> {Some 1, Some 0, Some (- 1)}"
  shows "equiv_todo F (put_at T p t') q"
proof -
  obtain i where i: "q = p @ [i]" "i < length (term_ArgumentList t')" using q by (auto simp: push_args_def)
  let ?a = "term_ArgumentList t' ! i"
  have at: "term_at (put_at T p t') q = Some ?a" using i p by (simp add: term_at_put_below)
  have a: "?a \<in> set (term_ArgumentList t')" using i by simp
  show ?thesis
  proof (cases "inert F ?a")
    case True
    then show ?thesis using at by (simp add: equiv_todo_def)
  next
    case False
    then have t': "\<not> inert F t'" "fol_formula F ?a" using inert_arg [OF _ a] formula_arg [OF F _ a] ok by blast+
    then have ok': "fol_formula F t'" "term_TopSymbol t' \<notin> {fol_Implies F, fol_Equiv F} \<union> other_junctors F"
        "\<not> symbol_IsPredicate (term_TopSymbol t')" "polarity F T 1 p \<in> {Some 1, Some 0, Some (- 1)}" using ok by blast+
    have "child_polarity F (term_TopSymbol t') pol i \<in> {Some pol, Some (- pol)}" for pol
      using ok'(1)
    proof (cases rule: fol_formula_cases)
      case (quantifier s vl b st sz)
      then have "i = 1" using False i by (auto simp: less_Suc_eq inert_def)
      then show ?thesis using quantifier by (auto simp: child_polarity_simps [OF F])
    qed (use ok'(2,3) i in \<open>auto simp: child_polarity_simps [OF F] other_junctors_def\<close>)
    moreover have "polarity F (put_at T p t') 1 q = Option.bind (polarity F T 1 p) (\<lambda>pol. child_polarity F (term_TopSymbol t') pol i)"
      using polarity_snoc [of "put_at T p t'" p t' i F 1] i p by (simp add: polarity_put_same)
    ultimately have "polarity F (put_at T p t') 1 q \<in> {Some 1, Some 0, Some (- 1)}" using ok'(4) by fastforce
    then show ?thesis using at t'(2) by (simp add: equiv_todo_def)
  qed
qed

definition is_equiv :: "fol_symbols \<Rightarrow> TERM_NODE \<Rightarrow> bool" where
  "is_equiv F x \<longleftrightarrow> term_TopSymbol x \<in> {fol_Implies F, fol_Equiv F}"

definition equiv_inv :: "fol_symbols \<Rightarrow> 'a interp \<Rightarrow> TERM_NODE \<Rightarrow> position list \<Rightarrow> TERM_NODE \<Rightarrow> bool" where
  "equiv_inv F I T0 Stack T \<longleftrightarrow> stack_ok Stack T \<and> fol_formula F T \<and> (\<forall>v. holds F I v T = holds F I v T0)
     \<and> without (other_junctors F) T \<and> (\<forall>p \<in> set Stack. equiv_todo F T p) \<and> pending (is_equiv F) Stack T"

lemma equiv_inv_step:
  assumes F: "fol_ok F" and inv: "equiv_inv F I T0 (p # rest) T"
  shows "\<exists>t t' pushed. term_at T p = Some t \<and> cnf_RemoveEquivImpl_visit F T p t = Some (t', pushed)
    \<and> equiv_inv F I T0 (pushed @ rest) (put_at T p t')
    \<and> stack_size (equiv_weight F) (pushed @ rest) (put_at T p t') < stack_size (equiv_weight F) (p # rest) T"
proof -
  note i = inv [unfolded equiv_inv_def]
  have ok: "stack_ok (p # rest) T" and todo: "equiv_todo F T p" and rest: "\<And>q. q \<in> set rest \<Longrightarrow> equiv_todo F T q"
    and pend: "pending (is_equiv F) (p # rest) T" and form: "fol_formula F T"
    using i by simp_all
  obtain t where t: "term_at T p = Some t" "inert F t \<or> fol_formula F t \<and> polarity F T 1 p \<in> {Some 1, Some 0, Some (- 1)}"
    using todo by (auto simp: equiv_todo_def)
  have wt: "without (other_junctors F) t" using i without_at t(1) by blast
  note apart = stack_ok_push(3) [OF ok]
  have rest': "equiv_todo F (put_at T p u) q" if "q \<in> set rest" for q u using equiv_todo_apart rest that apart by blast
  have size: "stack_size (equiv_weight F) rest (put_at T p u) = stack_size (equiv_weight F) rest T" for u
    using stack_size_apart apart by blast
  have above: "is_equiv F x \<Longrightarrow> term_TopSymbol x = term_TopSymbol y \<Longrightarrow> is_equiv F y" for x y by (simp add: is_equiv_def)
  show ?thesis
  proof (cases "inert F t")
    case True
    have top: "\<not> is_equiv F t" using inert_top [OF F True] by (auto simp: is_equiv_def fol_junctors_def fol_neq [OF F])
    have "pending (is_equiv F) (push_args p t @ rest) (put_at T p t)"
    proof (rule pending_step [OF pend t(1)])
      fix r x assume "term_at t r = Some x" "is_equiv F x"
      then show "\<exists>q \<in> set (push_args p t). \<exists>r'. p @ r = q @ r'" using top push_args_below by (cases r) auto
    qed (use above in blast)
    moreover have "\<forall>q \<in> set (push_args p t @ rest). equiv_todo F (put_at T p t) q"
      using equiv_todo_args [OF F t(1), of _ t] True rest' by auto
    ultimately have "equiv_inv F I T0 (push_args p t @ rest) (put_at T p t)"
      using i stack_ok_push(1) [OF ok, of t] t(1) by (simp add: equiv_inv_def)
    then show ?thesis using t(1) visit_inert [OF F True] size [of t] stack_size_args [OF t(1), of "equiv_weight F" t]
      by (intro exI [of _ t] exI [of _ "push_args p t"]) simp
  next
    case False
    have ft: "fol_formula F t" "polarity F T 1 p \<in> {Some 1, Some 0, Some (- 1)}" using t(2) False by blast+
    have pol: "cnf_GetFormulaPolarity F T p \<in> {Some 1, Some 0, Some (- 1)}" using cnf_GetFormulaPolarity_ok [OF F form] ft(2) by simp
    obtain t' where v: "cnf_RemoveEquivImpl_visit F T p t = Some (t', if symbol_IsPredicate (term_TopSymbol t') then [] else push_args p t')"
      and r: "equiv_removed F I t t'"
      using visit_formula [OF F ft(1) wt pol] by blast
    let ?new = "if symbol_IsPredicate (term_TopSymbol t') then [] else push_args p t'"
    note r' = r [unfolded equiv_removed_def]
    have formulas: "fol_formula F (put_at T p t') \<and> (\<forall>v. holds F I v (put_at T p t') = holds F I v T)"
      using formula_put_at [OF F ft(1) _ _ form t(1)] r' by blast
    have top: "\<not> is_equiv F t'" using r' by (simp add: is_equiv_def)
    have plain: "\<not> is_equiv F x" if "symbol_IsPredicate (term_TopSymbol t')" "term_at t' (i # q) = Some x" for i q x
    proof -
      have f: "fol_formula F t'" using r' by simp
      then have "\<forall>a \<in> set (term_ArgumentList t'). plain_term a"
        using that(1) fol_symbol_kinds(5) [OF F] by (cases rule: fol_formula_cases) (auto simp: fol_junctors_def)
      then have "plain_term x" using that(2) plain_term_at [of "term_ArgumentList t' ! i" q x] by (auto split: if_splits)
      then show ?thesis using inert_top(1) [OF F, of x] by (auto simp: inert_def is_equiv_def fol_junctors_def fol_neq [OF F])
    qed
    have "pending (is_equiv F) (?new @ rest) (put_at T p t')"
    proof (rule pending_step [OF pend t(1)])
      fix q x assume x: "term_at t' q = Some x" "is_equiv F x"
      then obtain i q' where q: "q = i # q'" using top by (cases q) auto
      then have "\<not> symbol_IsPredicate (term_TopSymbol t')" using plain x by blast
      then show "\<exists>q'' \<in> set ?new. \<exists>r'. p @ q = q'' @ r'" using push_args_below x(1) q by simp
    qed (use above in blast)
    moreover have "\<forall>q \<in> set (?new @ rest). equiv_todo F (put_at T p t') q"
      using equiv_todo_args [OF F t(1), of _ t'] r' ft(2) rest' by auto
    moreover have "stack_ok (?new @ rest) (put_at T p t')" using stack_ok_push(1,2) [OF ok, of t'] by simp
    ultimately have "equiv_inv F I T0 (?new @ rest) (put_at T p t')"
      using i formulas without_put_at r' wt by (simp add: equiv_inv_def)
    moreover have "stack_size (equiv_weight F) (?new @ rest) (put_at T p t') < stack_size (equiv_weight F) (p # rest) T"
      using r' size [of t'] stack_size_args [OF t(1), of "equiv_weight F" t'] t(1) by (auto split: if_splits)
    ultimately show ?thesis using t(1) v by (intro exI [of _ t] exI [of _ t'] exI [of _ ?new] conjI)
  qed
qed

interpretation equiv_editor: stack_editor "cnf_RemoveEquivImpl_visit F" "\<lambda>S T. fol_ok F \<and> equiv_inv F I T0 S T" "stack_size (equiv_weight F)"
  by unfold_locales (use equiv_inv_step in blast)

lemma cnf_RemoveEquivImplFromFormula_ok:
  assumes F: "fol_ok F" and T: "fol_formula F T" "without (other_junctors F) T"
  obtains T' where "cnf_RemoveEquivImplFromFormula F T = Some T'" "fol_formula F T'" "\<And>v. holds F I v T' = holds F I v T"
    "without ({fol_Implies F, fol_Equiv F} \<union> other_junctors F) T'"
proof -
  have "equiv_inv F I T [[]] T"
    using T by (simp add: equiv_inv_def stack_ok_def equiv_todo_def pending_root)
  then obtain T' where T': "cnf_RemoveEquivImplFromFormula F T = Some T'" "equiv_inv F I T [] T'"
    unfolding cnf_RemoveEquivImplFromFormula_def using equiv_editor.returns [of F I T "[[]]" T] F by blast
  have "without {fol_Implies F, fol_Equiv F} T'"
    using T'(2) pending_none [of "is_equiv F" T'] by (simp add: without_iff equiv_inv_def is_equiv_def)
  then have "without ({fol_Implies F, fol_Equiv F} \<union> other_junctors F) T'"
    using T'(2) by (simp add: without_iff equiv_inv_def)
  then show thesis using that T' by (simp add: equiv_inv_def)
qed

end
