(* ===== verification/Spass_CNF_Distribute_Correct.thy ===== *)
theory Spass_CNF_Distribute_Correct
  imports Spass_CNF_Distribute Spass_CNF_Correct
begin

text \<open>
  Distribution returns for every formula that is built from literals with conjunctions and disjunctions,
  the result is a conjunction of clauses, and it has the same truth. Duplicates are found with
  \<open>term_Equal\<close>, so the predicates and functions are assumed to have fixed arities (\<open>arity_ok\<close>).
\<close>

declare split_paired_All [simp del] split_paired_Ex [simp del]

section \<open>Truth does not depend on stamps and sizes\<close>

lemma term_value_erase: "term_value I v (erase t) = term_value I v t"
  by (induction t) (auto cong: map_cong simp: comp_def)

lemma vars_of_erase: "vars_of (erase vl) = vars_of vl"
proof -
  have "term_TopSymbol (erase x) = term_TopSymbol x" for x by (cases x) simp
  then show ?thesis by (cases vl) (simp add: vars_of_def image_image)
qed

lemma holds_erase: "holds F I v (erase t) = holds F I v t"
proof (induction t arbitrary: v)
  case (term_Node s ts st sz)
  have two: "(case map erase ts of [a, b] \<Rightarrow> P a b | _ \<Rightarrow> False) = (case ts of [a, b] \<Rightarrow> P (erase a) (erase b) | _ \<Rightarrow> False)" for P
    by (cases ts; cases "tl ts"; cases "tl (tl ts)") auto
  have one: "(case map erase ts of [a] \<Rightarrow> P a | _ \<Rightarrow> False) = (case ts of [a] \<Rightarrow> P (erase a) | _ \<Rightarrow> False)" for P
    by (cases ts; cases "tl ts") auto
  have cong2: "(case ts of [a, b] \<Rightarrow> P a b | _ \<Rightarrow> False) = (case ts of [a, b] \<Rightarrow> Q a b | _ \<Rightarrow> False)"
    if "\<And>a b. set ts = {a, b} \<Longrightarrow> P a b = Q a b" for P Q using that by (auto split: list.split)
  have cong1: "(case ts of [a] \<Rightarrow> P a | _ \<Rightarrow> False) = (case ts of [a] \<Rightarrow> Q a | _ \<Rightarrow> False)"
    if "\<And>a. set ts = {a} \<Longrightarrow> P a = Q a" for P Q using that by (auto split: list.split)
  show ?case
    unfolding erase.simps holds.simps [of F I v s "map erase ts"] holds.simps [of F I v s ts] two one
    by (intro if_cong refl cong2 cong1) (simp_all add: term_Node.IH vars_of_erase term_value_erase comp_def)
qed

section \<open>Literals and clauses\<close>

definition atomic :: "(SYMBOL \<Rightarrow> nat) \<Rightarrow> fol_symbols \<Rightarrow> TERM_NODE \<Rightarrow> bool" where
  "atomic ar F t \<longleftrightarrow> symbol_IsPredicate (term_TopSymbol t) \<and> fol_formula F t \<and> arity_ok ar t"

definition literal :: "(SYMBOL \<Rightarrow> nat) \<Rightarrow> fol_symbols \<Rightarrow> TERM_NODE \<Rightarrow> bool" where
  "literal ar F t \<longleftrightarrow> atomic ar F t
     \<or> term_TopSymbol t = fol_Not F \<and> (case term_ArgumentList t of [a] \<Rightarrow> atomic ar F a | _ \<Rightarrow> False)"

definition clause :: "(SYMBOL \<Rightarrow> nat) \<Rightarrow> fol_symbols \<Rightarrow> TERM_NODE \<Rightarrow> bool" where
  "clause ar F t \<longleftrightarrow> literal ar F t
     \<or> term_TopSymbol t = fol_Or F \<and> term_ArgumentList t \<noteq> [] \<and> (\<forall>l \<in> set (term_ArgumentList t). literal ar F l)"

lemma literal_top:
  assumes "fol_ok F" "literal ar F t"
  shows "term_TopSymbol t \<noteq> fol_Or F" "term_TopSymbol t \<noteq> fol_And F"
  using assms(2) not_junctor [OF assms(1)] by (auto simp: literal_def atomic_def fol_junctors_def fol_neq [OF assms(1)])

lemma literal_formula: "fol_ok F \<Longrightarrow> literal ar F t \<Longrightarrow> fol_formula F t"
  by (cases t) (auto simp: literal_def atomic_def formula_simps split: list.splits)

lemma clause_formula: "fol_ok F \<Longrightarrow> clause ar F t \<Longrightarrow> fol_formula F t"
  using literal_formula [of F ar] by (cases t) (auto simp: clause_def formula_simps)

lemma clause_top: "fol_ok F \<Longrightarrow> clause ar F t \<Longrightarrow> term_TopSymbol t \<noteq> fol_And F"
  using literal_top by (auto simp: clause_def fol_neq)

lemma atomic_equal: "atomic ar F t \<Longrightarrow> atomic ar F u \<Longrightarrow> term_Equal t u \<Longrightarrow> erase t = erase u"
  using term_Equal_ok(1) by (auto simp: atomic_def)

lemma term_Equal_top: "term_Equal t u \<Longrightarrow> term_TopSymbol t = term_TopSymbol u"
  by (cases t; cases u) (simp add: symbol_Equal_def split: if_splits)

lemma term_Equal_args: "term_Equal t u \<Longrightarrow> term_ArgumentList t \<noteq> [] \<Longrightarrow> list_all2 term_Equal (term_ArgumentList t) (term_ArgumentList u)"
proof -
  have *: "term_EqualArgs ts us \<Longrightarrow> list_all2 term_Equal ts us" for ts us
  proof (induction ts arbitrary: us)
    case Nil
    then show ?case by simp
  next
    case (Cons t ts)
    then show ?case by (cases us) (auto split: if_splits)
  qed
  assume "term_Equal t u" "term_ArgumentList t \<noteq> []"
  then show ?thesis using * by (cases t; cases u) (simp split: if_splits)
qed

lemma erase_eqI: "term_TopSymbol t = term_TopSymbol u \<Longrightarrow> list_all2 (\<lambda>a b. erase a = erase b) (term_ArgumentList t) (term_ArgumentList u)
  \<Longrightarrow> erase t = erase u"
  by (simp add: erase_eq_iff list_all2_conv_all_nth list_eq_iff_nth_eq)

lemma literal_equal:
  assumes "fol_ok F" "literal ar F t" "literal ar F u" "term_Equal t u"
  shows "erase t = erase u"
proof (cases "term_TopSymbol t = fol_Not F")
  case True
  have np: "\<not> atomic ar F x" if "term_TopSymbol x = fol_Not F" for x
    using that not_junctor [OF assms(1)] by (auto simp: atomic_def fol_junctors_def)
  have tops: "term_TopSymbol u = fol_Not F" using term_Equal_top [OF assms(4)] True by simp
  obtain a where a: "term_ArgumentList t = [a]" "atomic ar F a"
    using assms(2) np [OF True] by (auto simp: literal_def split: list.splits)
  obtain b where b: "term_ArgumentList u = [b]" "atomic ar F b"
    using assms(3) np [OF tops] by (auto simp: literal_def split: list.splits)
  have "list_all2 term_Equal [a] [b]" using term_Equal_args [OF assms(4)] a(1) b(1) by simp
  then show ?thesis using atomic_equal [OF a(2) b(2)] a(1) b(1) True tops by (intro erase_eqI) simp_all
next
  case False
  then have "atomic ar F t" "atomic ar F u" using assms(2,3) term_Equal_top [OF assms(4)] by (auto simp: literal_def)
  then show ?thesis using atomic_equal assms(4) by blast
qed

lemma clause_equal:
  assumes "fol_ok F" "clause ar F t" "clause ar F u" "term_Equal t u"
  shows "erase t = erase u"
proof (cases "literal ar F t")
  case True
  then have "literal ar F u" using assms(3) literal_top(1) [OF assms(1) True] term_Equal_top [OF assms(4)] by (auto simp: clause_def)
  then show ?thesis using literal_equal [OF assms(1) True] assms(4) by blast
next
  case False
  then have t: "term_TopSymbol t = fol_Or F" "term_ArgumentList t \<noteq> []" "\<forall>l \<in> set (term_ArgumentList t). literal ar F l"
    using assms(2) by (auto simp: clause_def)
  have tops: "term_TopSymbol t = term_TopSymbol u" by (rule term_Equal_top [OF assms(4)])
  then have "\<not> literal ar F u" using literal_top(1) [OF assms(1)] t(1) by metis
  then have u: "\<forall>l \<in> set (term_ArgumentList u). literal ar F l" using assms(3) by (auto simp: clause_def)
  have all2: "list_all2 term_Equal (term_ArgumentList t) (term_ArgumentList u)" by (rule term_Equal_args [OF assms(4) t(2)])
  show ?thesis
  proof (rule erase_eqI [OF tops], rule list_all2_all_nthI)
    show "length (term_ArgumentList t) = length (term_ArgumentList u)" by (rule list_all2_lengthD [OF all2])
    fix i assume i: "i < length (term_ArgumentList t)"
    have "term_Equal (term_ArgumentList t ! i) (term_ArgumentList u ! i)" by (rule list_all2_nthD [OF all2 i])
    then show "erase (term_ArgumentList t ! i) = erase (term_ArgumentList u ! i)"
      using literal_equal [OF assms(1)] t(3) u i list_all2_lengthD [OF all2] nth_mem by metis
  qed
qed

lemma equal_holds: "erase t = erase u \<Longrightarrow> holds F I v t = holds F I v u"
  using holds_erase [of F I v t] holds_erase [of F I v u] by simp

section \<open>Lists of clauses\<close>

lemma DestroyDuplicates_set: "set (term_DestroyDuplicatesInList ts) \<subseteq> set ts"
  by (induction ts rule: term_DestroyDuplicatesInList.induct) auto

lemma DestroyDuplicates_Nil [simp]: "term_DestroyDuplicatesInList ts = [] \<longleftrightarrow> ts = []"
  by (cases ts) auto

lemma DestroyDuplicates_covers: "t \<in> set ts \<Longrightarrow> \<exists>u \<in> set (term_DestroyDuplicatesInList ts). u \<in> set ts \<and> (u = t \<or> term_Equal u t)"
proof (induction ts rule: term_DestroyDuplicatesInList.induct)
  case (2 a ts)
  then show ?case by (cases "t = a \<or> term_Equal a t") fastforce+
qed simp

lemma DestroyDuplicates_holds:
  assumes "\<And>t u. t \<in> set ts \<Longrightarrow> u \<in> set ts \<Longrightarrow> term_Equal t u \<Longrightarrow> erase t = erase u"
  shows "(\<forall>t \<in> set (term_DestroyDuplicatesInList ts). holds F I v t) = (\<forall>t \<in> set ts. holds F I v t)"
    "(\<exists>t \<in> set (term_DestroyDuplicatesInList ts). holds F I v t) = (\<exists>t \<in> set ts. holds F I v t)"
proof -
  have cover: "\<exists>u \<in> set (term_DestroyDuplicatesInList ts). holds F I v u = holds F I v t" if t: "t \<in> set ts" for t
  proof -
    obtain u where u: "u \<in> set (term_DestroyDuplicatesInList ts)" "u \<in> set ts" "u = t \<or> term_Equal u t"
      using DestroyDuplicates_covers [OF t] by blast
    then have "holds F I v u = holds F I v t" using equal_holds [OF assms [OF u(2) t]] by blast
    then show ?thesis using u(1) by blast
  qed
  then show "(\<forall>t \<in> set (term_DestroyDuplicatesInList ts). holds F I v t) = (\<forall>t \<in> set ts. holds F I v t)"
    "(\<exists>t \<in> set (term_DestroyDuplicatesInList ts). holds F I v t) = (\<exists>t \<in> set ts. holds F I v t)"
    using DestroyDuplicates_set [of ts] by (metis subsetD)+
qed

lemma multi_term_ok:
  assumes F: "fol_ok F" and t: "clause ar F t" "clause ar F u"
  shows "clause ar F (multi_term F b c t u) \<and> (\<forall>v. holds F I v (multi_term F b c t u) \<longleftrightarrow> holds F I v t \<or> holds F I v u)"
proof -
  have lit: "literal ar F x" if "clause ar F x" "term_TopSymbol x \<noteq> fol_Or F" for x using that by (simp add: clause_def)
  have cl: "\<exists>ls st sz. x = term_Node (fol_Or F) ls st sz \<and> ls \<noteq> [] \<and> (\<forall>l \<in> set ls. literal ar F l)"
    if "clause ar F x" "term_TopSymbol x = fol_Or F" for x
  proof -
    have "\<not> literal ar F x" using literal_top(1) [OF F, of ar x] that(2) by blast
    then have "term_ArgumentList x \<noteq> [] \<and> (\<forall>l \<in> set (term_ArgumentList x). literal ar F l)" using that(1) by (simp add: clause_def)
    then show ?thesis using that(2) by (cases x) simp
  qed
  note simps = multi_term_def symbol_Equal_def cnf_CombineORTerms_def cnf_AddAtomToORTerm_def cnf_BuildORTermFromAtoms_def
    term_RplacArgumentList_def term_Create_def clause_def holds_simps [OF F] Let_def
  show ?thesis
  proof (cases "term_TopSymbol t = fol_Or F")
    case True
    then obtain ls st sz where T: "t = term_Node (fol_Or F) ls st sz" "ls \<noteq> []" "\<forall>l \<in> set ls. literal ar F l" using cl [OF t(1)] by blast
    show ?thesis
    proof (cases "term_TopSymbol u = fol_Or F")
      case True
      then obtain us st' sz' where U: "u = term_Node (fol_Or F) us st' sz'" "us \<noteq> []" "\<forall>l \<in> set us. literal ar F l" using cl [OF t(2)] by blast
      show ?thesis unfolding T(1) U(1) using T(2,3) U(2,3) by (cases "b \<and> \<not> c") (auto simp: simps)
    next
      case False
      then have "literal ar F u" using lit t(2) by blast
      then show ?thesis using False unfolding T(1) using T(2,3) by (simp add: simps) blast
    qed
  next
    case False
    then have l: "literal ar F t" using lit t(1) by blast
    show ?thesis
    proof (cases "term_TopSymbol u = fol_Or F")
      case True
      then obtain us st' sz' where U: "u = term_Node (fol_Or F) us st' sz'" "us \<noteq> []" "\<forall>l \<in> set us. literal ar F l" using cl [OF t(2)] by blast
      show ?thesis using False l unfolding U(1) using U(2,3) by (simp add: simps)
    next
      case top: False
      then have "literal ar F u" using lit t(2) by blast
      then show ?thesis using False top l by (simp add: simps) blast
    qed
  qed
qed

definition clauses :: "(SYMBOL \<Rightarrow> nat) \<Rightarrow> fol_symbols \<Rightarrow> TERM_NODE list \<Rightarrow> bool" where
  "clauses ar F cs \<longleftrightarrow> cs \<noteq> [] \<and> (\<forall>c \<in> set cs. clause ar F c)"

lemma multi_inner_ok:
  assumes F: "fol_ok F" and t: "clause ar F t" "\<forall>c \<in> set us. clause ar F c" "\<forall>c \<in> set acc. clause ar F c"
  shows "(\<forall>c \<in> set (multi_inner F b t us acc). clause ar F c) \<and> (multi_inner F b t us acc = [] \<longleftrightarrow> us = [] \<and> acc = [])
    \<and> (\<forall>v. (\<forall>c \<in> set (multi_inner F b t us acc). holds F I v c)
        \<longleftrightarrow> (\<forall>c \<in> set acc. holds F I v c) \<and> (\<forall>u \<in> set us. holds F I v t \<or> holds F I v u))"
  using t(2,3)
proof (induction us arbitrary: acc)
  case (Cons u us)
  have m: "clause ar F (multi_term F b (us \<noteq> []) t u)"
    "\<And>v. holds F I v (multi_term F b (us \<noteq> []) t u) \<longleftrightarrow> holds F I v t \<or> holds F I v u"
    using multi_term_ok [OF F t(1), of u b "us \<noteq> []" I] Cons.prems(1) by simp_all
  show ?case using Cons.IH [of "multi_term F b (us \<noteq> []) t u # acc"] Cons.prems m by auto
qed simp

lemma multi_outer_ok:
  assumes F: "fol_ok F" and t: "\<forall>c \<in> set ts. clause ar F c" "\<forall>c \<in> set us. clause ar F c" "\<forall>c \<in> set acc. clause ar F c"
  shows "(\<forall>c \<in> set (multi_outer F ts us acc). clause ar F c) \<and> (multi_outer F ts us acc = [] \<longleftrightarrow> (ts = [] \<or> us = []) \<and> acc = [])
    \<and> (\<forall>v. (\<forall>c \<in> set (multi_outer F ts us acc). holds F I v c)
        \<longleftrightarrow> (\<forall>c \<in> set acc. holds F I v c) \<and> (\<forall>t \<in> set ts. \<forall>u \<in> set us. holds F I v t \<or> holds F I v u))"
  using t(1,3)
proof (induction ts arbitrary: acc)
  case (Cons t ts)
  let ?acc = "multi_inner F (ts \<noteq> []) t us acc"
  have i: "\<forall>c \<in> set ?acc. clause ar F c" "?acc = [] \<longleftrightarrow> us = [] \<and> acc = []"
    "\<And>v. (\<forall>c \<in> set ?acc. holds F I v c) \<longleftrightarrow> (\<forall>c \<in> set acc. holds F I v c) \<and> (\<forall>u \<in> set us. holds F I v t \<or> holds F I v u)"
    using multi_inner_ok [OF F _ t(2), of t acc "ts \<noteq> []" I] Cons.prems by simp_all
  show ?case using Cons.IH [OF _ i(1)] Cons.prems(1) i by auto
qed simp

lemma cnf_List_MultiCons_ok:
  assumes F: "fol_ok F" and t: "clauses ar F ts" "clauses ar F us"
  shows "clauses ar F (cnf_List_MultiCons F ts us) \<and> (\<forall>v. (\<forall>c \<in> set (cnf_List_MultiCons F ts us). holds F I v c)
    \<longleftrightarrow> (\<forall>t \<in> set ts. holds F I v t) \<or> (\<forall>u \<in> set us. holds F I v u))"
proof -
  let ?m = "multi_outer F ts us []"
  have m: "\<forall>c \<in> set ?m. clause ar F c" "?m \<noteq> []"
    "\<And>v. (\<forall>c \<in> set ?m. holds F I v c) \<longleftrightarrow> (\<forall>t \<in> set ts. \<forall>u \<in> set us. holds F I v t \<or> holds F I v u)"
    using multi_outer_ok [OF F, of ts ar us "[]" I] t by (simp_all add: clauses_def)
  have eq: "\<And>t u. t \<in> set ?m \<Longrightarrow> u \<in> set ?m \<Longrightarrow> term_Equal t u \<Longrightarrow> erase t = erase u" using m(1) clause_equal [OF F] by blast
  have truth: "(\<forall>c \<in> set (term_DestroyDuplicatesInList ?m). holds F I v c) \<longleftrightarrow> (\<forall>t \<in> set ts. holds F I v t) \<or> (\<forall>u \<in> set us. holds F I v u)" for v
  proof -
    have "(\<forall>c \<in> set (term_DestroyDuplicatesInList ?m). holds F I v c) \<longleftrightarrow> (\<forall>c \<in> set ?m. holds F I v c)"
      by (rule DestroyDuplicates_holds(1)) (rule eq)
    also have "\<dots> \<longleftrightarrow> (\<forall>t \<in> set ts. holds F I v t) \<or> (\<forall>u \<in> set us. holds F I v u)" unfolding m(3) by blast
    finally show ?thesis .
  qed
  have "clauses ar F (term_DestroyDuplicatesInList ?m)"
    unfolding clauses_def using m(1,2) DestroyDuplicates_set [of ?m] by (simp add: subset_iff)
  then show ?thesis unfolding cnf_List_MultiCons_def using truth by blast
qed

lemma cnf_MakeBigAndList_ok:
  assumes F: "fol_ok F" and as: "as \<noteq> []" "\<forall>t \<in> set as. clauses ar F (term_ArgumentList t)"
  shows "clauses ar F (cnf_MakeBigAndList F as) \<and> (\<forall>v. (\<forall>c \<in> set (cnf_MakeBigAndList F as). holds F I v c)
    \<longleftrightarrow> (\<exists>t \<in> set as. \<forall>c \<in> set (term_ArgumentList t). holds F I v c))"
proof -
  have fold: "clauses ar F (foldl (\<lambda>Result t. cnf_List_MultiCons F Result (term_ArgumentList t)) R bs)
    \<and> (\<forall>v. (\<forall>c \<in> set (foldl (\<lambda>Result t. cnf_List_MultiCons F Result (term_ArgumentList t)) R bs). holds F I v c)
        \<longleftrightarrow> (\<forall>c \<in> set R. holds F I v c) \<or> (\<exists>t \<in> set bs. \<forall>c \<in> set (term_ArgumentList t). holds F I v c))"
    if "clauses ar F R" "\<forall>t \<in> set bs. clauses ar F (term_ArgumentList t)" for R bs
    using that
  proof (induction bs arbitrary: R)
    case (Cons b bs)
    let ?R = "cnf_List_MultiCons F R (term_ArgumentList b)"
    have r: "clauses ar F ?R" "\<And>v. (\<forall>c \<in> set ?R. holds F I v c) \<longleftrightarrow> (\<forall>c \<in> set R. holds F I v c) \<or> (\<forall>c \<in> set (term_ArgumentList b). holds F I v c)"
      using cnf_List_MultiCons_ok [OF F Cons.prems(1), of "term_ArgumentList b" I] Cons.prems(2) by simp_all
    show ?case using Cons.IH [OF r(1)] Cons.prems(2) r(2) by simp
  qed simp
  obtain a bs where ab: "as = a # bs" using as(1) by (cases as) auto
  show ?thesis using fold [of "term_ArgumentList a" bs] as(2) unfolding ab cnf_MakeBigAndList_def by simp
qed

lemma cnf_AttachAtomList_ok:
  assumes F: "fol_ok F" and cs: "clauses ar F cs" and ls: "\<forall>l \<in> set ls. literal ar F l"
  shows "clauses ar F (cnf_AttachAtomList F cs ls) \<and> (\<forall>v. (\<forall>c \<in> set (cnf_AttachAtomList F cs ls). holds F I v c)
    \<longleftrightarrow> (\<forall>c \<in> set cs. holds F I v c) \<or> (\<exists>l \<in> set ls. holds F I v l))"
proof -
  define f where "f = (\<lambda>t. if symbol_Equal (term_TopSymbol t) (fol_Or F)
              then term_RplacArgumentList t (term_DestroyDuplicatesInList (term_ArgumentList t @ map term_Copy ls))
              else term_Create (fol_Or F) (term_DestroyDuplicatesInList (t # map term_Copy ls)))"
  have f: "clause ar F (f t) \<and> (\<forall>v. holds F I v (f t) \<longleftrightarrow> holds F I v t \<or> (\<exists>l \<in> set ls. holds F I v l))" if c: "clause ar F t" for t
  proof -
    have dup: "(\<forall>l \<in> set (term_DestroyDuplicatesInList xs). literal ar F l)
        \<and> (\<forall>v. (\<exists>l \<in> set (term_DestroyDuplicatesInList xs). holds F I v l) \<longleftrightarrow> (\<exists>l \<in> set xs. holds F I v l))"
      if "\<forall>l \<in> set xs. literal ar F l" for xs
      using DestroyDuplicates_holds(2) [of xs F I] literal_equal [OF F] that DestroyDuplicates_set [of xs] by (meson subsetD)
    show ?thesis
    proof (cases "term_TopSymbol t = fol_Or F")
      case True
      then obtain as st sz where t: "t = term_Node (fol_Or F) as st sz" "as \<noteq> []" "\<forall>l \<in> set as. literal ar F l"
        using c literal_top(1) [OF F, of ar t] by (cases t) (auto simp: clause_def)
      have d: "\<forall>l \<in> set (term_DestroyDuplicatesInList (as @ ls)). literal ar F l"
        "\<And>v. (\<exists>l \<in> set (term_DestroyDuplicatesInList (as @ ls)). holds F I v l) \<longleftrightarrow> (\<exists>l \<in> set (as @ ls). holds F I v l)"
        using dup [of "as @ ls"] t(3) ls by auto
      have ids: "map term_Copy ls = ls" by (simp add: map_idI)
      show ?thesis unfolding t(1) using d t(2)
        by (simp add: f_def ids clause_def term_RplacArgumentList_def symbol_Equal_def holds_simps [OF F] bex_Un)
    next
      case False
      then have l: "literal ar F t" using c by (simp add: clause_def)
      have d: "\<forall>l \<in> set (term_DestroyDuplicatesInList (t # ls)). literal ar F l"
        "\<And>v. (\<exists>l \<in> set (term_DestroyDuplicatesInList (t # ls)). holds F I v l) \<longleftrightarrow> (\<exists>l \<in> set (t # ls). holds F I v l)"
        using dup [of "t # ls"] l ls by auto
      have ids: "map term_Copy ls = ls" by (simp add: map_idI)
      show ?thesis using d False
        by (simp add: f_def ids clause_def term_Create_def symbol_Equal_def holds_simps [OF F] del: term_DestroyDuplicatesInList.simps)
    qed
  qed
  have all: "\<forall>c \<in> set cs. clause ar F (f c)" "\<And>v c. c \<in> set cs \<Longrightarrow> holds F I v (f c) \<longleftrightarrow> holds F I v c \<or> (\<exists>l \<in> set ls. holds F I v l)"
    using f cs by (auto simp: clauses_def)
  have "cnf_AttachAtomList F cs ls = map f cs" by (simp add: cnf_AttachAtomList_def f_def)
  then show ?thesis using all cs by (auto simp: clauses_def)
qed

end
