(* ===== verification/Spass_CNF_Distribute_Tree.thy ===== *)
theory Spass_CNF_Distribute_Tree
  imports Spass_CNF_Distribute_Correct
begin

text \<open>
  Distribution on trees of literals, conjunctions and disjunctions: the walk that flattens, the stack of
  disjunctions that is emptied from the inside, and the translation as a whole.
\<close>

declare split_paired_All [simp del] split_paired_Ex [simp del]

section \<open>Trees of conjunctions and disjunctions\<close>

fun nnf_tree :: "(SYMBOL \<Rightarrow> nat) \<Rightarrow> fol_symbols \<Rightarrow> TERM_NODE \<Rightarrow> bool" where
  "nnf_tree ar F (term_Node s ts st sz) =
     (if s = fol_Or F \<or> s = fol_And F then ts \<noteq> [] \<and> (\<forall>t \<in> set ts. nnf_tree ar F t) else literal ar F (term_Node s ts st sz))"

text \<open>No disjunction is an argument of a disjunction.\<close>

fun flat_tree :: "(SYMBOL \<Rightarrow> nat) \<Rightarrow> fol_symbols \<Rightarrow> TERM_NODE \<Rightarrow> bool" where
  "flat_tree ar F (term_Node s ts st sz) =
     (if s = fol_Or F then ts \<noteq> [] \<and> (\<forall>t \<in> set ts. term_TopSymbol t \<noteq> fol_Or F \<and> flat_tree ar F t)
      else if s = fol_And F then ts \<noteq> [] \<and> (\<forall>t \<in> set ts. flat_tree ar F t)
      else literal ar F (term_Node s ts st sz))"

text \<open>Conjunctions of clauses, nested and not nested.\<close>

fun cnf_tree :: "(SYMBOL \<Rightarrow> nat) \<Rightarrow> fol_symbols \<Rightarrow> TERM_NODE \<Rightarrow> bool" where
  "cnf_tree ar F (term_Node s ts st sz) =
     (if s = fol_And F then ts \<noteq> [] \<and> (\<forall>t \<in> set ts. cnf_tree ar F t) else clause ar F (term_Node s ts st sz))"

definition cnf_form :: "(SYMBOL \<Rightarrow> nat) \<Rightarrow> fol_symbols \<Rightarrow> TERM_NODE \<Rightarrow> bool" where
  "cnf_form ar F t \<longleftrightarrow> clause ar F t \<or> term_TopSymbol t = fol_And F \<and> clauses ar F (term_ArgumentList t)"

lemma clause_cnf_tree: "fol_ok F \<Longrightarrow> clause ar F t \<Longrightarrow> cnf_tree ar F t"
proof (cases t)
  case (term_Node s ts st sz)
  assume "fol_ok F" "clause ar F t"
  then show ?thesis using clause_top [of F ar t] term_Node by simp
qed

lemma cnf_form_tree: "fol_ok F \<Longrightarrow> cnf_form ar F t \<Longrightarrow> cnf_tree ar F t"
proof (cases "clause ar F t")
  case False
  assume "fol_ok F" "cnf_form ar F t"
  then show ?thesis using False clause_cnf_tree [of F ar] by (cases t) (simp add: cnf_form_def clauses_def)
qed (rule clause_cnf_tree)

lemma literal_without: "fol_ok F \<Longrightarrow> literal ar F t \<Longrightarrow> without {fol_Or F} t"
proof -
  assume F: "fol_ok F" and t: "literal ar F t"
  have atom: "without {fol_Or F} a" if "atomic ar F a" for a
  proof -
    obtain s ts st sz where a: "a = term_Node s ts st sz" by (cases a)
    have p: "symbol_IsPredicate s" "fol_formula F a" using that a by (simp_all add: atomic_def)
    then have "\<forall>x \<in> set ts. plain_term x" "s \<noteq> fol_Or F"
      using not_junctor [OF F p(1)] a by (auto simp: fol_formula.simps fol_junctors_def)
    then show ?thesis using without_plain [OF _ F, of _ "{fol_Or F}"] a by (simp add: fol_junctors_def)
  qed
  obtain s ts st sz where T: "t = term_Node s ts st sz" by (cases t)
  have neq: "fol_Not F \<noteq> fol_Or F" by (simp add: fol_neq [OF F])
  show ?thesis
  proof (cases "atomic ar F t")
    case False
    then obtain a where "s = fol_Not F" "ts = [a]" "atomic ar F a" using t by (auto simp: T literal_def split: list.splits)
    then show ?thesis using atom neq T by simp
  qed (rule atom)
qed

section \<open>Flattening\<close>

lemma cnf_Flatten_ok:
  assumes F: "fol_ok F"
  shows "cnf_tree ar F t \<Longrightarrow> \<exists>t'. cnf_Flatten t (fol_And F) = Some t' \<and> cnf_form ar F t'
    \<and> term_TopSymbol t' = term_TopSymbol t \<and> (\<forall>v. holds F I v t' \<longleftrightarrow> holds F I v t)"
proof (induction t)
  case (term_Node s ts st sz)
  show ?case
  proof (cases "s = fol_And F")
    case True
    define f where "f = (\<lambda>Argterm. if symbol_Equal (term_TopSymbol Argterm) (fol_And F) then do {
               Argterm \<leftarrow> cnf_Flatten Argterm (fol_And F);
               if term_ArgumentList Argterm = [] then None else Some (term_ArgumentList Argterm) } else Some [Argterm])"
    define ok where "ok = (\<lambda>x us. f x = Some us \<and> clauses ar F us \<and> (\<forall>v. (\<forall>c \<in> set us. holds F I v c) \<longleftrightarrow> holds F I v x))"
    have "\<exists>us. ok x us" if x: "x \<in> set ts" for x
    proof (cases "term_TopSymbol x = fol_And F")
      case top: True
      have "cnf_tree ar F x" using term_Node.prems x True by simp
      then obtain x' where x': "cnf_Flatten x (fol_And F) = Some x'" "cnf_form ar F x'" "term_TopSymbol x' = fol_And F"
          "\<forall>v. holds F I v x' \<longleftrightarrow> holds F I v x"
        using term_Node.IH [OF x] top by auto
      have cl: "clauses ar F (term_ArgumentList x')" using x'(2,3) clause_top [OF F, of ar x'] by (simp add: cnf_form_def) blast
      have h: "holds F I v x' \<longleftrightarrow> (\<forall>c \<in> set (term_ArgumentList x'). holds F I v c)" for v
        using x'(3) by (cases x') (simp add: holds_simps [OF F])
      have "f x = Some (term_ArgumentList x')" using x'(1) cl top by (simp add: f_def symbol_Equal_def clauses_def)
      then show ?thesis using x'(4) h cl unfolding ok_def by blast
    next
      case False
      then have "clause ar F x" using term_Node.prems x True by (cases x) auto
      then have "ok x [x]" using False by (simp add: ok_def f_def symbol_Equal_def clauses_def)
      then show ?thesis by blast
    qed
    then obtain g where g: "\<forall>x \<in> set ts. ok x (g x)" using bchoice [of "set ts" ok] by blast
    have "map_loop f ts = Some (map g ts)" by (rule map_loop_Some) (use g in \<open>simp add: ok_def\<close>)
    then have "cnf_Flatten (term_Node s ts st sz) (fol_And F) = Some (term_Node s (concat (map g ts)) st sz)"
      using True unfolding f_def by (simp add: symbol_Equal_def)
    moreover have "clauses ar F (concat (map g ts))" using g term_Node.prems True by (cases ts) (auto simp: clauses_def ok_def)
    moreover have "\<forall>v. (\<forall>c \<in> set (concat (map g ts)). holds F I v c) \<longleftrightarrow> (\<forall>t \<in> set ts. holds F I v t)" using g by (simp add: ok_def)
    ultimately show ?thesis using True by (simp add: cnf_form_def holds_simps [OF F])
  qed (use term_Node.prems in \<open>simp add: symbol_Equal_def cnf_form_def\<close>)
qed

lemma fold_loop_concat:
  "(\<And>us x. x \<in> set ts \<Longrightarrow> f (b, us) x = Some (b, us @ g x)) \<Longrightarrow> fold_loop f (b, us) ts = Some (b, us @ concat (map g ts))"
  by (induction ts arbitrary: us) simp_all

lemma FlattenToSimpleORTerm_ok:
  assumes F: "fol_ok F"
  shows "nnf_tree ar F t \<Longrightarrow> \<exists>t'. cnf_FlattenToSimpleORTerm F t = Some (False, t') \<and> nnf_tree ar F t'
    \<and> term_TopSymbol t' = term_TopSymbol t \<and> (\<forall>v. holds F I v t' \<longleftrightarrow> holds F I v t)
    \<and> (term_TopSymbol t = fol_Or F \<longrightarrow> (\<forall>x \<in> set (term_ArgumentList t'). term_TopSymbol x \<noteq> fol_Or F))"
proof (induction t)
  case (term_Node s ts st sz)
  show ?case
  proof (cases "s = fol_Or F")
    case True
    define f where "f = (\<lambda>state Argterm. let SimpleOrTerm = fst state; us = snd state in
          if symbol_Equal (term_TopSymbol Argterm) (fol_Or F) then do {
            (SimpleOrSubTerm, Argterm) \<leftarrow> cnf_FlattenToSimpleORTerm F Argterm;
            let SimpleOrTerm = (if \<not> SimpleOrSubTerm then False else SimpleOrTerm);
            if term_ArgumentList Argterm = [] then None else Some (SimpleOrTerm, us @ term_ArgumentList Argterm) }
          else if symbol_Equal (term_TopSymbol Argterm) (fol_And F) then Some (False, us @ [Argterm])
          else Some (SimpleOrTerm, us @ [Argterm]))"
    have nn: "nnf_tree ar F x" if "x \<in> set ts" for x using term_Node.prems that True by simp
    define ok where "ok = (\<lambda>x ys. (\<forall>us. f (False, us) x = Some (False, us @ ys)) \<and> ys \<noteq> []
        \<and> (\<forall>y \<in> set ys. nnf_tree ar F y \<and> term_TopSymbol y \<noteq> fol_Or F) \<and> (\<forall>v. (\<exists>y \<in> set ys. holds F I v y) \<longleftrightarrow> holds F I v x))"
    have "\<exists>ys. ok x ys" if x: "x \<in> set ts" for x
    proof (cases "term_TopSymbol x = fol_Or F")
      case top: True
      obtain x' where x': "cnf_FlattenToSimpleORTerm F x = Some (False, x')" "nnf_tree ar F x'" "term_TopSymbol x' = fol_Or F"
          "\<forall>v. holds F I v x' \<longleftrightarrow> holds F I v x" "\<forall>y \<in> set (term_ArgumentList x'). term_TopSymbol y \<noteq> fol_Or F"
        using term_Node.IH [OF x nn [OF x]] top by auto
      have args: "term_ArgumentList x' \<noteq> []" "\<forall>y \<in> set (term_ArgumentList x'). nnf_tree ar F y"
          "\<And>v. holds F I v x' \<longleftrightarrow> (\<exists>c \<in> set (term_ArgumentList x'). holds F I v c)"
        using x'(2,3) by (cases x'; simp add: holds_simps [OF F])+
      have "f (False, us) x = Some (False, us @ term_ArgumentList x')" for us
        using x'(1) args(1) top by (simp add: f_def symbol_Equal_def Let_def)
      then have "ok x (term_ArgumentList x')" unfolding ok_def using args x'(4,5) by blast
      then show ?thesis by blast
    next
      case False
      then have "ok x [x]" using nn [OF x] by (simp add: ok_def f_def symbol_Equal_def Let_def)
      then show ?thesis by blast
    qed
    then obtain g where g: "\<forall>x \<in> set ts. ok x (g x)" using bchoice [of "set ts" ok] by blast
    have "fold_loop f (False, []) ts = Some (False, [] @ concat (map g ts))"
      by (rule fold_loop_concat) (use g in \<open>simp add: ok_def\<close>)
    then have "cnf_FlattenToSimpleORTerm F (term_Node s ts st sz) = Some (False, term_Node s (concat (map g ts)) st sz)"
      using True unfolding f_def by (simp add: symbol_Equal_def)
    moreover have "concat (map g ts) \<noteq> []" using g term_Node.prems True by (cases ts) (simp_all add: ok_def)
    moreover have "\<forall>y \<in> set (concat (map g ts)). nnf_tree ar F y \<and> term_TopSymbol y \<noteq> fol_Or F" using g by (simp add: ok_def)
    moreover have "\<forall>v. (\<exists>y \<in> set (concat (map g ts)). holds F I v y) \<longleftrightarrow> (\<exists>t \<in> set ts. holds F I v t)" using g by (simp add: ok_def)
    ultimately show ?thesis using True by (simp add: holds_simps [OF F])
  qed (use term_Node.prems in \<open>simp add: symbol_Equal_def\<close>)
qed

section \<open>The walk\<close>

function or_positions :: "fol_symbols \<Rightarrow> TERM_NODE \<Rightarrow> position list" where
  "or_positions F (term_Node s ts st sz) =
     concat (rev (map (\<lambda>i. map ((#) i) (or_positions F (ts ! i))) [0..<length ts])) @ (if s = fol_Or F then [[]] else [])"
  by pat_completeness auto

termination
  by (relation "measure (\<lambda>(F, t). nodes t)") (auto intro!: le_imp_less_Suc member_le_sum_list)

lemma ScanTree_plain: "without {fol_Or F} t \<Longrightarrow> cnf_ScanTree F t = Some (t, [])"
proof (induction t)
  case (term_Node s ts st sz)
  have "map_loop (cnf_ScanTree F) ts = Some (map (\<lambda>t. (t, [])) ts)"
    by (rule map_loop_Some) (use term_Node in simp)
  then show ?case using term_Node.prems
    by (subst cnf_ScanTree.simps) (simp add: symbol_Equal_def term_RplacArgumentList_def comp_def)
qed

lemma or_positions_plain: "without {fol_Or F} t \<Longrightarrow> or_positions F t = []"
  by (induction t) simp

lemma cnf_ScanTree_ok:
  assumes F: "fol_ok F"
  shows "nnf_tree ar F t \<Longrightarrow> \<exists>t'. cnf_ScanTree F t = Some (t', or_positions F t') \<and> flat_tree ar F t'
    \<and> term_TopSymbol t' = term_TopSymbol t \<and> (\<forall>v. holds F I v t' \<longleftrightarrow> holds F I v t)"
proof (induction t rule: measure_induct_rule [of nodes])
  case (less t)
  show ?case
  proof (cases "term_TopSymbol t = fol_Or F \<or> term_TopSymbol t = fol_And F")
    case False
    then have l: "literal ar F t" using less.prems by (cases t) simp
    then have "flat_tree ar F t" using False by (cases t) simp
    then show ?thesis using ScanTree_plain or_positions_plain literal_without [OF F l] by simp
  next
    case True
    obtain t1 where t1: "cnf_FlattenToSimpleORTerm F t = Some (False, t1)" "nnf_tree ar F t1" "term_TopSymbol t1 = term_TopSymbol t"
        "\<forall>v. holds F I v t1 \<longleftrightarrow> holds F I v t"
        "term_TopSymbol t = fol_Or F \<longrightarrow> (\<forall>x \<in> set (term_ArgumentList t1). term_TopSymbol x \<noteq> fol_Or F)"
      using FlattenToSimpleORTerm_ok [OF F less.prems] by blast
    obtain s ts st sz where T: "t1 = term_Node s ts st sz" by (cases t1)
    have s: "s = fol_Or F \<or> s = fol_And F" "s = term_TopSymbol t" using T t1(3) True by simp_all
    have ts: "ts \<noteq> []" "\<forall>x \<in> set ts. nnf_tree ar F x" using t1(2) T s by simp_all
    have "\<exists>x'. cnf_ScanTree F x = Some (x', or_positions F x') \<and> flat_tree ar F x' \<and> term_TopSymbol x' = term_TopSymbol x
        \<and> (\<forall>v. holds F I v x' \<longleftrightarrow> holds F I v x)" if x: "x \<in> set ts" for x
    proof (rule less.IH)
      show "nodes x < nodes t" using FlattenToSimpleORTerm_size [OF t1(1)] T member_le_sum_list [of "nodes x" "map nodes ts"] x by simp
    qed (use ts x in blast)
    then obtain g where g: "\<forall>x \<in> set ts. cnf_ScanTree F x = Some (g x, or_positions F (g x)) \<and> flat_tree ar F (g x)
        \<and> term_TopSymbol (g x) = term_TopSymbol x \<and> (\<forall>v. holds F I v (g x) \<longleftrightarrow> holds F I v x)"
      by metis
    have pos: "map (\<lambda>i. map ((#) i) (snd (map (\<lambda>x. (g x, or_positions F (g x))) ts ! i))) [0..<length ts]
        = map (\<lambda>i. map ((#) i) (or_positions F (map g ts ! i))) [0..<length ts]"
      by (rule map_cong) simp_all
    have "map_loop (cnf_ScanTree F) ts = Some (map (\<lambda>x. (g x, or_positions F (g x))) ts)" by (rule map_loop_Some) (use g in blast)
    then have "cnf_ScanTree F t = Some (term_Node s (map g ts) st sz, or_positions F (term_Node s (map g ts) st sz))"
      using t1(1) T by (subst cnf_ScanTree.simps) (simp add: symbol_Equal_def term_RplacArgumentList_def comp_def pos)
    moreover have "flat_tree ar F (term_Node s (map g ts) st sz)" using g ts(1) s t1(5) T by auto
    moreover have "\<forall>v. holds F I v (term_Node s (map g ts) st sz) \<longleftrightarrow> holds F I v t" using t1(4) T g s(1) by (auto simp: holds_simps [OF F])
    ultimately show ?thesis using s(2) by auto
  qed
qed

end
