(* ===== verification/Spass_CNF_Simplify.thy ===== *)
theory Spass_CNF_Simplify
  imports Spass_Formula
begin

text \<open>
  The simplifications before the clause normal form translation (\<open>cnf_ObviousSimplifications\<close>): the atoms
  \<open>true\<close> and \<open>false\<close> are propagated, conjunctions and disjunctions of one formula are replaced by it,
  quantifiers are merged and lose the variables that do not occur. The test for free occurrences is the
  loop of \<open>fol_VarOccursFreely\<close> with its stack of argument lists.
\<close>

section \<open>Trivial atoms\<close>

text \<open>The loop over the arguments of a conjunction or disjunction: \<open>Some None\<close> when an argument with the
  symbol \<open>stop\<close> decides the formula.\<close>

fun trivial_loop :: "(TERM_NODE \<Rightarrow> TERM_NODE option) \<Rightarrow> SYMBOL \<Rightarrow> TERM_NODE list \<Rightarrow> TERM_NODE list option option" where
  "trivial_loop f stop [] = Some (Some [])"
| "trivial_loop f stop (t # ts) = do {
     Result \<leftarrow> f t;
     if symbol_Equal (term_TopSymbol Result) stop then Some None
     else map_option (map_option (\<lambda>rs. Result # rs)) (trivial_loop f stop ts) }"

lemma trivial_loop_cong [fundef_cong]:
  "ts = us \<Longrightarrow> s = s' \<Longrightarrow> (\<And>t. t \<in> set us \<Longrightarrow> f t = g t) \<Longrightarrow> trivial_loop f s ts = trivial_loop g s' us"
  by (induction ts arbitrary: us) (auto intro!: Option.bind_cong)

definition constant_formula :: "TERM_NODE \<Rightarrow> SYMBOL \<Rightarrow> TERM_NODE" where
  "constant_formula Term S = term_RplacArgumentList (term_RplacTop Term S) []"

definition overwrite :: "TERM_NODE \<Rightarrow> TERM_NODE \<Rightarrow> TERM_NODE" where
  "overwrite Term Result = term_RplacArgumentList (term_RplacTop Term (term_TopSymbol Result)) (term_ArgumentList Result)"

function cnf_RemoveTrivialAtoms :: "fol_symbols \<Rightarrow> TERM_NODE \<Rightarrow> TERM_NODE option" where
  "cnf_RemoveTrivialAtoms F Term =
     (let Top = term_TopSymbol Term; args = term_ArgumentList Term;
          is = (\<lambda>R S. symbol_Equal (term_TopSymbol R) S) in
      if \<not> term_IsComplex Term then Some Term
      else if symbol_Equal Top (fol_And F) then do {
        r \<leftarrow> trivial_loop (cnf_RemoveTrivialAtoms F) (fol_False F) args;
        Some (case r of None \<Rightarrow> constant_formula Term (fol_False F)
          | Some rs \<Rightarrow>
              let rs' = (if \<exists>t \<in> set rs. is t (fol_True F) then fol_DeleteTrueTermFromList F rs else rs)
              in if rs' = [] then constant_formula Term (fol_True F) else term_RplacArgumentList Term rs') }
      else if symbol_Equal Top (fol_Or F) then do {
        r \<leftarrow> trivial_loop (cnf_RemoveTrivialAtoms F) (fol_True F) args;
        Some (case r of None \<Rightarrow> constant_formula Term (fol_True F)
          | Some rs \<Rightarrow>
              let rs' = (if \<exists>t \<in> set rs. is t (fol_False F) then fol_DeleteFalseTermFromList F rs else rs)
              in if rs' = [] then constant_formula Term (fol_False F) else term_RplacArgumentList Term rs') }
      else if fol_IsQuantifier F Top then do {
        b \<leftarrow> term_SecondArgument Term;
        Result \<leftarrow> cnf_RemoveTrivialAtoms F b;
        Some (if is Result (fol_True F) then constant_formula Term (fol_True F)
              else if is Result (fol_False F) then constant_formula Term (fol_False F)
              else term_RplacArgumentList Term (args[1 := Result])) }
      else if symbol_Equal Top (fol_Not F) then do {
        a \<leftarrow> term_FirstArgument Term;
        Result \<leftarrow> cnf_RemoveTrivialAtoms F a;
        Some (if is Result (fol_False F) then constant_formula Term (fol_True F)
              else if is Result (fol_True F) then constant_formula Term (fol_False F)
              else term_RplacArgumentList Term (args[0 := Result])) }
      else if symbol_Equal Top (fol_Implies F) then do {
        a \<leftarrow> term_FirstArgument Term;
        Result1 \<leftarrow> cnf_RemoveTrivialAtoms F a;
        if is Result1 (fol_False F) then Some (constant_formula Term (fol_True F))
        else do {
          b \<leftarrow> term_SecondArgument Term;
          if is Result1 (fol_True F) then cnf_RemoveTrivialAtoms F (overwrite Term b)
          else do {
            Result \<leftarrow> cnf_RemoveTrivialAtoms F b;
            let Term = term_RplacArgumentList Term (args[0 := Result1, 1 := Result]);
            Some (if is Result (fol_True F) then constant_formula Term (fol_True F)
                  else if is Result (fol_False F)
                  then term_RplacArgumentList (term_RplacTop Term (fol_Not F)) (fol_DeleteFalseTermFromList F (term_ArgumentList Term))
                  else Term) }}}
      else if symbol_Equal Top (fol_Equiv F) then do {
        a \<leftarrow> term_FirstArgument Term;
        Result1 \<leftarrow> cnf_RemoveTrivialAtoms F a;
        if is Result1 (fol_False F) then
          (let rest = fol_DeleteFalseTermFromList F (Result1 # tl args) in
           if rest = [] then Some (constant_formula Term (fol_True F))
           else cnf_RemoveTrivialAtoms F (term_RplacArgumentList (term_RplacTop Term (fol_Not F)) rest))
        else do {
          b \<leftarrow> term_SecondArgument Term;
          if is Result1 (fol_True F) then cnf_RemoveTrivialAtoms F (overwrite Term b)
          else do {
            Result \<leftarrow> cnf_RemoveTrivialAtoms F b;
            let Term = term_RplacArgumentList Term (args[0 := Result1, 1 := Result]);
            Some (if is Result (fol_False F)
                  then term_RplacArgumentList (term_RplacTop Term (fol_Not F)) (fol_DeleteFalseTermFromList F (term_ArgumentList Term))
                  else if is Result (fol_True F) then overwrite Term Result1
                  else Term) }}}
      else Some Term)"
  by auto

lemma nodes_argument: "t \<in> set (term_ArgumentList Term) \<Longrightarrow> nodes t < nodes Term"
  using member_le_sum_list [of "nodes t" "map nodes (term_ArgumentList Term)"] nodes_eq [of Term] by simp

lemma nodes_second: "term_SecondArgument Term = Some b \<Longrightarrow> nodes b < nodes Term"
  by (rule nodes_argument) (auto simp: term_SecondArgument_def split: list.splits)

lemma nodes_first: "term_FirstArgument Term = Some b \<Longrightarrow> nodes b < nodes Term"
  by (rule nodes_argument) (auto simp: term_FirstArgument_def split: list.splits)

lemma nodes_overwrite: "nodes (overwrite Term b) = nodes b"
  by (cases b) (simp add: overwrite_def term_RplacArgumentList_def)

lemma nodes_filter: "sum_list (map nodes (filter P ts)) \<le> sum_list (map nodes ts)"
  by (induction ts) auto

lemma nodes_not_false:
  assumes "symbol_Equal (term_TopSymbol R) (fol_False F)" "term_FirstArgument Term = Some a"
  shows "nodes (term_RplacArgumentList Term' (fol_DeleteFalseTermFromList F (R # tl (term_ArgumentList Term)))) < nodes Term"
proof -
  obtain ts where ts: "term_ArgumentList Term = a # ts" using assms(2) by (auto simp: term_FirstArgument_def split: list.splits)
  have "sum_list (map nodes (filter (\<lambda>t. \<not> fol_IsFalse F t) ts)) \<le> sum_list (map nodes ts)" by (rule nodes_filter)
  then show ?thesis using assms(1) ts nodes_eq [of Term] nodes_eq [of a]
    by (simp add: fol_DeleteFalseTermFromList_def fol_IsFalse_def symbol_Equal_def term_RplacArgumentList_def)
qed

termination cnf_RemoveTrivialAtoms
  by (relation "measure (\<lambda>(F, t). nodes t)")
    (auto simp: nodes_argument nodes_first nodes_second nodes_overwrite nodes_not_false)

declare cnf_RemoveTrivialAtoms.simps [simp del]

section \<open>Trivial operators\<close>

function cnf_RemoveTrivialOperators :: "fol_symbols \<Rightarrow> TERM_NODE \<Rightarrow> TERM_NODE option" where
  "cnf_RemoveTrivialOperators F Term =
     (let Top = term_TopSymbol Term; args = term_ArgumentList Term in
      if symbol_IsPredicate Top then Some Term
      else if symbol_Equal Top (fol_And F) \<or> symbol_Equal Top (fol_Or F) then
        (case args of
           [] \<Rightarrow> None
         | [Result] \<Rightarrow> cnf_RemoveTrivialOperators F Result
         | _ \<Rightarrow> map_option (term_RplacArgumentList Term) (map_loop (cnf_RemoveTrivialOperators F) args))
      else map_option (term_RplacArgumentList Term) (map_loop (cnf_RemoveTrivialOperators F) args))"
  by auto

lemma nodes_only: "[t] = term_ArgumentList Term \<Longrightarrow> nodes t < nodes Term"
  by (metis nodes_argument list.set_intros(1))

termination cnf_RemoveTrivialOperators
  by (relation "measure (\<lambda>(F, t). nodes t)") (auto intro: nodes_argument nodes_only)

declare cnf_RemoveTrivialOperators.simps [simp del]

section \<open>Free occurrences\<close>

text \<open>The argument list that a node pushes, if any.\<close>

definition occurs_push :: "fol_symbols \<Rightarrow> SYMBOL \<Rightarrow> TERM_NODE \<Rightarrow> TERM_NODE list list \<Rightarrow> TERM_NODE list list" where
  "occurs_push F Var Term Stack =
     (let args = term_ArgumentList Term in
      if term_IsComplex Term then
        if fol_IsQuantifier F (term_TopSymbol Term)
        then (if Var \<in> term_TopSymbol ` set (term_ArgumentList (hd args)) then Stack else tl args # Stack)
        else args # Stack
      else Stack)"

function occurs_loop :: "fol_symbols \<Rightarrow> SYMBOL \<Rightarrow> TERM_NODE \<Rightarrow> TERM_NODE list list \<Rightarrow> bool" where
  "occurs_loop F Var Term Stack =
     (let Top = term_TopSymbol Term in
      if \<not> term_IsComplex Term \<and> symbol_IsVariable Top \<and> symbol_Equal Top Var then True
      else
        (case dropWhile (\<lambda>l. l = []) (occurs_push F Var Term Stack) of
           [] \<Rightarrow> False
         | l # rest \<Rightarrow> occurs_loop F Var (hd l) (tl l # rest)))"
  by auto

lemma nodes_dropWhile: "sum_list (map nodes (concat (dropWhile (\<lambda>l. l = []) Stack))) = sum_list (map nodes (concat Stack))"
  by (induction Stack) auto

lemma nodes_next:
  assumes "dropWhile (\<lambda>l. l = []) Stack = l # rest"
  shows "nodes (hd l) + sum_list (map nodes (concat (tl l # rest))) = sum_list (map nodes (concat Stack))"
proof -
  have "l \<noteq> []" using conjunct2 [OF iffD1 [OF dropWhile_eq_Cons_conv assms]] .
  then show ?thesis using nodes_dropWhile [of Stack] assms by (cases l) auto
qed

lemma nodes_pushed:
  "term_IsComplex Term \<Longrightarrow> sum_list (map nodes (tl (term_ArgumentList Term))) < nodes Term"
  "sum_list (map nodes (term_ArgumentList Term)) < nodes Term"
  by (cases "term_ArgumentList Term"; simp add: nodes_eq [of Term])+

lemma nodes_occurs_push:
  "sum_list (map nodes (concat (occurs_push F Var Term Stack))) < nodes Term + sum_list (map nodes (concat Stack))"
  using nodes_pushed [of Term] nodes_eq [of Term] unfolding occurs_push_def Let_def by simp

termination occurs_loop
proof (relation "measure (\<lambda>(F, Var, Term, Stack). nodes Term + sum_list (map nodes (concat Stack)))", goal_cases)
  case (2 F Var Term Stack Top l rest)
  then show ?case using nodes_next [of "occurs_push F Var Term Stack" l rest] nodes_occurs_push [of F Var Term Stack] by simp
qed simp

declare occurs_loop.simps [simp del]

definition fol_VarOccursFreely :: "fol_symbols \<Rightarrow> TERM_NODE \<Rightarrow> TERM_NODE \<Rightarrow> bool" where
  "fol_VarOccursFreely F Var Term = occurs_loop F (term_TopSymbol Var) Term []"

section \<open>Quantifiers\<close>

fun merge_quantors :: "SYMBOL \<Rightarrow> TERM_NODE list \<Rightarrow> TERM_NODE \<Rightarrow> (TERM_NODE list \<times> TERM_NODE) option" where
  "merge_quantors Top Vars (term_Node s ts st sz) =
     (if symbol_Equal s Top then
        (case ts of
           vl # b # rest \<Rightarrow> merge_quantors Top (Vars @ term_ArgumentList vl) b
         | _ \<Rightarrow> None)
      else Some (Vars, term_Node s ts st sz))"

lemma merge_quantors_nodes:
  "merge_quantors Top vs b = Some (vs', b') \<Longrightarrow> sum_list (map nodes vs') + nodes b' \<le> sum_list (map nodes vs) + nodes b"
proof (induction Top vs b rule: merge_quantors.induct)
  case (1 Top Vars s ts st sz)
  show ?case
  proof (cases "symbol_Equal s Top")
    case True
    then obtain vl b rest where ts: "ts = vl # b # rest" using 1 by (auto split: list.splits)
    have "sum_list (map nodes vs') + nodes b' \<le> sum_list (map nodes (Vars @ term_ArgumentList vl)) + nodes b"
      using "1.IH" [OF True ts refl] "1.prems" True ts by simp
    also have "\<dots> \<le> sum_list (map nodes Vars) + nodes (term_Node s ts st sz)" using ts nodes_eq [of vl] by simp
    finally show ?thesis .
  qed (use 1 in simp)
qed

function cnf_SimplifyQuantors :: "fol_symbols \<Rightarrow> TERM_NODE \<Rightarrow> TERM_NODE option" where
  "cnf_SimplifyQuantors F Term =
     (let Top = term_TopSymbol Term; args = term_ArgumentList Term in
      if symbol_IsPredicate Top \<or> symbol_Equal Top (fol_Varlist F) then Some Term
      else if fol_IsQuantifier F Top then
        (case args of
           vl # b # rest \<Rightarrow> do {
             (vars, Subterm) \<leftarrow> merge_quantors Top (term_ArgumentList vl) b;
             let keep = filter (\<lambda>Var. fol_VarOccursFreely F Var Subterm) vars;
             if keep \<noteq> vars \<and> keep = [] then cnf_SimplifyQuantors F Subterm
             else map_option (term_RplacArgumentList Term)
                    (map_loop (cnf_SimplifyQuantors F) (term_RplacArgumentList vl keep # Subterm # rest)) }
         | _ \<Rightarrow> None)
      else map_option (term_RplacArgumentList Term) (map_loop (cnf_SimplifyQuantors F) args))"
  by auto

termination cnf_SimplifyQuantors
proof (relation "measure (\<lambda>(F, t). nodes t)", goal_cases)
  case (2 F Term Top args vl l b rest pair vars Subterm keep)
  then have "term_ArgumentList Term = vl # b # rest" by simp
  then show ?case using 2 merge_quantors_nodes [of Top "term_ArgumentList vl" b vars Subterm] nodes_eq [of Term] nodes_eq [of vl] by simp
next
  case (3 F Term Top args vl l b rest pair vars Subterm keep t)
  have args: "term_ArgumentList Term = vl # b # rest" using 3 by simp
  have "sum_list (map nodes keep) \<le> sum_list (map nodes vars)" using 3 by (simp add: nodes_filter)
  moreover have "nodes u \<le> sum_list (map nodes rest)" if "u \<in> set rest" for u
    using member_le_sum_list [of "nodes u" "map nodes rest"] that by simp
  ultimately show ?case
    using 3 args merge_quantors_nodes [of Top "term_ArgumentList vl" b vars Subterm] nodes_eq [of Term] nodes_eq [of vl]
    by (fastforce simp: term_RplacArgumentList_def)
next
  case (4 F Term Top args t)
  then show ?case by (simp add: nodes_argument)
qed simp

declare cnf_SimplifyQuantors.simps [simp del]

definition cnf_ObviousSimplifications :: "fol_symbols \<Rightarrow> TERM_NODE \<Rightarrow> TERM_NODE option" where
  "cnf_ObviousSimplifications F Term = do {
     Term \<leftarrow> cnf_RemoveTrivialAtoms F Term;
     Term \<leftarrow> cnf_RemoveTrivialOperators F Term;
     cnf_SimplifyQuantors F Term }"

end
