(* ===== verification/Spass_CNF_Simplify_Correct.thy ===== *)
theory Spass_CNF_Simplify_Correct
  imports Spass_CNF_Simplify Spass_CNF_Correct
begin

text \<open>
  Each simplification returns for every formula, keeps its truth in every interpretation, and removes
  what its comment says it removes.
\<close>

declare split_paired_All [simp del] split_paired_Ex [simp del]

section \<open>Trivial atoms\<close>

lemma trivial_loop_Some:
  assumes "\<And>t. t \<in> set ts \<Longrightarrow> f t = Some (g t)"
  shows "trivial_loop f stop ts = Some (if \<exists>t \<in> set ts. term_TopSymbol (g t) = stop then None else Some (map g ts))"
  using assms by (induction ts) (auto simp: symbol_Equal_def)

lemma without_plain_predicates: "plain_term t \<Longrightarrow> (\<And>x. x \<in> X \<Longrightarrow> symbol_IsPredicate x) \<Longrightarrow> without X t"
proof (induction t)
  case (term_Node s ts st sz)
  have "s \<notin> X" using term_Node.prems predicate_kind by (auto simp: plain_term_def term_IsVariable_def)
  then show ?case using term_Node plain_term_arg by auto
qed

definition constants :: "fol_symbols \<Rightarrow> SYMBOL set" where
  "constants F = {fol_True F, fol_False F}"

definition atoms_removed :: "fol_symbols \<Rightarrow> 'a interp \<Rightarrow> TERM_NODE \<Rightarrow> TERM_NODE \<Rightarrow> bool" where
  "atoms_removed F I T T' \<longleftrightarrow> fol_formula F T' \<and> (\<forall>v. holds F I v T' = holds F I v T)
     \<and> (without (other_junctors F) T \<longrightarrow> without (other_junctors F) T'
         \<and> (term_TopSymbol T' \<in> constants F \<or> without (constants F) T'))"

lemma without_vlist_constants: "fol_ok F \<Longrightarrow> vlist_ok F vl \<Longrightarrow> without (constants F) vl \<and> without (other_junctors F) vl"
proof -
  assume a: "fol_ok F" "vlist_ok F vl"
  have "without (constants F) x" if "x \<in> set (term_ArgumentList vl)" for x
    by (rule without_plain_predicates [OF vlist_arg_plain [OF a(2) that]]) (auto simp: constants_def fol_symbol_kinds [OF a(1)])
  then have "without (constants F) vl" using a(2) fol_neq [OF a(1)] by (cases vl) (auto simp: vlist_ok_def constants_def)
  moreover have "without (other_junctors F) vl"
    by (rule without_vlist [OF a(2,1)]) (auto simp: other_junctors_def fol_junctors_def fol_neq [OF a(1)])
  ultimately show ?thesis by simp
qed

lemmas atoms_simps = atoms_removed_def constants_def other_junctors_def constant_formula_def overwrite_def symbol_Equal_def
  fol_IsQuantifier_def term_RplacArgumentList_def term_RplacTop_def term_FirstArgument_def term_SecondArgument_def leaf_def
  fol_DeleteTrueTermFromList_def fol_DeleteFalseTermFromList_def fol_IsTrue_def fol_IsFalse_def

lemma holds_constants:
  assumes "fol_ok F" "fol_formula F T"
  shows "term_TopSymbol T = fol_True F \<Longrightarrow> holds F I v T" "term_TopSymbol T = fol_False F \<Longrightarrow> \<not> holds F I v T"
  by (cases T; simp add: holds_simps [OF assms(1)])+

lemma atoms_removed_many:
  assumes F: "fol_ok F" and s: "s = fol_And F \<or> s = fol_Or F" and ts: "ts \<noteq> []" "\<And>t. t \<in> set ts \<Longrightarrow> fol_formula F t"
    and IH: "\<And>t. t \<in> set ts \<Longrightarrow> \<exists>t'. cnf_RemoveTrivialAtoms F t = Some t' \<and> atoms_removed F I t t'"
  shows "\<exists>T'. cnf_RemoveTrivialAtoms F (term_Node s ts st sz) = Some T' \<and> atoms_removed F I (term_Node s ts st sz) T'"
proof -
  obtain g where g: "\<And>t. t \<in> set ts \<Longrightarrow> cnf_RemoveTrivialAtoms F t = Some (g t)" "\<And>t. t \<in> set ts \<Longrightarrow> atoms_removed F I t (g t)"
    using IH by metis
  have form: "fol_formula F (g t)" and hold: "holds F I v (g t) = holds F I v t" if "t \<in> set ts" for t v
    using g(2) [OF that] by (simp_all add: atoms_removed_def)
  have const: "term_TopSymbol (g t) = fol_True F \<Longrightarrow> holds F I v t" "term_TopSymbol (g t) = fol_False F \<Longrightarrow> \<not> holds F I v t"
    if "t \<in> set ts" for t v
    using holds_constants [OF F form [OF that]] hold [OF that] by blast+
  note loop = trivial_loop_Some [of ts "cnf_RemoveTrivialAtoms F" g, OF g(1)]
  have wo: "without (other_junctors F) (g t)" "term_TopSymbol (g t) \<in> constants F \<or> without (constants F) (g t)"
    if "without (other_junctors F) (term_Node s ts st sz)" "t \<in> set ts" for t
    using g(2) [OF that(2)] that by (simp_all add: atoms_removed_def)
  note simps = atoms_simps fol_neq [OF F] formula_simps [OF F] holds_simps [OF F]
  from s show ?thesis
  proof
    assume s: "s = fol_And F"
    show ?thesis
    proof (cases "\<exists>t \<in> set ts. term_TopSymbol (g t) = fol_False F")
      case True
      then have "cnf_RemoveTrivialAtoms F (term_Node s ts st sz) = Some (term_Node (fol_False F) [] st sz)"
        using ts(1) by (subst cnf_RemoveTrivialAtoms.simps) (simp add: loop s atoms_simps)
      moreover have "\<not> holds F I v (term_Node s ts st sz)" for v using True const(2) by (auto simp: s holds_simps [OF F])
      ultimately show ?thesis by (simp add: simps)
    next
      case False
      define rs where "rs = filter (\<lambda>t. \<not> fol_IsTrue F t) (map g ts)"
      have "cnf_RemoveTrivialAtoms F (term_Node s ts st sz)
          = Some (if rs = [] then term_Node (fol_True F) [] st sz else term_Node (fol_And F) rs st sz)"
        using ts(1) False by (subst cnf_RemoveTrivialAtoms.simps) (auto simp: rs_def loop s atoms_simps filter_empty_conv filter_id_conv intro!: filter_True [symmetric])
      moreover have "holds F I v (term_Node s ts st sz) \<longleftrightarrow> (\<forall>t \<in> set rs. holds F I v t)" for v
        using const(1) hold by (auto simp: rs_def s holds_simps [OF F] fol_IsTrue_def symbol_Equal_def)
      moreover have "\<forall>t \<in> set rs. fol_formula F t" using form by (auto simp: rs_def)
      moreover have "\<forall>t \<in> set rs. without (other_junctors F) t \<and> without (constants F) t" if "without (other_junctors F) (term_Node s ts st sz)"
        using wo [OF that] False by (fastforce simp: rs_def fol_IsTrue_def symbol_Equal_def constants_def)
      ultimately show ?thesis by (cases "rs = []") (auto simp: atoms_removed_def fol_neq [OF F] formula_simps [OF F] holds_simps [OF F] constants_def other_junctors_def)
    qed
  next
    assume s: "s = fol_Or F"
    show ?thesis
    proof (cases "\<exists>t \<in> set ts. term_TopSymbol (g t) = fol_True F")
      case True
      then have "cnf_RemoveTrivialAtoms F (term_Node s ts st sz) = Some (term_Node (fol_True F) [] st sz)"
        using ts(1) by (subst cnf_RemoveTrivialAtoms.simps) (simp add: loop s atoms_simps fol_neq [OF F])
      moreover have "holds F I v (term_Node s ts st sz)" for v using True const(1) by (auto simp: s holds_simps [OF F])
      ultimately show ?thesis by (simp add: simps)
    next
      case False
      define rs where "rs = filter (\<lambda>t. \<not> fol_IsFalse F t) (map g ts)"
      have "cnf_RemoveTrivialAtoms F (term_Node s ts st sz)
          = Some (if rs = [] then term_Node (fol_False F) [] st sz else term_Node (fol_Or F) rs st sz)"
        using ts(1) False
        by (subst cnf_RemoveTrivialAtoms.simps) (auto simp: rs_def loop s atoms_simps fol_neq [OF F] filter_empty_conv filter_id_conv
              intro!: filter_True [symmetric])
      moreover have "(\<exists>t \<in> set rs. holds F I v t) \<longleftrightarrow> (\<exists>t \<in> set ts. fol_False F \<noteq> term_TopSymbol (g t) \<and> holds F I v (g t))" for v
        by (auto simp: rs_def fol_IsFalse_def symbol_Equal_def)
      then have "holds F I v (term_Node s ts st sz) \<longleftrightarrow> (\<exists>t \<in> set rs. holds F I v t)" for v
        unfolding s holds_simps(4) [OF F] using const(2) hold by metis
      moreover have "\<forall>t \<in> set rs. fol_formula F t" using form by (auto simp: rs_def)
      moreover have "\<forall>t \<in> set rs. without (other_junctors F) t \<and> without (constants F) t" if "without (other_junctors F) (term_Node s ts st sz)"
        using wo [OF that] False by (fastforce simp: rs_def fol_IsFalse_def symbol_Equal_def constants_def)
      ultimately show ?thesis by (cases "rs = []") (auto simp: atoms_removed_def fol_neq [OF F] formula_simps [OF F] holds_simps [OF F] constants_def other_junctors_def)
    qed
  qed
qed

lemma atoms_removed_refl:
  assumes F: "fol_ok F" and T: "fol_formula F T"
    and top: "without (other_junctors F) T \<Longrightarrow> term_TopSymbol T \<in> constants F \<or> without (constants F) T"
  shows "atoms_removed F I T T"
  using T top by (simp add: atoms_removed_def)

lemma atoms_removed_trans:
  assumes F: "fol_ok F" and T: "\<And>v. holds F I v T1 = holds F I v T0" "without (other_junctors F) T0 \<Longrightarrow> without (other_junctors F) T1"
    and r: "atoms_removed F I T1 T2"
  shows "atoms_removed F I T0 T2"
  using T r by (simp add: atoms_removed_def)

lemma cnf_RemoveTrivialAtoms_ok:
  assumes F: "fol_ok F" and T: "fol_formula F T"
  shows "\<exists>T'. cnf_RemoveTrivialAtoms F T = Some T' \<and> atoms_removed F I T T'"
  using T
proof (induction "nodes T" arbitrary: T rule: less_induct)
  case less
  note simps = atoms_simps fol_neq [OF F] formula_simps [OF F] holds_simps [OF F]
  have IH: "\<exists>t'. cnf_RemoveTrivialAtoms F t = Some t' \<and> atoms_removed F I t t'" if "t \<in> set (term_ArgumentList T)" "fol_formula F t" for t
    using less.hyps [OF nodes_argument [OF that(1)] that(2)] .
  show ?case
    using less.prems
  proof (cases rule: fol_formula_cases)
    case (quantifier s vl b st sz)
    obtain r where r: "cnf_RemoveTrivialAtoms F b = Some r" "atoms_removed F I b r" using IH [of b] quantifier by auto
    have c: "term_TopSymbol r = fol_True F \<Longrightarrow> holds F I v b" "term_TopSymbol r = fol_False F \<Longrightarrow> \<not> holds F I v b" for v
      using holds_constants [OF F, of r I] r(2) by (auto simp: atoms_removed_def)
    have "agree_off X v v" for X and v :: "SYMBOL \<Rightarrow> 'a" by (simp add: agree_off_def)
    then have agree: "Ex (agree_off X v)" "(\<forall>w. \<not> agree_off X v w) = False" for X and v :: "SYMBOL \<Rightarrow> 'a" by blast+
    have run: "cnf_RemoveTrivialAtoms F T = Some (if term_TopSymbol r = fol_True F then term_Node (fol_True F) [] st sz
        else if term_TopSymbol r = fol_False F then term_Node (fol_False F) [] st sz else term_Node s [vl, r] st sz)"
      using quantifier(1,2) r(1) by (subst cnf_RemoveTrivialAtoms.simps) (auto simp: simps)
    have "without (constants F) vl" using without_vlist_constants [OF F quantifier(3)] by simp
    then show ?thesis unfolding run using quantifier r(2) c
      by (auto simp: agree atoms_removed_def constants_def other_junctors_def fol_neq [OF F] formula_simps [OF F] holds_simps [OF F])
  next
    case (many s ts st sz)
    show ?thesis
    proof (cases "s = fol_And F \<or> s = fol_Or F")
      case True
      show ?thesis unfolding many(1) by (rule atoms_removed_many [OF F True many(3,4)]) (use IH many in auto)
    next
      case False
      then have "s = fol_Nor F \<or> s = fol_Nand F" using many(2) by blast
      then have "cnf_RemoveTrivialAtoms F T = Some T" using many(1,3) by (subst cnf_RemoveTrivialAtoms.simps) (auto simp: simps)
      moreover have "atoms_removed F I T T"
        by (rule atoms_removed_refl [OF F less.prems]) (use many(1) \<open>s = fol_Nor F \<or> s = fol_Nand F\<close> in \<open>auto simp: other_junctors_def\<close>)
      ultimately show ?thesis by blast
    qed
  next
    case (one u st sz)
    obtain r where r: "cnf_RemoveTrivialAtoms F u = Some r" "atoms_removed F I u r" using IH [of u] one by auto
    have c: "term_TopSymbol r = fol_True F \<Longrightarrow> holds F I v u" "term_TopSymbol r = fol_False F \<Longrightarrow> \<not> holds F I v u" for v
      using holds_constants [OF F, of r I] r(2) by (auto simp: atoms_removed_def)
    have run: "cnf_RemoveTrivialAtoms F T = Some (if term_TopSymbol r = fol_False F then term_Node (fol_True F) [] st sz
        else if term_TopSymbol r = fol_True F then term_Node (fol_False F) [] st sz else term_Node (fol_Not F) [r] st sz)"
      using one(1) r(1) by (subst cnf_RemoveTrivialAtoms.simps) (auto simp: simps)
    then show ?thesis using one r(2) c by (auto simp: atoms_removed_def constants_def other_junctors_def fol_neq [OF F] formula_simps [OF F] holds_simps [OF F])
  next
    case (two s a b st sz)
    obtain ra where ra: "cnf_RemoveTrivialAtoms F a = Some ra" "atoms_removed F I a ra" using IH [of a] two by auto
    obtain rb where rb: "cnf_RemoveTrivialAtoms F b = Some rb" "atoms_removed F I b rb" using IH [of b] two by auto
    have ca: "term_TopSymbol ra = fol_True F \<Longrightarrow> holds F I v a" "term_TopSymbol ra = fol_False F \<Longrightarrow> \<not> holds F I v a" for v
      using holds_constants [OF F, of ra I] ra(2) by (auto simp: atoms_removed_def)
    have cb: "term_TopSymbol rb = fol_True F \<Longrightarrow> holds F I v b" "term_TopSymbol rb = fol_False F \<Longrightarrow> \<not> holds F I v b" for v
      using holds_constants [OF F, of rb I] rb(2) by (auto simp: atoms_removed_def)
    have over: "fol_formula F (overwrite T b)" "\<And>v. holds F I v (overwrite T b) = holds F I v b" "nodes (overwrite T b) < nodes T"
      "without X (overwrite T b) = without X b" for X
      using two nodes_overwrite [of T b] nodes_argument [of b T]
      by (cases b; simp add: overwrite_def term_RplacTop_def term_RplacArgumentList_def fol_formula.simps holds.simps)+
    obtain rt where rt: "cnf_RemoveTrivialAtoms F (overwrite T b) = Some rt" "atoms_removed F I (overwrite T b) rt"
      using less.hyps [OF over(3,1)] by blast
    have res: "fol_formula F ra" "\<And>v. holds F I v ra = holds F I v a" "fol_formula F rb" "\<And>v. holds F I v rb = holds F I v b"
      using ra(2) rb(2) by (simp_all add: atoms_removed_def)
    have wo: "without (other_junctors F) ra" "without (other_junctors F) rb"
        "term_TopSymbol ra \<in> constants F \<or> without (constants F) ra" "term_TopSymbol rb \<in> constants F \<or> without (constants F) rb"
      if "without (other_junctors F) T"
      using ra(2) rb(2) that two(1) by (simp_all add: atoms_removed_def)
    consider "s = fol_Implies F" | "s = fol_Equiv F" | "s = fol_Implied F \<or> s = fol_Xor F" using two(2) by blast
    then show ?thesis
    proof cases
      case 1
      have run: "cnf_RemoveTrivialAtoms F T =
          (if term_TopSymbol ra = fol_False F then Some (term_Node (fol_True F) [] st sz)
           else if term_TopSymbol ra = fol_True F then cnf_RemoveTrivialAtoms F (overwrite T b)
           else Some (if term_TopSymbol rb = fol_True F then term_Node (fol_True F) [] st sz
             else if term_TopSymbol rb = fol_False F then term_Node (fol_Not F) [ra] st sz else term_Node s [ra, rb] st sz))"
        using two(1) 1 ra(1) rb(1) by (subst cnf_RemoveTrivialAtoms.simps) (auto simp: simps)
      consider "term_TopSymbol ra = fol_False F" | "term_TopSymbol ra = fol_True F" | "term_TopSymbol ra \<notin> constants F" by (auto simp: constants_def)
      then show ?thesis
      proof cases
        case 2
        have "atoms_removed F I T rt"
          by (rule atoms_removed_trans [OF F _ _ rt(2)]) (use two(1) 1 2 ca(1) over(2,4) in \<open>auto simp: holds_simps [OF F]\<close>)
        then show ?thesis using run 2 rt(1) by (simp add: fol_neq [OF F])
      qed (use run two(1) 1 ca cb res wo in \<open>auto simp: atoms_removed_def constants_def other_junctors_def fol_neq [OF F] formula_simps [OF F] holds_simps [OF F]\<close>)
    next
      case 2
      let ?neg = "term_Node (fol_Not F) [b] st sz"
      have neg: "fol_formula F ?neg" "nodes ?neg < nodes T" using two nodes_eq [of a] by (simp_all add: formula_simps [OF F])
      obtain rn where rn: "cnf_RemoveTrivialAtoms F ?neg = Some rn" "atoms_removed F I ?neg rn"
        using less.hyps [OF neg(2,1)] by blast
      have cb': "fol_False F = term_TopSymbol b \<Longrightarrow> \<not> holds F I v b" for v using holds_constants(2) [OF F two(4)] by simp
      have run: "cnf_RemoveTrivialAtoms F T =
          (if term_TopSymbol ra = fol_False F then
             (if fol_False F = term_TopSymbol b then Some (term_Node (fol_True F) [] st sz) else cnf_RemoveTrivialAtoms F ?neg)
           else if term_TopSymbol ra = fol_True F then cnf_RemoveTrivialAtoms F (overwrite T b)
           else Some (if term_TopSymbol rb = fol_False F then term_Node (fol_Not F) [ra] st sz
             else if term_TopSymbol rb = fol_True F then overwrite T ra else term_Node s [ra, rb] st sz))"
        using two(1) 2 ra(1) rb(1) by (subst cnf_RemoveTrivialAtoms.simps) (auto simp: simps)
      consider "term_TopSymbol ra = fol_False F" "fol_False F = term_TopSymbol b" | "term_TopSymbol ra = fol_False F" "fol_False F \<noteq> term_TopSymbol b"
        | "term_TopSymbol ra = fol_True F" | "term_TopSymbol ra \<notin> constants F" unfolding constants_def by blast
      then show ?thesis
      proof cases
        case 1
        show ?thesis unfolding run using two(1) 2 1 ca(2) cb'
          by (simp add: atoms_removed_def constants_def other_junctors_def fol_neq [OF F] formula_simps [OF F] holds_simps [OF F])
      next
        case c2: 2
        have "atoms_removed F I T rn"
          by (rule atoms_removed_trans [OF F _ _ rn(2)])
            (use two(1) 2 c2 ca(2) in \<open>auto simp: holds_simps [OF F] other_junctors_def fol_neq [OF F]\<close>)
        then show ?thesis using run c2 rn(1) by simp
      next
        case 3
        have "atoms_removed F I T rt"
          by (rule atoms_removed_trans [OF F _ _ rt(2)]) (use two(1) 2 3 ca(1) over(2,4) in \<open>auto simp: holds_simps [OF F]\<close>)
        then show ?thesis using run 3 rt(1) by (simp add: fol_neq [OF F])
      next
        case 4
        have o: "fol_formula F (overwrite T ra)" "\<And>v. holds F I v (overwrite T ra) = holds F I v ra"
          "without X (overwrite T ra) = without X ra" "term_TopSymbol (overwrite T ra) = term_TopSymbol ra" for X
          using res(1) by (cases ra; simp add: overwrite_def term_RplacTop_def term_RplacArgumentList_def fol_formula.simps holds.simps)+
        have run4: "cnf_RemoveTrivialAtoms F T = Some (if term_TopSymbol rb = fol_False F then term_Node (fol_Not F) [ra] st sz
             else if term_TopSymbol rb = fol_True F then overwrite T ra else term_Node s [ra, rb] st sz)"
          using run 4 by (simp add: constants_def)
        consider "term_TopSymbol rb = fol_False F" | "term_TopSymbol rb = fol_True F" | "term_TopSymbol rb \<notin> constants F" by (auto simp: constants_def)
        then show ?thesis
        proof cases
          case 1
          show ?thesis unfolding run4 using two(1) 2 4 1 cb(2) res wo
            by (auto simp: atoms_removed_def constants_def other_junctors_def fol_neq [OF F] formula_simps [OF F] holds_simps [OF F])
        next
          case b: 2
          show ?thesis unfolding run4 using two(1) 2 4 b cb(1) res wo o
            by (auto simp: atoms_removed_def holds_simps [OF F] fol_neq [OF F])
        next
          case 3
          show ?thesis unfolding run4 using two(1) 2 4 3 res wo
            by (auto simp: atoms_removed_def constants_def other_junctors_def fol_neq [OF F] formula_simps [OF F] holds_simps [OF F])
        qed
      qed
    next
      case 3
      then have "cnf_RemoveTrivialAtoms F T = Some T" using two(1) by (subst cnf_RemoveTrivialAtoms.simps) (auto simp: simps)
      moreover have "atoms_removed F I T T"
        by (rule atoms_removed_refl [OF F less.prems]) (use two(1) 3 in \<open>auto simp: other_junctors_def\<close>)
      ultimately show ?thesis by blast
    qed
  next
    case (atom s ts st sz)
    have "s \<notin> set (fol_junctors F)" using not_junctor [OF F atom(2)] .
    then have "cnf_RemoveTrivialAtoms F T = Some T"
      using atom(1) by (subst cnf_RemoveTrivialAtoms.simps) (auto simp: simps fol_junctors_def)
    moreover have "without (constants F) t" if "t \<in> set ts" for t
      by (rule without_plain_predicates [OF atom(3) [OF that]]) (auto simp: constants_def fol_symbol_kinds [OF F])
    then have "atoms_removed F I T T" by (intro atoms_removed_refl [OF F less.prems]) (simp add: atom(1))
    ultimately show ?thesis by blast
  qed
qed

end
