(* ===== verification/Spass_CNF_Quantors.thy ===== *)
theory Spass_CNF_Quantors
  imports Spass_CNF_Simplify_Correct
begin

text \<open>
  Proofs on the removal of trivial operators and on the simplification of quantifiers, with the test for
  free occurrences that it uses.
\<close>

declare split_paired_All [simp del] split_paired_Ex [simp del]

lemma not_predicate:
  assumes "fol_ok F"
  shows "\<not> symbol_IsPredicate (fol_All F)" "\<not> symbol_IsPredicate (fol_Exist F)" "\<not> symbol_IsPredicate (fol_And F)"
    "\<not> symbol_IsPredicate (fol_Or F)" "\<not> symbol_IsPredicate (fol_Not F)" "\<not> symbol_IsPredicate (fol_Implies F)"
    "\<not> symbol_IsPredicate (fol_Implied F)" "\<not> symbol_IsPredicate (fol_Equiv F)" "\<not> symbol_IsPredicate (fol_Xor F)"
    "\<not> symbol_IsPredicate (fol_Nor F)" "\<not> symbol_IsPredicate (fol_Nand F)" "\<not> symbol_IsPredicate (fol_Varlist F)"
  by (rule fol_symbol_kinds(5) [OF assms], simp add: fol_junctors_def)+

section \<open>Trivial operators\<close>

fun no_single :: "fol_symbols \<Rightarrow> TERM_NODE \<Rightarrow> bool" where
  "no_single F (term_Node s ts st sz) = ((s = fol_And F \<or> s = fol_Or F \<longrightarrow> 2 \<le> length ts) \<and> (\<forall>t \<in> set ts. no_single F t))"

lemma no_single_inert: "fol_ok F \<Longrightarrow> inert F t \<Longrightarrow> no_single F t"
proof (induction t)
  case (term_Node s ts st sz)
  have "s \<noteq> fol_And F \<and> s \<noteq> fol_Or F" using inert_top(1) [OF term_Node.prems] by (auto simp: fol_junctors_def fol_neq [OF term_Node.prems(1)])
  then show ?case using term_Node inert_arg [OF term_Node.prems(2)] by simp
qed

lemma RplacArgumentList_same [simp]: "term_RplacArgumentList T (term_ArgumentList T) = T"
  by (cases T) (simp add: term_RplacArgumentList_def)

lemma RemoveTrivialOperators_inert: "fol_ok F \<Longrightarrow> inert F t \<Longrightarrow> cnf_RemoveTrivialOperators F t = Some t"
proof (induction t)
  case (term_Node s ts st sz)
  have s: "s \<noteq> fol_And F \<and> s \<noteq> fol_Or F" "\<not> symbol_IsPredicate s"
    using inert_top [OF term_Node.prems] by (auto simp: fol_junctors_def fol_neq [OF term_Node.prems(1)])
  have "map_loop (cnf_RemoveTrivialOperators F) ts = Some (map (\<lambda>t. t) ts)"
    by (rule map_loop_Some) (use term_Node inert_arg [OF term_Node.prems(2)] in auto)
  then show ?case using s by (subst cnf_RemoveTrivialOperators.simps) (simp add: symbol_Equal_def term_RplacArgumentList_def)
qed

definition operators_removed :: "fol_symbols \<Rightarrow> 'a interp \<Rightarrow> TERM_NODE \<Rightarrow> TERM_NODE \<Rightarrow> bool" where
  "operators_removed F I T T' \<longleftrightarrow> fol_formula F T' \<and> (\<forall>v. holds F I v T' = holds F I v T) \<and> (\<forall>X. without X T \<longrightarrow> without X T')
     \<and> no_single F T' \<and> free_vars F T' = free_vars F T"

lemma operators_removed_many:
  assumes F: "fol_ok F" and s: "s = fol_And F \<or> s = fol_Or F \<or> s = fol_Nor F \<or> s = fol_Nand F" and ts: "ts \<noteq> []"
    and rs: "list_all2 (operators_removed F I) ts rs" and len: "s = fol_And F \<or> s = fol_Or F \<Longrightarrow> 2 \<le> length ts"
  shows "operators_removed F I (term_Node s ts st sz) (term_Node s rs st sz)"
proof -
  have "(\<forall>t \<in> set rs. fol_formula F t) \<and> (\<forall>t \<in> set rs. no_single F t) \<and> (\<Union>t \<in> set rs. free_vars F t) = (\<Union>t \<in> set ts. free_vars F t)
    \<and> (\<forall>X. (\<forall>t \<in> set ts. without X t) \<longrightarrow> (\<forall>t \<in> set rs. without X t))
    \<and> (\<forall>v. (\<forall>t \<in> set rs. holds F I v t) = (\<forall>t \<in> set ts. holds F I v t) \<and> (\<exists>t \<in> set rs. holds F I v t) = (\<exists>t \<in> set ts. holds F I v t)
         \<and> (\<forall>t \<in> set rs. \<not> holds F I v t) = (\<forall>t \<in> set ts. \<not> holds F I v t) \<and> (\<exists>t \<in> set rs. \<not> holds F I v t) = (\<exists>t \<in> set ts. \<not> holds F I v t))"
    using rs by (induction rule: list_all2_induct) (simp_all add: operators_removed_def)
  moreover have "rs \<noteq> []" "length rs = length ts" using ts list_all2_lengthD [OF rs] by auto
  ultimately show ?thesis using s len
    by (auto simp: operators_removed_def formula_simps [OF F] holds_simps [OF F] free_vars_many [OF F])
qed

lemma cnf_RemoveTrivialOperators_ok:
  assumes F: "fol_ok F" and T: "fol_formula F T"
  shows "\<exists>T'. cnf_RemoveTrivialOperators F T = Some T' \<and> operators_removed F I T T'"
  using T
proof (induction T rule: fol_formula_induct)
  case (quantifier s vl b st sz)
  obtain r where r: "cnf_RemoveTrivialOperators F b = Some r" "operators_removed F I b r" using quantifier.IH by blast
  note r' = r(2) [unfolded operators_removed_def, THEN conjunct1] r(2) [unfolded operators_removed_def, THEN conjunct2]
  have vl: "inert F vl" using quantifier.hyps(2) by (simp add: inert_def)
  have s: "\<not> symbol_IsPredicate s \<and> s \<noteq> fol_And F \<and> s \<noteq> fol_Or F" using quantifier.hyps(1)
    by (elim disjE) (simp_all add: fol_neq [OF F] not_predicate [OF F])
  have "cnf_RemoveTrivialOperators F (term_Node s [vl, b] st sz) = Some (term_Node s [vl, r] st sz)"
    using s r(1) RemoveTrivialOperators_inert [OF F vl]
    by (subst cnf_RemoveTrivialOperators.simps) (simp add: symbol_Equal_def term_RplacArgumentList_def)
  moreover have "operators_removed F I (term_Node s [vl, b] st sz) (term_Node s [vl, r] st sz)"
    using quantifier.hyps(1)
    by (elim disjE) (simp_all add: r' quantifier.hyps(2) no_single_inert [OF F vl] operators_removed_def
        formula_simps [OF F] holds_simps [OF F] free_vars_simps [OF F] fol_neq [OF F])
  ultimately show ?case by blast
next
  case (many s ts st sz)
  obtain g where g: "\<And>t. t \<in> set ts \<Longrightarrow> cnf_RemoveTrivialOperators F t = Some (g t)" "\<And>t. t \<in> set ts \<Longrightarrow> operators_removed F I t (g t)"
    using many.IH by metis
  have loop: "map_loop (cnf_RemoveTrivialOperators F) ts = Some (map g ts)" by (rule map_loop_Some) (rule g(1))
  have rel: "list_all2 (operators_removed F I) ts (map g ts)" using g(2) by (simp add: list_all2_conv_all_nth)
  have s: "\<not> symbol_IsPredicate s" using many.hyps(1) not_predicate [OF F] by blast
  show ?case
  proof (cases "(s = fol_And F \<or> s = fol_Or F) \<and> length ts = 1")
    case True
    then obtain t where t: "ts = [t]" by (cases ts) auto
    have "cnf_RemoveTrivialOperators F (term_Node s ts st sz) = Some (g t)"
      using True s t g(1) by (subst cnf_RemoveTrivialOperators.simps) (auto simp: symbol_Equal_def)
    moreover have "operators_removed F I (term_Node s ts st sz) (g t)"
      using g(2) [of t] t True by (auto simp: operators_removed_def holds_simps [OF F] free_vars_many [OF F])
    ultimately show ?thesis by blast
  next
    case False
    have len: "2 \<le> length ts" if "s = fol_And F \<or> s = fol_Or F" proof -
      have "length ts \<noteq> 0" "length ts \<noteq> 1" using that False many.hyps(2) by auto
      then show ?thesis by linarith
    qed
    have "cnf_RemoveTrivialOperators F (term_Node s ts st sz) = Some (term_Node s (map g ts) st sz)"
    proof (cases "s = fol_And F \<or> s = fol_Or F")
      case True
      then obtain a b rest where ts: "ts = a # b # rest" using len by (cases ts; cases "tl ts"; simp)
      show ?thesis using s loop True unfolding ts by (subst cnf_RemoveTrivialOperators.simps) (auto simp: symbol_Equal_def term_RplacArgumentList_def)
    qed (use s loop in \<open>subst cnf_RemoveTrivialOperators.simps, simp add: symbol_Equal_def term_RplacArgumentList_def\<close>)
    then show ?thesis using operators_removed_many [OF F many.hyps(1,2) rel len] by blast
  qed
next
  case (one t st sz)
  then obtain r where r: "cnf_RemoveTrivialOperators F t = Some r" "operators_removed F I t r" by blast
  have "\<not> symbol_IsPredicate (fol_Not F)" by (rule not_predicate [OF F])
  then have "cnf_RemoveTrivialOperators F (term_Node (fol_Not F) [t] st sz) = Some (term_Node (fol_Not F) [r] st sz)"
    using r(1) by (subst cnf_RemoveTrivialOperators.simps) (simp add: symbol_Equal_def term_RplacArgumentList_def fol_neq [OF F])
  moreover have "operators_removed F I (term_Node (fol_Not F) [t] st sz) (term_Node (fol_Not F) [r] st sz)"
    using r(2) by (auto simp: operators_removed_def formula_simps [OF F] holds_simps [OF F] free_vars_many [OF F] fol_neq [OF F])
  ultimately show ?case by blast
next
  case (two s a b st sz)
  obtain ra rb where r: "cnf_RemoveTrivialOperators F a = Some ra" "operators_removed F I a ra"
      "cnf_RemoveTrivialOperators F b = Some rb" "operators_removed F I b rb" using two.IH by blast
  note r' = r(2,4) [unfolded operators_removed_def]
  have s: "\<not> symbol_IsPredicate s \<and> s \<noteq> fol_And F \<and> s \<noteq> fol_Or F" using two.hyps(1)
    by (elim disjE) (simp_all add: fol_neq [OF F] not_predicate [OF F])
  have "cnf_RemoveTrivialOperators F (term_Node s [a, b] st sz) = Some (term_Node s [ra, rb] st sz)"
    using s r(1,3) by (subst cnf_RemoveTrivialOperators.simps) (simp add: symbol_Equal_def term_RplacArgumentList_def)
  moreover have "operators_removed F I (term_Node s [a, b] st sz) (term_Node s [ra, rb] st sz)"
    using two.hyps(1)
    by (elim disjE) (simp_all add: r' operators_removed_def formula_simps [OF F] holds_simps [OF F] free_vars_many [OF F] fol_neq [OF F])
  ultimately show ?case by blast
next
  case (atom s ts st sz)
  have "inert F t" if "t \<in> set ts" for t using atom.hyps(2) that by (simp add: inert_def)
  then have "no_single F (term_Node s ts st sz)" using not_junctor [OF F atom.hyps(1)] no_single_inert [OF F] by (auto simp: fol_junctors_def)
  moreover have "fol_formula F (term_Node s ts st sz)" using atom.hyps not_junctor [OF F atom.hyps(1)] by (simp add: fol_formula.simps fol_junctors_def)
  ultimately show ?case using atom.hyps(1)
    by (intro exI [of _ "term_Node s ts st sz"], subst cnf_RemoveTrivialOperators.simps) (simp add: operators_removed_def)
qed

section \<open>Free occurrences\<close>

lemma free_vars_args:
  assumes "fol_ok F" "fol_formula F t \<or> plain_term t" "\<not> fol_IsQuantifier F (term_TopSymbol t)" "\<not> leaf t"
  shows "free_vars F t = (\<Union>a \<in> set (term_ArgumentList t). free_vars F a)
    \<and> (\<forall>a \<in> set (term_ArgumentList t). fol_formula F a \<or> plain_term a)"
proof (cases "plain_term t")
  case True
  then show ?thesis using assms(3,4) plain_term_arg function_kind
    by (cases t) (auto simp: free_vars.simps plain_term_def term_IsVariable_def quantifier_iff leaf_def)
next
  case False
  then have "fol_formula F t" using assms(2) by blast
  then show ?thesis using assms(3)
    by (cases rule: fol_formula_cases) (auto simp: quantifier_iff free_vars_many [OF assms(1)] free_vars_predicate [OF assms(1)])
qed

lemma formula_leaf: "fol_ok F \<Longrightarrow> fol_formula F t \<or> plain_term t \<Longrightarrow> leaf t \<Longrightarrow> \<not> fol_IsQuantifier F (term_TopSymbol t)"
proof (cases "plain_term t")
  case True
  assume "fol_ok F"
  then show ?thesis using True plain_term_not_quantifier by (cases t) (auto simp: quantifier_iff)
next
  case False
  assume F: "fol_ok F" and t: "fol_formula F t \<or> plain_term t" "leaf t"
  have "fol_formula F t" using t False by blast
  then show ?thesis using t(2) not_junctor [OF F]
    by (cases rule: fol_formula_cases) (auto simp: leaf_def quantifier_iff fol_junctors_def)
qed

lemma occurs_push_ok:
  assumes F: "fol_ok F" and t: "fol_formula F t \<or> plain_term t"
    and none: "\<not> (\<not> term_IsComplex t \<and> symbol_IsVariable (term_TopSymbol t) \<and> symbol_Equal (term_TopSymbol t) x)"
  shows "\<exists>us. occurs_push F x t Stack = us @ Stack \<and> (\<forall>l \<in> set us. \<forall>u \<in> set l. fol_formula F u \<or> plain_term u)
    \<and> (x \<in> free_vars F t \<longleftrightarrow> (\<exists>l \<in> set us. \<exists>u \<in> set l. x \<in> free_vars F u))"
proof (cases "leaf t")
  case True
  then have "x \<notin> free_vars F t" using formula_leaf [OF F t] none
    by (cases t) (auto simp: free_vars.simps leaf_def symbol_Equal_def quantifier_iff)
  then show ?thesis using True by (intro exI [of _ "[]"]) (simp add: occurs_push_def)
next
  case complex: False
  show ?thesis
  proof (cases "fol_IsQuantifier F (term_TopSymbol t)")
    case True
    have "\<not> plain_term t"
    proof
      assume "plain_term t"
      then show False using True inert_top(1) [OF F, of t] by (auto simp: inert_def quantifier_iff fol_junctors_def fol_neq [OF F])
    qed
    then have "fol_formula F t" using t by blast
    then show ?thesis
    proof (cases rule: fol_formula_cases)
      case (quantifier s vl b st sz)
      have fv: "free_vars F t = free_vars F b - vars_of vl"
        unfolding quantifier(1) using quantifier(2) by (elim disjE) (simp_all add: free_vars_simps [OF F])
      have "occurs_push F x t Stack = (if x \<in> vars_of vl then Stack else [b] # Stack)"
        using True complex unfolding quantifier(1) by (simp add: occurs_push_def vars_of_def leaf_def)
      then show ?thesis using fv quantifier(4)
        by (intro exI [of _ "if x \<in> vars_of vl then [] else [[b]]"]) simp
    qed (use True not_junctor [OF F] in \<open>auto simp: quantifier_iff fol_neq [OF F] fol_junctors_def\<close>)
  next
    case False
    then have "occurs_push F x t Stack = [term_ArgumentList t] @ Stack" using complex by (simp add: occurs_push_def)
    then show ?thesis using free_vars_args [OF F t False complex] by (intro exI [of _ "[term_ArgumentList t]"]) simp
  qed
qed

lemma drop_empty: "(\<exists>l \<in> set Stack. \<exists>u \<in> set l. P u) \<longleftrightarrow> (\<exists>l \<in> set (dropWhile (\<lambda>l. l = []) Stack). \<exists>u \<in> set l. P u)"
  by (induction Stack) auto

lemma occurs_loop_ok:
  assumes "fol_ok F" "fol_formula F t \<or> plain_term t" "\<forall>l \<in> set Stack. \<forall>u \<in> set l. fol_formula F u \<or> plain_term u"
  shows "occurs_loop F x t Stack \<longleftrightarrow> x \<in> free_vars F t \<or> (\<exists>l \<in> set Stack. \<exists>u \<in> set l. x \<in> free_vars F u)"
  using assms
proof (induction F x t Stack rule: occurs_loop.induct)
  case (1 F x t Stack)
  note F = "1.prems"(1)
  show ?case
  proof (cases "\<not> term_IsComplex t \<and> symbol_IsVariable (term_TopSymbol t) \<and> symbol_Equal (term_TopSymbol t) x")
    case True
    then have "x \<in> free_vars F t" using formula_leaf [OF F "1.prems"(2)] by (cases t) (simp add: free_vars.simps symbol_Equal_def quantifier_iff)
    then show ?thesis using True by (subst occurs_loop.simps) simp
  next
    case False
    let ?S = "occurs_push F x t Stack" and ?P = "\<lambda>u. x \<in> free_vars F u"
    obtain us where us: "?S = us @ Stack" "\<forall>l \<in> set us. \<forall>u \<in> set l. fol_formula F u \<or> plain_term u"
        "?P t \<longleftrightarrow> (\<exists>l \<in> set us. \<exists>u \<in> set l. ?P u)"
      using occurs_push_ok [OF F "1.prems"(2) False] by blast
    have top: "?P t \<or> (\<exists>l \<in> set Stack. \<exists>u \<in> set l. ?P u) \<longleftrightarrow> (\<exists>l \<in> set (dropWhile (\<lambda>l. l = []) ?S). \<exists>u \<in> set l. ?P u)"
      using drop_empty [of ?S ?P] us(3) unfolding us(1) by (simp add: bex_Un)
    have step: "occurs_loop F x t Stack = (case dropWhile (\<lambda>l. l = []) ?S of [] \<Rightarrow> False | l # rest \<Rightarrow> occurs_loop F x (hd l) (tl l # rest))"
      using False by (subst occurs_loop.simps) (simp only: Let_def if_False)
    show ?thesis
    proof (cases "dropWhile (\<lambda>l. l = []) ?S")
      case Nil
      show ?thesis unfolding step top unfolding Nil by simp
    next
      case (Cons l rest)
      have "l \<noteq> []" using conjunct2 [OF iffD1 [OF dropWhile_eq_Cons_conv Cons]] .
      then obtain u ul where l: "l = u # ul" by (cases l) auto
      have "set (l # rest) \<subseteq> set ?S" using Cons set_dropWhileD [of _ "\<lambda>l. l = []" ?S] by (metis subsetI)
      then have ok: "\<forall>l' \<in> set (l # rest). \<forall>u \<in> set l'. fol_formula F u \<or> plain_term u" using us(1,2) "1.prems"(3) by auto
      have "occurs_loop F x (hd l) (tl l # rest) \<longleftrightarrow> ?P (hd l) \<or> (\<exists>l \<in> set (tl l # rest). \<exists>u \<in> set l. ?P u)"
        by (rule "1.IH" [OF refl False Cons F]) (use ok l in simp_all)
      then show ?thesis unfolding step top unfolding Cons by (simp add: l disj_assoc)
    qed
  qed
qed

lemma fol_VarOccursFreely_ok:
  "fol_ok F \<Longrightarrow> fol_formula F t \<or> plain_term t \<Longrightarrow> fol_VarOccursFreely F Var t \<longleftrightarrow> term_TopSymbol Var \<in> free_vars F t"
  using occurs_loop_ok [of F t "[]"] by (simp add: fol_VarOccursFreely_def)

section \<open>Quantifiers\<close>

definition quantified :: "fol_symbols \<Rightarrow> 'a interp \<Rightarrow> SYMBOL \<Rightarrow> SYMBOL set \<Rightarrow> (SYMBOL \<Rightarrow> 'a) \<Rightarrow> TERM_NODE \<Rightarrow> bool" where
  "quantified F I s X v b \<longleftrightarrow>
     (if s = fol_All F then \<forall>w. agree_off X v w \<longrightarrow> holds F I w b else \<exists>w. agree_off X v w \<and> holds F I w b)"

lemma holds_quantified:
  assumes "fol_ok F" "s = fol_All F \<or> s = fol_Exist F"
  shows "holds F I v (term_Node s [vl, b] st sz) = quantified F I s (vars_of vl) v b"
  using assms(2) by (elim disjE) (simp_all add: quantified_def holds_simps [OF assms(1)] fol_neq [OF assms(1)])

lemma agree_off_Un: "agree_off (X \<union> Y) v u \<longleftrightarrow> (\<exists>w. agree_off X v w \<and> agree_off Y w u)"
proof
  assume a: "agree_off (X \<union> Y) v u"
  show "\<exists>w. agree_off X v w \<and> agree_off Y w u"
    by (rule exI [of _ "\<lambda>x. if x \<in> X then u x else v x"]) (use a in \<open>auto simp: agree_off_def\<close>)
qed (auto simp: agree_off_def)

lemma agree_off_empty [simp]: "agree_off {} v w \<longleftrightarrow> w = v"
  by (auto simp: agree_off_def)

lemma quantified_empty: "quantified F I s {} v b = holds F I v b"
  by (simp add: quantified_def)

lemma quantified_twice:
  assumes "fol_ok F" "s = fol_All F \<or> s = fol_Exist F"
  shows "quantified F I s X v (term_Node s [vl, b] st sz) = quantified F I s (X \<union> vars_of vl) v b"
  unfolding quantified_def [of F I s X] quantified_def [of F I s "X \<union> vars_of vl"] holds_quantified [OF assms] agree_off_Un
  by (simp add: quantified_def) blast

lemma quantified_used:
  assumes F: "fol_ok F" "fol_formula F b"
  shows "quantified F I s (X \<inter> free_vars F b) v b = quantified F I s X v b"
proof -
  have mono: "agree_off X v w" if "agree_off (X \<inter> free_vars F b) v w" for w using that by (auto simp: agree_off_def)
  have other: "\<exists>w'. agree_off (X \<inter> free_vars F b) v w' \<and> holds F I w' b = holds F I w b" if "agree_off X v w" for w
  proof -
    let ?w = "\<lambda>x. if x \<in> X \<inter> free_vars F b then w x else v x"
    have "holds F I ?w b = holds F I w b" by (rule holds_cong [OF F]) (use that in \<open>auto simp: agree_off_def\<close>)
    then show ?thesis by (intro exI [of _ ?w]) (simp add: agree_off_def)
  qed
  show ?thesis unfolding quantified_def using mono other by metis
qed

definition merged :: "fol_symbols \<Rightarrow> 'a interp \<Rightarrow> SYMBOL \<Rightarrow> TERM_NODE list \<Rightarrow> TERM_NODE \<Rightarrow> TERM_NODE list \<Rightarrow> TERM_NODE \<Rightarrow> bool" where
  "merged F I s vs b vs' b' \<longleftrightarrow> fol_formula F b' \<and> (\<forall>x \<in> set vs'. term_IsVariable x \<and> leaf x) \<and> term_TopSymbol b' \<noteq> s \<and> nodes b' \<le> nodes b
    \<and> (\<forall>X. without X b \<and> (\<forall>x \<in> set vs. without X x) \<longrightarrow> without X b' \<and> (\<forall>x \<in> set vs'. without X x))
    \<and> (no_single F b \<longrightarrow> no_single F b')
    \<and> free_vars F b' - term_TopSymbol ` set vs' = free_vars F b - term_TopSymbol ` set vs
    \<and> (\<forall>v. quantified F I s (term_TopSymbol ` set vs') v b' = quantified F I s (term_TopSymbol ` set vs) v b)"

lemma merged_without:
  assumes "merged F I s vs b vs' b'" "without X b \<and> (\<forall>x \<in> set vs. without X x)"
  shows "without X b' \<and> (\<forall>x \<in> set vs'. without X x)"
  by (rule assms(1) [unfolded merged_def, THEN conjunct2, THEN conjunct2, THEN conjunct2, THEN conjunct2, THEN conjunct1, THEN spec, THEN mp, OF assms(2)])

lemma merged_step:
  assumes F: "fol_ok F" and s: "s = fol_All F \<or> s = fol_Exist F" and b: "b = term_Node s [vl, c] st sz" "vlist_ok F vl"
    and r: "merged F I s (vs @ term_ArgumentList vl) c vs' b'"
  shows "merged F I s vs b vs' b'"
proof -
  note r' = r [unfolded merged_def]
  have keep: "without X c \<and> (\<forall>x \<in> set (vs @ term_ArgumentList vl). without X x) \<Longrightarrow> without X b' \<and> (\<forall>x \<in> set vs'. without X x)" for X
    by (rule merged_without [OF r])
  have tops: "term_TopSymbol ` set (vs @ term_ArgumentList vl) = term_TopSymbol ` set vs \<union> vars_of vl" by (simp add: vars_of_def image_Un)
  have "free_vars F b = free_vars F c - vars_of vl" unfolding b(1) using s by (elim disjE) (simp_all add: free_vars_simps [OF F])
  then have fv: "free_vars F c - term_TopSymbol ` set (vs @ term_ArgumentList vl) = free_vars F b - term_TopSymbol ` set vs"
    unfolding tops by (simp add: Diff_eq Int_ac)
  have q: "quantified F I s (term_TopSymbol ` set vs) v b = quantified F I s (term_TopSymbol ` set (vs @ term_ArgumentList vl)) v c" for v
    unfolding b(1) tops by (rule quantified_twice [OF F s])
  have wo: "without X c \<and> (\<forall>x \<in> set (vs @ term_ArgumentList vl). without X x)" if "without X b \<and> (\<forall>x \<in> set vs. without X x)" for X
  proof -
    have "without X vl" "without X c" using that b(1) by simp_all
    then show ?thesis using that by (cases vl) (simp add: ball_Un)
  qed
  have small: "nodes c \<le> nodes b" using b(1) by (simp add: nodes_eq [of vl])
  have single: "no_single F b \<Longrightarrow> no_single F c" using b(1) by simp
  show ?thesis unfolding merged_def
  proof (intro conjI allI impI)
    fix X assume "without X b \<and> (\<forall>x \<in> set vs. without X x)"
    then have w: "without X c \<and> (\<forall>x \<in> set (vs @ term_ArgumentList vl). without X x)" by (rule wo)
    have "without X b' \<and> (\<forall>x \<in> set vs'. without X x)" by (rule keep [OF w])
    then show "without X b'" "\<forall>x \<in> set vs'. without X x" by (rule conjunct1, rule conjunct2)
  next
    show "free_vars F b' - term_TopSymbol ` set vs' = free_vars F b - term_TopSymbol ` set vs" unfolding fv [symmetric] using r' by simp
  next
    fix v
    show "quantified F I s (term_TopSymbol ` set vs') v b' = quantified F I s (term_TopSymbol ` set vs) v b" unfolding q using r' by simp
  next
    show "nodes b' \<le> nodes b" using r' small by linarith
  qed (use r' single in simp_all)
qed

lemma merge_quantors_ok:
  assumes F: "fol_ok F" and s: "s = fol_All F \<or> s = fol_Exist F" and b: "fol_formula F b"
    and vs: "\<forall>x \<in> set vs. term_IsVariable x \<and> leaf x"
  shows "\<exists>vs' b'. merge_quantors s vs b = Some (vs', b') \<and> merged F I s vs b vs' b'"
  using b vs
proof (induction "nodes b" arbitrary: b vs rule: less_induct)
  case less
  show ?case
  proof (cases "term_TopSymbol b = s")
    case True
    have kind: "s \<notin> {fol_Not F, fol_And F, fol_Or F, fol_Nor F, fol_Nand F, fol_Implies F, fol_Implied F, fol_Equiv F, fol_Xor F}"
      "\<not> symbol_IsPredicate s"
      using s by (elim disjE; simp add: fol_neq [OF F] not_predicate [OF F])+
    obtain vl c st sz where c: "b = term_Node s [vl, c] st sz" "vlist_ok F vl" "fol_formula F c"
      using less.prems(1) True kind by (cases rule: fol_formula_cases) auto
    have vs': "\<forall>x \<in> set (vs @ term_ArgumentList vl). term_IsVariable x \<and> leaf x" using less.prems(2) c(2) by (auto simp: vlist_ok_def)
    have small: "nodes c < nodes b" using c(1) by (simp add: nodes_eq [of vl])
    have run: "merge_quantors s vs b = merge_quantors s (vs @ term_ArgumentList vl) c" using c(1) by (simp add: symbol_Equal_def)
    obtain vs' b' where "merge_quantors s (vs @ term_ArgumentList vl) c = Some (vs', b')" "merged F I s (vs @ term_ArgumentList vl) c vs' b'"
      using less.hyps [OF small c(3) vs'] by blast
    then show ?thesis unfolding run using merged_step [OF F s c(1,2)] by blast
  next
    case False
    then have "merge_quantors s vs b = Some (vs, b)" by (cases b) (simp add: symbol_Equal_def)
    moreover have "merged F I s vs b vs b" using less.prems False by (simp add: merged_def)
    ultimately show ?thesis by blast
  qed
qed

text \<open>Every variable of a quantifier occurs freely below it.\<close>

fun used :: "fol_symbols \<Rightarrow> TERM_NODE \<Rightarrow> bool" where
  "used F (term_Node s ts st sz) = ((fol_IsQuantifier F s \<longrightarrow> (case ts of [vl, b] \<Rightarrow> vars_of vl \<subseteq> free_vars F b | _ \<Rightarrow> True))
     \<and> (\<forall>t \<in> set ts. used F t))"

definition quantors_simplified :: "fol_symbols \<Rightarrow> 'a interp \<Rightarrow> TERM_NODE \<Rightarrow> TERM_NODE \<Rightarrow> bool" where
  "quantors_simplified F I T T' \<longleftrightarrow> fol_formula F T' \<and> (\<forall>v. holds F I v T' = holds F I v T) \<and> (\<forall>X. without X T \<longrightarrow> without X T')
     \<and> (no_single F T \<longrightarrow> no_single F T') \<and> free_vars F T' = free_vars F T \<and> used F T'"

lemma used_inert: "fol_ok F \<Longrightarrow> inert F t \<Longrightarrow> used F t"
proof (induction t)
  case (term_Node s ts st sz)
  have "\<not> fol_IsQuantifier F s"
    using inert_top(1) [OF term_Node.prems] by (auto simp: fol_junctors_def quantifier_iff fol_neq [OF term_Node.prems(1)])
  then show ?case using term_Node inert_arg [OF term_Node.prems(2)] by simp
qed

lemma vlist_keep: "vlist_ok F vl \<Longrightarrow> \<forall>x \<in> set vs. term_IsVariable x \<and> leaf x \<Longrightarrow> vlist_ok F (term_RplacArgumentList vl vs)"
  by (cases vl) (simp add: vlist_ok_def term_RplacArgumentList_def)

lemma vars_of_Rplac [simp]: "vars_of (term_RplacArgumentList vl vs) = term_TopSymbol ` set vs"
  by (simp add: vars_of_def term_RplacArgumentList_def)

lemma SimplifyQuantors_same:
  assumes "symbol_IsPredicate (term_TopSymbol t) \<or> term_TopSymbol t = fol_Varlist F"
  shows "cnf_SimplifyQuantors F t = Some t"
  using assms by (subst cnf_SimplifyQuantors.simps) (simp add: symbol_Equal_def)

lemma SimplifyQuantors_args:
  assumes "\<not> symbol_IsPredicate s" "s \<noteq> fol_Varlist F" "\<not> fol_IsQuantifier F s"
  shows "cnf_SimplifyQuantors F (term_Node s ts st sz) = map_option (\<lambda>rs. term_Node s rs st sz) (map_loop (cnf_SimplifyQuantors F) ts)"
  using assms by (subst cnf_SimplifyQuantors.simps) (simp add: symbol_Equal_def term_RplacArgumentList_def [abs_def])

lemma quantors_simplified_many:
  assumes F: "fol_ok F" and s: "s \<in> {fol_And F, fol_Or F, fol_Nor F, fol_Nand F}" and ts: "ts \<noteq> []"
    and rs: "list_all2 (quantors_simplified F I) ts rs"
  shows "quantors_simplified F I (term_Node s ts st sz) (term_Node s rs st sz)"
proof -
  have "(\<forall>t \<in> set rs. fol_formula F t) \<and> ((\<forall>t \<in> set ts. no_single F t) \<longrightarrow> (\<forall>t \<in> set rs. no_single F t)) \<and> (\<forall>t \<in> set rs. used F t)
    \<and> (\<Union>t \<in> set rs. free_vars F t) = (\<Union>t \<in> set ts. free_vars F t)
    \<and> (\<forall>X. (\<forall>t \<in> set ts. without X t) \<longrightarrow> (\<forall>t \<in> set rs. without X t))
    \<and> (\<forall>v. (\<forall>t \<in> set rs. holds F I v t) = (\<forall>t \<in> set ts. holds F I v t) \<and> (\<exists>t \<in> set rs. holds F I v t) = (\<exists>t \<in> set ts. holds F I v t)
         \<and> (\<forall>t \<in> set rs. \<not> holds F I v t) = (\<forall>t \<in> set ts. \<not> holds F I v t) \<and> (\<exists>t \<in> set rs. \<not> holds F I v t) = (\<exists>t \<in> set ts. \<not> holds F I v t))"
    using rs by (induction rule: list_all2_induct) (simp_all add: quantors_simplified_def)
  moreover have "rs \<noteq> []" "length rs = length ts" using ts list_all2_lengthD [OF rs] by auto
  ultimately show ?thesis using s
    by (auto simp: quantors_simplified_def formula_simps [OF F] holds_simps [OF F] free_vars_many [OF F] quantifier_iff fol_neq [OF F])
qed

lemma cnf_SimplifyQuantors_ok:
  assumes F: "fol_ok F" and T: "fol_formula F T"
  shows "\<exists>T'. cnf_SimplifyQuantors F T = Some T' \<and> quantors_simplified F I T T'"
  using T
proof (induction "nodes T" arbitrary: T rule: less_induct)
  case less
  have IH: "\<exists>t'. cnf_SimplifyQuantors F t = Some t' \<and> quantors_simplified F I t t'" if "t \<in> set (term_ArgumentList T)" "fol_formula F t" for t
    using less.hyps [OF nodes_argument [OF that(1)] that(2)] .
  show ?case
    using less.prems
  proof (cases rule: fol_formula_cases)
    case (quantifier s vl b st sz)
    have vs: "\<forall>x \<in> set (term_ArgumentList vl). term_IsVariable x \<and> leaf x" using quantifier(3) by (simp add: vlist_ok_def)
    obtain vs' b' where run: "merge_quantors s (term_ArgumentList vl) b = Some (vs', b')" and m': "merged F I s (term_ArgumentList vl) b vs' b'"
      using merge_quantors_ok [OF F quantifier(2,4) vs, of I] by blast
    have m: "fol_formula F b'" "\<forall>x \<in> set vs'. term_IsVariable x \<and> leaf x" "nodes b' \<le> nodes b"
        "no_single F b \<longrightarrow> no_single F b'" "free_vars F b' - term_TopSymbol ` set vs' = free_vars F b - vars_of vl"
        "\<forall>v. quantified F I s (term_TopSymbol ` set vs') v b' = quantified F I s (vars_of vl) v b"
      unfolding vars_of_def by (insert m' [unfolded merged_def]) (elim conjE, assumption)+
    have wo: "without X b' \<and> (\<forall>x \<in> set vs'. without X x)" if "without X T" for X
    proof (rule merged_without [OF m'])
      have "without X vl" "without X b" using that quantifier(1) by simp_all
      then show "without X b \<and> (\<forall>x \<in> set (term_ArgumentList vl). without X x)" by (cases vl) simp
    qed
    have small: "nodes b' < nodes T" using m(3) quantifier(1) by (simp add: nodes_eq [of vl])
    obtain r where r: "cnf_SimplifyQuantors F b' = Some r" "quantors_simplified F I b' r" using less.hyps [OF small m(1)] by blast
    note r' = r(2) [unfolded quantors_simplified_def]
    let ?keep = "filter (\<lambda>Var. fol_VarOccursFreely F Var b') vs'"
    have keep: "term_TopSymbol ` set ?keep = term_TopSymbol ` set vs' \<inter> free_vars F b'"
      using fol_VarOccursFreely_ok [OF F, of b'] m(1) by auto
    have kv: "\<forall>x \<in> set ?keep. term_IsVariable x \<and> leaf x" using m(2) by simp
    have fvT: "free_vars F T = free_vars F b - vars_of vl" unfolding quantifier(1) using quantifier(2) by (elim disjE) (simp_all add: free_vars_simps [OF F])
    have hT: "holds F I v T = quantified F I s (term_TopSymbol ` set ?keep) v b'" for v
      unfolding quantifier(1) holds_quantified [OF F quantifier(2)] keep quantified_used [OF F m(1)] using m(6) by simp
    have fv: "free_vars F b' - term_TopSymbol ` set ?keep = free_vars F T" unfolding keep fvT m(5) [symmetric] by blast
    have s: "\<not> symbol_IsPredicate s" "s \<noteq> fol_Varlist F" "fol_IsQuantifier F s"
      using quantifier(2) by (elim disjE; simp add: fol_neq [OF F] not_predicate [OF F] quantifier_iff)+
    show ?thesis
    proof (cases "?keep \<noteq> vs' \<and> ?keep = []")
      case True
      have "cnf_SimplifyQuantors F T = cnf_SimplifyQuantors F b'"
        unfolding quantifier(1) using s run True by (subst cnf_SimplifyQuantors.simps) (auto simp: symbol_Equal_def)
      moreover have "holds F I v b' = holds F I v T" for v using hT True by (simp add: quantified_empty)
      moreover have "free_vars F b' = free_vars F T" using fv True by simp
      moreover have "without X b'" if "without X T" for X using wo [OF that] ..
      ultimately show ?thesis using r(1) r' m(4) quantifier(1) by (intro exI [of _ r]) (simp add: quantors_simplified_def)
    next
      case False
      let ?vl = "term_RplacArgumentList vl ?keep" and ?T = "term_Node s [term_RplacArgumentList vl ?keep, r] st sz"
      have vl': "vlist_ok F ?vl" using vlist_keep [OF quantifier(3) kv] .
      have "cnf_SimplifyQuantors F ?vl = Some ?vl" by (rule SimplifyQuantors_same) (use vl' in \<open>simp add: vlist_ok_def\<close>)
      then have "cnf_SimplifyQuantors F T = Some ?T"
        unfolding quantifier(1) using s run False r(1) by (subst cnf_SimplifyQuantors.simps) (auto simp: symbol_Equal_def term_RplacArgumentList_def)
      moreover have "quantors_simplified F I T ?T"
      proof -
        have "holds F I v ?T = holds F I v T" for v
          unfolding holds_quantified [OF F quantifier(2)] hT vars_of_Rplac using r' by (simp add: quantified_def)
        moreover have "free_vars F ?T = free_vars F T" unfolding fv [symmetric]
          using quantifier(2) r' by (elim disjE) (simp_all add: free_vars_simps [OF F])
        moreover have "fol_formula F ?T" using quantifier(2) r' vl' by (elim disjE) (simp_all add: formula_simps [OF F])
        moreover have "without X ?T" if "without X T" for X
        proof -
          have "without X ?vl" using wo [OF that] that quantifier(1) by (cases vl) (auto simp: term_RplacArgumentList_def)
          then show ?thesis using wo [OF that] that quantifier(1) r' by simp
        qed
        moreover have "used F ?T" using keep r' used_inert [OF F] vl' by (auto simp: inert_def)
        moreover have "no_single F ?T" if "no_single F T"
          using that quantifier(1,2) m(4) r' no_single_inert [OF F, of ?vl] vl' by (auto simp: inert_def fol_neq [OF F])
        ultimately show ?thesis by (simp add: quantors_simplified_def)
      qed
      ultimately show ?thesis by blast
    qed
  next
    case (many s ts st sz)
    have "\<exists>t'. cnf_SimplifyQuantors F t = Some t' \<and> quantors_simplified F I t t'" if "t \<in> set ts" for t
      using IH [of t] that many(1,4) by simp
    then obtain g where g: "\<And>t. t \<in> set ts \<Longrightarrow> cnf_SimplifyQuantors F t = Some (g t)" "\<And>t. t \<in> set ts \<Longrightarrow> quantors_simplified F I t (g t)"
      by metis
    have loop: "map_loop (cnf_SimplifyQuantors F) ts = Some (map g ts)" by (rule map_loop_Some) (rule g(1))
    have s: "\<not> symbol_IsPredicate s" "s \<noteq> fol_Varlist F" "\<not> fol_IsQuantifier F s"
      using many(2) by (elim disjE; simp add: fol_neq [OF F] not_predicate [OF F] quantifier_iff)+
    have rel: "list_all2 (quantors_simplified F I) ts (map g ts)" using g(2) by (simp add: list_all2_conv_all_nth)
    show ?thesis unfolding many(1) SimplifyQuantors_args [OF s] loop
      using quantors_simplified_many [OF F _ many(3) rel] many(2) by (intro exI conjI) auto
  next
    case (one u st sz)
    obtain r where r: "cnf_SimplifyQuantors F u = Some r" "quantors_simplified F I u r" using IH [of u] one by auto
    have s: "\<not> symbol_IsPredicate (fol_Not F)" "fol_Not F \<noteq> fol_Varlist F" "\<not> fol_IsQuantifier F (fol_Not F)"
      by (simp_all add: fol_neq [OF F] not_predicate [OF F] quantifier_iff)
    show ?thesis unfolding one(1) SimplifyQuantors_args [OF s]
      using r by (simp add: quantors_simplified_def formula_simps [OF F] holds_simps [OF F] free_vars_many [OF F] quantifier_iff fol_neq [OF F])
  next
    case (two s a b st sz)
    obtain ra rb where r: "cnf_SimplifyQuantors F a = Some ra" "quantors_simplified F I a ra"
        "cnf_SimplifyQuantors F b = Some rb" "quantors_simplified F I b rb" using IH [of a] IH [of b] two(1,3,4) by auto
    note r' = r(2,4) [unfolded quantors_simplified_def]
    have s: "\<not> symbol_IsPredicate s" "s \<noteq> fol_Varlist F" "\<not> fol_IsQuantifier F s"
      using two(2) by (elim disjE; simp add: fol_neq [OF F] not_predicate [OF F] quantifier_iff)+
    have "quantors_simplified F I (term_Node s [a, b] st sz) (term_Node s [ra, rb] st sz)"
      using two(2) by (elim disjE)
        (simp_all add: r' quantors_simplified_def formula_simps [OF F] holds_simps [OF F] free_vars_many [OF F] fol_neq [OF F] quantifier_iff)
    then show ?thesis unfolding two(1) SimplifyQuantors_args [OF s] using r(1,3) by simp
  next
    case (atom s ts st sz)
    have "\<forall>t \<in> set ts. used F t" using atom(3) used_inert [OF F] by (auto simp: inert_def)
    moreover have "\<not> fol_IsQuantifier F s" using not_junctor [OF F atom(2)] by (auto simp: quantifier_iff fol_junctors_def)
    ultimately have "used F T" using atom(1) by simp
    then have "quantors_simplified F I T T" using less.prems by (simp add: quantors_simplified_def)
    moreover have "cnf_SimplifyQuantors F T = Some T" by (rule SimplifyQuantors_same) (simp add: atom(1,2))
    ultimately show ?thesis by blast
  qed
qed

end
