(* ===== verification/Spass_CNF_Negation.thy ===== *)
theory Spass_CNF_Negation
  imports Spass_CNF_Correct
begin

text \<open>
  The loop of \<open>cnf_NegationNormalFormula\<close> returns for every formula, its result is equivalent, and no
  negation is left above a junctor that it can be moved below. After a double negation a node waits on
  the stack below its own arguments, so the invariant only says that no node waits below a node that
  is popped before it.
\<close>

section \<open>The measure\<close>

text \<open>The weight of a node, and its weight below a negation.\<close>

fun nnf_weight :: "fol_symbols \<Rightarrow> bool \<Rightarrow> TERM_NODE \<Rightarrow> nat" where
  "nnf_weight F n (term_Node s ts st sz) =
     (if s = fol_Not F then (if n then 2 + 2 * sum_list (map (nnf_weight F False) ts) else 1 + sum_list (map (nnf_weight F True) ts))
      else if s \<in> {fol_All F, fol_Exist F, fol_And F, fol_Or F}
      then (if n then 2 + sum_list (map (nnf_weight F True) ts) + 4 * length ts else 1 + sum_list (map (nnf_weight F False) ts) + 3 * length ts)
      else (if n then 2 else 1) + sum_list (map (nnf_weight F False) ts))"

lemma sum_list_bounds:
  fixes f g :: "'a \<Rightarrow> nat"
  assumes "\<And>x. x \<in> set xs \<Longrightarrow> f x \<le> g x"
  shows "sum_list (map f xs) \<le> sum_list (map g xs)"
  using assms by (induction xs) (simp_all add: add_mono)

lemma nnf_weight_twice: "nnf_weight F False t < nnf_weight F True t \<and> nnf_weight F True t \<le> 2 * nnf_weight F False t"
proof (induction t)
  case (term_Node s ts st sz)
  have "sum_list (map (nnf_weight F False) ts) \<le> sum_list (map (nnf_weight F True) ts)"
    by (rule sum_list_bounds) (use term_Node in \<open>simp add: less_imp_le\<close>)
  moreover have "sum_list (map (nnf_weight F True) ts) \<le> sum_list (map (\<lambda>t. 2 * nnf_weight F False t) ts)"
    by (rule sum_list_bounds) (use term_Node in simp)
  then have "sum_list (map (nnf_weight F True) ts) \<le> 2 * sum_list (map (nnf_weight F False) ts)"
    by (simp add: sum_list_const_mult)
  ultimately show ?case by simp
qed

lemma nnf_weight_args: "sum_list (map (nnf_weight F False) (term_ArgumentList t)) < nnf_weight F False t"
proof (cases t)
  case (term_Node s ts st sz)
  have "sum_list (map (nnf_weight F False) ts) \<le> sum_list (map (nnf_weight F True) ts)"
    by (rule sum_list_bounds) (use nnf_weight_twice [of F] in \<open>simp add: less_imp_le\<close>)
  then show ?thesis using term_Node by simp
qed

lemma nnf_weight_put_at:
  assumes "\<And>n. nnf_weight F n u \<le> nnf_weight F n t" "term_at T p = Some t"
  shows "nnf_weight F n (put_at T p u) \<le> nnf_weight F n T"
  using assms(2)
proof (induction T p arbitrary: n rule: term_at.induct)
  case (2 T i p)
  have i: "i < length (term_ArgumentList T)" using 2 by (auto split: if_splits)
  have "sum_list (map (nnf_weight F m) ((term_ArgumentList T)[i := put_at (term_ArgumentList T ! i) p u]))
    \<le> sum_list (map (nnf_weight F m) (term_ArgumentList T))" for m
  proof -
    have "nnf_weight F m (put_at (term_ArgumentList T ! i) p u) \<le> nnf_weight F m (term_ArgumentList T ! i)"
      using 2 i by (auto split: if_splits)
    then show ?thesis using i elem_le_sum_list [of i "map (nnf_weight F m) (term_ArgumentList T)"]
      by (simp add: map_update sum_list_update)
  qed
  from this [of False] this [of True] show ?case using i by (cases T) (simp add: term_RplacArgumentList_def)
qed (use assms(1) in simp)

section \<open>What a visit does\<close>

definition nnf_junctors :: "fol_symbols \<Rightarrow> SYMBOL set" where
  "nnf_junctors F = {fol_Not F, fol_All F, fol_Exist F, fol_And F, fol_Or F}"

definition nnf_bad :: "fol_symbols \<Rightarrow> TERM_NODE \<Rightarrow> bool" where
  "nnf_bad F x \<longleftrightarrow> term_TopSymbol x = fol_Not F \<and> (\<exists>a. term_at x [0] = Some a \<and> term_TopSymbol a \<in> nnf_junctors F)"

definition nnf_visited :: "fol_symbols \<Rightarrow> 'a interp \<Rightarrow> TERM_NODE \<Rightarrow> TERM_NODE \<Rightarrow> position list \<Rightarrow> bool" where
  "nnf_visited F I t t' again \<longleftrightarrow> (fol_formula F t \<longrightarrow> fol_formula F t' \<and> (\<forall>v. holds F I v t' = holds F I v t))
     \<and> (inert F t \<longrightarrow> t' = t)
     \<and> (\<forall>X. X \<inter> nnf_junctors F = {} \<longrightarrow> without X t \<longrightarrow> without X t')
     \<and> (term_TopSymbol t' \<in> nnf_junctors F \<longrightarrow> term_TopSymbol t \<in> nnf_junctors F)
     \<and> (again = [] \<longrightarrow> \<not> nnf_bad F t') \<and> (\<forall>n. nnf_weight F n t' \<le> nnf_weight F n t)
     \<and> sum_list (map (nnf_weight F False) (term_ArgumentList t')) + (if again = [] then 0 else nnf_weight F False t') < nnf_weight F False t"

lemma nnf_visit_same:
  assumes "term_TopSymbol t = fol_Not F \<Longrightarrow> \<not> nnf_bad F t \<and> term_ArgumentList t \<noteq> []"
  shows "cnf_NegationNormal_visit F T p t = Some (t, push_args p t @ []) \<and> nnf_visited F I t t []"
proof -
  have "push_args p t = []" if "term_ArgumentList t = []" using that by (simp add: push_args_def)
  moreover have "\<not> nnf_bad F t" using assms by (auto simp: nnf_bad_def)
  ultimately show ?thesis using assms nnf_weight_args [of F t]
    by (cases "term_ArgumentList t")
      (auto simp: cnf_NegationNormal_visit_def nnf_visited_def symbol_Equal_def nnf_bad_def nnf_junctors_def quantifier_iff
        term_FirstArgument_def)
qed

lemma nnf_visit_ok:
  assumes F: "fol_ok F" and t: "fol_formula F t \<or> inert F t"
  shows "\<exists>t' again. cnf_NegationNormal_visit F T p t = Some (t', push_args p t' @ again) \<and> again \<in> {[], [p]} \<and> nnf_visited F I t t' again"
proof (cases "nnf_bad F t")
  case False
  have "term_ArgumentList t \<noteq> []" if top: "term_TopSymbol t = fol_Not F"
  proof -
    have "\<not> inert F t" using inert_top(1) [OF F, of t] top by (auto simp: fol_junctors_def fol_neq [OF F])
    then have "fol_formula F t" using t by blast
    then show ?thesis using top
      by (cases rule: fol_formula_cases) (auto simp: fol_neq [OF F] dest: not_junctor [OF F] simp: fol_junctors_def)
  qed
  then show ?thesis using nnf_visit_same [of t F T p I] False by (intro exI [of _ t] exI [of _ "[]"]) simp
next
  case True
  then have top: "term_TopSymbol t = fol_Not F" by (simp add: nnf_bad_def)
  have ni: "\<not> inert F t" using inert_top(1) [OF F, of t] top by (auto simp: fol_junctors_def fol_neq [OF F])
  then have "fol_formula F t" using t by blast
  then obtain u st sz where tu: "t = term_Node (fol_Not F) [u] st sz" "fol_formula F u"
    using top by (cases rule: fol_formula_cases) (auto simp: fol_neq [OF F] dest: not_junctor [OF F] simp: fol_junctors_def)
  have u: "term_TopSymbol u \<in> nnf_junctors F" using True tu(1) by (simp add: nnf_bad_def)
  note simps = cnf_NegationNormal_visit_def nnf_visited_def symbol_Equal_def nnf_junctors_def quantifier_iff term_FirstArgument_def
    fol_neq [OF F] formula_simps [OF F] holds_simps [OF F] term_node_defs cnf_GetDualSymbol_def nnf_bad_def
  show ?thesis
    using tu(2)
  proof (cases rule: fol_formula_cases)
    case (one a st' sz')
    obtain s ts sa za where a: "a = term_Node s ts sa za" by (cases a)
    have same: "fol_formula F (term_Node s ts st sz) = fol_formula F a" "\<And>v. holds F I v (term_Node s ts st sz) = holds F I v a"
      by (simp_all add: a fol_formula.simps holds.simps)
    have w: "nnf_weight F n (term_Node s ts st sz) = nnf_weight F n a" for n by (simp add: a)
    have args: "sum_list (map (nnf_weight F False) ts) < nnf_weight F False a" using nnf_weight_args [of F a] a by simp
    have le: "nnf_weight F n a \<le> nnf_weight F n t" for n
      using tu(1) one(1) nnf_weight_twice [of F a] by (cases n) (simp_all add: fol_neq [OF F])
    have "nnf_weight F False t = 3 + 2 * nnf_weight F False a" using tu(1) one(1) by simp
    then have sum: "sum_list (map (nnf_weight F False) ts) + nnf_weight F False a < nnf_weight F False t" using args by simp
    have visit: "cnf_NegationNormal_visit F T p t = Some (term_Node s ts st sz, push_args p (term_Node s ts st sz) @ [p])"
      using tu(1) one(1) a by (simp add: simps push_args_def)
    have "nnf_visited F I t (term_Node s ts st sz) [p]"
      unfolding nnf_visited_def using same tu(1) one a w le sum ni top by (auto simp: nnf_junctors_def formula_simps [OF F] holds_simps [OF F])
    then show ?thesis using visit by blast
  next
    case (quantifier s vl b st' sz')
    have dual: "cnf_GetDualSymbol F s = (if s = fol_All F then fol_Exist F else fol_All F)"
      using quantifier(2) by (auto simp: simps)
    let ?t' = "term_Node (cnf_GetDualSymbol F s) [vl, term_Create (fol_Not F) [b]] st sz"
    have "cnf_NegationNormal_visit F T p t = Some (?t', push_args p ?t' @ [])"
      using tu(1) quantifier(1,2) by (auto simp: simps)
    moreover have "nnf_visited F I t ?t' []"
      unfolding nnf_visited_def using tu(1) quantifier ni nnf_weight_twice [of F vl] nnf_weight_twice [of F b]
      by (auto simp: dual simps)
    ultimately show ?thesis by blast
  next
    case (many s ts st' sz')
    have s: "s = fol_And F \<or> s = fol_Or F" using many(1,2) u by (auto simp: nnf_junctors_def fol_neq [OF F])
    have dual: "cnf_GetDualSymbol F s = (if s = fol_And F then fol_Or F else fol_And F)"
      using s by (auto simp: simps)
    let ?ts = "map (\<lambda>t. term_Create (fol_Not F) [t]) ts"
    let ?t' = "term_Node (cnf_GetDualSymbol F s) ?ts st sz"
    have "cnf_NegationNormal_visit F T p t = Some (?t', push_args p ?t' @ [])"
      using tu(1) many(1,3) s by (auto simp: simps push_args_def)
    moreover have "sum_list (map (nnf_weight F False) ?ts) = length ts + sum_list (map (nnf_weight F True) ts)"
      "sum_list (map (nnf_weight F True) ?ts) = 2 * length ts + 2 * sum_list (map (nnf_weight F False) ts)"
      by (induction ts) (simp_all add: term_node_defs)
    then have "(\<forall>n. nnf_weight F n ?t' \<le> nnf_weight F n t) \<and> sum_list (map (nnf_weight F False) (term_ArgumentList ?t')) < nnf_weight F False t"
      using tu(1) many(1) s by (auto simp: dual fol_neq [OF F])
    then have "nnf_visited F I t ?t' []"
      unfolding nnf_visited_def using tu(1) many s ni by (auto simp: dual simps)
    ultimately show ?thesis by blast
  qed (use u fol_symbol_kinds(5) [OF F] in \<open>auto simp: nnf_junctors_def fol_neq [OF F] fol_junctors_def\<close>)
qed

section \<open>The loop\<close>

definition deeper_first :: "position list \<Rightarrow> bool" where
  "deeper_first Stack \<longleftrightarrow> sorted_wrt (\<lambda>p q. \<nexists>r. q = p @ r) Stack"

lemma deeper_first_push:
  assumes "deeper_first (p # rest)" "again \<in> {[], [p]}"
  shows "deeper_first (push_args p u @ again @ rest)"
proof -
  have "deeper_first (push_args p u)"
    unfolding deeper_first_def push_args_def sorted_wrt_rev sorted_wrt_map by (auto simp: sorted_wrt_iff_nth_less)
  moreover have "deeper_first (again @ rest)" using assms by (auto simp: deeper_first_def)
  moreover have "\<nexists>r. q = p @ [i] @ r" if "q = p \<or> q \<in> set rest" for q i
    using that assms(1) by (auto simp: deeper_first_def)
  then have "\<forall>x \<in> set (push_args p u). \<forall>q \<in> set (again @ rest). \<nexists>r. q = x @ r"
    using assms(2) by (auto simp: push_args_def)
  ultimately show ?thesis by (simp add: deeper_first_def sorted_wrt_append)
qed

lemma term_at_put_above:
  assumes "\<nexists>r. q = p @ r" "term_at T p = Some t" "term_at T q = Some x"
  shows "\<exists>x'. term_at (put_at T p u) q = Some x' \<and> (x' = x \<or> (\<exists>r t. x' = put_at x r u \<and> term_at x r = Some t \<and> term_at T p = Some t))"
proof (cases "apart p q")
  case True
  then show ?thesis using assms(3) by (simp add: term_at_put_apart)
next
  case False
  then obtain r where r: "p = q @ r" using assms(1) by (auto simp: apart_def)
  then have "term_at x r = Some t" using assms(2,3) by (simp add: term_at_append)
  then show ?thesis using r assms(3) by (simp add: put_at_append assms(2)) (use assms(2) r in auto)
qed

definition nnf_inv :: "fol_symbols \<Rightarrow> 'a interp \<Rightarrow> SYMBOL set \<Rightarrow> TERM_NODE \<Rightarrow> position list \<Rightarrow> TERM_NODE \<Rightarrow> bool" where
  "nnf_inv F I X T0 Stack T \<longleftrightarrow> deeper_first Stack \<and> fol_formula F T \<and> (\<forall>v. holds F I v T = holds F I v T0)
     \<and> without X T \<and> (\<forall>p \<in> set Stack. \<exists>t. term_at T p = Some t \<and> (fol_formula F t \<or> inert F t)) \<and> pending (nnf_bad F) Stack T"

text \<open>Nodes that wait above the changed one stay formulas, and do not get heavier.\<close>

lemma nnf_waiting:
  assumes F: "fol_ok F" and t: "term_at T p = Some t" and v: "nnf_visited F I t t' again" and q: "\<nexists>r. q = p @ r"
    and x: "term_at T q = Some x" "fol_formula F x \<or> inert F x"
  shows "\<exists>x'. term_at (put_at T p t') q = Some x' \<and> (fol_formula F x' \<or> inert F x') \<and> nnf_weight F False x' \<le> nnf_weight F False x"
proof -
  obtain x' where x': "term_at (put_at T p t') q = Some x'"
      "x' = x \<or> (\<exists>r. x' = put_at x r t' \<and> term_at x r = Some t)"
    using term_at_put_above [OF q t x(1), of t'] t by auto
  then consider "x' = x" | r where "x' = put_at x r t'" "term_at x r = Some t" by blast
  then have "(fol_formula F x' \<or> inert F x') \<and> nnf_weight F False x' \<le> nnf_weight F False x"
  proof cases
    case 1
    then show ?thesis using x(2) by simp
  next
    case 2
    have w: "nnf_weight F False x' \<le> nnf_weight F False x" using nnf_weight_put_at [OF _ 2(2)] v 2(1) by (simp add: nnf_visited_def)
    show ?thesis
    proof (cases "fol_formula F t")
      case True
      then have "\<not> inert F x" using vlist_at_not_formula [OF F _ 2(2)] plain_term_at [OF _ 2(2)] plain_term_not_formula [OF F]
        by (auto simp: inert_def)
      then have "fol_formula F x" using x(2) by blast
      then show ?thesis using formula_put_at [OF F True _ _ _ 2(2)] v True w 2(1) unfolding nnf_visited_def by blast
    next
      case False
      have "inert F y \<or> fol_formula F y" if "term_at x r = Some y" for r y
        using that x(2)
      proof (induction x r rule: term_at.induct)
        case (2 x i r)
        have i: "i < length (term_ArgumentList x)" "term_at (term_ArgumentList x ! i) r = Some y" using 2 by (auto split: if_splits)
        then have "fol_formula F (term_ArgumentList x ! i) \<or> inert F (term_ArgumentList x ! i)"
          using 2 formula_arg [OF F] inert_arg nth_mem by blast
        then show ?case using 2 i by blast
      qed auto
      then have "t' = t" using False 2(2) v by (auto simp: nnf_visited_def)
      then show ?thesis using 2 x(2) by simp
    qed
  qed
  then show ?thesis using x'(1) by blast
qed

lemma nnf_waiting_size:
  assumes F: "fol_ok F" and t: "term_at T p = Some t" and v: "nnf_visited F I t t' again"
    and "\<And>q. q \<in> set Stack \<Longrightarrow> (\<nexists>r. q = p @ r) \<and> (\<exists>x. term_at T q = Some x \<and> (fol_formula F x \<or> inert F x))"
  shows "stack_size (nnf_weight F False) Stack (put_at T p t') \<le> stack_size (nnf_weight F False) Stack T"
  using assms(4)
proof (induction Stack)
  case (Cons q Stack)
  obtain x where x: "\<nexists>r. q = p @ r" "term_at T q = Some x" "fol_formula F x \<or> inert F x" using Cons.prems by force
  obtain x' where "term_at (put_at T p t') q = Some x'" "nnf_weight F False x' \<le> nnf_weight F False x"
    using nnf_waiting [OF F t v x] by blast
  then show ?case using x Cons by (simp add: add_mono)
qed simp

lemma nnf_bad_above:
  assumes t: "term_at T p = Some t" and v: "nnf_visited F I t t' again" and g: "\<nexists>r. g = p @ r"
    and x: "term_at (put_at T p t') g = Some x" "nnf_bad F x" and y: "term_at T g = Some y" "term_TopSymbol x = term_TopSymbol y"
  shows "nnf_bad F y"
proof -
  obtain a where a: "term_at x [0] = Some a" "term_TopSymbol a \<in> nnf_junctors F" "term_TopSymbol x = fol_Not F"
    using x(2) unfolding nnf_bad_def by blast
  have "term_at (put_at T p t') (g @ [0]) = Some a" using x(1) a(1) by (simp add: term_at_append del: term_at.simps)
  with t have "\<exists>b. term_at T (g @ [0]) = Some b \<and> term_TopSymbol b \<in> nnf_junctors F"
  proof (cases rule: term_at_put_cases)
    case (1 r)
    then have "r = []" using g by (cases r rule: rev_cases) auto
    then show ?thesis using 1 t v a(2) by (simp add: nnf_visited_def)
  qed (use a(2) in auto)
  then show ?thesis using y a(3) by (simp add: nnf_bad_def term_at_append del: term_at.simps)
qed

lemma nnf_inv_step:
  assumes F: "fol_ok F" and X: "X \<inter> nnf_junctors F = {}" and inv: "nnf_inv F I X T0 (p # rest) T"
  shows "\<exists>t t' pushed. term_at T p = Some t \<and> cnf_NegationNormal_visit F T p t = Some (t', pushed)
    \<and> nnf_inv F I X T0 (pushed @ rest) (put_at T p t')
    \<and> stack_size (nnf_weight F False) (pushed @ rest) (put_at T p t') < stack_size (nnf_weight F False) (p # rest) T"
proof -
  note i = inv [unfolded nnf_inv_def]
  have deeper: "deeper_first (p # rest)" and pend: "pending (nnf_bad F) (p # rest) T" and form: "fol_formula F T"
    and wait: "\<And>q. q \<in> set rest \<Longrightarrow> \<exists>x. term_at T q = Some x \<and> (fol_formula F x \<or> inert F x)"
    using i by simp_all
  obtain t where t: "term_at T p = Some t" "fol_formula F t \<or> inert F t" using i by auto
  obtain t' again where v: "cnf_NegationNormal_visit F T p t = Some (t', push_args p t' @ again)" "again \<in> {[], [p]}"
      and r: "nnf_visited F I t t' again"
    using nnf_visit_ok [OF F t(2)] by blast
  note r' = r [unfolded nnf_visited_def]
  have below: "\<nexists>r. q = p @ r" if "q \<in> set rest" for q using that deeper by (auto simp: deeper_first_def)
  have formulas: "fol_formula F (put_at T p t') \<and> (\<forall>v. holds F I v (put_at T p t') = holds F I v T)"
  proof (cases "fol_formula F t")
    case True
    then show ?thesis using formula_put_at [OF F True _ _ form t(1)] r' by blast
  qed (use t r' form in auto)
  have t': "fol_formula F t' \<or> inert F t'" using t(2) r' by auto
  have pushed: "\<exists>x. term_at (put_at T p t') q = Some x \<and> (fol_formula F x \<or> inert F x)" if q: "q \<in> set (push_args p t' @ again)" for q
  proof (cases "q = p")
    case False
    then obtain j where j: "q = p @ [j]" "j < length (term_ArgumentList t')" using q v(2) by (auto simp: push_args_def)
    then have "term_ArgumentList t' ! j \<in> set (term_ArgumentList t')" by simp
    then have "fol_formula F (term_ArgumentList t' ! j) \<or> inert F (term_ArgumentList t' ! j)" using t' formula_arg [OF F] inert_arg by blast
    then show ?thesis using j t(1) by (simp add: term_at_put_below)
  qed (use t(1) t' in simp)
  moreover have "\<exists>x. term_at (put_at T p t') q = Some x \<and> (fol_formula F x \<or> inert F x)" if "q \<in> set rest" for q
    using nnf_waiting [OF F t(1) r below [OF that]] wait [OF that] by blast
  ultimately have entries: "\<forall>q \<in> set ((push_args p t' @ again) @ rest). \<exists>x. term_at (put_at T p t') q = Some x \<and> (fol_formula F x \<or> inert F x)"
    by auto
  have pend': "pending (nnf_bad F) ((push_args p t' @ again) @ rest) (put_at T p t')"
  proof (rule pending_step [OF pend t(1)])
    fix q x assume x: "term_at t' q = Some x" "nnf_bad F x"
    show "\<exists>q' \<in> set (push_args p t' @ again). \<exists>r'. p @ q = q' @ r'"
    proof (cases q)
      case Nil
      then show ?thesis using x r' v(2) by auto
    next
      case (Cons j q')
      then show ?thesis using push_args_below [of t' j q' x p] x(1) by auto
    qed
  qed (rule nnf_bad_above [OF t(1) r], assumption+)
  have "without X (put_at T p t')" using without_put_at [of X T t' p] without_at [of X T p t] i t(1) r' X by blast
  then have "nnf_inv F I X T0 ((push_args p t' @ again) @ rest) (put_at T p t')"
    using i formulas entries pend' deeper_first_push [OF deeper v(2), of t'] by (simp add: nnf_inv_def)
  moreover have "stack_size (nnf_weight F False) ((push_args p t' @ again) @ rest) (put_at T p t')
    < stack_size (nnf_weight F False) (p # rest) T"
  proof -
    have "stack_size (nnf_weight F False) (push_args p t' @ again) (put_at T p t') < nnf_weight F False t"
      using stack_size_args [OF t(1), of "nnf_weight F False" t'] r' v(2) t(1) by auto
    moreover have "stack_size (nnf_weight F False) rest (put_at T p t') \<le> stack_size (nnf_weight F False) rest T"
      using nnf_waiting_size [OF F t(1) r] below wait by blast
    ultimately show ?thesis using t(1) by simp
  qed
  ultimately show ?thesis using t(1) v(1) by blast
qed

interpretation nnf_editor: stack_editor "cnf_NegationNormal_visit F"
  "\<lambda>S T. (fol_ok F \<and> X \<inter> nnf_junctors F = {}) \<and> nnf_inv F I X T0 S T" "stack_size (nnf_weight F False)"
  by unfold_locales (use nnf_inv_step in blast)

lemma cnf_NegationNormalFormula_ok:
  assumes F: "fol_ok F" and X: "X \<inter> nnf_junctors F = {}" and T: "fol_formula F T" "without X T"
  obtains T' where "cnf_NegationNormalFormula F T = Some T'" "fol_formula F T'" "\<And>v. holds F I v T' = holds F I v T" "without X T'"
    "\<And>g x. term_at T' g = Some x \<Longrightarrow> \<not> nnf_bad F x"
proof -
  have "nnf_inv F I X T [[]] T" using T by (simp add: nnf_inv_def deeper_first_def pending_root)
  then obtain T' where T': "cnf_NegationNormalFormula F T = Some T'" "nnf_inv F I X T [] T'"
    unfolding cnf_NegationNormalFormula_def using nnf_editor.returns [of F X I T "[[]]" T] F X by blast
  show thesis by (rule that [OF T'(1)]) (use T'(2) pending_none [of "nnf_bad F" T'] in \<open>auto simp: nnf_inv_def\<close>)
qed

text \<open>What a formula has at a position is a formula or has none inside.\<close>

lemma formula_at:
  assumes F: "fol_ok F"
  shows "fol_formula F T \<or> inert F T \<Longrightarrow> term_at T g = Some x \<Longrightarrow> fol_formula F x \<or> inert F x"
proof (induction T g rule: term_at.induct)
  case (2 T i g)
  have i: "i < length (term_ArgumentList T)" "term_at (term_ArgumentList T ! i) g = Some x" using "2.prems"(2) by (auto split: if_splits)
  have "fol_formula F (term_ArgumentList T ! i) \<or> inert F (term_ArgumentList T ! i)"
    using "2.prems"(1) formula_arg [OF F] inert_arg nth_mem [OF i(1)] by blast
  then show ?case using "2.IH" i by blast
qed auto

lemma formula_not_at:
  assumes F: "fol_ok F" and T: "fol_formula F T" and x: "term_at T g = Some x" "term_TopSymbol x = fol_Not F"
  shows "\<exists>a. term_ArgumentList x = [a] \<and> fol_formula F a"
proof -
  have "\<not> inert F x" using inert_top(1) [OF F, of x] x(2) by (auto simp: fol_junctors_def fol_neq [OF F])
  then have "fol_formula F x" using formula_at [OF F _ x(1)] T by blast
  then show ?thesis using x(2) not_junctor [OF F]
    by (cases rule: fol_formula_cases) (auto simp: fol_neq [OF F] fol_junctors_def)
qed

end
