(* ===== verification/Spass_Formula_Init.thy ===== *)
theory Spass_Formula_Init
  imports Spass_Formula
begin

text \<open>
  The start of the module for formulas (\<open>fol_Init\<close>): the symbols are created one after the other in the
  signature table, four of them are marked as predefined, and a list of symbols is kept. The theorem
  connects the table of \<open>Spass_Symbol\<close> with the assumption \<open>fol_ok\<close> of the proofs on formulas.
\<close>

definition symbol_ArbitraryArity :: int where "symbol_ArbitraryArity = - 1"

definition PREDEFINED :: NAT where "PREDEFINED = 2048"

definition symbol_AddProperty :: "SYMBOL \<Rightarrow> NAT \<Rightarrow> symbol_table \<Rightarrow> symbol_error + symbol_table" where
  "symbol_AddProperty ActSymbol Prop st =
     (case symbol_Signature st (symbol_Index ActSymbol) of
        None \<Rightarrow> Inl Null_signature
      | Some S \<Rightarrow> Inr (symbol_SetSignature (symbol_Index ActSymbol) (Some (add_property S Prop)) st))"

text \<open>A sequence of creations; each item has the name, whether it is a junctor, and the arity.\<close>

fun create_symbols ::
  "(string \<times> bool \<times> int) list \<Rightarrow> PRECEDENCE \<Rightarrow> symbol_table \<Rightarrow> symbol_error + SYMBOL list \<times> PRECEDENCE \<times> symbol_table" where
  "create_symbols [] P st = Inr ([], P, st)"
| "create_symbols ((n, junctor, a) # specs) P st =
     (case (if junctor then symbol_CreateJunctor n a symbol_STATLEX P st else symbol_CreatePredicate n a symbol_STATLEX P st) of
        Inl e \<Rightarrow> Inl e
      | Inr (S, P, st) \<Rightarrow>
          (case create_symbols specs P st of
             Inl e \<Rightarrow> Inl e
           | Inr (Ss, P, st) \<Rightarrow> Inr (S # Ss, P, st)))"

fun add_properties :: "SYMBOL list \<Rightarrow> NAT \<Rightarrow> symbol_table \<Rightarrow> symbol_error + symbol_table" where
  "add_properties [] Prop st = Inr st"
| "add_properties (S # Ss) Prop st = (case symbol_AddProperty S Prop st of Inl e \<Rightarrow> Inl e | Inr st \<Rightarrow> add_properties Ss Prop st)"

definition fol_specs :: "(string \<times> bool \<times> int) list" where
  "fol_specs =
     [(''forall'', True, 2), (''exists'', True, 2), (''and'', True, symbol_ArbitraryArity), (''or'', True, symbol_ArbitraryArity),
      (''not'', True, 1), (''implies'', True, 2), (''implied'', True, 2), (''equiv'', True, 2), (''xor'', True, 2),
      (''nor'', True, 2), (''nand'', True, 2), ('''', True, symbol_ArbitraryArity), (''equal'', False, 2), (''nequal'', False, 2),
      (''true'', False, 0), (''false'', False, 0)]"

definition fol_record :: "SYMBOL list \<Rightarrow> fol_symbols" where
  "fol_record Ss =
     \<lparr>fol_All = Ss ! 0, fol_Exist = Ss ! 1, fol_And = Ss ! 2, fol_Or = Ss ! 3, fol_Not = Ss ! 4, fol_Implies = Ss ! 5,
      fol_Implied = Ss ! 6, fol_Equiv = Ss ! 7, fol_Xor = Ss ! 8, fol_Nor = Ss ! 9, fol_Nand = Ss ! 10, fol_Varlist = Ss ! 11,
      fol_Equality = Ss ! 12, fol_NonEquality = Ss ! 13, fol_True = Ss ! 14, fol_False = Ss ! 15\<rparr>"

definition equality_specs :: "(string \<times> bool \<times> int) list" where
  "equality_specs = [(''equal'', False, 2), (''not'', True, 1)]"

text \<open>The global variables before the call are an argument, since without \<open>AllSymbols\<close> (\<open>All\<close> in the code) only two of them are set. The
  list is \<open>fol_SYMBOLS\<close>.\<close>

definition fol_Init ::
  "bool \<Rightarrow> PRECEDENCE \<Rightarrow> fol_symbols \<Rightarrow> symbol_table \<Rightarrow> symbol_error + fol_symbols \<times> SYMBOL list \<times> PRECEDENCE \<times> symbol_table" where
  "fol_Init AllSymbols Precedence F st =
     (if AllSymbols then
        (case create_symbols fol_specs Precedence st of
           Inl e \<Rightarrow> Inl e
         | Inr (Ss, Precedence, st) \<Rightarrow>
             let F = fol_record Ss in
             (case add_properties [fol_Equality F, fol_NonEquality F, fol_True F, fol_False F] PREDEFINED st of
                Inl e \<Rightarrow> Inl e
              | Inr st \<Rightarrow>
                  Inr (F, [fol_All F, fol_Exist F, fol_And F, fol_Or F, fol_Not F, fol_Implies F, fol_Implied F, fol_Equiv F,
                           fol_Varlist F, fol_Equality F, fol_True F, fol_False F], Precedence, st)))
      else
        (case create_symbols equality_specs Precedence st of
           Inl e \<Rightarrow> Inl e
         | Inr (Ss, Precedence, st) \<Rightarrow>
             let F = F\<lparr>fol_Equality := Ss ! 0, fol_Not := Ss ! 1\<rparr> in
             Inr (F, [fol_Not F, fol_Equality F], Precedence, st)))"

section \<open>The symbols are different and of the right kind\<close>

lemma create_room:
  assumes "symbol_SignatureCreate n t a s P st = Inr (S, P', st')"
  shows "symbol_ACTINDEX st' \<le> symbol_ACTINDEX st + 1"
  using assms
  by (cases "symbol_FREEDSYMBOLS st")
    (auto simp: symbol_SignatureCreate_def symbol_SetSignature_def symbol_SetIncreasedOrdering_def Let_def split: if_splits)

lemma create_symbols_ok:
  assumes "symtab_inv P st" "symbol_ACTINDEX st + int (length specs) \<le> symbol_MAXSIGNATURE"
  shows "\<exists>Ss P' st'. create_symbols specs P st = Inr (Ss, P', st') \<and> symtab_inv P' st' \<and> length Ss = length specs \<and> distinct Ss
    \<and> (\<forall>i < length specs. (if fst (snd (specs ! i)) then symbol_IsJunctor (Ss ! i) else symbol_IsPredicate (Ss ! i))
         \<and> symbol_SIGNATURE st' (symbol_Index (Ss ! i)) = Some (new_entry (fst (specs ! i)) (snd (snd (specs ! i))) (Ss ! i))
         \<and> symbol_SIGNATURE st (symbol_Index (Ss ! i)) = None)
    \<and> (\<forall>i e. symbol_SIGNATURE st i = Some e \<longrightarrow> symbol_SIGNATURE st' i = Some e)"
  using assms
proof (induction specs arbitrary: P st)
  case (Cons spec specs)
  obtain n j a where spec: "spec = (n, j, a)" by (cases spec) auto
  define t where "t = (if j then symbol_JUNCTOR else symbol_PREDICATE)"
  have t: "0 \<le> t" "t < 4" "0 \<le> symbol_STATLEX" "symbol_STATLEX < 2" by (simp_all add: t_def symbol_consts)
  have room: "symbol_ACTINDEX st < symbol_MAXSIGNATURE \<or> symbol_FREEDSYMBOLS st \<noteq> []" using Cons.prems(2) by simp
  obtain i S P1 st1 where c: "symbol_SignatureCreate n t a symbol_STATLEX P st = Inr (S, P1, st1)" "S = symbol_SignatureSymbol i t symbol_STATLEX"
      "1 \<le> i" "symbol_SIGNATURE st i = None" "symbol_SIGNATURE st1 = (symbol_SIGNATURE st)(i := Some (new_entry n a S))" "symtab_inv P1 st1"
    using symbol_SignatureCreate_ok [OF Cons.prems(1) t room, of n a] by blast
  have S: "symbol_Index S = i" "symbol_Type S = t" "S < 0"
    using symbol_encoding [of i t symbol_STATLEX] c(2,3) t by auto
  have kind: "if j then symbol_IsJunctor S else symbol_IsPredicate S"
    using S by (simp add: t_def symbol_IsJunctor_def symbol_IsPredicate_def symbol_IsSignature_def)
  have "symbol_ACTINDEX st1 + int (length specs) \<le> symbol_MAXSIGNATURE" using create_room [OF c(1)] Cons.prems(2) by simp
  then obtain Ss P' st' where r: "create_symbols specs P1 st1 = Inr (Ss, P', st')" "symtab_inv P' st'" "length Ss = length specs" "distinct Ss"
      "\<And>i. i < length specs \<Longrightarrow> (if fst (snd (specs ! i)) then symbol_IsJunctor (Ss ! i) else symbol_IsPredicate (Ss ! i))
         \<and> symbol_SIGNATURE st' (symbol_Index (Ss ! i)) = Some (new_entry (fst (specs ! i)) (snd (snd (specs ! i))) (Ss ! i))
         \<and> symbol_SIGNATURE st1 (symbol_Index (Ss ! i)) = None"
      "\<And>i e. symbol_SIGNATURE st1 i = Some e \<Longrightarrow> symbol_SIGNATURE st' i = Some e"
    using Cons.IH [OF c(6)] by blast
  have new: "S \<noteq> Ss ! k \<and> symbol_SIGNATURE st (symbol_Index (Ss ! k)) = None" if "k < length specs" for k
    using r(5) [OF that] c(5) S(1) by (auto split: if_splits)
  have "S \<notin> set Ss" using new r(3) by (metis in_set_conv_nth)
  moreover have run: "create_symbols (spec # specs) P st = Inr (S # Ss, P', st')"
    using c(1) r(1) by (simp add: spec t_def symbol_CreateJunctor_def symbol_CreatePredicate_def split: if_splits)
  moreover have "symbol_SIGNATURE st' i = Some e" if "symbol_SIGNATURE st i = Some e" for i e
    using that r(6) [of i e] c(4,5) by (cases "i = symbol_Index S") (auto simp: S(1))
  moreover have "symbol_SIGNATURE st' (symbol_Index S) = Some (new_entry n a S)" using r(6) c(5) S(1) by simp
  ultimately show ?case using r(2-5) new kind c(4) S(1) spec
    by (intro exI [of _ "S # Ss"] exI [of _ P'] exI [of _ st']) (auto simp: nth_Cons split: nat.split)
qed simp

lemma add_properties_ok:
  assumes "\<forall>S \<in> set Ss. \<exists>e. symbol_SIGNATURE st (symbol_Index S) = Some e"
  shows "\<exists>st'. add_properties Ss Prop st = Inr st'
    \<and> (\<forall>i. symbol_SIGNATURE st' i = None \<longleftrightarrow> symbol_SIGNATURE st i = None)
    \<and> (\<forall>i e. symbol_SIGNATURE st i = Some e \<longrightarrow>
         symbol_SIGNATURE st' i = Some (if i \<in> symbol_Index ` set Ss then add_property e Prop else e))"
  using assms
proof (induction Ss arbitrary: st)
  case (Cons S Ss)
  obtain e where e: "symbol_SIGNATURE st (symbol_Index S) = Some e" using Cons.prems by auto
  let ?st = "st\<lparr>symbol_SIGNATURE := (symbol_SIGNATURE st)(symbol_Index S := Some (add_property e Prop))\<rparr>"
  have run: "add_properties (S # Ss) Prop st = add_properties Ss Prop ?st"
    using e by (simp add: symbol_AddProperty_def symbol_Signature_def symbol_SetSignature_def)
  obtain st' where st': "add_properties Ss Prop ?st = Inr st'"
      "\<forall>i. symbol_SIGNATURE st' i = None \<longleftrightarrow> symbol_SIGNATURE ?st i = None"
      "\<forall>i e. symbol_SIGNATURE ?st i = Some e \<longrightarrow>
         symbol_SIGNATURE st' i = Some (if i \<in> symbol_Index ` set Ss then add_property e Prop else e)"
    using Cons.IH [of ?st] Cons.prems by fastforce
  show ?case unfolding run
  proof (intro exI [of _ st'] conjI allI impI st'(1))
    fix i show "symbol_SIGNATURE st' i = None \<longleftrightarrow> symbol_SIGNATURE st i = None" using st'(2) e by auto
  next
    fix i d assume d: "symbol_SIGNATURE st i = Some d"
    show "symbol_SIGNATURE st' i = Some (if i \<in> symbol_Index ` set (S # Ss) then add_property d Prop else d)"
    proof (cases "i = symbol_Index S")
      case True
      then show ?thesis using st'(3) [rule_format, of i "add_property e Prop"] d e by (auto simp: add_property_def or.assoc)
    next
      case False
      then show ?thesis using st'(3) [rule_format, of i d] d by auto
    qed
  qed
qed simp

section \<open>The whole start\<close>

lemma upto16: "[0..<16] = [0, 1, 2, 3, 4, 5, 6, 7, 8, 9, 10, 11, 12, 13, 14, 15]"
  by (simp add: upt_rec)

lemma fol_Init_all:
  assumes "symbol_reachable P st" "symbol_ACTINDEX st + 16 \<le> symbol_MAXSIGNATURE"
  shows "\<exists>F Ss P' st'. fol_Init True P F0 st = Inr (F, Ss, P', st') \<and> fol_ok F
    \<and> (\<forall>s \<in> set (fol_junctors F @ fol_predicates F). (\<exists>e. symbol_SIGNATURE st' (symbol_Index s) = Some e \<and> sig_info e = s)
         \<and> (symbol_HasProperty st' s PREDEFINED \<longleftrightarrow> s \<in> set (fol_predicates F)))
    \<and> (\<forall>i e. symbol_SIGNATURE st i = Some e \<longrightarrow> symbol_SIGNATURE st' i = Some e)"
proof -
  have inv: "symtab_inv P st" by (rule symbol_reachable_inv [OF assms(1)])
  have len: "length fol_specs = 16" by (simp add: fol_specs_def)
  obtain Ss P' st1 where c: "create_symbols fol_specs P st = Inr (Ss, P', st1)" "symtab_inv P' st1" "length Ss = 16" "distinct Ss"
      "\<forall>i < 16. (if fst (snd (fol_specs ! i)) then symbol_IsJunctor (Ss ! i) else symbol_IsPredicate (Ss ! i))
         \<and> symbol_SIGNATURE st1 (symbol_Index (Ss ! i)) = Some (new_entry (fst (fol_specs ! i)) (snd (snd (fol_specs ! i))) (Ss ! i))
         \<and> symbol_SIGNATURE st (symbol_Index (Ss ! i)) = None"
      "\<forall>i e. symbol_SIGNATURE st i = Some e \<longrightarrow> symbol_SIGNATURE st1 i = Some e"
    using create_symbols_ok [OF inv, of fol_specs] assms(2) unfolding len by auto
  define F where "F = fol_record Ss"
  have all: "fol_junctors F @ fol_predicates F = Ss"
    using map_nth [of Ss] unfolding c(3) F_def fol_record_def fol_junctors_def fol_predicates_def upto16 by simp
  have junctors: "fol_junctors F = take 12 Ss" and predicates: "fol_predicates F = drop 12 Ss"
    using arg_cong [OF all, of "take 12"] arg_cong [OF all, of "drop 12"] c(3) by (simp_all add: fol_junctors_def)
  have entry: "\<exists>e. symbol_SIGNATURE st1 (symbol_Index s) = Some e \<and> sig_info e = s \<and> sig_props e = 0
      \<and> symbol_SIGNATURE st (symbol_Index s) = None" if "s \<in> set Ss" for s
    using c(3,5) that by (auto simp: in_set_conv_nth new_entry_def)
  have jk: "symbol_IsJunctor (Ss ! i)" if "i < 12" for i
  proof -
    have "fst (snd (fol_specs ! i))" using that by (auto simp: fol_specs_def less_Suc_eq numeral_eq_Suc)
    then show ?thesis using c(5) that by simp
  qed
  have pk: "symbol_IsPredicate (Ss ! i)" if "12 \<le> i" "i < 16" for i
  proof -
    have "\<not> fst (snd (fol_specs ! i))" using that by (auto simp: fol_specs_def less_Suc_eq numeral_eq_Suc)
    then show ?thesis using c(5) that by simp
  qed
  have "\<forall>s \<in> set (fol_junctors F). symbol_IsJunctor s" unfolding junctors using jk c(3) by (auto simp: in_set_conv_nth)
  moreover have pr: "\<forall>s \<in> set (fol_predicates F). symbol_IsPredicate s" unfolding predicates using pk c(3) by (auto simp: in_set_conv_nth)
  moreover have "distinct (fol_junctors F)" "distinct (fol_predicates F)" unfolding junctors predicates using c(4) by simp_all
  ultimately have ok: "fol_ok F" by (simp add: fol_ok_def)
  obtain st' where st': "add_properties (fol_predicates F) PREDEFINED st1 = Inr st'"
      "\<forall>i e. symbol_SIGNATURE st1 i = Some e \<longrightarrow>
         symbol_SIGNATURE st' i = Some (if i \<in> symbol_Index ` set (fol_predicates F) then add_property e PREDEFINED else e)"
    using add_properties_ok [of "fol_predicates F" st1 PREDEFINED] entry all by (metis Un_iff set_append)
  have index: "symbol_Index s \<in> symbol_Index ` set (fol_predicates F) \<longleftrightarrow> s \<in> set (fol_predicates F)" if s: "s \<in> set Ss" for s
  proof
    assume "symbol_Index s \<in> symbol_Index ` set (fol_predicates F)"
    then obtain p where p: "p \<in> set (fol_predicates F)" "symbol_Index s = symbol_Index p" by auto
    then have "p \<in> set Ss" using all by (metis Un_iff set_append)
    then obtain d where d: "symbol_SIGNATURE st1 (symbol_Index p) = Some d" "sig_info d = p" using entry by blast
    obtain e where e: "symbol_SIGNATURE st1 (symbol_Index s) = Some e" "sig_info e = s" using entry [OF s] by blast
    have "d = e" using d(1) e(1) p(2) by simp
    then have "s = p" using d(2) e(2) by simp
    then show "s \<in> set (fol_predicates F)" using p(1) by simp
  qed simp
  have props: "(\<exists>e. symbol_SIGNATURE st' (symbol_Index s) = Some e \<and> sig_info e = s)
      \<and> (symbol_HasProperty st' s PREDEFINED \<longleftrightarrow> s \<in> set (fol_predicates F))" if s: "s \<in> set Ss" for s
  proof -
    obtain e where e: "symbol_SIGNATURE st1 (symbol_Index s) = Some e" "sig_info e = s" "sig_props e = 0" using entry [OF s] by blast
    obtain e' where e': "symbol_SIGNATURE st' (symbol_Index s) = Some e'" "sig_info e' = s"
        "sig_props e' = (if s \<in> set (fol_predicates F) then PREDEFINED else 0)"
      using st'(2) [rule_format, OF e(1)] e(2,3) index [OF s] by (auto simp: add_property_def)
    then show ?thesis by (simp add: symbol_HasProperty_def symbol_Signature_def has_property_def PREDEFINED_def)
  qed
  have run: "\<exists>Ss'. fol_Init True P F0 st = Inr (F, Ss', P', st')"
    using c(1) st'(1) by (simp add: fol_Init_def F_def [symmetric] fol_predicates_def Let_def del: add_properties.simps)
  have old: "symbol_SIGNATURE st' i = Some e" if i: "symbol_SIGNATURE st i = Some e" for i e
  proof -
    have "i \<notin> symbol_Index ` set (fol_predicates F)"
    proof
      assume "i \<in> symbol_Index ` set (fol_predicates F)"
      then obtain s where s: "s \<in> set (fol_predicates F)" "i = symbol_Index s" by auto
      then have "s \<in> set Ss" using all by (metis Un_iff set_append)
      then show False using entry [of s] s(2) i by auto
    qed
    then show ?thesis using c(6) st'(2) i by auto
  qed
  obtain Ss' where run': "fol_Init True P F0 st = Inr (F, Ss', P', st')" using run by blast
  show ?thesis
    by (intro exI [of _ F] exI [of _ Ss'] exI [of _ P'] exI [of _ st'] conjI ballI allI impI run' ok)
      (use props old all in auto)
qed

lemma fol_Init_equality:
  assumes "symbol_reachable P st" "symbol_ACTINDEX st + 2 \<le> symbol_MAXSIGNATURE"
  shows "\<exists>E N P' st'. fol_Init False P F0 st = Inr (F0\<lparr>fol_Equality := E, fol_Not := N\<rparr>, [N, E], P', st')
    \<and> symbol_IsPredicate E \<and> symbol_IsJunctor N \<and> \<not> symbol_HasProperty st' E PREDEFINED
    \<and> (\<forall>s \<in> {E, N}. symbol_SIGNATURE st (symbol_Index s) = None \<and> (\<exists>e. symbol_SIGNATURE st' (symbol_Index s) = Some e \<and> sig_info e = s))
    \<and> (\<forall>i e. symbol_SIGNATURE st i = Some e \<longrightarrow> symbol_SIGNATURE st' i = Some e)"
proof -
  have len: "length equality_specs = 2" by (simp add: equality_specs_def)
  obtain Ss P' st' where c: "create_symbols equality_specs P st = Inr (Ss, P', st')" "length Ss = 2"
      "\<forall>i < 2. (if fst (snd (equality_specs ! i)) then symbol_IsJunctor (Ss ! i) else symbol_IsPredicate (Ss ! i))
         \<and> symbol_SIGNATURE st' (symbol_Index (Ss ! i))
             = Some (new_entry (fst (equality_specs ! i)) (snd (snd (equality_specs ! i))) (Ss ! i))
         \<and> symbol_SIGNATURE st (symbol_Index (Ss ! i)) = None"
      "\<forall>i e. symbol_SIGNATURE st i = Some e \<longrightarrow> symbol_SIGNATURE st' i = Some e"
    using create_symbols_ok [OF symbol_reachable_inv [OF assms(1)], of equality_specs] assms(2) unfolding len by auto
  have new: "symbol_IsPredicate (Ss ! 0)" "symbol_IsJunctor (Ss ! 1)"
      "symbol_SIGNATURE st' (symbol_Index (Ss ! 0)) = Some (new_entry ''equal'' 2 (Ss ! 0))"
      "symbol_SIGNATURE st' (symbol_Index (Ss ! 1)) = Some (new_entry ''not'' 1 (Ss ! 1))"
      "symbol_SIGNATURE st (symbol_Index (Ss ! 0)) = None" "symbol_SIGNATURE st (symbol_Index (Ss ! 1)) = None"
    using c(3) [rule_format, of 0] c(3) [rule_format, of 1] by (simp_all add: equality_specs_def)
  have run: "fol_Init False P F0 st = Inr (F0\<lparr>fol_Equality := Ss ! 0, fol_Not := Ss ! 1\<rparr>, [Ss ! 1, Ss ! 0], P', st')"
    using c(1) by (simp add: fol_Init_def Let_def)
  have "\<not> symbol_HasProperty st' (Ss ! 0) PREDEFINED"
    using new(3) by (simp add: symbol_HasProperty_def symbol_Signature_def has_property_def new_entry_def)
  then show ?thesis using run new c(4)
    by (intro exI [of _ "Ss ! 0"] exI [of _ "Ss ! 1"] exI [of _ P'] exI [of _ st'] conjI) (auto simp: new_entry_def)
qed

text \<open>C39: from every state of the signature table that has room for sixteen symbols, \<open>fol_Init\<close> succeeds. With \<open>AllSymbols\<close> the
  sixteen symbols it creates are different, twelve are junctors and four are predicates, their entries are in
  the table, and exactly the predicates carry the property \<open>PREDEFINED\<close>. Without it, it creates the equality
  and, besides what its comment says, the negation; the other global variables keep their values, and the
  equality is not marked as predefined. In both cases every older entry is still in the table, unchanged.\<close>

theorem fol_Init_correct:
  assumes "symbol_reachable P st" "symbol_ACTINDEX st + 16 \<le> symbol_MAXSIGNATURE"
  shows "(\<exists>F Ss P' st'. fol_Init True P F0 st = Inr (F, Ss, P', st') \<and> fol_ok F
      \<and> (\<forall>s \<in> set (fol_junctors F @ fol_predicates F). (\<exists>e. symbol_SIGNATURE st' (symbol_Index s) = Some e \<and> sig_info e = s)
           \<and> (symbol_HasProperty st' s PREDEFINED \<longleftrightarrow> s \<in> set (fol_predicates F)))
      \<and> (\<forall>i e. symbol_SIGNATURE st i = Some e \<longrightarrow> symbol_SIGNATURE st' i = Some e))
    \<and> (\<exists>E N P' st'. fol_Init False P F0 st = Inr (F0\<lparr>fol_Equality := E, fol_Not := N\<rparr>, [N, E], P', st')
      \<and> symbol_IsPredicate E \<and> symbol_IsJunctor N \<and> \<not> symbol_HasProperty st' E PREDEFINED
      \<and> (\<forall>s \<in> {E, N}. symbol_SIGNATURE st (symbol_Index s) = None \<and> (\<exists>e. symbol_SIGNATURE st' (symbol_Index s) = Some e \<and> sig_info e = s))
      \<and> (\<forall>i e. symbol_SIGNATURE st i = Some e \<longrightarrow> symbol_SIGNATURE st' i = Some e))"
  using fol_Init_all [OF assms] fol_Init_equality [OF assms(1)] assms(2) by simp

theorem fol_Init_correct_witness:
  "\<forall>F0. \<exists>F Ss P' st'. fol_Init True (\<lambda>i. 0) F0 (symbol_Init True) = Inr (F, Ss, P', st') \<and> fol_ok F
     \<and> symbol_HasProperty st' (fol_True F) PREDEFINED"
proof
  fix F0
  have "symbol_ACTINDEX (symbol_Init True) + 16 \<le> symbol_MAXSIGNATURE" by (simp add: symbol_Init_def symbol_consts)
  from conjunct1 [OF fol_Init_correct [OF symbol_reachable.init this, of "\<lambda>i. 0" F0]]
  show "\<exists>F Ss P' st'. fol_Init True (\<lambda>i. 0) F0 (symbol_Init True) = Inr (F, Ss, P', st') \<and> fol_ok F
     \<and> symbol_HasProperty st' (fol_True F) PREDEFINED"
    by (fastforce simp: fol_predicates_def)
qed

end
