(* ===== verification/Spass_CNF_Properties.thy ===== *)
theory Spass_CNF_Properties
  imports Spass_CNF_Quantors Spass_CNF_Negation Spass_Formula_Init
begin

text \<open>
  The properties of the first part of the clause normal form translation. Equivalence means the same truth
  in every interpretation over the type of values and under every assignment.
\<close>

declare split_paired_All [simp del] split_paired_Ex [simp del]

section \<open>Symbols for the examples\<close>

text \<open>The symbols that \<open>fol_Init\<close> creates in an empty table, a predicate and a variable.\<close>

definition sample_fol :: fol_symbols where
  "sample_fol =
     \<lparr>fol_All = - 11, fol_Exist = - 19, fol_And = - 27, fol_Or = - 35, fol_Not = - 43, fol_Implies = - 51, fol_Implied = - 59,
      fol_Equiv = - 67, fol_Xor = - 75, fol_Nor = - 83, fol_Nand = - 91, fol_Varlist = - 99, fol_Equality = - 106,
      fol_NonEquality = - 114, fol_True = - 122, fol_False = - 130\<rparr>"

lemma sample_fol_Init: "map_sum id fst (fol_Init True (\<lambda>i. 0) sample_fol (symbol_Init True)) = Inr sample_fol"
  by code_simp

lemma sample_fol_ok: "fol_ok sample_fol"
  by code_simp

definition sample_p :: "TERM_NODE list \<Rightarrow> TERM_NODE" where "sample_p ts = term_Create (- 138) ts"
definition sample_v :: "SYMBOL \<Rightarrow> TERM_NODE" where "sample_v s = term_Create s []"
definition sample_node :: "(fol_symbols \<Rightarrow> SYMBOL) \<Rightarrow> TERM_NODE list \<Rightarrow> TERM_NODE" where
  "sample_node f ts = term_Create (f sample_fol) ts"
definition sample_quantified :: "(fol_symbols \<Rightarrow> SYMBOL) \<Rightarrow> SYMBOL list \<Rightarrow> TERM_NODE \<Rightarrow> TERM_NODE" where
  "sample_quantified f xs t = fol_CreateQuantifier sample_fol (f sample_fol) (map sample_v xs) [t]"

text \<open>\<open>not (forall [1]. p(1) equiv q)\<close>\<close>

definition sample_equiv :: TERM_NODE where
  "sample_equiv = sample_node fol_Not [sample_quantified fol_All [1] (sample_node fol_Equiv [sample_p [sample_v 1], sample_p []])]"

lemma sample_equiv_ok: "fol_formula sample_fol sample_equiv" "without (other_junctors sample_fol) sample_equiv"
  by code_simp+

section \<open>Polarity, implications and equivalences\<close>

text \<open>C18: the search for the polarity of a node returns what the way from the root to it says, for every
  formula; it reports an error exactly at the nodes that have no polarity, such as terms and the
  arguments of junctors that it does not know.\<close>

theorem cnf_GetFormulaPolarity_correct:
  assumes "fol_ok F" "fol_formula F T"
  shows "cnf_GetFormulaPolarity F T g = polarity F T 1 g"
  by (rule cnf_GetFormulaPolarity_ok [OF assms])

theorem cnf_GetFormulaPolarity_correct_witness:
  "cnf_GetFormulaPolarity sample_fol sample_equiv [0, 1] = Some (- 1) \<and> cnf_GetFormulaPolarity sample_fol sample_equiv [0, 1, 0] = Some 0
    \<and> cnf_GetFormulaPolarity sample_fol sample_equiv [0, 0] = None"
  unfolding cnf_GetFormulaPolarity_correct [OF sample_fol_ok sample_equiv_ok(1)] by code_simp

text \<open>C19: the removal of implications and equivalences returns for every formula whose junctors are those it
  knows. The result is an equivalent formula without implications and equivalences.\<close>

theorem cnf_RemoveEquivImplFromFormula_correct:
  fixes I :: "'a interp"
  assumes "fol_ok F" "fol_formula F T" "without (other_junctors F) T"
  shows "\<exists>T'. cnf_RemoveEquivImplFromFormula F T = Some T' \<and> fol_formula F T' \<and> (\<forall>v. holds F I v T' = holds F I v T)
    \<and> without ({fol_Implies F, fol_Equiv F} \<union> other_junctors F) T'"
  using cnf_RemoveEquivImplFromFormula_ok [OF assms, of I] by metis

theorem cnf_RemoveEquivImplFromFormula_correct_witness:
  "\<forall>I :: nat interp. \<exists>T'. cnf_RemoveEquivImplFromFormula sample_fol sample_equiv = Some T'
    \<and> (\<forall>v. holds sample_fol I v T' = holds sample_fol I v sample_equiv)"
  using cnf_RemoveEquivImplFromFormula_correct [OF sample_fol_ok sample_equiv_ok] by blast

text \<open>C20: the translation to negation normal form returns for every formula. The result is an equivalent formula
  in which no negation stands above a negation, quantifier, conjunction or disjunction, and it has no
  junctor of another kind that was not there before. So from a formula without implications and the like it
  makes one in which negations only stand above atoms.\<close>

theorem cnf_NegationNormalFormula_correct:
  fixes I :: "'a interp"
  assumes "fol_ok F" "X \<inter> nnf_junctors F = {}" "fol_formula F T" "without X T"
  shows "\<exists>T'. cnf_NegationNormalFormula F T = Some T' \<and> fol_formula F T' \<and> (\<forall>v. holds F I v T' = holds F I v T) \<and> without X T'
    \<and> (\<forall>g x. term_at T' g = Some x \<and> term_TopSymbol x = fol_Not F
         \<longrightarrow> (\<exists>a. term_ArgumentList x = [a] \<and> term_TopSymbol a \<notin> nnf_junctors F
              \<and> (X = {fol_Implies F, fol_Equiv F} \<union> other_junctors F \<longrightarrow> symbol_IsPredicate (term_TopSymbol a))))"
proof -
  obtain T' where T': "cnf_NegationNormalFormula F T = Some T'" "fol_formula F T'" "\<And>v. holds F I v T' = holds F I v T" "without X T'"
      "\<And>g x. term_at T' g = Some x \<Longrightarrow> \<not> nnf_bad F x"
    using cnf_NegationNormalFormula_ok [OF assms, of I] by blast
  have "\<exists>a. term_ArgumentList x = [a] \<and> term_TopSymbol a \<notin> nnf_junctors F
      \<and> (X = {fol_Implies F, fol_Equiv F} \<union> other_junctors F \<longrightarrow> symbol_IsPredicate (term_TopSymbol a))"
    if x: "term_at T' g = Some x" "term_TopSymbol x = fol_Not F" for g x
  proof -
    obtain a where a: "term_ArgumentList x = [a]" "fol_formula F a" using formula_not_at [OF assms(1) T'(2) x] by blast
    have n: "term_TopSymbol a \<notin> nnf_junctors F" using T'(5) [OF x(1)] x(2) a(1) by (auto simp: nnf_bad_def)
    have "symbol_IsPredicate (term_TopSymbol a)" if X: "X = {fol_Implies F, fol_Equiv F} \<union> other_junctors F"
    proof -
      have "without X a" using without_at [OF T'(4) x(1)] a(1) by (cases x) simp
      then have m: "term_TopSymbol a \<notin> X" by (cases a) simp
      show ?thesis using a(2) by (cases rule: fol_formula_cases) (use m n in \<open>auto simp: X nnf_junctors_def other_junctors_def\<close>)
    qed
    then show ?thesis using a(1) n by blast
  qed
  then show ?thesis using T'(1-4) by blast
qed

theorem cnf_NegationNormalFormula_correct_witness:
  "\<forall>I :: nat interp. \<exists>T'. cnf_NegationNormalFormula sample_fol sample_equiv = Some T' \<and> fol_formula sample_fol T'
    \<and> (\<forall>v. holds sample_fol I v T' = holds sample_fol I v sample_equiv)"
proof -
  have "other_junctors sample_fol \<inter> nnf_junctors sample_fol = {}" by code_simp
  from cnf_NegationNormalFormula_correct [OF sample_fol_ok this sample_equiv_ok] show ?thesis by blast
qed

section \<open>Simplifications\<close>

lemma cnf_ObviousSimplifications_ok:
  assumes F: "fol_ok F" and T: "fol_formula F T"
  obtains T' where "cnf_ObviousSimplifications F T = Some T'" "fol_formula F T'" "\<And>v. holds F I v T' = holds F I v T"
    "no_single F T'" "used F T'"
    "without (other_junctors F) T \<Longrightarrow> without (other_junctors F) T' \<and> (term_TopSymbol T' \<in> constants F \<or> without (constants F) T')"
proof -
  obtain T1 where T1: "cnf_RemoveTrivialAtoms F T = Some T1" "atoms_removed F I T T1"
    using cnf_RemoveTrivialAtoms_ok [OF F T] by blast
  have f1: "fol_formula F T1" using T1(2) by (simp add: atoms_removed_def)
  obtain T2 where T2: "cnf_RemoveTrivialOperators F T1 = Some T2" "operators_removed F I T1 T2"
    using cnf_RemoveTrivialOperators_ok [OF F f1] by blast
  have f2: "fol_formula F T2" using T2(2) by (simp add: operators_removed_def)
  obtain T3 where T3: "cnf_SimplifyQuantors F T2 = Some T3" "quantors_simplified F I T2 T3"
    using cnf_SimplifyQuantors_ok [OF F f2] by blast
  have run: "cnf_ObviousSimplifications F T = Some T3" using T1(1) T2(1) T3(1) by (simp add: cnf_ObviousSimplifications_def)
  have keep: "without X T1 \<Longrightarrow> without X T3" for X using T2(2) T3(2) by (simp add: operators_removed_def quantors_simplified_def)
  have const: "T3 = T1" if "term_TopSymbol T1 \<in> constants F"
  proof -
    have "symbol_IsPredicate (term_TopSymbol T1)" using that fol_symbol_kinds(3,4) [OF F] by (auto simp: constants_def)
    then have "T2 = T1" using T2(1) by (subst (asm) cnf_RemoveTrivialOperators.simps) simp
    then show ?thesis using T3(1) SimplifyQuantors_same [of T1 F] \<open>symbol_IsPredicate (term_TopSymbol T1)\<close> by simp
  qed
  have "without (other_junctors F) T3 \<and> (term_TopSymbol T3 \<in> constants F \<or> without (constants F) T3)" if "without (other_junctors F) T"
    using T1(2) that keep const unfolding atoms_removed_def by metis
  then show thesis using that run T1(2) T2(2) T3(2) by (simp add: atoms_removed_def operators_removed_def quantors_simplified_def)
qed

text \<open>C21: the simplifications before the translation return for every formula and keep its truth. In the result
  no conjunction or disjunction has a single argument, every variable of a quantifier occurs freely in the
  formula below it, and the atoms true and false are gone or all that is left (when the formula has none of
  the junctors that the propagation does not know).\<close>

theorem cnf_ObviousSimplifications_correct:
  fixes I :: "'a interp"
  assumes "fol_ok F" "fol_formula F T"
  shows "\<exists>T'. cnf_ObviousSimplifications F T = Some T' \<and> fol_formula F T' \<and> (\<forall>v. holds F I v T' = holds F I v T)
    \<and> no_single F T' \<and> used F T'
    \<and> (without (other_junctors F) T \<longrightarrow> term_TopSymbol T' \<in> {fol_True F, fol_False F} \<or> without {fol_True F, fol_False F} T')"
proof -
  obtain T' where "cnf_ObviousSimplifications F T = Some T'" "fol_formula F T'" "\<And>v. holds F I v T' = holds F I v T"
    "no_single F T'" "used F T'"
    "without (other_junctors F) T \<Longrightarrow> without (other_junctors F) T' \<and> (term_TopSymbol T' \<in> constants F \<or> without (constants F) T')"
    using cnf_ObviousSimplifications_ok [OF assms, of I] by blast
  then show ?thesis by (intro exI [of _ T']) (simp add: constants_def)
qed

text \<open>\<open>forall [1, 2]. and (or (p(1), false), implies (true, exists [1]. p(1)))\<close> becomes \<open>forall [1]. and (p(1), exists [1]. p(1))\<close>.\<close>

definition sample_trivial :: TERM_NODE where
  "sample_trivial = sample_quantified fol_All [1, 2]
     (sample_node fol_And [sample_node fol_Or [sample_p [sample_v 1], sample_node fol_False []],
        sample_node fol_Implies [sample_node fol_True [], sample_quantified fol_Exist [1] (sample_p [sample_v 1])]])"

theorem cnf_ObviousSimplifications_correct_witness:
  "\<forall>I :: nat interp. \<exists>T'. cnf_ObviousSimplifications sample_fol sample_trivial = Some T'
    \<and> (\<forall>v. holds sample_fol I v T' = holds sample_fol I v sample_trivial)
    \<and> erase T' = sample_quantified fol_All [1] (sample_node fol_And [sample_p [sample_v 1], sample_quantified fol_Exist [1] (sample_p [sample_v 1])])"
proof -
  have f: "fol_formula sample_fol sample_trivial" by code_simp
  have "map_option erase (cnf_ObviousSimplifications sample_fol sample_trivial)
    = Some (sample_quantified fol_All [1] (sample_node fol_And [sample_p [sample_v 1], sample_quantified fol_Exist [1] (sample_p [sample_v 1])]))"
    by code_simp
  then obtain T' where T': "cnf_ObviousSimplifications sample_fol sample_trivial = Some T'"
      "erase T' = sample_quantified fol_All [1] (sample_node fol_And [sample_p [sample_v 1], sample_quantified fol_Exist [1] (sample_p [sample_v 1])])"
    by auto
  have "\<forall>v. holds sample_fol I v T' = holds sample_fol I v sample_trivial" for I :: "nat interp"
    using cnf_ObviousSimplifications_correct [OF sample_fol_ok f, of I] T'(1) by (metis option.inject)
  then show ?thesis using T' by blast
qed

end
