(* ===== verification/Spass_CNF_Distribute_Stack.thy ===== *)
theory Spass_CNF_Distribute_Stack
  imports Spass_CNF_Distribute_Tree Spass_CNF_Properties
begin

text \<open>
  The stack of disjunctions: emptying it turns every disjunction, the inner ones first, into a
  conjunction of clauses. The correctness of \<open>cnf_DistributiveFormula\<close> as a whole follows.
\<close>

declare split_paired_All [simp del] split_paired_Ex [simp del]

section \<open>A disjunction whose arguments are done\<close>

lemma cnf_form_args: "fol_ok F \<Longrightarrow> cnf_form ar F t \<Longrightarrow> term_TopSymbol t = fol_And F \<Longrightarrow> clauses ar F (term_ArgumentList t)"
  using clause_top [of F ar t] by (auto simp: cnf_form_def)

lemma cnf_form_literal: "fol_ok F \<Longrightarrow> cnf_form ar F t \<Longrightarrow> term_TopSymbol t \<noteq> fol_And F \<Longrightarrow> term_TopSymbol t \<noteq> fol_Or F \<Longrightarrow> literal ar F t"
  by (simp add: cnf_form_def clause_def)

lemma holds_And_args: "fol_ok F \<Longrightarrow> term_TopSymbol t = fol_And F \<Longrightarrow> holds F I v t \<longleftrightarrow> (\<forall>c \<in> set (term_ArgumentList t). holds F I v c)"
  by (cases t) (simp add: holds_simps)

lemma big_and_ok:
  assumes F: "fol_ok F" and us: "\<forall>t \<in> set us. cnf_form ar F t \<and> term_TopSymbol t \<noteq> fol_Or F"
    and AndList: "AndList = filter (\<lambda>t. symbol_Equal (term_TopSymbol t) (fol_And F)) us" "AndList \<noteq> []"
  shows "clauses ar F (cnf_MakeBigAndList F AndList)"
    "(\<forall>c \<in> set (cnf_MakeBigAndList F AndList). holds F I v c) \<longleftrightarrow> (\<exists>t \<in> set AndList. holds F I v t)"
proof -
  have tops: "term_TopSymbol t = fol_And F" "cnf_form ar F t" if "t \<in> set AndList" for t
    using that us AndList(1) by (simp_all add: symbol_Equal_def)
  have "\<forall>t \<in> set AndList. clauses ar F (term_ArgumentList t)" using tops cnf_form_args [OF F] by blast
  note ok = cnf_MakeBigAndList_ok [OF F AndList(2) this, of I]
  show "clauses ar F (cnf_MakeBigAndList F AndList)" using ok by blast
  have "(\<forall>c \<in> set (cnf_MakeBigAndList F AndList). holds F I v c) \<longleftrightarrow> (\<exists>t \<in> set AndList. \<forall>c \<in> set (term_ArgumentList t). holds F I v c)"
    using ok by blast
  also have "\<dots> \<longleftrightarrow> (\<exists>t \<in> set AndList. holds F I v t)" using holds_And_args [OF F tops(1)] by blast
  finally show "(\<forall>c \<in> set (cnf_MakeBigAndList F AndList). holds F I v c) \<longleftrightarrow> (\<exists>t \<in> set AndList. holds F I v t)" .
qed

definition transformed :: "fol_symbols \<Rightarrow> TERM_NODE \<Rightarrow> TERM_NODE list \<Rightarrow> TERM_NODE" where
  "transformed F Term ArgList =
     (let (AndList, AtomList) = cnf_SeparateAndTermsFromArgList F ArgList in
      if AndList \<noteq> [] then
        let Result = cnf_MakeBigAndList F AndList;
            Result = (if AtomList \<noteq> [] then cnf_AttachAtomList F Result AtomList else Result)
        in term_RplacArgumentList (term_RplacTop Term (fol_And F)) Result
      else term_RplacArgumentList Term AtomList)"

lemma transformed_ok:
  assumes F: "fol_ok F" and us: "us \<noteq> []" "\<forall>t \<in> set us. cnf_form ar F t \<and> term_TopSymbol t \<noteq> fol_Or F"
  shows "cnf_form ar F (transformed F (term_Node (fol_Or F) ts st sz) us)
    \<and> (\<forall>v. holds F I v (transformed F (term_Node (fol_Or F) ts st sz) us) \<longleftrightarrow> (\<exists>t \<in> set us. holds F I v t))"
proof -
  define AndList where "AndList = filter (\<lambda>t. symbol_Equal (term_TopSymbol t) (fol_And F)) us"
  define AtomList where "AtomList = filter (\<lambda>t. \<not> symbol_Equal (term_TopSymbol t) (fol_And F)) us"
  have split: "(\<exists>t \<in> set us. holds F I v t) \<longleftrightarrow> (\<exists>t \<in> set AndList. holds F I v t) \<or> (\<exists>t \<in> set AtomList. holds F I v t)" for v
    by (auto simp: AndList_def AtomList_def)
  have atoms: "\<forall>l \<in> set AtomList. literal ar F l" using us(2) cnf_form_literal [OF F] by (simp add: AtomList_def symbol_Equal_def)
  have sep: "cnf_SeparateAndTermsFromArgList F us = (AndList, AtomList)"
    by (simp add: cnf_SeparateAndTermsFromArgList_def AndList_def AtomList_def)
  show ?thesis
  proof (cases "AndList = []")
    case True
    then have "AtomList \<noteq> []" using us(1) by (auto simp: AndList_def AtomList_def filter_empty_conv)
    then show ?thesis using True atoms split
      by (simp add: transformed_def sep term_RplacArgumentList_def cnf_form_def clause_def holds_simps [OF F])
  next
    case False
    define R where "R = (if AtomList \<noteq> [] then cnf_AttachAtomList F (cnf_MakeBigAndList F AndList) AtomList else cnf_MakeBigAndList F AndList)"
    note big = big_and_ok [OF F us(2) AndList_def False]
    have C: "clauses ar F R \<and> (\<forall>v. (\<forall>c \<in> set R. holds F I v c)
        \<longleftrightarrow> (\<forall>c \<in> set (cnf_MakeBigAndList F AndList). holds F I v c) \<or> (\<exists>t \<in> set AtomList. holds F I v t))"
      using cnf_AttachAtomList_ok [OF F big(1) atoms, of I] big(1) by (simp add: R_def)
    have R: "clauses ar F R" by (rule conjunct1 [OF C])
    have truth: "(\<forall>c \<in> set R. holds F I v c) \<longleftrightarrow> (\<exists>t \<in> set us. holds F I v t)" for v
      using conjunct2 [OF C] unfolding split big(2) by simp
    have "transformed F (term_Node (fol_Or F) ts st sz) us = term_Node (fol_And F) R st sz"
      using False by (simp add: transformed_def sep R_def term_RplacArgumentList_def term_RplacTop_def Let_def)
    then show ?thesis using R truth by (simp add: cnf_form_def holds_simps [OF F])
  qed
qed

lemma visit_ok:
  assumes F: "fol_ok F" and us: "us \<noteq> []" "\<forall>t \<in> set us. cnf_tree ar F t \<and> term_TopSymbol t \<noteq> fol_Or F"
  shows "\<exists>t'. cnf_TransformTree_visit F T p (term_Node (fol_Or F) us st sz) = Some (t', []) \<and> cnf_tree ar F t'
    \<and> (\<forall>v. holds F I v t' \<longleftrightarrow> (\<exists>t \<in> set us. holds F I v t))"
proof -
  define ok where "ok = (\<lambda>x x'. cnf_Flatten x (fol_And F) = Some x' \<and> cnf_form ar F x' \<and> term_TopSymbol x' \<noteq> fol_Or F
    \<and> (\<forall>v. holds F I v x' \<longleftrightarrow> holds F I v x))"
  have "\<forall>x \<in> set us. \<exists>x'. ok x x'"
  proof
    fix x assume x: "x \<in> set us"
    then show "\<exists>x'. ok x x'" using cnf_Flatten_ok [OF F, of ar x I] us(2) unfolding ok_def by metis
  qed
  then obtain g where g: "\<forall>x \<in> set us. ok x (g x)" using bchoice [of "set us" ok] by blast
  have "map_loop (\<lambda>t. cnf_Flatten t (fol_And F)) us = Some (map g us)" by (rule map_loop_Some) (use g in \<open>simp add: ok_def\<close>)
  then have v: "cnf_TransformTree_visit F T p (term_Node (fol_Or F) us st sz) = Some (transformed F (term_Node (fol_Or F) us st sz) (map g us), [])"
    by (simp add: cnf_TransformTree_visit_def transformed_def Let_def split: prod.split)
  have "map g us \<noteq> []" "\<forall>t \<in> set (map g us). cnf_form ar F t \<and> term_TopSymbol t \<noteq> fol_Or F" using us(1) g by (simp_all add: ok_def)
  note t = transformed_ok [OF F this, of us st sz I]
  have eq: "(\<exists>t \<in> set (map g us). holds F I v t) \<longleftrightarrow> (\<exists>t \<in> set us. holds F I v t)" for v using g by (simp add: ok_def)
  have "cnf_tree ar F (transformed F (term_Node (fol_Or F) us st sz) (map g us))" by (rule cnf_form_tree [OF F conjunct1 [OF t]])
  moreover have "\<forall>v. holds F I v (transformed F (term_Node (fol_Or F) us st sz) (map g us)) \<longleftrightarrow> (\<exists>t \<in> set us. holds F I v t)"
    using conjunct2 [OF t] unfolding eq .
  ultimately show ?thesis using v by (intro exI conjI)
qed

section \<open>Emptying the stack\<close>

lemma put_at_twice [simp]: "put_at (put_at T p a) p b = put_at T p b"
proof (induction T p b rule: put_at.induct)
  case (2 t i p b)
  then show ?case by (cases t) (simp add: term_RplacArgumentList_def)
qed simp

definition done_at :: "(SYMBOL \<Rightarrow> nat) \<Rightarrow> fol_symbols \<Rightarrow> 'd interp \<Rightarrow> TERM_NODE \<Rightarrow> TERM_NODE \<Rightarrow> bool" where
  "done_at ar F I t t' \<longleftrightarrow> cnf_tree ar F t' \<and> (term_TopSymbol t \<noteq> fol_Or F \<longrightarrow> term_TopSymbol t' = term_TopSymbol t)
     \<and> (\<forall>v. holds F I v t' \<longleftrightarrow> holds F I v t)"

definition transforms :: "(SYMBOL \<Rightarrow> nat) \<Rightarrow> fol_symbols \<Rightarrow> 'd interp \<Rightarrow> TERM_NODE \<Rightarrow> bool" where
  "transforms ar F I t \<longleftrightarrow> (\<forall>T p rest. term_at T p = Some t \<longrightarrow> (\<exists>t'. done_at ar F I t t'
     \<and> edit_stack (cnf_TransformTree_visit F) (map ((@) p) (or_positions F t) @ rest) T
       = edit_stack (cnf_TransformTree_visit F) rest (put_at T p t')))"

lemma transforms_args:
  assumes ts: "\<forall>t \<in> set ts. transforms ar F I t"
  shows "k \<le> length ts \<Longrightarrow> length us = length ts \<Longrightarrow> \<forall>i < k. us ! i = ts ! i \<Longrightarrow> term_at T p = Some (term_Node s us st sz) \<Longrightarrow>
    \<exists>us'. length us' = length ts \<and> (\<forall>i < k. done_at ar F I (ts ! i) (us' ! i)) \<and> (\<forall>i < length ts. k \<le> i \<longrightarrow> us' ! i = us ! i)
      \<and> edit_stack (cnf_TransformTree_visit F) (map ((@) p) (concat (rev (map (\<lambda>i. map ((#) i) (or_positions F (ts ! i))) [0..<k]))) @ rest) T
        = edit_stack (cnf_TransformTree_visit F) rest (put_at T p (term_Node s us' st sz))"
proof (induction k arbitrary: us T)
  case 0
  then show ?case by (intro exI [of _ us]) simp
next
  case (Suc k)
  let ?e = "edit_stack (cnf_TransformTree_visit F)"
  let ?ps = "concat (rev (map (\<lambda>i. map ((#) i) (or_positions F (ts ! i))) [0..<k]))"
  have k: "k < length ts" "us ! k = ts ! k" using Suc.prems by simp_all
  have "term_at T (p @ [k]) = Some (ts ! k)" using Suc.prems(2,4) k by (simp add: term_at_append)
  then obtain c where c: "done_at ar F I (ts ! k) c"
      "?e (map ((@) (p @ [k])) (or_positions F (ts ! k)) @ map ((@) p) ?ps @ rest) T = ?e (map ((@) p) ?ps @ rest) (put_at T (p @ [k]) c)"
    using ts k(1) unfolding transforms_def by (meson nth_mem)
  let ?T = "put_at T p (term_Node s (us[k := c]) st sz)"
  have T: "put_at T (p @ [k]) c = ?T"
    using put_at_append [OF Suc.prems(4), of "[k]" c] Suc.prems(2) k(1) by (simp add: term_RplacArgumentList_def)
  obtain us' where us': "length us' = length ts" "\<forall>i < k. done_at ar F I (ts ! i) (us' ! i)"
      "\<forall>i < length ts. k \<le> i \<longrightarrow> us' ! i = us[k := c] ! i"
      "?e (map ((@) p) ?ps @ rest) ?T = ?e rest (put_at ?T p (term_Node s us' st sz))"
    using Suc.IH [of "us[k := c]" ?T] term_at_put [OF Suc.prems(4)] Suc.prems(1,2,3) by auto
  have k': "us' ! k = c" using us'(3) k(1) Suc.prems(2) by simp
  have shift: "map ((@) p) (map ((#) k) xs) = map ((@) (p @ [k])) xs" for xs by (induction xs) simp_all
  have stack: "map ((@) p) (concat (rev (map (\<lambda>i. map ((#) i) (or_positions F (ts ! i))) [0..<Suc k])))
      = map ((@) (p @ [k])) (or_positions F (ts ! k)) @ map ((@) p) ?ps"
    by (simp add: shift del: map_map)
  have "\<forall>i < Suc k. done_at ar F I (ts ! i) (us' ! i)" using us'(2) k' c(1) by (simp add: less_Suc_eq)
  moreover have "\<forall>i < length ts. Suc k \<le> i \<longrightarrow> us' ! i = us ! i" using us'(3) by simp
  moreover have "?e (map ((@) p) (concat (rev (map (\<lambda>i. map ((#) i) (or_positions F (ts ! i))) [0..<Suc k]))) @ rest) T
      = ?e rest (put_at T p (term_Node s us' st sz))"
    unfolding stack append_assoc c(2) T us'(4) by simp
  ultimately show ?case using us'(1) by blast
qed

lemma flat_tree_transforms:
  assumes F: "fol_ok F"
  shows "flat_tree ar F t \<Longrightarrow> transforms ar F I t"
proof (induction t)
  case (term_Node s ts st sz)
  let ?t = "term_Node s ts st sz"
  let ?e = "edit_stack (cnf_TransformTree_visit F)"
  show ?case
  proof (cases "s = fol_Or F \<or> s = fol_And F")
    case False
    then have l: "literal ar F ?t" using term_Node.prems by simp
    have "cnf_tree ar F ?t" using l clause_cnf_tree [OF F, of ar ?t] by (simp add: clause_def)
    then show ?thesis unfolding transforms_def done_at_def or_positions_plain [OF literal_without [OF F l]] by fastforce
  next
    case True
    have ne: "fol_And F \<noteq> fol_Or F" by (simp add: fol_neq [OF F])
    have ts: "ts \<noteq> []" "\<forall>x \<in> set ts. transforms ar F I x" "s = fol_Or F \<longrightarrow> (\<forall>x \<in> set ts. term_TopSymbol x \<noteq> fol_Or F)"
      using term_Node True ne by (auto split: if_splits)
    show ?thesis unfolding transforms_def
    proof (intro allI impI)
      fix T p rest assume at: "term_at T p = Some ?t"
      let ?last = "if s = fol_Or F then [p] else []"
      have stack: "map ((@) p) (or_positions F ?t) @ rest
          = map ((@) p) (concat (rev (map (\<lambda>i. map ((#) i) (or_positions F (ts ! i))) [0..<length ts]))) @ ?last @ rest"
        by simp
      obtain us where us: "length us = length ts" "\<forall>i < length ts. done_at ar F I (ts ! i) (us ! i)"
          "?e (map ((@) p) (or_positions F ?t) @ rest) T = ?e (?last @ rest) (put_at T p (term_Node s us st sz))"
        using transforms_args [OF ts(2) order_refl refl _ at, of "?last @ rest"] unfolding stack by blast
      have done_ex: "\<exists>x \<in> set ts. done_at ar F I x u" if "u \<in> set us" for u using that us(1,2) by (metis in_set_conv_nth)
      have ex_done: "\<exists>u \<in> set us. done_at ar F I x u" if "x \<in> set ts" for x using that us(1,2) by (metis in_set_conv_nth)
      have tree: "\<forall>u \<in> set us. cnf_tree ar F u" using done_ex by (auto simp: done_at_def)
      have all: "(\<forall>u \<in> set us. holds F I v u) \<longleftrightarrow> (\<forall>x \<in> set ts. holds F I v x)"
        and some: "(\<exists>u \<in> set us. holds F I v u) \<longleftrightarrow> (\<exists>x \<in> set ts. holds F I v x)" for v
        using done_ex ex_done unfolding done_at_def by blast+
      have ne': "us \<noteq> []" using us(1) ts(1) by auto
      show "\<exists>t'. done_at ar F I ?t t' \<and> ?e (map ((@) p) (or_positions F ?t) @ rest) T = ?e rest (put_at T p t')"
      proof (cases "s = fol_Or F")
        case True
        have "\<forall>u \<in> set us. cnf_tree ar F u \<and> term_TopSymbol u \<noteq> fol_Or F"
          using tree done_ex ts(3) True unfolding done_at_def by metis
        then obtain t' where t': "cnf_TransformTree_visit F (put_at T p (term_Node s us st sz)) p (term_Node s us st sz) = Some (t', [])"
            "cnf_tree ar F t'" "\<forall>v. holds F I v t' \<longleftrightarrow> (\<exists>t \<in> set us. holds F I v t)"
          using visit_ok [OF F ne', of ar "put_at T p (term_Node s us st sz)" p st sz I] True by blast
        have "?e (p # rest) (put_at T p (term_Node s us st sz)) = ?e rest (put_at T p t')"
          using t'(1) term_at_put [OF at] by (subst edit_stack.simps) simp
        moreover have "done_at ar F I ?t t'" using t'(2,3) some True by (simp add: done_at_def holds_simps [OF F])
        ultimately show ?thesis using us(3) True by auto
      next
        case False
        then have "done_at ar F I ?t (term_Node s us st sz)"
          using \<open>s = fol_Or F \<or> s = fol_And F\<close> tree ne' all by (simp add: done_at_def holds_simps [OF F])
        then show ?thesis using us(3) False by auto
      qed
    qed
  qed
qed

section \<open>The translation\<close>

lemma cnf_DistributiveFormula_ok:
  assumes F: "fol_ok F" and t: "nnf_tree ar F t"
  shows "\<exists>t'. cnf_DistributiveFormula F t = Some t' \<and> cnf_form ar F t' \<and> (\<forall>v. holds F I v t' \<longleftrightarrow> holds F I v t)"
proof (cases "term_TopSymbol t = fol_Or F \<or> term_TopSymbol t = fol_And F")
  case False
  then have "literal ar F t" using t by (cases t) simp
  then show ?thesis using False by (simp add: cnf_DistributiveFormula_def symbol_Equal_def cnf_form_def clause_def)
next
  case True
  obtain t1 where t1: "cnf_ScanTree F t = Some (t1, or_positions F t1)" "flat_tree ar F t1" "\<forall>v. holds F I v t1 \<longleftrightarrow> holds F I v t"
    using cnf_ScanTree_ok [OF F t] by blast
  obtain t2 where t2: "done_at ar F I t1 t2"
      "edit_stack (cnf_TransformTree_visit F) (map ((@) []) (or_positions F t1) @ []) t1 = edit_stack (cnf_TransformTree_visit F) [] (put_at t1 [] t2)"
    using flat_tree_transforms [OF F t1(2), of I] unfolding transforms_def by (metis term_at.simps(1))
  have "map ((@) []) (or_positions F t1) @ [] = or_positions F t1" by (simp add: map_idI)
  then have tr: "cnf_TransformTree F (or_positions F t1) t1 = Some t2"
    using t2(2) edit_stack.simps [of _ "[]"] by (simp add: cnf_TransformTree_def)
  obtain t3 where "cnf_Flatten t2 (fol_And F) = Some t3" "cnf_form ar F t3" "\<forall>v. holds F I v t3 \<longleftrightarrow> holds F I v t2"
    using cnf_Flatten_ok [OF F, of ar t2 I] t2(1) unfolding done_at_def by blast
  then show ?thesis using True t1 tr t2(1) by (simp add: cnf_DistributiveFormula_def symbol_Equal_def done_at_def)
qed

text \<open>C22: distribution returns for every tree of conjunctions and disjunctions over literals whose predicates and
  functions have fixed arities. The result is a clause or a conjunction of clauses, a clause being a literal
  or a nonempty disjunction of literals, and it is equivalent to the formula. So the disjunctions that wait on
  the stack are all still there when they are popped, and to drop what \<open>term_Equal\<close> takes for duplicates is sound.\<close>

theorem cnf_DistributiveFormula_correct:
  fixes I :: "'a interp"
  assumes "fol_ok F" "nnf_tree ar F T"
  shows "\<exists>T'. cnf_DistributiveFormula F T = Some T' \<and> fol_formula F T' \<and> (\<forall>v. holds F I v T' = holds F I v T)
    \<and> (clause ar F T' \<or> term_TopSymbol T' = fol_And F \<and> term_ArgumentList T' \<noteq> [] \<and> (\<forall>c \<in> set (term_ArgumentList T'). clause ar F c))"
proof -
  obtain T' where T': "cnf_DistributiveFormula F T = Some T'" "cnf_form ar F T'" "\<forall>v. holds F I v T' = holds F I v T"
    using cnf_DistributiveFormula_ok [OF assms, of I] by blast
  have "fol_formula F T'"
  proof (cases "clause ar F T'")
    case False
    then show ?thesis using T'(2) clause_formula [OF assms(1), of ar]
      by (cases T') (simp add: cnf_form_def clauses_def formula_simps [OF assms(1)])
  qed (rule clause_formula [OF assms(1)])
  then show ?thesis using T' unfolding cnf_form_def clauses_def by blast
qed

text \<open>\<open>(p(1) or (p(2) and not p(1))) or (p(1) and p(2))\<close>\<close>

definition sample_tree :: TERM_NODE where
  "sample_tree =
     (let p1 = sample_p [sample_v 1]; p2 = sample_p [sample_v 2] in
      sample_node fol_Or [sample_node fol_Or [p1, sample_node fol_And [p2, sample_node fol_Not [p1]]], sample_node fol_And [p1, p2]])"

theorem cnf_DistributiveFormula_correct_witness:
  "\<forall>I :: nat interp. \<exists>T'. cnf_DistributiveFormula sample_fol sample_tree = Some T'
    \<and> (\<forall>v. holds sample_fol I v T' = holds sample_fol I v sample_tree)"
proof -
  have "nnf_tree (\<lambda>s. if s = - 138 then 1 else 0) sample_fol sample_tree" by code_simp
  from cnf_DistributiveFormula_correct [OF sample_fol_ok this] show ?thesis by blast
qed

end
