(* ===== verification/Spec2Isabelle.thy ===== *)
theory Spec2Isabelle
  imports Spass_List_Properties LS_Properties Spass_Partition Spass_Symbol Spass_Term_Marks Spass_Order_Context
    Spass_Match_Properties Spass_CNF_Distribute_Stack
begin

text \<open>
  Verification library for the IDP knowledge-base system with local search and for the parts of the SPASS
  theorem prover that it ships with.

  \<^bold>\<open>The program.\<close> IDP (\<open>src/idpsourcecode/src\<close>, C++) reads theories and structures, grounds them, and hands
  them to solvers. Its inference \<open>inferences/localsearch\<close> improves a model with moves: the objective, the
  valid moves and the effect of a move are queries of the theory, and a search walks from solution to
  solution. The system calls the theorem prover SPASS (\<open>src/idpsourcecode/lib/SPASS-3.7/SPASS\<close>, C) for
  entailment. SPASS translates formulas to clauses and saturates these; below that lie its modules for
  lists, symbols, terms, bindings, unification and term orders.

  \<^bold>\<open>Local search\<close> (theories \<open>LS_*\<close>).
  \<^item> \<open>LS_Moves\<close>: \<open>NeighborhoodMove.cpp\<close> and the option string of \<open>Localsearch.cpp\<close>; comparison of moves,
    splitting, choice of the search.
  \<^item> \<open>LS_Search\<close>: the base class, \<open>BestImprovementSearch.cpp\<close>, \<open>FirstImprovementSearch.cpp\<close>. The record
    \<open>services\<close> holds the inferences that are called; what they promise is a hypothesis of the properties,
    which the examples satisfy with concrete functions.
  \<^item> \<open>LS_Tabu\<close> (\<open>TabuSearch.cpp\<close>), \<open>LS_ILS\<close> (\<open>ILS.cpp\<close>), \<open>LS_LNS\<close> (\<open>LargeNeighbourhoodSearch.cpp\<close>): the
    searches with their lists of forbidden moves, neighbourhoods, enabled moves and random numbers.
  \<^item> \<open>LS_Properties\<close>: the descents return, end in the best reachable of what they may choose, tabu lists
    keep their bound, the loop over enabled moves and its failure to end, the missing tests for null.
  The clock is the list of readings up to the last one in time, random numbers are arguments. Searches
  that the clock alone ends are recursive over this list. The disturbances of large neighbourhood search are
  modelled down to the queries, the minimisation and the tables of a structure, which are arguments; that
  removing tuples invalidates the iterator over them is not.

  \<^bold>\<open>Lists\<close> (\<open>Spass_Memory\<close>, \<open>Spass_Seg\<close>, \<open>Spass_List\<close>, \<open>Spass_List_Delete\<close>, \<open>Spass_List_Sets\<close>, \<open>Spass_List_Sort\<close>,
  \<open>Spass_List_Properties\<close>): \<open>list.h\<close>, \<open>list.c\<close> on a heap of nodes with the free list of \<open>memory.c\<close>. Loops are
  \<^theory_text>\<open>partial_function (option)\<close>; the lemmas show by induction on the segment that they return, which nodes
  the result has and which were freed. The other SPASS theories use Isabelle lists where the code has
  lists, which is what these lemmas justify for lists that are not shared.

  \<^bold>\<open>Partitions\<close> (\<open>Spass_Partition\<close>): \<open>partition.c\<close>, a union-find structure in one array, against an abstract
  partition; depth bound, reuse of the array by stamps.

  \<^bold>\<open>Symbols and terms.\<close>
  \<^item> \<open>Spass_Symbol\<close> (\<open>symbol.h\<close>, \<open>symbol.c\<close>): encoding, signature table with its invariant, precedences.
  \<^item> \<open>Spass_Term\<close>, \<open>Spass_Term_Marks\<close> (\<open>term.h\<close>, \<open>term.c\<close>): terms as trees, walks with a stack against
    recursion, equality, replacement, the marks of variables, renaming, stamps.

  \<^bold>\<open>Orders\<close> (\<open>Spass_KBO\<close>, \<open>Spass_RPO\<close>, \<open>Spass_Order\<close>: \<open>kbo.c\<close>, \<open>rpos.c\<close>, \<open>order.c\<close>; below contexts:
  \<open>Spass_KBO_Context\<close>, \<open>Spass_RPO_Context\<close>, \<open>Spass_Order_Context\<close>): the code of the Knuth-Bendix order decides
  the order of the textbooks as long as no sum of weights overflows; this is a strict order with the subterm
  property. Comparing below bindings is comparing the terms that are read through them.

  \<^bold>\<open>Contexts, unification, matching.\<close>
  \<^item> \<open>Spass_Context\<close>, \<open>Spass_Deref\<close>, \<open>Spass_Deref_Terms\<close> (\<open>context.h\<close>, \<open>context.c\<close>): bindings, trail,
    backtracking, terms read through bindings. \<open>Spass_Env\<close> says what bindings mean.
  \<^item> \<open>Spass_Unify\<close>, \<open>Spass_Unify_Correct\<close>, \<open>Spass_Unify_Properties\<close> (\<open>unify.c\<close>): the functions return, answer
    whether there is a unifier, and leave a most general one; termination is by the number of unbound
    variables and the size of what is left on the stack.
  \<^item> \<open>Spass_Match\<close>, \<open>Spass_Match_Correct\<close>, \<open>Spass_ComGen_Correct\<close>, \<open>Spass_Match_Properties\<close> (\<open>unify.c\<close>, \<open>subst.c\<close>):
    matching, variants, common generalisations, substitutions.

  \<^bold>\<open>Formulas and clause normal form.\<close>
  \<^item> \<open>Spass_Formula\<close>, \<open>Spass_Formula_Init\<close> (\<open>foldfg.h\<close>, \<open>foldfg.c\<close>): the symbols and their creation in the
    signature table, formulas as terms, truth in an interpretation (\<open>holds\<close>), free variables.
  \<^item> \<open>Spass_Term_Edit\<close>: loops that change a formula in place while positions wait on a stack.
  \<^item> \<open>Spass_CNF\<close>, \<open>Spass_CNF_Polarity\<close>, \<open>Spass_CNF_Correct\<close>, \<open>Spass_CNF_Negation\<close> (\<open>cnf.c\<close>): polarity, removal
    of implications and equivalences, negation normal form. The loops return (the measures are weights of
    the nodes on the stack) and keep the truth of the formula.
  \<^item> \<open>Spass_CNF_Simplify\<close>, \<open>Spass_CNF_Simplify_Correct\<close>, \<open>Spass_CNF_Quantors\<close>: \<open>cnf_ObviousSimplifications\<close>.
  \<^item> \<open>Spass_CNF_Distribute\<close> (\<open>cnf_DistributiveFormula\<close> with what it calls), \<open>Spass_CNF_Distribute_Correct\<close> (clauses,
    products, duplicates), \<open>Spass_CNF_Distribute_Tree\<close> (flattening and the walk), \<open>Spass_CNF_Distribute_Stack\<close> (the
    stack is emptied from the inside; the result is an equivalent conjunction of clauses).

  \<^bold>\<open>Interfaces.\<close> The locales are \<open>block_allocator\<close> (allocation of nodes, \<open>Spass_Memory\<close>), \<open>deleter\<close> and \<open>all_deleter\<close>
  (what the set operations need of the deletions, \<open>Spass_List_Sets\<close>), \<open>unify_interface\<close> (what the loops of unification
  need of a visit, \<open>Spass_Unify_Correct\<close>) and \<open>stack_editor\<close> (\<open>Spass_Term_Edit\<close>). Each is interpreted on the functions
  of the code; \<open>stack_editor\<close> on the two translations whose visits push further positions.

  \<^bold>\<open>Conventions\<close> (\<open>Spec_Prelude\<close>). \<open>None\<close> is a null or dangling pointer that is followed, an access outside an array, or
  a loop that does not end; error reports are values of a sum or option. There is no fuel: a loop is
  structural recursion, recursion with a measure, or \<^theory_text>\<open>partial_function (option)\<close> with a theorem that it
  returns. Where the caller cannot tell them apart, an error report and a null pointer are both \<open>None\<close> (as in
  \<open>polarity_search\<close>). The checks that are compiled only for debugging are not part of the model.

  \<^bold>\<open>Sizes of numbers.\<close> \<open>NAT\<close> is a 32 bit word. The sums of weights of the Knuth-Bendix order are C \<open>int\<close>s that
  wrap around (\<open>int32\<close>); the theorem on the textbook order assumes that the weights fit (\<open>weights_fit\<close>), the
  theorems on comparison below contexts hold with the wrap-around. Elsewhere a C \<open>int\<close> is an integer without
  bound, and no bound is assumed: the counter of orderings of symbols (exact up to \<open>2^31\<close> creations), the size
  of the array of a partition (exact up to 715 million elements), and objective values and effects of moves
  in the local search. For greater values the theorems say nothing about the machine.

  \<^bold>\<open>Sizes of arrays.\<close> The stack of SPASS is an array of 10000 entries (\<open>stack_SIZE\<close>) and its vector one of
  20000 (\<open>vec_SIZE\<close>); their overflow is tested only in debugging code. The models use lists, so the theorems
  on walks through terms and formulas, on unification and on the loops of the clause normal form are about
  runs that stay within these arrays. The array of counts of the Knuth-Bendix order is modelled with its
  bound.

  \<^bold>\<open>Not modelled.\<close> Of local search: the lookup of the parts of a move by name, statistics and printing.
  Of IDP: parsing, grounding, binary decision diagrams, structures, querying and model expansion (the
  searches take them as arguments), the Lua interface. Of the modules above: printing, release of memory,
  name hashing, father links of terms. Of the clause normal form: renaming (\<open>renaming.c\<close>), antiprenexing, Skolemization, definitions.
  Of SPASS: sharing and indexing (\<open>sharing.c\<close>, \<open>st.c\<close>), clauses and inference rules, flags and proof
  search, the parsers. The libraries XSB, MiniSat(ID), Lua, SafeInt, Loki and gtest are third-party code.
\<close>

end
